(* ===== verification/Prelude.thy ===== *)
theory Prelude
  imports Main "HOL-Library.Word"
begin

text \<open>
  Shared vocabulary of the development: the machine types of the C++ sources, raw memory
  (\<open>new char[n]\<close>, \<open>memcpy\<close>), faults as values, and the generic list and word facts the
  component theories use.

  A \<open>size_t\<close> that counts bytes of one allocated block is a \<^typ>\<open>nat\<close>: every such count is
  bounded by the size of an allocation, so the 64-bit sums cannot wrap. The 8-, 16- and
  32-bit values of the wire format and of the protocol state are words and wrap.
\<close>

unbundle bit_operations_syntax

type_synonym byte = "8 word"
type_synonym uint8 = "8 word"
type_synonym uint16 = "16 word"
type_synonym uint32 = "32 word"
type_synonym uint64 = "64 word"

named_theorems mem_simps \<open>rewriting of raw memory and windows into it\<close>
named_theorems exec_simps \<open>sequencing of computations that may fault\<close>
named_theorems inv_intros \<open>preservation of component invariants\<close>

subsection \<open>Faults as values\<close>

text \<open>
  An \<open>ASSERT\<close> that fails stops a debug build (\<open>talk_base::Assert\<close> calls \<open>Break\<close>), an
  access outside an object is undefined, and so are a division by zero, a signed overflow and a shift by the width of the operand or
  more. They are values of the model, so that their absence is a theorem and not a
  convention.
\<close>

datatype fault = Assertion_failed | Out_of_bounds | Null_pointer | Undefined_shift | Division_by_zero | Signed_overflow

type_synonym 'a exec = "fault + 'a"

definition andThen :: "'a exec \<Rightarrow> ('a \<Rightarrow> 'b exec) \<Rightarrow> 'b exec" where
  "andThen m f = (case m of Inl e \<Rightarrow> Inl e | Inr x \<Rightarrow> f x)"

definition ASSERT :: "bool \<Rightarrow> unit exec" where
  "ASSERT b = (if b then Inr () else Inl Assertion_failed)"

lemma andThen_Inr [simp]: "andThen (Inr x) f = f x"
  by (simp add: andThen_def)

lemma andThen_Inl [simp]: "andThen (Inl e) f = Inl e"
  by (simp add: andThen_def)

lemma ASSERT_True [simp]: "ASSERT True = Inr ()"
  by (simp add: ASSERT_def)

lemma andThen_eq_Inr_iff: "andThen m f = Inr y \<longleftrightarrow> (\<exists>x. m = Inr x \<and> f x = Inr y)"
  by (cases m) simp_all

lemma ASSERT_eq_Inr_iff [simp]: "ASSERT b = Inr u \<longleftrightarrow> b"
  by (simp add: ASSERT_def)

lemma andThen_ASSERT [simp]:
  "b \<Longrightarrow> andThen (ASSERT b) f = f ()"
  by (simp add: ASSERT_def)

lemma andThen_assoc: "andThen (andThen m f) g = andThen m (\<lambda>x. andThen (f x) g)"
  by (cases m) simp_all

lemma andThen_cong [fundef_cong]:
  assumes "m = m'" and "\<And>x. m' = Inr x \<Longrightarrow> f x = f' x"
  shows "andThen m f = andThen m' f'"
  using assms by (cases m') simp_all

lemmas exec_basic [exec_simps] =
  andThen_Inr andThen_Inl ASSERT_True andThen_eq_Inr_iff ASSERT_eq_Inr_iff

subsection \<open>Raw memory\<close>

text \<open>
  \<open>new_char g n\<close> is a block of \<open>n\<close> bytes with unspecified contents \<open>g\<close>; \<open>blit dst k src\<close>
  is \<open>memcpy(dst + k, src, |src|)\<close> for a copy that stays inside \<open>dst\<close>.
\<close>

definition new_char :: "(nat \<Rightarrow> byte) \<Rightarrow> nat \<Rightarrow> byte list" where
  "new_char g n = map g [0..<n]"

definition blit :: "'a list \<Rightarrow> nat \<Rightarrow> 'a list \<Rightarrow> 'a list" where
  "blit dst k src = take k dst @ src @ drop (k + length src) dst"

lemma length_new_char [simp, mem_simps]: "length (new_char g n) = n"
  by (simp add: new_char_def)

lemma length_blit [simp, mem_simps]:
  "k + length src \<le> length dst \<Longrightarrow> length (blit dst k src) = length dst"
  by (simp add: blit_def)

lemma blit_Nil [simp, mem_simps]: "blit dst k [] = dst"
  by (simp add: blit_def)

lemma nth_blit:
  assumes "k + length src \<le> length dst" and "i < length dst"
  shows "blit dst k src ! i = (if k \<le> i \<and> i < k + length src then src ! (i - k) else dst ! i)"
  using assms by (auto simp: blit_def nth_append min_def)

lemma take_blit_before [mem_simps]: "n \<le> k \<Longrightarrow> k \<le> length dst \<Longrightarrow> take n (blit dst k src) = take n dst"
  by (simp add: blit_def)

lemma drop_blit_after [mem_simps]:
  "k + length src \<le> n \<Longrightarrow> k + length src \<le> length dst \<Longrightarrow> drop n (blit dst k src) = drop n dst"
  by (simp add: blit_def)

lemma window_blit [mem_simps]:
  "k + length src \<le> length dst \<Longrightarrow> take (length src) (drop k (blit dst k src)) = src"
  by (simp add: blit_def)

subsection \<open>Lists\<close>

lemma map_nth_upt_take_drop:
  "a + n \<le> length xs \<Longrightarrow> map (\<lambda>i. xs ! (a + i)) [0..<n] = take n (drop a xs)"
  by (intro nth_equalityI) simp_all

lemma take_add_drop: "take (m + n) xs = take m xs @ take n (drop m xs)"
  by (simp add: take_add)

lemma sum_list_take_drop: "sum_list xs = sum_list (take n xs) + sum_list (drop n (xs :: nat list))"
  by (metis append_take_drop_id sum_list_append)

subsection \<open>Words\<close>

lemma unat_add_no_wrap:
  fixes a b :: "'a::len word"
  assumes "unat a + unat b < 2 ^ LENGTH('a)"
  shows "unat (a + b) = unat a + unat b"
  using assms by (simp add: unat_word_ariths)

lemma unat_diff_le:
  fixes a b :: "'a::len word"
  assumes "b \<le> a"
  shows "unat (a - b) = unat a - unat b"
  using assms by (rule unat_sub)

lemma unat_of_nat_lt:
  assumes "n < 2 ^ LENGTH('a::len)"
  shows "unat (of_nat n :: 'a word) = n"
  using assms by (simp add: unat_of_nat take_bit_nat_eq_self)

end
