(* ===== verification/Bytes.thy ===== *)
theory Bytes
  imports Prelude
begin

text \<open>
  What the encodings of \<^verbatim>\<open>talk/base\<close> share: characters as bytes, the search of the C library, and proofs about all bytes.
\<close>

definition ascii :: "char \<Rightarrow> byte" where "ascii c = of_char c"

text \<open>\<open>strchr\<close> also finds the terminating zero; one past it is outside the array.\<close>

fun strchr :: "byte list \<Rightarrow> byte \<Rightarrow> nat option" where
  "strchr [] ch = (if ch = 0 then Some 0 else None)"
| "strchr (x # xs) ch = (if x = ch then Some 0 else map_option Suc (strchr xs ch))"

lemma strchr_found: "ch \<in> set xs \<Longrightarrow> \<exists>i < length xs. strchr xs ch = Some i"
  by (induction xs) auto

text \<open>A property of bytes holds if it holds for the 256 of them.\<close>

lemma all_bytes:
  assumes "list_all P (map word_of_nat [0..<256])"
  shows "P (b :: byte)"
proof -
  have "unat b < 256" using unsigned_less [of b, where 'a = nat] by simp
  then have "(word_of_nat (unat b) :: byte) \<in> word_of_nat ` {0..<256}" by (intro imageI) simp
  then have "b \<in> word_of_nat ` {0..<256}" by simp
  then show ?thesis using assms by (auto simp: list_all_iff)
qed

lemma byte_eqI8:
  fixes a b :: byte
  assumes "bit a 0 = bit b 0" "bit a 1 = bit b 1" "bit a 2 = bit b 2" "bit a 3 = bit b 3"
    "bit a 4 = bit b 4" "bit a 5 = bit b 5" "bit a 6 = bit b 6" "bit a 7 = bit b 7"
  shows "a = b"
proof (rule bit_word_eqI)
  fix n assume "n < LENGTH(8)"
  then have "n = 0 \<or> n = 1 \<or> n = 2 \<or> n = 3 \<or> n = 4 \<or> n = 5 \<or> n = 6 \<or> n = 7" by auto
  then show "bit a n = bit b n" using assms by blast
qed

end
