(* ===== verification/Base64.thy ===== *)
theory Base64
  imports Bytes
begin

text \<open>
  \<^verbatim>\<open>talk/base/base64.cc\<close> and its use in \<^verbatim>\<open>talk/xmpp/saslmechanism.cc\<close>: the encoding of credentials at login. Strings are lists of bytes. The pointers
  to results are not null. \<open>result\<close> is built by appending; that the encoder fills exactly the length it reserved is a lemma.
\<close>

definition kPad :: byte where "kPad = 61"
definition pd :: byte where "pd = 0xFD"
definition sp :: byte where "sp = 0xFE"
definition il :: byte where "il = 0xFF"

definition Base64Table :: "byte list" where
  "Base64Table = map of_char ''ABCDEFGHIJKLMNOPQRSTUVWXYZabcdefghijklmnopqrstuvwxyz0123456789+/''"

definition DecodeTable :: "byte list" where
  "DecodeTable = [
  il,il,il,il,il,il,il,il,il,sp,
  sp,sp,sp,sp,il,il,il,il,il,il,
  il,il,il,il,il,il,il,il,il,il,
  il,il,sp,il,il,il,il,il,il,il,
  il,il,il,62,il,il,il,63,52,53,
  54,55,56,57,58,59,60,61,il,il,
  il,pd,il,il,il, 0, 1, 2, 3, 4,
   5, 6, 7, 8, 9,10,11,12,13,14,
  15,16,17,18,19,20,21,22,23,24,
  25,il,il,il,il,il,il,26,27,28,
  29,30,31,32,33,34,35,36,37,38,
  39,40,41,42,43,44,45,46,47,48,
  49,50,51,il,il,il,il,il,il,il] @ replicate 126 il"

text \<open>A \<open>char\<close> is signed: a byte above 0x7F is below every letter.\<close>

definition IsBase64Char :: "byte \<Rightarrow> bool" where
  "IsBase64Char ch \<longleftrightarrow>
     ascii (CHR ''A'') \<le>s ch \<and> ch \<le>s ascii (CHR ''Z'') \<or> ascii (CHR ''a'') \<le>s ch \<and> ch \<le>s ascii (CHR ''z'') \<or>
     ascii (CHR ''0'') \<le>s ch \<and> ch \<le>s ascii (CHR ''9'') \<or> ch = ascii (CHR ''+'') \<or> ch = ascii (CHR ''/'')"

definition GetNextBase64Char :: "byte \<Rightarrow> byte option exec" where
  "GetNextBase64Char ch =
     (case strchr Base64Table ch of
        None \<Rightarrow> Inr None
      | Some i \<Rightarrow>
          if Suc i > length Base64Table then Inl Out_of_bounds
          else Inr (Some (if Suc i < length Base64Table then Base64Table ! Suc i else Base64Table ! 0)))"

definition IsBase64Encoded :: "byte list \<Rightarrow> bool" where
  "IsBase64Encoded str = list_all IsBase64Char str"

subsection \<open>Encoding\<close>

definition table_char :: "byte \<Rightarrow> byte" where
  "table_char c = Base64Table ! unat c"

function encode_loop :: "byte list \<Rightarrow> nat \<Rightarrow> byte list \<Rightarrow> byte list" where
  "encode_loop byte_data i result =
     (if i < length byte_data then
        let n = length byte_data;
            c0 = drop_bit 2 (byte_data ! i) AND 0x3f;
            c1 = push_bit 4 (byte_data ! i) AND 0x3f;
            i1 = Suc i;
            c1 = (if i1 < n then c1 OR (drop_bit 4 (byte_data ! i1) AND 0x0f) else c1);
            c2 = push_bit 2 (byte_data ! i1) AND 0x3f;
            i2 = (if i1 < n then Suc i1 else i1);
            c2 = (if i2 < n then c2 OR (drop_bit 6 (byte_data ! i2) AND 0x03) else c2);
            r2 = (if i1 < n then table_char c2 else kPad);
            r3 = (if i2 < n then table_char (byte_data ! i2 AND 0x3f) else kPad);
            i3 = (if i2 < n then Suc i2 else i2)
        in encode_loop byte_data i3 (result @ [table_char c0, table_char c1, r2, r3])
      else result)"
  by pat_completeness auto
termination
  by (relation "measure (\<lambda>(byte_data, i, _). length byte_data - i)") auto

definition EncodeFromArray :: "byte list \<Rightarrow> byte list" where
  "EncodeFromArray data = encode_loop data 0 []"

definition Encode :: "byte list \<Rightarrow> byte list" where
  "Encode data = EncodeFromArray data"

subsection \<open>Decoding\<close>

definition DO_PARSE_STRICT :: int where "DO_PARSE_STRICT = 1"
definition DO_PARSE_WHITE :: int where "DO_PARSE_WHITE = 2"
definition DO_PARSE_ANY :: int where "DO_PARSE_ANY = 3"
definition DO_PARSE_MASK :: int where "DO_PARSE_MASK = 3"
definition DO_PAD_YES :: int where "DO_PAD_YES = 4"
definition DO_PAD_ANY :: int where "DO_PAD_ANY = 8"
definition DO_PAD_NO :: int where "DO_PAD_NO = 12"
definition DO_PAD_MASK :: int where "DO_PAD_MASK = 12"
definition DO_TERM_BUFFER :: int where "DO_TERM_BUFFER = 16"
definition DO_TERM_CHAR :: int where "DO_TERM_CHAR = 32"
definition DO_TERM_ANY :: int where "DO_TERM_ANY = 48"
definition DO_TERM_MASK :: int where "DO_TERM_MASK = 48"
definition DO_STRICT :: int where "DO_STRICT = DO_PARSE_STRICT OR DO_PAD_YES OR DO_TERM_BUFFER"
definition DO_LAX :: int where "DO_LAX = DO_PARSE_ANY OR DO_PAD_ANY OR DO_TERM_CHAR"

text \<open>The loop of \<open>GetNextQuantum\<close> over the data from \<open>dpos\<close> on: \<open>byte_len\<close>, \<open>pad_len\<close>, \<open>pad_start\<close>, \<open>dpos\<close> and the buffer at its end.\<close>

fun quantum_loop ::
  "int \<Rightarrow> bool \<Rightarrow> byte list \<Rightarrow> nat \<Rightarrow> nat \<Rightarrow> nat \<Rightarrow> nat \<Rightarrow> byte list \<Rightarrow> nat \<times> nat \<times> nat \<times> nat \<times> byte list" where
  "quantum_loop parse_flags illegal_pads [] byte_len pad_len pad_start dpos qbuf = (byte_len, pad_len, pad_start, dpos, qbuf)"
| "quantum_loop parse_flags illegal_pads (ch # data) byte_len pad_len pad_start dpos qbuf =
     (if byte_len < 4 then
        let v = DecodeTable ! unat ch;
            qbuf = qbuf[byte_len := v];
            stop = (byte_len, pad_len, pad_start, dpos, qbuf);
            skip = quantum_loop parse_flags illegal_pads data byte_len pad_len pad_start (Suc dpos) qbuf
        in if v = il \<or> illegal_pads \<and> v = pd then (if parse_flags \<noteq> DO_PARSE_ANY then stop else skip)
           else if v = sp then (if parse_flags = DO_PARSE_STRICT then stop else skip)
           else if v = pd then
             (if byte_len < 2 then (if parse_flags \<noteq> DO_PARSE_ANY then stop else skip)
              else if byte_len + pad_len \<ge> 4 then (if parse_flags \<noteq> DO_PARSE_ANY then stop else skip)
              else
                quantum_loop parse_flags illegal_pads data byte_len (Suc pad_len)
                  (if Suc pad_len = 1 then dpos else pad_start) (Suc dpos) qbuf)
           else if pad_len > 0 \<and> parse_flags \<noteq> DO_PARSE_ANY then stop
           else quantum_loop parse_flags illegal_pads data (Suc byte_len) 0 pad_start (Suc dpos) qbuf
      else (byte_len, pad_len, pad_start, dpos, qbuf))"

text \<open>The result is the number of characters, the new position, the buffer and \<open>padded\<close>.\<close>

definition GetNextQuantum :: "int \<Rightarrow> bool \<Rightarrow> byte list \<Rightarrow> nat \<Rightarrow> byte list \<Rightarrow> nat \<times> nat \<times> byte list \<times> bool" where
  "GetNextQuantum parse_flags illegal_pads data dpos qbuf =
     (case quantum_loop parse_flags illegal_pads (drop dpos data) 0 0 0 dpos qbuf of (byte_len, pad_len, pad_start, dpos1, qbuf1) \<Rightarrow>
      let qbuf2 = take byte_len qbuf1 @ replicate (4 - byte_len) 0
      in if byte_len + pad_len = 4 then (byte_len, dpos1, qbuf2, True)
         else (byte_len, if pad_len \<noteq> 0 then pad_start else dpos1, qbuf2, False))"

text \<open>What one quantum appends, and the bits that remain in \<open>c\<close>.\<close>

definition quantum_bytes :: "nat \<Rightarrow> byte list \<Rightarrow> byte list \<times> byte" where
  "quantum_bytes qlen q =
     (let a = push_bit 2 (q ! 0) OR (drop_bit 4 (q ! 1) AND 0x3);
          b = (push_bit 4 (q ! 1) AND 0xf0) OR (drop_bit 2 (q ! 2) AND 0xf);
          c = (push_bit 6 (q ! 2) AND 0xc0) OR q ! 3
      in if qlen \<ge> 4 then ([a, b, c], 0) else if qlen \<ge> 3 then ([a, b], c) else if qlen \<ge> 2 then ([a], b) else ([], a))"

text \<open>A full quantum moves the position forward by its four characters at least.\<close>

lemma quantum_cases:
  assumes "quantum_loop p ip (ch # xs) bl pl ps dp q = r" and "bl < 4"
  obtains "r = (bl, pl, ps, dp, q[bl := DecodeTable ! unat ch])"
  | b p2 s2 q2 where "quantum_loop p ip xs b p2 s2 (Suc dp) q2 = r" "b = bl \<or> b = Suc bl \<and> p2 = 0"
  using assms by (simp add: Let_def split: if_splits; metis)

lemma quantum_progress:
  assumes "quantum_loop p ip xs bl pl ps dp q = (bl', pl', ps', dp', q')" and "bl \<le> 4" and "bl = 4 \<longrightarrow> pl = 0"
  shows "dp + bl' \<le> dp' + bl \<and> bl \<le> bl' \<and> bl' \<le> 4 \<and> dp' \<le> dp + length xs \<and> (bl' = 4 \<longrightarrow> pl' = 0)"
  using assms
proof (induction xs arbitrary: bl pl ps dp q)
  case (Cons ch xs)
  show ?case
  proof (cases "bl < 4")
    case True
    from Cons.prems(1) True show ?thesis
    proof (cases rule: quantum_cases)
      case (2 b p2 s2 q2)
      then show ?thesis using Cons.IH [OF 2(1)] True by auto
    qed (use True in simp)
  qed (use Cons.prems in simp)
qed simp

lemma full_quantum_progress:
  assumes "GetNextQuantum p ip data dpos q = (qlen, dpos1, q1, padded)" and "\<not> qlen < 4"
  shows "dpos + 4 \<le> dpos1"
proof -
  obtain bl pl ps dp q' where l: "quantum_loop p ip (drop dpos data) 0 0 0 dpos q = (bl, pl, ps, dp, q')" by (metis prod_cases5)
  then show ?thesis using assms quantum_progress [OF l] by (auto simp: GetNextQuantum_def Let_def split: if_splits)
qed

function decode_loop :: "int \<Rightarrow> int \<Rightarrow> int \<Rightarrow> byte list \<Rightarrow> nat \<Rightarrow> byte list \<Rightarrow> byte list \<Rightarrow> bool \<times> byte list \<times> nat" where
  "decode_loop parse_flags pad_flags term_flags data dpos qbuf result =
     (if dpos < length data then
        case GetNextQuantum parse_flags (DO_PAD_NO = pad_flags) data dpos qbuf of (qlen, dpos1, qbuf1, padded) \<Rightarrow>
        case quantum_bytes qlen qbuf1 of (bytes, c) \<Rightarrow>
          if qlen < 4 then
            (\<not> (DO_TERM_ANY \<noteq> term_flags \<and> 0 \<noteq> c) \<and> \<not> (DO_PAD_YES = pad_flags \<and> \<not> padded), result @ bytes, dpos1)
          else decode_loop parse_flags pad_flags term_flags data dpos1 qbuf1 (result @ bytes)
      else (True, result, dpos))"
  by pat_completeness auto
termination
  by (relation "measure (\<lambda>(_, _, _, data, dpos, _, _). length data - dpos)") (auto dest!: full_quantum_progress [OF sym])

text \<open>\<open>qbuf\<close> starts unspecified. The result is the success, the decoded string and \<open>data_used\<close>.\<close>

definition DecodeFromArrayTemplate :: "byte list \<Rightarrow> byte list \<Rightarrow> int \<Rightarrow> (bool \<times> byte list \<times> nat) exec" where
  "DecodeFromArrayTemplate fresh data flags =
     andThen (ASSERT (flags \<le> (DO_PARSE_MASK OR DO_PAD_MASK OR DO_TERM_MASK))) (\<lambda>_.
     let parse_flags = flags AND DO_PARSE_MASK; pad_flags = flags AND DO_PAD_MASK; term_flags = flags AND DO_TERM_MASK in
     andThen (ASSERT (0 \<noteq> parse_flags)) (\<lambda>_.
     andThen (ASSERT (0 \<noteq> pad_flags)) (\<lambda>_.
     andThen (ASSERT (0 \<noteq> term_flags)) (\<lambda>_.
     case decode_loop parse_flags pad_flags term_flags data 0 fresh [] of (success, result, dpos) \<Rightarrow>
     Inr (success \<and> \<not> (DO_TERM_BUFFER = term_flags \<and> dpos \<noteq> length data), result, dpos)))))"

definition Decode :: "byte list \<Rightarrow> byte list \<Rightarrow> int \<Rightarrow> byte list exec" where
  "Decode fresh data flags = andThen (DecodeFromArrayTemplate fresh data flags) (\<lambda>(success, result, dpos). Inr result)"

definition SaslMechanism_Base64Encode :: "byte list \<Rightarrow> byte list" where
  "SaslMechanism_Base64Encode plain = Encode plain"

definition SaslMechanism_Base64Decode :: "byte list \<Rightarrow> byte list \<Rightarrow> byte list exec" where
  "SaslMechanism_Base64Decode fresh encoded = Decode fresh encoded DO_LAX"

lemmas flag_defs = DO_PARSE_STRICT_def DO_PARSE_WHITE_def DO_PARSE_ANY_def DO_PARSE_MASK_def DO_PAD_YES_def DO_PAD_ANY_def DO_PAD_NO_def DO_PAD_MASK_def
  DO_TERM_BUFFER_def DO_TERM_CHAR_def DO_TERM_ANY_def DO_TERM_MASK_def DO_STRICT_def DO_LAX_def

subsection \<open>The tables\<close>

definition val6 :: "byte \<Rightarrow> byte" where "val6 ch = DecodeTable ! unat ch"

definition is64 :: "byte \<Rightarrow> bool" where "is64 ch \<longleftrightarrow> val6 ch < 64"

lemma table_forward: "c < 64 \<Longrightarrow> val6 (table_char c) = c"
proof -
  have "(\<lambda>c. c < 64 \<longrightarrow> val6 (table_char c) = c) c" by (rule all_bytes) code_simp
  then show "c < 64 \<Longrightarrow> val6 (table_char c) = c" by simp
qed

lemma table_backward: "is64 ch \<Longrightarrow> table_char (val6 ch) = ch"
proof -
  have "(\<lambda>ch. is64 ch \<longrightarrow> table_char (val6 ch) = ch) ch" by (rule all_bytes) code_simp
  then show "is64 ch \<Longrightarrow> table_char (val6 ch) = ch" by simp
qed

lemma val6_cases: "is64 ch \<or> val6 ch = il \<or> val6 ch = sp \<or> ch = kPad"
  by (rule all_bytes) code_simp

lemma is64_iff: "is64 ch \<longleftrightarrow> IsBase64Char ch"
  by (rule all_bytes) code_simp

subsection \<open>Three bytes and four characters\<close>

lemma six_bits: "q < 64 \<longleftrightarrow> \<not> bit q 6 \<and> \<not> bit q 7" for q :: byte
  by (rule all_bytes) code_simp

text \<open>The four 6-bit numbers of three bytes, and back.\<close>

definition sixes :: "byte \<Rightarrow> byte \<Rightarrow> byte \<Rightarrow> byte list" where
  "sixes x y z = [drop_bit 2 x AND 0x3f, (push_bit 4 x AND 0x3f) OR (drop_bit 4 y AND 0x0f), (push_bit 2 y AND 0x3f) OR (drop_bit 6 z AND 0x03), z AND 0x3f]"

lemma bytes_of_sixes: "quantum_bytes 4 (sixes x y z) = ([x, y, z], 0)"
  unfolding quantum_bytes_def sixes_def by (simp add: Let_def; intro conjI byte_eqI8; simp add: bit_simps)

lemma sixes_small: "list_all (\<lambda>q. q < 64) (sixes x y z)"
  by (simp add: sixes_def six_bits bit_simps)

lemma sixes_of_bytes:
  assumes "a < 64" "b < 64" "c < 64" "d < 64" and "fst (quantum_bytes 4 [a, b, c, d]) = [x, y, z]"
  shows "sixes x y z = [a, b, c, d]"
proof -
  have x: "x = push_bit 2 a OR (drop_bit 4 b AND 0x3)" and y: "y = (push_bit 4 b AND 0xf0) OR (drop_bit 2 c AND 0xf)"
    and z: "z = (push_bit 6 c AND 0xc0) OR d"
    using assms(5) by (simp_all add: quantum_bytes_def Let_def)
  note b = assms(1-4) [unfolded six_bits]
  have "drop_bit 2 x AND 0x3f = a" unfolding x by (intro byte_eqI8; use b in \<open>simp add: bit_simps\<close>)
  moreover have "(push_bit 4 x AND 0x3f) OR (drop_bit 4 y AND 0x0f) = b" unfolding x y by (intro byte_eqI8; use b in \<open>simp add: bit_simps\<close>)
  moreover have "(push_bit 2 y AND 0x3f) OR (drop_bit 6 z AND 0x03) = c" unfolding y z by (intro byte_eqI8; use b in \<open>simp add: bit_simps\<close>)
  moreover have "z AND 0x3f = d" unfolding z by (intro byte_eqI8; use b in \<open>simp add: bit_simps\<close>)
  ultimately show ?thesis by (simp add: sixes_def)
qed

text \<open>The encoding of three bytes at a time; a last group of one or two bytes is completed by zeros and shortened by padding.\<close>

fun enc :: "byte list \<Rightarrow> byte list" where
  "enc [] = []"
| "enc [x] = map table_char (take 2 (sixes x 0 0)) @ [kPad, kPad]"
| "enc [x, y] = map table_char (take 3 (sixes x y 0)) @ [kPad]"
| "enc (x # y # z # rest) = map table_char (sixes x y z) @ enc rest"

declare encode_loop.simps [simp del] decode_loop.simps [simp del]

lemma drop_nth:
  assumes "drop i data = us @ vs"
  shows "k < length us \<Longrightarrow> data ! (i + k) = us ! k" and "drop (i + length us) data = vs" and "us \<noteq> [] \<Longrightarrow> length data = i + length us + length vs"
proof -
  show "drop (i + length us) data = vs" using assms by (metis add.commute append_eq_conv_conj drop_drop)
  have l: "length data - i = length us + length vs" using arg_cong [OF assms, of length] by simp
  then show "us \<noteq> [] \<Longrightarrow> length data = i + length us + length vs" by (cases us) auto
  show "k < length us \<Longrightarrow> data ! (i + k) = us ! k"
    using assms l by (metis add_leD1 less_imp_le nat_le_linear diff_is_0_eq nth_append nth_drop add_is_0 less_zeroE not_less_zero)
qed

lemma encode_loop_eq: "drop i data = xs \<Longrightarrow> encode_loop data i result = result @ enc xs"
proof (induction xs arbitrary: i result rule: enc.induct)
  case 1
  then show ?case by (subst encode_loop.simps) simp
next
  case (2 x)
  note d = drop_nth [of i data "[x]" "[]"]
  have "encode_loop data (Suc i) r = r" for r using d(3) 2 by (subst encode_loop.simps) simp
  then show ?case using d(1) [of 0] d(3) 2 by (subst encode_loop.simps) (simp add: Let_def sixes_def)
next
  case (3 x y)
  note d = drop_nth [of i data "[x, y]" "[]"]
  have "encode_loop data (Suc (Suc i)) r = r" for r using d(3) 3 by (subst encode_loop.simps) simp
  then show ?case using d(1) [of 0] d(1) [of 1] d(3) 3 by (subst encode_loop.simps) (simp add: Let_def sixes_def)
next
  case (4 x y z rest)
  note d = drop_nth [of i data "[x, y, z]" rest]
  have "encode_loop data (Suc (Suc (Suc i))) r = r @ enc rest" for r using 4(1) [of "Suc (Suc (Suc i))"] d(2) 4(2) by (simp add: numeral_3_eq_3)
  then show ?case using d(1) [of 0] d(1) [of 1] d(1) [of 2] d(3) 4(2) by (subst encode_loop.simps) (simp add: Let_def sixes_def numeral_2_eq_2)
qed

lemma Encode_eq: "Encode data = enc data"
  by (simp add: Encode_def EncodeFromArray_def encode_loop_eq [of 0 data data])

subsection \<open>Quanta\<close>

lemma val6_valid: "is64 ch \<Longrightarrow> val6 ch \<noteq> il \<and> val6 ch \<noteq> sp \<and> val6 ch \<noteq> pd"
  by (auto simp: is64_def il_def sp_def pd_def)

lemma val6_pad: "val6 kPad = pd" "\<not> is64 kPad" "pd \<noteq> il" "pd \<noteq> sp"
  by code_simp+

lemma q_valid:
  "is64 a \<Longrightarrow> bl < 4 \<Longrightarrow> quantum_loop p ip (a # xs) bl 0 ps dp q = quantum_loop p ip xs (Suc bl) 0 ps (Suc dp) (q[bl := val6 a])"
  using val6_valid [of a] by (simp add: Let_def val6_def)

lemma q_pad:
  "2 \<le> bl \<Longrightarrow> bl + pl < 4 \<Longrightarrow>
   quantum_loop p False (kPad # xs) bl pl ps dp q = quantum_loop p False xs bl (Suc pl) (if pl = 0 then dp else ps) (Suc dp) (q[bl := pd])"
  using val6_pad by (simp add: Let_def val6_def)

lemma q_end: "quantum_loop p ip xs 4 pl ps dp q = (4, pl, ps, dp, q)"
  by (cases xs) simp_all

lemma q_valids:
  assumes "list_all is64 us" and "bl + length us \<le> 4" and "length q = 4"
  shows "\<exists>q'. quantum_loop p ip (us @ xs) bl 0 ps dp q = quantum_loop p ip xs (bl + length us) 0 ps (dp + length us) q' \<and>
    take (bl + length us) q' = take bl q @ map val6 us \<and> length q' = 4"
  using assms
proof (induction us arbitrary: bl dp q)
  case (Cons u us)
  have "\<exists>q'. quantum_loop p ip (us @ xs) (Suc bl) 0 ps (Suc dp) (q[bl := val6 u]) = quantum_loop p ip xs (Suc bl + length us) 0 ps (Suc dp + length us) q' \<and>
    take (Suc bl + length us) q' = take (Suc bl) (q[bl := val6 u]) @ map val6 us \<and> length q' = 4"
    using Cons.IH [of "Suc bl" "q[bl := val6 u]" "Suc dp"] Cons.prems by simp
  moreover have "take (Suc bl) (q[bl := val6 u]) = take bl q @ [val6 u]" using Cons.prems by (simp add: take_Suc_conv_app_nth)
  ultimately show ?case using Cons.prems q_valid [of u bl p ip "us @ xs" ps dp q] by simp
qed auto

lemma q_pads:
  assumes "2 \<le> bl" and "bl < 4" and "bl + pl + k \<le> 4" and "length q = 4"
  shows "\<exists>ps' q'. quantum_loop p False (replicate k kPad) bl pl ps dp q = (bl, pl + k, ps', dp + k, q') \<and> take bl q' = take bl q"
  using assms
proof (induction k arbitrary: pl ps dp q)
  case (Suc k)
  then show ?case using q_pad [of bl pl p "replicate k kPad" ps dp q]
    Suc.IH [of "Suc pl" "q[bl := pd]" "if pl = 0 then dp else ps" "Suc dp"] by (simp del: quantum_loop.simps)
qed simp

lemma quantum_full:
  assumes "drop dpos data = us @ xs" and "list_all is64 us" and "length us = 4" and "length q = 4"
  shows "GetNextQuantum p ip data dpos q = (4, dpos + 4, map val6 us, True)"
  using q_valids [of us 0 q p ip xs 0 dpos] assms by (auto simp: GetNextQuantum_def q_end)

lemma quantum_last:
  assumes "drop dpos data = us @ replicate (4 - length us) kPad" and "list_all is64 us" and "length us = 2 \<or> length us = 3" and "length q = 4"
  shows "GetNextQuantum p False data dpos q = (length us, dpos + 4, map val6 us @ replicate (4 - length us) 0, True)"
proof -
  let ?n = "length us"
  obtain q1 where q1: "quantum_loop p False (drop dpos data) 0 0 0 dpos q = quantum_loop p False (replicate (4 - ?n) kPad) ?n 0 0 (dpos + ?n) q1"
    "take ?n q1 = map val6 us" "length q1 = 4"
    using q_valids [of us 0 q p False "replicate (4 - ?n) kPad" 0 dpos] assms by auto
  obtain ps q2 where q2: "quantum_loop p False (replicate (4 - ?n) kPad) ?n 0 0 (dpos + ?n) q1 = (?n, 0 + (4 - ?n), ps, dpos + ?n + (4 - ?n), q2)"
    "take ?n q2 = take ?n q1"
    using q_pads [of ?n 0 "4 - ?n" q1 p 0 "dpos + ?n"] assms(3) q1(3) by auto
  have n: "dpos + ?n + (4 - ?n) = dpos + 4" "?n + (0 + (4 - ?n)) = 4" using assms(3) by auto
  show ?thesis unfolding GetNextQuantum_def q1(1) q2(1) n using q1 q2(2) n by simp
qed

lemma table_is64: "list_all (\<lambda>q. q < 64) qs \<Longrightarrow> list_all is64 (map table_char qs) \<and> map val6 (map table_char qs) = qs"
  by (induction qs) (auto simp: is64_def table_forward)

lemma bytes_of_part:
  "quantum_bytes 2 (take 2 (sixes x 0 0) @ [0, 0]) = ([x], 0)" "quantum_bytes 3 (take 3 (sixes x y 0) @ [0]) = ([x, y], 0)"
  unfolding quantum_bytes_def sixes_def by (simp_all add: Let_def) (intro conjI byte_eqI8; simp add: bit_simps)+

lemma decode_enc:
  assumes "drop dpos data = enc xs" and "dpos \<le> length data" and "length q = 4" and "pad = DO_PAD_NO \<longrightarrow> 3 dvd length xs"
  shows "decode_loop p pad t data dpos q res = (True, res @ xs, length data)"
  using assms
proof (induction xs arbitrary: dpos q res rule: enc.induct)
  case 1
  then show ?case by (simp add: decode_loop.simps)
next
  case (2 x)
  let ?us = "map table_char (take 2 (sixes x 0 0))"
  have l: "length ?us = 2" by (simp add: sixes_def)
  have v: "list_all is64 ?us" "map val6 ?us = take 2 (sixes x 0 0)"
    using table_is64 [of "take 2 (sixes x 0 0)"] sixes_small [of x 0 0] by (auto simp: list_all_iff dest: in_set_takeD)
  have "GetNextQuantum p False data dpos q = (2, dpos + 4, take 2 (sixes x 0 0) @ [0, 0], True)"
    using quantum_last [of dpos data ?us q p] 2 l v by (simp add: numeral_2_eq_2)
  moreover have "length data = dpos + 4" using arg_cong [OF 2(1), of length] l 2(2) by simp
  ultimately show ?case using 2 by (simp add: decode_loop.simps [of p pad t data dpos] bytes_of_part)
next
  case (3 x y)
  let ?us = "map table_char (take 3 (sixes x y 0))"
  have l: "length ?us = 3" by (simp add: sixes_def)
  have v: "list_all is64 ?us" "map val6 ?us = take 3 (sixes x y 0)"
    using table_is64 [of "take 3 (sixes x y 0)"] sixes_small [of x y 0] by (auto simp: list_all_iff dest: in_set_takeD)
  have "GetNextQuantum p False data dpos q = (3, dpos + 4, take 3 (sixes x y 0) @ [0], True)"
    using quantum_last [of dpos data ?us q p] 3 l v by (simp add: numeral_3_eq_3)
  moreover have "length data = dpos + 4" using arg_cong [OF 3(1), of length] l 3(2) by simp
  moreover have "\<not> (3 :: nat) dvd 2" by simp
  moreover from this have "pad \<noteq> DO_PAD_NO" using 3(4) by (auto simp: numeral_2_eq_2)
  ultimately show ?case using 3 by (simp add: decode_loop.simps [of p pad t data dpos] bytes_of_part)
next
  case (4 x y z rest)
  let ?us = "map table_char (sixes x y z)"
  have l: "length ?us = 4" by (simp add: sixes_def)
  have v: "list_all is64 ?us" "map val6 ?us = sixes x y z" using table_is64 [OF sixes_small] by auto
  have g: "GetNextQuantum p ip data dpos q = (4, dpos + 4, sixes x y z, True)" for ip using quantum_full [of dpos data ?us "enc rest" q] 4 l v by simp
  have d: "drop (dpos + 4) data = enc rest" using drop_nth(2) [of dpos data ?us "enc rest"] 4(2) l by simp
  have n: "dpos < length data" "dpos + 4 \<le> length data" using arg_cong [OF 4(2), of length] l by simp_all
  have "3 dvd length (x # y # z # rest) \<longleftrightarrow> 3 dvd length rest" using dvd_add_right_iff [of 3 3 "length rest"] by (simp add: numeral_3_eq_3)
  then have r: "pad = DO_PAD_NO \<longrightarrow> 3 dvd length rest" using 4(5) by blast
  have "decode_loop p pad t data (dpos + 4) (sixes x y z) (res @ [x, y, z]) = (True, (res @ [x, y, z]) @ rest, length data)"
    using 4(1) [OF d n(2), of "sixes x y z" "res @ [x, y, z]"] r by (simp add: sixes_def)
  then show ?case using n by (simp add: decode_loop.simps [of p pad t data dpos] g bytes_of_sixes)
qed

text \<open>In the strict mode nothing is skipped: a quantum that ends at the end of the data has the form that the encoder writes.\<close>

lemma q_stop: "val6 ch = il \<or> val6 ch = sp \<Longrightarrow> bl < 4 \<Longrightarrow> quantum_loop DO_PARSE_STRICT ip (ch # xs) bl pl ps dp q = (bl, pl, ps, dp, q[bl := val6 ch])"
  by (auto simp: Let_def val6_def DO_PARSE_STRICT_def DO_PARSE_ANY_def)

lemma q_stop_pad:
  "bl < 2 \<or> 4 \<le> bl + pl \<Longrightarrow> bl < 4 \<Longrightarrow> quantum_loop DO_PARSE_STRICT False (kPad # xs) bl pl ps dp q = (bl, pl, ps, dp, q[bl := pd])"
  using val6_pad by (auto simp: Let_def val6_def DO_PARSE_STRICT_def DO_PARSE_ANY_def)

lemma q_stop_data:
  "is64 ch \<Longrightarrow> 0 < pl \<Longrightarrow> bl < 4 \<Longrightarrow> quantum_loop DO_PARSE_STRICT ip (ch # xs) bl pl ps dp q = (bl, pl, ps, dp, q[bl := val6 ch])"
  using val6_valid [of ch] by (auto simp: Let_def val6_def DO_PARSE_STRICT_def DO_PARSE_ANY_def)

declare quantum_loop.simps(2) [simp del]

lemma q_strict_pads:
  assumes "quantum_loop DO_PARSE_STRICT False xs bl pl ps dp q = (bl', pl', ps', dp', q')" and "0 < pl" and "bl < 4"
  shows "bl' = bl \<and> take bl q' = take bl q \<and> dp' \<le> dp + length xs \<and> (bl + pl' = 4 \<longrightarrow> dp' = dp + length xs \<longrightarrow> xs = replicate (4 - bl - pl) kPad)"
  using assms
proof (induction xs arbitrary: pl ps dp q)
  case (Cons ch xs)
  consider "val6 ch = il \<or> val6 ch = sp" | "ch = kPad" "bl < 2 \<or> 4 \<le> bl + pl" | "ch = kPad" "2 \<le> bl" "bl + pl < 4" | "is64 ch"
    using val6_cases [of ch] by fastforce
  then show ?case
  proof cases
    case 3
    note IH = Cons.IH [of "Suc pl" ps "Suc dp" "q[bl := pd]"]
    have "4 - bl - pl = Suc (4 - bl - Suc pl)" using 3 by simp
    then show ?thesis using IH Cons.prems q_pad [OF 3(2,3), of DO_PARSE_STRICT xs ps dp q] 3(1) by simp
  qed (use Cons.prems q_stop [of ch bl False xs pl ps dp q] q_stop_pad [of bl pl xs ps dp q] q_stop_data [of ch pl bl False xs ps dp q] in auto)
qed auto

lemma q_strict:
  assumes "quantum_loop DO_PARSE_STRICT False xs bl 0 ps dp q = (bl', pl', ps', dp', q')" and "bl \<le> 4"
  shows "(\<exists>us zs. xs = us @ zs \<and> bl + length us = 4 \<and> list_all is64 us) \<or>
    bl' < 4 \<and> (bl' + pl' = 4 \<longrightarrow> dp' = dp + length xs \<longrightarrow>
      (\<exists>us. xs = us @ replicate (4 - (bl + length us)) kPad \<and> list_all is64 us \<and> (bl + length us = 2 \<or> bl + length us = 3)))"
  using assms
proof (induction xs arbitrary: bl ps dp q)
  case Nil
  then show ?case by (cases "bl = 4") auto
next
  case (Cons ch xs)
  consider "bl = 4" | "val6 ch = il \<or> val6 ch = sp" "bl < 4" | "ch = kPad" "bl < 2" | "ch = kPad" "2 \<le> bl" "bl < 4" | "is64 ch" "bl < 4"
    using val6_cases [of ch] Cons.prems(2) by fastforce
  then show ?case
  proof cases
    case 4
    have l: "quantum_loop DO_PARSE_STRICT False xs bl 1 dp (Suc dp) (q[bl := pd]) = (bl', pl', ps', dp', q')"
      using Cons.prems q_pad [of bl 0 DO_PARSE_STRICT xs ps dp q] 4 by simp
    have "xs = replicate (4 - bl - 1) kPad" if "bl + pl' = 4" "dp' = Suc dp + length xs"
      using q_strict_pads [OF l] 4 that by simp
    moreover have "4 - bl = Suc (4 - bl - 1)" using 4 by simp
    ultimately show ?thesis using q_strict_pads [OF l] 4 by (intro disjI2) (auto intro!: exI [of _ "[]"])
  next
    case 5
    have l: "quantum_loop DO_PARSE_STRICT False xs (Suc bl) 0 ps (Suc dp) (q[bl := val6 ch]) = (bl', pl', ps', dp', q')"
      using Cons.prems q_valid [OF 5, of DO_PARSE_STRICT False xs ps dp q] by simp
    have ext: "xs = us @ zs \<Longrightarrow> list_all is64 us \<Longrightarrow> ch # xs = (ch # us) @ zs \<and> list_all is64 (ch # us) \<and> bl + length (ch # us) = Suc bl + length us" for us zs
      using 5 by simp
    from Cons.IH [OF l] 5(2) consider us zs where "xs = us @ zs" "Suc bl + length us = 4" "list_all is64 us"
      | "bl' < 4" "bl' + pl' = 4 \<longrightarrow> dp' = Suc dp + length xs \<longrightarrow>
      (\<exists>us. xs = us @ replicate (4 - (Suc bl + length us)) kPad \<and> list_all is64 us \<and> (Suc bl + length us = 2 \<or> Suc bl + length us = 3))" by auto
    then show ?thesis
    proof cases
      case (1 us zs)
      then show ?thesis using ext [of us zs] by (intro disjI1 exI [of _ "ch # us"] exI [of _ zs]) simp
    next
      case 2
      have "\<exists>us. ch # xs = us @ replicate (4 - (bl + length us)) kPad \<and> list_all is64 us \<and> (bl + length us = 2 \<or> bl + length us = 3)"
        if h: "bl' + pl' = 4" "dp' = dp + length (ch # xs)"
      proof -
        obtain us where us: "xs = us @ replicate (4 - (Suc bl + length us)) kPad" "list_all is64 us" "Suc bl + length us = 2 \<or> Suc bl + length us = 3"
          using 2(2) h by auto
        show ?thesis using ext [OF us(1,2)] us(3) by (intro exI [of _ "ch # us"]) simp
      qed
      then show ?thesis using 2(1) by blast
    qed
  qed (use Cons.prems q_stop [of ch bl False xs 0 ps dp q] q_stop_pad [of bl 0 xs ps dp q] in auto)
qed

text \<open>The bytes of an accepted quantum encode to its characters.\<close>

lemma chars_of_quantum:
  assumes "list_all is64 [a, b, c, d]" and "quantum_bytes 4 (map val6 [a, b, c, d]) = ([x, y, z], 0)"
  shows "map table_char (sixes x y z) = [a, b, c, d]"
  using sixes_of_bytes [of "val6 a" "val6 b" "val6 c" "val6 d" x y z] assms by (simp add: is64_def [symmetric] table_backward)

lemma chars_of_last2:
  assumes "list_all is64 [a, b]" and "quantum_bytes 2 [val6 a, val6 b, 0, 0] = ([x], 0)"
  shows "map table_char (take 2 (sixes x 0 0)) = [a, b]"
proof -
  have "fst (quantum_bytes 4 [val6 a, val6 b, 0, 0]) = [x, 0, 0]" using assms(2) by (simp add: quantum_bytes_def Let_def)
  then show ?thesis using sixes_of_bytes [of "val6 a" "val6 b" 0 0 x 0 0] assms(1) by (simp add: is64_def [symmetric] table_backward)
qed

lemma chars_of_last3:
  assumes "list_all is64 [a, b, c]" and "quantum_bytes 3 [val6 a, val6 b, val6 c, 0] = ([x, y], 0)"
  shows "map table_char (take 3 (sixes x y 0)) = [a, b, c]"
proof -
  have "fst (quantum_bytes 4 [val6 a, val6 b, val6 c, 0]) = [x, y, 0]" using assms(2) by (simp add: quantum_bytes_def Let_def)
  then show ?thesis using sixes_of_bytes [of "val6 a" "val6 b" "val6 c" 0 x y 0] assms(1) by (simp add: is64_def [symmetric] table_backward)
qed

text \<open>The strict decoder accepts only what the encoder writes.\<close>

lemma strict_quantum:
  assumes "GetNextQuantum DO_PARSE_STRICT False data dpos q = (qlen, dpos1, q1, padded)" and "dpos < length data"
  obtains us zs where "drop dpos data = us @ zs" "length us = 4" "list_all is64 us"
  | us where "drop dpos data = us @ replicate (4 - length us) kPad" "list_all is64 us" "length us = 2 \<or> length us = 3"
  | "qlen < 4" "padded \<longrightarrow> dpos1 \<noteq> length data"
proof -
  obtain bl pl ps dp q' where l: "quantum_loop DO_PARSE_STRICT False (drop dpos data) 0 0 0 dpos q = (bl, pl, ps, dp, q')" by (metis prod_cases5)
  show ?thesis using q_strict [OF l] assms that by (auto simp: GetNextQuantum_def l Let_def split: if_splits)
qed

lemma decode_strict:
  assumes "decode_loop DO_PARSE_STRICT DO_PAD_YES DO_TERM_BUFFER data dpos q res = (True, r, length data)" and "dpos \<le> length data" and "length q = 4"
  shows "\<exists>bs. r = res @ bs \<and> drop dpos data = enc bs"
  using assms
proof (induction "length data - dpos" arbitrary: dpos q res rule: less_induct)
  case less
  show ?case
  proof (cases "dpos < length data")
    case True
    obtain qlen dpos1 q1 padded where g: "GetNextQuantum DO_PARSE_STRICT False data dpos q = (qlen, dpos1, q1, padded)" by (metis prod_cases4)
    obtain bytes c where b: "quantum_bytes qlen q1 = (bytes, c)" by fastforce
    have f: "DO_PAD_NO \<noteq> DO_PAD_YES" "DO_TERM_ANY \<noteq> DO_TERM_BUFFER" by (simp_all add: DO_PAD_NO_def DO_PAD_YES_def DO_TERM_ANY_def DO_TERM_BUFFER_def)
    note step = less.prems(1) [unfolded decode_loop.simps [of _ _ _ data dpos]]
    have stop: "c = 0" "padded" "r = res @ bytes" "dpos1 = length data" if "qlen < 4" using step that True g b f by auto
    from g True show ?thesis
    proof (cases rule: strict_quantum)
      case (1 us zs)
      then obtain a1 a2 a3 a4 where us: "us = [a1, a2, a3, a4]" by (auto simp: numeral_eq_Suc length_Suc_conv)
      have q: "qlen = 4" "dpos1 = dpos + 4" "q1 = map val6 us" using quantum_full [OF 1(1,3,2) less.prems(3)] g by auto
      obtain x y z where xyz: "quantum_bytes 4 q1 = ([x, y, z], 0)" by (simp add: quantum_bytes_def Let_def)
      have d: "drop (dpos + 4) data = zs" "dpos + 4 \<le> length data" using drop_nth(2,3) [OF 1(1)] 1(2) by (simp, cases us) auto
      have "decode_loop DO_PARSE_STRICT DO_PAD_YES DO_TERM_BUFFER data (dpos + 4) q1 (res @ [x, y, z]) = (True, r, length data)"
        using step True g f q xyz by simp
      moreover have "length data - (dpos + 4) < length data - dpos" using True by simp
      ultimately obtain bs where "r = (res @ [x, y, z]) @ bs" "zs = enc bs"
        using less.hyps [of "dpos + 4" q1 "res @ [x, y, z]"] d 1(2) q(3) by auto
      then show ?thesis using 1 chars_of_quantum [of a1 a2 a3 a4 x y z] xyz q(3) us by (intro exI [of _ "x # y # z # bs"]) simp
    next
      case (2 us)
      have q: "qlen = length us" "q1 = map val6 us @ replicate (4 - length us) 0" using quantum_last [OF 2 less.prems(3)] g by auto
      from 2(3) show ?thesis
      proof
        assume n: "length us = 2"
        then obtain a1 a2 where us: "us = [a1, a2]" by (auto simp: numeral_eq_Suc length_Suc_conv)
        obtain x where "bytes = [x]" using b q n by (auto simp: quantum_bytes_def Let_def)
        then show ?thesis using 2 chars_of_last2 [of a1 a2 x] stop b q n us by (intro exI [of _ "[x]"]) (simp add: numeral_2_eq_2)
      next
        assume n: "length us = 3"
        then obtain a1 a2 a3 where us: "us = [a1, a2, a3]" by (auto simp: numeral_eq_Suc length_Suc_conv)
        obtain x y where "bytes = [x, y]" using b q n by (auto simp: quantum_bytes_def Let_def)
        then show ?thesis using 2 chars_of_last3 [of a1 a2 a3 x y] stop b q n us by (intro exI [of _ "[x, y]"]) (simp add: numeral_3_eq_3)
      qed
    next
      case 3
      then show ?thesis using stop by simp
    qed
  qed (use less.prems in \<open>auto simp: decode_loop.simps [of _ _ _ data "length data"]\<close>)
qed

text \<open>The successor in the table is a character of the table; the terminating zero of the table would be found too, one short of its end.\<close>

lemma Base64Table_length: "length Base64Table = 64"
  by (simp add: Base64Table_def)

lemma Base64Table_chars: "list_all IsBase64Char Base64Table"
  by code_simp

lemma next_char:
  assumes "IsBase64Char ch"
  shows "\<exists>c. GetNextBase64Char ch = Inr (Some c) \<and> IsBase64Char c"
proof -
  have "val6 ch < 64" using assms by (simp add: is64_iff [symmetric] is64_def)
  then have "unat (val6 ch) < length Base64Table" by (simp add: word_less_nat_alt Base64Table_length)
  then have "ch \<in> set Base64Table" using table_backward [of ch] assms by (metis is64_iff nth_mem table_char_def)
  then obtain i where i: "i < length Base64Table" "strchr Base64Table ch = Some i" using strchr_found by blast
  have m: "k < length Base64Table \<Longrightarrow> IsBase64Char (Base64Table ! k)" for k using Base64Table_chars by (simp add: list_all_length)
  show ?thesis using i m [of 0] m [of "Suc i"] by (auto simp: GetNextBase64Char_def Base64Table_length)
qed

lemma next_char_zero: "GetNextBase64Char 0 = Inl Out_of_bounds"
  by code_simp

text \<open>A string passes \<open>IsBase64Encoded\<close> after encoding only if it needed no padding.\<close>

lemma encoded_chars: "IsBase64Encoded (Encode data) \<longleftrightarrow> 3 dvd length data"
proof -
  have p: "\<not> IsBase64Char kPad" using val6_pad(2) by (simp add: is64_iff)
  have t: "list_all is64 (map table_char (sixes x y z))" for x y z using table_is64 [OF sixes_small] by blast
  have "list_all is64 (enc data) \<longleftrightarrow> 3 dvd length data"
  proof (induction data rule: enc.induct)
    case (4 x y z rest)
    then show ?case using t [of x y z] dvd_add_right_iff [of 3 3 "length rest"] by (simp add: numeral_3_eq_3)
  next
    case (3 x y)
    have "\<not> (3 :: nat) dvd 2" by simp
    then show ?case using val6_pad(2) by (simp add: numeral_2_eq_2)
  qed (use val6_pad(2) in auto)
  then show ?thesis by (simp add: IsBase64Encoded_def Encode_eq is64_iff [abs_def])
qed

lemma sasl_round_trip:
  assumes "length fresh = 4"
  shows "SaslMechanism_Base64Decode fresh (SaslMechanism_Base64Encode plain) = Inr plain"
  using decode_enc [of 0 "enc plain" plain fresh "DO_LAX AND DO_PAD_MASK" "DO_LAX AND DO_PARSE_MASK" "DO_LAX AND DO_TERM_MASK" "[]"] assms
  by (simp add: SaslMechanism_Base64Decode_def SaslMechanism_Base64Encode_def Decode_def DecodeFromArrayTemplate_def Encode_eq Let_def flag_defs)

subsection \<open>Properties\<close>

text \<open>Decoding gives back what was encoded, whatever the flags: every parse mode and termination mode, with padding required or optional, and
  also with padding disallowed when none was needed. All characters are used.\<close>

lemma base64_round_trip:
  assumes "length fresh = 4" and "flags \<le> 63" and "flags AND 3 \<noteq> 0" and "flags AND 12 \<noteq> 0" and "flags AND 48 \<noteq> 0"
    and "flags AND 12 = DO_PAD_NO \<longrightarrow> 3 dvd length data"
  shows "DecodeFromArrayTemplate fresh (Encode data) flags = Inr (True, data, length (Encode data))"
proof -
  have "decode_loop p (flags AND 12) t (enc data) 0 fresh [] = (True, [] @ data, length (enc data))" for p t
    using decode_enc [of 0 "enc data" data fresh] assms by simp
  then show ?thesis
    using assms by (simp add: DecodeFromArrayTemplate_def Encode_eq DO_PARSE_MASK_def DO_PAD_MASK_def DO_TERM_MASK_def Let_def)
qed

text \<open>Property C38: the strict decoder succeeds on exactly the strings that the encoder writes, with the bytes they were written for: no other spelling, no
  white space, no missing or misplaced padding and no stray bits is accepted.\<close>

theorem base64_strict_exact:
  assumes "length fresh = 4"
  shows "(\<exists>n. DecodeFromArrayTemplate fresh str DO_STRICT = Inr (True, r, n)) \<longleftrightarrow> str = Encode r"
proof
  assume "\<exists>n. DecodeFromArrayTemplate fresh str DO_STRICT = Inr (True, r, n)"
  then have "decode_loop DO_PARSE_STRICT DO_PAD_YES DO_TERM_BUFFER str 0 fresh [] = (True, r, length str)"
    by (auto simp: DecodeFromArrayTemplate_def flag_defs Let_def split: prod.splits)
  then show "str = Encode r" using decode_strict [of str 0 fresh "[]" r] assms by (auto simp: Encode_eq)
next
  assume "str = Encode r"
  moreover have "decode_loop p DO_PAD_YES t (enc r) 0 fresh [] = (True, [] @ r, length (enc r))" for p t
    using decode_enc [of 0 "enc r" r fresh] assms by (simp add: flag_defs)
  ultimately show "\<exists>n. DecodeFromArrayTemplate fresh str DO_STRICT = Inr (True, r, n)"
    by (simp add: DecodeFromArrayTemplate_def Encode_eq flag_defs Let_def)
qed

theorem base64_strict_exact_witness:
  "length [7 :: byte, 7, 7, 7] = 4 \<and> ((\<exists>n. DecodeFromArrayTemplate [7, 7, 7, 7] [89, 81, 61, 61] DO_STRICT = Inr (True, [97], n)) \<longleftrightarrow> [89, 81, 61, 61] = Encode [97])"
  using base64_strict_exact [of "[7, 7, 7, 7]" "[89, 81, 61, 61]" "[97]"] by simp

end
