(* ===== verification/StringEncode.thy ===== *)
theory StringEncode
  imports Bytes "HOL-Library.Sublist"
begin

text \<open>
  \<^verbatim>\<open>talk/base/stringencode.cc\<close>: escaping, the encodings of URLs, HTML, XML, UTF-8 and hexadecimal numbers, and the splitting of strings. A buffer is a list of
  bytes, \<open>None\<close> the null pointer, and a write outside of it a fault; \<open>buflen\<close> is what the caller says it holds. A source is the list of its \<open>srclen\<close> bytes, which do
  not overlap the buffer. The loops run over the bytes that are left of it.
\<close>

type_synonym Transform = "byte list option \<Rightarrow> nat \<Rightarrow> byte list \<Rightarrow> (nat \<times> byte list) exec"

definition puts :: "byte list \<Rightarrow> nat \<Rightarrow> byte list \<Rightarrow> byte list exec" where
  "puts buf i vs = (if i + length vs \<le> length buf then Inr (blit buf i vs) else Inl Out_of_bounds)"

text \<open>The end of every transformation: \<open>buffer[bufpos] = 0\<close>.\<close>

definition terminated :: "nat \<times> byte list \<Rightarrow> (nat \<times> byte list) exec" where
  "terminated r = (case r of (bufpos, buf) \<Rightarrow> andThen (puts buf bufpos [0]) (\<lambda>buf. Inr (bufpos, buf)))"

definition not_null :: "byte list option \<Rightarrow> (byte list \<Rightarrow> 'a exec) \<Rightarrow> 'a exec" where
  "not_null buffer f = (case buffer of None \<Rightarrow> Inl Assertion_failed | Some buf \<Rightarrow> f buf)"

subsection \<open>Hexadecimal digits\<close>

definition HEX :: "byte list" where "HEX = map ascii ''0123456789abcdef''"

definition hex_encode_char :: "byte \<Rightarrow> byte exec" where
  "hex_encode_char val = andThen (ASSERT (val < 16)) (\<lambda>_. Inr (if val < 16 then HEX ! unat val else ascii (CHR ''!'')))"

definition hex_decode_char :: "byte \<Rightarrow> byte option" where
  "hex_decode_char ch =
     (if ascii (CHR ''0'') \<le>s ch \<and> ch \<le>s ascii (CHR ''9'') then Some (ch - ascii (CHR ''0''))
      else if ascii (CHR ''A'') \<le>s ch \<and> ch \<le>s ascii (CHR ''Z'') then Some (ch - ascii (CHR ''A'') + 10)
      else if ascii (CHR ''a'') \<le>s ch \<and> ch \<le>s ascii (CHR ''z'') then Some (ch - ascii (CHR ''a'') + 10)
      else None)"

text \<open>An escape character and two digits, as \<open>encode\<close> and \<open>url_encode\<close> write them, and back.\<close>

definition hex_escape :: "byte \<Rightarrow> byte \<Rightarrow> byte list exec" where
  "hex_escape esc ch =
     andThen (hex_encode_char (drop_bit 4 ch AND 0xF)) (\<lambda>h1. andThen (hex_encode_char (ch AND 0xF)) (\<lambda>h2. Inr [esc, h1, h2]))"

definition hex_pair :: "byte \<Rightarrow> byte \<Rightarrow> byte option" where
  "hex_pair a b =
     (case hex_decode_char a of None \<Rightarrow> None
      | Some h1 \<Rightarrow> (case hex_decode_char b of None \<Rightarrow> None | Some h2 \<Rightarrow> Some (push_bit 4 h1 OR h2)))"

subsection \<open>Escaping\<close>

fun escape_loop :: "byte list \<Rightarrow> byte \<Rightarrow> nat \<Rightarrow> byte list \<Rightarrow> nat \<Rightarrow> byte list \<Rightarrow> (nat \<times> byte list) exec" where
  "escape_loop illegal esc buflen [] bufpos buf = Inr (bufpos, buf)"
| "escape_loop illegal esc buflen (ch # src) bufpos buf =
     (if bufpos + 1 < buflen then
        if ch = esc \<or> strchr illegal ch \<noteq> None then
          if bufpos + 2 \<ge> buflen then Inr (bufpos, buf)
          else andThen (puts buf bufpos [esc]) (\<lambda>buf. andThen (puts buf (bufpos + 1) [ch]) (\<lambda>buf. escape_loop illegal esc buflen src (bufpos + 2) buf))
        else andThen (puts buf bufpos [ch]) (\<lambda>buf. escape_loop illegal esc buflen src (bufpos + 1) buf)
      else Inr (bufpos, buf))"

definition escape :: "byte list \<Rightarrow> byte \<Rightarrow> Transform" where
  "escape illegal esc buffer buflen source = not_null buffer (\<lambda>buf.
     if buflen \<le> 0 then Inr (0, buf) else andThen (escape_loop illegal esc buflen source 0 buf) terminated)"

fun unescape_loop :: "byte \<Rightarrow> nat \<Rightarrow> byte list \<Rightarrow> nat \<Rightarrow> byte list \<Rightarrow> (nat \<times> byte list) exec" where
  "unescape_loop esc buflen [] bufpos buf = Inr (bufpos, buf)"
| "unescape_loop esc buflen (ch # src) bufpos buf =
     (if bufpos + 1 < buflen then
        case src of
          c2 # rest \<Rightarrow> if ch = esc then andThen (puts buf bufpos [c2]) (\<lambda>buf. unescape_loop esc buflen rest (bufpos + 1) buf)
                      else andThen (puts buf bufpos [ch]) (\<lambda>buf. unescape_loop esc buflen src (bufpos + 1) buf)
        | [] \<Rightarrow> andThen (puts buf bufpos [ch]) (\<lambda>buf. unescape_loop esc buflen src (bufpos + 1) buf)
      else Inr (bufpos, buf))"

definition unescape :: "byte \<Rightarrow> Transform" where
  "unescape esc buffer buflen source = not_null buffer (\<lambda>buf.
     if buflen \<le> 0 then Inr (0, buf) else andThen (unescape_loop esc buflen source 0 buf) terminated)"

fun encode_chars :: "byte list \<Rightarrow> byte \<Rightarrow> nat \<Rightarrow> byte list \<Rightarrow> nat \<Rightarrow> byte list \<Rightarrow> (nat \<times> byte list) exec" where
  "encode_chars illegal esc buflen [] bufpos buf = Inr (bufpos, buf)"
| "encode_chars illegal esc buflen (ch # src) bufpos buf =
     (if bufpos + 1 < buflen then
        if ch \<noteq> esc \<and> strchr illegal ch = None then
          andThen (puts buf bufpos [ch]) (\<lambda>buf. encode_chars illegal esc buflen src (bufpos + 1) buf)
        else if bufpos + 3 \<ge> buflen then Inr (bufpos, buf)
        else andThen (hex_escape esc ch) (\<lambda>cs. andThen (puts buf bufpos cs) (\<lambda>buf. encode_chars illegal esc buflen src (bufpos + 3) buf))
      else Inr (bufpos, buf))"

definition encode :: "byte list \<Rightarrow> byte \<Rightarrow> Transform" where
  "encode illegal esc buffer buflen source = not_null buffer (\<lambda>buf.
     if buflen \<le> 0 then Inr (0, buf) else andThen (encode_chars illegal esc buflen source 0 buf) terminated)"

text \<open>\<open>decode\<close> has no assertion: a null buffer of positive length is written to.\<close>

fun decode_chars :: "byte \<Rightarrow> nat \<Rightarrow> byte list \<Rightarrow> nat \<Rightarrow> byte list \<Rightarrow> (nat \<times> byte list) exec" where
  "decode_chars esc buflen [] bufpos buf = Inr (bufpos, buf)"
| "decode_chars esc buflen (ch # src) bufpos buf =
     (if bufpos + 1 < buflen then
        let other = andThen (puts buf bufpos [ch]) (\<lambda>buf. decode_chars esc buflen src (bufpos + 1) buf) in
        case src of
          a # b # rest \<Rightarrow>
            if ch = esc then
              (case hex_pair a b of
                 Some v \<Rightarrow> andThen (puts buf bufpos [v]) (\<lambda>buf. decode_chars esc buflen rest (bufpos + 1) buf)
               | None \<Rightarrow> other)
            else other
        | _ \<Rightarrow> other
      else Inr (bufpos, buf))"

definition decode :: "byte \<Rightarrow> Transform" where
  "decode esc buffer buflen source =
     (case buffer of
        None \<Rightarrow> if buflen \<le> 0 then Inr (0, []) else Inl Null_pointer
      | Some buf \<Rightarrow> if buflen \<le> 0 then Inr (0, buf) else andThen (decode_chars esc buflen source 0 buf) terminated)"

text \<open>Outside Windows the list of unsafe characters is an assertion that fails.\<close>

definition unsafe_filename_characters :: "byte list exec" where
  "unsafe_filename_characters = andThen (ASSERT False) (\<lambda>_. Inr [])"

subsection \<open>URLs\<close>

definition URL_UNSAFE :: byte where "URL_UNSAFE = 0x1"
definition XML_UNSAFE :: byte where "XML_UNSAFE = 0x2"
definition HTML_UNSAFE :: byte where "HTML_UNSAFE = 0x2"

definition ASCII_CLASS :: "byte list" where
  "ASCII_CLASS = [
  1,1,1,1,1,1,1,1,1,1,1,1,1,1,1,1,1,1,1,1,1,1,1,1,1,1,1,1,1,1,1,1,
  1,0,3,1,1,1,3,2,0,0,0,1,1,0,0,1,0,0,0,0,0,0,0,0,0,0,1,1,3,1,3,1,
  1,0,0,0,0,0,0,0,0,0,0,0,0,0,0,0,0,0,0,0,0,0,0,0,0,0,0,1,1,1,1,0,
  1,0,0,0,0,0,0,0,0,0,0,0,0,0,0,0,0,0,0,0,0,0,0,0,0,0,0,1,1,1,0,1]"

definition in_class :: "byte \<Rightarrow> byte \<Rightarrow> bool" where
  "in_class cls ch \<longleftrightarrow> ch < 128 \<and> ASCII_CLASS ! unat ch AND cls \<noteq> 0"

fun url_encode_loop :: "nat \<Rightarrow> byte list \<Rightarrow> nat \<Rightarrow> byte list \<Rightarrow> (nat \<times> byte list) exec" where
  "url_encode_loop buflen [] bufpos buf = Inr (bufpos, buf)"
| "url_encode_loop buflen (ch # src) bufpos buf =
     (if bufpos + 1 < buflen then
        if in_class URL_UNSAFE ch then
          if bufpos + 3 \<ge> buflen then Inr (bufpos, buf)
          else andThen (hex_escape (ascii (CHR ''%'')) ch) (\<lambda>cs. andThen (puts buf bufpos cs) (\<lambda>buf. url_encode_loop buflen src (bufpos + 3) buf))
        else andThen (puts buf bufpos [ch]) (\<lambda>buf. url_encode_loop buflen src (bufpos + 1) buf)
      else Inr (bufpos, buf))"

definition url_encode :: Transform where
  "url_encode buffer buflen source =
     (case buffer of
        None \<Rightarrow> Inr (length source * 3 + 1, [])
      | Some buf \<Rightarrow> if buflen \<le> 0 then Inr (0, buf) else andThen (url_encode_loop buflen source 0 buf) terminated)"

fun url_decode_loop :: "nat \<Rightarrow> byte list \<Rightarrow> nat \<Rightarrow> byte list \<Rightarrow> (nat \<times> byte list) exec" where
  "url_decode_loop buflen [] bufpos buf = Inr (bufpos, buf)"
| "url_decode_loop buflen (ch # src) bufpos buf =
     (if bufpos + 1 < buflen then
        let other = andThen (puts buf bufpos [ch]) (\<lambda>buf. url_decode_loop buflen src (bufpos + 1) buf) in
        if ch = ascii (CHR ''+'') then andThen (puts buf bufpos [ascii (CHR '' '')]) (\<lambda>buf. url_decode_loop buflen src (bufpos + 1) buf)
        else case src of
          a # b # rest \<Rightarrow>
            if ch = ascii (CHR ''%'') then
              (case hex_pair a b of
                 Some v \<Rightarrow> andThen (puts buf bufpos [v]) (\<lambda>buf. url_decode_loop buflen rest (bufpos + 1) buf)
               | None \<Rightarrow> other)
            else other
        | _ \<Rightarrow> other
      else Inr (bufpos, buf))"

definition url_decode :: Transform where
  "url_decode buffer buflen source =
     (case buffer of
        None \<Rightarrow> Inr (length source + 1, [])
      | Some buf \<Rightarrow> if buflen \<le> 0 then Inr (0, buf) else andThen (url_decode_loop buflen source 0 buf) terminated)"

subsection \<open>Transformations of strings\<close>

text \<open>\<open>fresh\<close> is what the stack holds; the contents of the result are the first bytes of the buffer.\<close>

definition assign :: "nat \<times> byte list \<Rightarrow> (byte list \<times> nat) exec" where
  "assign r = (case r of (n, buf) \<Rightarrow> if n \<le> length buf then Inr (take n buf, n) else Inl Out_of_bounds)"

definition transform :: "(nat \<Rightarrow> byte) \<Rightarrow> nat \<Rightarrow> byte list \<Rightarrow> Transform \<Rightarrow> (byte list \<times> nat) exec" where
  "transform fresh maxlen source t = andThen (t (Some (new_char fresh (maxlen + 1))) (maxlen + 1) source) assign"

definition s_transform :: "(nat \<Rightarrow> byte) \<Rightarrow> byte list \<Rightarrow> Transform \<Rightarrow> byte list exec" where
  "s_transform fresh source t =
     andThen (t None 0 source) (\<lambda>(maxlen, _).
     andThen (t (Some (new_char fresh maxlen)) maxlen source) (\<lambda>r. andThen (assign r) (\<lambda>(result, _). Inr result)))"

definition s_url_encode :: "(nat \<Rightarrow> byte) \<Rightarrow> byte list \<Rightarrow> byte list exec" where
  "s_url_encode fresh source = s_transform fresh source url_encode"

definition s_url_decode :: "(nat \<Rightarrow> byte) \<Rightarrow> byte list \<Rightarrow> byte list exec" where
  "s_url_decode fresh source = s_transform fresh source url_decode"

subsection \<open>What a transformation writes\<close>

text \<open>Every character of the source becomes a chunk of the result; chunks are written as long as they and the terminating zero have room.\<close>

fun fit :: "nat \<Rightarrow> byte list list \<Rightarrow> byte list" where
  "fit room [] = []"
| "fit room (c # cs) = (if length c < room then c @ fit (room - length c) cs else [])"

definition written :: "nat \<Rightarrow> byte list list \<Rightarrow> nat \<Rightarrow> byte list \<Rightarrow> nat \<times> byte list" where
  "written buflen cs pos buf = (let out = fit (buflen - pos) cs in (pos + length out, blit buf pos out))"

lemma fit_length: "0 < room \<Longrightarrow> length (fit room cs) < room"
  by (induction room cs rule: fit.induct) auto

lemma fit_prefix: "prefix (fit room cs) (concat cs)"
  by (induction room cs rule: fit.induct) auto

lemma fit_all: "length (concat cs) < room \<Longrightarrow> fit room cs = concat cs"
  by (induction room cs rule: fit.induct) auto

lemma puts_ok [simp]: "i + length vs \<le> length buf \<Longrightarrow> puts buf i vs = Inr (blit buf i vs)"
  by (simp add: puts_def)

lemma blit_blit [simp]: "i + length xs \<le> length buf \<Longrightarrow> blit (blit buf i xs) (i + length xs) ys = blit buf i (xs @ ys)"
  by (cases xs) (auto simp: blit_def min_def ac_simps)

lemma blit_blit_Suc [simp]: "i < length buf \<Longrightarrow> blit (blit buf i [x]) (Suc i) ys = blit buf i (x # ys)"
  using blit_blit [of i "[x]" buf ys] by simp

lemma written_Nil [simp]: "written n [] pos buf = (pos, buf)"
  by (simp add: written_def)

lemma written_fits [simp]:
  "n \<le> length buf \<Longrightarrow> pos + length c < n \<Longrightarrow> written n (c # cs) pos buf = written n cs (pos + length c) (blit buf pos c)"
  by (simp add: written_def Let_def less_diff_conv add.commute)

lemma written_full [simp]: "\<not> pos + length c < n \<Longrightarrow> written n (c # cs) pos buf = (pos, buf)"
  by (simp add: written_def Let_def less_diff_conv add.commute)

lemma terminated_written:
  assumes "0 < n" and "n \<le> length buf"
  shows "terminated (written n cs 0 buf) = Inr (length (fit n cs), blit buf 0 (fit n cs @ [0]))"
  using assms fit_length [of n cs] by (simp add: terminated_def written_def Let_def blit_blit [of 0, simplified])

subsection \<open>The contract of a transformation\<close>

locale transformer =
  fixes t :: Transform and chunks :: "byte list \<Rightarrow> byte list list"
  assumes writes: "0 < n \<Longrightarrow> n \<le> length buf \<Longrightarrow> t (Some buf) n src = terminated (written n (chunks src) 0 buf)"
    and writes_nothing: "t (Some buf) 0 src = Inr (0, buf)"
begin

lemma output_eq:
  "0 < n \<Longrightarrow> n \<le> length buf \<Longrightarrow> t (Some buf) n src = Inr (length (fit n (chunks src)), blit buf 0 (fit n (chunks src) @ [0]))"
  by (simp add: writes terminated_written)

lemma in_bounds:
  assumes "0 < n" and "n \<le> length buf"
  shows "\<exists>r b. t (Some buf) n src = Inr (r, b) \<and> r < n \<and> length b = length buf \<and> b ! r = 0 \<and> drop n b = drop n buf \<and> prefix (take r b) (concat (chunks src))"
proof -
  let ?out = "fit n (chunks src)"
  have l: "length ?out < n" by (rule fit_length [OF assms(1)])
  have "length (blit buf 0 (?out @ [0])) = length buf" "drop n (blit buf 0 (?out @ [0])) = drop n buf"
    using l assms(2) by (intro length_blit drop_blit_after; simp)+
  then show ?thesis using output_eq [OF assms, of src] l fit_prefix [of n "chunks src"] by (simp add: blit_def nth_append)
qed

lemma transform_eq: "transform fresh maxlen src t = Inr (fit (Suc maxlen) (chunks src), length (fit (Suc maxlen) (chunks src)))"
  using fit_length [of "Suc maxlen" "chunks src"] by (simp add: transform_def output_eq assign_def) (simp add: blit_def)

lemma transform_complete:
  "length (concat (chunks src)) \<le> maxlen \<Longrightarrow> transform fresh maxlen src t = Inr (concat (chunks src), length (concat (chunks src)))"
  by (simp add: transform_eq fit_all)

end

text \<open>A transformation that says how much room it needs.\<close>

locale sized_transformer = transformer +
  assumes estimate: "\<exists>m b. t None 0 src = Inr (m, b) \<and> length (concat (chunks src)) < m"
begin

lemma s_transform_eq: "s_transform fresh src t = Inr (concat (chunks src))"
proof -
  obtain m b where m: "t None 0 src = Inr (m, b)" "length (concat (chunks src)) < m" using estimate by blast
  have "t (Some (new_char fresh m)) m src = Inr (length (concat (chunks src)), blit (new_char fresh m) 0 (concat (chunks src) @ [0]))"
    using output_eq [of m "new_char fresh m" src] fit_all [OF m(2)] m(2) by simp
  then show ?thesis using m by (simp add: s_transform_def assign_def) (simp add: blit_def)
qed

end

text \<open>A transformation and its inverse.\<close>

locale transformer_pair = e: transformer enc ec + d: transformer dec dc for enc ec dec dc +
  assumes inverse: "concat (dc (concat (ec s))) = s"
begin

lemma round_trip:
  assumes "length (concat (ec s)) \<le> m" and "length s \<le> k"
  shows "andThen (transform f m s enc) (\<lambda>(x, _). transform g k x dec) = Inr (s, length s)"
  using assms e.transform_complete [of s m f] d.transform_complete [of "concat (ec s)" k g] inverse by simp

end

subsection \<open>Characters and chunks\<close>

definition hex3 :: "byte \<Rightarrow> byte \<Rightarrow> byte list" where
  "hex3 esc ch = [esc, HEX ! unat (drop_bit 4 ch AND 0xF), HEX ! unat (ch AND 0xF)]"

lemma nibble_small: "(x :: byte) AND 0xF < 16"
  by (rule all_bytes) code_simp

lemma hex_escape_eq [simp]: "hex_escape esc ch = Inr (hex3 esc ch)"
  by (simp add: hex_escape_def hex_encode_char_def hex3_def nibble_small)

lemma HEX_bytes [code]: "HEX = [48, 49, 50, 51, 52, 53, 54, 55, 56, 57, 97, 98, 99, 100, 101, 102]"
  by (simp add: HEX_def ascii_def)

lemma hex_digit: "n < 16 \<Longrightarrow> hex_decode_char (HEX ! unat n) = Some n"
proof -
  have "(\<lambda>n. n < 16 \<longrightarrow> hex_decode_char (HEX ! unat n) = Some n) n" by (rule all_bytes) code_simp
  then show "n < 16 \<Longrightarrow> hex_decode_char (HEX ! unat n) = Some n" by simp
qed

lemma hex_pair_hex3 [simp]: "hex_pair (HEX ! unat (drop_bit 4 ch AND 0xF)) (HEX ! unat (ch AND 0xF)) = Some ch"
proof -
  have "push_bit 4 (drop_bit 4 ch AND 0xF) OR (ch AND 0xF) = ch" by (intro byte_eqI8; simp add: bit_simps)
  then show ?thesis by (simp add: hex_pair_def hex_digit nibble_small)
qed

lemma length_hex3 [simp]: "length (hex3 esc ch) = 3"
  by (simp add: hex3_def)

definition escape_chunk :: "byte list \<Rightarrow> byte \<Rightarrow> byte \<Rightarrow> byte list" where
  "escape_chunk illegal esc ch = (if ch = esc \<or> strchr illegal ch \<noteq> None then [esc, ch] else [ch])"

definition encode_chunk :: "byte list \<Rightarrow> byte \<Rightarrow> byte \<Rightarrow> byte list" where
  "encode_chunk illegal esc ch = (if ch = esc \<or> strchr illegal ch \<noteq> None then hex3 esc ch else [ch])"

definition url_chunk :: "byte \<Rightarrow> byte list" where
  "url_chunk ch = (if in_class URL_UNSAFE ch then hex3 (ascii (CHR ''%'')) ch else [ch])"

fun unescaped :: "byte \<Rightarrow> byte list \<Rightarrow> byte list" where
  "unescaped esc [] = []"
| "unescaped esc [ch] = [ch]"
| "unescaped esc (ch # c2 # src) = (if ch = esc then c2 # unescaped esc src else ch # unescaped esc (c2 # src))"

fun decoded :: "byte \<Rightarrow> byte list \<Rightarrow> byte list" where
  "decoded esc (ch # a # b # src) =
     (if ch = esc \<and> hex_pair a b \<noteq> None then the (hex_pair a b) # decoded esc src else ch # decoded esc (a # b # src))"
| "decoded esc src = src"

definition plus_to_space :: "byte \<Rightarrow> byte" where
  "plus_to_space ch = (if ch = ascii (CHR ''+'') then ascii (CHR '' '') else ch)"

fun url_decoded :: "byte list \<Rightarrow> byte list" where
  "url_decoded (ch # a # b # src) =
     (if ch = ascii (CHR ''%'') \<and> hex_pair a b \<noteq> None then the (hex_pair a b) # url_decoded src else plus_to_space ch # url_decoded (a # b # src))"
| "url_decoded src = map plus_to_space src"

definition singly :: "byte list \<Rightarrow> byte list list" where
  "singly = map (\<lambda>b. [b])"

lemma singly_simps [simp]: "singly [] = []" "singly (b # bs) = [b] # singly bs" "concat (singly bs) = bs"
  by (induction bs) (simp_all add: singly_def)

lemma escape_loop_eq:
  "pos < n \<Longrightarrow> n \<le> length buf \<Longrightarrow> escape_loop illegal esc n src pos buf = Inr (written n (map (escape_chunk illegal esc) src) pos buf)"
  by (induction src arbitrary: pos buf) (auto simp: escape_chunk_def)

lemma encode_chars_eq:
  "pos < n \<Longrightarrow> n \<le> length buf \<Longrightarrow> encode_chars illegal esc n src pos buf = Inr (written n (map (encode_chunk illegal esc) src) pos buf)"
  by (induction src arbitrary: pos buf) (auto simp: encode_chunk_def)

lemma url_encode_loop_eq:
  "pos < n \<Longrightarrow> n \<le> length buf \<Longrightarrow> url_encode_loop n src pos buf = Inr (written n (map url_chunk src) pos buf)"
  by (induction src arbitrary: pos buf) (auto simp: url_chunk_def)

lemma unescape_loop_eq:
  "pos < n \<Longrightarrow> n \<le> length buf \<Longrightarrow> unescape_loop esc n src pos buf = Inr (written n (singly (unescaped esc src)) pos buf)"
  by (induction esc src arbitrary: pos buf rule: unescaped.induct) auto

lemma decode_chars_eq:
  "pos < n \<Longrightarrow> n \<le> length buf \<Longrightarrow> decode_chars esc n src pos buf = Inr (written n (singly (decoded esc src)) pos buf)"
proof (induction esc src arbitrary: pos buf rule: decoded.induct)
  case (1 esc ch a b src)
  then show ?case by (auto simp: Let_def decode_chars.simps(2) [of esc n ch] simp del: decode_chars.simps(2) split: option.splits)
qed auto

lemma url_decode_loop_eq:
  "pos < n \<Longrightarrow> n \<le> length buf \<Longrightarrow> url_decode_loop n src pos buf = Inr (written n (singly (url_decoded src)) pos buf)"
proof (induction src arbitrary: pos buf rule: url_decoded.induct)
  case (1 ch a b src)
  have "ascii (CHR ''+'') \<noteq> ascii (CHR ''%'')" by (simp add: ascii_def)
  then show ?case using 1
    by (auto simp: Let_def plus_to_space_def url_decode_loop.simps(2) [of n ch] simp del: url_decode_loop.simps(2) split: option.splits)
qed (auto simp: plus_to_space_def)

subsection \<open>The contract holds\<close>

lemmas transform_defs = escape_def unescape_def encode_def decode_def url_encode_def url_decode_def not_null_def

interpretation esc: transformer "escape illegal e" "map (escape_chunk illegal e)" for illegal e
  by unfold_locales (simp_all add: transform_defs escape_loop_eq)

interpretation unesc: transformer "unescape e" "\<lambda>src. singly (unescaped e src)" for e
  by unfold_locales (simp_all add: transform_defs unescape_loop_eq)

interpretation en: transformer "encode illegal e" "map (encode_chunk illegal e)" for illegal e
  by unfold_locales (simp_all add: transform_defs encode_chars_eq)

interpretation de: transformer "decode e" "\<lambda>src. singly (decoded e src)" for e
  by unfold_locales (simp_all add: transform_defs decode_chars_eq)

lemma unescaped_chunks: "unescaped e (concat (map (escape_chunk illegal e) s)) = s"
proof (induction s)
  case (Cons ch s)
  have raw: "ch \<noteq> e \<Longrightarrow> unescaped e (ch # src) = ch # unescaped e src" for src by (cases src) simp_all
  have "escape_chunk illegal e ch = [e, ch] \<or> ch \<noteq> e \<and> escape_chunk illegal e ch = [ch]" by (auto simp: escape_chunk_def)
  then show ?case using raw Cons.IH by auto
qed simp

lemma decoded_raw: "ch \<noteq> esc \<Longrightarrow> decoded esc (ch # src) = ch # decoded esc src"
  by (cases "(esc, ch # src)" rule: decoded.cases) auto

lemma decoded_chunks: "decoded e (concat (map (encode_chunk illegal e) s)) = s"
  by (induction s) (auto simp: encode_chunk_def decoded_raw, simp_all add: hex3_def)

lemma url_decoded_raw: "ch \<noteq> ascii (CHR ''%'') \<Longrightarrow> url_decoded (ch # src) = plus_to_space ch # url_decoded src"
  by (cases "ch # src" rule: url_decoded.cases) auto

lemma url_safe: "\<not> in_class URL_UNSAFE ch \<Longrightarrow> ch \<noteq> ascii (CHR ''%'') \<and> ch \<noteq> ascii (CHR ''+'')"
  by (auto simp: in_class_def ASCII_CLASS_def ascii_def URL_UNSAFE_def)

lemma url_decoded_chunks: "url_decoded (concat (map url_chunk s)) = s"
  by (induction s) (auto simp: url_chunk_def url_decoded_raw url_safe plus_to_space_def, simp_all add: hex3_def)

lemma url_chunks_length: "length (concat (map url_chunk s)) \<le> length s * 3"
  by (induction s) (auto simp: url_chunk_def)

lemma url_decoded_length: "length (url_decoded s) \<le> length s"
  by (induction s rule: url_decoded.induct) auto

interpretation escaping: transformer_pair "escape illegal e" "map (escape_chunk illegal e)" "unescape e" "\<lambda>src. singly (unescaped e src)" for illegal e
  by unfold_locales (simp add: unescaped_chunks)

interpretation coding: transformer_pair "encode illegal e" "map (encode_chunk illegal e)" "decode e" "\<lambda>src. singly (decoded e src)" for illegal e
  by unfold_locales (simp add: decoded_chunks)

interpretation url_en: sized_transformer url_encode "map url_chunk"
  using url_chunks_length by unfold_locales (simp_all add: transform_defs url_encode_loop_eq le_imp_less_Suc)

interpretation url_de: sized_transformer url_decode "\<lambda>src. singly (url_decoded src)"
  using url_decoded_length by unfold_locales (simp_all add: transform_defs url_decode_loop_eq le_imp_less_Suc)

text \<open>Any string survives the encoding for URLs.\<close>

lemma url_round_trip: "andThen (s_url_encode f s) (s_url_decode g) = Inr s"
  by (simp add: s_url_encode_def s_url_decode_def url_en.s_transform_eq url_de.s_transform_eq url_decoded_chunks)

end
