(* ===== verification/MarkupEncode.thy ===== *)
theory MarkupEncode
  imports StringEncode
begin

text \<open>
  The encodings of \<^verbatim>\<open>talk/base/stringencode.cc\<close> for UTF-8, HTML and XML. \<open>unsigned long\<close> has 64 bits. \<open>xml_decode\<close> reads numbers with \<open>strtoul\<close>, which
  does not stop at the end of the source: \<open>beyond\<close> is the memory behind it.
\<close>

subsection \<open>UTF-8\<close>

text \<open>\<open>None\<close> is the result 0: no valid sequence.\<close>

definition utf8_decode :: "byte list \<Rightarrow> (nat \<times> uint64) option exec" where
  "utf8_decode s =
     (if s = [] then Inl Out_of_bounds
      else if s ! 0 AND 0x80 = 0x00 then Inr (Some (1, ucast (s ! 0)))
      else if length s < 2 \<or> s ! 1 AND 0xC0 \<noteq> 0x80 then Inr None
      else let value16 = ucast (s ! 1 AND 0x3F) in
      if s ! 0 AND 0xE0 = 0xC0 then Inr (Some (2, push_bit 6 (ucast (s ! 0 AND 0x1F)) OR value16))
      else if length s < 3 \<or> s ! 2 AND 0xC0 \<noteq> 0x80 then Inr None
      else let value16 = push_bit 6 value16 OR ucast (s ! 2 AND 0x3F) in
      if s ! 0 AND 0xF0 = 0xE0 then Inr (Some (3, push_bit 12 (ucast (s ! 0 AND 0x0F)) OR value16))
      else if length s < 4 \<or> s ! 3 AND 0xC0 \<noteq> 0x80 then Inr None
      else let value16 = push_bit 6 value16 OR ucast (s ! 3 AND 0x3F) in
      if s ! 0 AND 0xF8 = 0xF0 then Inr (Some (4, push_bit 18 (ucast (s ! 0 AND 0x07)) OR value16))
      else Inr None)"

text \<open>The buffer is the memory from \<open>at\<close> on.\<close>

definition utf8_encode :: "byte list \<Rightarrow> nat \<Rightarrow> nat \<Rightarrow> uint64 \<Rightarrow> (nat \<times> byte list) exec" where
  "utf8_encode buffer at buflen value =
     (let stored = \<lambda>bs. andThen (puts buffer at bs) (\<lambda>buffer. Inr (length bs, buffer)) in
      if value \<le> 0x7F \<and> buflen \<ge> 1 then stored [ucast value]
      else if value \<le> 0x7FF \<and> buflen \<ge> 2 then stored [0xC0 OR ucast (drop_bit 6 value), 0x80 OR ucast (value AND 0x3F)]
      else if value \<le> 0xFFFF \<and> buflen \<ge> 3 then
        stored [0xE0 OR ucast (drop_bit 12 value), 0x80 OR ucast (drop_bit 6 value AND 0x3F), 0x80 OR ucast (value AND 0x3F)]
      else if value \<le> 0x1FFFFF \<and> buflen \<ge> 4 then
        stored [0xF0 OR ucast (drop_bit 18 value), 0x80 OR ucast (drop_bit 12 value AND 0x3F), 0x80 OR ucast (drop_bit 6 value AND 0x3F),
          0x80 OR ucast (value AND 0x3F)]
      else Inr (0, buffer))"

subsection \<open>Encoding\<close>

definition xml_entity :: "byte \<Rightarrow> byte list option" where
  "xml_entity ch =
     (if ch = ascii (CHR ''<'') then Some (map ascii ''&lt;'')
      else if ch = ascii (CHR ''>'') then Some (map ascii ''&gt;'')
      else if ch = ascii (CHR 0x27) then Some (map ascii ''&apos;'')
      else if ch = ascii (CHR 0x22) then Some (map ascii ''&quot;'')
      else if ch = ascii (CHR ''&'') then Some (map ascii ''&amp;'')
      else None)"

definition html_entity :: "byte \<Rightarrow> byte list option" where
  "html_entity ch = (if ch = ascii (CHR 0x27) then Some (map ascii ''&#39;'') else xml_entity ch)"

fun decimal :: "nat \<Rightarrow> byte list" where
  "decimal n = (if n < 10 then [] else decimal (n div 10)) @ [of_nat (48 + n mod 10)]"

declare decimal.simps [simp del]

text \<open>\<open>sprintfn\<close> into an array of 11 bytes.\<close>

definition html_number :: "uint64 \<Rightarrow> byte list" where
  "html_number val = take 10 (map ascii ''&#'' @ decimal (unat val) @ map ascii '';'')"

function html_encode_loop :: "nat \<Rightarrow> byte list \<Rightarrow> nat \<Rightarrow> byte list \<Rightarrow> (nat \<times> byte list) exec" where
  "html_encode_loop buflen [] bufpos buf = Inr (bufpos, buf)"
| "html_encode_loop buflen (ch # src) bufpos buf =
     (if bufpos + 1 < buflen then
        if ch < 128 then
          if ASCII_CLASS ! unat ch AND HTML_UNSAFE \<noteq> 0 then
            case html_entity ch of
              None \<Rightarrow> Inl Assertion_failed
            | Some escseq \<Rightarrow>
                if bufpos + length escseq \<ge> buflen then Inr (bufpos, buf)
                else andThen (puts buf bufpos escseq) (\<lambda>buf. html_encode_loop buflen src (bufpos + length escseq) buf)
          else andThen (puts buf bufpos [ch]) (\<lambda>buf. html_encode_loop buflen src (bufpos + 1) buf)
        else
          andThen (utf8_decode (ch # src)) (\<lambda>u.
          case (case u of Some (vallen, val) \<Rightarrow> (html_number val, drop (vallen - 1) src) | None \<Rightarrow> (html_number (ucast ch), src)) of (escseq, rest) \<Rightarrow>
          if bufpos + length escseq \<ge> buflen then Inr (bufpos, buf)
          else andThen (puts buf bufpos escseq) (\<lambda>buf. html_encode_loop buflen rest (bufpos + length escseq) buf))
      else Inr (bufpos, buf))"
  by pat_completeness auto
termination
  by (relation "measure (\<lambda>(_, src, _, _). length src)") (auto split: option.splits prod.splits)

definition html_encode :: Transform where
  "html_encode buffer buflen source = not_null buffer (\<lambda>buf.
     if buflen \<le> 0 then Inr (0, buf) else andThen (html_encode_loop buflen source 0 buf) terminated)"

fun xml_encode_loop :: "nat \<Rightarrow> byte list \<Rightarrow> nat \<Rightarrow> byte list \<Rightarrow> (nat \<times> byte list) exec" where
  "xml_encode_loop buflen [] bufpos buf = Inr (bufpos, buf)"
| "xml_encode_loop buflen (ch # src) bufpos buf =
     (if bufpos + 1 < buflen then
        if in_class XML_UNSAFE ch then
          case xml_entity ch of
            None \<Rightarrow> Inl Assertion_failed
          | Some escseq \<Rightarrow>
              if bufpos + length escseq \<ge> buflen then Inr (bufpos, buf)
              else andThen (puts buf bufpos escseq) (\<lambda>buf. xml_encode_loop buflen src (bufpos + length escseq) buf)
        else andThen (puts buf bufpos [ch]) (\<lambda>buf. xml_encode_loop buflen src (bufpos + 1) buf)
      else Inr (bufpos, buf))"

definition xml_encode :: Transform where
  "xml_encode buffer buflen source = not_null buffer (\<lambda>buf.
     if buflen \<le> 0 then Inr (0, buf) else andThen (xml_encode_loop buflen source 0 buf) terminated)"

subsection \<open>Decoding\<close>

text \<open>\<open>strtoul\<close> of the C library: white space, a sign, for base 16 a prefix \<open>0x\<close> that a digit follows, digits; the value and the number of characters up to the
  end pointer. It reads up to the first character that is no digit.\<close>

definition isspace :: "byte \<Rightarrow> bool" where
  "isspace c \<longleftrightarrow> c = 32 \<or> 9 \<le> c \<and> c \<le> 13"

definition digit_value :: "nat \<Rightarrow> byte \<Rightarrow> nat option" where
  "digit_value base c =
     (let v = (if 48 \<le> c \<and> c \<le> 57 then unat c - 48 else if 97 \<le> c \<and> c \<le> 102 then unat c - 87 else if 65 \<le> c \<and> c \<le> 70 then unat c - 55 else 99)
      in if v < base then Some v else None)"

definition digits_value :: "nat \<Rightarrow> byte list \<Rightarrow> nat" where
  "digits_value base ds = foldl (\<lambda>n c. n * base + the (digit_value base c)) 0 ds"

definition is_digit :: "nat \<Rightarrow> byte \<Rightarrow> bool" where
  "is_digit base c \<longleftrightarrow> digit_value base c \<noteq> None"

definition strtoul :: "byte list \<Rightarrow> nat \<Rightarrow> (uint64 \<times> nat) exec" where
  "strtoul mem base =
     (let m1 = dropWhile isspace mem in
      if m1 = [] then Inl Out_of_bounds
      else let signed = hd m1 = ascii (CHR ''-'') \<or> hd m1 = ascii (CHR ''+''); neg = hd m1 = ascii (CHR ''-'');
               m2 = (if signed then tl m1 else m1);
               maybe_0x = base = 16 \<and> length m2 \<ge> 2 \<and> m2 ! 0 = ascii (CHR ''0'') \<and> (m2 ! 1 = ascii (CHR ''x'') \<or> m2 ! 1 = ascii (CHR ''X''))
      in if maybe_0x \<and> length m2 = 2 then Inl Out_of_bounds
      else let m3 = (if maybe_0x \<and> is_digit base (m2 ! 2) then drop 2 m2 else m2);
               ds = takeWhile (is_digit base) m3
      in if length ds = length m3 then Inl Out_of_bounds
      else if ds = [] then Inr (0, 0)
      else let v = digits_value base ds in
        Inr (if v \<ge> 2 ^ 64 then - 1 else if neg then - of_nat v else of_nat v, length mem - length m3 + length ds))"

function xml_decode_loop :: "byte list \<Rightarrow> nat \<Rightarrow> byte list \<Rightarrow> nat \<Rightarrow> byte list \<Rightarrow> (nat \<times> byte list) exec" where
  "xml_decode_loop beyond buflen [] bufpos buf = Inr (bufpos, buf)"
| "xml_decode_loop beyond buflen (ch # src) bufpos buf =
     (if bufpos + 1 < buflen then
        let plain = \<lambda>c k. andThen (puts buf bufpos [c]) (\<lambda>buf. xml_decode_loop beyond buflen (drop k src) (bufpos + 1) buf) in
        if ch \<noteq> ascii (CHR ''&'') then plain ch 0
        else if take 3 src = map ascii ''lt;'' then plain (ascii (CHR ''<'')) 3
        else if take 3 src = map ascii ''gt;'' then plain (ascii (CHR ''>'')) 3
        else if take 5 src = map ascii ''apos;'' then plain (ascii (CHR 0x27)) 5
        else if take 5 src = map ascii ''quot;'' then plain (ascii (CHR 0x22)) 5
        else if take 4 src = map ascii ''amp;'' then plain (ascii (CHR ''&'')) 4
        else if src \<noteq> [] \<and> src ! 0 = ascii (CHR ''#'') then
          let hex = length src > 1 \<and> src ! 1 = ascii (CHR ''x'');
              number = (if hex then drop 2 src else drop 1 src)
          in andThen (strtoul (number @ beyond) (if hex then 16 else 10)) (\<lambda>(val, used).
             if used < length number \<and> number ! used = ascii (CHR '';'') then
               andThen (utf8_encode buf bufpos (buflen - bufpos) val) (\<lambda>(esclen, buf).
               if esclen \<noteq> 0 then xml_decode_loop beyond buflen (drop (used + 1) number) (bufpos + esclen) buf
               else Inr (bufpos, buf))
             else Inr (bufpos, buf))
        else Inr (bufpos, buf)
      else Inr (bufpos, buf))"
  by pat_completeness auto
termination
  by (relation "measure (\<lambda>(_, _, src, _, _). length src)") auto

definition xml_decode :: "byte list \<Rightarrow> Transform" where
  "xml_decode beyond buffer buflen source = not_null buffer (\<lambda>buf.
     if buflen \<le> 0 then Inr (0, buf) else andThen (xml_decode_loop beyond buflen source 0 buf) terminated)"

definition html_decode :: "byte list \<Rightarrow> Transform" where
  "html_decode beyond buffer buflen source = not_null buffer (\<lambda>buf. xml_decode beyond (Some buf) buflen source)"

subsection \<open>XML\<close>

definition xml_chunk :: "byte \<Rightarrow> byte list" where
  "xml_chunk ch = (case xml_entity ch of Some cs \<Rightarrow> cs | None \<Rightarrow> [ch])"

lemma xml_unsafe: "in_class XML_UNSAFE ch \<longleftrightarrow> xml_entity ch \<noteq> None"
proof -
  have "in_class XML_UNSAFE ch \<longleftrightarrow> ch \<in> {34, 38, 39, 60, 62}" by (rule all_bytes) code_simp
  also have "\<dots> \<longleftrightarrow> xml_entity ch \<noteq> None" by (auto simp: xml_entity_def ascii_def)
  finally show ?thesis .
qed

lemma xml_chunk_nonempty: "1 \<le> length (xml_chunk ch)"
  by (auto simp: xml_chunk_def xml_entity_def)

lemma xml_encode_loop_eq:
  "pos < n \<Longrightarrow> n \<le> length buf \<Longrightarrow> xml_encode_loop n src pos buf = Inr (written n (map xml_chunk src) pos buf)"
proof (induction src arbitrary: pos buf)
  case (Cons ch src)
  then show ?case
    using xml_unsafe [of ch] xml_chunk_nonempty [of ch] by (cases "xml_entity ch") (auto simp: xml_chunk_def not_le)
qed simp

interpretation xml_en: transformer xml_encode "map xml_chunk"
  by unfold_locales (simp_all add: xml_encode_def not_null_def xml_encode_loop_eq)

lemma xml_raw:
  "ch \<noteq> ascii (CHR ''&'') \<Longrightarrow> xml_decode_loop beyond n (ch # src) pos buf =
     (if pos + 1 < n then andThen (puts buf pos [ch]) (xml_decode_loop beyond n src (pos + 1)) else Inr (pos, buf))"
  by simp

lemma xml_entity_decoded:
  assumes "xml_entity ch = Some cs" and "pos + 1 < n" and "n \<le> length buf"
  shows "xml_decode_loop beyond n (cs @ src) pos buf = xml_decode_loop beyond n src (pos + 1) (blit buf pos [ch])"
  using assms by (auto simp: xml_entity_def ascii_def split: if_splits)

lemma xml_decode_chunks:
  "pos < n \<Longrightarrow> n \<le> length buf \<Longrightarrow> xml_decode_loop beyond n (concat (map xml_chunk s)) pos buf = Inr (written n (singly s) pos buf)"
proof (induction s arbitrary: pos buf)
  case (Cons ch s)
  show ?case
  proof (cases "xml_entity ch")
    case None
    then have "ch \<noteq> ascii (CHR ''&'')" by (auto simp: xml_entity_def split: if_splits)
    then show ?thesis using Cons None by (auto simp: xml_chunk_def xml_raw simp del: xml_decode_loop.simps(2))
  next
    case (Some cs)
    then obtain c cs' where cs: "cs = c # cs'" by (auto simp: xml_entity_def split: if_splits)
    show ?thesis
    proof (cases "pos + 1 < n")
      case True
      then show ?thesis using Cons Some xml_entity_decoded [OF Some True Cons.prems(2)] by (simp add: xml_chunk_def del: xml_decode_loop.simps(2))
    next
      case False
      then show ?thesis using Some cs by (simp add: xml_chunk_def)
    qed
  qed
qed simp

lemma xml_chunks_length: "length (concat (map xml_chunk s)) \<le> 6 * length s"
  by (induction s) (auto simp: xml_chunk_def xml_entity_def)

text \<open>Text survives the XML encoding.\<close>

lemma xml_round_trip:
  "andThen (transform f (6 * length s) s xml_encode) (\<lambda>(x, _). transform g (length s) x (xml_decode beyond)) = Inr (s, length s)"
proof -
  have "xml_decode beyond (Some buf) (Suc (length s)) (concat (map xml_chunk s)) = Inr (length s, blit buf 0 (s @ [0]))" if "length buf = Suc (length s)" for buf
    using xml_decode_chunks [of 0 "Suc (length s)" buf beyond s] that terminated_written [of "Suc (length s)" buf "singly s"] fit_all [of "singly s" "Suc (length s)"]
    by (simp add: xml_decode_def not_null_def)
  then have "transform g (length s) (concat (map xml_chunk s)) (xml_decode beyond) = Inr (s, length s)"
    by (simp add: transform_def assign_def) (simp add: blit_def)
  then show ?thesis using xml_en.transform_complete [OF xml_chunks_length, of f s] by simp
qed

subsection \<open>UTF-8, round trip\<close>

definition utf8 :: "uint64 \<Rightarrow> byte list" where
  "utf8 v =
     (if v \<le> 0x7F then [ucast v]
      else if v \<le> 0x7FF then [0xC0 OR ucast (drop_bit 6 v), 0x80 OR ucast (v AND 0x3F)]
      else if v \<le> 0xFFFF then [0xE0 OR ucast (drop_bit 12 v), 0x80 OR ucast (drop_bit 6 v AND 0x3F), 0x80 OR ucast (v AND 0x3F)]
      else [0xF0 OR ucast (drop_bit 18 v), 0x80 OR ucast (drop_bit 12 v AND 0x3F), 0x80 OR ucast (drop_bit 6 v AND 0x3F), 0x80 OR ucast (v AND 0x3F)])"

lemma utf8_encode_eq:
  assumes "v \<le> 0x1FFFFF" and "length (utf8 v) \<le> buflen" and "at + length (utf8 v) \<le> length buf"
  shows "utf8_encode buf at buflen v = Inr (length (utf8 v), blit buf at (utf8 v))"
proof -
  have "v \<le> 0x7F \<Longrightarrow> v \<le> 0x7FF" "v \<le> 0x7FF \<Longrightarrow> v \<le> 0xFFFF" by (auto intro: order_trans)
  then show ?thesis using assms by (simp add: utf8_encode_def utf8_def Let_def split: if_splits)
qed

lemma high_bits:
  fixes v :: uint64
  assumes "unat v < 2 ^ k" and "k \<le> n"
  shows "\<not> bit v n"
proof -
  have "take_bit k v = v" using assms(1) by (simp add: word_unat_eq_iff unsigned_take_bit_eq take_bit_nat_eq_self)
  then show ?thesis using assms(2) by (metis bit_take_bit_iff not_le)
qed

lemma word64_eqI:
  fixes a b :: uint64
  assumes "list_all (\<lambda>n. bit a n = bit b n) [0, 1, 2, 3, 4, 5, 6, 7, 8, 9, 10, 11, 12, 13, 14, 15, 16, 17, 18, 19, 20, 21, 22, 23, 24, 25, 26, 27, 28, 29, 30, 31, 32, 33, 34, 35, 36, 37, 38, 39, 40, 41, 42, 43, 44, 45, 46, 47, 48, 49, 50, 51, 52, 53, 54, 55, 56, 57, 58, 59, 60, 61, 62, 63]"
  shows "a = b"
proof (rule bit_word_eqI)
  fix n assume "n < LENGTH(64)"
  then have n: "n \<in> set [0..<64]" by simp
  have e: "[0..<64] = [0, 1, 2, 3, 4, 5, 6, 7, 8, 9, 10, 11, 12, 13, 14, 15, 16, 17, 18, 19, 20, 21, 22, 23, 24, 25, 26, 27, 28, 29, 30, 31, 32, 33, 34, 35, 36, 37, 38, 39, 40, 41, 42, 43, 44, 45, 46, 47, 48, 49, 50, 51, 52, 53, 54, 55, 56, 57, 58, 59, 60, 61, 62, 63]" by code_simp
  have "list_all (\<lambda>n. bit a n = bit b n) [0..<64]" unfolding e by (rule assms)
  then show "bit a n = bit b n" using n unfolding list_all_iff by blast
qed

lemma top_bit:
  fixes a :: byte
  assumes "bit a 7"
  shows "a AND 0x80 \<noteq> 0"
proof
  assume "a AND 0x80 = 0"
  then have "\<not> bit (a AND 0x80) 7" by simp
  then show False using assms by (simp add: bit_simps)
qed

lemma continuation:
  "(0x80 OR ucast ((x :: uint64) AND 0x3F)) AND 0xC0 = (0x80 :: byte)"
  "ucast ((0x80 OR ucast ((x :: uint64) AND 0x3F)) AND 0x3F :: byte) = x AND 0x3F"
  subgoal by (intro byte_eqI8; simp add: bit_simps)
  subgoal by (rule word64_eqI; simp add: bit_simps)
  done

lemma utf8_decode_2:
  fixes v :: uint64
  assumes "unat v < 2 ^ 11"
  shows "utf8_decode ([0xC0 OR ucast (drop_bit 6 v), 0x80 OR ucast (v AND 0x3F)] @ rest) = Inr (Some (2, v))"
proof -
  note hb = high_bits [OF assms]
  let ?a = "0xC0 OR ucast (drop_bit 6 v) :: byte"
  have a1: "?a AND 0xE0 = 0xC0" by (intro byte_eqI8; simp add: bit_simps hb)
  have a2: "?a AND 0x80 \<noteq> 0" by (rule top_bit) (simp add: bit_simps)
  have "push_bit 6 (ucast (?a AND 0x1F)) OR (v AND 0x3F) = v" by (rule word64_eqI) (simp add: bit_simps hb)
  then show ?thesis using a1 a2 by (simp add: utf8_decode_def continuation Let_def)
qed

lemma utf8_decode_3:
  fixes v :: uint64
  assumes "unat v < 2 ^ 16"
  shows "utf8_decode ([0xE0 OR ucast (drop_bit 12 v), 0x80 OR ucast (drop_bit 6 v AND 0x3F), 0x80 OR ucast (v AND 0x3F)] @ rest) = Inr (Some (3, v))"
proof -
  note hb = high_bits [OF assms]
  let ?a = "0xE0 OR ucast (drop_bit 12 v) :: byte"
  have a1: "?a AND 0xF0 = 0xE0" "?a AND 0xE0 = 0xE0" by (intro byte_eqI8; simp add: bit_simps hb)+
  have a2: "?a AND 0x80 \<noteq> 0" by (rule top_bit) (simp add: bit_simps)
  have "push_bit 12 (ucast (?a AND 0x0F)) OR (push_bit 6 (drop_bit 6 v AND 0x3F) OR (v AND 0x3F)) = v"
    by (rule word64_eqI) (simp add: bit_simps hb)
  then show ?thesis using a1 a2 by (simp add: utf8_decode_def continuation Let_def)
qed

lemma utf8_decode_4:
  fixes v :: uint64
  assumes "unat v < 2 ^ 21"
  shows "utf8_decode ([0xF0 OR ucast (drop_bit 18 v), 0x80 OR ucast (drop_bit 12 v AND 0x3F), 0x80 OR ucast (drop_bit 6 v AND 0x3F),
    0x80 OR ucast (v AND 0x3F)] @ rest) = Inr (Some (4, v))"
proof -
  note hb = high_bits [OF assms]
  let ?a = "0xF0 OR ucast (drop_bit 18 v) :: byte"
  have a1: "?a AND 0xF8 = 0xF0" "?a AND 0xF0 = 0xF0" "?a AND 0xE0 = 0xE0" by (intro byte_eqI8; simp add: bit_simps hb)+
  have a2: "?a AND 0x80 \<noteq> 0" by (rule top_bit) (simp add: bit_simps)
  have "push_bit 18 (ucast (?a AND 0x07)) OR (push_bit 6 (push_bit 6 (drop_bit 12 v AND 0x3F) OR (drop_bit 6 v AND 0x3F)) OR (v AND 0x3F)) = v"
    by (rule word64_eqI) (simp add: bit_simps hb)
  then show ?thesis using a1 a2 by (simp add: utf8_decode_def continuation Let_def)
qed

text \<open>Decoding gives back the number that was encoded, and how many bytes it took.\<close>

lemma utf8_round_trip:
  assumes "v \<le> 0x1FFFFF"
  shows "utf8_decode (utf8 v @ rest) = Inr (Some (length (utf8 v), v))"
proof -
  have l: "unat v \<le> 2097151" using assms by (simp add: word_le_nat_alt)
  consider "v \<le> 0x7F" | "\<not> v \<le> 0x7F" "v \<le> 0x7FF" | "\<not> v \<le> 0x7FF" "v \<le> 0xFFFF" | "\<not> v \<le> 0xFFFF" by blast
  then show ?thesis
  proof cases
    case 1
    then have u: "unat v < 2 ^ 7" by (simp add: word_le_nat_alt)
    note hb = high_bits [OF u]
    have "(ucast v :: byte) AND 0x80 = 0" by (intro byte_eqI8; simp add: bit_simps hb)
    moreover have "ucast (ucast v :: byte) = v" by (rule word64_eqI) (simp add: bit_simps hb)
    ultimately show ?thesis using 1 by (simp add: utf8_decode_def utf8_def)
  next
    case 2
    then have "unat v < 2 ^ 11" by (simp add: word_le_nat_alt)
    then show ?thesis using 2 utf8_decode_2 [of v rest] by (simp add: utf8_def)
  next
    case 3
    then have "unat v < 2 ^ 16" "\<not> v \<le> 0x7F" by (simp_all add: word_le_nat_alt)
    then show ?thesis using 3 utf8_decode_3 [of v rest] by (simp add: utf8_def)
  next
    case 4
    then have "\<not> v \<le> 0x7F" "\<not> v \<le> 0x7FF" by (simp_all add: word_le_nat_alt)
    then show ?thesis using 4 l utf8_decode_4 [of v rest] by (simp add: utf8_def)
  qed
qed

subsection \<open>Decimal numbers\<close>

lemma below_10: "k < 10 \<Longrightarrow> k = 0 \<or> k = 1 \<or> k = 2 \<or> k = 3 \<or> k = 4 \<or> k = 5 \<or> k = 6 \<or> k = 7 \<or> k = 8 \<or> k = (9 :: nat)"
  by presburger

lemma digit_of_nat:
  assumes "k < 10"
  shows "digit_value 10 (of_nat (48 + k)) = Some k" and "\<not> isspace (of_nat (48 + k))" and "of_nat (48 + k) \<notin> {43, 45, 120 :: byte}"
  using below_10 [OF assms] by (auto simp: digit_value_def isspace_def)

lemma decimal_nonempty [simp]: "decimal n \<noteq> []"
  by (subst decimal.simps) simp

lemma decimal_chars: "c \<in> set (decimal n) \<Longrightarrow> is_digit 10 c \<and> \<not> isspace c \<and> c \<notin> {43, 45, 120}"
proof (induction n rule: decimal.induct)
  case (1 n)
  then show ?case using digit_of_nat [of "n mod 10"]
    by (subst (asm) (2) decimal.simps) (auto simp: is_digit_def split: if_splits)
qed

lemma decimal_value: "digits_value 10 (decimal n) = n"
proof (induction n rule: decimal.induct)
  case (1 n)
  have "digits_value 10 (ds @ [c]) = digits_value 10 ds * 10 + the (digit_value 10 c)" for ds c by (simp add: digits_value_def)
  then show ?case using 1 digit_of_nat(1) [of "n mod 10"] by (subst decimal.simps) (auto simp: digits_value_def [of 10 "[]"])
qed

lemma decimal_length: "n < 10 ^ Suc k \<Longrightarrow> length (decimal n) \<le> Suc k"
proof (induction k arbitrary: n)
  case 0
  then show ?case by (simp add: decimal.simps)
next
  case (Suc k)
  then have "n div 10 < 10 ^ Suc k" by (simp add: div_less_iff_less_mult)
  then show ?case using Suc.IH by (subst decimal.simps) simp
qed

lemma strtoul_decimal:
  assumes "n < 2 ^ 64"
  shows "strtoul (decimal n @ 59 # rest) 10 = Inr (of_nat n, length (decimal n))"
proof -
  obtain d ds where d: "decimal n = d # ds" by (cases "decimal n") simp_all
  then have c: "\<not> isspace d" "d \<noteq> 43" "d \<noteq> 45" using decimal_chars [of d n] by auto
  have "takeWhile (is_digit 10) (decimal n @ 59 # rest) = decimal n"
    using decimal_chars by (subst takeWhile_append2) (auto simp: is_digit_def digit_value_def)
  then show ?thesis using c d decimal_value [of n] assms by (simp add: strtoul_def Let_def ascii_def)
qed

subsection \<open>HTML\<close>

lemma utf8_decode_total: "\<exists>u. utf8_decode (ch # src) = Inr u"
  by (simp add: utf8_decode_def Let_def)

definition ascii_chunk :: "byte \<Rightarrow> byte list" where
  "ascii_chunk ch = (case html_entity ch of Some cs \<Rightarrow> cs | None \<Rightarrow> [ch])"

function html_chunks :: "byte list \<Rightarrow> byte list list" where
  "html_chunks [] = []"
| "html_chunks (ch # src) =
     (if ch < 128 then ascii_chunk ch # html_chunks src
      else case utf8_decode (ch # src) of
        Inr (Some (k, v)) \<Rightarrow> html_number v # html_chunks (drop (k - 1) src)
      | _ \<Rightarrow> html_number (ucast ch) # html_chunks src)"
  by pat_completeness auto
termination
  by (relation "measure length") auto

lemma html_unsafe: "ch < 128 \<Longrightarrow> ASCII_CLASS ! unat ch AND HTML_UNSAFE \<noteq> 0 \<longleftrightarrow> html_entity ch \<noteq> None"
  using xml_unsafe [of ch] by (auto simp: in_class_def XML_UNSAFE_def HTML_UNSAFE_def html_entity_def xml_entity_def)

lemma html_nonempty: "1 \<le> length (ascii_chunk ch)" "1 \<le> length (html_number v)"
  by (auto simp: ascii_chunk_def html_entity_def xml_entity_def html_number_def)

lemma html_encode_loop_eq:
  "pos < n \<Longrightarrow> n \<le> length buf \<Longrightarrow> html_encode_loop n src pos buf = Inr (written n (html_chunks src) pos buf)"
proof (induction src arbitrary: pos buf rule: html_chunks.induct)
  case (2 ch src)
  show ?case
  proof (cases "ch < 128")
    case True
    then show ?thesis using 2 html_unsafe [OF True] html_nonempty(1) [of ch] by (cases "html_entity ch") (auto simp: ascii_chunk_def not_le)
  next
    case False
    obtain u where u: "utf8_decode (ch # src) = Inr u" using utf8_decode_total by blast
    have full: "written n (html_number v # cs) pos buf = (pos, buf)" if "\<not> Suc pos < n" for v cs
      using html_nonempty(2) [of v] that by (intro written_full) linarith
    show ?thesis
    proof (cases "Suc pos < n")
      case True
      then show ?thesis using 2 False u by (cases u) (auto simp: not_le)
    next
      case False
      then show ?thesis using \<open>\<not> ch < 128\<close> u full by (cases u) auto
    qed
  qed
qed simp

interpretation html_en: transformer html_encode html_chunks
  by unfold_locales (simp_all add: html_encode_def not_null_def html_encode_loop_eq)

text \<open>What the encoder makes of a number below \<open>2 ^ 21\<close>, and how the decoder reads it.\<close>

definition html_piece :: "uint64 \<Rightarrow> byte list" where
  "html_piece v = (if v \<le> 0x7F then ascii_chunk (ucast v) else html_number v)"

lemma bit_7: "bit (ch :: byte) 7 \<longleftrightarrow> \<not> ch < 128"
  by (rule all_bytes) code_simp

lemma utf8_ascii: "v \<le> 0x7F \<Longrightarrow> utf8 v = [ucast v] \<and> (ucast v :: byte) < 128"
  using bit_7 [of "ucast v"] high_bits [of v 7 7] by (auto simp: utf8_def bit_simps word_le_nat_alt)

lemma utf8_lead:
  assumes "\<not> v \<le> 0x7F"
  obtains ch cs where "utf8 v = ch # cs" "\<not> ch < 128"
proof -
  have "bit (hd (utf8 v)) 7" using assms by (auto simp: utf8_def bit_simps)
  moreover have "utf8 v \<noteq> []" by (simp add: utf8_def)
  ultimately show ?thesis using that bit_7 [of "hd (utf8 v)"] by (metis list.exhaust_sel)
qed

lemma html_chunks_utf8: "\<forall>v \<in> set vs. v \<le> 0x1FFFFF \<Longrightarrow> html_chunks (concat (map utf8 vs)) = map html_piece vs"
proof (induction vs)
  case (Cons v vs)
  show ?case
  proof (cases "v \<le> 0x7F")
    case True
    then show ?thesis using Cons utf8_ascii [OF True] by (simp add: html_piece_def)
  next
    case False
    then obtain ch cs where u: "utf8 v = ch # cs" "\<not> ch < 128" by (rule utf8_lead)
    have "utf8_decode (ch # cs @ concat (map utf8 vs)) = Inr (Some (Suc (length cs), v))"
      using utf8_round_trip [of v "concat (map utf8 vs)"] Cons.prems u by simp
    then show ?thesis using Cons u False by (simp add: html_piece_def)
  qed
qed simp

lemma html_number_eq:
  assumes "v \<le> 0x1FFFFF"
  shows "html_number v = ascii (CHR ''&'') # ascii (CHR ''#'') # decimal (unat v) @ [59]"
proof -
  have "length (decimal (unat v)) \<le> Suc 6" using assms by (intro decimal_length) (simp add: word_le_nat_alt)
  then show ?thesis by (simp add: html_number_def ascii_def)
qed

lemma number_decoded:
  assumes "v \<le> 0x1FFFFF" and "pos + 1 < n" and "pos + length (utf8 v) \<le> n" and "n \<le> length buf"
  shows "xml_decode_loop beyond n (html_number v @ src) pos buf = xml_decode_loop beyond n src (pos + length (utf8 v)) (blit buf pos (utf8 v))"
proof -
  let ?d = "decimal (unat v)"
  obtain d ds where d: "?d = d # ds" by (cases ?d) simp_all
  have x: "d \<noteq> 120" using decimal_chars [of d "unat v"] d by auto
  have s: "strtoul (?d @ 59 # src @ beyond) 10 = Inr (v, length ?d)" using strtoul_decimal [of "unat v" "src @ beyond"] unsigned_less [of v, where 'a = nat] by simp
  have u: "utf8_encode buf pos (n - pos) v = Inr (length (utf8 v), blit buf pos (utf8 v))" using assms by (intro utf8_encode_eq) auto
  have l: "utf8 v \<noteq> []" by (simp add: utf8_def)
  show ?thesis using x s u l d assms by (simp add: html_number_eq ascii_def Let_def)
qed

lemma piece_decoded:
  assumes "v \<le> 0x1FFFFF" and "pos + length (utf8 v) < n" and "n \<le> length buf"
  shows "xml_decode_loop beyond n (html_piece v @ src) pos buf = xml_decode_loop beyond n src (pos + length (utf8 v)) (blit buf pos (utf8 v))"
proof -
  have "1 \<le> length (utf8 v)" by (simp add: utf8_def)
  then have num: "xml_decode_loop beyond n (html_number v @ src) pos buf = xml_decode_loop beyond n src (pos + length (utf8 v)) (blit buf pos (utf8 v))"
    using assms by (intro number_decoded) auto
  show ?thesis
proof (cases "v \<le> 0x7F")
  case True
  let ?ch = "ucast v :: byte"
  note a = utf8_ascii [OF True]
  have p: "pos + 1 < n" using a assms(2) by simp
  consider "?ch = 39" | "?ch \<noteq> 39" "xml_entity ?ch = None" | cs where "?ch \<noteq> 39" "xml_entity ?ch = Some cs" by (cases "xml_entity ?ch") auto
  then show ?thesis
  proof cases
    case 1
    have "ucast ?ch = v" using utf8_round_trip [of v "[]"] a assms(1) by (auto simp: utf8_decode_def split: if_splits)
    then have "v = 39" using 1 by simp
    moreover have "html_number 39 = map ascii ''&#39;''" by (simp add: html_number_def decimal.simps ascii_def)
    ultimately show ?thesis using num by (simp add: html_piece_def ascii_chunk_def html_entity_def ascii_def)
  next
    case 2
    then have "?ch \<noteq> ascii (CHR ''&'')" by (auto simp: xml_entity_def split: if_splits)
    then show ?thesis using 2 a p assms True by (simp add: html_piece_def ascii_chunk_def html_entity_def ascii_def [of "CHR 0x27"] xml_raw del: xml_decode_loop.simps(2))
  next
    case (3 cs)
    then show ?thesis using a True xml_entity_decoded [OF 3(2) p assms(3)]
      by (simp add: html_piece_def ascii_chunk_def html_entity_def ascii_def [of "CHR 0x27"] del: xml_decode_loop.simps(2))
  qed
next
  case False
  then show ?thesis using num by (simp add: html_piece_def)
qed
qed

lemma html_decode_pieces:
  assumes "\<forall>v \<in> set vs. v \<le> 0x1FFFFF" and "pos + length (concat (map utf8 vs)) < n" and "n \<le> length buf"
  shows "xml_decode_loop beyond n (concat (map html_piece vs)) pos buf = Inr (pos + length (concat (map utf8 vs)), blit buf pos (concat (map utf8 vs)))"
  using assms
proof (induction vs arbitrary: pos buf)
  case (Cons v vs)
  then show ?case using piece_decoded [of v pos n buf beyond "concat (map html_piece vs)"] by (simp del: xml_decode_loop.simps(2))
qed simp

lemma html_pieces_length: "length (concat (map html_piece vs)) \<le> 10 * length (concat (map utf8 vs))"
proof (induction vs)
  case (Cons v vs)
  have "length (html_piece v) \<le> 10" by (auto simp: html_piece_def ascii_chunk_def html_entity_def xml_entity_def html_number_def)
  moreover have "1 \<le> length (utf8 v)" by (simp add: utf8_def)
  ultimately show ?case using Cons by simp
qed simp

text \<open>A numeric reference of several bytes that fills the buffer makes \<open>xml_decode\<close> write its terminating zero behind the buffer: the room that it gives to
  \<open>utf8_encode\<close> includes the place of the zero.\<close>

lemma xml_decode_overflows:
  "transform fresh (Suc k) (replicate k (ascii (CHR ''a'')) @ map ascii ''&#233;'') (xml_decode beyond) = Inl Out_of_bounds"
proof -
  have a: "ascii (CHR ''a'') \<noteq> ascii (CHR ''&'')" by (simp add: ascii_def)
  let ?n = "Suc (Suc k)"
  have raws: "pos + j < ?n \<Longrightarrow> length buf = ?n \<Longrightarrow> xml_decode_loop beyond ?n (replicate j (ascii (CHR ''a'')) @ src) pos buf =
      xml_decode_loop beyond ?n src (pos + j) (blit buf pos (replicate j (ascii (CHR ''a''))))" for pos j buf src
    by (induction j arbitrary: pos buf) (simp_all add: xml_raw [OF a] del: xml_decode_loop.simps(2))
  have num: "map ascii ''&#233;'' = html_number 233" by (simp add: html_number_def decimal.simps ascii_def)
  have u: "utf8 233 = [0xC3, 0xA9]" by (simp add: utf8_def)
  have "xml_decode_loop beyond ?n (html_number 233) k buf = Inr (?n, blit buf k (utf8 233))" if "length buf = ?n" for buf
    using number_decoded [of 233 k ?n buf beyond "[]"] that by (simp add: u)
  then show ?thesis unfolding num using raws [of 0 k "new_char fresh ?n" "html_number 233"]
    by (simp add: transform_def xml_decode_def not_null_def terminated_def puts_def u)
qed

text \<open>A reference without digits is read as the number 0.\<close>

lemma xml_decode_no_digits: "transform (\<lambda>_. 7) 3 (map ascii ''&#;'') (xml_decode [0]) = Inr ([0], 1)"
  by code_simp

subsection \<open>Properties\<close>

text \<open>Property C39: text in UTF-8 survives the HTML encoding and the decoding that HTML and XML share: code points beyond ASCII become decimal references, which
  \<open>strtoul\<close> reads back.\<close>

theorem html_round_trip:
  assumes "\<forall>v \<in> set vs. v \<le> 0x1FFFFF" and "s = concat (map utf8 vs)"
  shows "andThen (transform f (10 * length s) s html_encode) (\<lambda>(x, _). transform g (length s) x (html_decode beyond)) = Inr (s, length s)"
proof -
  let ?n = "Suc (length s)"
  have "html_decode beyond (Some (new_char g ?n)) ?n (concat (map html_piece vs)) = Inr (length s, blit (new_char g ?n) 0 (s @ [0]))"
    using html_decode_pieces [OF assms(1), of 0 ?n "new_char g ?n" beyond] assms(2)
    by (simp add: html_decode_def xml_decode_def not_null_def terminated_def blit_blit [of 0, simplified])
  then have "transform g (length s) (concat (map html_piece vs)) (html_decode beyond) = Inr (s, length s)"
    by (simp add: transform_def assign_def) (simp add: blit_def)
  then show ?thesis
    using html_en.transform_complete [of s "10 * length s" f] html_chunks_utf8 [OF assms(1)] html_pieces_length [of vs] assms(2) by simp
qed

theorem html_round_trip_witness:
  "(let s = concat (map utf8 [60, 233, 0x20AC]) in
    andThen (transform (\<lambda>_. 7) (10 * length s) s html_encode) (\<lambda>(x, _). transform (\<lambda>_. 7) (length s) x (html_decode [])) = Inr (s, length s))"
  using html_round_trip [of "[60, 233, 0x20AC]" _ "\<lambda>_. 7" "\<lambda>_. 7" "[]", OF _ refl] by simp



end
