(* ===== verification/StringFields.thy ===== *)
theory StringFields
  imports StringEncode
begin

text \<open>
  The rest of \<^verbatim>\<open>talk/base/stringencode.cc\<close>: binary data as hexadecimal text, with or without a delimiter between the bytes, the splitting of strings into
  fields, and characters for file names.
\<close>

subsection \<open>Hexadecimal text\<close>

fun hex_encode_loop :: "byte \<Rightarrow> byte list \<Rightarrow> nat \<Rightarrow> byte list \<Rightarrow> (nat \<times> byte list) exec" where
  "hex_encode_loop delimiter [] bufpos buf = Inr (bufpos, buf)"
| "hex_encode_loop delimiter (ch # src) bufpos buf =
     andThen (hex_encode_char (drop_bit 4 ch AND 0xF)) (\<lambda>h1. andThen (hex_encode_char (ch AND 0xF)) (\<lambda>h2.
     andThen (puts buf bufpos [h1, h2]) (\<lambda>buf.
     if delimiter \<noteq> 0 \<and> src \<noteq> [] then andThen (puts buf (bufpos + 2) [delimiter]) (\<lambda>buf. hex_encode_loop delimiter src (bufpos + 3) buf)
     else hex_encode_loop delimiter src (bufpos + 2) buf)))"

definition hex_encode_with_delimiter :: "byte \<Rightarrow> Transform" where
  "hex_encode_with_delimiter delimiter buffer buflen source = not_null buffer (\<lambda>buf.
     if buflen = 0 then Inr (0, buf)
     else let needed = (if delimiter \<noteq> 0 then length source * 3 else length source * 2 + 1) in
     if buflen < needed then Inr (0, buf) else andThen (hex_encode_loop delimiter source 0 buf) terminated)"

definition hex_encode :: Transform where
  "hex_encode = hex_encode_with_delimiter 0"

definition hex_encode_with_delimiter_string :: "(nat \<Rightarrow> byte) \<Rightarrow> byte \<Rightarrow> byte list \<Rightarrow> byte list exec" where
  "hex_encode_with_delimiter_string fresh delimiter source =
     (let kBufferSize = length source * 3 in
      andThen (hex_encode_with_delimiter delimiter (Some (new_char fresh kBufferSize)) kBufferSize source) (\<lambda>(n, buf).
      andThen (ASSERT (length source = 0 \<or> n > 0)) (\<lambda>_. andThen (assign (n, buf)) (\<lambda>(str, _). Inr str))))"

definition hex_encode_string :: "(nat \<Rightarrow> byte) \<Rightarrow> byte list \<Rightarrow> byte list exec" where
  "hex_encode_string fresh source = hex_encode_with_delimiter_string fresh 0 source"

fun hex_decode_loop :: "byte \<Rightarrow> byte list \<Rightarrow> nat \<Rightarrow> byte list \<Rightarrow> (nat \<times> byte list) exec" where
  "hex_decode_loop delimiter [] bufpos buf = Inr (bufpos, buf)"
| "hex_decode_loop delimiter [c] bufpos buf = Inr (0, buf)"
| "hex_decode_loop delimiter (a # b # src) bufpos buf =
     (case hex_pair a b of
        None \<Rightarrow> Inr (0, buf)
      | Some v \<Rightarrow>
          andThen (puts buf bufpos [v]) (\<lambda>buf.
          if delimiter \<noteq> 0 \<and> length src > 1 then
            (if hd src \<noteq> delimiter then Inr (0, buf) else hex_decode_loop delimiter (tl src) (bufpos + 1) buf)
          else hex_decode_loop delimiter src (bufpos + 1) buf))"

definition hex_decode_with_delimiter :: "byte \<Rightarrow> Transform" where
  "hex_decode_with_delimiter delimiter buffer buflen source = not_null buffer (\<lambda>buf.
     if buflen = 0 then Inr (0, buf)
     else let needed = (if delimiter \<noteq> 0 then (length source + 1) div 3 else length source div 2) in
     if buflen < needed then Inr (0, buf) else hex_decode_loop delimiter source 0 buf)"

definition hex_decode :: Transform where
  "hex_decode = hex_decode_with_delimiter 0"

subsection \<open>Fields\<close>

definition substr :: "byte list \<Rightarrow> nat \<Rightarrow> nat \<Rightarrow> byte list" where
  "substr s pos n = take n (drop pos s)"

function tokenize_loop :: "byte list \<Rightarrow> byte \<Rightarrow> nat \<Rightarrow> nat \<Rightarrow> byte list list \<Rightarrow> nat \<times> byte list list" where
  "tokenize_loop source delimiter i last_pos fields =
     (if i < length source then
        if source ! i = delimiter then
          tokenize_loop source delimiter (i + 1) (i + 1) (if i \<noteq> last_pos then fields @ [substr source last_pos (i - last_pos)] else fields)
        else tokenize_loop source delimiter (i + 1) last_pos fields
      else (last_pos, fields))"
  by pat_completeness auto
termination
  by (relation "measure (\<lambda>(source, _, i, _, _). length source - i)") auto

definition tokenize :: "byte list \<Rightarrow> byte \<Rightarrow> byte list list" where
  "tokenize source delimiter =
     (case tokenize_loop source delimiter 0 0 [] of (last_pos, fields) \<Rightarrow>
      if last_pos \<noteq> length source then fields @ [substr source last_pos (length source - last_pos)] else fields)"

definition tokenize_append :: "byte list \<Rightarrow> byte \<Rightarrow> byte list list \<Rightarrow> byte list list" where
  "tokenize_append source delimiter fields = fields @ tokenize source delimiter"

definition find_char :: "byte list \<Rightarrow> byte \<Rightarrow> nat \<Rightarrow> nat option" where
  "find_char s c pos = (let k = pos + length (takeWhile (\<lambda>x. x \<noteq> c) (drop pos s)) in if k < length s then Some k else None)"

function marks_loop :: "byte \<Rightarrow> byte \<Rightarrow> byte \<Rightarrow> byte list \<Rightarrow> byte list list \<Rightarrow> byte list \<times> byte list list" where
  "marks_loop delimiter start_mark end_mark remain fields =
     (if remain = [] then (remain, fields)
      else case find_char remain start_mark 0 of
        None \<Rightarrow> (remain, fields)
      | Some start_pos \<Rightarrow>
          let pre_mark = (if start_pos > 0 then substr remain 0 (start_pos - 1) else []) in
          case find_char remain end_mark (start_pos + 1) of
            None \<Rightarrow> (remain, fields)
          | Some end_pos \<Rightarrow>
              marks_loop delimiter start_mark end_mark (drop (end_pos + 1) remain)
                (tokenize_append pre_mark delimiter fields @ [substr remain (start_pos + 1) (end_pos - (start_pos + 1))]))"
  by pat_completeness auto
termination
  by (relation "measure (\<lambda>(_, _, _, remain, _). length remain)") auto

definition tokenize_marks :: "byte list \<Rightarrow> byte \<Rightarrow> byte \<Rightarrow> byte \<Rightarrow> byte list list" where
  "tokenize_marks source delimiter start_mark end_mark =
     (case marks_loop delimiter start_mark end_mark source [] of (remain, fields) \<Rightarrow> tokenize_append remain delimiter fields)"

function split_loop :: "byte list \<Rightarrow> byte \<Rightarrow> nat \<Rightarrow> nat \<Rightarrow> byte list list \<Rightarrow> nat \<times> byte list list" where
  "split_loop source delimiter i last_pos fields =
     (if i < length source then
        if source ! i = delimiter then split_loop source delimiter (i + 1) (i + 1) (fields @ [substr source last_pos (i - last_pos)])
        else split_loop source delimiter (i + 1) last_pos fields
      else (last_pos, fields))"
  by pat_completeness auto
termination
  by (relation "measure (\<lambda>(source, _, i, _, _). length source - i)") auto

definition split :: "byte list \<Rightarrow> byte \<Rightarrow> byte list list" where
  "split source delimiter =
     (case split_loop source delimiter 0 0 [] of (last_pos, fields) \<Rightarrow> fields @ [substr source last_pos (length source - last_pos)])"

definition make_char_safe_for_filename :: "byte \<Rightarrow> byte" where
  "make_char_safe_for_filename c =
     (if c <s 32 then ascii (CHR ''_'')
      else if c \<in> {ascii (CHR ''<''), ascii (CHR ''>''), ascii (CHR '':''), ascii (CHR 0x22), ascii (CHR ''/''), ascii (CHR 0x5C), ascii (CHR ''|''),
        ascii (CHR ''*''), ascii (CHR ''?'')} then ascii (CHR ''_'')
      else c)"

declare tokenize_loop.simps [simp del] split_loop.simps [simp del] marks_loop.simps [simp del]

subsection \<open>Hexadecimal text, lemmas\<close>

fun hex_text :: "byte \<Rightarrow> byte list \<Rightarrow> byte list" where
  "hex_text delimiter [] = []"
| "hex_text delimiter (ch # src) = tl (hex3 0 ch) @ (if delimiter \<noteq> 0 \<and> src \<noteq> [] then [delimiter] else []) @ hex_text delimiter src"

lemma hex_text_length: "length (hex_text d s) = (if d \<noteq> 0 then length s * 3 - 1 else length s * 2)"
  by (induction s) (auto simp: hex3_def)

lemma hex_encode_loop_eq:
  "pos + length (hex_text d s) \<le> length buf \<Longrightarrow> hex_encode_loop d s pos buf = Inr (pos + length (hex_text d s), blit buf pos (hex_text d s))"
proof (induction s arbitrary: pos buf)
  case (Cons ch s)
  obtain h1 h2 where h: "tl (hex3 0 ch) = [h1, h2]" "hex_encode_char (drop_bit 4 ch AND 0xF) = Inr h1" "hex_encode_char (ch AND 0xF) = Inr h2"
    by (simp add: hex_encode_char_def nibble_small hex3_def)
  have b2: "blit (blit buf pos [h1, h2]) (Suc (Suc pos)) xs = blit buf pos (h1 # h2 # xs)" if "Suc (Suc pos) \<le> length buf" for xs
    using blit_blit [of pos "[h1, h2]" buf xs] that by simp
  have b3: "blit (blit buf pos [h1, h2, d]) (pos + 3) xs = blit buf pos (h1 # h2 # d # xs)" if "Suc (Suc (Suc pos)) \<le> length buf" for xs
    using blit_blit [of pos "[h1, h2, d]" buf xs] that by (simp add: numeral_3_eq_3)
  show ?case using Cons by (auto simp: h b2 b3)
qed simp

lemma hex_encode_eq:
  "hex_encode_with_delimiter_string fresh d s = Inr (hex_text d s)"
proof (cases "s = []")
  case False
  let ?n = "length s * 3" and ?t = "hex_text d s"
  have l: "length ?t < ?n" "0 < length ?t" "(if d \<noteq> 0 then ?n else length s * 2 + 1) \<le> ?n"
    using False by (cases s; simp add: hex_text_length)+
  have "hex_encode_with_delimiter d (Some (new_char fresh ?n)) ?n s = Inr (length ?t, blit (new_char fresh ?n) 0 (?t @ [0]))"
    using hex_encode_loop_eq [of 0 d s "new_char fresh ?n"] l False
    by (simp add: hex_encode_with_delimiter_def not_null_def terminated_def blit_blit [of 0, simplified] Let_def not_less)
  then show ?thesis using l by (simp add: hex_encode_with_delimiter_string_def Let_def assign_def) (simp add: blit_def)
qed (simp add: hex_encode_with_delimiter_string_def hex_encode_with_delimiter_def not_null_def assign_def)

lemma hex_decode_text:
  "pos + length s \<le> length buf \<Longrightarrow> hex_decode_loop d (hex_text d s) pos buf = Inr (pos + length s, blit buf pos s)"
proof (induction s arbitrary: pos buf)
  case (Cons ch s)
  have "s \<noteq> [] \<Longrightarrow> length (hex_text d s) > 0" by (cases s) (simp_all add: hex_text_length)
  then show ?case using Cons by (cases "d \<noteq> 0 \<and> s \<noteq> []") (auto simp: hex3_def)
qed simp

text \<open>The decoder stays inside a buffer of the size it asks for, whatever the text is.\<close>

lemma hex_decode_loop_bounds:
  "pos + (if d \<noteq> 0 then (length src + 1) div 3 else length src div 2) \<le> length buf \<Longrightarrow> \<exists>n b. hex_decode_loop d src pos buf = Inr (n, b) \<and> length b = length buf"
proof (induction d src pos buf rule: hex_decode_loop.induct)
  case (3 d a b src pos buf)
  show ?case
  proof (cases "hex_pair a b")
    case (Some v)
    have p: "pos < length buf" using 3(3) by (auto split: if_splits)
    then have x: "puts buf pos [v] = Inr (blit buf pos [v])" by simp
    show ?thesis using 3(1) [OF Some x] 3(2) [OF Some x] 3(3) p Some by (cases src) (auto split: if_splits)
  qed simp
qed auto

lemma hex_decode_bounds:
  assumes "n \<le> length buf"
  shows "\<exists>k b. hex_decode_with_delimiter d (Some buf) n src = Inr (k, b) \<and> length b = length buf"
  using hex_decode_loop_bounds [of 0 d src buf] assms by (auto simp: hex_decode_with_delimiter_def not_null_def Let_def not_less split: if_splits)

lemma hex_decode_not_hex: "hex_decode (Some [0]) 1 (map ascii ''zz'') = Inr (1, [0x33])"
  by code_simp

subsection \<open>Fields, lemmas\<close>

fun pieces :: "byte \<Rightarrow> byte list \<Rightarrow> byte list list" where
  "pieces d [] = [[]]"
| "pieces d (c # cs) = (if c = d then [] # pieces d cs else (c # hd (pieces d cs)) # tl (pieces d cs))"

fun join :: "byte \<Rightarrow> byte list list \<Rightarrow> byte list" where
  "join d [] = []"
| "join d [f] = f"
| "join d (f # g # fs) = f @ d # join d (g # fs)"

lemma pieces_nonempty [simp]: "pieces d s \<noteq> []"
  by (induction s) auto

lemma join_Cons: "fs \<noteq> [] \<Longrightarrow> join d (f # fs) = f @ d # join d fs"
  by (cases fs) auto

lemma join_hd: "fs \<noteq> [] \<Longrightarrow> join d ((c # hd fs) # tl fs) = c # join d fs"
  by (cases fs; cases "tl fs") auto

lemma join_pieces: "join d (pieces d s) = s"
  by (induction s) (auto simp: join_Cons join_hd)

lemma pieces_clean: "f \<in> set (pieces d s) \<Longrightarrow> d \<notin> set f"
proof (induction s arbitrary: f)
  case (Cons c s)
  then show ?case using list.set_sel [of "pieces d s"] by (auto split: if_splits)
qed simp

lemma pieces_field: "d \<notin> set f \<Longrightarrow> pieces d (f @ s) = (f @ hd (pieces d s)) # tl (pieces d s)"
  by (induction f) auto

lemma pieces_join: "fs \<noteq> [] \<Longrightarrow> \<forall>f \<in> set fs. d \<notin> set f \<Longrightarrow> pieces d (join d fs) = fs"
proof (induction d fs rule: join.induct)
  case (2 d f)
  then show ?case using pieces_field [of d f "[]"] by simp
qed (auto simp: pieces_field)

lemma substr_Suc:
  assumes "p \<le> i" and "i < length s"
  shows "substr s p (Suc i - p) = substr s p (i - p) @ [s ! i]"
  using assms by (simp add: substr_def Suc_diff_le take_Suc_conv_app_nth)

text \<open>What both loops find from a position on: the rest of the field that has begun, and the fields behind it.\<close>

definition open_fields :: "byte list \<Rightarrow> byte \<Rightarrow> nat \<Rightarrow> nat \<Rightarrow> byte list list" where
  "open_fields s d i p = (let ps = pieces d (drop i s) in (substr s p (i - p) @ hd ps) # tl ps)"

lemma open_fields_step:
  assumes "p \<le> i" and "i < length s"
  shows "open_fields s d i p = (if s ! i = d then substr s p (i - p) # open_fields s d (Suc i) (Suc i) else open_fields s d (Suc i) p)"
  using assms substr_Suc [OF assms] by (simp add: open_fields_def Cons_nth_drop_Suc [symmetric] Let_def substr_def [of s "Suc i"])

lemma open_fields_end: "p \<le> length s \<Longrightarrow> open_fields s d (length s) p = [substr s p (length s - p)]"
  by (simp add: open_fields_def)

lemma open_fields_start: "open_fields s d 0 0 = pieces d s"
  by (simp add: open_fields_def Let_def substr_def)

lemma split_loop_eq:
  assumes "p \<le> i" and "i \<le> length s"
  shows "(case split_loop s d i p fields of (l, fs) \<Rightarrow> fs @ [substr s l (length s - l)]) = fields @ open_fields s d i p"
  using assms
proof (induction s d i p fields rule: split_loop.induct)
  case (1 s d i p fields)
  show ?case using 1 open_fields_step [of p i s d] by (subst split_loop.simps) (auto simp: open_fields_end Suc_le_eq)
qed

lemma split_eq: "split s d = pieces d s"
  using split_loop_eq [of 0 0 s d "[]"] by (simp add: split_def open_fields_start)

lemma tokenize_loop_eq:
  assumes "p \<le> i" and "i \<le> length s"
  shows "(case tokenize_loop s d i p fields of (l, fs) \<Rightarrow> if l \<noteq> length s then fs @ [substr s l (length s - l)] else fs) =
    fields @ filter (\<lambda>f. f \<noteq> []) (open_fields s d i p)"
  using assms
proof (induction s d i p fields rule: tokenize_loop.induct)
  case (1 s d i p fields)
  show ?case using 1 open_fields_step [of p i s d] by (subst tokenize_loop.simps) (auto simp: open_fields_end Suc_le_eq substr_def)
qed

text \<open>\<open>tokenize\<close> is \<open>split\<close> without the empty fields.\<close>

lemma tokenize_eq: "tokenize s d = filter (\<lambda>f. f \<noteq> []) (split s d)"
  using tokenize_loop_eq [of 0 0 s d "[]"] by (simp add: tokenize_def open_fields_start split_eq)

lemma find_char_first: "c \<notin> set xs \<Longrightarrow> find_char (pre @ xs @ c # ys) c (length pre) = Some (length pre + length xs)"
  by (simp add: find_char_def takeWhile_append)

text \<open>A marked field: the character in front of the first mark is lost, whatever it is.\<close>

lemma marks_lose_char:
  assumes "st \<notin> set (pre @ [c])" and "en \<notin> set f"
  shows "tokenize_marks (pre @ c # st # f @ [en]) d st en = tokenize pre d @ [f]"
proof -
  let ?s = "pre @ c # st # f @ [en]"
  have a: "find_char ?s st 0 = Some (Suc (length pre))" using find_char_first [of st "pre @ [c]" "[]" "f @ [en]"] assms by simp
  have b: "find_char ?s en (Suc (Suc (length pre))) = Some (Suc (Suc (length pre)) + length f)"
    using find_char_first [of en f "pre @ [c, st]" "[]"] assms by simp
  have "marks_loop d st en ?s [] = ([], tokenize pre d @ [f])"
    using a b by (simp add: marks_loop.simps [of d st en ?s] marks_loop.simps [of d st en "[]"] substr_def tokenize_append_def)
  moreover have "tokenize [] d = []" by (simp add: tokenize_eq split_eq)
  ultimately show ?thesis by (simp add: tokenize_marks_def tokenize_append_def)
qed

lemma safe_char_idem: "make_char_safe_for_filename (make_char_safe_for_filename c) = make_char_safe_for_filename c"
  by (simp add: make_char_safe_for_filename_def ascii_def)

subsection \<open>Properties\<close>

text \<open>\<open>split\<close> gives the one list of fields that the delimiter joins to the source and that do not contain it.\<close>

lemma split_iff:
  "split source delimiter = fields \<longleftrightarrow> fields \<noteq> [] \<and> (\<forall>f \<in> set fields. delimiter \<notin> set f) \<and> join delimiter fields = source"
  unfolding split_eq using join_pieces [of delimiter source] pieces_clean pieces_join [of fields delimiter] pieces_nonempty by metis

text \<open>Bytes survive as hexadecimal text with any delimiter.\<close>

lemma hex_round_trip:
  assumes "0 < n" and "length s \<le> n" and "n \<le> length buf"
  shows "andThen (hex_encode_with_delimiter_string fresh d s) (hex_decode_with_delimiter d (Some buf) n) = Inr (length s, blit buf 0 s)"
proof -
  have "(if d \<noteq> 0 then (length (hex_text d s) + 1) div 3 else length (hex_text d s) div 2) \<le> length s" by (cases s) (auto simp: hex_text_length)
  then show ?thesis using assms hex_decode_text [of 0 s buf d]
    by (auto simp: hex_encode_eq hex_decode_with_delimiter_def not_null_def Let_def)
qed

end
