(* ===== verification/TimeUtils.thy ===== *)
theory TimeUtils
  imports Prelude
begin

text \<open>
  \<^verbatim>\<open>talk/base/timeutils.cc\<close>: comparison of 32-bit millisecond time stamps that wrap. The
  compiled variant (\<open>EFFICIENT_IMPLEMENTATION\<close>) subtracts and reads the difference as a
  signed number; the variant of the \<open>#else\<close> branches (suffix \<open>_portable\<close>) compares
  intervals. \<open>int32\<close> results are integers in the 32-bit range.
\<close>

definition LAST :: uint32 where "LAST = 0xFFFFFFFF"
definition HALF :: uint32 where "HALF = 0x80000000"

text \<open>\<open>Time() + elapsed\<close>; \<open>now\<close> is the clock's value.\<close>

definition TimeAfter :: "uint32 \<Rightarrow> int \<Rightarrow> uint32 exec" where
  "TimeAfter now elapsed =
     andThen (ASSERT (elapsed \<ge> 0)) (\<lambda>_.
     andThen (ASSERT ((word_of_int elapsed :: uint32) < HALF)) (\<lambda>_.
     Inr (now + word_of_int elapsed)))"

definition TimeIsBetween :: "uint32 \<Rightarrow> uint32 \<Rightarrow> uint32 \<Rightarrow> bool" where
  "TimeIsBetween earlier middle later =
     (if earlier \<le> later then earlier \<le> middle \<and> middle \<le> later
      else \<not> (later < middle \<and> middle < earlier))"

definition TimeIsLaterOrEqual :: "uint32 \<Rightarrow> uint32 \<Rightarrow> bool" where
  "TimeIsLaterOrEqual earlier later =
     (let diff = sint (later - earlier) in diff \<ge> 0 \<and> (word_of_int diff :: uint32) < HALF)"

definition TimeIsLaterOrEqual_portable :: "uint32 \<Rightarrow> uint32 \<Rightarrow> bool" where
  "TimeIsLaterOrEqual_portable earlier later = TimeIsBetween earlier later (earlier + HALF)"

definition TimeIsLater :: "uint32 \<Rightarrow> uint32 \<Rightarrow> bool" where
  "TimeIsLater earlier later =
     (let diff = sint (later - earlier) in diff > 0 \<and> (word_of_int diff :: uint32) < HALF)"

definition TimeIsLater_portable :: "uint32 \<Rightarrow> uint32 \<Rightarrow> bool" where
  "TimeIsLater_portable earlier later = (\<not> TimeIsBetween later earlier (later + HALF))"

definition TimeDiff :: "uint32 \<Rightarrow> uint32 \<Rightarrow> int" where
  "TimeDiff later earlier = sint (later - earlier)"

text \<open>A \<open>long\<close> of 64 bits holds every value; the return type narrows it to 32 bits.\<close>

definition TimeDiff_portable :: "uint32 \<Rightarrow> uint32 \<Rightarrow> int" where
  "TimeDiff_portable later earlier =
     sint (word_of_int (if TimeIsBetween earlier later (earlier + HALF) then
        (if earlier \<le> later then uint (later - earlier) else uint (later + (LAST - earlier) + 1))
      else
        (if later \<le> earlier then - uint (earlier - later) else - uint (earlier + (LAST - later) + 1))) :: uint32)"

definition TimeMax :: "uint32 \<Rightarrow> uint32 \<Rightarrow> uint32" where
  "TimeMax ts1 ts2 = (if TimeIsLaterOrEqual ts1 ts2 then ts2 else ts1)"

definition TimeMin :: "uint32 \<Rightarrow> uint32 \<Rightarrow> uint32" where
  "TimeMin ts1 ts2 = (if TimeIsLaterOrEqual ts1 ts2 then ts1 else ts2)"

subsection \<open>Word facts\<close>

lemma sint_32_cases:
  fixes x :: uint32
  shows "sint x = (if uint x < 2 ^ 31 then uint x else uint x - 2 ^ 32)"
proof -
  have r: "0 \<le> uint x" "uint x < 2 ^ 32" using uint_bounded [of x] by simp_all
  have "sint x = (uint x + 2 ^ 31) mod 2 ^ 32 - 2 ^ 31"
    by (simp add: sint_uint signed_take_bit_eq_take_bit_shift take_bit_eq_mod)
  then show ?thesis using r by (cases "uint x < 2 ^ 31") (simp_all add: mod_pos_geq)
qed

lemma uint_diff_32:
  fixes a b :: uint32
  shows "uint (a - b) = (if uint b \<le> uint a then uint a - uint b else uint a - uint b + 2 ^ 32)"
  using uint_sub_if' [of a b] by simp

lemma uint_add_32:
  fixes a b :: uint32
  shows "uint (a + b) = (if uint a + uint b < 2 ^ 32 then uint a + uint b else uint a + uint b - 2 ^ 32)"
  using uint_plus_if' [of a b] by simp

lemma uint_HALF [simp]: "uint HALF = 2 ^ 31" and uint_LAST [simp]: "uint LAST = 2 ^ 32 - 1"
  by (simp_all add: HALF_def LAST_def)

lemma uint_range_32: "0 \<le> uint x \<and> uint x < 2 ^ 32" for x :: uint32
  using uint_bounded [of x] by simp

text \<open>The test against \<open>HALF\<close> follows from the sign.\<close>

lemma diff_half: "0 \<le> sint x \<Longrightarrow> x < HALF" for x :: uint32
  using uint_range_32 [of x] by (auto simp: word_less_def sint_32_cases split: if_splits)

lemma TimeIsLaterOrEqual_iff: "TimeIsLaterOrEqual a b \<longleftrightarrow> 0 \<le> TimeDiff b a"
  by (auto simp: TimeIsLaterOrEqual_def TimeDiff_def Let_def diff_half)

lemma TimeIsLater_iff: "TimeIsLater a b \<longleftrightarrow> 0 < TimeDiff b a"
  using diff_half [of "b - a"] by (auto simp: TimeIsLater_def TimeDiff_def Let_def)

lemmas time_arith = TimeDiff_def sint_32_cases uint_diff_32 uint_add_32 word_le_def word_less_def

subsection \<open>Properties\<close>

text \<open>Time stamps at most \<open>2 ^ 31 - 1\<close> milliseconds apart are ordered and their
  distance is exact, also when the counter wraps between them; both orders of the arguments
  agree.
\<close>

theorem TimeDiff_exact:
  assumes "0 \<le> d" and "d < 2 ^ 31"
  shows "TimeDiff (t + word_of_int d) t = d \<and> TimeDiff t (t + word_of_int d) = - d \<and>
    TimeIsLaterOrEqual t (t + word_of_int d) \<and> (TimeIsLater t (t + word_of_int d) \<longleftrightarrow> 0 < d) \<and>
    (TimeIsLaterOrEqual (t + word_of_int d) t \<longleftrightarrow> d = 0) \<and>
    TimeMax t (t + word_of_int d) = t + word_of_int d \<and> TimeMin t (t + word_of_int d) = t"
proof -
  let ?w = "word_of_int d :: uint32"
  have w: "uint ?w = d" using assms by (simp add: uint_word_of_int)
  have 1: "TimeDiff (t + ?w) t = d"
    using assms by (simp add: TimeDiff_def sint_32_cases w)
  have 2: "TimeDiff t (t + ?w) = - d"
    using assms uint_diff_32 [of 0 ?w] by (auto simp: TimeDiff_def sint_32_cases w split: if_splits)
  show ?thesis
    using assms by (simp add: TimeMax_def TimeMin_def TimeIsLaterOrEqual_iff TimeIsLater_iff 1 2)
qed

theorem TimeDiff_exact_witness:
  "TimeDiff (4294967290 + word_of_int 20) 4294967290 = 20 \<and>
   TimeDiff 4294967290 (4294967290 + word_of_int 20) = - 20 \<and>
   TimeIsLaterOrEqual 4294967290 (4294967290 + word_of_int 20) \<and>
   (TimeIsLater 4294967290 (4294967290 + word_of_int 20) \<longleftrightarrow> 0 < (20 :: int)) \<and>
   (TimeIsLaterOrEqual (4294967290 + word_of_int 20) 4294967290 \<longleftrightarrow> 20 = (0 :: int)) \<and>
   TimeMax 4294967290 (4294967290 + word_of_int 20) = 4294967290 + word_of_int 20 \<and>
   TimeMin 4294967290 (4294967290 + word_of_int 20) = 4294967290"
  by (rule TimeDiff_exact) simp_all

lemma TimeIsBetween_half: "TimeIsBetween a b (a + HALF) \<longleftrightarrow> uint (b - a) \<le> 2 ^ 31"
  using uint_range_32 [of a] uint_range_32 [of b]
  by (auto simp: TimeIsBetween_def time_arith split: if_splits)
    (use uint_range_32 [of b] in linarith)

text \<open>The subtracting variant computes what the portable one does: the differences
  are equal for all time stamps, and the comparisons agree unless the two stamps are exactly
  half the range apart, where the portable one also accepts.
\<close>

theorem portable_variant_agrees:
  "TimeDiff_portable b a = TimeDiff b a \<and>
   (TimeIsLaterOrEqual_portable a b \<longleftrightarrow> TimeIsLaterOrEqual a b \<or> b - a = HALF) \<and>
   (TimeIsLater_portable a b \<longleftrightarrow> TimeIsLater a b)"
proof -
  have LAST: "LAST + 1 = 0" by (simp add: LAST_def)
  have wrap: "x + (LAST - y) + 1 = x - y" for x y :: uint32
    using arg_cong [OF LAST, of "\<lambda>z. x - y + z"] by (simp add: algebra_simps)
  have diff: "TimeDiff_portable b a = TimeDiff b a"
    by (simp add: TimeDiff_portable_def TimeDiff_def wrap wi_hom_neg [symmetric])
  have eq: "b - a = HALF \<longleftrightarrow> uint (b - a) = 2 ^ 31"
    by (metis uint_HALF word_uint_eq_iff)
  have "TimeIsLaterOrEqual_portable a b \<longleftrightarrow> TimeIsLaterOrEqual a b \<or> b - a = HALF"
    using uint_range_32 [of "b - a"] unfolding eq
    by (simp add: TimeIsLaterOrEqual_portable_def TimeIsBetween_half TimeIsLaterOrEqual_iff TimeDiff_def
        sint_32_cases)
  moreover have "TimeIsLater_portable a b \<longleftrightarrow> TimeIsLater a b"
    using uint_range_32 [of a] uint_range_32 [of b]
    by (auto simp: TimeIsLater_portable_def TimeIsBetween_half TimeIsLater_iff time_arith split: if_splits)
      (use uint_range_32 [of a] uint_range_32 [of b] in linarith)+
  ultimately show ?thesis using diff by blast
qed

end
