(* ===== verification/MessageQueue.thy ===== *)
theory MessageQueue
  imports TimeUtils "HOL-Library.Multiset" "HOL-Library.Sublist"
begin

text \<open>
  \<^verbatim>\<open>talk/base/messagequeue.cc\<close> and \<^verbatim>\<open>messagequeue.h\<close>: the queue of messages of a thread, with delayed messages in a
  \<open>std::priority_queue\<close>, and the manager of all queues. A handler and a data object are numbers, \<open>None\<close> is a null pointer.
  The last four fields of a queue are a ledger: the messages it accepted, those that \<open>Get\<close> returned, those that \<open>Clear\<close> returned, and
  those whose data was deleted.

  The standard says of the container of a priority queue only that a largest element is in front: \<open>H\<close> is any function
  that arranges a list so (\<open>heap_ok\<close>). The clock is a parameter. \<open>ReceiveSends\<close> is empty in this class.
\<close>

subsection \<open>Data\<close>

definition MQID_ANY :: uint32 where "MQID_ANY = - 1"
definition MQID_DISPOSE :: uint32 where "MQID_DISPOSE = - 2"
definition kForever :: int where "kForever = - 1"
definition kMaxMsgLatency :: uint32 where "kMaxMsgLatency = 150"

record Message =
  msg_phandler :: "nat option"
  msg_message_id :: uint32
  msg_pdata :: "nat option"
  msg_ts_sensitive :: uint32

definition Match :: "Message \<Rightarrow> nat option \<Rightarrow> uint32 \<Rightarrow> bool" where
  "Match m handler mid \<longleftrightarrow> (handler = None \<or> handler = msg_phandler m) \<and> (mid = MQID_ANY \<or> mid = msg_message_id m)"

record DelayedMessage =
  dm_cmsDelay :: int
  dm_msTrigger :: uint32
  dm_num :: uint32
  dm_msg :: Message

definition dm_less :: "DelayedMessage \<Rightarrow> DelayedMessage \<Rightarrow> bool" where
  "dm_less a b \<longleftrightarrow> dm_msTrigger b < dm_msTrigger a \<or> dm_msTrigger b = dm_msTrigger a \<and> dm_num b < dm_num a"

record MQ =
  mq_fStop :: bool
  mq_fPeekKeep :: bool
  mq_msgPeek :: Message
  mq_active :: bool
  mq_msgq :: "Message list"
  mq_dmsgq :: "DelayedMessage list"
  mq_next_num :: uint32
  mq_posted :: "Message list"
  mq_taken :: "Message list"
  mq_removed :: "Message list"
  mq_deleted :: "Message list"

definition no_message :: Message where
  "no_message = \<lparr>msg_phandler = None, msg_message_id = 0, msg_pdata = None, msg_ts_sensitive = 0\<rparr>"

definition new_MQ :: MQ where
  "new_MQ = \<lparr>mq_fStop = False, mq_fPeekKeep = False, mq_msgPeek = no_message, mq_active = False, mq_msgq = [], mq_dmsgq = [],
     mq_next_num = 0, mq_posted = [], mq_taken = [], mq_removed = [], mq_deleted = []\<rparr>"

type_synonym heap = "DelayedMessage list \<Rightarrow> DelayedMessage list"

definition heap_ok :: "heap \<Rightarrow> bool" where
  "heap_ok H \<longleftrightarrow> (\<forall>xs. mset (H xs) = mset xs \<and> (\<forall>d \<in> set xs. \<not> dm_less (hd (H xs)) d))"

text \<open>The \<open>delete pdata\<close> of a message that is dropped.\<close>

definition delete_data :: "Message \<Rightarrow> MQ \<Rightarrow> MQ" where
  "delete_data m q = q\<lparr>mq_deleted := mq_deleted q @ [m]\<rparr>"

subsection \<open>Posting\<close>

definition Quit :: "MQ \<Rightarrow> MQ" where "Quit q = q\<lparr>mq_fStop := True\<rparr>"
definition IsQuitting :: "MQ \<Rightarrow> bool" where "IsQuitting q = mq_fStop q"
definition Restart :: "MQ \<Rightarrow> MQ" where "Restart q = q\<lparr>mq_fStop := False\<rparr>"
definition EnsureActive :: "MQ \<Rightarrow> MQ" where "EnsureActive q = (if \<not> mq_active q then q\<lparr>mq_active := True\<rparr> else q)"

definition Post :: "uint32 \<Rightarrow> nat option \<Rightarrow> uint32 \<Rightarrow> nat option \<Rightarrow> bool \<Rightarrow> MQ \<Rightarrow> MQ" where
  "Post now phandler mid pdata time_sensitive q =
     (if mq_fStop q then q
      else
        let q1 = EnsureActive q;
            msg = \<lparr>msg_phandler = phandler, msg_message_id = mid, msg_pdata = pdata,
                   msg_ts_sensitive = (if time_sensitive then now + kMaxMsgLatency else 0)\<rparr>
        in q1\<lparr>mq_msgq := mq_msgq q1 @ [msg], mq_posted := mq_posted q1 @ [msg]\<rparr>)"

definition DoDelayPost :: "heap \<Rightarrow> int \<Rightarrow> uint32 \<Rightarrow> nat option \<Rightarrow> uint32 \<Rightarrow> nat option \<Rightarrow> MQ \<Rightarrow> MQ exec" where
  "DoDelayPost H cmsDelay tstamp phandler mid pdata q =
     (if mq_fStop q then Inr q
      else
        let q1 = EnsureActive q;
            msg = \<lparr>msg_phandler = phandler, msg_message_id = mid, msg_pdata = pdata, msg_ts_sensitive = 0\<rparr>;
            dmsg = \<lparr>dm_cmsDelay = cmsDelay, dm_msTrigger = tstamp, dm_num = mq_next_num q1, dm_msg = msg\<rparr>;
            q2 = q1\<lparr>mq_dmsgq := H (mq_dmsgq q1 @ [dmsg]), mq_next_num := mq_next_num q1 + 1,
                    mq_posted := mq_posted q1 @ [msg]\<rparr>
        in andThen (ASSERT (0 \<noteq> mq_next_num q2)) (\<lambda>_. Inr q2))"

definition PostDelayed :: "heap \<Rightarrow> uint32 \<Rightarrow> int \<Rightarrow> nat option \<Rightarrow> uint32 \<Rightarrow> nat option \<Rightarrow> MQ \<Rightarrow> MQ exec" where
  "PostDelayed H now cmsDelay phandler mid pdata q =
     andThen (TimeAfter now cmsDelay) (\<lambda>t. DoDelayPost H cmsDelay t phandler mid pdata q)"

definition PostAt :: "heap \<Rightarrow> uint32 \<Rightarrow> uint32 \<Rightarrow> nat option \<Rightarrow> uint32 \<Rightarrow> nat option \<Rightarrow> MQ \<Rightarrow> MQ exec" where
  "PostAt H now tstamp phandler mid pdata q = DoDelayPost H (TimeDiff tstamp now) tstamp phandler mid pdata q"

definition Dispose :: "uint32 \<Rightarrow> nat option \<Rightarrow> MQ \<Rightarrow> MQ" where
  "Dispose now doomed q = (if doomed \<noteq> None then Post now None MQID_DISPOSE doomed False q else q)"

subsection \<open>Clearing\<close>

text \<open>\<open>take_out\<close> tells whether the caller wants the removed messages; otherwise their data is deleted.\<close>

definition drop_messages :: "bool \<Rightarrow> Message list \<Rightarrow> MQ \<Rightarrow> MQ" where
  "drop_messages take_out ms q = (if take_out then q\<lparr>mq_removed := mq_removed q @ ms\<rparr> else fold delete_data ms q)"

definition Clear :: "heap \<Rightarrow> nat option \<Rightarrow> uint32 \<Rightarrow> bool \<Rightarrow> MQ \<Rightarrow> MQ" where
  "Clear H phandler mid take_out q =
     (let q1 = (if mq_fPeekKeep q \<and> Match (mq_msgPeek q) phandler mid
                then (drop_messages take_out [mq_msgPeek q] q)\<lparr>mq_fPeekKeep := False\<rparr> else q);
          q2 = (drop_messages take_out (filter (\<lambda>m. Match m phandler mid) (mq_msgq q1)) q1)
                 \<lparr>mq_msgq := filter (\<lambda>m. \<not> Match m phandler mid) (mq_msgq q1)\<rparr>
      in (drop_messages take_out (map dm_msg (filter (\<lambda>d. Match (dm_msg d) phandler mid) (mq_dmsgq q2))) q2)
           \<lparr>mq_dmsgq := H (filter (\<lambda>d. \<not> Match (dm_msg d) phandler mid) (mq_dmsgq q2))\<rparr>)"

subsection \<open>Getting\<close>

text \<open>The loop over the triggered messages runs at most once for each delayed message. The result is \<open>cmsDelayNext\<close>.\<close>

fun trigger_loop :: "heap \<Rightarrow> uint32 \<Rightarrow> nat \<Rightarrow> MQ \<Rightarrow> int \<times> MQ" where
  "trigger_loop H now 0 q = (kForever, q)"
| "trigger_loop H now (Suc n) q =
     (case mq_dmsgq q of
        [] \<Rightarrow> (kForever, q)
      | d # rest \<Rightarrow>
          if TimeIsLater now (dm_msTrigger d) then (TimeDiff (dm_msTrigger d) now, q)
          else trigger_loop H now n (q\<lparr>mq_msgq := mq_msgq q @ [dm_msg d], mq_dmsgq := H rest\<rparr>))"

fun front_loop :: "Message list \<Rightarrow> MQ \<Rightarrow> (Message option \<times> MQ) exec" where
  "front_loop [] q = Inr (None, q\<lparr>mq_msgq := []\<rparr>)"
| "front_loop (m # ms) q =
     (if msg_message_id m = MQID_DISPOSE then
        andThen (ASSERT (msg_phandler m = None)) (\<lambda>_. front_loop ms (delete_data m q))
      else Inr (Some m, q\<lparr>mq_msgq := ms\<rparr>))"

definition check_queues :: "heap \<Rightarrow> uint32 \<Rightarrow> MQ \<Rightarrow> (Message option \<times> int \<times> MQ) exec" where
  "check_queues H now q =
     (case trigger_loop H now (length (mq_dmsgq q)) q of (cmsDelayNext, q1) \<Rightarrow>
      andThen (front_loop (mq_msgq q1) q1) (\<lambda>(m, q2). Inr (m, cmsDelayNext, q2)))"

definition cms_next :: "int \<Rightarrow> int \<Rightarrow> int \<Rightarrow> int" where
  "cms_next cmsWait cmsElapsed cmsDelayNext =
     (if cmsWait = kForever then cmsDelayNext
      else
        let cmsNext = max 0 (cmsWait - cmsElapsed)
        in if cmsDelayNext \<noteq> kForever \<and> cmsDelayNext < cmsNext then cmsDelayNext else cmsNext)"

text \<open>What other threads, and the handlers of the sockets, do while \<open>Wait\<close> blocks.\<close>

datatype mq_op =
    O_Post uint32 "nat option" uint32 "nat option" bool
  | O_PostDelayed uint32 int "nat option" uint32 "nat option"
  | O_PostAt uint32 uint32 "nat option" uint32 "nat option"
  | O_Dispose uint32 "nat option"
  | O_Clear "nat option" uint32 bool
  | O_Quit
  | O_Restart

fun run_op :: "heap \<Rightarrow> mq_op \<Rightarrow> MQ \<Rightarrow> MQ exec" where
  "run_op H (O_Post now h mid x ts) q = Inr (Post now h mid x ts q)"
| "run_op H (O_PostDelayed now d h mid x) q = PostDelayed H now d h mid x q"
| "run_op H (O_PostAt now t h mid x) q = PostAt H now t h mid x q"
| "run_op H (O_Dispose now x) q = Inr (Dispose now x q)"
| "run_op H (O_Clear h mid out) q = Inr (Clear H h mid out q)"
| "run_op H O_Quit q = Inr (Quit q)"
| "run_op H O_Restart q = Inr (Restart q)"

fun run_ops :: "heap \<Rightarrow> mq_op list \<Rightarrow> MQ \<Rightarrow> MQ exec" where
  "run_ops H [] q = Inr q"
| "run_ops H (x # xs) q = andThen (run_op H x q) (run_ops H xs)"

text \<open>One round of the loop of \<open>Get\<close>, up to the wait: the result, or the time to wait for.\<close>

definition get_round :: "heap \<Rightarrow> int \<Rightarrow> uint32 \<Rightarrow> int \<Rightarrow> MQ \<Rightarrow> ((Message option + int) \<times> MQ) exec" where
  "get_round H cmsWait msCurrent cmsElapsed q =
     andThen (check_queues H msCurrent q) (\<lambda>(m, cmsDelayNext, q1).
       Inr (if m \<noteq> None then Inl m
            else if mq_fStop q1 then Inl None
            else Inr (cms_next cmsWait cmsElapsed cmsDelayNext), q1))"

text \<open>A wait is its result, what happened meanwhile, and the time afterwards. \<open>None\<close>: the call still waits.\<close>

type_synonym wait = "bool \<times> mq_op list \<times> uint32"

fun get_loop ::
  "heap \<Rightarrow> int \<Rightarrow> uint32 \<Rightarrow> uint32 \<Rightarrow> int \<Rightarrow> wait list \<Rightarrow> MQ \<Rightarrow> (Message option option \<times> MQ) exec" where
  "get_loop H cmsWait msStart msCurrent cmsElapsed [] q =
     andThen (get_round H cmsWait msCurrent cmsElapsed q) (\<lambda>(r, q1).
       Inr (case r of Inl m \<Rightarrow> Some m | Inr _ \<Rightarrow> None, q1))"
| "get_loop H cmsWait msStart msCurrent cmsElapsed ((ok, ops, now) # waits) q =
     andThen (get_round H cmsWait msCurrent cmsElapsed q) (\<lambda>(r, q1).
       case r of
         Inl m \<Rightarrow> Inr (Some m, q1)
       | Inr _ \<Rightarrow>
           andThen (run_ops H ops q1) (\<lambda>q2.
             if \<not> ok then Inr (Some None, q2)
             else if cmsWait \<noteq> kForever \<and> TimeDiff now msStart \<ge> cmsWait then Inr (Some None, q2)
             else get_loop H cmsWait msStart now (TimeDiff now msStart) waits q2))"

definition Get :: "heap \<Rightarrow> uint32 \<Rightarrow> int \<Rightarrow> wait list \<Rightarrow> MQ \<Rightarrow> (Message option option \<times> MQ) exec" where
  "Get H now cmsWait waits q =
     (if mq_fPeekKeep q then Inr (Some (Some (mq_msgPeek q)), q\<lparr>mq_fPeekKeep := False\<rparr>)
      else get_loop H cmsWait now now 0 waits q)"

definition Peek :: "heap \<Rightarrow> uint32 \<Rightarrow> int \<Rightarrow> wait list \<Rightarrow> MQ \<Rightarrow> (Message option option \<times> MQ) exec" where
  "Peek H now cmsWait waits q =
     (if mq_fPeekKeep q then Inr (Some (Some (mq_msgPeek q)), q)
      else
        andThen (Get H now cmsWait waits q) (\<lambda>(r, q1).
          Inr (r, case r of Some (Some m) \<Rightarrow> q1\<lparr>mq_msgPeek := m, mq_fPeekKeep := True\<rparr> | _ \<Rightarrow> q1)))"

definition GetDelay :: "uint32 \<Rightarrow> MQ \<Rightarrow> int" where
  "GetDelay now q =
     (if mq_msgq q \<noteq> [] then 0
      else if mq_dmsgq q \<noteq> [] then
        let delay = TimeDiff (dm_msTrigger (hd (mq_dmsgq q))) now in if delay < 0 then 0 else delay
      else kForever)"

definition mq_size :: "MQ \<Rightarrow> nat" where
  "mq_size q = length (mq_msgq q) + length (mq_dmsgq q) + (if mq_fPeekKeep q then 1 else 0)"

definition mq_empty :: "MQ \<Rightarrow> bool" where "mq_empty q \<longleftrightarrow> mq_size q = 0"

text \<open>A call of the thread that owns the queue; a message that \<open>Get\<close> returns leaves the queue.\<close>

datatype mq_call = C_Op mq_op | C_Get uint32 int "wait list" | C_Peek uint32 int "wait list"

definition take_message :: "Message option option \<Rightarrow> MQ \<Rightarrow> MQ" where
  "take_message r q = (case r of Some (Some m) \<Rightarrow> q\<lparr>mq_taken := mq_taken q @ [m]\<rparr> | _ \<Rightarrow> q)"

fun run_mq :: "heap \<Rightarrow> mq_call \<Rightarrow> MQ \<Rightarrow> MQ exec" where
  "run_mq H (C_Op x) q = run_op H x q"
| "run_mq H (C_Get now w ws) q = andThen (Get H now w ws q) (\<lambda>(r, q1). Inr (take_message r q1))"
| "run_mq H (C_Peek now w ws) q = andThen (Peek H now w ws q) (\<lambda>(r, q1). Inr q1)"

text \<open>\<open>ok\<close> tells which operations a run of the queue may use.\<close>

fun call_ok :: "(mq_op \<Rightarrow> bool) \<Rightarrow> mq_call \<Rightarrow> bool" where
  "call_ok ok (C_Op x) = ok x"
| "call_ok ok (C_Get now w ws) = list_all (\<lambda>(b, ops, t). list_all ok ops) ws"
| "call_ok ok (C_Peek now w ws) = list_all (\<lambda>(b, ops, t). list_all ok ops) ws"

inductive mq_run :: "heap \<Rightarrow> (mq_op \<Rightarrow> bool) \<Rightarrow> MQ \<Rightarrow> bool" for H ok where
  mq_start: "mq_run H ok new_MQ"
| mq_call: "mq_run H ok q \<Longrightarrow> call_ok ok c \<Longrightarrow> run_mq H c q = Inr q' \<Longrightarrow> mq_run H ok q'"

subsection \<open>The manager of all queues\<close>

text \<open>Queues are named by numbers. \<open>wd_manager\<close> is the manager's list, \<open>None\<close> while there is no manager.\<close>

record World =
  wd_queues :: "nat \<rightharpoonup> MQ"
  wd_manager :: "nat list option"

definition manager_Instance :: "World \<Rightarrow> World" where
  "manager_Instance W = (if wd_manager W = None then W\<lparr>wd_manager := Some []\<rparr> else W)"

definition manager_Add :: "nat \<Rightarrow> World \<Rightarrow> World" where
  "manager_Add i W = W\<lparr>wd_manager := map_option (\<lambda>xs. xs @ [i]) (wd_manager W)\<rparr>"

definition manager_Remove :: "nat \<Rightarrow> World \<Rightarrow> World" where
  "manager_Remove i W =
     (case wd_manager W of
        None \<Rightarrow> W
      | Some xs \<Rightarrow> W\<lparr>wd_manager := (if remove1 i xs = [] then None else Some (remove1 i xs))\<rparr>)"

definition clear_queue :: "heap \<Rightarrow> nat option \<Rightarrow> nat \<Rightarrow> World \<Rightarrow> World" where
  "clear_queue H h i W = W\<lparr>wd_queues := (wd_queues W)(i := map_option (Clear H h MQID_ANY False) (wd_queues W i))\<rparr>"

definition manager_Clear :: "heap \<Rightarrow> nat option \<Rightarrow> World \<Rightarrow> World" where
  "manager_Clear H h W = (case wd_manager W of None \<Rightarrow> W | Some xs \<Rightarrow> fold (clear_queue H h) xs W)"

definition MessageHandler_destructor :: "heap \<Rightarrow> nat \<Rightarrow> World \<Rightarrow> World" where
  "MessageHandler_destructor H h W = manager_Clear H (Some h) (manager_Instance W)"

definition MessageQueue_constructor :: "nat \<Rightarrow> World \<Rightarrow> World" where
  "MessageQueue_constructor i W = W\<lparr>wd_queues := (wd_queues W)(i \<mapsto> new_MQ)\<rparr>"

definition MessageQueue_destructor :: "heap \<Rightarrow> nat \<Rightarrow> World \<Rightarrow> World" where
  "MessageQueue_destructor H i W =
     (let W1 = (case wd_queues W i of
                  None \<Rightarrow> W
                | Some q \<Rightarrow> if mq_active q then clear_queue H None i (manager_Remove i (manager_Instance W)) else W)
      in W1\<lparr>wd_queues := (wd_queues W1)(i := None)\<rparr>)"

text \<open>\<open>EnsureActive\<close> enters a queue in the manager's list when it sets \<open>active_\<close>.\<close>

definition update_queue :: "nat \<Rightarrow> MQ \<Rightarrow> MQ \<Rightarrow> World \<Rightarrow> World" where
  "update_queue i q q' W =
     (let W1 = W\<lparr>wd_queues := (wd_queues W)(i \<mapsto> q')\<rparr>
      in if \<not> mq_active q \<and> mq_active q' then manager_Add i (manager_Instance W1) else W1)"

inductive world_run :: "heap \<Rightarrow> World \<Rightarrow> bool" for H where
  world_start: "world_run H \<lparr>wd_queues = Map.empty, wd_manager = None\<rparr>"
| world_new: "world_run H W \<Longrightarrow> wd_queues W i = None \<Longrightarrow> world_run H (MessageQueue_constructor i W)"
| world_call: "world_run H W \<Longrightarrow> wd_queues W i = Some q \<Longrightarrow> run_mq H c q = Inr q' \<Longrightarrow> world_run H (update_queue i q q' W)"
| world_gone: "world_run H W \<Longrightarrow> wd_queues W i \<noteq> None \<Longrightarrow> world_run H (MessageQueue_destructor H i W)"
| world_handler_gone: "world_run H W \<Longrightarrow> world_run H (MessageHandler_destructor H h W)"

subsection \<open>The books of a queue\<close>

definition mq_peeked :: "MQ \<Rightarrow> Message list" where
  "mq_peeked q = (if mq_fPeekKeep q then [mq_msgPeek q] else [])"

definition mq_pending :: "MQ \<Rightarrow> Message multiset" where
  "mq_pending q = mset (mq_peeked q) + mset (mq_msgq q) + mset (map dm_msg (mq_dmsgq q))"

definition mq_left :: "MQ \<Rightarrow> Message multiset" where
  "mq_left q = mset (mq_taken q) + mset (mq_removed q) + mset (mq_deleted q)"

text \<open>The books balance, a queue that accepted a message is active, and a soonest delayed message is in front.\<close>

definition mq_inv :: "MQ \<Rightarrow> bool" where
  "mq_inv q \<longleftrightarrow> mset (mq_posted q) = mq_left q + mq_pending q \<and> (mq_active q \<or> mq_posted q = []) \<and>
     (\<forall>d \<in> set (mq_dmsgq q). \<not> dm_less (hd (mq_dmsgq q)) d)"

lemma heap_mset: "heap_ok H \<Longrightarrow> mset (H xs) = mset xs"
  by (simp add: heap_ok_def)

lemma heap_front: "heap_ok H \<Longrightarrow> d \<in> set (H xs) \<Longrightarrow> \<not> dm_less (hd (H xs)) d"
  by (metis heap_ok_def mset_eq_setD)

lemma fold_delete: "fold delete_data ms q = q\<lparr>mq_deleted := mq_deleted q @ ms\<rparr>"
  by (induction ms arbitrary: q) (simp_all add: delete_data_def)

lemmas drop_simps = drop_messages_def fold_delete delete_data_def

lemmas mq_books = mq_inv_def mq_left_def mq_pending_def mq_peeked_def

lemma mset_map_heap: "heap_ok H \<Longrightarrow> mset (map f (H xs)) = mset (map f xs)"
  by (simp add: heap_mset)

lemma Clear_pending:
  assumes "heap_ok H"
  shows "mq_pending (Clear H h i out q) = filter_mset (\<lambda>m. \<not> Match m h i) (mq_pending q)"
  by (simp add: Clear_def Let_def drop_simps mq_pending_def mq_peeked_def heap_mset [OF assms] filter_mset_image_mset comp_def)

lemma Clear_left: "mq_left (Clear H h i out q) = mq_left q + filter_mset (\<lambda>m. Match m h i) (mq_pending q)"
  by (simp add: Clear_def Let_def drop_simps mq_left_def mq_pending_def mq_peeked_def filter_mset_image_mset comp_def)

lemma Clear_fields [simp]:
  "mq_posted (Clear H h i out q) = mq_posted q" "mq_active (Clear H h i out q) = mq_active q"
  "mq_fStop (Clear H h i out q) = mq_fStop q" "mq_taken (Clear H h i out q) = mq_taken q"
  by (simp_all add: Clear_def Let_def drop_simps)

lemma Clear_peek: "mq_fPeekKeep (Clear H h i out q) \<Longrightarrow> mq_fPeekKeep q"
  by (simp add: Clear_def Let_def drop_simps split: if_splits)

lemma Clear_front: "heap_ok H \<Longrightarrow> d \<in> set (mq_dmsgq (Clear H h i out q)) \<Longrightarrow> \<not> dm_less (hd (mq_dmsgq (Clear H h i out q))) d"
  by (simp add: Clear_def Let_def heap_front)

lemma Clear_inv [inv_intros]: "heap_ok H \<Longrightarrow> mq_inv q \<Longrightarrow> mq_inv (Clear H h i out q)"
  unfolding mq_inv_def by (simp add: Clear_pending Clear_left Clear_front)

lemma EnsureActive_eq: "EnsureActive q = q\<lparr>mq_active := True\<rparr>"
  by (simp add: EnsureActive_def)

lemma Post_inv [inv_intros]: "mq_inv q \<Longrightarrow> mq_inv (Post now h i x ts q)"
  by (auto simp: Post_def EnsureActive_eq Let_def mq_books)

lemma DoDelayPost_inv [inv_intros]:
  assumes "heap_ok H" and "mq_inv q" and "DoDelayPost H d t h i x q = Inr q'"
  shows "mq_inv q'"
  using assms(2,3) heap_front [OF assms(1)]
  by (auto simp: DoDelayPost_def EnsureActive_eq Let_def mq_books heap_mset [OF assms(1)] andThen_eq_Inr_iff split: if_splits)

lemma inv_fStop [simp]: "mq_inv (q\<lparr>mq_fStop := b\<rparr>) = mq_inv q"
  by (simp add: mq_books)

lemma run_op_inv:
  assumes "heap_ok H" and "mq_inv q" and "run_op H x q = Inr q'"
  shows "mq_inv q'"
  using assms
  by (cases x) (auto simp: PostDelayed_def PostAt_def Dispose_def Quit_def Restart_def andThen_eq_Inr_iff intro: inv_intros split: if_splits)

subsection \<open>Invariants of a queue\<close>

text \<open>What \<open>Get\<close> is about to return, back in front of the queue.\<close>

definition put_back :: "Message option option \<Rightarrow> MQ \<Rightarrow> MQ" where
  "put_back r q = (case r of Some (Some m) \<Rightarrow> q\<lparr>mq_msgq := m # mq_msgq q\<rparr> | _ \<Rightarrow> q)"

definition not_disposing :: "Message option option \<Rightarrow> bool" where
  "not_disposing r \<longleftrightarrow> (\<forall>m. r = Some (Some m) \<longrightarrow> msg_message_id m \<noteq> MQID_DISPOSE)"

lemma run_op_peek: "run_op H x q = Inr q' \<Longrightarrow> mq_fPeekKeep q' \<Longrightarrow> mq_fPeekKeep q"
  by (cases x) (auto simp: Post_def DoDelayPost_def PostDelayed_def PostAt_def Dispose_def Quit_def Restart_def EnsureActive_eq Let_def
      andThen_eq_Inr_iff dest: Clear_peek split: if_splits)

lemma trigger_loop_peek [simp]: "mq_fPeekKeep (snd (trigger_loop H now n q)) = mq_fPeekKeep q"
  by (induction H now n q rule: trigger_loop.induct) (simp_all split: list.split)

lemma front_loop_peek: "front_loop ms q = Inr (r, q') \<Longrightarrow> mq_fPeekKeep q' = mq_fPeekKeep q"
  by (induction ms q rule: front_loop.induct) (auto simp: andThen_eq_Inr_iff delete_data_def split: if_splits)

locale mq_invariant =
  fixes H :: heap and ok :: "mq_op \<Rightarrow> bool" and I :: "MQ \<Rightarrow> bool"
  assumes op: "ok x \<Longrightarrow> I q \<Longrightarrow> run_op H x q = Inr q' \<Longrightarrow> I q'"
    and due: "I q \<Longrightarrow> mq_dmsgq q = d # ds \<Longrightarrow> I (q\<lparr>mq_msgq := mq_msgq q @ [dm_msg d], mq_dmsgq := H ds\<rparr>)"
    and dispose: "I q \<Longrightarrow> mq_msgq q = m # ms \<Longrightarrow> I (delete_data m (q\<lparr>mq_msgq := ms\<rparr>))"
    and deliver: "I q \<Longrightarrow> \<not> mq_fPeekKeep q \<Longrightarrow> mq_msgq q = m # ms \<Longrightarrow> I (q\<lparr>mq_msgq := ms, mq_taken := mq_taken q @ [m]\<rparr>)"
    and peek: "I q \<Longrightarrow> \<not> mq_fPeekKeep q \<Longrightarrow> mq_msgq q = m # ms \<Longrightarrow> I (q\<lparr>mq_msgq := ms, mq_msgPeek := m, mq_fPeekKeep := True\<rparr>)"
    and unpeek: "I q \<Longrightarrow> mq_fPeekKeep q \<Longrightarrow> I (q\<lparr>mq_fPeekKeep := False, mq_taken := mq_taken q @ [mq_msgPeek q]\<rparr>)"
begin

lemma ops_keep:
  "list_all ok xs \<Longrightarrow> I q \<Longrightarrow> run_ops H xs q = Inr q' \<Longrightarrow> I q' \<and> (mq_fPeekKeep q' \<longrightarrow> mq_fPeekKeep q)"
  by (induction xs arbitrary: q) (auto simp: andThen_eq_Inr_iff dest: op run_op_peek)

lemma trigger_keeps: "I q \<Longrightarrow> I (snd (trigger_loop H now n q))"
  by (induction n arbitrary: q) (auto simp: due split: list.split)

lemma front_keeps:
  "I (q\<lparr>mq_msgq := ms\<rparr>) \<Longrightarrow> front_loop ms q = Inr (r, q') \<Longrightarrow> I (put_back (Some r) q') \<and> not_disposing (Some r)"
proof (induction ms q rule: front_loop.induct)
  case (1 q)
  then show ?case by (simp add: put_back_def not_disposing_def)
next
  case (2 m ms q)
  show ?case
  proof (cases "msg_message_id m = MQID_DISPOSE")
    case True
    have "delete_data m q\<lparr>mq_msgq := ms\<rparr> = delete_data m (q\<lparr>mq_msgq := m # ms\<rparr>\<lparr>mq_msgq := ms\<rparr>)" by (simp add: delete_data_def)
    then have "I (delete_data m q\<lparr>mq_msgq := ms\<rparr>)" using dispose [OF 2(2)] by simp
    then show ?thesis using 2 True by (auto simp: andThen_eq_Inr_iff)
  next
    case False
    then show ?thesis using 2(2,3) by (auto simp: put_back_def not_disposing_def)
  qed
qed

lemma check_keeps:
  assumes "I q" and "check_queues H now q = Inr (r, n, q')"
  shows "I (put_back (Some r) q') \<and> not_disposing (Some r) \<and> mq_fPeekKeep q' = mq_fPeekKeep q"
proof -
  obtain c q1 where 1: "trigger_loop H now (length (mq_dmsgq q)) q = (c, q1)" by force
  have "front_loop (mq_msgq q1) q1 = Inr (r, q')" using assms(2) 1 by (auto simp: check_queues_def andThen_eq_Inr_iff)
  moreover have "I (q1\<lparr>mq_msgq := mq_msgq q1\<rparr>)" using trigger_keeps [OF assms(1)] 1 by (metis snd_conv MQ.surjective MQ.update_convs(5))
  ultimately show ?thesis using front_keeps front_loop_peek trigger_loop_peek 1 by (metis snd_conv)
qed

lemma round_keeps:
  assumes "I q" and "get_round H w now e q = Inr (r, q')"
  shows "(case r of Inl m \<Rightarrow> I (put_back (Some m) q') \<and> not_disposing (Some m) | Inr _ \<Rightarrow> I q') \<and> mq_fPeekKeep q' = mq_fPeekKeep q"
proof -
  obtain m n where c: "check_queues H now q = Inr (m, n, q')"
    and r: "r = (if m \<noteq> None then Inl m else if mq_fStop q' then Inl None else Inr (cms_next w e n))"
    using assms(2) by (auto simp: get_round_def andThen_eq_Inr_iff)
  show ?thesis using check_keeps [OF assms(1) c] r by (cases m) (auto simp: put_back_def not_disposing_def)
qed

lemma loop_keeps:
  assumes "I q" and "\<not> mq_fPeekKeep q" and "list_all (\<lambda>(b, ops, t). list_all ok ops) ws"
    and "get_loop H w s now e ws q = Inr (r, q')"
  shows "I (put_back r q') \<and> not_disposing r \<and> \<not> mq_fPeekKeep q'"
  using assms
proof (induction ws arbitrary: now e q)
  case Nil
  obtain k where k: "get_round H w now e q = Inr (k, q')" and r: "r = (case k of Inl m \<Rightarrow> Some m | Inr _ \<Rightarrow> None)"
    using Nil.prems(4) by (auto simp: andThen_eq_Inr_iff)
  show ?case using round_keeps [OF Nil.prems(1) k] r Nil.prems(2) by (cases k) (auto simp: put_back_def not_disposing_def)
next
  case (Cons x ws)
  obtain b ops t where x: "x = (b, ops, t)" by (cases x) auto
  obtain k q1 where k: "get_round H w now e q = Inr (k, q1)" using Cons.prems(4) x by (auto simp: andThen_eq_Inr_iff)
  show ?case
  proof (cases k)
    case (Inl m)
    then show ?thesis using k x round_keeps [OF Cons.prems(1) k] Cons.prems(2,4) by simp
  next
    case (Inr c)
    have 1: "I q1 \<and> \<not> mq_fPeekKeep q1" using round_keeps [OF Cons.prems(1) k] Inr Cons.prems(2) by simp
    obtain q2 where 2: "run_ops H ops q1 = Inr q2" using Cons.prems(4) k x Inr by (auto simp: andThen_eq_Inr_iff)
    have 3: "I q2" "\<not> mq_fPeekKeep q2" using ops_keep [OF _ _ 2] 1 Cons.prems(3) x by auto
    show ?thesis
      using Cons.IH [OF 3] Cons.prems(3,4) k x Inr 2 3 by (auto simp: put_back_def not_disposing_def split: if_splits)
  qed
qed

lemma run_keeps:
  assumes "call_ok ok c" and "I q" and "run_mq H c q = Inr q'"
  shows "I q'"
proof (cases c)
  case (C_Op x)
  then show ?thesis using assms op by auto
next
  case c: (C_Get now w ws)
  obtain r q1 where g: "Get H now w ws q = Inr (r, q1)" and q': "q' = take_message r q1"
    using assms(3) c by (auto simp: andThen_eq_Inr_iff)
  show ?thesis
  proof (cases "mq_fPeekKeep q")
    case True
    then show ?thesis using g q' unpeek [OF assms(2)] by (auto simp: Get_def take_message_def)
  next
    case False
    then have "I (put_back r q1)" "\<not> mq_fPeekKeep q1" using g loop_keeps [OF assms(2) False] assms(1) c by (auto simp: Get_def)
    then show ?thesis using deliver [of "put_back r q1"] q' by (auto simp: put_back_def take_message_def split: option.splits)
  qed
next
  case c: (C_Peek now w ws)
  show ?thesis
  proof (cases "mq_fPeekKeep q")
    case True
    then show ?thesis using assms c by (simp add: Peek_def)
  next
    case False
    obtain r q1 where g: "Get H now w ws q = Inr (r, q1)"
      and q': "q' = (case r of Some (Some m) \<Rightarrow> q1\<lparr>mq_msgPeek := m, mq_fPeekKeep := True\<rparr> | _ \<Rightarrow> q1)"
      using assms(3) c False by (auto simp: Peek_def andThen_eq_Inr_iff)
    have "I (put_back r q1)" "\<not> mq_fPeekKeep q1" using g loop_keeps [OF assms(2) False] assms(1) c False by (auto simp: Get_def)
    then show ?thesis using peek [of "put_back r q1"] q' by (auto simp: put_back_def split: option.splits)
  qed
qed

lemma all_runs:
  assumes "I new_MQ" and "mq_run H ok q"
  shows "I q"
  using assms(2) by induction (auto intro: assms(1) run_keeps)

end

subsection \<open>Two invariants\<close>

text \<open>A container whose front is a soonest message keeps the books; one that arranges a list by bringing the soonest message to
  the front is an example.\<close>

locale soonest_first =
  fixes H :: heap
  assumes arranged: "heap_ok H"

sublocale soonest_first \<subseteq> books: mq_invariant H "\<lambda>_. True" mq_inv
proof
  show "mq_inv q \<Longrightarrow> run_op H x q = Inr q' \<Longrightarrow> mq_inv q'" for x q q' using arranged by (rule run_op_inv)
  show "mq_inv (q\<lparr>mq_msgq := mq_msgq q @ [dm_msg d], mq_dmsgq := H ds\<rparr>)" if "mq_inv q" "mq_dmsgq q = d # ds" for q d ds
    using that heap_front [OF arranged] by (simp add: mq_books heap_mset [OF arranged])
  show "mq_inv (delete_data m (q\<lparr>mq_msgq := ms\<rparr>))" if "mq_inv q" "mq_msgq q = m # ms" for q m ms
    using that by (simp add: mq_books delete_data_def)
  show "mq_inv (q\<lparr>mq_msgq := ms, mq_taken := mq_taken q @ [m]\<rparr>)" if "mq_inv q" "mq_msgq q = m # ms" for q m ms
    using that by (simp add: mq_books)
  show "mq_inv (q\<lparr>mq_msgq := ms, mq_msgPeek := m, mq_fPeekKeep := True\<rparr>)" if "mq_inv q" "\<not> mq_fPeekKeep q" "mq_msgq q = m # ms" for q m ms
    using that by (simp add: mq_books)
  show "mq_inv (q\<lparr>mq_fPeekKeep := False, mq_taken := mq_taken q @ [mq_msgPeek q]\<rparr>)" if "mq_inv q" "mq_fPeekKeep q" for q
    using that by (simp add: mq_books)
qed

text \<open>First in, first out: without delayed messages, what was delivered and what is in line follows the order of posting.\<close>

fun undelayed :: "mq_op \<Rightarrow> bool" where
  "undelayed (O_PostDelayed now d h i x) = False"
| "undelayed (O_PostAt now t h i x) = False"
| "undelayed x = True"

definition in_line :: "MQ \<Rightarrow> Message list" where
  "in_line q = mq_taken q @ mq_peeked q @ mq_msgq q"

definition fifo_inv :: "MQ \<Rightarrow> bool" where
  "fifo_inv q \<longleftrightarrow> mq_dmsgq q = [] \<and> subseq (in_line q) (mq_posted q)"

lemma subseq_skip_middle: "subseq (xs @ m # ys) zs \<Longrightarrow> subseq (xs @ ys) zs"
  by (meson subseq_order.order_trans list_emb_append_mono subseq_order.order_refl list_emb_Cons)

lemma fifo_Clear:
  assumes "heap_ok H" and "fifo_inv q"
  shows "fifo_inv (Clear H h i out q)"
proof -
  have d: "H [] = []" using heap_mset [OF assms(1), of "[]"] by simp
  have "subseq (in_line (Clear H h i out q)) (in_line q)"
    by (auto simp: in_line_def Clear_def Let_def drop_simps mq_peeked_def intro!: list_emb_append_mono)
  then show ?thesis using assms(2) d
    by (auto simp: fifo_inv_def intro: subseq_order.order_trans) (simp add: Clear_def Let_def drop_simps)
qed

lemma fifo_Post: "fifo_inv q \<Longrightarrow> fifo_inv (Post now h i x ts q)"
proof -
  have "in_line (Post now h i x ts q) = in_line q @ drop (length (mq_posted q)) (mq_posted (Post now h i x ts q))"
    "mq_posted (Post now h i x ts q) = mq_posted q @ drop (length (mq_posted q)) (mq_posted (Post now h i x ts q))"
    "mq_dmsgq (Post now h i x ts q) = mq_dmsgq q"
    by (simp_all add: Post_def EnsureActive_eq Let_def in_line_def mq_peeked_def)
  then show "fifo_inv q \<Longrightarrow> fifo_inv (Post now h i x ts q)" unfolding fifo_inv_def by (metis subseq_append)
qed

lemma fifo_op:
  assumes "heap_ok H" and "undelayed x" and "fifo_inv q" and "run_op H x q = Inr q'"
  shows "fifo_inv q'"
proof -
  have "fifo_inv (q\<lparr>mq_fStop := b\<rparr>)" for b using assms(3) by (auto simp: fifo_inv_def in_line_def mq_peeked_def)
  then show ?thesis using assms(2-4) fifo_Clear [OF assms(1)] fifo_Post
    by (cases x) (auto simp: Dispose_def Quit_def Restart_def split: if_splits)
qed

sublocale soonest_first \<subseteq> fifo: mq_invariant H undelayed fifo_inv
proof
  show "undelayed x \<Longrightarrow> fifo_inv q \<Longrightarrow> run_op H x q = Inr q' \<Longrightarrow> fifo_inv q'" for x q q' using arranged by (rule fifo_op)
  show "fifo_inv (q\<lparr>mq_msgq := mq_msgq q @ [dm_msg d], mq_dmsgq := H ds\<rparr>)" if "fifo_inv q" "mq_dmsgq q = d # ds" for q d ds
    using that by (simp add: fifo_inv_def)
  show "fifo_inv (delete_data m (q\<lparr>mq_msgq := ms\<rparr>))" if "fifo_inv q" "mq_msgq q = m # ms" for q m ms
    using that subseq_skip_middle [of "mq_taken q @ mq_peeked q" m ms "mq_posted q"]
    by (simp add: fifo_inv_def in_line_def mq_peeked_def delete_data_def split: if_splits)
  show "fifo_inv (q\<lparr>mq_msgq := ms, mq_taken := mq_taken q @ [m]\<rparr>)" if "fifo_inv q" "\<not> mq_fPeekKeep q" "mq_msgq q = m # ms" for q m ms
    using that by (simp add: fifo_inv_def in_line_def mq_peeked_def)
  show "fifo_inv (q\<lparr>mq_msgq := ms, mq_msgPeek := m, mq_fPeekKeep := True\<rparr>)" if "fifo_inv q" "\<not> mq_fPeekKeep q" "mq_msgq q = m # ms" for q m ms
    using that by (simp add: fifo_inv_def in_line_def mq_peeked_def)
  show "fifo_inv (q\<lparr>mq_fPeekKeep := False, mq_taken := mq_taken q @ [mq_msgPeek q]\<rparr>)" if "fifo_inv q" "mq_fPeekKeep q" for q
    using that by (simp add: fifo_inv_def in_line_def mq_peeked_def)
qed

lemma pending_iff: "m \<in># mq_pending q \<longleftrightarrow> m \<in> set (mq_peeked q) \<or> m \<in> set (mq_msgq q) \<or> m \<in> dm_msg ` set (mq_dmsgq q)"
  by (auto simp: mq_pending_def)

definition disposing :: "Message \<Rightarrow> bool" where "disposing m \<longleftrightarrow> msg_message_id m = MQID_DISPOSE"

text \<open>The message id of a disposal is reserved: clients that respect it never meet the \<open>ASSERT\<close> of \<open>Get\<close>.\<close>

fun polite :: "mq_op \<Rightarrow> bool" where
  "polite (O_Post now h i x ts) \<longleftrightarrow> (i = MQID_DISPOSE \<longrightarrow> h = None)"
| "polite (O_PostDelayed now d h i x) \<longleftrightarrow> (i = MQID_DISPOSE \<longrightarrow> h = None)"
| "polite (O_PostAt now t h i x) \<longleftrightarrow> (i = MQID_DISPOSE \<longrightarrow> h = None)"
| "polite x \<longleftrightarrow> True"

definition disposable :: "Message \<Rightarrow> bool" where "disposable m \<longleftrightarrow> (disposing m \<longrightarrow> msg_phandler m = None)"

definition dispose_inv :: "MQ \<Rightarrow> bool" where
  "dispose_inv q \<longleftrightarrow> list_all disposable (mq_peeked q @ mq_msgq q @ map dm_msg (mq_dmsgq q))"

lemma heap_set: "heap_ok H \<Longrightarrow> set (H xs) = set xs"
  using heap_mset mset_eq_setD by blast

lemma dispose_heap: "heap_ok H \<Longrightarrow> list_all (\<lambda>d. P (dm_msg d)) (H ds) = list_all (\<lambda>d. P (dm_msg d)) ds"
  by (simp add: list_all_iff heap_set)

lemma list_all_peeked: "list_all P (mq_peeked q) \<longleftrightarrow> (mq_fPeekKeep q \<longrightarrow> P (mq_msgPeek q))"
  by (simp add: mq_peeked_def)

lemmas dispose_simps = dispose_inv_def list_all_peeked list_all_append list.pred_map comp_def

lemma disposable_new:
  "(i = MQID_DISPOSE \<longrightarrow> h = None) \<Longrightarrow> disposable \<lparr>msg_phandler = h, msg_message_id = i, msg_pdata = x, msg_ts_sensitive = t\<rparr>"
  by (simp add: disposable_def disposing_def)

lemma dispose_Clear: "heap_ok H \<Longrightarrow> dispose_inv q \<Longrightarrow> dispose_inv (Clear H h i out q)"
  by (auto simp: dispose_inv_def mq_peeked_def list_all_iff Clear_def Let_def drop_simps heap_set)

lemma dispose_Post: "dispose_inv q \<Longrightarrow> (i = MQID_DISPOSE \<longrightarrow> h = None) \<Longrightarrow> dispose_inv (Post now h i x ts q)"
  by (simp add: dispose_simps Post_def EnsureActive_eq Let_def disposable_new)

lemma dispose_DoDelayPost:
  "heap_ok H \<Longrightarrow> dispose_inv q \<Longrightarrow> (i = MQID_DISPOSE \<longrightarrow> h = None) \<Longrightarrow> DoDelayPost H d t h i x q = Inr q' \<Longrightarrow> dispose_inv q'"
  by (auto simp: DoDelayPost_def EnsureActive_eq Let_def dispose_simps dispose_heap disposable_new andThen_eq_Inr_iff split: if_splits)

lemma polite_op:
  assumes "heap_ok H" and "polite x" and "dispose_inv q" and "run_op H x q = Inr q'"
  shows "dispose_inv q'"
proof -
  have "dispose_inv (q\<lparr>mq_fStop := b\<rparr>)" for b using assms(3) by (simp add: dispose_simps)
  then show ?thesis using assms(2-4) dispose_Clear [OF assms(1)]
    by (cases x) (auto simp: PostDelayed_def PostAt_def Dispose_def Quit_def Restart_def andThen_eq_Inr_iff
        intro: dispose_Post dispose_DoDelayPost [OF assms(1)] split: if_splits)
qed

sublocale soonest_first \<subseteq> reserved: mq_invariant H polite dispose_inv
proof
  show "polite x \<Longrightarrow> dispose_inv q \<Longrightarrow> run_op H x q = Inr q' \<Longrightarrow> dispose_inv q'" for x q q' using arranged by (rule polite_op)
qed (simp_all add: dispose_simps dispose_heap [OF arranged] delete_data_def split: if_splits)

lemma new_MQ_inv: "mq_inv new_MQ" and new_MQ_fifo: "fifo_inv new_MQ" and new_MQ_dispose: "dispose_inv new_MQ"
  by (simp_all add: mq_books fifo_inv_def in_line_def dispose_inv_def new_MQ_def)

lemma idle_empty: "mq_inv q \<Longrightarrow> \<not> mq_active q \<Longrightarrow> mq_pending q = {#}"
  by (auto simp: mq_inv_def)

lemma call_ok_any: "call_ok (\<lambda>_. True) c"
  by (cases c) (auto simp: list_all_iff)

lemma mq_run_any: "mq_run H ok q \<Longrightarrow> mq_run H (\<lambda>_. True) q"
  by (induction rule: mq_run.induct) (auto intro: mq_start mq_call call_ok_any)

context soonest_first
begin

lemma call_books: "run_mq H c q = Inr q' \<Longrightarrow> mq_inv q \<Longrightarrow> mq_inv q'"
  using books.run_keeps [OF call_ok_any] by blast

lemma run_books: "mq_run H (\<lambda>_. True) q \<Longrightarrow> mq_inv q"
  using books.all_runs new_MQ_inv by blast

lemma run_reserved: "mq_run H polite q \<Longrightarrow> dispose_inv q"
  using reserved.all_runs new_MQ_dispose by blast

lemma run_fifo: "mq_run H undelayed q \<Longrightarrow> fifo_inv q"
  using fifo.all_runs new_MQ_fifo by blast

end

fun front_heap :: heap where
  "front_heap [] = []"
| "front_heap (x # xs) = (case front_heap xs of [] \<Rightarrow> [x] | y # ys \<Rightarrow> if dm_less y x then x # y # ys else y # x # ys)"

lemma dm_less_trans: "dm_less a b \<Longrightarrow> dm_less b c \<Longrightarrow> dm_less a c"
  by (auto simp: dm_less_def)

lemma front_heap_mset: "mset (front_heap xs) = mset xs"
  by (induction xs) (auto split: list.split)

lemma front_heap_front: "d \<in> set xs \<Longrightarrow> \<not> dm_less (hd (front_heap xs)) d"
proof (induction xs arbitrary: d)
  case (Cons x xs)
  have irr: "\<not> dm_less x x" by (simp add: dm_less_def)
  show ?case
  proof (cases "front_heap xs")
    case Nil
    then have "xs = []" using front_heap_mset [of xs] by simp
    then show ?thesis using Cons.prems irr by simp
  next
    case (Cons y ys)
    then show ?thesis using Cons.IH Cons.prems irr dm_less_trans [of y x d] by auto
  qed
qed simp

interpretation front: soonest_first front_heap
  by unfold_locales (simp add: heap_ok_def front_heap_mset front_heap_front)

subsection \<open>Properties\<close>

lemma size_pending: "size (mq_pending q) = mq_size q"
  by (simp add: mq_pending_def mq_size_def mq_peeked_def)

subsection \<open>Delayed messages\<close>

text \<open>The triggers are ordered as plain numbers: that agrees with the time while none of them lies on the other side of the wrap of the clock.\<close>

definition unwrapped :: "uint32 \<Rightarrow> MQ \<Rightarrow> bool" where
  "unwrapped now q \<longleftrightarrow> (\<forall>d \<in> set (mq_dmsgq q). \<bar>uint (dm_msTrigger d) - uint now\<bar> < 2 ^ 31)"

lemma unwrapped_diff:
  assumes "\<bar>uint t - uint now\<bar> < 2 ^ 31"
  shows "TimeDiff t now = uint t - uint now" and "TimeIsLater now t \<longleftrightarrow> now < t"
proof -
  show "TimeDiff t now = uint t - uint now"
    using assms uint_range_32 [of t] uint_range_32 [of now] by (auto simp: time_arith)
  then show "TimeIsLater now t \<longleftrightarrow> now < t" by (auto simp: TimeIsLater_iff word_less_def)
qed

definition front_ok :: "DelayedMessage list \<Rightarrow> bool" where
  "front_ok ds \<longleftrightarrow> (\<forall>d \<in> set ds. \<not> dm_less (hd ds) d)"

lemma trigger_loop_splits:
  assumes "heap_ok H" and "length (mq_dmsgq q) \<le> n" and "front_ok (mq_dmsgq q)"
  shows "\<exists>due rest c. trigger_loop H now n q = (c, q\<lparr>mq_msgq := mq_msgq q @ map dm_msg due, mq_dmsgq := rest\<rparr>) \<and>
    mset (mq_dmsgq q) = mset due + mset rest \<and> (\<forall>d \<in> set due. \<not> TimeIsLater now (dm_msTrigger d)) \<and>
    sorted_wrt (\<lambda>a b. \<not> dm_less a b) due \<and> front_ok rest \<and>
    (if rest = [] then c = kForever else TimeIsLater now (dm_msTrigger (hd rest)) \<and> c = TimeDiff (dm_msTrigger (hd rest)) now)"
  using assms(2,3)
proof (induction n arbitrary: q)
  case 0
  then show ?case by (intro exI [of _ "[]"]) (simp add: front_ok_def)
next
  case (Suc n)
  show ?case
  proof (cases "mq_dmsgq q")
    case Nil
    then show ?thesis by (intro exI [of _ "[]"]) (simp add: front_ok_def)
  next
    case (Cons d ds)
    show ?thesis
    proof (cases "TimeIsLater now (dm_msTrigger d)")
      case True
      have "q\<lparr>mq_msgq := mq_msgq q, mq_dmsgq := d # ds\<rparr> = q" using Cons by simp
      then show ?thesis using Cons True Suc.prems(2) by (intro exI [of _ "[]"] exI [of _ "d # ds"]) simp
    next
      case False
      let ?q = "q\<lparr>mq_msgq := mq_msgq q @ [dm_msg d], mq_dmsgq := H ds\<rparr>"
      have h: "mset (H ds) = mset ds" by (rule heap_mset [OF assms(1)])
      have "front_ok (H ds)" using heap_front [OF assms(1)] by (simp add: front_ok_def)
      moreover have "length (H ds) \<le> n" using Suc.prems(1) Cons h by (metis length_Cons Suc_le_mono size_mset)
      ultimately obtain due rest c where t: "trigger_loop H now n ?q = (c, ?q\<lparr>mq_msgq := mq_msgq ?q @ map dm_msg due, mq_dmsgq := rest\<rparr>)"
        and m: "mset (H ds) = mset due + mset rest" and l: "\<forall>e \<in> set due. \<not> TimeIsLater now (dm_msTrigger e)"
        and s: "sorted_wrt (\<lambda>a b. \<not> dm_less a b) due" "front_ok rest"
        and c: "if rest = [] then c = kForever else TimeIsLater now (dm_msTrigger (hd rest)) \<and> c = TimeDiff (dm_msTrigger (hd rest)) now"
        using Suc.IH [of ?q] by auto
      have "set due \<subseteq> set ds" using m h by (metis set_mset_mset set_mset_union sup_ge1)
      then have "\<forall>e \<in> set due. \<not> dm_less d e" using Suc.prems(2) Cons by (auto simp: front_ok_def)
      then show ?thesis using t m l s c h False Cons by (intro exI [of _ "d # due"] exI [of _ rest] exI [of _ c]) simp
    qed
  qed
qed

lemma front_loop_result:
  assumes "\<forall>m \<in> set ms. disposing m \<longrightarrow> msg_phandler m = None"
  shows "\<exists>q'. front_loop ms q = Inr (case dropWhile disposing ms of [] \<Rightarrow> None | m # _ \<Rightarrow> Some m, q') \<and>
    mq_msgq q' = tl (dropWhile disposing ms) \<and> mq_dmsgq q' = mq_dmsgq q \<and> mq_fStop q' = mq_fStop q \<and>
    mq_deleted q' = mq_deleted q @ takeWhile disposing ms"
  using assms
proof (induction ms arbitrary: q)
  case (Cons m ms)
  then show ?case using Cons.IH [of "delete_data m q"] by (auto simp: disposing_def delete_data_def)
qed simp

text \<open>Property C22: no message and no data object is lost or handed out twice. In every run of a queue, the accepted messages are exactly those that
  \<open>Get\<close> returned, those that \<open>Clear\<close> returned, those whose data was deleted, and those still in the queue, which \<open>size\<close> counts.\<close>

theorem messages_accounted:
  assumes "heap_ok H" and "mq_run H ok q"
  shows "mset (mq_posted q) = mset (mq_taken q) + mset (mq_removed q) + mset (mq_deleted q) + mq_pending q \<and>
    length (mq_posted q) = length (mq_taken q) + length (mq_removed q) + length (mq_deleted q) + mq_size q"
proof -
  have "mset (mq_posted q) = mq_left q + mq_pending q"
    using soonest_first.run_books [OF soonest_first.intro [OF assms(1)] mq_run_any [OF assms(2)]] by (simp add: mq_inv_def)
  moreover from this have "length (mq_posted q) = size (mq_left q) + mq_size q" by (metis size_mset size_union size_pending)
  ultimately show ?thesis by (simp add: mq_left_def)
qed

text \<open>First in, first out. When no message is delayed, the messages that \<open>Get\<close> returned, then the peeked message, then the
  queue, are in the order in which they were posted.\<close>

theorem messages_in_order:
  assumes "heap_ok H" and "mq_run H undelayed q"
  shows "subseq (mq_taken q @ mq_peeked q @ mq_msgq q) (mq_posted q) \<and> mq_dmsgq q = []"
  using soonest_first.run_fifo [OF soonest_first.intro [OF assms(1)] assms(2)] by (simp add: fifo_inv_def in_line_def)

text \<open>The time of a wait, as a specification.\<close>

definition good_wait :: "int \<Rightarrow> int \<Rightarrow> uint32 \<Rightarrow> DelayedMessage list \<Rightarrow> int \<Rightarrow> bool" where
  "good_wait w e now ds t \<longleftrightarrow>
     (\<forall>d \<in> set ds. 0 \<le> t \<and> t \<le> uint (dm_msTrigger d) - uint now) \<and>
     (w \<noteq> kForever \<longrightarrow> 0 \<le> t \<and> t \<le> max 0 (w - e)) \<and>
     (if w = kForever \<and> ds = [] then t = kForever
      else w \<noteq> kForever \<and> t = max 0 (w - e) \<or> (\<exists>d \<in> set ds. t = uint (dm_msTrigger d) - uint now))"

lemma cms_next_good:
  assumes "front_ok ds" and "\<forall>d \<in> set ds. now < dm_msTrigger d"
    and "c = (if ds = [] then kForever else uint (dm_msTrigger (hd ds)) - uint now)"
  shows "good_wait w e now ds (cms_next w e c)"
proof (cases ds)
  case Nil
  then show ?thesis using assms(3) by (auto simp: good_wait_def cms_next_def kForever_def Let_def)
next
  case (Cons d es)
  have c: "c = uint (dm_msTrigger d) - uint now" using assms(3) Cons by simp
  have "dm_msTrigger d \<le> dm_msTrigger x" if "x \<in> set ds" for x
    using assms(1) that Cons by (auto simp: front_ok_def dm_less_def not_less)
  then have *: "c \<le> uint (dm_msTrigger x) - uint now" if "x \<in> set ds" for x using that c by (auto simp: word_le_def)
  have 0: "0 < c" using assms(2) Cons c by (simp add: word_less_def)
  let ?t = "cms_next w e c"
  have t: "?t = (if w = kForever then c else min (max 0 (w - e)) c)"
    using 0 by (auto simp: cms_next_def kForever_def Let_def)
  then have "?t \<le> c" "0 \<le> ?t" using 0 by auto
  then have "\<forall>x \<in> set ds. 0 \<le> ?t \<and> ?t \<le> uint (dm_msTrigger x) - uint now" using * by fastforce
  moreover have "w \<noteq> kForever \<longrightarrow> 0 \<le> ?t \<and> ?t \<le> max 0 (w - e)" using t 0 by auto
  moreover have "w \<noteq> kForever \<and> ?t = max 0 (w - e) \<or> (\<exists>x \<in> set ds. ?t = uint (dm_msTrigger x) - uint now)"
    using t c Cons by (auto simp: min_def)
  ultimately show ?thesis using Cons by (simp add: good_wait_def)
qed


subsection \<open>All queues\<close>

definition listed :: "World \<Rightarrow> nat list" where
  "listed W = (case wd_manager W of None \<Rightarrow> [] | Some xs \<Rightarrow> xs)"

text \<open>The manager lists every active queue once, and only them.\<close>

definition world_inv :: "World \<Rightarrow> bool" where
  "world_inv W \<longleftrightarrow> (\<forall>i q. wd_queues W i = Some q \<longrightarrow> mq_inv q) \<and> distinct (listed W) \<and>
     set (listed W) = {i. \<exists>q. wd_queues W i = Some q \<and> mq_active q}"

lemma listed_Instance [simp]: "listed (manager_Instance W) = listed W" "wd_queues (manager_Instance W) = wd_queues W"
  by (simp_all add: listed_def manager_Instance_def)

lemma listed_Add [simp]: "listed (manager_Add i (manager_Instance W)) = listed W @ [i]" "wd_queues (manager_Add i W) = wd_queues W"
  by (auto simp: listed_def manager_Instance_def manager_Add_def)

lemma listed_Remove [simp]: "listed (manager_Remove i W) = remove1 i (listed W)" "wd_queues (manager_Remove i W) = wd_queues W"
  by (auto simp: listed_def manager_Remove_def split: option.split)

lemma listed_queues [simp]: "listed (W\<lparr>wd_queues := Q\<rparr>) = listed W" "listed (clear_queue H h i W) = listed W"
  by (simp_all add: listed_def clear_queue_def)

lemma fold_clear:
  "distinct xs \<Longrightarrow> wd_queues (fold (clear_queue H h) xs W) j =
     (if j \<in> set xs then map_option (Clear H h MQID_ANY False) (wd_queues W j) else wd_queues W j)"
  "listed (fold (clear_queue H h) xs W) = listed W"
  by (induction xs arbitrary: W) (simp_all add: clear_queue_def)

lemma manager_Clear_eq: "manager_Clear H h W = fold (clear_queue H h) (listed W) W"
  by (simp add: manager_Clear_def listed_def split: option.split)

lemma destructor_queues:
  "distinct (listed W) \<Longrightarrow> wd_queues (MessageHandler_destructor H h W) j =
     (if j \<in> set (listed W) then map_option (Clear H (Some h) MQID_ANY False) (wd_queues W j) else wd_queues W j)"
  "listed (MessageHandler_destructor H h W) = listed W"
  by (simp_all add: MessageHandler_destructor_def manager_Clear_eq fold_clear)

text \<open>A queue never becomes inactive.\<close>

lemma op_active: "mq_active q \<Longrightarrow> run_op H x q = Inr q' \<Longrightarrow> mq_active q'"
  by (cases x) (auto simp: Post_def DoDelayPost_def PostDelayed_def PostAt_def Dispose_def Quit_def Restart_def EnsureActive_eq Let_def
      andThen_eq_Inr_iff split: if_splits)

interpretation active: mq_invariant H "\<lambda>_. True" mq_active for H
  by unfold_locales (auto simp: delete_data_def intro: op_active)

lemma update_queue_inv:
  assumes "world_inv W" and "wd_queues W i = Some q" and "mq_inv q'" and "mq_active q \<longrightarrow> mq_active q'"
  shows "world_inv (update_queue i q q' W)"
  using assms by (auto simp: world_inv_def update_queue_def Let_def)

lemma constructor_inv:
  assumes "world_inv W" and "wd_queues W i = None"
  shows "world_inv (MessageQueue_constructor i W)"
  using assms new_MQ_inv by (auto simp: world_inv_def MessageQueue_constructor_def new_MQ_def)

lemma destructor_inv:
  assumes "world_inv W"
  shows "world_inv (MessageQueue_destructor H i W)"
proof -
  have "listed (MessageQueue_destructor H i W) = (if i \<in> set (listed W) then remove1 i (listed W) else listed W)"
    using assms by (auto simp: MessageQueue_destructor_def Let_def world_inv_def split: option.split)
  moreover have "wd_queues (MessageQueue_destructor H i W) = (wd_queues W)(i := None)"
    by (auto simp: MessageQueue_destructor_def Let_def clear_queue_def split: option.split)
  ultimately show ?thesis using assms by (auto simp: world_inv_def)
qed

lemma handler_destructor_inv:
  assumes "heap_ok H" and "world_inv W"
  shows "world_inv (MessageHandler_destructor H h W)"
proof -
  have d: "distinct (listed W)" using assms(2) by (simp add: world_inv_def)
  show ?thesis using assms(2) Clear_inv [OF assms(1)] unfolding world_inv_def destructor_queues(1) [OF d] destructor_queues(2)
    by (auto split: if_splits)
qed

lemma world_run_inv:
  assumes "heap_ok H" and "world_run H W"
  shows "world_inv W"
  using assms(2)
proof induction
  case world_start
  then show ?case by (simp add: world_inv_def listed_def)
next
  case (world_call W i q c q')
  have "mq_inv q" using world_call by (simp add: world_inv_def)
  then have "mq_inv q'"
    using soonest_first.call_books [OF soonest_first.intro [OF assms(1)] world_call(3)] by simp
  then show ?case using update_queue_inv world_call active.run_keeps [OF call_ok_any] by blast
qed (auto intro: constructor_inv destructor_inv handler_destructor_inv assms(1))

text \<open>Property C24: the destructor of a message handler reaches every queue. Afterwards no queue of the program holds a message for the
  handler, and the messages for other handlers are all still there.\<close>

theorem handler_forgotten:
  assumes "heap_ok H" and "world_run H W"
  shows "case wd_queues (MessageHandler_destructor H h W) i of
      None \<Rightarrow> wd_queues W i = None
    | Some q' \<Rightarrow> \<exists>q. wd_queues W i = Some q \<and> mq_pending q' = filter_mset (\<lambda>m. msg_phandler m \<noteq> Some h) (mq_pending q)"
proof (cases "wd_queues W i")
  case None
  then show ?thesis using world_run_inv [OF assms] destructor_queues(1) [of W H h i] by (simp add: world_inv_def)
next
  case (Some q)
  have w: "world_inv W" using world_run_inv [OF assms] .
  show ?thesis
  proof (cases "mq_active q")
    case True
    then have "wd_queues (MessageHandler_destructor H h W) i = Some (Clear H (Some h) MQID_ANY False q)"
      using w Some by (auto simp: world_inv_def destructor_queues)
    then show ?thesis using Some Clear_pending [OF assms(1)] by (auto simp: Match_def intro!: filter_mset_cong)
  next
    case False
    then have "mq_pending q = {#}" using w Some by (auto simp: world_inv_def idle_empty)
    moreover have "wd_queues (MessageHandler_destructor H h W) i = Some q" using False w Some by (auto simp: world_inv_def destructor_queues)
    ultimately show ?thesis using Some by simp
  qed
qed

lemma mset_pair:
  assumes "mset zs = {#a, b#}"
  shows "zs = [a, b] \<or> zs = [b, a]"
proof -
  have "length zs = Suc (Suc 0)" using arg_cong [OF assms, of size] by simp
  then obtain u v where "zs = [u, v]" by (auto simp: length_Suc_conv)
  then show ?thesis using assms by (auto simp: add_eq_conv_ex)
qed

text \<open>Around the wrap of the clock a due message waits behind a later one. The triggers are compared as plain numbers; a message
  that is due before the wrap then stays behind any message that is due after it, and \<open>Get\<close> waits for the later one.\<close>

theorem late_behind_wrap:
  assumes "heap_ok H" and "10 \<le> L" and "L < 2 ^ 31"
    and "PostDelayed H 4294967286 5 h 1 x new_MQ = Inr q1" and "PostDelayed H 4294967286 L h 2 y q1 = Inr q2"
  shows "\<exists>q3 d. get_round H kForever 4294967295 0 q2 = Inr (Inr (L - 9), q3) \<and> d \<in> set (mq_dmsgq q3) \<and>
    msg_message_id (dm_msg d) = 1 \<and> TimeDiff 4294967295 (dm_msTrigger d) = 4"
proof -
  let ?msg = "\<lambda>i x. \<lparr>msg_phandler = h, msg_message_id = i, msg_pdata = x, msg_ts_sensitive = 0\<rparr>"
  let ?t = "4294967286 + word_of_int L :: uint32"
  let ?d = "\<lparr>dm_cmsDelay = 5, dm_msTrigger = 4294967291, dm_num = 0, dm_msg = ?msg 1 x\<rparr>"
  let ?e = "\<lparr>dm_cmsDelay = L, dm_msTrigger = ?t, dm_num = 1, dm_msg = ?msg 2 y\<rparr>"
  have w: "uint (word_of_int L :: uint32) = L" using assms(2,3) by (simp add: uint_word_of_int)
  have t: "uint ?t = L - 10" using assms(2,3) w uint_add_32 [of 4294967286 "word_of_int L"] by simp
  have one: "H [z] = [z]" for z using heap_mset [OF assms(1), of "[z]"] by simp
  have a1: "TimeAfter 4294967286 5 = Inr 4294967291" by (simp add: TimeAfter_def HALF_def)
  have q1: "mq_dmsgq q1 = [?d]" "mq_next_num q1 = 1" "mq_msgq q1 = []" "\<not> mq_fStop q1"
    using assms(4) by (auto simp: PostDelayed_def a1 DoDelayPost_def new_MQ_def EnsureActive_eq Let_def one)
  have a2: "TimeAfter 4294967286 L = Inr ?t" using assms(2,3) w by (simp add: TimeAfter_def word_less_def)
  have q2: "mq_dmsgq q2 = H [?d, ?e]" "mq_msgq q2 = []" "\<not> mq_fStop q2"
    using assms(5) q1 by (auto simp: PostDelayed_def a2 DoDelayPost_def EnsureActive_eq Let_def)
  have "dm_less ?d ?e" using t assms(2,3) by (simp add: dm_less_def word_less_def)
  moreover have "mset (H [?d, ?e]) = {#?d, ?e#}" using heap_mset [OF assms(1)] by simp
  moreover have "\<not> dm_less (hd (H [?d, ?e])) ?e" using assms(1) unfolding heap_ok_def by auto
  ultimately have h: "H [?d, ?e] = [?e, ?d]"
    using mset_pair [of "H [?d, ?e]" ?d ?e] by (metis list.sel(1))
  have l: "TimeDiff ?t 4294967295 = L - 9" "TimeIsLater 4294967295 ?t"
    using t assms(2,3) uint_diff_32 [of ?t 4294967295] by (simp_all add: TimeIsLater_iff TimeDiff_def sint_32_cases)
  have "trigger_loop H 4294967295 (length (mq_dmsgq q2)) q2 = (L - 9, q2)" using q2 h l by simp
  then have "get_round H kForever 4294967295 0 q2 = Inr (Inr (L - 9), q2\<lparr>mq_msgq := []\<rparr>)"
    using q2 by (simp add: get_round_def check_queues_def cms_next_def)
  moreover have "?d \<in> set (mq_dmsgq (q2\<lparr>mq_msgq := []\<rparr>))" using q2 h by simp
  moreover have "TimeDiff 4294967295 (dm_msTrigger ?d) = 4" by (simp add: TimeDiff_def)
  ultimately show ?thesis by (intro exI [of _ "q2\<lparr>mq_msgq := []\<rparr>"] exI [of _ ?d]) simp
qed

subsection \<open>A run\<close>

fun run_calls :: "heap \<Rightarrow> mq_call list \<Rightarrow> MQ \<Rightarrow> MQ exec" where
  "run_calls H [] q = Inr q"
| "run_calls H (c # cs) q = andThen (run_mq H c q) (run_calls H cs)"

lemma run_calls_run: "mq_run H ok q \<Longrightarrow> list_all (call_ok ok) cs \<Longrightarrow> run_calls H cs q = Inr q' \<Longrightarrow> mq_run H ok q'"
  by (induction cs arbitrary: q) (auto simp: andThen_eq_Inr_iff intro: mq_call)

text \<open>Four messages for handler 7, two of them delayed, and a disposal; one message is delivered.\<close>

definition sample_ops :: "mq_call list" where
  "sample_ops = [C_Op (O_PostDelayed 1000 50 (Some 7) 1 None), C_Op (O_Post 1000 (Some 7) 2 (Some 40) False),
     C_Op (O_PostAt 1000 1020 (Some 7) 3 (Some 41)), C_Op (O_Dispose 1000 (Some 42)), C_Op (O_Post 1000 (Some 7) 4 None True), C_Get 1001 (- 1) []]"

definition sample_queue :: MQ where
  "sample_queue = (case run_calls front_heap sample_ops new_MQ of Inr q \<Rightarrow> q | Inl _ \<Rightarrow> new_MQ)"

lemma sample_run: "mq_run front_heap polite sample_queue"
proof -
  have "list_all (call_ok polite) sample_ops" by code_simp
  moreover have "\<not> isl (run_calls front_heap sample_ops new_MQ)" by code_simp
  ultimately show ?thesis
    unfolding sample_queue_def using run_calls_run [OF mq_start] by (auto split: sum.splits)
qed

theorem messages_accounted_witness:
  "length (mq_posted sample_queue) = length (mq_taken sample_queue) + length (mq_removed sample_queue) + length (mq_deleted sample_queue) + mq_size sample_queue \<and>
   length (mq_posted sample_queue) = 5 \<and> length (mq_taken sample_queue) = 1"
proof -
  have "length (mq_posted sample_queue) = 5 \<and> length (mq_taken sample_queue) = 1" by code_simp
  then show ?thesis using messages_accounted [OF front.arranged sample_run] by blast
qed

definition sample_plain :: "mq_call list" where
  "sample_plain = [C_Op (O_Post 1000 (Some 7) 2 None False), C_Op (O_Post 1000 (Some 8) 3 None False), C_Peek 1000 0 [],
     C_Op (O_Post 1000 (Some 7) 4 None False), C_Get 1000 0 [], C_Op (O_Clear (Some 8) MQID_ANY False)]"

definition plain_queue :: MQ where
  "plain_queue = (case run_calls front_heap sample_plain new_MQ of Inr q \<Rightarrow> q | Inl _ \<Rightarrow> new_MQ)"

lemma plain_run: "mq_run front_heap undelayed plain_queue"
proof -
  have "list_all (call_ok undelayed) sample_plain" by code_simp
  moreover have "\<not> isl (run_calls front_heap sample_plain new_MQ)" by code_simp
  ultimately show ?thesis
    unfolding plain_queue_def using run_calls_run [OF mq_start] by (auto split: sum.splits)
qed

theorem messages_in_order_witness:
  "subseq (mq_taken plain_queue @ mq_peeked plain_queue @ mq_msgq plain_queue) (mq_posted plain_queue) \<and>
   map msg_message_id (mq_taken plain_queue @ mq_msgq plain_queue) = [2, 4] \<and> map msg_message_id (mq_posted plain_queue) = [2, 3, 4]"
proof -
  have "map msg_message_id (mq_taken plain_queue @ mq_msgq plain_queue) = [2, 4]" "map msg_message_id (mq_posted plain_queue) = [2, 3, 4]"
    by code_simp+
  then show ?thesis using messages_in_order [OF front.arranged plain_run] by blast
qed


text \<open>A queue with a message for handler 7 and one for handler 8.\<close>

definition two_handlers :: "MQ \<times> MQ" where
  "two_handlers = (let q = Post 0 (Some 7) 1 None False new_MQ in (q, Post 0 (Some 8) 2 None False q))"

definition sample_world :: World where
  "sample_world = update_queue 1 (fst two_handlers) (snd two_handlers) (update_queue 1 new_MQ (fst two_handlers)
     (MessageQueue_constructor 1 \<lparr>wd_queues = Map.empty, wd_manager = None\<rparr>))"

lemma update_queue_lookup [simp]: "wd_queues (update_queue i q q' W) i = Some q'"
  by (simp add: update_queue_def Let_def)

lemma sample_world_run: "world_run front_heap sample_world" "wd_queues sample_world 1 = Some (snd two_handlers)"
proof -
  let ?W = "MessageQueue_constructor 1 \<lparr>wd_queues = Map.empty, wd_manager = None\<rparr>"
  have "world_run front_heap ?W" by (intro world_new world_start) simp
  moreover have "wd_queues ?W 1 = Some new_MQ" by (simp add: MessageQueue_constructor_def)
  moreover have "run_mq front_heap (C_Op (O_Post 0 (Some 7) 1 None False)) new_MQ = Inr (fst two_handlers)"
    "run_mq front_heap (C_Op (O_Post 0 (Some 8) 2 None False)) (fst two_handlers) = Inr (snd two_handlers)"
    by (simp_all add: two_handlers_def Let_def)
  ultimately show "world_run front_heap sample_world" unfolding sample_world_def by (meson world_call update_queue_lookup)
qed (simp add: sample_world_def)

theorem handler_forgotten_witness:
  "\<exists>q'. wd_queues (MessageHandler_destructor front_heap 7 sample_world) 1 = Some q' \<and> map msg_message_id (mq_msgq (snd two_handlers)) = [1, 2] \<and>
     image_mset msg_message_id (mq_pending q') = {#2#}"
proof -
  obtain q' where "wd_queues (MessageHandler_destructor front_heap 7 sample_world) 1 = Some q'"
    and "mq_pending q' = filter_mset (\<lambda>m. msg_phandler m \<noteq> Some 7) (mq_pending (snd two_handlers))"
    using handler_forgotten [OF front.arranged sample_world_run(1), where h = 7 and i = 1] sample_world_run(2)
    by (auto split: option.splits)
  moreover have "map msg_message_id (mq_msgq (snd two_handlers)) = [1, 2]"
    "image_mset msg_message_id (filter_mset (\<lambda>m. msg_phandler m \<noteq> Some 7) (mq_pending (snd two_handlers))) = {#2#}"
    by (simp_all add: two_handlers_def Post_def EnsureActive_def new_MQ_def Let_def mq_pending_def mq_peeked_def)
  ultimately show ?thesis by metis
qed

theorem late_behind_wrap_witness:
  "\<exists>q2 q3 d. get_round front_heap kForever 4294967295 0 q2 = Inr (Inr (100000 - 9), q3) \<and> d \<in> set (mq_dmsgq q3) \<and>
    msg_message_id (dm_msg d) = 1 \<and> TimeDiff 4294967295 (dm_msTrigger d) = 4"
proof -
  let ?first = "PostDelayed front_heap 4294967286 5 (Some 7) 1 None new_MQ"
  have "\<not> isl (andThen ?first (PostDelayed front_heap 4294967286 100000 (Some 7) 2 None))" by code_simp
  then obtain q2 where "andThen ?first (PostDelayed front_heap 4294967286 100000 (Some 7) 2 None) = Inr q2"
    by (metis isl_def sum.exhaust)
  then obtain q1 where "?first = Inr q1" "PostDelayed front_heap 4294967286 100000 (Some 7) 2 None q1 = Inr q2"
    by (auto simp: andThen_eq_Inr_iff)
  then show ?thesis using late_behind_wrap [OF front.arranged, of 100000 "Some 7" None q1 None q2] by auto
qed

end
