(* ===== verification/ThreadSend.thy ===== *)
theory ThreadSend
  imports Prelude
begin

text \<open>
  \<^verbatim>\<open>talk/base/thread.cc\<close>: synchronous calls between threads (\<open>Send\<close>, \<open>ReceiveSends\<close>, \<open>Clear\<close>) and the loop that dispatches
  messages (\<open>ProcessMessages\<close>, \<open>Get\<close>), as interleaved steps. A step is a critical section or an access to a variable that no lock
  protects (\<open>fStop_\<close>, \<open>has_sends_\<close>, \<open>ready\<close>). A thread is a number; its control stack is a list of frames, the running one first.

  A handler is a number, and its \<open>OnMessage\<close> a finite list of the operations it performs on threads. A \<open>ready\<close> flag is named by the number of its
  \<open>Send\<close>; \<open>t_callers\<close> lists the thread that made each \<open>Send\<close>. A socket server's pending wake-up is one flag (the \<open>fSignaled_\<close> of
  \<^verbatim>\<open>physicalsocketserver.cc\<close>): \<open>WakeUp\<close> sets it, and \<open>Wait\<close> returns when it is set and resets it. Input and timers, which may only
  make a wait return earlier, and delayed messages are left out.
\<close>

subsection \<open>Threads\<close>

datatype act =
    A_Send nat nat "act list"
  | A_Post nat nat "act list"
  | A_Clear nat "nat option"
  | A_Quit nat

type_synonym msg = "nat \<times> act list"

datatype frame =
    Handler "act list"
  | SendPush nat msg
  | PostPush nat msg
  | Wake nat
  | SendCheck nat bool
  | SendWait nat
  | Recv
  | RecvLoop
  | RecvDone nat nat
  | Loop
  | GetQueue
  | GetStop
  | GetWait

record SendMessage =
  sm_thread :: nat
  sm_msg :: msg
  sm_ready :: nat

record Threads =
  t_fStop :: "nat \<Rightarrow> bool"
  t_msgq :: "nat \<Rightarrow> msg list"
  t_sendlist :: "nat \<Rightarrow> SendMessage list"
  t_has_sends :: "nat \<Rightarrow> bool"
  t_signaled :: "nat \<Rightarrow> bool"
  t_stack :: "nat \<Rightarrow> frame list"
  t_ready :: "nat list"
  t_callers :: "nat list"

definition set_stack :: "nat \<Rightarrow> frame list \<Rightarrow> Threads \<Rightarrow> Threads" where
  "set_stack t xs s = s\<lparr>t_stack := (t_stack s)(t := xs)\<rparr>"

definition WakeUp :: "nat \<Rightarrow> Threads \<Rightarrow> Threads" where
  "WakeUp u s = s\<lparr>t_signaled := (t_signaled s)(u := True)\<rparr>"

definition matches :: "nat option \<Rightarrow> msg \<Rightarrow> bool" where
  "matches phandler m \<longleftrightarrow> phandler = None \<or> phandler = Some (fst m)"

definition Thread_Clear :: "nat \<Rightarrow> nat option \<Rightarrow> Threads \<Rightarrow> Threads" where
  "Thread_Clear u phandler s =
     (let gone = filter (\<lambda>e. matches phandler (sm_msg e)) (t_sendlist s u);
          s1 = s\<lparr>t_sendlist := (t_sendlist s)(u := filter (\<lambda>e. \<not> matches phandler (sm_msg e)) (t_sendlist s u)),
                 t_ready := map sm_ready gone @ t_ready s\<rparr>;
          s2 = fold (\<lambda>e. WakeUp (sm_thread e)) gone s1
      in s2\<lparr>t_msgq := (t_msgq s2)(u := filter (\<lambda>m. \<not> matches phandler m) (t_msgq s2 u))\<rparr>)"

text \<open>One step of thread \<open>t\<close>, whose stack is \<open>f # xs\<close>; \<open>None\<close> while it waits.\<close>

fun frame_step :: "nat \<Rightarrow> frame \<Rightarrow> frame list \<Rightarrow> Threads \<Rightarrow> Threads option" where
  "frame_step t (Handler []) xs s = Some (set_stack t xs s)"
| "frame_step t (Handler (A_Send u h acts # as)) xs s =
     Some (set_stack t
       (if t_fStop s u then Handler as # xs
        else if u = t then Handler acts # Handler as # xs
        else SendPush u (h, acts) # Handler as # xs) s)"
| "frame_step t (Handler (A_Post u h acts # as)) xs s =
     Some (set_stack t (if t_fStop s u then Handler as # xs else PostPush u (h, acts) # Handler as # xs) s)"
| "frame_step t (Handler (A_Clear u h # as)) xs s = Some (set_stack t (Handler as # xs) (Thread_Clear u h s))"
| "frame_step t (Handler (A_Quit u # as)) xs s =
     Some (set_stack t (Wake u # Handler as # xs) (s\<lparr>t_fStop := (t_fStop s)(u := True)\<rparr>))"
| "frame_step t (SendPush u m) xs s =
     Some (set_stack t (Wake u # SendCheck (length (t_callers s)) False # xs)
       (s\<lparr>t_sendlist := (t_sendlist s)(u := t_sendlist s u @ [\<lparr>sm_thread = t, sm_msg = m, sm_ready = length (t_callers s)\<rparr>]),
          t_has_sends := (t_has_sends s)(u := True),
          t_callers := t_callers s @ [t]\<rparr>))"
| "frame_step t (PostPush u m) xs s =
     Some (set_stack t xs (WakeUp u (s\<lparr>t_msgq := (t_msgq s)(u := t_msgq s u @ [m])\<rparr>)))"
| "frame_step t (Wake u) xs s = Some (set_stack t xs (WakeUp u s))"
| "frame_step t (SendCheck k waited) xs s =
     Some (set_stack t
       (if k \<in> set (t_ready s) then (if waited then Wake t # xs else xs) else Recv # SendWait k # xs) s)"
| "frame_step t (SendWait k) xs s =
     (if t_signaled s t then Some (set_stack t (SendCheck k True # xs) (s\<lparr>t_signaled := (t_signaled s)(t := False)\<rparr>)) else None)"
| "frame_step t Recv xs s = Some (set_stack t (if t_has_sends s t then RecvLoop # xs else xs) s)"
| "frame_step t RecvLoop xs s =
     (case t_sendlist s t of
        [] \<Rightarrow> Some (set_stack t xs (s\<lparr>t_has_sends := (t_has_sends s)(t := False)\<rparr>))
      | e # rest \<Rightarrow>
          Some (set_stack t (Handler (snd (sm_msg e)) # RecvDone (sm_thread e) (sm_ready e) # xs) (s\<lparr>t_sendlist := (t_sendlist s)(t := rest)\<rparr>)))"
| "frame_step t (RecvDone v k) xs s = Some (set_stack t (Wake v # RecvLoop # xs) (s\<lparr>t_ready := k # t_ready s\<rparr>))"
| "frame_step t Loop xs s = Some (set_stack t (Recv # GetQueue # xs) s)"
| "frame_step t GetQueue xs s =
     (case t_msgq s t of
        [] \<Rightarrow> Some (set_stack t (GetStop # xs) s)
      | m # ms \<Rightarrow> Some (set_stack t (Handler (snd m) # Loop # xs) (s\<lparr>t_msgq := (t_msgq s)(t := ms)\<rparr>)))"
| "frame_step t GetStop xs s = Some (set_stack t (if t_fStop s t then xs else GetWait # xs) s)"
| "frame_step t GetWait xs s =
     (if t_signaled s t then Some (set_stack t (Loop # xs) (s\<lparr>t_signaled := (t_signaled s)(t := False)\<rparr>)) else None)"

definition thread_step :: "nat \<Rightarrow> Threads \<Rightarrow> Threads option" where
  "thread_step t s = (case t_stack s t of [] \<Rightarrow> None | f # xs \<Rightarrow> frame_step t f xs s)"

definition stuck :: "Threads \<Rightarrow> bool" where
  "stuck s \<longleftrightarrow> (\<forall>t. thread_step t s = None)"

inductive steps :: "Threads \<Rightarrow> nat \<Rightarrow> Threads \<Rightarrow> bool" for s where
  steps_0: "steps s 0 s"
| steps_Suc: "steps s i s1 \<Longrightarrow> thread_step t s1 = Some s2 \<Longrightarrow> steps s (Suc i) s2"

text \<open>The threads below \<open>n\<close> run their message loops; scripts name only these threads.\<close>

fun act_ok :: "nat \<Rightarrow> act \<Rightarrow> bool" where
  "act_ok n (A_Send u h as) \<longleftrightarrow> u < n \<and> list_all (act_ok n) as"
| "act_ok n (A_Post u h as) \<longleftrightarrow> u < n \<and> list_all (act_ok n) as"
| "act_ok n (A_Clear u h) \<longleftrightarrow> u < n"
| "act_ok n (A_Quit u) \<longleftrightarrow> u < n"

abbreviation msg_ok :: "nat \<Rightarrow> msg \<Rightarrow> bool" where "msg_ok n m \<equiv> list_all (act_ok n) (snd m)"

definition threads_start :: "nat \<Rightarrow> (nat \<Rightarrow> msg list) \<Rightarrow> Threads" where
  "threads_start n q = \<lparr>t_fStop = (\<lambda>_. False), t_msgq = q, t_sendlist = (\<lambda>_. []), t_has_sends = (\<lambda>_. False),
     t_signaled = (\<lambda>_. False), t_stack = (\<lambda>t. if t < n then [Loop] else []), t_ready = [], t_callers = []\<rparr>"

subsection \<open>Every run ends\<close>

fun act_weight :: "act \<Rightarrow> nat" where
  "act_weight (A_Send u h as) = 27 + sum_list (map act_weight as)"
| "act_weight (A_Post u h as) = 13 + sum_list (map act_weight as)"
| "act_weight (A_Clear u h) = 1"
| "act_weight (A_Quit u) = 8"

abbreviation acts_weight :: "act list \<Rightarrow> nat" where "acts_weight as \<equiv> sum_list (map act_weight as)"

fun frame_weight :: "frame \<Rightarrow> nat" where
  "frame_weight (Handler as) = 1 + acts_weight as"
| "frame_weight (SendPush u m) = 26 + acts_weight (snd m)"
| "frame_weight (PostPush u m) = 12 + acts_weight (snd m)"
| "frame_weight (Wake u) = 7"
| "frame_weight (SendCheck k b) = 8"
| "frame_weight (SendWait k) = 4"
| "frame_weight Recv = 2"
| "frame_weight RecvLoop = 1"
| "frame_weight (RecvDone v k) = 9"
| "frame_weight Loop = 5"
| "frame_weight GetQueue = 2"
| "frame_weight GetStop = 1"
| "frame_weight GetWait = 0"

definition stack_weight :: "frame list \<Rightarrow> nat" where "stack_weight xs = sum_list (map frame_weight xs)"
definition queue_weight :: "msg list \<Rightarrow> nat" where "queue_weight ms = sum_list (map (\<lambda>m. 5 + acts_weight (snd m)) ms)"
definition sends_weight :: "SendMessage list \<Rightarrow> nat" where
  "sends_weight xs = sum_list (map (\<lambda>e. 10 + acts_weight (snd (sm_msg e))) xs)"
definition signal_weight :: "bool \<Rightarrow> nat" where "signal_weight b = (if b then 6 else 0)"

definition weight :: "nat \<Rightarrow> Threads \<Rightarrow> nat" where
  "weight n s = (\<Sum>t<n. stack_weight (t_stack s t)) + (\<Sum>t<n. queue_weight (t_msgq s t)) +
     (\<Sum>t<n. sends_weight (t_sendlist s t)) + (\<Sum>t<n. signal_weight (t_signaled s t))"

lemma sum_upd:
  fixes f :: "'a \<Rightarrow> nat" and t n :: nat
  assumes "t < n"
  shows "(\<Sum>i<n. f ((g(t := x)) i)) + f (g t) = (\<Sum>i<n. f (g i)) + f x"
proof -
  have "(\<Sum>i<n. f (h i)) = f (h t) + (\<Sum>i\<in>{..<n} - {t}. f (h i))" for h :: "nat \<Rightarrow> 'a"
    using assms by (intro sum.remove) simp_all
  moreover have "(\<Sum>i\<in>{..<n} - {t}. f ((g(t := x)) i)) = (\<Sum>i\<in>{..<n} - {t}. f (g i))" by (intro sum.cong) simp_all
  ultimately show ?thesis by simp
qed

lemma weight_stack: "t < n \<Longrightarrow> weight n (set_stack t xs s) + stack_weight (t_stack s t) = weight n s + stack_weight xs"
  using sum_upd [of t n stack_weight "t_stack s" xs] by (simp add: weight_def set_stack_def)

lemma weight_msgq:
  "u < n \<Longrightarrow> weight n (s\<lparr>t_msgq := (t_msgq s)(u := ms)\<rparr>) + queue_weight (t_msgq s u) = weight n s + queue_weight ms"
  using sum_upd [of u n queue_weight "t_msgq s" ms] by (simp add: weight_def)

lemma weight_sendlist:
  "u < n \<Longrightarrow> weight n (s\<lparr>t_sendlist := (t_sendlist s)(u := ms)\<rparr>) + sends_weight (t_sendlist s u) = weight n s + sends_weight ms"
  using sum_upd [of u n sends_weight "t_sendlist s" ms] by (simp add: weight_def)

lemma weight_signal:
  "u < n \<Longrightarrow> weight n (s\<lparr>t_signaled := (t_signaled s)(u := b)\<rparr>) + signal_weight (t_signaled s u) = weight n s + signal_weight b"
  using sum_upd [of u n signal_weight "t_signaled s" b] by (simp add: weight_def)

lemma weight_other [simp]:
  "weight n (s\<lparr>t_fStop := a\<rparr>) = weight n s" "weight n (s\<lparr>t_has_sends := b\<rparr>) = weight n s"
  "weight n (s\<lparr>t_ready := c\<rparr>) = weight n s" "weight n (s\<lparr>t_callers := d\<rparr>) = weight n s"
  by (simp_all add: weight_def)

lemma weight_WakeUp: "weight n (WakeUp u s) \<le> weight n s + 6"
proof (cases "u < n")
  case True
  then show ?thesis using weight_signal [OF True, of s True] by (simp add: WakeUp_def signal_weight_def)
next
  case False
  then have "(\<Sum>t<n. signal_weight (((t_signaled s)(u := True)) t)) = (\<Sum>t<n. signal_weight (t_signaled s t))"
    by (intro sum.cong) auto
  then show ?thesis by (simp add: WakeUp_def weight_def)
qed

lemma weight_wakes: "weight n (fold (\<lambda>e. WakeUp (sm_thread e)) xs s) \<le> weight n s + 6 * length xs"
proof (induction xs arbitrary: s)
  case (Cons x xs)
  show ?case using weight_WakeUp [of n "sm_thread x" s] Cons.IH [of "WakeUp (sm_thread x) s"] by simp
qed simp

lemma sends_weight_split: "sends_weight (filter P xs) + sends_weight (filter (\<lambda>x. \<not> P x) xs) = sends_weight xs"
  by (induction xs) (auto simp: sends_weight_def)

lemma queue_weight_filter: "queue_weight (filter P xs) \<le> queue_weight xs"
  by (induction xs) (auto simp: queue_weight_def)

lemma sends_weight_length: "10 * length xs \<le> sends_weight xs"
  by (induction xs) (auto simp: sends_weight_def)

lemma wakes_fields [simp]:
  "t_msgq (fold (\<lambda>e. WakeUp (sm_thread e)) xs s) = t_msgq s" "t_stack (fold (\<lambda>e. WakeUp (sm_thread e)) xs s) = t_stack s"
  "t_sendlist (fold (\<lambda>e. WakeUp (sm_thread e)) xs s) = t_sendlist s" "t_has_sends (fold (\<lambda>e. WakeUp (sm_thread e)) xs s) = t_has_sends s"
  "t_fStop (fold (\<lambda>e. WakeUp (sm_thread e)) xs s) = t_fStop s" "t_ready (fold (\<lambda>e. WakeUp (sm_thread e)) xs s) = t_ready s"
  "t_callers (fold (\<lambda>e. WakeUp (sm_thread e)) xs s) = t_callers s"
  "t_signaled (fold (\<lambda>e. WakeUp (sm_thread e)) xs s) t \<longleftrightarrow> t_signaled s t \<or> t \<in> sm_thread ` set xs"
  by (induction xs arbitrary: s) (auto simp: WakeUp_def)

lemma weight_Clear:
  assumes "u < n"
  shows "weight n (Thread_Clear u h s) \<le> weight n s"
proof -
  let ?gone = "filter (\<lambda>e. matches h (sm_msg e)) (t_sendlist s u)" and ?kept = "filter (\<lambda>e. \<not> matches h (sm_msg e)) (t_sendlist s u)"
  let ?s = "s\<lparr>t_sendlist := (t_sendlist s)(u := ?kept), t_ready := map sm_ready ?gone @ t_ready s\<rparr>"
  let ?w = "fold (\<lambda>e. WakeUp (sm_thread e)) ?gone ?s"
  have "sends_weight ?gone + sends_weight ?kept = sends_weight (t_sendlist s u)" by (rule sends_weight_split)
  moreover have "weight n ?s + sends_weight (t_sendlist s u) = weight n s + sends_weight ?kept"
    using weight_sendlist [OF assms, of s ?kept] by simp
  ultimately have "weight n ?s + sends_weight ?gone = weight n s" by linarith
  moreover have "weight n ?w \<le> weight n ?s + 6 * length ?gone" by (rule weight_wakes)
  moreover have "10 * length ?gone \<le> sends_weight ?gone" by (rule sends_weight_length)
  ultimately have 1: "weight n ?w \<le> weight n s" by linarith
  have "weight n (Thread_Clear u h s) + queue_weight (t_msgq ?w u) = weight n ?w + queue_weight (filter (\<lambda>m. \<not> matches h m) (t_msgq ?w u))"
    using weight_msgq [OF assms, of ?w] by (simp add: Thread_Clear_def Let_def)
  then show ?thesis using 1 queue_weight_filter [of "\<lambda>m. \<not> matches h m" "t_msgq ?w u"] by linarith
qed

lemma set_stack_fields [simp]:
  "t_stack (set_stack t xs s) = (t_stack s)(t := xs)" "t_msgq (set_stack t xs s) = t_msgq s" "t_sendlist (set_stack t xs s) = t_sendlist s"
  "t_has_sends (set_stack t xs s) = t_has_sends s" "t_signaled (set_stack t xs s) = t_signaled s" "t_fStop (set_stack t xs s) = t_fStop s"
  "t_ready (set_stack t xs s) = t_ready s" "t_callers (set_stack t xs s) = t_callers s"
  by (simp_all add: set_stack_def)

lemma WakeUp_fields [simp]:
  "t_stack (WakeUp u s) = t_stack s" "t_msgq (WakeUp u s) = t_msgq s" "t_sendlist (WakeUp u s) = t_sendlist s"
  "t_has_sends (WakeUp u s) = t_has_sends s" "t_signaled (WakeUp u s) = (t_signaled s)(u := True)" "t_fStop (WakeUp u s) = t_fStop s"
  "t_ready (WakeUp u s) = t_ready s" "t_callers (WakeUp u s) = t_callers s"
  by (simp_all add: WakeUp_def)

lemma Thread_Clear_fields [simp]:
  "t_stack (Thread_Clear u h s) = t_stack s" "t_msgq (Thread_Clear u h s) = (t_msgq s)(u := filter (\<lambda>m. \<not> matches h m) (t_msgq s u))"
  "t_sendlist (Thread_Clear u h s) = (t_sendlist s)(u := filter (\<lambda>e. \<not> matches h (sm_msg e)) (t_sendlist s u))"
  "t_has_sends (Thread_Clear u h s) = t_has_sends s" "t_fStop (Thread_Clear u h s) = t_fStop s" "t_callers (Thread_Clear u h s) = t_callers s"
  "t_ready (Thread_Clear u h s) = map sm_ready (filter (\<lambda>e. matches h (sm_msg e)) (t_sendlist s u)) @ t_ready s"
  "t_signaled (Thread_Clear u h s) t \<longleftrightarrow> t_signaled s t \<or> (\<exists>e \<in> set (t_sendlist s u). matches h (sm_msg e) \<and> sm_thread e = t)"
  by (auto simp: Thread_Clear_def Let_def)

fun frame_ok :: "nat \<Rightarrow> frame \<Rightarrow> bool" where
  "frame_ok n (Handler as) = list_all (act_ok n) as"
| "frame_ok n (SendPush u m) = (u < n \<and> msg_ok n m)"
| "frame_ok n (PostPush u m) = (u < n \<and> msg_ok n m)"
| "frame_ok n (Wake u) = (u < n)"
| "frame_ok n (RecvDone v k) = (v < n)"
| "frame_ok n f = True"

definition scripts_ok :: "nat \<Rightarrow> Threads \<Rightarrow> bool" where
  "scripts_ok n s \<longleftrightarrow>
     (\<forall>t. list_all (frame_ok n) (t_stack s t) \<and> (t_stack s t \<noteq> [] \<longrightarrow> t < n)) \<and> (\<forall>t. list_all (msg_ok n) (t_msgq s t)) \<and>
     (\<forall>t. list_all (\<lambda>e. sm_thread e < n \<and> msg_ok n (sm_msg e)) (t_sendlist s t) \<and> (t_sendlist s t \<noteq> [] \<longrightarrow> t < n))"

lemma list_all_filter: "list_all P xs \<Longrightarrow> list_all P (filter Q xs)"
  by (auto simp: list_all_iff)

lemma filter_nonempty: "filter P xs \<noteq> [] \<Longrightarrow> xs \<noteq> []"
  by auto

lemma scripts_step:
  assumes "scripts_ok n s" and "t_stack s t = f # xs" and "frame_step t f xs s = Some s'"
  shows "scripts_ok n s'"
proof -
  have *: "frame_ok n f" "list_all (frame_ok n) xs" "t < n" using assms(1,2) unfolding scripts_ok_def by (metis list.pred_inject(2) list.distinct(1))+
  have q: "list_all (msg_ok n) (t_msgq s t)" "list_all (\<lambda>e. sm_thread e < n \<and> msg_ok n (sm_msg e)) (t_sendlist s t)"
    using assms(1) unfolding scripts_ok_def by blast+
  show ?thesis
  proof (cases "(t, f, xs, s)" rule: frame_step.cases)
    case 12
    show ?thesis
    proof (cases "t_sendlist s t")
      case (Cons e rest)
      have "sm_thread e < n" "msg_ok n (sm_msg e)" "list_all (\<lambda>e. sm_thread e < n \<and> msg_ok n (sm_msg e)) rest" using q(2) Cons by simp_all
      then show ?thesis using assms * 12 Cons by (auto simp: scripts_ok_def split: if_splits)
    qed (use assms * 12 in \<open>auto simp: scripts_ok_def split: if_splits\<close>)
  next
    case 15
    show ?thesis
    proof (cases "t_msgq s t")
      case (Cons m ms)
      have "msg_ok n m" "list_all (msg_ok n) ms" using q(1) Cons by simp_all
      then show ?thesis using assms * 15 Cons by (auto simp: scripts_ok_def split: if_splits)
    qed (use assms * 15 in \<open>auto simp: scripts_ok_def split: if_splits\<close>)
  qed (use assms * in \<open>auto simp: scripts_ok_def list_all_filter split: if_splits\<close>)
qed

lemma weight_step:
  assumes "scripts_ok n s" and "t_stack s t = f # xs" and "frame_step t f xs s = Some s'"
  shows "weight n s' < weight n s"
proof -
  have *: "frame_ok n f" "t < n" using assms(1,2) unfolding scripts_ok_def by (metis list.pred_inject(2) list.distinct(1))+
  have st: "weight n (set_stack t ys s1) + stack_weight (f # xs) = weight n s1 + stack_weight ys" if "t_stack s1 = t_stack s" for ys s1
    using weight_stack [OF *(2), of ys s1] that assms(2) by simp
  have lt: "weight n (set_stack t ys s) < weight n s" if "stack_weight ys < stack_weight (f # xs)" for ys
    using st [OF refl, of ys] that by linarith
  note sw = stack_weight_def
  show ?thesis
  proof (cases "(t, f, xs, s)" rule: frame_step.cases)
    case (4 _ u h as)
    then show ?thesis using st [of "Thread_Clear u h s" "Handler as # xs"] weight_Clear [of u n h s] * assms(3) by (simp add: sw)
  next
    case (5 _ u as)
    let ?s = "s\<lparr>t_fStop := (t_fStop s)(u := True)\<rparr>"
    show ?thesis using st [of ?s "Wake u # Handler as # xs"] 5 assms(3) by (simp add: sw)
  next
    case (6 _ u m)
    let ?k = "length (t_callers s)"
    let ?q = "t_sendlist s u @ [\<lparr>sm_thread = t, sm_msg = m, sm_ready = ?k\<rparr>]"
    let ?s = "s\<lparr>t_sendlist := (t_sendlist s)(u := ?q), t_has_sends := (t_has_sends s)(u := True), t_callers := t_callers s @ [t]\<rparr>"
    have "weight n ?s = weight n (s\<lparr>t_sendlist := (t_sendlist s)(u := ?q)\<rparr>)" by (simp add: weight_def)
    then have "weight n ?s = weight n s + 10 + acts_weight (snd m)"
      using weight_sendlist [of u n s ?q] 6 * by (simp add: sends_weight_def)
    then show ?thesis using st [of ?s "Wake u # SendCheck ?k False # xs"] 6 assms(3) by (simp add: sw)
  next
    case (7 _ u m)
    let ?s = "s\<lparr>t_msgq := (t_msgq s)(u := t_msgq s u @ [m])\<rparr>"
    have "weight n ?s = weight n s + 5 + acts_weight (snd m)"
      using weight_msgq [of u n s "t_msgq s u @ [m]"] 7 * by (simp add: queue_weight_def)
    then show ?thesis using st [of "WakeUp u ?s" xs] weight_WakeUp [of n u ?s] 7 assms(3) by (simp add: sw)
  next
    case (8 _ u)
    then show ?thesis using st [of "WakeUp u s" xs] weight_WakeUp [of n u s] assms(3) by (simp add: sw)
  next
    case (10 _ k)
    let ?s = "s\<lparr>t_signaled := (t_signaled s)(t := False)\<rparr>"
    show ?thesis
      using st [of ?s "SendCheck k True # xs"] weight_signal [OF *(2), of s False] 10 assms(3)
      by (simp add: sw signal_weight_def split: if_splits)
  next
    case 12
    show ?thesis
    proof (cases "t_sendlist s t")
      case Nil
      then show ?thesis using st [of "s\<lparr>t_has_sends := (t_has_sends s)(t := False)\<rparr>" xs] 12 assms(3) by (simp add: sw)
    next
      case (Cons e rest)
      let ?s = "s\<lparr>t_sendlist := (t_sendlist s)(t := rest)\<rparr>"
      show ?thesis
        using st [of ?s "Handler (snd (sm_msg e)) # RecvDone (sm_thread e) (sm_ready e) # xs"] weight_sendlist [OF *(2), of s rest] Cons 12 assms(3)
        by (simp add: sw sends_weight_def)
    qed
  next
    case (13 _ v k)
    then show ?thesis using st [of "s\<lparr>t_ready := k # t_ready s\<rparr>" "Wake v # RecvLoop # xs"] assms(3) by (simp add: sw)
  next
    case 15
    show ?thesis
    proof (cases "t_msgq s t")
      case Nil
      then show ?thesis using st [of s "GetStop # xs"] 15 assms(3) by (simp add: sw)
    next
      case (Cons m ms)
      let ?s = "s\<lparr>t_msgq := (t_msgq s)(t := ms)\<rparr>"
      show ?thesis
        using st [of ?s "Handler (snd m) # Loop # xs"] weight_msgq [OF *(2), of s ms] Cons 15 assms(3) by (simp add: sw queue_weight_def)
    qed
  next
    case 17
    let ?s = "s\<lparr>t_signaled := (t_signaled s)(t := False)\<rparr>"
    show ?thesis
      using st [of ?s "Loop # xs"] weight_signal [OF *(2), of s False] 17 assms(3) by (simp add: sw signal_weight_def split: if_splits)
  qed (use assms(3) in \<open>auto intro!: lt simp: sw split: if_splits\<close>)
qed

subsection \<open>No thread hangs\<close>

fun main_frame :: "frame \<Rightarrow> bool" where
  "main_frame Loop = True" | "main_frame GetQueue = True" | "main_frame GetStop = True" | "main_frame GetWait = True" | "main_frame f = False"

fun is_handler :: "frame \<Rightarrow> bool" where "is_handler (Handler as) = True" | "is_handler f = False"

fun receives :: "frame \<Rightarrow> bool" where "receives (SendWait k) = True" | "receives GetQueue = True" | "receives f = False"

text \<open>\<open>above f g\<close>: the code of frame \<open>g\<close> calls that of frame \<open>f\<close>.\<close>

fun above :: "frame \<Rightarrow> frame \<Rightarrow> bool" where
  "above (Handler as) g \<longleftrightarrow> is_handler g \<or> g = Loop \<or> (\<exists>v k. g = RecvDone v k)"
| "above (Wake u) g \<longleftrightarrow> is_handler g \<or> g = RecvLoop \<or> (\<exists>k b. g = SendCheck k b)"
| "above Recv g \<longleftrightarrow> receives g"
| "above RecvLoop g \<longleftrightarrow> receives g"
| "above (RecvDone v k) g \<longleftrightarrow> receives g"
| "above f g \<longleftrightarrow> \<not> main_frame f \<and> is_handler g"

fun shape :: "frame list \<Rightarrow> bool" where
  "shape [] = True"
| "shape [f] = main_frame f"
| "shape (f # g # xs) = (above f g \<and> shape (g # xs))"

fun send_of :: "frame \<Rightarrow> nat option" where
  "send_of (SendCheck k b) = Some k" | "send_of (SendWait k) = Some k" | "send_of f = None"

fun serves :: "frame \<Rightarrow> (nat \<times> nat) option" where
  "serves (RecvDone v k) = Some (v, k)" | "serves f = None"

text \<open>A call made while another is served is younger.\<close>

definition nested :: "frame list \<Rightarrow> bool" where
  "nested = sorted_wrt (\<lambda>a b. \<forall>k v j. send_of a = Some k \<longrightarrow> serves b = Some (v, j) \<longrightarrow> j < k)"

text \<open>Every flag belongs to the thread that made the call.\<close>

definition made_by :: "nat list \<Rightarrow> nat \<Rightarrow> nat \<Rightarrow> bool" where
  "made_by C v k \<longleftrightarrow> k < length C \<and> C ! k = v"

fun frame_token :: "nat list \<Rightarrow> nat \<Rightarrow> frame \<Rightarrow> bool" where
  "frame_token C t (SendCheck k b) = made_by C t k"
| "frame_token C t (SendWait k) = made_by C t k"
| "frame_token C t (RecvDone v k) = made_by C v k"
| "frame_token C t f = True"

definition tokens_ok :: "Threads \<Rightarrow> bool" where
  "tokens_ok s \<longleftrightarrow> (\<forall>t. list_all (frame_token (t_callers s) t) (t_stack s t)) \<and>
     (\<forall>t. list_all (\<lambda>e. made_by (t_callers s) (sm_thread e) (sm_ready e)) (t_sendlist s t))"

text \<open>Where the message of a pending call is.\<close>

definition located :: "Threads \<Rightarrow> nat \<Rightarrow> bool" where
  "located s k \<longleftrightarrow> k \<in> set (t_ready s) \<or> (\<exists>u. k \<in> sm_ready ` set (t_sendlist s u)) \<or> (\<exists>u v f. f \<in> set (t_stack s u) \<and> serves f = Some (v, k))"

definition calls_located :: "Threads \<Rightarrow> bool" where
  "calls_located s \<longleftrightarrow> (\<forall>t f k. f \<in> set (t_stack s t) \<longrightarrow> send_of f = Some k \<longrightarrow> located s k)"

definition coming :: "Threads \<Rightarrow> nat \<Rightarrow> bool" where
  "coming s t \<longleftrightarrow> t_signaled s t \<or> (\<exists>v xs. t_stack s v = Wake t # xs)"

fun past_sends :: "frame list \<Rightarrow> bool" where
  "past_sends (SendWait k # xs) = True" | "past_sends (GetQueue # xs) = True" | "past_sends (GetStop # xs) = True"
| "past_sends (GetWait # xs) = True" | "past_sends xs = False"

fun past_posts :: "frame list \<Rightarrow> bool" where
  "past_posts (GetStop # xs) = True" | "past_posts (GetWait # xs) = True" | "past_posts xs = False"

fun past_stop :: "frame list \<Rightarrow> bool" where
  "past_stop (GetWait # xs) = True" | "past_stop xs = False"

text \<open>The innermost waiting call of the stack has its reply, and its thread does not know.\<close>

fun unheard :: "nat set \<Rightarrow> frame list \<Rightarrow> bool" where
  "unheard R [] = False"
| "unheard R (SendWait k # xs) = (k \<in> R)"
| "unheard R (SendCheck k True # xs) = False"
| "unheard R (f # xs) = unheard R xs"

definition wakes_ok :: "Threads \<Rightarrow> bool" where
  "wakes_ok s \<longleftrightarrow> (\<forall>t. t_sendlist s t \<noteq> [] \<longrightarrow> t_has_sends s t) \<and>
     (\<forall>t. past_sends (t_stack s t) \<longrightarrow> t_sendlist s t \<noteq> [] \<longrightarrow> coming s t) \<and>
     (\<forall>t. unheard (set (t_ready s)) (t_stack s t) \<longrightarrow> coming s t) \<and>
     (\<forall>t. past_posts (t_stack s t) \<longrightarrow> t_msgq s t \<noteq> [] \<longrightarrow> coming s t) \<and>
     (\<forall>t. past_stop (t_stack s t) \<longrightarrow> t_fStop s t \<longrightarrow> coming s t)"

definition shapes_ok :: "nat \<Rightarrow> Threads \<Rightarrow> bool" where
  "shapes_ok n s \<longleftrightarrow> (\<forall>t. shape (t_stack s t)) \<and> (\<forall>t<n. t_stack s t = [] \<longrightarrow> t_fStop s t)"

lemma shape_Cons: "shape (f # xs) \<longleftrightarrow> (if xs = [] then main_frame f else above f (hd xs) \<and> shape xs)"
  by (cases xs) auto

lemma shape_tail: "shape (f # xs) \<Longrightarrow> shape xs"
  by (cases xs) auto

lemma shape_main: "shape (f # xs) \<Longrightarrow> main_frame f \<Longrightarrow> xs = []"
  by (cases xs; cases f) auto

lemma shapes_step:
  assumes "shapes_ok n s" and "t_stack s t = f # xs" and "frame_step t f xs s = Some s'"
  shows "shapes_ok n s'"
proof -
  have sh: "shape (f # xs)" "shape xs" using assms(1,2) shape_tail unfolding shapes_ok_def by metis+
  then show ?thesis using assms
    by (cases "(t, f, xs, s)" rule: frame_step.cases)
      (auto simp: shapes_ok_def shape_Cons split: if_splits list.splits)
qed

lemma made_by_append: "made_by C v k \<Longrightarrow> made_by (C @ [u]) v k"
  by (simp add: made_by_def nth_append)

lemma made_by_new: "made_by (C @ [u]) u (length C)"
  by (simp add: made_by_def)

lemma frame_token_append: "frame_token C t f \<Longrightarrow> frame_token (C @ [u]) t f"
  by (cases f) (simp_all add: made_by_append)

lemma tokens_step:
  assumes "tokens_ok s" and "t_stack s t = f # xs" and "frame_step t f xs s = Some s'"
  shows "tokens_ok s'"
proof -
  have *: "frame_token (t_callers s) t f" "list_all (frame_token (t_callers s) t) xs"
    "list_all (\<lambda>e. made_by (t_callers s) (sm_thread e) (sm_ready e)) (t_sendlist s t)"
    using assms(1,2) unfolding tokens_ok_def by (metis list.pred_inject(2))+
  show ?thesis
  proof (cases "(t, f, xs, s)" rule: frame_step.cases)
    case (6 _ u m)
    let ?C = "t_callers s @ [t]"
    have "list_all (frame_token ?C v) (t_stack s v)" for v
      using assms(1) unfolding tokens_ok_def by (metis frame_token_append list.pred_mono_strong)
    moreover have "list_all (frame_token ?C t) xs" using *(2) by (metis frame_token_append list.pred_mono_strong)
    moreover have "list_all (\<lambda>e. made_by ?C (sm_thread e) (sm_ready e)) (t_sendlist s v)" for v
      using assms(1) unfolding tokens_ok_def by (metis (no_types, lifting) made_by_append list.pred_mono_strong)
    ultimately show ?thesis using assms(3) 6 by (auto simp: tokens_ok_def made_by_new)
  next
    case 12
    show ?thesis
    proof (cases "t_sendlist s t")
      case (Cons e rest)
      have "made_by (t_callers s) (sm_thread e) (sm_ready e)" "list_all (\<lambda>e. made_by (t_callers s) (sm_thread e) (sm_ready e)) rest"
        using *(3) Cons by simp_all
      then show ?thesis using assms *(1,2) 12 Cons by (auto simp: tokens_ok_def)
    qed (use assms *(1,2) 12 in \<open>auto simp: tokens_ok_def\<close>)
  next
    case 15
    then show ?thesis using assms *(1,2) by (cases "t_msgq s t") (auto simp: tokens_ok_def)
  qed (use assms *(1,2) in \<open>auto simp: tokens_ok_def list_all_filter split: if_splits\<close>)
qed

definition younger :: "nat \<Rightarrow> frame list \<Rightarrow> bool" where
  "younger k xs \<longleftrightarrow> (\<forall>f \<in> set xs. \<forall>v j. serves f = Some (v, j) \<longrightarrow> j < k)"

lemma younger_Cons [simp]: "younger k (f # xs) \<longleftrightarrow> (\<forall>v j. serves f = Some (v, j) \<longrightarrow> j < k) \<and> younger k xs"
  by (auto simp: younger_def)

lemma nested_simps [simp]: "nested []" "nested (f # xs) \<longleftrightarrow> (\<forall>k. send_of f = Some k \<longrightarrow> younger k xs) \<and> nested xs"
  by (auto simp: nested_def younger_def)

lemma younger_new:
  assumes "list_all (frame_token C t) xs"
  shows "younger (length C) xs"
proof -
  have "j < length C" if "f \<in> set xs" "serves f = Some (v, j)" for f v j
    using assms that by (cases f) (auto simp: list_all_iff made_by_def)
  then show ?thesis by (auto simp: younger_def)
qed

lemma nested_step:
  assumes "\<forall>v. nested (t_stack s v)" and "tokens_ok s" and "t_stack s t = f # xs" and "frame_step t f xs s = Some s'"
  shows "nested (t_stack s' v)"
proof -
  have *: "nested (f # xs)" "nested (t_stack s v)" using assms(1,3) by metis+
  have "list_all (frame_token (t_callers s) t) xs" using assms(2,3) unfolding tokens_ok_def by (metis list.pred_inject(2))
  then show ?thesis using * assms(4) younger_new
    by (cases "(t, f, xs, s)" rule: frame_step.cases) (auto split: if_splits list.splits)
qed

lemma ready_step: "frame_step t f xs s = Some s' \<Longrightarrow> set (t_ready s) \<subseteq> set (t_ready s')"
  by (cases "(t, f, xs, s)" rule: frame_step.cases) (auto split: if_splits list.splits)

lemma sendlist_step:
  assumes "frame_step t f xs s = Some s'" and "e \<in> set (t_sendlist s u)"
  shows "e \<in> set (t_sendlist s' u) \<or> sm_ready e \<in> set (t_ready s') \<or> RecvDone (sm_thread e) (sm_ready e) \<in> set (t_stack s' t)"
  using assms by (cases "(t, f, xs, s)" rule: frame_step.cases) (auto split: if_splits list.splits)

lemma serving_step:
  assumes "t_stack s t = f # xs" and "frame_step t f xs s = Some s'" and "g \<in> set (t_stack s u)" and "serves g = Some (v, k)"
  shows "g \<in> set (t_stack s' u) \<or> k \<in> set (t_ready s')"
  using assms by (cases "(t, f, xs, s)" rule: frame_step.cases) (auto split: if_splits list.splits)

lemma located_step:
  assumes "located s k" and "t_stack s t = f # xs" and "frame_step t f xs s = Some s'"
  shows "located s' k"
  using assms(1) unfolding located_def
proof (elim disjE exE conjE)
  assume "k \<in> set (t_ready s)"
  then show "k \<in> set (t_ready s') \<or> (\<exists>u. k \<in> sm_ready ` set (t_sendlist s' u)) \<or> (\<exists>u v f. f \<in> set (t_stack s' u) \<and> serves f = Some (v, k))"
    using ready_step [OF assms(3)] by blast
next
  fix u assume "k \<in> sm_ready ` set (t_sendlist s u)"
  then obtain e where "e \<in> set (t_sendlist s u)" "k = sm_ready e" by blast
  then show "k \<in> set (t_ready s') \<or> (\<exists>u. k \<in> sm_ready ` set (t_sendlist s' u)) \<or> (\<exists>u v f. f \<in> set (t_stack s' u) \<and> serves f = Some (v, k))"
    using sendlist_step [OF assms(3)] by (metis image_eqI serves.simps(1))
next
  fix u v g assume "g \<in> set (t_stack s u)" "serves g = Some (v, k)"
  then show "k \<in> set (t_ready s') \<or> (\<exists>u. k \<in> sm_ready ` set (t_sendlist s' u)) \<or> (\<exists>u v f. f \<in> set (t_stack s' u) \<and> serves f = Some (v, k))"
    using serving_step [OF assms(2,3)] by blast
qed

text \<open>A call that is new in a stack has just been entered in the target's list.\<close>

lemma new_call:
  assumes "t_stack s t = f # xs" and "frame_step t f xs s = Some s'" and "g \<in> set (t_stack s' v)" and "send_of g = Some k"
  shows "(\<exists>h \<in> set (t_stack s v). send_of h = Some k) \<or> (\<exists>u. k \<in> sm_ready ` set (t_sendlist s' u))"
  using assms
proof (cases "(t, f, xs, s)" rule: frame_step.cases)
  case (6 _ u m)
  then have "length (t_callers s) \<in> sm_ready ` set (t_sendlist s' u)" using assms(2) by auto
  moreover have "g \<in> set (t_stack s v) \<or> k = length (t_callers s)" using assms 6 by (auto split: if_splits)
  ultimately show ?thesis using assms(4) by blast
qed (auto split: if_splits list.splits)

lemma calls_located_step:
  assumes "calls_located s" and "t_stack s t = f # xs" and "frame_step t f xs s = Some s'"
  shows "calls_located s'"
  unfolding calls_located_def
proof (intro allI impI)
  fix v g k assume "g \<in> set (t_stack s' v)" "send_of g = Some k"
  then consider h where "h \<in> set (t_stack s v)" "send_of h = Some k" | u where "k \<in> sm_ready ` set (t_sendlist s' u)"
    using new_call [OF assms(2,3)] by blast
  then show "located s' k"
  proof cases
    case 1
    then show ?thesis using assms(1) located_step [OF _ assms(2,3)] unfolding calls_located_def by blast
  next
    case 2
    then show ?thesis unfolding located_def by blast
  qed
qed

subsection \<open>No wake-up is lost\<close>

text \<open>Only the waits of a thread consume its wake-ups.\<close>

fun waiting :: "frame \<Rightarrow> bool" where
  "waiting (SendWait k) = True" | "waiting GetWait = True" | "waiting f = False"

lemma coming_signal [simp]: "t_signaled s t \<Longrightarrow> coming s t"
  by (simp add: coming_def)

lemma coming_wake: "t_stack s v = Wake t # xs \<Longrightarrow> coming s t"
  unfolding coming_def by blast

lemma coming_step:
  assumes "coming s v" and "t_stack s t = f # xs" and "frame_step t f xs s = Some s'" and "v = t \<Longrightarrow> \<not> waiting f"
  shows "coming s' v"
proof (cases "t_signaled s v")
  case True
  then have "t_signaled s' v" using assms(2-4)
    by (cases "(t, f, xs, s)" rule: frame_step.cases) (auto split: if_splits list.splits)
  then show ?thesis by simp
next
  case False
  then obtain w ys where w: "t_stack s w = Wake v # ys" using assms(1) by (auto simp: coming_def)
  show ?thesis
  proof (cases "w = t")
    case True
    then have "t_signaled s' v" using w assms(2,3) by auto
    then show ?thesis by simp
  next
    case False
    then have "t_stack s' w = Wake v # ys" using w assms(2,3)
      by (cases "(t, f, xs, s)" rule: frame_step.cases) (auto split: if_splits list.splits)
    then show ?thesis by (rule coming_wake)
  qed
qed

lemma other_stack: "frame_step t f xs s = Some s' \<Longrightarrow> v \<noteq> t \<Longrightarrow> t_stack s' v = t_stack s v"
  by (cases "(t, f, xs, s)" rule: frame_step.cases) (auto split: if_splits list.splits)

lemma has_sends_step:
  assumes "\<forall>v. t_sendlist s v \<noteq> [] \<longrightarrow> t_has_sends s v" and "frame_step t f xs s = Some s'"
  shows "t_sendlist s' v \<noteq> [] \<longrightarrow> t_has_sends s' v"
proof (cases "(t, f, xs, s)" rule: frame_step.cases)
  case (4 _ u h as)
  then show ?thesis using assms filter_nonempty [of "\<lambda>e. \<not> matches h (sm_msg e)" "t_sendlist s u"] by (auto split: if_splits)
qed (use assms in \<open>auto split: if_splits list.splits\<close>)

text \<open>What lets a list grow also wakes its thread.\<close>

lemma sendlist_grows:
  assumes "frame_step t f xs s = Some s'" and "t_sendlist s' v \<noteq> []"
  shows "t_sendlist s v \<noteq> [] \<or> coming s' v"
proof (cases "(t, f, xs, s)" rule: frame_step.cases)
  case (6 _ u m)
  have "coming s' u" using assms(1) 6 by (intro coming_wake [of s' t]) auto
  then show ?thesis using assms 6 by (auto split: if_splits)
qed (use assms in \<open>auto split: if_splits list.splits\<close>)

lemma msgq_grows:
  assumes "frame_step t f xs s = Some s'" and "t_msgq s' v \<noteq> []"
  shows "t_msgq s v \<noteq> [] \<or> coming s' v"
  using assms by (cases "(t, f, xs, s)" rule: frame_step.cases) (auto simp: coming_def split: if_splits list.splits)

lemma stop_grows:
  assumes "frame_step t f xs s = Some s'" and "t_fStop s' v"
  shows "t_fStop s v \<or> coming s' v"
proof (cases "(t, f, xs, s)" rule: frame_step.cases)
  case (5 _ u as)
  have "coming s' u" using assms(1) 5 by (intro coming_wake [of s' t]) auto
  then show ?thesis using assms 5 by (auto split: if_splits)
qed (use assms in \<open>auto split: if_splits list.splits\<close>)

lemma ready_grows:
  assumes "frame_step t f xs s = Some s'" and "tokens_ok s" and "t_stack s t = f # xs" and "k \<in> set (t_ready s')" and "made_by (t_callers s) v k"
  shows "k \<in> set (t_ready s) \<or> coming s' v"
proof (cases "(t, f, xs, s)" rule: frame_step.cases)
  case (4 _ u h as)
  show ?thesis
  proof (cases "k \<in> set (t_ready s)")
    case False
    then obtain e where e: "e \<in> set (t_sendlist s u)" "matches h (sm_msg e)" "sm_ready e = k" using assms(1,4) 4 by auto
    then have "sm_thread e = v" using assms(2,5) by (auto simp: tokens_ok_def list_all_iff made_by_def)
    then have "t_signaled s' v" using assms(1) 4 e by auto
    then show ?thesis by simp
  qed simp
next
  case (13 _ w j)
  have "made_by (t_callers s) w j" using assms(2,3) 13 unfolding tokens_ok_def by (metis frame_token.simps(3) list.pred_inject(2) prod.inject)
  moreover have "coming s' w" using assms(1) 13 by (intro coming_wake [of s' t]) auto
  ultimately show ?thesis using assms 13 by (auto simp: made_by_def)
qed (use assms in \<open>auto split: if_splits list.splits\<close>)

lemma unheard_mono: "unheard R' xs \<Longrightarrow> (\<And>k. SendWait k \<in> set xs \<Longrightarrow> k \<in> R' \<Longrightarrow> k \<in> R) \<Longrightarrow> unheard R xs"
  by (induction R' xs rule: unheard.induct) auto

lemma unheard_made:
  assumes "unheard R xs" and "list_all (frame_token C t) xs"
  shows "\<exists>k. SendWait k \<in> set xs \<and> k \<in> R \<and> made_by C t k"
  using assms by (induction R xs rule: unheard.induct) auto

text \<open>The stack of the stepping thread.\<close>

lemma own_past_sends:
  assumes "frame_step t f xs s = Some s'" and "shape (f # xs)" and "\<forall>v. t_sendlist s v \<noteq> [] \<longrightarrow> t_has_sends s v"
    and "past_sends (t_stack s' t)" and "t_sendlist s' t \<noteq> []"
  shows "past_sends (f # xs) \<and> \<not> waiting f \<and> t_sendlist s t \<noteq> []"
  using assms
  by (cases "(t, f, xs, s)" rule: frame_step.cases; cases xs)
    (auto split: if_splits list.splits elim!: past_sends.elims dest: filter_nonempty)

lemma own_past_posts:
  assumes "frame_step t f xs s = Some s'" and "shape (f # xs)" and "past_posts (t_stack s' t)" and "t_msgq s' t \<noteq> []"
  shows "past_posts (f # xs) \<and> \<not> waiting f \<and> t_msgq s t \<noteq> []"
  using assms
  by (cases "(t, f, xs, s)" rule: frame_step.cases; cases xs) (auto split: if_splits list.splits elim!: past_posts.elims)

lemma own_past_stop:
  assumes "frame_step t f xs s = Some s'" and "shape (f # xs)" and "past_stop (t_stack s' t)"
  shows "\<not> t_fStop s' t"
  using assms
  by (cases "(t, f, xs, s)" rule: frame_step.cases; cases xs) (auto split: if_splits list.splits elim!: past_stop.elims)

lemma own_unheard:
  assumes "frame_step t f xs s = Some s'" and "t_stack s t = f # xs" and "shape (f # xs)" and "unheard (set (t_ready s')) (t_stack s' t)"
  shows "unheard (set (t_ready s')) (f # xs) \<and> \<not> waiting f \<or> coming s' t"
proof (cases "\<exists>k waited. f = SendCheck k waited")
  case True
  then obtain k waited where f: "f = SendCheck k waited" by blast
  have "coming s' t" if "waited" "k \<in> set (t_ready s)" using assms(1) f that by (intro coming_wake [of s' t]) auto
  then show ?thesis using assms f by (cases waited) (auto split: if_splits)
next
  case False
  then show ?thesis using assms
    by (cases "(t, f, xs, s)" rule: frame_step.cases; cases xs) (auto split: if_splits list.splits)
qed

lemma wakes_step:
  assumes "wakes_ok s" and "tokens_ok s" and "shape (f # xs)" and st: "t_stack s t = f # xs" and fs: "frame_step t f xs s = Some s'"
  shows "wakes_ok s'"
proof -
  note w = assms(1) [unfolded wakes_ok_def]
  have old: "coming s' v" if "coming s v" "v = t \<Longrightarrow> \<not> waiting f" for v using coming_step [OF that(1) st fs that(2)] by blast
  have 1: "t_sendlist s' v \<noteq> [] \<longrightarrow> t_has_sends s' v" for v using has_sends_step [OF _ fs] w by blast
  have 2: "coming s' v" if p: "past_sends (t_stack s' v)" "t_sendlist s' v \<noteq> []" for v
  proof (cases "v = t")
    case True
    then have "past_sends (t_stack s t) \<and> \<not> waiting f \<and> t_sendlist s t \<noteq> []" using own_past_sends [OF fs assms(3)] w p st by simp
    then show ?thesis using True old w by blast
  next
    case False
    then show ?thesis using p sendlist_grows [OF fs p(2)] other_stack [OF fs False] old w by metis
  qed
  have 3: "coming s' v" if p: "unheard (set (t_ready s')) (t_stack s' v)" for v
  proof -
    consider "coming s' v" | "unheard (set (t_ready s')) (t_stack s v)" "v = t \<Longrightarrow> \<not> waiting f"
      using p own_unheard [OF fs st assms(3)] other_stack [OF fs, of v] st by metis
    then show ?thesis
    proof cases
      case 2
      have tok: "list_all (frame_token (t_callers s) v) (t_stack s v)" using assms(2) unfolding tokens_ok_def by blast
      show ?thesis
      proof (rule ccontr)
        assume n: "\<not> coming s' v"
        have "k \<in> set (t_ready s)" if "SendWait k \<in> set (t_stack s v)" "k \<in> set (t_ready s')" for k
          using ready_grows [OF fs assms(2) st that(2), of v] n tok that(1) by (auto simp: list_all_iff)
        then have "unheard (set (t_ready s)) (t_stack s v)" using unheard_mono [OF 2(1)] by blast
        then show False using n old 2(2) w by blast
      qed
    qed
  qed
  have 4: "coming s' v" if p: "past_posts (t_stack s' v)" "t_msgq s' v \<noteq> []" for v
  proof (cases "v = t")
    case True
    then have "past_posts (t_stack s t) \<and> \<not> waiting f \<and> t_msgq s t \<noteq> []" using own_past_posts [OF fs assms(3)] p st by simp
    then show ?thesis using True old w by blast
  next
    case False
    then show ?thesis using p msgq_grows [OF fs p(2)] other_stack [OF fs False] old w by metis
  qed
  have 5: "coming s' v" if p: "past_stop (t_stack s' v)" "t_fStop s' v" for v
  proof (cases "v = t")
    case True
    then show ?thesis using own_past_stop [OF fs assms(3)] p by simp
  next
    case False
    then show ?thesis using p stop_grows [OF fs p(2)] other_stack [OF fs False] old w by metis
  qed
  show ?thesis unfolding wakes_ok_def using 1 2 3 4 5 by blast
qed

subsection \<open>Properties\<close>

definition threads_inv :: "nat \<Rightarrow> Threads \<Rightarrow> bool" where
  "threads_inv n s \<longleftrightarrow> scripts_ok n s \<and> shapes_ok n s \<and> tokens_ok s \<and> (\<forall>t. nested (t_stack s t)) \<and> calls_located s \<and> wakes_ok s"

lemma threads_inv_start:
  assumes "\<forall>t. list_all (msg_ok n) (q t)"
  shows "threads_inv n (threads_start n q)"
  using assms
  by (simp add: threads_inv_def threads_start_def scripts_ok_def shapes_ok_def tokens_ok_def calls_located_def wakes_ok_def)

lemma threads_inv_step:
  assumes "threads_inv n s" and "thread_step t s = Some s'"
  shows "threads_inv n s' \<and> weight n s' < weight n s"
proof -
  obtain f xs where st: "t_stack s t = f # xs" and fs: "frame_step t f xs s = Some s'"
    using assms(2) by (auto simp: thread_step_def split: list.splits)
  have sh: "shape (f # xs)" using assms(1) st unfolding threads_inv_def shapes_ok_def by metis
  show ?thesis
    using assms(1) scripts_step [OF _ st fs] shapes_step [OF _ st fs] tokens_step [OF _ st fs] nested_step [OF _ _ st fs]
      calls_located_step [OF _ st fs] wakes_step [OF _ _ sh st fs] weight_step [OF _ st fs]
    unfolding threads_inv_def by blast
qed

lemma steps_inv:
  assumes "steps s i s'" and "threads_inv n s"
  shows "threads_inv n s' \<and> weight n s' + i \<le> weight n s"
  using assms(1) by induction (use assms(2) threads_inv_step in fastforce)+

text \<open>A thread that cannot step waits or has ended.\<close>

lemma stuck_top:
  assumes "stuck s" and "t_stack s t = f # xs"
  shows "waiting f" and "\<not> coming s t"
proof -
  have no: "frame_step v g ys s = None" if "t_stack s v = g # ys" for v g ys
    using assms(1) that unfolding stuck_def thread_step_def by (metis list.simps(5))
  have "frame_step t f xs s = None" using no [OF assms(2)] .
  then show w: "waiting f" by (cases "(t, f, xs, s)" rule: frame_step.cases) (auto split: if_splits list.splits)
  have "\<not> t_signaled s t" using no [OF assms(2)] w by (cases f) auto
  moreover have "t_stack s v \<noteq> Wake t # ys" for v ys using no [of v "Wake t" ys] by auto
  ultimately show "\<not> coming s t" by (auto simp: coming_def)
qed

lemma stuck_calls:
  assumes "threads_inv n s" and "stuck s" and "t_stack s t = SendWait k # xs"
    and "\<forall>u. t_stack s u = [] \<longrightarrow> t_sendlist s u = []"
  shows "\<exists>u j ys. t_stack s u = SendWait j # ys \<and> k < j"
proof -
  note inv = assms(1) [unfolded threads_inv_def]
  have top: "\<exists>j. f = SendWait j \<or> f = GetWait \<and> ys = []" if "t_stack s u = f # ys" for u f ys
  proof -
    have "shape (f # ys)" using inv that unfolding shapes_ok_def by metis
    then show ?thesis using stuck_top(1) [OF assms(2) that] shape_main [of f ys] by (cases f) auto
  qed
  have "k \<notin> set (t_ready s)"
    using inv stuck_top(2) [OF assms(2,3)] assms(3) unfolding wakes_ok_def by (metis unheard.simps(2))
  moreover have "located s k" using inv assms(3) unfolding calls_located_def by (metis list.set_intros(1) send_of.simps(2))
  ultimately consider u e where "e \<in> set (t_sendlist s u)" | u v g where "g \<in> set (t_stack s u)" "serves g = Some (v, k)"
    unfolding located_def by blast
  then show ?thesis
  proof cases
    case 1
    then have ne: "t_sendlist s u \<noteq> []" by auto
    then obtain f ys where f: "t_stack s u = f # ys" using assms(4) by (cases "t_stack s u") auto
    then have "past_sends (t_stack s u)" using top [OF f] by auto
    then have "coming s u" using inv ne unfolding wakes_ok_def by blast
    then show ?thesis using stuck_top(2) [OF assms(2) f] by blast
  next
    case 2
    then obtain f ys where f: "t_stack s u = f # ys" by (cases "t_stack s u") auto
    then obtain j where j: "f = SendWait j" "g \<in> set ys" using top [OF f] 2 by auto
    have "nested (f # ys)" using inv f by metis
    then have "k < j" using j 2(2) by (auto simp: younger_def)
    then show ?thesis using f j by blast
  qed
qed

lemma stuck_no_calls:
  assumes "threads_inv n s" and "stuck s" and "\<forall>u. t_stack s u = [] \<longrightarrow> t_sendlist s u = []"
  shows "t_stack s t \<noteq> SendWait k # xs"
proof
  let ?K = "{k. \<exists>t xs. t_stack s t = SendWait k # xs}"
  assume "t_stack s t = SendWait k # xs"
  then have ne: "?K \<noteq> {}" by blast
  have "k < length (t_callers s)" if m: "k \<in> ?K" for k
  proof -
    obtain t xs where "t_stack s t = SendWait k # xs" using m by blast
    then have "frame_token (t_callers s) t (SendWait k)" using assms(1) unfolding threads_inv_def tokens_ok_def by (metis list.pred_inject(2))
    then show ?thesis by (simp add: made_by_def)
  qed
  then have fin: "finite ?K" by (meson bounded_nat_set_is_finite)
  obtain t xs where "t_stack s t = SendWait (Max ?K) # xs" using Max_in [OF fin ne] by blast
  then obtain j where "j \<in> ?K" "Max ?K < j" using stuck_calls [OF assms(1,2) _ assms(3)] by blast
  then show False using Max_ge [OF fin] by (meson not_le)
qed

text \<open>Property C15: calls between threads end. From threads that run their message loops, with any messages and any scripts of handlers, every
  interleaving takes at most \<open>weight\<close> steps, and where it cannot go on either every thread is idle with nothing left to do, or has ended, or a call
  waits for a thread that has quit.\<close>

theorem sends_complete:
  assumes "\<forall>t. list_all (msg_ok n) (q t)" and "steps (threads_start n q) i s"
  shows "i \<le> weight n (threads_start n q) \<and>
    (stuck s \<longrightarrow> (\<exists>u<n. t_stack s u = [] \<and> t_fStop s u \<and> t_sendlist s u \<noteq> []) \<or>
       (\<forall>t<n. t_sendlist s t = [] \<and> (if t_fStop s t then t_stack s t = [] else t_stack s t = [GetWait] \<and> t_msgq s t = [])))"
proof -
  have inv: "threads_inv n s" and w: "weight n s + i \<le> weight n (threads_start n q)"
    using steps_inv [OF assms(2) threads_inv_start [OF assms(1)]] by blast+
  have "(\<exists>u<n. t_stack s u = [] \<and> t_fStop s u \<and> t_sendlist s u \<noteq> []) \<or>
       (\<forall>t<n. t_sendlist s t = [] \<and> (if t_fStop s t then t_stack s t = [] else t_stack s t = [GetWait] \<and> t_msgq s t = []))" if st: "stuck s"
  proof (cases "\<exists>u. t_stack s u = [] \<and> t_sendlist s u \<noteq> []")
    case True
    then show ?thesis using inv unfolding threads_inv_def scripts_ok_def shapes_ok_def by blast
  next
    case False
    have "t_sendlist s t = [] \<and> (if t_fStop s t then t_stack s t = [] else t_stack s t = [GetWait] \<and> t_msgq s t = [])" if "t < n" for t
    proof (cases "t_stack s t")
      case Nil
      then show ?thesis using False inv that unfolding threads_inv_def shapes_ok_def by auto
    next
      case (Cons f xs)
      have "f \<noteq> SendWait k" for k using stuck_no_calls [OF inv st] False Cons by blast
      then have f: "f = GetWait" using stuck_top(1) [OF st Cons] by (cases f) auto
      have "shape (f # xs)" using inv Cons unfolding threads_inv_def shapes_ok_def by metis
      then have "xs = []" using f shape_main by simp
      moreover have "t_sendlist s t = []" "\<not> t_fStop s t" "t_msgq s t = []"
        using stuck_top(2) [OF st Cons] Cons f inv unfolding threads_inv_def wakes_ok_def
        by (metis past_sends.simps(4) past_stop.simps(1) past_posts.simps(2))+
      ultimately show ?thesis using Cons f by simp
    qed
    then show ?thesis by blast
  qed
  then show ?thesis using w by simp
qed

subsection \<open>Schedules\<close>

fun run_schedule :: "nat list \<Rightarrow> Threads \<Rightarrow> Threads option" where
  "run_schedule [] s = Some s"
| "run_schedule (t # ts) s = (case thread_step t s of None \<Rightarrow> None | Some s1 \<Rightarrow> run_schedule ts s1)"

lemma run_schedule_steps: "steps s0 i s \<Longrightarrow> run_schedule ts s = Some s' \<Longrightarrow> steps s0 (i + length ts) s'"
proof (induction ts arbitrary: i s)
  case (Cons t ts)
  then show ?case using steps_Suc [of s0 i s t] by (fastforce split: option.splits)
qed simp

lemma stuck_below:
  assumes "threads_inv n s" and "list_all (\<lambda>t. Option.is_none (thread_step t s)) [0..<n]"
  shows "stuck s"
  unfolding stuck_def
proof
  fix t
  show "thread_step t s = None"
  proof (cases "t < n")
    case True
    then show ?thesis using assms(2) by (auto simp: list_all_iff is_none_code(1) Option.is_none_def)
  next
    case False
    then have "t_stack s t = []" using assms(1) unfolding threads_inv_def scripts_ok_def by blast
    then show ?thesis by (simp add: thread_step_def)
  qed
qed

text \<open>Thread 0 calls thread 1, whose handler calls back.\<close>

definition callback_queues :: "nat \<Rightarrow> msg list" where
  "callback_queues = (\<lambda>_. [])(0 := [(7, [A_Send 1 8 [A_Send 0 9 []]])])"

definition callback_schedule :: "nat list" where
  "callback_schedule = replicate 8 0 @ replicate 6 1 @ replicate 8 0 @ replicate 4 1 @ replicate 13 0 @ replicate 8 1"

definition callback_end :: Threads where
  "callback_end = (case run_schedule callback_schedule (threads_start 2 callback_queues) of None \<Rightarrow> threads_start 2 callback_queues | Some s \<Rightarrow> s)"

lemma callback_ok: "\<forall>t. list_all (msg_ok 2) (callback_queues t)"
  by (simp add: callback_queues_def)

lemma callback_run: "steps (threads_start 2 callback_queues) 47 callback_end" "stuck callback_end" "\<not> t_fStop callback_end 0 \<and> \<not> t_fStop callback_end 1"
proof -
  have "\<not> Option.is_none (run_schedule callback_schedule (threads_start 2 callback_queues))" "length callback_schedule = 47" by code_simp+
  then show st: "steps (threads_start 2 callback_queues) 47 callback_end"
    using run_schedule_steps [OF steps_0, of callback_schedule "threads_start 2 callback_queues" callback_end]
    by (auto simp: callback_end_def Option.is_none_def split: option.splits)
  have "list_all (\<lambda>t. Option.is_none (thread_step t callback_end)) [0..<2]" by code_simp
  then show "stuck callback_end" using stuck_below steps_inv [OF st threads_inv_start [OF callback_ok]] by blast
  show "\<not> t_fStop callback_end 0 \<and> \<not> t_fStop callback_end 1" by code_simp
qed

theorem sends_complete_witness:
  "steps (threads_start 2 callback_queues) 47 callback_end \<and> 47 \<le> weight 2 (threads_start 2 callback_queues) \<and> stuck callback_end \<and>
   t_stack callback_end 0 = [GetWait] \<and> t_stack callback_end 1 = [GetWait]"
  using sends_complete [OF callback_ok callback_run(1)] callback_run by (auto simp: less_2_cases_iff)

text \<open>Thread 0 has found that thread 1 does not quit, and calls it after it has quit.\<close>

definition quit_queues :: "nat \<Rightarrow> msg list" where
  "quit_queues = (\<lambda>_. [])(0 := [(7, [A_Send 1 8 []])], 1 := [(9, [A_Quit 1])])"

definition quit_schedule :: "nat list" where
  "quit_schedule = replicate 4 0 @ replicate 10 1 @ replicate 4 0"

definition quit_end :: Threads where
  "quit_end = (case run_schedule quit_schedule (threads_start 2 quit_queues) of None \<Rightarrow> threads_start 2 quit_queues | Some s \<Rightarrow> s)"


text \<open>The flag of a call is set before its thread is woken, so \<open>Send\<close> can return while the other thread has yet to wake it. A caller that is no
  \<open>Thread\<close> waits in an \<open>AutoThread\<close> on its stack, which is gone by then.\<close>

lemma send_returns_before_wakeup:
  "\<exists>s. run_schedule (replicate 6 0 @ replicate 5 1 @ [0]) (threads_start 2 ((\<lambda>_. [])(0 := [(7, [A_Send 1 8 []])]))) = Some s \<and>
     t_stack s 0 = [Handler [], Loop] \<and> t_stack s 1 = [Wake 0, RecvLoop, GetQueue]"
proof -
  let ?r = "run_schedule (replicate 6 0 @ replicate 5 1 @ [0]) (threads_start 2 ((\<lambda>_. [])(0 := [(7, [A_Send 1 8 []])])))"
  have "map_option (\<lambda>s. (t_stack s 0, t_stack s 1)) ?r = Some ([Handler [], Loop], [Wake 0, RecvLoop, GetQueue])" by code_simp
  then show ?thesis by auto
qed

end
