(* ===== verification/ByteOrder.thy ===== *)
theory ByteOrder
  imports Prelude
begin

text \<open>
  \<^verbatim>\<open>talk/base/byteorder.h\<close>: reading and writing big- and little-endian numbers in
  memory, and the host/network conversions built on them. Memory is a byte list, an access
  at \<open>offset\<close> is an access to that position of the list. The in-memory representation of an
  integer on the host is \<open>host_bytes16/32/64\<close>, with the host's endianness as a parameter.
\<close>

subsection \<open>Byte access\<close>

definition Set8 :: "byte list \<Rightarrow> nat \<Rightarrow> uint8 \<Rightarrow> byte list" where
  "Set8 memory offset v = memory[offset := v]"

definition Get8 :: "byte list \<Rightarrow> nat \<Rightarrow> uint8" where
  "Get8 memory offset = memory ! offset"

subsection \<open>Big endian\<close>

definition SetBE16 :: "byte list \<Rightarrow> uint16 \<Rightarrow> byte list" where
  "SetBE16 memory v =
     Set8 (Set8 memory 0 (ucast (drop_bit 8 v))) 1 (ucast (drop_bit 0 v))"

definition SetBE32 :: "byte list \<Rightarrow> uint32 \<Rightarrow> byte list" where
  "SetBE32 memory v =
     Set8 (Set8 (Set8 (Set8 memory 0 (ucast (drop_bit 24 v))) 1 (ucast (drop_bit 16 v)))
       2 (ucast (drop_bit 8 v))) 3 (ucast (drop_bit 0 v))"

definition SetBE64 :: "byte list \<Rightarrow> uint64 \<Rightarrow> byte list" where
  "SetBE64 memory v =
     Set8 (Set8 (Set8 (Set8 (Set8 (Set8 (Set8 (Set8 memory
       0 (ucast (drop_bit 56 v))) 1 (ucast (drop_bit 48 v)))
       2 (ucast (drop_bit 40 v))) 3 (ucast (drop_bit 32 v)))
       4 (ucast (drop_bit 24 v))) 5 (ucast (drop_bit 16 v)))
       6 (ucast (drop_bit 8 v))) 7 (ucast (drop_bit 0 v))"

definition GetBE16 :: "byte list \<Rightarrow> uint16" where
  "GetBE16 memory = (push_bit 8 (ucast (Get8 memory 0))) OR (push_bit 0 (ucast (Get8 memory 1)))"

definition GetBE32 :: "byte list \<Rightarrow> uint32" where
  "GetBE32 memory =
     (push_bit 24 (ucast (Get8 memory 0))) OR (push_bit 16 (ucast (Get8 memory 1))) OR
     (push_bit 8 (ucast (Get8 memory 2))) OR (push_bit 0 (ucast (Get8 memory 3)))"

definition GetBE64 :: "byte list \<Rightarrow> uint64" where
  "GetBE64 memory =
     (push_bit 56 (ucast (Get8 memory 0))) OR (push_bit 48 (ucast (Get8 memory 1))) OR
     (push_bit 40 (ucast (Get8 memory 2))) OR (push_bit 32 (ucast (Get8 memory 3))) OR
     (push_bit 24 (ucast (Get8 memory 4))) OR (push_bit 16 (ucast (Get8 memory 5))) OR
     (push_bit 8 (ucast (Get8 memory 6))) OR (push_bit 0 (ucast (Get8 memory 7)))"

subsection \<open>Little endian\<close>

definition SetLE16 :: "byte list \<Rightarrow> uint16 \<Rightarrow> byte list" where
  "SetLE16 memory v =
     Set8 (Set8 memory 0 (ucast (drop_bit 0 v))) 1 (ucast (drop_bit 8 v))"

definition SetLE32 :: "byte list \<Rightarrow> uint32 \<Rightarrow> byte list" where
  "SetLE32 memory v =
     Set8 (Set8 (Set8 (Set8 memory 0 (ucast (drop_bit 0 v))) 1 (ucast (drop_bit 8 v)))
       2 (ucast (drop_bit 16 v))) 3 (ucast (drop_bit 24 v))"

definition SetLE64 :: "byte list \<Rightarrow> uint64 \<Rightarrow> byte list" where
  "SetLE64 memory v =
     Set8 (Set8 (Set8 (Set8 (Set8 (Set8 (Set8 (Set8 memory
       0 (ucast (drop_bit 0 v))) 1 (ucast (drop_bit 8 v)))
       2 (ucast (drop_bit 16 v))) 3 (ucast (drop_bit 24 v)))
       4 (ucast (drop_bit 32 v))) 5 (ucast (drop_bit 40 v)))
       6 (ucast (drop_bit 48 v))) 7 (ucast (drop_bit 56 v))"

definition GetLE16 :: "byte list \<Rightarrow> uint16" where
  "GetLE16 memory = (push_bit 0 (ucast (Get8 memory 0))) OR (push_bit 8 (ucast (Get8 memory 1)))"

definition GetLE32 :: "byte list \<Rightarrow> uint32" where
  "GetLE32 memory =
     (push_bit 0 (ucast (Get8 memory 0))) OR (push_bit 8 (ucast (Get8 memory 1))) OR
     (push_bit 16 (ucast (Get8 memory 2))) OR (push_bit 24 (ucast (Get8 memory 3)))"

definition GetLE64 :: "byte list \<Rightarrow> uint64" where
  "GetLE64 memory =
     (push_bit 0 (ucast (Get8 memory 0))) OR (push_bit 8 (ucast (Get8 memory 1))) OR
     (push_bit 16 (ucast (Get8 memory 2))) OR (push_bit 24 (ucast (Get8 memory 3))) OR
     (push_bit 32 (ucast (Get8 memory 4))) OR (push_bit 40 (ucast (Get8 memory 5))) OR
     (push_bit 48 (ucast (Get8 memory 6))) OR (push_bit 56 (ucast (Get8 memory 7)))"

subsection \<open>Host representation and conversions\<close>

definition host_bytes16 :: "bool \<Rightarrow> uint16 \<Rightarrow> byte list" where
  "host_bytes16 big v = (if big then SetBE16 (replicate 2 0) v else SetLE16 (replicate 2 0) v)"

definition host_bytes32 :: "bool \<Rightarrow> uint32 \<Rightarrow> byte list" where
  "host_bytes32 big v = (if big then SetBE32 (replicate 4 0) v else SetLE32 (replicate 4 0) v)"

definition host_bytes64 :: "bool \<Rightarrow> uint64 \<Rightarrow> byte list" where
  "host_bytes64 big v = (if big then SetBE64 (replicate 8 0) v else SetLE64 (replicate 8 0) v)"

definition host_value16 :: "bool \<Rightarrow> byte list \<Rightarrow> uint16" where
  "host_value16 big m = (if big then GetBE16 m else GetLE16 m)"

definition host_value32 :: "bool \<Rightarrow> byte list \<Rightarrow> uint32" where
  "host_value32 big m = (if big then GetBE32 m else GetLE32 m)"

definition host_value64 :: "bool \<Rightarrow> byte list \<Rightarrow> uint64" where
  "host_value64 big m = (if big then GetBE64 m else GetLE64 m)"

text \<open>\<open>IsHostBigEndian\<close> looks at the first byte of the integer 1.\<close>

definition IsHostBigEndian :: "bool \<Rightarrow> bool" where
  "IsHostBigEndian big = (Get8 (host_bytes32 big 1) 0 = 0)"

definition HostToNetwork16 :: "bool \<Rightarrow> uint16 \<Rightarrow> uint16" where
  "HostToNetwork16 big n = host_value16 big (SetBE16 (host_bytes16 big 0) n)"

definition HostToNetwork32 :: "bool \<Rightarrow> uint32 \<Rightarrow> uint32" where
  "HostToNetwork32 big n = host_value32 big (SetBE32 (host_bytes32 big 0) n)"

definition HostToNetwork64 :: "bool \<Rightarrow> uint64 \<Rightarrow> uint64" where
  "HostToNetwork64 big n = host_value64 big (SetBE64 (host_bytes64 big 0) n)"

definition NetworkToHost16 :: "bool \<Rightarrow> uint16 \<Rightarrow> uint16" where
  "NetworkToHost16 big n = GetBE16 (host_bytes16 big n)"

definition NetworkToHost32 :: "bool \<Rightarrow> uint32 \<Rightarrow> uint32" where
  "NetworkToHost32 big n = GetBE32 (host_bytes32 big n)"

definition NetworkToHost64 :: "bool \<Rightarrow> uint64 \<Rightarrow> uint64" where
  "NetworkToHost64 big n = GetBE64 (host_bytes64 big n)"

subsection \<open>Shapes\<close>

lemma length_Set8 [simp]: "length (Set8 m i v) = length m"
  by (simp add: Set8_def)

lemma length_set_numbers [simp]:
  "length (SetBE16 m v16) = length m" "length (SetBE32 m v32) = length m"
  "length (SetBE64 m v64) = length m" "length (SetLE16 m v16) = length m"
  "length (SetLE32 m v32) = length m" "length (SetLE64 m v64) = length m"
  by (simp_all add: SetBE16_def SetBE32_def SetBE64_def SetLE16_def SetLE32_def SetLE64_def)

lemma length_host_bytes [simp]:
  "length (host_bytes16 big v16) = 2" "length (host_bytes32 big v32) = 4"
  "length (host_bytes64 big v64) = 8"
  by (simp_all add: host_bytes16_def host_bytes32_def host_bytes64_def)

subsection \<open>Codecs\<close>

text \<open>
  A codec writes a number at the start of a block and reads it back. \<open>enc\<close> is the number's
  byte sequence; writing replaces exactly the first \<open>width\<close> bytes and reading looks at
  nothing else.
\<close>

definition be16 :: "uint16 \<Rightarrow> byte list" where
  "be16 v = [ucast (drop_bit 8 v), ucast v]"

definition be32 :: "uint32 \<Rightarrow> byte list" where
  "be32 v = [ucast (drop_bit 24 v), ucast (drop_bit 16 v), ucast (drop_bit 8 v), ucast v]"

definition be64 :: "uint64 \<Rightarrow> byte list" where
  "be64 v = [ucast (drop_bit 56 v), ucast (drop_bit 48 v), ucast (drop_bit 40 v),
     ucast (drop_bit 32 v), ucast (drop_bit 24 v), ucast (drop_bit 16 v),
     ucast (drop_bit 8 v), ucast v]"

lemma length_be [simp]: "length (be16 v16) = 2" "length (be32 v32) = 4" "length (be64 v64) = 8"
  by (simp_all add: be16_def be32_def be64_def)

lemma ge2_conv: "2 \<le> length m \<Longrightarrow> \<exists>a b r. m = a # b # r"
  by (cases m rule: remdups_adj.cases) auto

lemma ge4_conv: "4 \<le> length m \<Longrightarrow> \<exists>a b c d r. m = a # b # c # d # r"
  using ge2_conv [of m] ge2_conv [of "drop 2 m"] by auto

lemma ge8_conv: "8 \<le> length m \<Longrightarrow> \<exists>a b c d e f g h r. m = a # b # c # d # e # f # g # h # r"
  using ge4_conv [of m] ge4_conv [of "drop 4 m"] by auto

locale number_codec =
  fixes put :: "byte list \<Rightarrow> 'v \<Rightarrow> byte list"
    and get :: "byte list \<Rightarrow> 'v"
    and enc :: "'v \<Rightarrow> byte list"
    and width :: nat
  assumes enc_width: "length (enc v) = width"
    and put_enc: "width \<le> length m \<Longrightarrow> put m v = enc v @ drop width m"
    and enc_inj: "inj enc"
    and enc_get: "width \<le> length m \<Longrightarrow> enc (get m) = take width m"
begin

lemma get_enc: "get (enc v @ rest) = v"
  using enc_get [of "enc v @ rest"] enc_inj by (simp add: enc_width inj_eq)

lemma put_length: "width \<le> length m \<Longrightarrow> length (put m v) = length m"
  by (simp add: put_enc enc_width)

lemma get_put: "width \<le> length m \<Longrightarrow> get (put m v) = v"
  by (simp add: put_enc get_enc)

lemma put_get: "width \<le> length m \<Longrightarrow> put m (get m) = m"
  by (simp add: put_enc enc_get)

lemma put_put: "width \<le> length m \<Longrightarrow> put (put m v) w = put m w"
  by (simp add: put_enc put_length enc_width)

lemma put_inject: "width \<le> length m \<Longrightarrow> put m v = put m w \<longleftrightarrow> v = w"
  by (metis get_put)

lemma get_local: "width \<le> length m \<Longrightarrow> take width m = take width m' \<Longrightarrow> width \<le> length m' \<Longrightarrow> get m = get m'"
  by (metis append_take_drop_id enc_get get_enc)

end

text \<open>Extracting a byte of a word that was assembled from bytes.\<close>

lemma byte_of_or:
  "(ucast (drop_bit m (x OR y)) :: byte) = ucast (drop_bit m x) OR ucast (drop_bit m y)"
  for x y :: "'a::len word"
  by (rule bit_word_eqI) (auto simp: bit_simps)

lemma byte_of_push_same:
  assumes "n + 8 \<le> LENGTH('a::len)"
  shows "ucast (drop_bit n (push_bit n (ucast b :: 'a word))) = (b :: byte)"
  using assms by (intro bit_word_eqI) (auto simp: bit_simps)

lemma byte_of_push_other:
  assumes "n + 8 \<le> m \<or> m + 8 \<le> n"
  shows "ucast (drop_bit m (push_bit n (ucast (b :: byte) :: 'a::len word))) = (0 :: byte)"
  using assms by (intro bit_word_eqI) (auto simp: bit_simps dest: bit_imp_le_length)

lemma byte_of_low_other:
  assumes "8 \<le> m"
  shows "ucast (drop_bit m (ucast (b :: byte) :: 'a::len word)) = (0 :: byte)"
  using byte_of_push_other [of 0 m b] assms by simp

lemma byte_of_low_same:
  assumes "8 \<le> LENGTH('a::len)"
  shows "ucast (ucast b :: 'a word) = (b :: byte)"
  using byte_of_push_same [of 0 b] assms by simp

lemma byte_of_or_low: "(ucast (x OR y) :: byte) = ucast x OR ucast y" for x y :: "'a::len word"
  using byte_of_or [of 0 x y] by simp

lemma byte_of_push_low:
  assumes "8 \<le> n"
  shows "ucast (push_bit n (ucast (b :: byte) :: 'a::len word)) = (0 :: byte)"
  using byte_of_push_other [of n 0 b] assms by simp

lemmas byte_of_simps = byte_of_or byte_of_push_same byte_of_push_other byte_of_low_other
  byte_of_low_same byte_of_or_low byte_of_push_low

text \<open>A word is determined by its bytes.\<close>

lemma word_bytes_eqI:
  fixes v w :: "'a::len word"
  assumes "\<And>k. 8 * k < LENGTH('a) \<Longrightarrow> (ucast (drop_bit (8 * k) v) :: byte) = ucast (drop_bit (8 * k) w)"
  shows "v = w"
proof (rule bit_word_eqI)
  fix n
  assume n: "n < LENGTH('a)"
  let ?k = "n div 8"
  have "(ucast (drop_bit (8 * ?k) v) :: byte) = ucast (drop_bit (8 * ?k) w)"
    using n by (intro assms) simp
  then have "bit (ucast (drop_bit (8 * ?k) v) :: byte) (n mod 8) = bit (ucast (drop_bit (8 * ?k) w) :: byte) (n mod 8)"
    by simp
  then show "bit v n = bit w n"
    by (simp add: bit_simps)
qed

lemma be16_inject:
  assumes "be16 v = be16 w"
  shows "v = w"
proof (rule word_bytes_eqI)
  fix k :: nat
  assume "8 * k < LENGTH(16)"
  then have "k = 0 \<or> k = 1" by (simp, linarith)
  then show "(ucast (drop_bit (8 * k) v) :: byte) = ucast (drop_bit (8 * k) w)"
    using assms by (auto simp: be16_def)
qed

lemma be32_inject:
  assumes "be32 v = be32 w"
  shows "v = w"
proof (rule word_bytes_eqI)
  fix k :: nat
  assume "8 * k < LENGTH(32)"
  then have "k = 0 \<or> k = 1 \<or> k = 2 \<or> k = 3" by (simp, linarith)
  then show "(ucast (drop_bit (8 * k) v) :: byte) = ucast (drop_bit (8 * k) w)"
    using assms by (auto simp: be32_def)
qed

lemma be64_inject:
  assumes "be64 v = be64 w"
  shows "v = w"
proof (rule word_bytes_eqI)
  fix k :: nat
  assume "8 * k < LENGTH(64)"
  then have "k = 0 \<or> k = 1 \<or> k = 2 \<or> k = 3 \<or> k = 4 \<or> k = 5 \<or> k = 6 \<or> k = 7" by (simp, linarith)
  then show "(ucast (drop_bit (8 * k) v) :: byte) = ucast (drop_bit (8 * k) w)"
    using assms by (auto simp: be64_def)
qed

definition le16 :: "uint16 \<Rightarrow> byte list" where
  "le16 v = rev (be16 v)"

definition le32 :: "uint32 \<Rightarrow> byte list" where
  "le32 v = rev (be32 v)"

definition le64 :: "uint64 \<Rightarrow> byte list" where
  "le64 v = rev (be64 v)"

lemma length_le [simp]: "length (le16 v16) = 2" "length (le32 v32) = 4" "length (le64 v64) = 8"
  by (simp_all add: le16_def le32_def le64_def)

lemma le16_inject: "le16 v = le16 w \<Longrightarrow> v = w"
  by (simp add: le16_def be16_inject)

lemma le32_inject: "le32 v = le32 w \<Longrightarrow> v = w"
  by (simp add: le32_def be32_inject)

lemma le64_inject: "le64 v = le64 w \<Longrightarrow> v = w"
  by (simp add: le64_def be64_inject)

lemmas codec_defs = Set8_def Get8_def be16_def be32_def be64_def le16_def le32_def le64_def

interpretation be16c: number_codec SetBE16 GetBE16 be16 2
proof
  show "length (be16 v) = 2" for v by simp
  show "inj be16" by (rule injI) (rule be16_inject)
  show "SetBE16 m v = be16 v @ drop 2 m" if "2 \<le> length m" for m v
    using ge2_conv [OF that] by (auto simp: SetBE16_def codec_defs)
  show "be16 (GetBE16 m) = take 2 m" if "2 \<le> length m" for m
    using ge2_conv [OF that] by (auto simp: GetBE16_def codec_defs byte_of_simps)
qed

interpretation be32c: number_codec SetBE32 GetBE32 be32 4
proof
  show "length (be32 v) = 4" for v by simp
  show "inj be32" by (rule injI) (rule be32_inject)
  show "SetBE32 m v = be32 v @ drop 4 m" if "4 \<le> length m" for m v
    using ge4_conv [OF that] by (auto simp: SetBE32_def codec_defs)
  show "be32 (GetBE32 m) = take 4 m" if "4 \<le> length m" for m
    using ge4_conv [OF that] by (auto simp: GetBE32_def codec_defs byte_of_simps)
qed

interpretation be64c: number_codec SetBE64 GetBE64 be64 8
proof
  show "length (be64 v) = 8" for v by simp
  show "inj be64" by (rule injI) (rule be64_inject)
  show "SetBE64 m v = be64 v @ drop 8 m" if "8 \<le> length m" for m v
    using ge8_conv [OF that] by (auto simp: SetBE64_def codec_defs)
  show "be64 (GetBE64 m) = take 8 m" if "8 \<le> length m" for m
    using ge8_conv [OF that] by (auto simp: GetBE64_def codec_defs byte_of_simps)
qed

interpretation le16c: number_codec SetLE16 GetLE16 le16 2
proof
  show "length (le16 v) = 2" for v by simp
  show "inj le16" by (rule injI) (rule le16_inject)
  show "SetLE16 m v = le16 v @ drop 2 m" if "2 \<le> length m" for m v
    using ge2_conv [OF that] by (auto simp: SetLE16_def codec_defs)
  show "le16 (GetLE16 m) = take 2 m" if "2 \<le> length m" for m
    using ge2_conv [OF that] by (auto simp: GetLE16_def codec_defs byte_of_simps)
qed

interpretation le32c: number_codec SetLE32 GetLE32 le32 4
proof
  show "length (le32 v) = 4" for v by simp
  show "inj le32" by (rule injI) (rule le32_inject)
  show "SetLE32 m v = le32 v @ drop 4 m" if "4 \<le> length m" for m v
    using ge4_conv [OF that] by (auto simp: SetLE32_def codec_defs)
  show "le32 (GetLE32 m) = take 4 m" if "4 \<le> length m" for m
    using ge4_conv [OF that] by (auto simp: GetLE32_def codec_defs byte_of_simps)
qed

interpretation le64c: number_codec SetLE64 GetLE64 le64 8
proof
  show "length (le64 v) = 8" for v by simp
  show "inj le64" by (rule injI) (rule le64_inject)
  show "SetLE64 m v = le64 v @ drop 8 m" if "8 \<le> length m" for m v
    using ge8_conv [OF that] by (auto simp: SetLE64_def codec_defs)
  show "le64 (GetLE64 m) = take 8 m" if "8 \<le> length m" for m
    using ge8_conv [OF that] by (auto simp: GetLE64_def codec_defs byte_of_simps)
qed

subsection \<open>The host's representation\<close>

lemma host_bytes_enc:
  "host_bytes16 big v16 = (if big then be16 v16 else le16 v16)"
  "host_bytes32 big v32 = (if big then be32 v32 else le32 v32)"
  "host_bytes64 big v64 = (if big then be64 v64 else le64 v64)"
  by (simp_all add: host_bytes16_def host_bytes32_def host_bytes64_def be16c.put_enc
      be32c.put_enc be64c.put_enc le16c.put_enc le32c.put_enc le64c.put_enc)

lemma host_value_bytes [simp]:
  "host_value16 big (host_bytes16 big v16) = v16"
  "host_value32 big (host_bytes32 big v32) = v32"
  "host_value64 big (host_bytes64 big v64) = v64"
  using be16c.get_enc [of v16 "[]"] le16c.get_enc [of v16 "[]"] be32c.get_enc [of v32 "[]"]
    le32c.get_enc [of v32 "[]"] be64c.get_enc [of v64 "[]"] le64c.get_enc [of v64 "[]"]
  by (simp_all add: host_bytes_enc host_value16_def host_value32_def host_value64_def)

lemma host_bytes_value:
  "length m2 = 2 \<Longrightarrow> host_bytes16 big (host_value16 big m2) = m2"
  "length m4 = 4 \<Longrightarrow> host_bytes32 big (host_value32 big m4) = m4"
  "length m8 = 8 \<Longrightarrow> host_bytes64 big (host_value64 big m8) = m8"
  by (simp_all add: host_bytes_enc host_value16_def host_value32_def host_value64_def
      be16c.enc_get be32c.enc_get be64c.enc_get le16c.enc_get le32c.enc_get le64c.enc_get)

lemma IsHostBigEndian_iff [simp]: "IsHostBigEndian big = big"
  by (simp add: IsHostBigEndian_def host_bytes_enc be32_def le32_def Get8_def)

lemma HostToNetwork_bytes [simp]:
  "host_bytes16 big (HostToNetwork16 big v16) = be16 v16"
  "host_bytes32 big (HostToNetwork32 big v32) = be32 v32"
  "host_bytes64 big (HostToNetwork64 big v64) = be64 v64"
  by (simp_all add: HostToNetwork16_def HostToNetwork32_def HostToNetwork64_def host_bytes_value
      be16c.put_enc be32c.put_enc be64c.put_enc)

lemma NetworkToHost_value:
  "length m2 = 2 \<Longrightarrow> NetworkToHost16 big (host_value16 big m2) = GetBE16 m2"
  "length m4 = 4 \<Longrightarrow> NetworkToHost32 big (host_value32 big m4) = GetBE32 m4"
  "length m8 = 8 \<Longrightarrow> NetworkToHost64 big (host_value64 big m8) = GetBE64 m8"
  by (simp_all add: NetworkToHost16_def NetworkToHost32_def NetworkToHost64_def host_bytes_value)

lemma GetBE_be [simp]: "GetBE16 (be16 v16) = v16" "GetBE32 (be32 v32) = v32" "GetBE64 (be64 v64) = v64"
  using be16c.get_enc [of v16 "[]"] be32c.get_enc [of v32 "[]"] be64c.get_enc [of v64 "[]"]
  by simp_all

subsection \<open>Properties\<close>

lemma NetworkToHost_HostToNetwork:
  "NetworkToHost16 big (HostToNetwork16 big v16) = v16"
  "NetworkToHost32 big (HostToNetwork32 big v32) = v32"
  "NetworkToHost64 big (HostToNetwork64 big v64) = v64"
  by (simp_all add: NetworkToHost16_def NetworkToHost32_def NetworkToHost64_def)

text \<open>Every number stored in either byte order is read back by the matching read,
  the most significant byte comes first in the big-endian forms and last in the little-endian
  ones, and converting to network order and back is the identity on a host of either
  endianness.
\<close>

theorem numbers_read_back:
  assumes "8 \<le> length m"
  shows "GetBE16 (SetBE16 m v16) = v16 \<and> GetBE32 (SetBE32 m v32) = v32 \<and> GetBE64 (SetBE64 m v64) = v64 \<and>
    GetLE16 (SetLE16 m v16) = v16 \<and> GetLE32 (SetLE32 m v32) = v32 \<and> GetLE64 (SetLE64 m v64) = v64 \<and>
    SetBE32 m v32 = be32 v32 @ drop 4 m \<and> SetLE32 m v32 = rev (be32 v32) @ drop 4 m \<and>
    NetworkToHost16 big (HostToNetwork16 big v16) = v16 \<and>
    NetworkToHost32 big (HostToNetwork32 big v32) = v32 \<and>
    NetworkToHost64 big (HostToNetwork64 big v64) = v64"
  using assms
  by (simp add: be16c.get_put be32c.get_put be64c.get_put le16c.get_put le32c.get_put le64c.get_put
      NetworkToHost_HostToNetwork)
    (simp add: be32c.put_enc le32c.put_enc le32_def)

theorem numbers_read_back_witness:
  "GetBE32 (SetBE32 [0, 1, 2, 3, 4, 5, 6, 7] 0x01020304) = 0x01020304 \<and>
   GetLE64 (SetLE64 [0, 1, 2, 3, 4, 5, 6, 7] 9) = 9"
  using numbers_read_back [of "[0, 1, 2, 3, 4, 5, 6, 7]" 0 "0x01020304" 9 True] by auto

end
