(* ===== verification/ByteBuffer.thy ===== *)
theory ByteBuffer
  imports ByteOrder
begin

text \<open>
  \<^verbatim>\<open>talk/base/bytebuffer.cc\<close>: a growable buffer that is written at its end and read from
  its start. The members \<open>bytes_\<close>, \<open>size_\<close>, \<open>start_\<close>, \<open>end_\<close>, \<open>version_\<close> and
  \<open>byte_order_\<close> are the fields of the record. Reads and writes of the out-parameters become
  results; the test for a null out-parameter is left to the caller's types.
  \<open>g\<close> is the unspecified content of freshly allocated memory and \<open>big\<close> the host's
  endianness.
\<close>

datatype ByteOrder = ORDER_NETWORK | ORDER_HOST

record ByteBuffer =
  bb_bytes :: "byte list"
  bb_size :: nat
  bb_start :: nat
  bb_end :: nat
  bb_version :: int
  bb_byte_order :: ByteOrder

definition BB_DEFAULT_SIZE :: nat where
  "BB_DEFAULT_SIZE = 4096"

definition Construct :: "(nat \<Rightarrow> byte) \<Rightarrow> byte list option \<Rightarrow> nat \<Rightarrow> ByteOrder \<Rightarrow> ByteBuffer" where
  "Construct g bytes len byte_order =
     (let mem = new_char g len in
      case bytes of
        Some bs \<Rightarrow> \<lparr>bb_bytes = blit mem 0 (take len bs), bb_size = len, bb_start = 0, bb_end = len,
                     bb_version = 0, bb_byte_order = byte_order\<rparr>
      | None \<Rightarrow> \<lparr>bb_bytes = mem, bb_size = len, bb_start = 0, bb_end = 0,
                  bb_version = 0, bb_byte_order = byte_order\<rparr>)"

definition new_ByteBuffer :: "(nat \<Rightarrow> byte) \<Rightarrow> ByteOrder \<Rightarrow> ByteBuffer" where
  "new_ByteBuffer g byte_order = Construct g None BB_DEFAULT_SIZE byte_order"

definition ByteBuffer_of :: "(nat \<Rightarrow> byte) \<Rightarrow> byte list \<Rightarrow> nat \<Rightarrow> ByteBuffer" where
  "ByteBuffer_of g bytes len = Construct g (Some bytes) len ORDER_NETWORK"

definition BB_Data :: "ByteBuffer \<Rightarrow> byte list" where
  "BB_Data b = drop (bb_start b) (bb_bytes b)"

definition BB_Length :: "ByteBuffer \<Rightarrow> nat" where
  "BB_Length b = bb_end b - bb_start b"

definition BB_Capacity :: "ByteBuffer \<Rightarrow> nat" where
  "BB_Capacity b = bb_size b - bb_start b"

subsection \<open>Reading\<close>

definition ReadBytes :: "ByteBuffer \<Rightarrow> nat \<Rightarrow> (byte list \<times> ByteBuffer) option" where
  "ReadBytes b len =
     (if len > BB_Length b then None
      else Some (take len (drop (bb_start b) (bb_bytes b)), b\<lparr>bb_start := bb_start b + len\<rparr>))"

definition ReadUInt8 :: "ByteBuffer \<Rightarrow> (uint8 \<times> ByteBuffer) option" where
  "ReadUInt8 b = map_option (\<lambda>(m, b'). (m ! 0, b')) (ReadBytes b 1)"

definition ReadUInt16 :: "bool \<Rightarrow> ByteBuffer \<Rightarrow> (uint16 \<times> ByteBuffer) option" where
  "ReadUInt16 big b =
     (case ReadBytes b 2 of None \<Rightarrow> None
      | Some (m, b') \<Rightarrow>
          let v = host_value16 big m in
          Some (if bb_byte_order b = ORDER_NETWORK then NetworkToHost16 big v else v, b'))"

definition ReadUInt24 :: "bool \<Rightarrow> ByteBuffer \<Rightarrow> (uint32 \<times> ByteBuffer) option" where
  "ReadUInt24 big b =
     (let read_into = (if bb_byte_order b = ORDER_NETWORK \<or> IsHostBigEndian big then 1 else 0) in
      case ReadBytes b 3 of None \<Rightarrow> None
      | Some (m, b') \<Rightarrow>
          let v = host_value32 big (blit (host_bytes32 big 0) read_into m) in
          Some (if bb_byte_order b = ORDER_NETWORK then NetworkToHost32 big v else v, b'))"

definition ReadUInt32 :: "bool \<Rightarrow> ByteBuffer \<Rightarrow> (uint32 \<times> ByteBuffer) option" where
  "ReadUInt32 big b =
     (case ReadBytes b 4 of None \<Rightarrow> None
      | Some (m, b') \<Rightarrow>
          let v = host_value32 big m in
          Some (if bb_byte_order b = ORDER_NETWORK then NetworkToHost32 big v else v, b'))"

definition ReadUInt64 :: "bool \<Rightarrow> ByteBuffer \<Rightarrow> (uint64 \<times> ByteBuffer) option" where
  "ReadUInt64 big b =
     (case ReadBytes b 8 of None \<Rightarrow> None
      | Some (m, b') \<Rightarrow>
          let v = host_value64 big m in
          Some (if bb_byte_order b = ORDER_NETWORK then NetworkToHost64 big v else v, b'))"

text \<open>\<open>ReadString\<close> appends the bytes it reads to the string it is given.\<close>

definition ReadString :: "ByteBuffer \<Rightarrow> byte list \<Rightarrow> nat \<Rightarrow> (byte list \<times> ByteBuffer) option" where
  "ReadString b val len =
     (if len > BB_Length b then None
      else Some (val @ take len (drop (bb_start b) (bb_bytes b)),
                 b\<lparr>bb_start := bb_start b + len\<rparr>))"

subsection \<open>Writing\<close>

definition Resize :: "(nat \<Rightarrow> byte) \<Rightarrow> ByteBuffer \<Rightarrow> nat \<Rightarrow> ByteBuffer" where
  "Resize g b sz =
     (let len = min (bb_end b - bb_start b) sz;
          src = take len (drop (bb_start b) (bb_bytes b));
          b1 = (if sz \<le> bb_size b then b\<lparr>bb_bytes := blit (bb_bytes b) 0 src\<rparr>
                else let n = max sz (3 * bb_size b div 2) in
                     b\<lparr>bb_size := n, bb_bytes := blit (new_char g n) 0 src\<rparr>)
      in b1\<lparr>bb_start := 0, bb_end := len, bb_version := bb_version b + 1\<rparr>)"

text \<open>\<open>ReserveWriteBuffer\<close> returns the offset of the reserved block.\<close>

definition ReserveWriteBuffer :: "(nat \<Rightarrow> byte) \<Rightarrow> ByteBuffer \<Rightarrow> nat \<Rightarrow> nat \<times> ByteBuffer" where
  "ReserveWriteBuffer g b len =
     (let b1 = (if BB_Length b + len > BB_Capacity b then Resize g b (BB_Length b + len) else b)
      in (bb_end b1, b1\<lparr>bb_end := bb_end b1 + len\<rparr>))"

definition WriteBytes :: "(nat \<Rightarrow> byte) \<Rightarrow> ByteBuffer \<Rightarrow> byte list \<Rightarrow> ByteBuffer" where
  "WriteBytes g b val =
     (case ReserveWriteBuffer g b (length val) of
        (pos, b1) \<Rightarrow> b1\<lparr>bb_bytes := blit (bb_bytes b1) pos val\<rparr>)"

definition WriteUInt8 :: "(nat \<Rightarrow> byte) \<Rightarrow> ByteBuffer \<Rightarrow> uint8 \<Rightarrow> ByteBuffer" where
  "WriteUInt8 g b val = WriteBytes g b [val]"

definition WriteUInt16 :: "bool \<Rightarrow> (nat \<Rightarrow> byte) \<Rightarrow> ByteBuffer \<Rightarrow> uint16 \<Rightarrow> ByteBuffer" where
  "WriteUInt16 big g b val =
     (let v = (if bb_byte_order b = ORDER_NETWORK then HostToNetwork16 big val else val)
      in WriteBytes g b (host_bytes16 big v))"

definition WriteUInt24 :: "bool \<Rightarrow> (nat \<Rightarrow> byte) \<Rightarrow> ByteBuffer \<Rightarrow> uint32 \<Rightarrow> ByteBuffer" where
  "WriteUInt24 big g b val =
     (let v = (if bb_byte_order b = ORDER_NETWORK then HostToNetwork32 big val else val);
          start = (if bb_byte_order b = ORDER_NETWORK \<or> IsHostBigEndian big then 1 else 0)
      in WriteBytes g b (take 3 (drop start (host_bytes32 big v))))"

definition WriteUInt32 :: "bool \<Rightarrow> (nat \<Rightarrow> byte) \<Rightarrow> ByteBuffer \<Rightarrow> uint32 \<Rightarrow> ByteBuffer" where
  "WriteUInt32 big g b val =
     (let v = (if bb_byte_order b = ORDER_NETWORK then HostToNetwork32 big val else val)
      in WriteBytes g b (host_bytes32 big v))"

definition WriteUInt64 :: "bool \<Rightarrow> (nat \<Rightarrow> byte) \<Rightarrow> ByteBuffer \<Rightarrow> uint64 \<Rightarrow> ByteBuffer" where
  "WriteUInt64 big g b val =
     (let v = (if bb_byte_order b = ORDER_NETWORK then HostToNetwork64 big val else val)
      in WriteBytes g b (host_bytes64 big v))"

definition WriteString :: "(nat \<Rightarrow> byte) \<Rightarrow> ByteBuffer \<Rightarrow> byte list \<Rightarrow> ByteBuffer" where
  "WriteString g b val = WriteBytes g b val"

subsection \<open>Positions\<close>

definition Consume :: "ByteBuffer \<Rightarrow> nat \<Rightarrow> bool \<times> ByteBuffer" where
  "Consume b sz =
     (if sz > BB_Length b then (False, b)
      else (True, b\<lparr>bb_start := bb_start b + sz\<rparr>))"

record ReadPosition =
  rp_start :: nat
  rp_version :: int

definition GetReadPosition :: "ByteBuffer \<Rightarrow> ReadPosition" where
  "GetReadPosition b = \<lparr>rp_start = bb_start b, rp_version = bb_version b\<rparr>"

definition SetReadPosition :: "ByteBuffer \<Rightarrow> ReadPosition \<Rightarrow> bool \<times> ByteBuffer" where
  "SetReadPosition b position =
     (if rp_version position \<noteq> bb_version b then (False, b)
      else (True, b\<lparr>bb_start := rp_start position\<rparr>))"

definition Clear :: "ByteBuffer \<Rightarrow> ByteBuffer" where
  "Clear b = b\<lparr>bb_bytes := replicate (bb_size b) 0, bb_start := 0, bb_end := 0,
               bb_version := bb_version b + 1\<rparr>"

subsection \<open>Invariant and abstraction\<close>

text \<open>The unread bytes are the window from \<open>start_\<close> to \<open>end_\<close>.\<close>

definition bb_inv :: "ByteBuffer \<Rightarrow> bool" where
  "bb_inv b \<longleftrightarrow> bb_start b \<le> bb_end b \<and> bb_end b \<le> bb_size b \<and> length (bb_bytes b) = bb_size b"

definition bb_unread :: "ByteBuffer \<Rightarrow> byte list" where
  "bb_unread b = take (BB_Length b) (BB_Data b)"

lemma length_bb_unread: "bb_inv b \<Longrightarrow> length (bb_unread b) = BB_Length b"
  by (auto simp: bb_inv_def bb_unread_def BB_Length_def BB_Data_def)

lemma bb_unread_start:
  assumes "bb_inv b" and "n \<le> BB_Length b"
  shows "bb_unread (b\<lparr>bb_start := bb_start b + n\<rparr>) = drop n (bb_unread b)"
  using assms by (simp add: bb_unread_def BB_Length_def BB_Data_def drop_take add.commute)

lemma bb_inv_start [inv_intros]:
  "bb_inv b \<Longrightarrow> n \<le> BB_Length b \<Longrightarrow> bb_inv (b\<lparr>bb_start := bb_start b + n\<rparr>)"
  by (auto simp: bb_inv_def BB_Length_def)

lemma ReadBytes_spec:
  assumes "bb_inv b"
  shows "ReadBytes b n =
    (if n \<le> length (bb_unread b)
     then Some (take n (bb_unread b), b\<lparr>bb_start := bb_start b + n\<rparr>) else None)"
  using assms by (simp add: ReadBytes_def length_bb_unread)
    (simp add: bb_unread_def BB_Data_def)

lemma ReadBytes_correct:
  assumes "bb_inv b" and "ReadBytes b n = Some (m, b')"
  shows "bb_unread b = m @ bb_unread b'" and "length m = n" and "bb_inv b'"
    and "bb_byte_order b' = bb_byte_order b" and "bb_version b' = bb_version b"
    and "bb_bytes b' = bb_bytes b" and "bb_end b' = bb_end b"
proof -
  from assms have n: "n \<le> BB_Length b" and m: "m = take n (bb_unread b)"
    and b': "b' = b\<lparr>bb_start := bb_start b + n\<rparr>"
    by (auto simp: ReadBytes_spec length_bb_unread split: if_splits)
  show "bb_unread b = m @ bb_unread b'"
    unfolding m b' by (simp add: bb_unread_start [OF assms(1) n])
  show "length m = n" using n by (simp add: m length_bb_unread [OF assms(1)])
  show "bb_inv b'" unfolding b' by (rule bb_inv_start [OF assms(1) n])
qed (use assms in \<open>auto simp: ReadBytes_def split: if_splits\<close>)

lemma Resize_spec:
  assumes "bb_inv b" and "BB_Length b \<le> n"
  shows "bb_inv (Resize g b n)" and "bb_unread (Resize g b n) = bb_unread b"
    and "bb_start (Resize g b n) = 0" and "n \<le> bb_size (Resize g b n)"
    and "bb_byte_order (Resize g b n) = bb_byte_order b"
    and "bb_end (Resize g b n) = BB_Length b"
  using assms
  by (auto simp: Resize_def Let_def bb_inv_def bb_unread_def BB_Length_def BB_Data_def blit_def
      min_def)

lemma ReserveWriteBuffer_spec:
  assumes "bb_inv b" and "ReserveWriteBuffer g b n = (pos, b')"
  obtains b1 where "bb_inv b1" and "bb_unread b1 = bb_unread b" and "bb_end b1 = pos"
    and "pos + n \<le> bb_size b1" and "b' = b1\<lparr>bb_end := pos + n\<rparr>"
    and "bb_byte_order b1 = bb_byte_order b"
proof -
  let ?b1 = "if BB_Length b + n > BB_Capacity b then Resize g b (BB_Length b + n) else b"
  have len: "BB_Length b \<le> BB_Length b + n" by simp
  note R = Resize_spec [OF assms(1) len, of g]
  have inv1: "bb_inv ?b1" and "bb_unread ?b1 = bb_unread b"
    and "bb_byte_order ?b1 = bb_byte_order b"
    using assms(1) R by auto
  moreover have "bb_end ?b1 + n \<le> bb_size ?b1"
  proof (cases "BB_Length b + n > BB_Capacity b")
    case True
    with R show ?thesis by simp
  next
    case False
    with assms(1) show ?thesis by (simp add: BB_Capacity_def BB_Length_def bb_inv_def) linarith
  qed
  moreover have "bb_end ?b1 = pos" "b' = ?b1\<lparr>bb_end := pos + n\<rparr>"
    using assms(2) by (auto simp: ReserveWriteBuffer_def Let_def)
  ultimately show ?thesis using that by blast
qed

lemma append_at_end:
  assumes "bb_inv b" and "bb_end b + length xs \<le> bb_size b"
  shows "bb_inv (b\<lparr>bb_end := bb_end b + length xs, bb_bytes := blit (bb_bytes b) (bb_end b) xs\<rparr>)"
    and "bb_unread (b\<lparr>bb_end := bb_end b + length xs, bb_bytes := blit (bb_bytes b) (bb_end b) xs\<rparr>) =
      bb_unread b @ xs"
  using assms
  by (auto simp: bb_inv_def bb_unread_def BB_Length_def BB_Data_def blit_def Nat.add_diff_assoc2
      drop_take)

lemma WriteBytes_correct:
  assumes "bb_inv b"
  shows "bb_unread (WriteBytes g b xs) = bb_unread b @ xs" and "bb_inv (WriteBytes g b xs)"
    and "bb_byte_order (WriteBytes g b xs) = bb_byte_order b"
proof -
  obtain pos b' where r: "ReserveWriteBuffer g b (length xs) = (pos, b')" by fastforce
  obtain b1 where b1: "bb_inv b1" "bb_unread b1 = bb_unread b" "bb_end b1 = pos"
      "pos + length xs \<le> bb_size b1" "b' = b1\<lparr>bb_end := pos + length xs\<rparr>"
      "bb_byte_order b1 = bb_byte_order b"
    by (rule ReserveWriteBuffer_spec [OF assms r])
  have w: "WriteBytes g b xs =
      b1\<lparr>bb_end := bb_end b1 + length xs, bb_bytes := blit (bb_bytes b1) (bb_end b1) xs\<rparr>"
    using r b1 by (simp add: WriteBytes_def)
  have fits: "bb_end b1 + length xs \<le> bb_size b1" using b1 by simp
  show "bb_unread (WriteBytes g b xs) = bb_unread b @ xs" "bb_inv (WriteBytes g b xs)"
    "bb_byte_order (WriteBytes g b xs) = bb_byte_order b"
    using append_at_end [OF b1(1) fits] b1 by (simp_all add: w)
qed

subsection \<open>The byte-queue interface\<close>

text \<open>
  What a client of the buffer relies on: writing appends, reading takes from the front or
  reports that there are too few bytes, and both keep the invariant.
\<close>

locale byte_queue =
  fixes content :: "'q \<Rightarrow> byte list"
    and good :: "'q \<Rightarrow> bool"
    and put :: "'q \<Rightarrow> byte list \<Rightarrow> 'q"
    and get :: "'q \<Rightarrow> nat \<Rightarrow> (byte list \<times> 'q) option"
  assumes put_content: "good q \<Longrightarrow> content (put q xs) = content q @ xs"
    and put_good: "good q \<Longrightarrow> good (put q xs)"
    and get_None: "good q \<Longrightarrow> get q n = None \<longleftrightarrow> length (content q) < n"
    and get_Some: "good q \<Longrightarrow> get q n = Some (xs, q') \<Longrightarrow> content q = xs @ content q' \<and> length xs = n \<and> good q'"
begin

lemma get_available:
  assumes "good q" and "content q = xs @ ys"
  obtains q' where "get q (length xs) = Some (xs, q')" and "content q' = ys" and "good q'"
proof (cases "get q (length xs)")
  case None
  with assms show ?thesis by (simp add: get_None)
next
  case (Some r)
  obtain m q' where r: "r = (m, q')" by (cases r)
  with Some assms have "xs @ ys = m @ content q'" "length m = length xs" "good q'"
    using get_Some [of q "length xs" m q'] by auto
  then show ?thesis using that Some r by auto
qed

lemma put_list_content: "good q \<Longrightarrow> content (foldl put q xss) = content q @ concat xss \<and> good (foldl put q xss)"
  by (induction xss arbitrary: q) (simp_all add: put_content put_good)

lemma put_then_get:
  assumes "good q" and "content q = []"
  obtains q' where "get (put q xs) (length xs) = Some (xs, q')" and "content q' = []" and "good q'"
  using get_available [of "put q xs" xs "[]"] assms by (auto simp: put_content put_good)

end

interpretation bbq: byte_queue bb_unread bb_inv "WriteBytes g" ReadBytes for g
proof
  show "bb_unread (WriteBytes g q xs) = bb_unread q @ xs" if "bb_inv q" for q xs
    using that by (rule WriteBytes_correct)
  show "bb_inv (WriteBytes g q xs)" if "bb_inv q" for q xs
    using that by (rule WriteBytes_correct)
  show "ReadBytes q n = None \<longleftrightarrow> length (bb_unread q) < n" if "bb_inv q" for q n
    using that by (simp add: ReadBytes_spec not_le)
  show "bb_unread q = xs @ bb_unread q' \<and> length xs = n \<and> bb_inv q'"
    if "bb_inv q" "ReadBytes q n = Some (xs, q')" for q n xs q'
    using ReadBytes_correct [OF that] by blast
qed

subsection \<open>Typed values\<close>

lemma bb_inv_Construct [inv_intros]:
  "bb_inv (Construct g None n ord)"
  "n \<le> length bs \<Longrightarrow> bb_inv (Construct g (Some bs) n ord)"
  by (simp_all add: Construct_def bb_inv_def)

lemma bb_unread_Construct [simp]:
  "bb_unread (Construct g None n ord) = []"
  "n \<le> length bs \<Longrightarrow> bb_unread (Construct g (Some bs) n ord) = take n bs"
  by (simp_all add: Construct_def bb_unread_def BB_Length_def BB_Data_def blit_def)

text \<open>The bytes each typed write appends.\<close>

definition enc16 :: "bool \<Rightarrow> ByteOrder \<Rightarrow> uint16 \<Rightarrow> byte list" where
  "enc16 big ord v = (if ord = ORDER_NETWORK then be16 v else host_bytes16 big v)"

definition enc24 :: "bool \<Rightarrow> ByteOrder \<Rightarrow> uint32 \<Rightarrow> byte list" where
  "enc24 big ord v = (if ord = ORDER_NETWORK \<or> big then drop 1 (be32 v) else take 3 (le32 v))"

definition enc32 :: "bool \<Rightarrow> ByteOrder \<Rightarrow> uint32 \<Rightarrow> byte list" where
  "enc32 big ord v = (if ord = ORDER_NETWORK then be32 v else host_bytes32 big v)"

definition enc64 :: "bool \<Rightarrow> ByteOrder \<Rightarrow> uint64 \<Rightarrow> byte list" where
  "enc64 big ord v = (if ord = ORDER_NETWORK then be64 v else host_bytes64 big v)"

lemma length_enc [simp]:
  "length (enc16 big ord v16) = 2" "length (enc24 big ord v32) = 3"
  "length (enc32 big ord v32) = 4" "length (enc64 big ord v64) = 8"
  by (simp_all add: enc16_def enc24_def enc32_def enc64_def)

lemma typed_writes:
  "WriteUInt16 big g b v16 = WriteBytes g b (enc16 big (bb_byte_order b) v16)"
  "WriteUInt24 big g b v32 = WriteBytes g b (enc24 big (bb_byte_order b) v32)"
  "WriteUInt32 big g b v32 = WriteBytes g b (enc32 big (bb_byte_order b) v32)"
  "WriteUInt64 big g b v64 = WriteBytes g b (enc64 big (bb_byte_order b) v64)"
  by (simp_all add: WriteUInt16_def WriteUInt24_def WriteUInt32_def WriteUInt64_def Let_def
      enc16_def enc24_def enc32_def enc64_def host_bytes_enc(2) [of big v32])
    (auto simp: host_bytes_enc)

lemma dec24_enc24:
  assumes "m = enc24 big ord v"
  shows "(let w = host_value32 big (blit (host_bytes32 big 0) (if ord = ORDER_NETWORK \<or> big then 1 else 0) m)
     in if ord = ORDER_NETWORK then NetworkToHost32 big w else w) = take_bit 24 v"
proof -
  have z: "be32 0 = [0, 0, 0, 0]" "le32 0 = [0, 0, 0, 0]" by (simp_all add: be32_def le32_def)
  have "blit [0, 0, 0, 0] 1 (drop 1 (be32 v)) = be32 (take_bit 24 v)"
    by (auto simp: be32_def blit_def intro!: bit_word_eqI) (auto simp: bit_simps)
  moreover have "blit [0, 0, 0, 0] 0 (take 3 (le32 v)) = le32 (take_bit 24 v)"
    by (auto simp: be32_def le32_def blit_def intro!: bit_word_eqI) (auto simp: bit_simps)
  ultimately show ?thesis
    using le32c.get_enc [of "take_bit 24 v" "[]"]
    by (cases "ord = ORDER_NETWORK")
      (auto simp: assms enc24_def host_bytes_enc z NetworkToHost_value Let_def,
        auto simp: host_value32_def)
qed

lemma ReadBytes_available:
  assumes "bb_inv b" and "bb_unread b = xs @ rest" and "length xs = n"
  shows "\<exists>b'. ReadBytes b n = Some (xs, b') \<and> bb_unread b' = rest \<and> bb_inv b'"
  using bbq.get_available [OF assms(1,2)] assms(3) by metis

lemma typed_reads:
  assumes "bb_inv b"
  shows "bb_unread b = enc16 big (bb_byte_order b) v16 @ rest \<Longrightarrow>
      \<exists>b'. ReadUInt16 big b = Some (v16, b') \<and> bb_unread b' = rest \<and> bb_inv b'"
    and "bb_unread b = enc24 big (bb_byte_order b) v32 @ rest \<Longrightarrow>
      \<exists>b'. ReadUInt24 big b = Some (take_bit 24 v32, b') \<and> bb_unread b' = rest \<and> bb_inv b'"
    and "bb_unread b = enc32 big (bb_byte_order b) v32 @ rest \<Longrightarrow>
      \<exists>b'. ReadUInt32 big b = Some (v32, b') \<and> bb_unread b' = rest \<and> bb_inv b'"
    and "bb_unread b = enc64 big (bb_byte_order b) v64 @ rest \<Longrightarrow>
      \<exists>b'. ReadUInt64 big b = Some (v64, b') \<and> bb_unread b' = rest \<and> bb_inv b'"
proof -
  show "\<exists>b'. ReadUInt16 big b = Some (v16, b') \<and> bb_unread b' = rest \<and> bb_inv b'"
    if "bb_unread b = enc16 big (bb_byte_order b) v16 @ rest"
    using ReadBytes_available [OF assms that length_enc(1)]
    by (auto simp: ReadUInt16_def enc16_def NetworkToHost_value Let_def)
  show "\<exists>b'. ReadUInt24 big b = Some (take_bit 24 v32, b') \<and> bb_unread b' = rest \<and> bb_inv b'"
    if "bb_unread b = enc24 big (bb_byte_order b) v32 @ rest"
    using ReadBytes_available [OF assms that length_enc(2)]
      dec24_enc24 [OF refl, of big "bb_byte_order b" v32]
    by (auto simp: ReadUInt24_def Let_def)
  show "\<exists>b'. ReadUInt32 big b = Some (v32, b') \<and> bb_unread b' = rest \<and> bb_inv b'"
    if "bb_unread b = enc32 big (bb_byte_order b) v32 @ rest"
    using ReadBytes_available [OF assms that length_enc(3)]
    by (auto simp: ReadUInt32_def enc32_def NetworkToHost_value Let_def)
  show "\<exists>b'. ReadUInt64 big b = Some (v64, b') \<and> bb_unread b' = rest \<and> bb_inv b'"
    if "bb_unread b = enc64 big (bb_byte_order b) v64 @ rest"
    using ReadBytes_available [OF assms that length_enc(4)]
    by (auto simp: ReadUInt64_def enc64_def NetworkToHost_value Let_def)
qed

subsection \<open>Sequences of typed values\<close>

text \<open>A message is a sequence of typed values, written one after the other and read back by
  the same sequence of reads. The 24-bit accesses keep the low three bytes.\<close>

datatype item = I8 uint8 | I16 uint16 | I24 uint32 | I32 uint32 | I64 uint64 | IBytes "byte list"

fun item_bytes :: "bool \<Rightarrow> ByteOrder \<Rightarrow> item \<Rightarrow> byte list" where
  "item_bytes big ord (I8 v) = [v]"
| "item_bytes big ord (I16 v) = enc16 big ord v"
| "item_bytes big ord (I24 v) = enc24 big ord v"
| "item_bytes big ord (I32 v) = enc32 big ord v"
| "item_bytes big ord (I64 v) = enc64 big ord v"
| "item_bytes big ord (IBytes bs) = bs"

fun write_item :: "bool \<Rightarrow> (nat \<Rightarrow> byte) \<Rightarrow> ByteBuffer \<Rightarrow> item \<Rightarrow> ByteBuffer" where
  "write_item big g b (I8 v) = WriteUInt8 g b v"
| "write_item big g b (I16 v) = WriteUInt16 big g b v"
| "write_item big g b (I24 v) = WriteUInt24 big g b v"
| "write_item big g b (I32 v) = WriteUInt32 big g b v"
| "write_item big g b (I64 v) = WriteUInt64 big g b v"
| "write_item big g b (IBytes bs) = WriteBytes g b bs"

text \<open>A read of the same shape as the given item.\<close>

fun read_item :: "bool \<Rightarrow> ByteBuffer \<Rightarrow> item \<Rightarrow> (item \<times> ByteBuffer) option" where
  "read_item big b (I8 _) = map_option (apfst I8) (ReadUInt8 b)"
| "read_item big b (I16 _) = map_option (apfst I16) (ReadUInt16 big b)"
| "read_item big b (I24 _) = map_option (apfst I24) (ReadUInt24 big b)"
| "read_item big b (I32 _) = map_option (apfst I32) (ReadUInt32 big b)"
| "read_item big b (I64 _) = map_option (apfst I64) (ReadUInt64 big b)"
| "read_item big b (IBytes bs) = map_option (apfst IBytes) (ReadBytes b (length bs))"

fun read_items :: "bool \<Rightarrow> ByteBuffer \<Rightarrow> item list \<Rightarrow> (item list \<times> ByteBuffer) option" where
  "read_items big b [] = Some ([], b)"
| "read_items big b (x # xs) =
     (case read_item big b x of None \<Rightarrow> None
      | Some (y, b1) \<Rightarrow> map_option (apfst (Cons y)) (read_items big b1 xs))"

fun low24 :: "item \<Rightarrow> item" where
  "low24 (I24 v) = I24 (take_bit 24 v)"
| "low24 x = x"

lemma write_item_bytes: "write_item big g b x = WriteBytes g b (item_bytes big (bb_byte_order b) x)"
  by (cases x) (simp_all add: typed_writes WriteUInt8_def)

lemma write_items_unread:
  "bb_inv b \<Longrightarrow>
   bb_unread (foldl (write_item big g) b xs) =
     bb_unread b @ concat (map (item_bytes big (bb_byte_order b)) xs) \<and>
   bb_inv (foldl (write_item big g) b xs) \<and>
   bb_byte_order (foldl (write_item big g) b xs) = bb_byte_order b"
  by (induction xs arbitrary: b) (simp_all add: write_item_bytes WriteBytes_correct)

lemma ReadUInt8_available:
  assumes "bb_inv b" and "bb_unread b = v # rest"
  shows "\<exists>b'. ReadUInt8 b = Some (v, b') \<and> bb_unread b' = rest \<and> bb_inv b'"
  using ReadBytes_available [OF assms(1), of "[v]" rest 1] assms(2) by (auto simp: ReadUInt8_def)

lemma read_item_bytes:
  assumes "bb_inv b" and "bb_unread b = item_bytes big (bb_byte_order b) x @ rest"
  shows "\<exists>b'. read_item big b x = Some (low24 x, b') \<and> bb_unread b' = rest \<and> bb_inv b'"
  using assms typed_reads [OF assms(1)] ReadUInt8_available [OF assms(1)]
    ReadBytes_available [OF assms(1) _ refl]
  by (cases x) force+

lemma reads_keep_order:
  assumes "bb_inv b" and "read_item big b x = Some (y, b')"
  shows "bb_byte_order b' = bb_byte_order b"
  using assms
  by (cases x) (auto simp: ReadUInt8_def ReadUInt16_def ReadUInt24_def ReadUInt32_def
      ReadUInt64_def Let_def split: option.splits dest: ReadBytes_correct)

lemma read_items_bytes:
  "bb_inv b \<Longrightarrow> bb_unread b = concat (map (item_bytes big (bb_byte_order b)) xs) @ rest \<Longrightarrow>
   \<exists>b'. read_items big b xs = Some (map low24 xs, b') \<and> bb_unread b' = rest \<and> bb_inv b'"
proof (induction xs arbitrary: b)
  case Nil
  then show ?case by simp
next
  case (Cons x xs)
  obtain b1 where b1: "read_item big b x = Some (low24 x, b1)" "bb_inv b1"
      "bb_unread b1 = concat (map (item_bytes big (bb_byte_order b)) xs) @ rest"
    using read_item_bytes [OF Cons.prems(1), of big x] Cons.prems(2) by auto
  with reads_keep_order [OF Cons.prems(1) b1(1)] Cons.IH [OF b1(2)] show ?case by auto
qed

subsection \<open>Properties\<close>

text \<open>
  Property C36: a sequence of typed values written to an empty buffer is read back by the
  same sequence of reads, in either byte order and on a host of either endianness, whatever
  reallocations the writes cause; afterwards the buffer is empty. Only a 24-bit value loses
  its top byte.
\<close>

theorem typed_values_roundtrip:
  "\<exists>b'. read_items big (foldl (write_item big g) (new_ByteBuffer g ord) xs) xs = Some (map low24 xs, b') \<and>
     BB_Length b' = 0 \<and> bb_inv b'"
proof -
  have new: "bb_inv (new_ByteBuffer g ord)" "bb_unread (new_ByteBuffer g ord) = []"
    by (simp_all add: new_ByteBuffer_def bb_inv_Construct)
  note W = write_items_unread [OF new(1), of big g xs]
  obtain b' where "read_items big (foldl (write_item big g) (new_ByteBuffer g ord) xs) xs =
      Some (map low24 xs, b')" "bb_unread b' = []" "bb_inv b'"
    using read_items_bytes [of "foldl (write_item big g) (new_ByteBuffer g ord) xs" big xs "[]"] W new(2)
    by auto
  then show ?thesis using length_bb_unread [of b'] by auto
qed

text \<open>A read either fails, exactly when fewer bytes than asked are unread, and then
  changes nothing, or it returns exactly the oldest unread bytes and leaves the others.
\<close>

theorem ReadBytes_fifo:
  assumes "bb_inv b"
  shows "case ReadBytes b n of
      None \<Rightarrow> BB_Length b < n
    | Some (m, b') \<Rightarrow> n \<le> BB_Length b \<and> length m = n \<and> bb_unread b = m @ bb_unread b' \<and> bb_inv b'"
proof (cases "ReadBytes b n")
  case None
  then show ?thesis using bbq.get_None [OF assms, of n] length_bb_unread [OF assms] by simp
next
  case (Some r)
  obtain m b' where r: "r = (m, b')" by (cases r)
  from Some have "\<not> BB_Length b < n" using ReadBytes_def [of b n] by auto
  with Some r ReadBytes_correct [OF assms, of n m b'] show ?thesis by auto
qed

theorem ReadBytes_fifo_witness:
  "case ReadBytes (ByteBuffer_of (\<lambda>_. 0) [1, 2, 3] 3) 2 of
      None \<Rightarrow> BB_Length (ByteBuffer_of (\<lambda>_. 0) [1, 2, 3] 3) < 2
    | Some (m, b') \<Rightarrow> 2 \<le> BB_Length (ByteBuffer_of (\<lambda>_. 0) [1, 2, 3] 3) \<and> length m = 2 \<and>
        bb_unread (ByteBuffer_of (\<lambda>_. 0) [1, 2, 3] 3) = m @ bb_unread b' \<and> bb_inv b'"
  by (rule ReadBytes_fifo) (simp add: ByteBuffer_of_def bb_inv_Construct)

lemma read_item_start:
  assumes "bb_inv b" and "read_item big b x = Some (y, b')"
  shows "\<exists>n. b' = b\<lparr>bb_start := bb_start b + n\<rparr> \<and> bb_inv b'"
proof -
  have "\<exists>n m. ReadBytes b n = Some (m, b')"
    using assms(2)
    by (cases x) (auto simp: ReadUInt8_def ReadUInt16_def ReadUInt24_def ReadUInt32_def ReadUInt64_def
        Let_def split: option.splits)
  then show ?thesis using assms(1) by (auto simp: ReadBytes_spec intro: bb_inv_start split: if_splits)
      (metis bb_inv_start length_bb_unread)
qed

lemma read_items_start:
  "bb_inv b \<Longrightarrow> read_items big b xs = Some (ys, b') \<Longrightarrow> \<exists>n. b' = b\<lparr>bb_start := bb_start b + n\<rparr> \<and> bb_inv b'"
proof (induction xs arbitrary: b ys)
  case Nil
  then show ?case by (auto intro: exI [of _ 0])
next
  case (Cons x xs)
  then obtain y b1 zs where 1: "read_item big b x = Some (y, b1)" "read_items big b1 xs = Some (zs, b')"
    by (auto split: option.splits)
  obtain n where n: "b1 = b\<lparr>bb_start := bb_start b + n\<rparr>" "bb_inv b1"
    using read_item_start [OF Cons.prems(1) 1(1)] by blast
  obtain k where "b' = b1\<lparr>bb_start := bb_start b1 + k\<rparr>" "bb_inv b'"
    using Cons.IH [OF n(2) 1(2)] by blast
  then show ?case by (auto simp: n(1) add.assoc)
qed

text \<open>After any reads, a saved read position brings the buffer back to the state in
  which it was saved, and after an operation that moves or erases the bytes (\<open>Resize\<close>,
  \<open>Clear\<close>) it is refused and the buffer keeps its state.
\<close>

theorem read_position_restores:
  assumes "bb_inv b" and "read_items big b xs = Some (ys, b')"
  shows "SetReadPosition b' (GetReadPosition b) = (True, b) \<and>
    SetReadPosition (Resize g b' n) (GetReadPosition b) = (False, Resize g b' n) \<and>
    SetReadPosition (Clear b') (GetReadPosition b) = (False, Clear b')"
  using read_items_start [OF assms]
  by (auto simp: SetReadPosition_def GetReadPosition_def Resize_def Clear_def Let_def)

theorem read_position_restores_witness:
  "(let b = ByteBuffer_of (\<lambda>_. 0) [1, 2, 3] 3; b' = b\<lparr>bb_start := 2\<rparr> in
    SetReadPosition b' (GetReadPosition b) = (True, b) \<and>
    SetReadPosition (Resize (\<lambda>_. 0) b' 9) (GetReadPosition b) = (False, Resize (\<lambda>_. 0) b' 9) \<and>
    SetReadPosition (Clear b') (GetReadPosition b) = (False, Clear b'))"
  unfolding Let_def
  by (rule read_position_restores [where big = False and xs = "[IBytes [0, 0]]" and ys = "[IBytes [1, 2]]"])
    (simp_all add: ByteBuffer_of_def bb_inv_Construct, simp_all add: Construct_def ReadBytes_def BB_Length_def blit_def)

end
