(* ===== verification/FifoBuffer.thy ===== *)
theory FifoBuffer
  imports Prelude
begin

text \<open>
  \<^verbatim>\<open>talk/base/stream.h\<close> (the stream enumerations) and the class \<open>FifoBuffer\<close> of
  \<^verbatim>\<open>talk/base/stream.cc\<close>: a ring of bytes with a read position and a number of readable
  bytes, and writes and reads at an offset that do not move either. \<open>PostEvent\<close> appends
  to the list of events posted to the owner thread; the critical sections make each
  operation atomic, which is how the operations are modelled.

  The abstraction is the ring seen from the read position: \<open>fb_view\<close> lists its bytes in
  reading order, of which the first \<open>fb_data_length\<close> are readable.
\<close>

subsection \<open>Stream enumerations\<close>

datatype StreamState = SS_CLOSED | SS_OPENING | SS_OPEN

datatype StreamResult = SR_ERROR | SR_SUCCESS | SR_BLOCK | SR_EOS

datatype StreamEvent = SE_OPEN | SE_READ | SE_WRITE | SE_CLOSE

subsection \<open>The buffer\<close>

record FifoBuffer =
  fb_state :: StreamState
  fb_buffer :: "byte list"
  fb_buffer_length :: nat
  fb_data_length :: nat
  fb_read_position :: nat
  fb_posted :: "StreamEvent list"

definition new_FifoBuffer :: "(nat \<Rightarrow> byte) \<Rightarrow> nat \<Rightarrow> FifoBuffer" where
  "new_FifoBuffer g n =
     \<lparr>fb_state = SS_OPEN, fb_buffer = new_char g n, fb_buffer_length = n,
      fb_data_length = 0, fb_read_position = 0, fb_posted = []\<rparr>"

definition GetBuffered :: "FifoBuffer \<Rightarrow> nat" where
  "GetBuffered f = fb_data_length f"

definition SetCapacity :: "(nat \<Rightarrow> byte) \<Rightarrow> FifoBuffer \<Rightarrow> nat \<Rightarrow> bool \<times> FifoBuffer" where
  "SetCapacity g f n =
     (if fb_data_length f > n then (False, f)
      else if n \<noteq> fb_buffer_length f then
        (let buffer = new_char g n;
             copy = fb_data_length f;
             tail_copy = min copy (fb_buffer_length f - fb_read_position f);
             buffer1 = blit buffer 0 (take tail_copy (drop (fb_read_position f) (fb_buffer f)));
             buffer2 = blit buffer1 tail_copy (take (copy - tail_copy) (fb_buffer f))
         in (True, f\<lparr>fb_buffer := buffer2, fb_read_position := 0, fb_buffer_length := n\<rparr>))
      else (True, f))"

text \<open>The bytes copied out are the second result; their number is \<open>*bytes_read\<close>.\<close>

definition ReadOffsetLocked :: "FifoBuffer \<Rightarrow> nat \<Rightarrow> nat \<Rightarrow> StreamResult \<times> byte list" where
  "ReadOffsetLocked f bytes offset =
     (if offset \<ge> fb_data_length f then
        (if fb_state f \<noteq> SS_CLOSED then SR_BLOCK else SR_EOS, [])
      else
        (let available = fb_data_length f - offset;
             read_position = (fb_read_position f + offset) mod fb_buffer_length f;
             copy = min bytes available;
             tail_copy = min copy (fb_buffer_length f - read_position)
         in (SR_SUCCESS,
             take tail_copy (drop read_position (fb_buffer f)) @
             take (copy - tail_copy) (fb_buffer f))))"

text \<open>The second result is \<open>*bytes_written\<close>.\<close>

definition WriteOffsetLocked :: "FifoBuffer \<Rightarrow> byte list \<Rightarrow> nat \<Rightarrow> StreamResult \<times> nat \<times> FifoBuffer" where
  "WriteOffsetLocked f buffer offset =
     (if fb_state f = SS_CLOSED then (SR_EOS, 0, f)
      else if fb_data_length f + offset \<ge> fb_buffer_length f then (SR_BLOCK, 0, f)
      else
        (let available = fb_buffer_length f - fb_data_length f - offset;
             write_position = (fb_read_position f + fb_data_length f + offset) mod fb_buffer_length f;
             copy = min (length buffer) available;
             tail_copy = min copy (fb_buffer_length f - write_position);
             mem1 = blit (fb_buffer f) write_position (take tail_copy buffer);
             mem2 = blit mem1 0 (take (copy - tail_copy) (drop tail_copy buffer))
         in (SR_SUCCESS, copy, f\<lparr>fb_buffer := mem2\<rparr>)))"

definition ReadOffset :: "FifoBuffer \<Rightarrow> nat \<Rightarrow> nat \<Rightarrow> StreamResult \<times> byte list" where
  "ReadOffset f bytes offset = ReadOffsetLocked f bytes offset"

definition WriteOffset :: "FifoBuffer \<Rightarrow> byte list \<Rightarrow> nat \<Rightarrow> StreamResult \<times> nat \<times> FifoBuffer" where
  "WriteOffset f buffer offset = WriteOffsetLocked f buffer offset"

definition FB_GetState :: "FifoBuffer \<Rightarrow> StreamState" where
  "FB_GetState f = fb_state f"

definition PostEvent :: "StreamEvent \<Rightarrow> FifoBuffer \<Rightarrow> FifoBuffer" where
  "PostEvent e f = f\<lparr>fb_posted := fb_posted f @ [e]\<rparr>"

definition FB_Read :: "FifoBuffer \<Rightarrow> nat \<Rightarrow> StreamResult \<times> byte list \<times> FifoBuffer" where
  "FB_Read f bytes =
     (let was_writable = fb_data_length f < fb_buffer_length f in
      case ReadOffsetLocked f bytes 0 of (result, out) \<Rightarrow>
        if result = SR_SUCCESS then
          (let copy = length out;
               f1 = f\<lparr>fb_read_position := (fb_read_position f + copy) mod fb_buffer_length f,
                      fb_data_length := fb_data_length f - copy\<rparr>
           in (result, out, if \<not> was_writable \<and> copy > 0 then PostEvent SE_WRITE f1 else f1))
        else (result, [], f))"

definition FB_Write :: "FifoBuffer \<Rightarrow> byte list \<Rightarrow> StreamResult \<times> nat \<times> FifoBuffer" where
  "FB_Write f buffer =
     (let was_readable = fb_data_length f > 0 in
      case WriteOffsetLocked f buffer 0 of (result, copy, f1) \<Rightarrow>
        if result = SR_SUCCESS then
          (let f2 = f1\<lparr>fb_data_length := fb_data_length f1 + copy\<rparr>
           in (result, copy, if \<not> was_readable \<and> copy > 0 then PostEvent SE_READ f2 else f2))
        else (result, 0, f1))"

definition FB_Close :: "FifoBuffer \<Rightarrow> FifoBuffer" where
  "FB_Close f = f\<lparr>fb_state := SS_CLOSED\<rparr>"

text \<open>\<open>GetReadData\<close> and \<open>GetWriteBuffer\<close> return a pointer into the ring: its offset and the
  length of the contiguous block there.\<close>

definition GetReadData :: "FifoBuffer \<Rightarrow> nat \<times> nat" where
  "GetReadData f =
     (fb_read_position f,
      if fb_read_position f + fb_data_length f \<le> fb_buffer_length f then fb_data_length f
      else fb_buffer_length f - fb_read_position f)"

definition ConsumeReadData :: "FifoBuffer \<Rightarrow> nat \<Rightarrow> FifoBuffer exec" where
  "ConsumeReadData f n =
     andThen (ASSERT (n \<le> fb_data_length f)) (\<lambda>_.
       let was_writable = fb_data_length f < fb_buffer_length f;
           f1 = f\<lparr>fb_read_position := (fb_read_position f + n) mod fb_buffer_length f,
                  fb_data_length := fb_data_length f - n\<rparr>
       in Inr (if \<not> was_writable \<and> n > 0 then PostEvent SE_WRITE f1 else f1))"

definition GetWriteBuffer :: "FifoBuffer \<Rightarrow> (nat \<times> nat) option \<times> FifoBuffer" where
  "GetWriteBuffer f =
     (if fb_state f = SS_CLOSED then (None, f)
      else
        (let f1 = (if fb_data_length f = 0 then f\<lparr>fb_read_position := 0\<rparr> else f);
             write_position = (fb_read_position f1 + fb_data_length f1) mod fb_buffer_length f1;
             n = (if write_position > fb_read_position f1 \<or> fb_data_length f1 = 0
                  then fb_buffer_length f1 - write_position
                  else fb_read_position f1 - write_position)
         in (Some (write_position, n), f1)))"

definition ConsumeWriteBuffer :: "FifoBuffer \<Rightarrow> nat \<Rightarrow> FifoBuffer exec" where
  "ConsumeWriteBuffer f n =
     andThen (ASSERT (n \<le> fb_buffer_length f - fb_data_length f)) (\<lambda>_.
       let was_readable = fb_data_length f > 0;
           f1 = f\<lparr>fb_data_length := fb_data_length f + n\<rparr>
       in Inr (if \<not> was_readable \<and> n > 0 then PostEvent SE_READ f1 else f1))"

definition GetWriteRemaining :: "FifoBuffer \<Rightarrow> nat" where
  "GetWriteRemaining f = fb_buffer_length f - fb_data_length f"

subsection \<open>Invariant and abstraction\<close>

definition fb_inv :: "FifoBuffer \<Rightarrow> bool" where
  "fb_inv f \<longleftrightarrow> length (fb_buffer f) = fb_buffer_length f \<and> 0 < fb_buffer_length f \<and>
     fb_read_position f < fb_buffer_length f \<and> fb_data_length f \<le> fb_buffer_length f"

definition fb_view :: "FifoBuffer \<Rightarrow> byte list" where
  "fb_view f = rotate (fb_read_position f) (fb_buffer f)"

definition fb_data :: "FifoBuffer \<Rightarrow> byte list" where
  "fb_data f = take (fb_data_length f) (fb_view f)"

lemma length_fb_view [simp]: "length (fb_view f) = length (fb_buffer f)"
  by (simp add: fb_view_def)

lemma length_fb_data: "fb_inv f \<Longrightarrow> length (fb_data f) = fb_data_length f"
  by (simp add: fb_data_def fb_inv_def)

text \<open>The two \<open>memcpy\<close>s of a read that may wrap are one window of the rotated ring.\<close>

lemma wrapped_read:
  assumes "p < length xs" and "n \<le> length xs"
  shows "take (min n (length xs - p)) (drop p xs) @ take (n - min n (length xs - p)) xs =
    take n (rotate p xs)"
  using assms by (auto simp: rotate_drop_take min_def)

lemma rotate_add_mod: "rotate ((p + k) mod length xs) xs = rotate k (rotate p xs)"
  by (metis rotate_conv_mod rotate_rotate add.commute)

text \<open>The two \<open>memcpy\<close>s of a write that may wrap replace one window of the rotated ring.\<close>

lemma rotate_nth_iff:
  assumes "length ys = length xs" and "\<And>i. i < length xs \<Longrightarrow> ys ! ((p + i) mod length xs) = zs ! i"
    and "length zs = length xs"
  shows "rotate p ys = zs"
  using assms by (intro nth_equalityI) (simp_all add: nth_rotate)

lemma mod_double: "a < 2 * n \<Longrightarrow> a mod n = (if a < n then a else a - n)" for a n :: nat
  by (simp add: mod_if)

lemma ring_index_inside:
  fixes n :: nat
  assumes "k \<le> i" and "i < k + L" and "j = (if p + i < n then p + i else p + i - n)"
    and "w = (if p + k < n then p + k else p + k - n)" and "t = min L (n - w)"
    and "k + L \<le> n" and "p < n" and "i < n"
  shows "j < L - t \<and> t + j = i - k \<or> \<not> j < L - t \<and> w \<le> j \<and> j < w + t \<and> j - w = i - k"
  using assms by (cases "p + i < n"; cases "p + k < n"; cases "L \<le> n - w") auto

lemma ring_index_outside:
  fixes n :: nat
  assumes "\<not> (k \<le> i \<and> i < k + L)" and "j = (if p + i < n then p + i else p + i - n)"
    and "w = (if p + k < n then p + k else p + k - n)" and "t = min L (n - w)"
    and "k + L \<le> n" and "p < n" and "i < n"
  shows "\<not> j < L - t \<and> \<not> (w \<le> j \<and> j < w + t)"
  using assms by (cases "p + i < n"; cases "p + k < n"; cases "L \<le> n - w") auto

lemma wrapped_write:
  assumes w: "w = (p + k) mod length xs" and fits: "k + length src \<le> length xs" and p: "p < length xs"
    and t: "t = min (length src) (length xs - w)"
  shows "rotate p (blit (blit xs w (take t src)) 0 (drop t src)) = blit (rotate p xs) k src"
    (is "rotate p ?m = _")
proof (rule rotate_nth_iff)
  let ?n = "length xs"
  have n0: "0 < ?n" using p by linarith
  have wn: "w < ?n" using w n0 by simp
  have tn: "w + t \<le> ?n" and t_src: "t \<le> length src" using t wn by auto
  have mid: "length (blit xs w (take t src)) = ?n" using tn t_src by simp
  have rest: "length (drop t src) \<le> ?n" using fits by simp
  show "length ?m = length xs" using mid rest by simp
  show "length (blit (rotate p xs) k src) = length xs" using fits by simp
  fix i
  assume i: "i < ?n"
  define j where "j = (p + i) mod ?n"
  have jm: "j = (if p + i < ?n then p + i else p + i - ?n)"
    unfolding j_def using p i by (intro mod_double) simp
  have wm: "w = (if p + k < ?n then p + k else p + k - ?n)"
    unfolding w using p fits by (intro mod_double) simp
  have j: "j < ?n" using jm p i by (auto split: if_splits)
  have m: "?m ! j = (if j < length src - t then src ! (t + j)
      else if w \<le> j \<and> j < w + t then src ! (j - w) else xs ! j)"
    using mid rest j tn t_src by (auto simp: nth_blit)
  have r: "blit (rotate p xs) k src ! i = (if k \<le> i \<and> i < k + length src then src ! (i - k) else xs ! j)"
    using fits i by (simp add: nth_blit nth_rotate j_def)
  have inside: "j < length src - t \<and> t + j = i - k \<or>
      \<not> j < length src - t \<and> w \<le> j \<and> j < w + t \<and> j - w = i - k"
    if "k \<le> i" "i < k + length src"
    using ring_index_inside [OF that jm wm t fits p i] .
  have outside: "\<not> j < length src - t \<and> \<not> (w \<le> j \<and> j < w + t)"
    if "\<not> (k \<le> i \<and> i < k + length src)"
    using ring_index_outside [OF that jm wm t fits p i] .
  show "?m ! ((p + i) mod ?n) = blit (rotate p xs) k src ! i"
    unfolding j_def [symmetric] m r using inside outside by auto
qed

subsection \<open>The operations over the abstraction\<close>

lemma ReadOffsetLocked_spec:
  assumes "fb_inv f" and "offset < fb_data_length f"
  shows "ReadOffsetLocked f n offset = (SR_SUCCESS, take n (drop offset (fb_data f)))"
proof -
  let ?p = "(fb_read_position f + offset) mod length (fb_buffer f)"
  let ?c = "min n (fb_data_length f - offset)"
  have inv: "length (fb_buffer f) = fb_buffer_length f" "0 < length (fb_buffer f)"
      "fb_data_length f \<le> length (fb_buffer f)" "fb_read_position f < length (fb_buffer f)"
    using assms(1) by (auto simp: fb_inv_def)
  have "take (min ?c (length (fb_buffer f) - ?p)) (drop ?p (fb_buffer f)) @
      take (?c - min ?c (length (fb_buffer f) - ?p)) (fb_buffer f) = take ?c (rotate ?p (fb_buffer f))"
    by (rule wrapped_read) (use inv assms(2) in auto)
  also have "rotate ?p (fb_buffer f) = rotate offset (fb_view f)"
    by (simp add: fb_view_def rotate_add_mod)
  also have "take ?c (rotate offset (fb_view f)) = take n (drop offset (fb_data f))"
    using inv assms(2) by (simp add: fb_data_def rotate_drop_take drop_take min.commute)
  finally show ?thesis
    using assms(2) inv by (simp add: ReadOffsetLocked_def Let_def)
qed

lemma ReadOffsetLocked_none:
  "fb_data_length f \<le> offset \<Longrightarrow>
   ReadOffsetLocked f n offset = (if fb_state f \<noteq> SS_CLOSED then SR_BLOCK else SR_EOS, [])"
  by (simp add: ReadOffsetLocked_def)

lemma WriteOffsetLocked_spec:
  assumes "fb_inv f" and "fb_state f \<noteq> SS_CLOSED" and room: "fb_data_length f + offset < fb_buffer_length f"
    and c: "c = min (length xs) (fb_buffer_length f - fb_data_length f - offset)"
  obtains mem where "WriteOffsetLocked f xs offset = (SR_SUCCESS, c, f\<lparr>fb_buffer := mem\<rparr>)"
    and "fb_inv (f\<lparr>fb_buffer := mem\<rparr>)"
    and "fb_view (f\<lparr>fb_buffer := mem\<rparr>) = blit (fb_view f) (fb_data_length f + offset) (take c xs)"
proof -
  let ?n = "length (fb_buffer f)"
  let ?w = "(fb_read_position f + (fb_data_length f + offset)) mod ?n"
  let ?t = "min c (?n - ?w)"
  let ?mem = "blit (blit (fb_buffer f) ?w (take ?t xs)) 0 (take (c - ?t) (drop ?t xs))"
  have inv: "?n = fb_buffer_length f" "0 < ?n" "fb_read_position f < ?n"
    using assms(1) by (auto simp: fb_inv_def)
  have w: "?w < ?n" using inv by simp
  have cl: "length (take c xs) = c" and fits: "fb_data_length f + offset + length (take c xs) \<le> ?n"
    using c room inv by auto
  have pieces: "take ?t (take c xs) = take ?t xs" "drop ?t (take c xs) = take (c - ?t) (drop ?t xs)"
    by (simp_all add: drop_take min.absorb_iff1 [symmetric])
  have view: "rotate (fb_read_position f) ?mem =
      blit (rotate (fb_read_position f) (fb_buffer f)) (fb_data_length f + offset) (take c xs)"
  proof -
    have t: "?t = min (length (take c xs)) (?n - ?w)" unfolding cl by (rule refl)
    show ?thesis
      using wrapped_write [OF refl fits inv(3) t] unfolding pieces by assumption
  qed
  have len: "length ?mem = ?n"
    using arg_cong [OF view, of length] fits by simp
  have "WriteOffsetLocked f xs offset = (SR_SUCCESS, c, f\<lparr>fb_buffer := ?mem\<rparr>)"
    using assms(2) room c inv by (simp add: WriteOffsetLocked_def Let_def add.assoc)
  moreover have "fb_inv (f\<lparr>fb_buffer := ?mem\<rparr>)"
    using assms(1) len by (simp add: fb_inv_def)
  ultimately show ?thesis using that view by (simp add: fb_view_def)
qed

lemma post_if:
  "(if b then PostEvent e f else f) = f\<lparr>fb_posted := fb_posted f @ (if b then [e] else [])\<rparr>"
  by (simp add: PostEvent_def)

lemma consume_front:
  assumes "fb_inv f" and "n \<le> fb_data_length f"
    and "f' = f\<lparr>fb_read_position := (fb_read_position f + n) mod fb_buffer_length f,
              fb_data_length := fb_data_length f - n, fb_posted := es\<rparr>"
  shows "fb_inv f'" and "fb_view f' = rotate n (fb_view f)" and "fb_data f' = drop n (fb_data f)"
proof -
  have inv: "length (fb_buffer f) = fb_buffer_length f" "0 < fb_buffer_length f"
      "fb_data_length f \<le> fb_buffer_length f"
    using assms(1) by (auto simp: fb_inv_def)
  show "fb_inv f'" using assms inv by (simp add: fb_inv_def)
  show v: "fb_view f' = rotate n (fb_view f)"
    using inv(1) rotate_add_mod [of "fb_read_position f" n "fb_buffer f"]
    by (simp add: assms(3) fb_view_def)
  have dl: "fb_data_length f' = fb_data_length f - n" by (simp add: assms(3))
  show "fb_data f' = drop n (fb_data f)"
    unfolding fb_data_def v dl using assms(2) inv
    by (cases "n = fb_buffer_length f") (simp_all add: rotate_drop_take drop_take)
qed

lemma FB_Read_spec:
  assumes "fb_inv f" and "0 < fb_data_length f"
  obtains f' where "FB_Read f n = (SR_SUCCESS, take n (fb_data f), f')"
    and "fb_inv f'" and "fb_data f' = drop n (fb_data f)"
    and "fb_view f' = rotate (min n (fb_data_length f)) (fb_view f)"
    and "fb_data_length f' = fb_data_length f - min n (fb_data_length f)"
    and "fb_state f' = fb_state f" and "fb_buffer_length f' = fb_buffer_length f"
proof -
  let ?k = "min n (fb_data_length f)"
  have out: "ReadOffsetLocked f n 0 = (SR_SUCCESS, take n (fb_data f))"
    using ReadOffsetLocked_spec [OF assms] by simp
  have len: "length (take n (fb_data f)) = ?k"
    using assms by (simp add: length_fb_data min.commute)
  define f' where "f' = f\<lparr>fb_read_position := (fb_read_position f + ?k) mod fb_buffer_length f,
      fb_data_length := fb_data_length f - ?k,
      fb_posted := fb_posted f @ (if \<not> fb_data_length f < fb_buffer_length f \<and> ?k > 0
        then [SE_WRITE] else [])\<rparr>"
  have f': "FB_Read f n = (SR_SUCCESS, take n (fb_data f), f')"
    unfolding FB_Read_def out Let_def prod.case len post_if f'_def by simp
  have "fb_data f' = drop n (fb_data f)"
    using consume_front(3) [OF assms(1) _ f'_def] length_fb_data [OF assms(1)]
    by (cases "n \<le> fb_data_length f") (simp_all add: min_def)
  then show ?thesis using that f' consume_front [OF assms(1) _ f'_def] by (simp add: f'_def)
qed

lemma ConsumeReadData_spec:
  assumes "fb_inv f" and "n \<le> fb_data_length f"
  obtains f' where "ConsumeReadData f n = Inr f'" and "fb_inv f'"
    and "fb_data f' = drop n (fb_data f)" and "fb_data_length f' = fb_data_length f - n"
    and "fb_state f' = fb_state f" and "fb_buffer_length f' = fb_buffer_length f"
proof -
  define f' where "f' = f\<lparr>fb_read_position := (fb_read_position f + n) mod fb_buffer_length f,
      fb_data_length := fb_data_length f - n,
      fb_posted := fb_posted f @ (if \<not> fb_data_length f < fb_buffer_length f \<and> n > 0
        then [SE_WRITE] else [])\<rparr>"
  have "ConsumeReadData f n = Inr f'"
    using assms(2) by (simp add: ConsumeReadData_def Let_def post_if f'_def)
  then show ?thesis using that consume_front [OF assms f'_def] by (simp add: f'_def)
qed

lemma ConsumeWriteBuffer_spec:
  assumes "fb_inv f" and "fb_data_length f + n \<le> fb_buffer_length f"
  obtains f' where "ConsumeWriteBuffer f n = Inr f'" and "fb_inv f'" and "fb_view f' = fb_view f"
    and "fb_data_length f' = fb_data_length f + n" and "fb_state f' = fb_state f"
    and "fb_buffer_length f' = fb_buffer_length f"
proof -
  define f' where "f' = f\<lparr>fb_data_length := fb_data_length f + n,
      fb_posted := fb_posted f @ (if \<not> 0 < fb_data_length f \<and> n > 0 then [SE_READ] else [])\<rparr>"
  have "ConsumeWriteBuffer f n = Inr f'"
    using assms(2) by (simp add: ConsumeWriteBuffer_def Let_def post_if f'_def)
  then show ?thesis using that assms by (simp add: fb_inv_def fb_view_def f'_def)
qed

lemma FB_Write_spec:
  assumes "fb_inv f" and "fb_state f \<noteq> SS_CLOSED" and "fb_data_length f < fb_buffer_length f"
    and c: "c = min (length xs) (fb_buffer_length f - fb_data_length f)"
  obtains f' where "FB_Write f xs = (SR_SUCCESS, c, f')" and "fb_inv f'"
    and "fb_data f' = fb_data f @ take c xs" and "fb_data_length f' = fb_data_length f + c"
    and "fb_state f' = fb_state f" and "fb_buffer_length f' = fb_buffer_length f"
proof -
  have room: "fb_data_length f + 0 < fb_buffer_length f" using assms(3) by simp
  have c0: "c = min (length xs) (fb_buffer_length f - fb_data_length f - 0)" using c by simp
  obtain mem where mem: "WriteOffsetLocked f xs 0 = (SR_SUCCESS, c, f\<lparr>fb_buffer := mem\<rparr>)"
      "fb_inv (f\<lparr>fb_buffer := mem\<rparr>)"
      "fb_view (f\<lparr>fb_buffer := mem\<rparr>) = blit (fb_view f) (fb_data_length f + 0) (take c xs)"
    by (rule WriteOffsetLocked_spec [OF assms(1,2) room c0])
  define f' where "f' = f\<lparr>fb_buffer := mem, fb_data_length := fb_data_length f + c,
      fb_posted := fb_posted f @ (if \<not> 0 < fb_data_length f \<and> c > 0 then [SE_READ] else [])\<rparr>"
  have f': "FB_Write f xs = (SR_SUCCESS, c, f')"
    using mem(1) by (simp add: FB_Write_def Let_def post_if f'_def)
  have view: "fb_view f' = blit (fb_view f) (fb_data_length f) (take c xs)"
    using mem(3) by (simp add: f'_def fb_view_def)
  have dl: "fb_data_length f' = fb_data_length f + c" by (simp add: f'_def)
  have cl: "length (take c xs) = c" using c by simp
  have "fb_data f' = fb_data f @ take c xs"
    unfolding fb_data_def view dl using assms(1) cl by (simp add: blit_def fb_inv_def)
  moreover have "fb_inv f'" using mem(2) c assms(1) by (auto simp: f'_def fb_inv_def)
  ultimately show ?thesis using that f' by (simp add: f'_def)
qed

lemma SetCapacity_spec:
  assumes "fb_inv f" and "fb_data_length f \<le> n" and "0 < n"
  obtains f' where "SetCapacity g f n = (True, f')" and "fb_inv f'" and "fb_data f' = fb_data f"
    and "fb_buffer_length f' = n" and "fb_data_length f' = fb_data_length f"
    and "fb_state f' = fb_state f"
proof (cases "n = fb_buffer_length f")
  case True
  then show ?thesis using that assms by (simp add: SetCapacity_def)
next
  case False
  let ?b = "fb_buffer f" and ?p = "fb_read_position f" and ?c = "fb_data_length f"
  let ?t = "min ?c (length ?b - ?p)"
  let ?mem = "blit (blit (new_char g n) 0 (take ?t (drop ?p ?b))) ?t (take (?c - ?t) ?b)"
  have inv: "length ?b = fb_buffer_length f" "?p < length ?b" "?c \<le> length ?b"
    using assms(1) by (auto simp: fb_inv_def)
  have tl: "length (take ?t (drop ?p ?b)) = ?t" by simp
  have "take (?c - ?t) ?b @ drop ?c (new_char g n) = drop ?t (blit (new_char g n) ?t (take (?c - ?t) ?b))"
    using assms(2) inv by (simp add: blit_def)
  have mem: "?mem = take ?c (fb_view f) @ drop ?c (new_char g n)"
    using wrapped_read [OF inv(2,3)] assms(2) inv
    by (simp add: blit_def fb_view_def tl)
  define f' where "f' = f\<lparr>fb_buffer := ?mem, fb_read_position := 0, fb_buffer_length := n\<rparr>"
  have "SetCapacity g f n = (True, f')"
    using assms(2) False inv by (simp add: SetCapacity_def Let_def f'_def)
  moreover have "fb_inv f'" "fb_data f' = fb_data f"
    using assms inv unfolding f'_def mem by (simp_all add: fb_inv_def fb_data_def fb_view_def)
  ultimately show ?thesis using that by (simp add: f'_def)
qed

lemma fb_inv_new [inv_intros]: "0 < n \<Longrightarrow> fb_inv (new_FifoBuffer g n)"
  by (simp add: new_FifoBuffer_def fb_inv_def)

lemma new_FifoBuffer_sel [simp]:
  "fb_data_length (new_FifoBuffer g n) = 0" "fb_buffer_length (new_FifoBuffer g n) = n"
  "fb_state (new_FifoBuffer g n) = SS_OPEN" "fb_data (new_FifoBuffer g n) = []"
  by (simp_all add: new_FifoBuffer_def fb_data_def)

subsection \<open>The window interface\<close>

text \<open>
  What the transport relies on: the ring as a view with a readable prefix, bytes \<^emph>\<open>parked\<close>
  behind that prefix by writes at an offset, and a commit that makes parked bytes readable.
\<close>

locale window_fifo =
  fixes view :: "'f \<Rightarrow> byte list"
    and used :: "'f \<Rightarrow> nat"
    and good :: "'f \<Rightarrow> bool"
    and write_at :: "'f \<Rightarrow> byte list \<Rightarrow> nat \<Rightarrow> 'f"
    and commit :: "'f \<Rightarrow> nat \<Rightarrow> 'f exec"
    and take_out :: "'f \<Rightarrow> nat \<Rightarrow> 'f"
  assumes used_le: "good f \<Longrightarrow> used f \<le> length (view f)"
    and write_good: "good f \<Longrightarrow> used f + k + length xs \<le> length (view f) \<Longrightarrow> xs \<noteq> [] \<Longrightarrow>
      good (write_at f xs k) \<and> used (write_at f xs k) = used f \<and>
      view (write_at f xs k) = blit (view f) (used f + k) xs"
    and commit_good: "good f \<Longrightarrow> used f + n \<le> length (view f) \<Longrightarrow>
      \<exists>f'. commit f n = Inr f' \<and> good f' \<and> view f' = view f \<and> used f' = used f + n"
    and take_good: "good f \<Longrightarrow> 0 < used f \<Longrightarrow>
      good (take_out f n) \<and> used (take_out f n) = used f - min n (used f) \<and>
      view (take_out f n) = rotate (min n (used f)) (view f)"
begin

definition readable :: "'f \<Rightarrow> byte list" where
  "readable f = take (used f) (view f)"

definition room :: "'f \<Rightarrow> nat" where
  "room f = length (view f) - used f"

text \<open>\<open>parked f k xs\<close>: the bytes \<open>xs\<close> lie at offset \<open>k\<close> behind the readable prefix.\<close>

definition parked :: "'f \<Rightarrow> nat \<Rightarrow> byte list \<Rightarrow> bool" where
  "parked f k xs \<longleftrightarrow> k + length xs \<le> room f \<and> take (length xs) (drop (used f + k) (view f)) = xs"

lemma parked_nth:
  assumes "good f"
  shows "parked f k xs \<longleftrightarrow> k + length xs \<le> room f \<and> (\<forall>i < length xs. view f ! (used f + k + i) = xs ! i)"
  using used_le [OF assms] unfolding parked_def room_def
  by (auto simp: list_eq_iff_nth_eq add.assoc)

lemma parked_write:
  assumes "good f" and "k + length xs \<le> room f" and "xs \<noteq> []"
  shows "parked (write_at f xs k) k xs"
  using write_good [of f k xs] assms used_le [of f]
  by (auto simp: parked_def room_def window_blit)

text \<open>A write keeps parked bytes wherever the two agree on the overlap.\<close>

lemma parked_write_keep:
  assumes "good f" and "k + length xs \<le> room f" and "xs \<noteq> []" and "parked f j ys"
    and agree: "\<And>i. j \<le> i \<Longrightarrow> i < j + length ys \<Longrightarrow> k \<le> i \<Longrightarrow> i < k + length xs \<Longrightarrow> xs ! (i - k) = ys ! (i - j)"
  shows "parked (write_at f xs k) j ys"
proof -
  have fits: "used f + k + length xs \<le> length (view f)"
    using assms(1,2) used_le [of f] by (simp add: room_def)
  note W = write_good [OF assms(1) fits assms(3)]
  have "view (write_at f xs k) ! (used f + j + i) = ys ! i" if "i < length ys" for i
  proof -
    have "used f + j + i < length (view f)"
      using that assms(4) used_le [OF assms(1)] by (auto simp: parked_def room_def)
    then show ?thesis
      using that assms(4) fits agree [of "j + i"]
      by (auto simp: W nth_blit parked_nth [OF assms(1)] add.assoc)
  qed
  moreover have "j + length ys \<le> room (write_at f xs k)"
    using W assms(4) fits by (simp add: parked_def room_def)
  ultimately show ?thesis
    using W by (simp add: parked_nth)
qed

lemma commit_parked:
  assumes "good f" and "parked f 0 xs"
  obtains f' where "commit f (length xs) = Inr f'" and "good f'"
    and "readable f' = readable f @ xs" and "room f' = room f - length xs"
    and "view f' = view f" and "used f' = used f + length xs"
proof -
  have fits: "used f + length xs \<le> length (view f)"
    using assms used_le [of f] by (auto simp: parked_def room_def)
  obtain f' where f': "commit f (length xs) = Inr f'" "good f'" "view f' = view f"
      "used f' = used f + length xs"
    using commit_good [OF assms(1) fits] by blast
  have "readable f' = readable f @ xs"
    using assms(2) f' by (simp add: readable_def take_add parked_def)
  then show ?thesis using that f' by (simp add: room_def)
qed

lemma parked_after_commit:
  assumes "view f' = view f" and "used f' = used f + n" and "parked f (n + k) xs"
    and "used f' \<le> length (view f)"
  shows "parked f' k xs"
  using assms by (auto simp: parked_def room_def add.assoc)

lemma parked_suffix:
  assumes "parked f k xs" and "n \<le> length xs"
  shows "parked f (k + n) (drop n xs)"
  using assms unfolding parked_def by (auto simp: drop_take add.commute add.left_commute)
    (metis add.commute add.left_commute drop_drop drop_take length_drop)

text \<open>Taking readable bytes out moves the window, not the parked bytes.\<close>

lemma take_out_keeps:
  assumes "good f" and "0 < used f"
  shows "readable (take_out f n) = drop n (readable f)"
    and "parked f k xs \<Longrightarrow> parked (take_out f n) k xs"
    and "room (take_out f n) = room f + min n (used f)"
proof -
  let ?m = "min n (used f)"
  note T = take_good [OF assms, of n]
  have le: "used f \<le> length (view f)" "?m \<le> used f" using used_le [OF assms(1)] by auto
  have rot: "rotate ?m (view f) = drop ?m (view f) @ take ?m (view f)"
    using le by (cases "?m = length (view f)") (simp_all add: rotate_drop_take)
  show "readable (take_out f n) = drop n (readable f)"
    using T le rot by (cases "n \<le> used f") (simp_all add: readable_def drop_take)
  show room: "room (take_out f n) = room f + min n (used f)"
    using T le by (simp add: room_def)
  assume p: "parked f k xs"
  have "take (length xs) (drop (used f - ?m + k) (rotate ?m (view f))) =
      take (length xs) (drop (used f + k) (view f))"
    using p le unfolding rot by (auto simp: parked_def room_def)
  with p T room show "parked (take_out f n) k xs" by (simp add: parked_def)
qed

end

definition fb_write_at :: "FifoBuffer \<Rightarrow> byte list \<Rightarrow> nat \<Rightarrow> FifoBuffer" where
  "fb_write_at f xs k = snd (snd (WriteOffset f xs k))"

definition fb_take_out :: "FifoBuffer \<Rightarrow> nat \<Rightarrow> FifoBuffer" where
  "fb_take_out f n = snd (snd (FB_Read f n))"

definition fb_open :: "FifoBuffer \<Rightarrow> bool" where
  "fb_open f \<longleftrightarrow> fb_inv f \<and> fb_state f \<noteq> SS_CLOSED"

interpretation fbw: window_fifo fb_view fb_data_length fb_open fb_write_at ConsumeWriteBuffer fb_take_out
proof
  show "fb_data_length f \<le> length (fb_view f)" if "fb_open f" for f
    using that by (simp add: fb_open_def fb_inv_def)
  show "fb_open (fb_write_at f xs k) \<and> fb_data_length (fb_write_at f xs k) = fb_data_length f \<and>
      fb_view (fb_write_at f xs k) = blit (fb_view f) (fb_data_length f + k) xs"
    if "fb_open f" "fb_data_length f + k + length xs \<le> length (fb_view f)" "xs \<noteq> []" for f k xs
  proof -
    have inv: "fb_inv f" "fb_state f \<noteq> SS_CLOSED" "length (fb_view f) = fb_buffer_length f"
      using that(1) by (auto simp: fb_open_def fb_inv_def)
    have room: "fb_data_length f + k < fb_buffer_length f"
      using that inv by (cases xs) auto
    have c: "length xs = min (length xs) (fb_buffer_length f - fb_data_length f - k)"
      using that(2) inv by simp
    show ?thesis
      by (rule WriteOffsetLocked_spec [OF inv(1,2) room c])
        (use inv in \<open>simp add: fb_write_at_def WriteOffset_def fb_open_def\<close>)
  qed
  show "\<exists>f'. ConsumeWriteBuffer f n = Inr f' \<and> fb_open f' \<and> fb_view f' = fb_view f \<and>
      fb_data_length f' = fb_data_length f + n"
    if "fb_open f" "fb_data_length f + n \<le> length (fb_view f)" for f n
  proof -
    have "fb_inv f" "fb_data_length f + n \<le> fb_buffer_length f"
      using that by (auto simp: fb_open_def fb_inv_def)
    then show ?thesis
      by (rule ConsumeWriteBuffer_spec) (use that in \<open>auto simp: fb_open_def\<close>)
  qed
  show "fb_open (fb_take_out f n) \<and> fb_data_length (fb_take_out f n) = fb_data_length f - min n (fb_data_length f) \<and>
      fb_view (fb_take_out f n) = rotate (min n (fb_data_length f)) (fb_view f)"
    if "fb_open f" "0 < fb_data_length f" for f n
    using that by (auto simp: fb_open_def fb_take_out_def elim!: FB_Read_spec [of f n])
qed

subsection \<open>Properties\<close>

text \<open>A client's sequence of operations: what the writes accepted, what the reads delivered,
  and the buffer at the end.\<close>

datatype fifo_op = OpWrite "byte list" | OpRead nat | OpConsume nat | OpCapacity nat | OpClose

fun fifo_step :: "(nat \<Rightarrow> byte) \<Rightarrow> FifoBuffer \<Rightarrow> fifo_op \<Rightarrow> byte list \<times> byte list \<times> FifoBuffer" where
  "fifo_step g f (OpWrite xs) = (case FB_Write f xs of (r, n, f') \<Rightarrow> (take n xs, [], f'))"
| "fifo_step g f (OpRead n) = (case FB_Read f n of (r, out, f') \<Rightarrow> ([], out, f'))"
| "fifo_step g f (OpConsume n) =
     (case GetReadData f of (pos, len) \<Rightarrow>
        let k = min n len in
        case ConsumeReadData f k of Inl e \<Rightarrow> ([], [], f)
        | Inr f' \<Rightarrow> ([], take k (drop pos (fb_buffer f)), f'))"
| "fifo_step g f (OpCapacity n) = ([], [], snd (SetCapacity g f n))"
| "fifo_step g f OpClose = ([], [], FB_Close f)"

fun fifo_run :: "(nat \<Rightarrow> byte) \<Rightarrow> FifoBuffer \<Rightarrow> fifo_op list \<Rightarrow> byte list \<times> byte list \<times> FifoBuffer" where
  "fifo_run g f [] = ([], [], f)"
| "fifo_run g f (op # ops) =
     (case fifo_step g f op of (acc, out, f1) \<Rightarrow>
      case fifo_run g f1 ops of (acc', out', f2) \<Rightarrow> (acc @ acc', out @ out', f2))"

lemma FB_Write_cases:
  assumes "fb_inv f" and "FB_Write f xs = (r, n, f')"
  shows "fb_inv f' \<and> fb_data f' = fb_data f @ take n xs \<and> n \<le> length xs"
proof (cases "fb_state f \<noteq> SS_CLOSED \<and> fb_data_length f < fb_buffer_length f")
  case True
  obtain f1 where "FB_Write f xs = (SR_SUCCESS, min (length xs) (fb_buffer_length f - fb_data_length f), f1)"
      "fb_inv f1" "fb_data f1 = fb_data f @ take (min (length xs) (fb_buffer_length f - fb_data_length f)) xs"
    using FB_Write_spec [OF assms(1) _ _ refl] True by metis
  with assms(2) show ?thesis by auto
next
  case False
  with assms show ?thesis
    by (auto simp: FB_Write_def WriteOffsetLocked_def Let_def split: if_splits)
qed

lemma FB_Read_cases:
  assumes "fb_inv f" and "FB_Read f n = (r, out, f')"
  shows "fb_inv f' \<and> fb_data f = out @ fb_data f'"
proof (cases "0 < fb_data_length f")
  case True
  then obtain f1 where "FB_Read f n = (SR_SUCCESS, take n (fb_data f), f1)" "fb_inv f1"
      "fb_data f1 = drop n (fb_data f)"
    using FB_Read_spec [OF assms(1)] by metis
  with assms(2) show ?thesis by auto
next
  case False
  with assms show ?thesis by (auto simp: FB_Read_def ReadOffsetLocked_def split: if_splits)
qed

text \<open>The block that \<open>GetReadData\<close> points to is a prefix of the readable bytes.\<close>

lemma GetReadData_block:
  assumes "fb_inv f" and "GetReadData f = (pos, len)"
  shows "take len (drop pos (fb_buffer f)) = take len (fb_data f)" and "len \<le> fb_data_length f"
    and "0 < fb_data_length f \<Longrightarrow> 0 < len"
proof -
  have inv: "length (fb_buffer f) = fb_buffer_length f" "fb_read_position f < length (fb_buffer f)"
    "fb_data_length f \<le> length (fb_buffer f)"
    using assms(1) by (auto simp: fb_inv_def)
  have p: "pos = fb_read_position f" and l: "len \<le> fb_data_length f"
    "len \<le> length (fb_buffer f) - fb_read_position f"
    using assms inv by (auto simp: GetReadData_def split: if_splits)
  show "take len (drop pos (fb_buffer f)) = take len (fb_data f)"
    using inv l by (simp add: fb_data_def fb_view_def p rotate_drop_take)
  show "len \<le> fb_data_length f" by (fact l)
  show "0 < fb_data_length f \<Longrightarrow> 0 < len" using assms inv by (auto simp: GetReadData_def split: if_splits)
qed

lemma fifo_step_data:
  assumes "fb_inv f" and "fifo_step g f op = (acc, out, f')" and "\<And>n. op = OpCapacity n \<Longrightarrow> 0 < n"
  shows "fb_inv f' \<and> fb_data f @ acc = out @ fb_data f'"
proof (cases op)
  case (OpWrite xs)
  with assms show ?thesis by (auto dest: FB_Write_cases split: prod.splits)
next
  case (OpRead n)
  with assms show ?thesis by (auto dest: FB_Read_cases split: prod.splits)
next
  case (OpConsume n)
  obtain pos len where G: "GetReadData f = (pos, len)" by fastforce
  let ?k = "min n len"
  have "?k \<le> fb_data_length f" using GetReadData_block(2) [OF assms(1) G] by simp
  then obtain f1 where "ConsumeReadData f ?k = Inr f1" "fb_inv f1" "fb_data f1 = drop ?k (fb_data f)"
    using ConsumeReadData_spec [OF assms(1)] by metis
  moreover have "fb_data f = take ?k (drop pos (fb_buffer f)) @ drop ?k (fb_data f)"
    using arg_cong [OF GetReadData_block(1) [OF assms(1) G], of "take n"]
    by (metis append_take_drop_id take_take)
  ultimately show ?thesis using assms(2) OpConsume G by (simp add: Let_def)
next
  case (OpCapacity n)
  then have "0 < n" using assms(3) by simp
  show ?thesis
  proof (cases "fb_data_length f \<le> n")
    case True
    then obtain f1 where "SetCapacity g f n = (True, f1)" "fb_inv f1" "fb_data f1 = fb_data f"
      using SetCapacity_spec [OF assms(1) _ \<open>0 < n\<close>] by metis
    with assms(2) OpCapacity show ?thesis by simp
  next
    case False
    then have "SetCapacity g f n = (False, f)" by (simp add: SetCapacity_def)
    with assms(1,2) OpCapacity show ?thesis by simp
  qed
next
  case OpClose
  with assms show ?thesis by (auto simp: FB_Close_def fb_inv_def fb_data_def fb_view_def)
qed

lemma fifo_run_data:
  "fb_inv f \<Longrightarrow> fifo_run g f ops = (acc, out, f') \<Longrightarrow> OpCapacity 0 \<notin> set ops \<Longrightarrow>
   fb_inv f' \<and> fb_data f @ acc = out @ fb_data f'"
proof (induction ops arbitrary: f acc out f')
  case Nil
  then show ?case by simp
next
  case (Cons op ops)
  obtain a o1 f1 where S: "fifo_step g f op = (a, o1, f1)" by (metis prod_cases3)
  obtain a' o' f2 where R: "fifo_run g f1 ops = (a', o', f2)" by (metis prod_cases3)
  have 1: "fb_inv f1 \<and> fb_data f @ a = o1 @ fb_data f1"
    by (rule fifo_step_data [OF Cons.prems(1) S]) (use Cons.prems(3) in auto)
  moreover have "fb_inv f2 \<and> fb_data f1 @ a' = o' @ fb_data f2"
    using Cons.IH [OF _ R] 1 Cons.prems(3) by simp
  ultimately show ?case using Cons.prems(2) S R by simp (metis append.assoc)
qed

text \<open>
  Property C35: over any sequence of reads, writes, direct consumption, capacity changes and
  closing, the bytes delivered followed by the bytes still readable are exactly the bytes
  the writes accepted, in order: nothing is lost, duplicated or reordered, however often the
  ring wraps.
\<close>

theorem fifo_delivers_in_order:
  assumes "0 < n" and "OpCapacity 0 \<notin> set ops" and "fifo_run g (new_FifoBuffer g n) ops = (acc, out, f')"
  shows "acc = out @ fb_data f' \<and> fb_inv f'"
  using fifo_run_data [OF fb_inv_new [OF assms(1)] assms(3,2)] by simp

theorem fifo_delivers_in_order_witness:
  "([1, 2, 3, 4, 5] :: byte list) = [1, 2, 3, 4] @ fb_data (snd (snd (fifo_run (\<lambda>_. 0) (new_FifoBuffer (\<lambda>_. 0) 3)
     [OpWrite [1, 2, 3], OpRead 2, OpWrite [4, 5, 6], OpCapacity 5, OpConsume 2]))) \<and>
   fb_inv (snd (snd (fifo_run (\<lambda>_. 0) (new_FifoBuffer (\<lambda>_. 0) 3)
     [OpWrite [1, 2, 3], OpRead 2, OpWrite [4, 5, 6], OpCapacity 5, OpConsume 2])))"
  by (rule fifo_delivers_in_order [where n = 3 and g = "\<lambda>_. 0" and
        ops = "[OpWrite [1, 2, 3], OpRead 2, OpWrite [4, 5, 6], OpCapacity 5, OpConsume 2]"]; code_simp)

text \<open>Bytes parked by \<open>WriteOffset\<close> behind the readable bytes, in two pieces and with the
  later piece first, become readable in stream order when \<open>ConsumeWriteBuffer\<close> commits them,
  and neither write shows anything before that.
\<close>

theorem parked_pieces_commit:
  assumes "fb_open f" and "xs \<noteq> []" and "ys \<noteq> []"
    and "length xs + length ys \<le> GetWriteRemaining f"
  shows "fb_data (fb_write_at (fb_write_at f ys (length xs)) xs 0) = fb_data f \<and>
    (\<exists>f'. ConsumeWriteBuffer (fb_write_at (fb_write_at f ys (length xs)) xs 0) (length xs + length ys) = Inr f' \<and>
       fb_data f' = fb_data f @ xs @ ys)"
proof -
  have room: "fbw.room f = GetWriteRemaining f" if "fb_open f" for f
    using that by (simp add: fbw.room_def GetWriteRemaining_def fb_open_def fb_inv_def)
  have rd: "fbw.readable f = fb_data f" for f by (simp add: fbw.readable_def fb_data_def)
  let ?f1 = "fb_write_at f ys (length xs)" and ?f2 = "fb_write_at (fb_write_at f ys (length xs)) xs 0"
  have fits: "fb_data_length f + length xs + length ys \<le> length (fb_view f)"
    using assms(1,4) by (simp add: GetWriteRemaining_def fb_open_def fb_inv_def) linarith
  note W1 = fbw.write_good [OF assms(1) fits assms(3)]
  have "fb_data_length ?f1 + 0 + length xs \<le> length (fb_view ?f1)"
    using fits W1 by (simp add: fb_open_def fb_inv_def)
  note W2 = fbw.write_good [OF conjunct1 [OF W1] this assms(2)]
  have v2: "fb_view ?f2 = blit (blit (fb_view f) (fb_data_length f + length xs) ys) (fb_data_length f) xs"
    using W1 W2 by simp
  have "fb_data ?f2 = fb_data f"
    unfolding fb_data_def v2 using W1 W2 fits by (simp add: take_blit_before)
  moreover have "fbw.parked ?f2 0 (xs @ ys)"
  proof -
    have "fb_data_length ?f2 = fb_data_length f" using W1 W2 by simp
    then show ?thesis using fits unfolding fbw.parked_def fbw.room_def v2 by (simp add: blit_def)
  qed
  from fbw.commit_parked [OF conjunct1 [OF W2] this]
  have "\<exists>f'. ConsumeWriteBuffer ?f2 (length xs + length ys) = Inr f' \<and> fb_data f' = fb_data ?f2 @ xs @ ys"
    unfolding rd length_append by metis
  ultimately show ?thesis by simp
qed

theorem parked_pieces_commit_witness:
  "fb_data (fb_write_at (fb_write_at (new_FifoBuffer (\<lambda>_. 0) 4) [3] 2) [1, 2] 0) = [] \<and>
   (\<exists>f'. ConsumeWriteBuffer (fb_write_at (fb_write_at (new_FifoBuffer (\<lambda>_. 0) 4) [3] 2) [1, 2] 0) 3 = Inr f' \<and>
      fb_data f' = [1, 2, 3])"
  using parked_pieces_commit [of "new_FifoBuffer (\<lambda>_. 0) 4" "[1, 2]" "[3]"]
  by (simp add: fb_open_def fb_inv_new GetWriteRemaining_def numeral_2_eq_2 numeral_3_eq_3)

end
