(* ===== verification/PseudoTcp.thy ===== *)
theory PseudoTcp
  imports ByteBuffer FifoBuffer TimeUtils
begin

text \<open>
  \<^verbatim>\<open>talk/p2p/base/pseudotcp.cc\<close> and \<^verbatim>\<open>pseudotcp.h\<close>: a TCP over unreliable packets. The
  members \<open>m_...\<close> of the class are the fields of the record; three more fields record what
  the object does to its surroundings: how often it read the clock, the packets it handed to
  \<open>TcpWritePacket\<close> with their results, and the notifications it raised.

  The surroundings are an environment \<open>E\<close>: the readings of the clock, the answers of
  \<open>TcpWritePacket\<close>, the host's endianness and the content of fresh memory. The notify
  pointer is not null: \<open>packet\<close> dereferences it without a test.
\<close>

subsection \<open>Constants\<close>

definition PACKET_MAXIMUMS :: "uint16 list" where
  "PACKET_MAXIMUMS = [65535, 32000, 17914, 8166, 4352, 2002, 1492, 1006, 508, 296, 0]"

definition MAX_PACKET :: uint32 where "MAX_PACKET = 65535"
definition MIN_PACKET :: uint32 where "MIN_PACKET = 296"
definition IP_HEADER_SIZE :: uint32 where "IP_HEADER_SIZE = 20"
definition UDP_HEADER_SIZE :: uint32 where "UDP_HEADER_SIZE = 8"
definition JINGLE_HEADER_SIZE :: uint32 where "JINGLE_HEADER_SIZE = 64"
definition DEFAULT_RCV_BUF_SIZE :: uint32 where "DEFAULT_RCV_BUF_SIZE = 60 * 1024"
definition DEFAULT_SND_BUF_SIZE :: uint32 where "DEFAULT_SND_BUF_SIZE = 90 * 1024"
definition HEADER_SIZE :: uint32 where "HEADER_SIZE = 24"
definition PACKET_OVERHEAD :: uint32 where
  "PACKET_OVERHEAD = HEADER_SIZE + UDP_HEADER_SIZE + IP_HEADER_SIZE + JINGLE_HEADER_SIZE"
definition MIN_RTO :: uint32 where "MIN_RTO = 250"
definition DEF_RTO :: uint32 where "DEF_RTO = 3000"
definition MAX_RTO :: uint32 where "MAX_RTO = 60000"
definition DEF_ACK_DELAY :: uint32 where "DEF_ACK_DELAY = 100"
definition FLAG_CTL :: uint8 where "FLAG_CTL = 2"
definition FLAG_RST :: uint8 where "FLAG_RST = 4"
definition CTL_CONNECT :: uint8 where "CTL_CONNECT = 0"
definition TCP_OPT_EOL :: uint8 where "TCP_OPT_EOL = 0"
definition TCP_OPT_NOOP :: uint8 where "TCP_OPT_NOOP = 1"
definition TCP_OPT_MSS :: uint8 where "TCP_OPT_MSS = 2"
definition TCP_OPT_WND_SCALE :: uint8 where "TCP_OPT_WND_SCALE = 3"
definition DEFAULT_TIMEOUT :: int where "DEFAULT_TIMEOUT = 4000"
definition CLOSED_TIMEOUT :: int where "CLOSED_TIMEOUT = 60 * 1000"

text \<open>The error numbers of the host's \<open>errno.h\<close>.\<close>

definition EWOULDBLOCK :: int where "EWOULDBLOCK = 11"
definition EINVAL :: int where "EINVAL = 22"
definition ECONNABORTED :: uint32 where "ECONNABORTED = 103"
definition ECONNRESET :: uint32 where "ECONNRESET = 104"
definition ENOTCONN :: int where "ENOTCONN = 107"
definition SOCKET_ERROR :: int where "SOCKET_ERROR = - 1"

lemmas tcp_consts = MAX_PACKET_def MIN_PACKET_def IP_HEADER_SIZE_def UDP_HEADER_SIZE_def
  JINGLE_HEADER_SIZE_def DEFAULT_RCV_BUF_SIZE_def DEFAULT_SND_BUF_SIZE_def HEADER_SIZE_def
  PACKET_OVERHEAD_def MIN_RTO_def DEF_RTO_def MAX_RTO_def DEF_ACK_DELAY_def FLAG_CTL_def
  FLAG_RST_def CTL_CONNECT_def TCP_OPT_EOL_def TCP_OPT_NOOP_def TCP_OPT_MSS_def
  TCP_OPT_WND_SCALE_def DEFAULT_TIMEOUT_def CLOSED_TIMEOUT_def

subsection \<open>State\<close>

datatype TcpState = TCP_LISTEN | TCP_SYN_SENT | TCP_SYN_RECEIVED | TCP_ESTABLISHED | TCP_CLOSED

datatype Shutdown = SD_NONE | SD_GRACEFUL | SD_FORCEFUL

datatype SendFlags = sfNone | sfDelayedAck | sfImmediateAck

datatype WriteResult = WR_SUCCESS | WR_TOO_LARGE | WR_FAIL

datatype TcpOption = OPT_NODELAY | OPT_ACKDELAY | OPT_RCVBUF | OPT_SNDBUF

datatype TcpEvent = OnTcpOpen | OnTcpReadable | OnTcpWriteable | OnTcpClosed uint32

record Segment =
  seg_conv :: uint32
  seg_seq :: uint32
  seg_ack :: uint32
  seg_flags :: uint8
  seg_wnd :: uint16
  seg_data :: "byte list"
  seg_len :: uint32
  seg_tsval :: uint32
  seg_tsecr :: uint32

record SSegment =
  ss_seq :: uint32
  ss_len :: uint32
  ss_xmit :: uint8
  ss_bCtrl :: bool

definition new_SSegment :: "uint32 \<Rightarrow> uint32 \<Rightarrow> bool \<Rightarrow> SSegment" where
  "new_SSegment s l c = \<lparr>ss_seq = s, ss_len = l, ss_xmit = 0, ss_bCtrl = c\<rparr>"

record RSegment =
  rs_seq :: uint32
  rs_len :: uint32

record PseudoTcp =
  m_shutdown :: Shutdown
  m_error :: int
  m_state :: TcpState
  m_conv :: uint32
  m_bReadEnable :: bool
  m_bWriteEnable :: bool
  m_bOutgoing :: bool
  m_lasttraffic :: uint32
  m_rlist :: "RSegment list"
  m_rbuf_len :: uint32
  m_rcv_nxt :: uint32
  m_rcv_wnd :: uint32
  m_lastrecv :: uint32
  m_rwnd_scale :: uint8
  m_rbuf :: FifoBuffer
  m_slist :: "SSegment list"
  m_sbuf_len :: uint32
  m_snd_nxt :: uint32
  m_snd_wnd :: uint32
  m_lastsend :: uint32
  m_snd_una :: uint32
  m_swnd_scale :: uint8
  m_sbuf :: FifoBuffer
  m_mss :: uint32
  m_msslevel :: nat
  m_largest :: uint32
  m_mtu_advise :: uint32
  m_rto_base :: uint32
  m_ts_recent :: uint32
  m_ts_lastack :: uint32
  m_rx_rttvar :: uint32
  m_rx_srtt :: uint32
  m_rx_rto :: uint32
  m_ssthresh :: uint32
  m_cwnd :: uint32
  m_dup_acks :: uint8
  m_recover :: uint32
  m_t_ack :: uint32
  m_use_nagling :: bool
  m_ack_delay :: uint32
  m_support_wnd_scale :: bool
  x_clock :: nat
  x_sent :: "(byte list \<times> WriteResult) list"
  x_events :: "TcpEvent list"

record Env =
  env_now :: "nat \<Rightarrow> uint32"
  env_write :: "nat \<Rightarrow> byte list \<Rightarrow> WriteResult"
  env_big :: bool
  env_junk :: "nat \<Rightarrow> byte"

subsection \<open>Helper functions\<close>

text \<open>A shift of a 32-bit value is defined for a distance below 32.\<close>

definition SHIFT :: "uint8 \<Rightarrow> unit exec" where
  "SHIFT n = (if unat n < 32 then Inr () else Inl Undefined_shift)"

definition long_to_bytes :: "bool \<Rightarrow> uint32 \<Rightarrow> byte list \<Rightarrow> nat \<Rightarrow> byte list" where
  "long_to_bytes big val buf k = blit buf k (host_bytes32 big (HostToNetwork32 big val))"

definition short_to_bytes :: "bool \<Rightarrow> uint16 \<Rightarrow> byte list \<Rightarrow> nat \<Rightarrow> byte list" where
  "short_to_bytes big val buf k = blit buf k (host_bytes16 big (HostToNetwork16 big val))"

definition bytes_to_long :: "bool \<Rightarrow> byte list \<Rightarrow> nat \<Rightarrow> uint32 exec" where
  "bytes_to_long big buf k =
     (if k + 4 \<le> length buf then Inr (NetworkToHost32 big (host_value32 big (take 4 (drop k buf))))
      else Inl Out_of_bounds)"

definition bytes_to_short :: "bool \<Rightarrow> byte list \<Rightarrow> nat \<Rightarrow> uint16 exec" where
  "bytes_to_short big buf k =
     (if k + 2 \<le> length buf then Inr (NetworkToHost16 big (host_value16 big (take 2 (drop k buf))))
      else Inl Out_of_bounds)"

definition bound :: "uint32 \<Rightarrow> uint32 \<Rightarrow> uint32 \<Rightarrow> uint32" where
  "bound lower middle upper = min (max lower middle) upper"

definition Now :: "Env \<Rightarrow> PseudoTcp \<Rightarrow> uint32 \<times> PseudoTcp" where
  "Now E s = (env_now E (x_clock s), s\<lparr>x_clock := Suc (x_clock s)\<rparr>)"

definition notify :: "TcpEvent \<Rightarrow> PseudoTcp \<Rightarrow> PseudoTcp" where
  "notify e s = s\<lparr>x_events := x_events s @ [e]\<rparr>"

subsection \<open>Construction\<close>

text \<open>The two assertions of the constructor compare constants; \<open>constructor_asserts\<close> is their
  truth. \<open>t\<close> is the clock's reading.\<close>

definition new_PseudoTcp :: "Env \<Rightarrow> uint32 \<Rightarrow> PseudoTcp" where
  "new_PseudoTcp E conv =
     (let now = env_now E 0; mss = MIN_PACKET - PACKET_OVERHEAD in
      \<lparr>m_shutdown = SD_NONE, m_error = 0, m_state = TCP_LISTEN, m_conv = conv,
       m_bReadEnable = True, m_bWriteEnable = False, m_bOutgoing = False, m_lasttraffic = now,
       m_rlist = [], m_rbuf_len = DEFAULT_RCV_BUF_SIZE, m_rcv_nxt = 0,
       m_rcv_wnd = DEFAULT_RCV_BUF_SIZE, m_lastrecv = now, m_rwnd_scale = 0,
       m_rbuf = new_FifoBuffer (env_junk E) (unat DEFAULT_RCV_BUF_SIZE),
       m_slist = [], m_sbuf_len = DEFAULT_SND_BUF_SIZE, m_snd_nxt = 0, m_snd_wnd = 1,
       m_lastsend = now, m_snd_una = 0, m_swnd_scale = 0,
       m_sbuf = new_FifoBuffer (env_junk E) (unat DEFAULT_SND_BUF_SIZE),
       m_mss = mss, m_msslevel = 0, m_largest = 0, m_mtu_advise = MAX_PACKET, m_rto_base = 0,
       m_ts_recent = 0, m_ts_lastack = 0, m_rx_rttvar = 0, m_rx_srtt = 0, m_rx_rto = DEF_RTO,
       m_ssthresh = DEFAULT_RCV_BUF_SIZE, m_cwnd = 2 * mss, m_dup_acks = 0, m_recover = 0,
       m_t_ack = 0, m_use_nagling = True, m_ack_delay = DEF_ACK_DELAY, m_support_wnd_scale = True,
       x_clock = 1, x_sent = [], x_events = []\<rparr>)"

lemma constructor_asserts:
  "DEFAULT_RCV_BUF_SIZE + MIN_PACKET < DEFAULT_SND_BUF_SIZE" "MIN_PACKET > PACKET_OVERHEAD"
  by (simp_all add: tcp_consts)

subsection \<open>Closing down and the path MTU\<close>

definition closedown :: "PseudoTcp \<Rightarrow> uint32 \<Rightarrow> PseudoTcp" where
  "closedown s err = notify (OnTcpClosed err) (s\<lparr>m_state := TCP_CLOSED\<rparr>)"

fun mss_level :: "uint32 \<Rightarrow> uint16 list \<Rightarrow> nat \<Rightarrow> nat" where
  "mss_level mtu (p # q # ps) level =
     (if q > 0 then (if ucast p \<le> mtu then level else mss_level mtu (q # ps) (Suc level)) else level)"
| "mss_level mtu _ level = level"

definition adjustMTU :: "PseudoTcp \<Rightarrow> PseudoTcp" where
  "adjustMTU s =
     (let mss = m_mtu_advise s - PACKET_OVERHEAD in
      s\<lparr>m_msslevel := mss_level (m_mtu_advise s) PACKET_MAXIMUMS 0, m_mss := mss,
        m_ssthresh := max (m_ssthresh s) (2 * mss), m_cwnd := max (m_cwnd s) mss\<rparr>)"

definition NotifyMTU :: "PseudoTcp \<Rightarrow> uint16 \<Rightarrow> PseudoTcp" where
  "NotifyMTU s mtu =
     (let s1 = s\<lparr>m_mtu_advise := ucast mtu\<rparr> in
      if m_state s1 = TCP_ESTABLISHED then adjustMTU s1 else s1)"

subsection \<open>Queueing\<close>

definition queue :: "PseudoTcp \<Rightarrow> byte list \<Rightarrow> uint32 \<Rightarrow> bool \<Rightarrow> (uint32 \<times> PseudoTcp) exec" where
  "queue s data len bCtrl =
     (let available_space = GetWriteRemaining (m_sbuf s) in
      andThen (if len > of_nat available_space
               then andThen (ASSERT (\<not> bCtrl)) (\<lambda>_. Inr (of_nat available_space)) else Inr len)
      (\<lambda>n.
        let slist = (if m_slist s \<noteq> [] \<and> ss_bCtrl (last (m_slist s)) = bCtrl \<and> ss_xmit (last (m_slist s)) = 0
                     then butlast (m_slist s) @ [(last (m_slist s))\<lparr>ss_len := ss_len (last (m_slist s)) + n\<rparr>]
                     else m_slist s @ [new_SSegment (m_snd_una s + of_nat (GetBuffered (m_sbuf s))) n bCtrl])
        in case FB_Write (m_sbuf s) (take (unat n) data) of
             (_, written, sbuf) \<Rightarrow> Inr (of_nat written, s\<lparr>m_slist := slist, m_sbuf := sbuf\<rparr>)))"

subsection \<open>Packets\<close>

definition put_header :: "bool \<Rightarrow> byte list \<Rightarrow> uint32 \<Rightarrow> uint32 \<Rightarrow> uint32 \<Rightarrow> uint8 \<Rightarrow> uint16 \<Rightarrow> uint32 \<Rightarrow> uint32 \<Rightarrow> byte list" where
  "put_header big buffer conv seq ack flags wnd now ts_recent =
     (let b1 = long_to_bytes big conv buffer 0;
          b2 = long_to_bytes big seq b1 4;
          b3 = long_to_bytes big ack b2 8;
          b4 = b3[12 := 0];
          b5 = b4[13 := flags];
          b6 = short_to_bytes big wnd b5 14;
          b7 = long_to_bytes big now b6 16
      in long_to_bytes big ts_recent b7 20)"

text \<open>The local array is modelled by the \<open>HEADER_SIZE + len\<close> bytes of it that are sent; the
  assertion at the top of \<open>packet\<close> keeps them inside the array. \<open>packet_bytes\<close> fills it,
  \<open>packet_written\<close> hands it to the network and updates the timers.\<close>

definition packet_bytes :: "Env \<Rightarrow> PseudoTcp \<Rightarrow> uint32 \<Rightarrow> uint32 \<Rightarrow> uint8 \<Rightarrow> uint32 \<Rightarrow> uint32 \<Rightarrow> byte list exec" where
  "packet_bytes E s now seq flags offset len =
     andThen (SHIFT (m_rwnd_scale s)) (\<lambda>_.
     let buffer = put_header (env_big E) (new_char (env_junk E) (unat HEADER_SIZE + unat len)) (m_conv s) seq
                    (m_rcv_nxt s) flags (ucast (drop_bit (unat (m_rwnd_scale s)) (m_rcv_wnd s)))
                    now (m_ts_recent s)
     in if len \<noteq> 0 then
          (case ReadOffset (m_sbuf s) (unat len) (unat offset) of (result, out) \<Rightarrow>
             andThen (ASSERT (result = SR_SUCCESS)) (\<lambda>_.
             andThen (ASSERT (of_nat (length out) = len)) (\<lambda>_.
             Inr (blit buffer (unat HEADER_SIZE) out))))
        else Inr buffer)"

definition packet_written :: "Env \<Rightarrow> PseudoTcp \<Rightarrow> uint32 \<Rightarrow> uint32 \<Rightarrow> byte list \<Rightarrow> WriteResult \<times> PseudoTcp" where
  "packet_written E s now len pkt =
     (let wres = env_write E (length (x_sent s)) pkt;
          s1 = s\<lparr>x_sent := x_sent s @ [(pkt, wres)]\<rparr>
      in if wres \<noteq> WR_SUCCESS \<and> len \<noteq> 0 then (wres, s1)
         else (WR_SUCCESS,
               s1\<lparr>m_t_ack := 0, m_lastsend := (if len > 0 then now else m_lastsend s1),
                  m_lasttraffic := now, m_bOutgoing := True\<rparr>))"

definition packet :: "Env \<Rightarrow> PseudoTcp \<Rightarrow> uint32 \<Rightarrow> uint8 \<Rightarrow> uint32 \<Rightarrow> uint32 \<Rightarrow> (WriteResult \<times> PseudoTcp) exec" where
  "packet E s seq flags offset len =
     andThen (ASSERT (HEADER_SIZE + len \<le> MAX_PACKET)) (\<lambda>_.
     case Now E s of (now, s1) \<Rightarrow>
     andThen (packet_bytes E s1 now seq flags offset len) (\<lambda>pkt.
     Inr (packet_written E (s1\<lparr>m_ts_lastack := m_rcv_nxt s1\<rparr>) now len pkt)))"

subsection \<open>Transmission\<close>

definition split_seg :: "SSegment list \<Rightarrow> nat \<Rightarrow> uint32 \<Rightarrow> uint8 \<Rightarrow> SSegment list" where
  "split_seg slist i n xmit =
     (let seg = slist ! i;
          subseg = (new_SSegment (ss_seq seg + n) (ss_len seg - n) (ss_bCtrl seg))\<lparr>ss_xmit := xmit\<rparr>
      in take i slist @ [seg\<lparr>ss_len := n\<rparr>, subseg] @ drop (Suc i) slist)"

text \<open>The inner loop of \<open>transmit\<close>: go down the table until a segment gets smaller.\<close>

function lower_mss :: "PseudoTcp \<Rightarrow> uint32 \<Rightarrow> (bool \<times> PseudoTcp) exec" where
  "lower_mss s nTransmit =
     (if Suc (m_msslevel s) < length PACKET_MAXIMUMS then
        if PACKET_MAXIMUMS ! Suc (m_msslevel s) = 0 then Inr (False, s)
        else
          let mss = ucast (PACKET_MAXIMUMS ! Suc (m_msslevel s)) - PACKET_OVERHEAD;
              s1 = s\<lparr>m_msslevel := Suc (m_msslevel s), m_mss := mss, m_cwnd := 2 * mss\<rparr>
          in if mss < nTransmit then Inr (True, s1) else lower_mss s1 nTransmit
      else Inl Out_of_bounds)"
  by pat_completeness auto
termination
  by (relation "measure (\<lambda>(s, _). length PACKET_MAXIMUMS - m_msslevel s)") auto

declare lower_mss.simps [simp del]

lemma table_mss:
  assumes "l < length PACKET_MAXIMUMS" and "PACKET_MAXIMUMS ! l \<noteq> 0"
  shows "180 \<le> (ucast (PACKET_MAXIMUMS ! l) - PACKET_OVERHEAD :: uint32)"
    and "(ucast (PACKET_MAXIMUMS ! l) - PACKET_OVERHEAD :: uint32) \<le> 65419" and "l \<le> 9"
proof -
  from assms(1) have "l \<in> {0, 1, 2, 3, 4, 5, 6, 7, 8, 9, 10}"
    by (simp add: PACKET_MAXIMUMS_def numeral_eq_Suc less_Suc_eq)
  with assms(2) show "180 \<le> (ucast (PACKET_MAXIMUMS ! l) - PACKET_OVERHEAD :: uint32)"
    "(ucast (PACKET_MAXIMUMS ! l) - PACKET_OVERHEAD :: uint32) \<le> 65419" "l \<le> 9"
    by (auto simp: PACKET_MAXIMUMS_def tcp_consts)
qed

text \<open>What \<open>lower_mss\<close> changes: it keeps the state or moves to a lower entry of the table, and it
  succeeds only with a maximum segment size below the one that was too large.\<close>

lemma lower_mss_effect:
  "lower_mss s n = Inr (ok, s') \<Longrightarrow>
   (s' = s \<and> \<not> ok) \<or>
   (\<exists>l mss. s' = s\<lparr>m_msslevel := l, m_mss := mss, m_cwnd := 2 * mss\<rparr> \<and> m_msslevel s < l \<and>
      l < length PACKET_MAXIMUMS \<and> PACKET_MAXIMUMS ! l \<noteq> 0 \<and>
      mss = ucast (PACKET_MAXIMUMS ! l) - PACKET_OVERHEAD \<and> (ok \<longrightarrow> mss < n))"
proof (induction s n rule: lower_mss.induct)
  case (1 s n)
  let ?mss = "ucast (PACKET_MAXIMUMS ! Suc (m_msslevel s)) - PACKET_OVERHEAD :: uint32"
  let ?s1 = "s\<lparr>m_msslevel := Suc (m_msslevel s), m_mss := ?mss, m_cwnd := 2 * ?mss\<rparr>"
  have l: "Suc (m_msslevel s) < length PACKET_MAXIMUMS"
    using 1(2) by (auto simp: lower_mss.simps [of s n] split: if_splits)
  consider (stop) "PACKET_MAXIMUMS ! Suc (m_msslevel s) = 0"
    | (found) "PACKET_MAXIMUMS ! Suc (m_msslevel s) \<noteq> 0" "?mss < n"
    | (on) "PACKET_MAXIMUMS ! Suc (m_msslevel s) \<noteq> 0" "\<not> ?mss < n"
    by blast
  then show ?case
  proof cases
    case stop
    then show ?thesis using 1(2) l by (simp add: lower_mss.simps [of s n])
  next
    case found
    then have "s' = ?s1" using 1(2) l by (simp add: Let_def lower_mss.simps [of s n])
    then show ?thesis using found l by blast
  next
    case on
    then have "lower_mss ?s1 n = Inr (ok, s')" using 1(2) l by (simp add: Let_def lower_mss.simps [of s n])
    from 1(1) [OF l on(1) refl refl on(2) this] consider "s' = ?s1" "\<not> ok"
      | l' mss' where "s' = ?s1\<lparr>m_msslevel := l', m_mss := mss', m_cwnd := 2 * mss'\<rparr>" "m_msslevel ?s1 < l'"
          "l' < length PACKET_MAXIMUMS" "PACKET_MAXIMUMS ! l' \<noteq> 0"
          "mss' = ucast (PACKET_MAXIMUMS ! l') - PACKET_OVERHEAD" "ok \<longrightarrow> mss' < n"
      by blast
    then show ?thesis
    proof cases
      case 1
      then show ?thesis using l on by blast
    next
      case 2
      then have "s' = s\<lparr>m_msslevel := l', m_mss := mss', m_cwnd := 2 * mss'\<rparr>" "m_msslevel s < l'" by simp_all
      then show ?thesis using 2(3-6) by blast
    qed
  qed
qed

lemma lower_mss_level:
  assumes "lower_mss s n = Inr (True, s')"
  shows "m_msslevel s < m_msslevel s' \<and> m_msslevel s' < length PACKET_MAXIMUMS"
  using lower_mss_effect [OF assms] by auto

lemma lower_mss_True:
  assumes "lower_mss s n = Inr (True, s')"
  shows "m_mss s' < n" "180 \<le> m_mss s'" "m_mss s' \<le> 65419" "0 < m_mss s'"
proof -
  obtain l where "m_mss s' = ucast (PACKET_MAXIMUMS ! l) - PACKET_OVERHEAD" "l < length PACKET_MAXIMUMS"
      "PACKET_MAXIMUMS ! l \<noteq> 0" and n: "m_mss s' < n"
    using lower_mss_effect [OF assms] by auto
  then show "m_mss s' < n" "180 \<le> m_mss s'" "m_mss s' \<le> 65419" using table_mss(1,2) by simp_all
  then show "0 < m_mss s'" by (auto simp: word_gt_0)
qed

lemma packet_Inr:
  "packet E s seq flags offset len = Inr r \<longleftrightarrow>
    HEADER_SIZE + len \<le> MAX_PACKET \<and>
    (\<exists>pkt. packet_bytes E (s\<lparr>x_clock := Suc (x_clock s)\<rparr>) (env_now E (x_clock s)) seq flags offset len = Inr pkt \<and>
       r = packet_written E (s\<lparr>x_clock := Suc (x_clock s), m_ts_lastack := m_rcv_nxt s\<rparr>) (env_now E (x_clock s)) len pkt)"
  by (auto simp: packet_def Now_def andThen_eq_Inr_iff)

lemma packet_frame:
  assumes "packet E s seq flags offset len = Inr (wres, s')"
  shows "m_slist s' = m_slist s" "m_msslevel s' = m_msslevel s" "m_mss s' = m_mss s"
proof -
  obtain pkt where "(wres, s') = packet_written E (s\<lparr>x_clock := Suc (x_clock s), m_ts_lastack := m_rcv_nxt s\<rparr>) (env_now E (x_clock s)) len pkt"
    using assms unfolding packet_Inr by blast
  then show "m_slist s' = m_slist s" "m_msslevel s' = m_msslevel s" "m_mss s' = m_mss s"
    by (auto simp: packet_written_def Let_def split: if_splits)
qed

function transmit_loop :: "Env \<Rightarrow> PseudoTcp \<Rightarrow> nat \<Rightarrow> uint32 \<Rightarrow> (bool \<times> uint32 \<times> PseudoTcp) exec" where
  "transmit_loop E s i nTransmit =
     (let seg = m_slist s ! i in
      andThen (packet E s (ss_seq seg) (if ss_bCtrl seg then FLAG_CTL else 0) (ss_seq seg - m_snd_una s) nTransmit)
      (\<lambda>(wres, s1).
        if wres = WR_SUCCESS then Inr (True, nTransmit, s1)
        else if wres = WR_FAIL then Inr (False, nTransmit, s1)
        else
          andThen (ASSERT (wres = WR_TOO_LARGE)) (\<lambda>_.
          andThen (lower_mss s1 nTransmit) (\<lambda>(ok, s2).
            if \<not> ok then Inr (False, nTransmit, s2) else transmit_loop E s2 i (m_mss s2)))))"
  by pat_completeness auto
termination
proof (relation "measure (\<lambda>(_, s, _, _). length PACKET_MAXIMUMS - m_msslevel s)", goal_cases)
  case 1
  then show ?case by simp
next
  case 2
  then show ?case by (auto dest!: packet_frame(2) lower_mss_level)
qed

declare transmit_loop.simps [simp del]

text \<open>The iterator is the index of the segment in \<open>m_slist\<close>. \<open>transmitted\<close> is the bookkeeping
  after a packet of \<open>nTransmit\<close> bytes went out.\<close>

definition transmitted :: "PseudoTcp \<Rightarrow> nat \<Rightarrow> uint32 \<Rightarrow> uint32 \<Rightarrow> PseudoTcp" where
  "transmitted s i nTransmit now =
     (let seg = m_slist s ! i;
          slist1 = (if nTransmit < ss_len seg then split_seg (m_slist s) i nTransmit (ss_xmit seg) else m_slist s);
          seg1 = slist1 ! i
      in s\<lparr>m_snd_nxt := (if ss_xmit seg1 = 0 then m_snd_nxt s + ss_len seg1 else m_snd_nxt s),
           m_slist := slist1[i := seg1\<lparr>ss_xmit := ss_xmit seg1 + 1\<rparr>],
           m_rto_base := (if m_rto_base s = 0 then now else m_rto_base s)\<rparr>)"

definition too_many_xmits :: "PseudoTcp \<Rightarrow> nat \<Rightarrow> bool" where
  "too_many_xmits s i \<longleftrightarrow> ss_xmit (m_slist s ! i) \<ge> (if m_state s = TCP_ESTABLISHED then 15 else 30)"

definition transmit :: "Env \<Rightarrow> PseudoTcp \<Rightarrow> nat \<Rightarrow> uint32 \<Rightarrow> (bool \<times> PseudoTcp) exec" where
  "transmit E s i now =
     (if i < length (m_slist s) then
        if too_many_xmits s i then Inr (False, s)
        else
          andThen (transmit_loop E s i (min (ss_len (m_slist s ! i)) (m_mss s))) (\<lambda>(ok, nTransmit, s1).
            if \<not> ok then Inr (False, s1) else Inr (True, transmitted s1 i nTransmit now))
      else Inl Out_of_bounds)"

lemma transmit_True:
  "transmit E s i now = Inr (True, s') \<longleftrightarrow>
   i < length (m_slist s) \<and> \<not> too_many_xmits s i \<and>
   (\<exists>n s1. transmit_loop E s i (min (ss_len (m_slist s ! i)) (m_mss s)) = Inr (True, n, s1) \<and>
      s' = transmitted s1 i n now)"
  by (auto simp: transmit_def andThen_eq_Inr_iff split: if_splits)

lemma transmit_False:
  "transmit E s i now = Inr (False, s') \<longleftrightarrow>
   i < length (m_slist s) \<and> (too_many_xmits s i \<and> s' = s \<or> \<not> too_many_xmits s i \<and>
   (\<exists>n. transmit_loop E s i (min (ss_len (m_slist s ! i)) (m_mss s)) = Inr (False, n, s')))"
  by (auto simp: transmit_def andThen_eq_Inr_iff split: if_splits)

text \<open>The window computation at the top of the sending loop: the number of bytes to send now.\<close>

definition nWindow :: "PseudoTcp \<Rightarrow> uint32" where
  "nWindow s =
     min (m_snd_wnd s)
       (if m_dup_acks s = 1 \<or> m_dup_acks s = 2 then m_cwnd s + ucast (m_dup_acks s) * m_mss s else m_cwnd s)"

definition nAvailable :: "PseudoTcp \<Rightarrow> uint32" where
  "nAvailable s =
     (let nInFlight = m_snd_nxt s - m_snd_una s;
          nUseable = (if nInFlight < nWindow s then nWindow s - nInFlight else 0);
          nAvail = min (of_nat (GetBuffered (m_sbuf s)) - nInFlight) (m_mss s)
      in if nAvail > nUseable then (if nUseable * 4 < nWindow s then 0 else nUseable) else nAvail)"

fun next_unsent :: "SSegment list \<Rightarrow> nat \<Rightarrow> nat exec" where
  "next_unsent [] i = Inl (if i = 0 then Out_of_bounds else Assertion_failed)"
| "next_unsent (seg # segs) i = (if ss_xmit seg > 0 then next_unsent segs (Suc i) else Inr i)"

definition break_seg :: "PseudoTcp \<Rightarrow> nat \<Rightarrow> uint32 \<Rightarrow> PseudoTcp" where
  "break_seg s i n =
     (if ss_len (m_slist s ! i) > n then s\<lparr>m_slist := split_seg (m_slist s) i n 0\<rparr> else s)"

subsubsection \<open>The sending loop ends\<close>

text \<open>Every round transmits a segment that had not been transmitted; a segment counts twice its
  length and one more, so that breaking one up and transmitting the first part is progress.\<close>

fun unsent :: "SSegment list \<Rightarrow> nat" where
  "unsent [] = 0"
| "unsent (seg # segs) = (if ss_xmit seg = 0 then Suc (2 * unat (ss_len seg)) else 0) + unsent segs"

lemma unsent_append [simp]: "unsent (xs @ ys) = unsent xs + unsent ys"
  by (induction xs) simp_all

lemma unsent_at:
  assumes "i < length xs"
  shows "unsent xs = unsent (take i xs) + unsent [xs ! i] + unsent (drop (Suc i) xs)"
  by (subst id_take_nth_drop [OF assms]) simp

lemma unsent_split:
  assumes "i < length xs" and "ss_xmit (xs ! i) = 0" and "n < ss_len (xs ! i)"
  shows "unsent (split_seg xs i n 0) = Suc (unsent xs)"
  using assms unsent_at [OF assms(1)]
  by (simp add: split_seg_def Let_def new_SSegment_def unat_sub word_less_nat_alt order_less_imp_le)

lemma split_seg_nth:
  assumes "i < length xs"
  shows "split_seg xs i n x ! i = (xs ! i)\<lparr>ss_len := n\<rparr>" and "length (split_seg xs i n x) = Suc (length xs)"
  using assms by (simp_all add: split_seg_def Let_def nth_append)

lemma unsent_mark:
  assumes "i < length xs" and "ss_xmit (xs ! i) = 0"
  shows "unsent (xs[i := (xs ! i)\<lparr>ss_xmit := 1\<rparr>]) + Suc (2 * unat (ss_len (xs ! i))) = unsent xs"
  using assms unsent_at [OF assms(1)]
  by (simp add: upd_conv_take_nth_drop)

lemma next_unsent_Inr:
  "next_unsent xs k = Inr i \<Longrightarrow> k \<le> i \<and> i - k < length xs \<and> ss_xmit (xs ! (i - k)) = 0 \<and>
     (\<forall>j < i - k. ss_xmit (xs ! j) \<noteq> 0)"
proof (induction xs k rule: next_unsent.induct)
  case (2 seg segs k)
  show ?case
  proof (cases "ss_xmit seg > 0")
    case True
    with 2 have *: "Suc k \<le> i" "i - Suc k < length segs" "ss_xmit (segs ! (i - Suc k)) = 0"
      "\<forall>j < i - Suc k. ss_xmit (segs ! j) \<noteq> 0"
      by auto
    then have "i - k = Suc (i - Suc k)" by simp
    with * True show ?thesis by (auto simp: less_Suc_eq_0_disj)
  next
    case False
    with 2(2) show ?thesis by (simp add: word_gt_0)
  qed
qed simp

lemma transmit_loop_effect:
  "transmit_loop E s i n = Inr (ok, n', s') \<Longrightarrow>
   m_slist s' = m_slist s \<and> (0 < n \<longrightarrow> 0 < n') \<and> n' \<le> n"
proof (induction E s i n rule: transmit_loop.induct)
  case (1 E s i n)
  let ?seg = "m_slist s ! i"
  obtain wres s1 where P: "packet E s (ss_seq ?seg) (if ss_bCtrl ?seg then FLAG_CTL else 0)
      (ss_seq ?seg - m_snd_una s) n = Inr (wres, s1)"
    using 1(2) by (auto simp: transmit_loop.simps [of E s i n] Let_def andThen_eq_Inr_iff)
  note F = packet_frame [OF P]
  show ?case
  proof (cases wres)
    case WR_TOO_LARGE
    obtain ok1 s2 where L: "lower_mss s1 n = Inr (ok1, s2)"
      using 1(2) P WR_TOO_LARGE
      by (auto simp: transmit_loop.simps [of E s i n] Let_def andThen_eq_Inr_iff)
    have s2: "m_slist s2 = m_slist s1" using lower_mss_effect [OF L] by auto
    show ?thesis
    proof (cases ok1)
      case True
      then have T: "transmit_loop E s2 i (m_mss s2) = Inr (ok, n', s')"
        using 1(2) P WR_TOO_LARGE L by (simp add: transmit_loop.simps [of E s i n] Let_def)
      have "m_mss s2 < n" "0 < m_mss s2"
        using lower_mss_True L True by simp_all
      moreover have "m_slist s' = m_slist s2 \<and> (0 < m_mss s2 \<longrightarrow> 0 < n') \<and> n' \<le> m_mss s2"
        by (rule 1(1) [OF refl P refl _ _ _ L refl _ T]) (use True WR_TOO_LARGE in simp_all)
      ultimately show ?thesis using F s2 by auto
    next
      case False
      then have "n' = n" "s' = s2"
        using 1(2) P WR_TOO_LARGE L by (simp_all add: transmit_loop.simps [of E s i n] Let_def)
      then show ?thesis using F s2 by simp
    qed
  qed (use 1(2) P F in \<open>simp_all add: transmit_loop.simps [of E s i n] Let_def\<close>)
qed

lemma transmit_progress:
  assumes "transmit E s i now = Inr (True, s')" and "i < length (m_slist s)"
    and "ss_xmit (m_slist s ! i) = 0" and "0 < m_mss s"
  shows "Suc (unsent (m_slist s')) \<le> unsent (m_slist s)"
    and "0 < ss_len (m_slist s ! i) \<Longrightarrow> Suc (Suc (unsent (m_slist s'))) \<le> unsent (m_slist s)"
proof -
  let ?seg = "m_slist s ! i" and ?n0 = "min (ss_len (m_slist s ! i)) (m_mss s)"
  obtain n s1 where L: "transmit_loop E s i ?n0 = Inr (True, n, s1)" and s'0: "s' = transmitted s1 i n now"
    using assms(1) unfolding transmit_True by blast
  then have s': "m_slist s' = (let xs = (if n < ss_len ?seg then split_seg (m_slist s) i n 0 else m_slist s)
       in xs[i := (xs ! i)\<lparr>ss_xmit := ss_xmit (xs ! i) + 1\<rparr>])"
    using transmit_loop_effect [OF L] assms(3) by (simp add: transmitted_def Let_def)
  have n: "0 < ?n0 \<longrightarrow> 0 < n" "n \<le> ss_len ?seg" using transmit_loop_effect [OF L] by auto
  define xs where "xs = (if n < ss_len ?seg then split_seg (m_slist s) i n 0 else m_slist s)"
  have xs: "i < length xs" "ss_xmit (xs ! i) = 0" "ss_len (xs ! i) = n" "unsent xs = unsent (m_slist s) + (if n < ss_len ?seg then 1 else 0)"
    using assms(2,3) n unsent_split [OF assms(2,3), of n]
    by (auto simp: xs_def split_seg_nth)
  have "unsent (m_slist s') + Suc (2 * unat n) = unsent xs"
    using unsent_mark [OF xs(1,2)] xs by (simp add: s' xs_def [symmetric] Let_def)
  moreover have "n < ss_len ?seg \<Longrightarrow> 0 < unat n"
    using n(1) assms(4) by (auto simp: word_gt_0 unat_gt_0 min_def split: if_splits)
  moreover have "0 < ss_len ?seg \<Longrightarrow> 0 < unat n"
    using n(1) assms(4) by (auto simp: word_gt_0 unat_gt_0 min_def split: if_splits)
  ultimately show "Suc (unsent (m_slist s')) \<le> unsent (m_slist s)"
    "0 < ss_len (m_slist s ! i) \<Longrightarrow> Suc (Suc (unsent (m_slist s'))) \<le> unsent (m_slist s)"
    using xs(4) n(2) by (auto split: if_splits)
qed

lemma nAvailable_mss: "0 < nAvailable s \<Longrightarrow> 0 < m_mss s"
  by (auto simp: nAvailable_def Let_def word_gt_0 min_def split: if_splits)

text \<open>The part of the loop body after the window computation: acknowledge when there is nothing
  to send.\<close>

definition send_ack :: "Env \<Rightarrow> PseudoTcp \<Rightarrow> SendFlags \<Rightarrow> PseudoTcp exec" where
  "send_ack E s sflags =
     (if sflags = sfNone then Inr s
      else if sflags = sfImmediateAck \<or> m_t_ack s \<noteq> 0 then
        andThen (packet E s (m_snd_nxt s) 0 0 0) (\<lambda>(_, s1). Inr s1)
      else case Now E s of (t, s1) \<Rightarrow> Inr (s1\<lparr>m_t_ack := t\<rparr>))"

function attemptSend_loop :: "Env \<Rightarrow> PseudoTcp \<Rightarrow> SendFlags \<Rightarrow> uint32 \<Rightarrow> PseudoTcp exec" where
  "attemptSend_loop E s sflags now =
     (if nAvailable s = 0 then send_ack E s sflags
      else if m_use_nagling s \<and> m_snd_nxt s > m_snd_una s \<and> nAvailable s < m_mss s then Inr s
      else
        andThen (next_unsent (m_slist s) 0) (\<lambda>i.
        andThen (transmit E (break_seg s i (nAvailable s)) i now) (\<lambda>(ok, s1).
          if \<not> ok then Inr s1 else attemptSend_loop E s1 sfNone now)))"
  by pat_completeness auto

lemma attemptSend_decreases:
  assumes "nAvailable s \<noteq> 0" and "next_unsent (m_slist s) 0 = Inr i"
    and "transmit E (break_seg s i (nAvailable s)) i now = Inr (True, s1)"
  shows "unsent (m_slist s1) < unsent (m_slist s)"
proof -
  let ?n = "nAvailable s" and ?b = "break_seg s i (nAvailable s)"
  have i: "i < length (m_slist s)" "ss_xmit (m_slist s ! i) = 0"
    using next_unsent_Inr [OF assms(2)] by simp_all
  have mss: "0 < m_mss ?b" using nAvailable_mss [of s] assms(1) by (simp add: break_seg_def word_gt_0)
  have b: "i < length (m_slist ?b)" "ss_xmit (m_slist ?b ! i) = 0"
    using i by (auto simp: break_seg_def split_seg_nth)
  show ?thesis
  proof (cases "?n < ss_len (m_slist s ! i)")
    case True
    then have "unsent (m_slist ?b) = Suc (unsent (m_slist s))" "ss_len (m_slist ?b ! i) = ?n"
      using i by (simp_all add: break_seg_def split_seg_nth unsent_split)
    then show ?thesis
      using transmit_progress(2) [OF assms(3) b mss] assms(1) by (simp add: word_gt_0)
  next
    case False
    then show ?thesis
      using transmit_progress(1) [OF assms(3) b mss] by (simp add: break_seg_def)
  qed
qed

termination attemptSend_loop
proof (relation "measure (\<lambda>(_, s, _, _). unsent (m_slist s))", goal_cases)
  case 1
  then show ?case by simp
next
  case 2
  then show ?case using attemptSend_decreases by simp
qed

declare attemptSend_loop.simps [simp del]

definition attemptSend :: "Env \<Rightarrow> PseudoTcp \<Rightarrow> SendFlags \<Rightarrow> PseudoTcp exec" where
  "attemptSend E s sflags =
     (case Now E s of (now, s1) \<Rightarrow>
      let s2 = (if TimeDiff now (m_lastsend s1) > uint (m_rx_rto s1) then s1\<lparr>m_cwnd := m_mss s1\<rparr> else s1)
      in attemptSend_loop E s2 sflags now)"

subsection \<open>Options and connection set-up\<close>

definition queueConnectMessage :: "Env \<Rightarrow> PseudoTcp \<Rightarrow> PseudoTcp exec" where
  "queueConnectMessage E s =
     (let g = env_junk E;
          buf = WriteUInt8 g (new_ByteBuffer g ORDER_NETWORK) CTL_CONNECT;
          buf1 = (if m_support_wnd_scale s
                  then WriteUInt8 g (WriteUInt8 g (WriteUInt8 g buf TCP_OPT_WND_SCALE) 1) (m_rwnd_scale s)
                  else buf);
          s1 = s\<lparr>m_snd_wnd := of_nat (BB_Length buf1)\<rparr>
      in andThen (queue s1 (BB_Data buf1) (of_nat (BB_Length buf1)) True) (\<lambda>(_, s2). Inr s2))"

lemma unat_drop_bit_1: "unat (drop_bit (Suc 0) x) = unat x div 2" for x :: uint32
  by (simp add: drop_bit_eq_div unat_div)

function scale_down :: "uint32 \<Rightarrow> uint8 \<Rightarrow> uint32 \<times> uint8" where
  "scale_down new_size scale_factor =
     (if new_size > 0xFFFF then scale_down (drop_bit 1 new_size) (scale_factor + 1)
      else (new_size, scale_factor))"
  by pat_completeness auto
termination
  by (relation "measure (\<lambda>(n, _). unat n)") (auto simp: unat_drop_bit_1 word_less_nat_alt)

declare scale_down.simps [simp del]

definition resizeReceiveBuffer :: "Env \<Rightarrow> PseudoTcp \<Rightarrow> uint32 \<Rightarrow> PseudoTcp exec" where
  "resizeReceiveBuffer E s size0 =
     (case scale_down size0 0 of (size1, scale_factor) \<Rightarrow>
      andThen (SHIFT scale_factor) (\<lambda>_.
      let new_size = push_bit (unat scale_factor) size1 in
      case SetCapacity (env_junk E) (m_rbuf s) (unat new_size) of (result, rbuf) \<Rightarrow>
      andThen (ASSERT result) (\<lambda>_.
      Inr (s\<lparr>m_rbuf := rbuf, m_rbuf_len := new_size, m_rwnd_scale := scale_factor, m_ssthresh := new_size,
             m_rcv_wnd := of_nat (GetWriteRemaining rbuf)\<rparr>))))"

definition resizeSendBuffer :: "Env \<Rightarrow> PseudoTcp \<Rightarrow> uint32 \<Rightarrow> PseudoTcp" where
  "resizeSendBuffer E s new_size =
     s\<lparr>m_sbuf_len := new_size, m_sbuf := snd (SetCapacity (env_junk E) (m_sbuf s) (unat new_size))\<rparr>"

definition applyWindowScaleOption :: "PseudoTcp \<Rightarrow> uint8 \<Rightarrow> PseudoTcp" where
  "applyWindowScaleOption s scale_factor = s\<lparr>m_swnd_scale := scale_factor\<rparr>"

definition applyOption :: "PseudoTcp \<Rightarrow> uint8 \<Rightarrow> byte list \<Rightarrow> uint32 \<Rightarrow> PseudoTcp" where
  "applyOption s kind data len =
     (if kind = TCP_OPT_MSS then s
      else if kind = TCP_OPT_WND_SCALE then
        if len \<noteq> 1 then s else applyWindowScaleOption s (data ! 0)
      else s)"

text \<open>One round of the loop of \<open>parseOptions\<close> consumes at least the option's kind. The result
  tells whether the loop ended or the function returned on a bad length. A read that fails
  leaves its variable at 0.\<close>

definition read8_or_0 :: "ByteBuffer \<Rightarrow> uint8 \<times> ByteBuffer" where
  "read8_or_0 buf = (case ReadUInt8 buf of Some (v, buf') \<Rightarrow> (v, buf') | None \<Rightarrow> (0, buf))"

lemma read8_shrinks:
  "read8_or_0 buf = (v, buf') \<Longrightarrow> BB_Length buf' \<le> BB_Length buf \<and> (0 < BB_Length buf \<longrightarrow> BB_Length buf' < BB_Length buf)"
  by (auto simp: read8_or_0_def ReadUInt8_def ReadBytes_def BB_Length_def split: option.splits if_splits)

function option_loop :: "PseudoTcp \<Rightarrow> ByteBuffer \<Rightarrow> uint8 set \<Rightarrow> bool \<times> uint8 set \<times> PseudoTcp" where
  "option_loop s buf specified =
     (if BB_Length buf = 0 then (True, specified, s)
      else
        case read8_or_0 buf of (kind, buf1) \<Rightarrow>
        if kind = TCP_OPT_EOL then (True, specified, s)
        else if kind = TCP_OPT_NOOP then option_loop s buf1 specified
        else
          case read8_or_0 buf1 of (opt_len, buf2) \<Rightarrow>
          if unat opt_len \<le> BB_Length buf2 then
            option_loop (applyOption s kind (BB_Data buf2) (ucast opt_len)) (snd (Consume buf2 (unat opt_len)))
              (insert kind specified)
          else (False, specified, s))"
  by pat_completeness auto
termination
proof (relation "measure (\<lambda>(_, buf, _). BB_Length buf)", goal_cases)
  case 1
  then show ?case by simp
next
  case 2
  then show ?case by (auto dest!: read8_shrinks [OF sym])
next
  case (3 s buf specified kind buf1 opt_len buf2)
  then have "BB_Length buf1 < BB_Length buf" "BB_Length buf2 \<le> BB_Length buf1"
    using read8_shrinks [of buf kind buf1] read8_shrinks [of buf1 opt_len buf2] by simp_all
  then show ?case by (simp add: Consume_def BB_Length_def) linarith
qed

declare option_loop.simps [simp del]

text \<open>The assertion \<open>len != 0\<close> in the loop holds whenever its body runs: the buffer holds at
  most \<open>len\<close> bytes.\<close>

definition parseOptions :: "Env \<Rightarrow> PseudoTcp \<Rightarrow> byte list \<Rightarrow> uint32 \<Rightarrow> PseudoTcp exec" where
  "parseOptions E s data len =
     (case option_loop s (ByteBuffer_of (env_junk E) data (unat len)) {} of (ended, specified, s1) \<Rightarrow>
        if ended \<and> TCP_OPT_WND_SCALE \<notin> specified \<and> m_rwnd_scale s1 > 0 then
          andThen (resizeReceiveBuffer E s1 DEFAULT_RCV_BUF_SIZE) (\<lambda>s2. Inr (s2\<lparr>m_swnd_scale := 0\<rparr>))
        else Inr s1)"

subsection \<open>Processing a segment\<close>

definition has_flag :: "Segment \<Rightarrow> uint8 \<Rightarrow> bool" where
  "has_flag seg flag \<longleftrightarrow> seg_flags seg AND flag \<noteq> 0"

text \<open>Control data: the results are whether to go on, \<open>bConnect\<close> and the state.\<close>

definition process_control :: "Env \<Rightarrow> PseudoTcp \<Rightarrow> Segment \<Rightarrow> (bool \<times> bool \<times> PseudoTcp) exec" where
  "process_control E s seg =
     (if \<not> has_flag seg FLAG_CTL then Inr (True, False, s)
      else if seg_len seg = 0 then Inr (False, False, s)
      else if seg_data seg = [] then Inl Out_of_bounds
      else if seg_data seg ! 0 = CTL_CONNECT then
        andThen (parseOptions E s (drop 1 (seg_data seg)) (seg_len seg - 1)) (\<lambda>s1.
          if m_state s1 = TCP_LISTEN then
            andThen (queueConnectMessage E (s1\<lparr>m_state := TCP_SYN_RECEIVED\<rparr>)) (\<lambda>s2. Inr (True, True, s2))
          else if m_state s1 = TCP_SYN_SENT then
            Inr (True, True, notify OnTcpOpen (adjustMTU (s1\<lparr>m_state := TCP_ESTABLISHED\<rparr>)))
          else Inr (True, True, s1))
      else Inr (False, False, s))"

definition process_timestamp :: "PseudoTcp \<Rightarrow> Segment \<Rightarrow> PseudoTcp" where
  "process_timestamp s seg =
     (if seg_seq seg \<le> m_ts_lastack s \<and> m_ts_lastack s < seg_seq seg + seg_len seg
      then s\<lparr>m_ts_recent := seg_tsval seg\<rparr> else s)"

definition update_rtt :: "PseudoTcp \<Rightarrow> uint32 \<Rightarrow> uint32 \<Rightarrow> PseudoTcp exec" where
  "update_rtt s now tsecr =
     (if tsecr \<noteq> 0 then
        (let rtt = TimeDiff now tsecr in
         if rtt \<ge> 0 then
           (let s1 = (if m_rx_srtt s = 0
                      then s\<lparr>m_rx_srtt := word_of_int rtt, m_rx_rttvar := word_of_int (rtt div 2)\<rparr>
                      else s\<lparr>m_rx_rttvar := word_of_int ((uint (3 * m_rx_rttvar s) + \<bar>rtt - uint (m_rx_srtt s)\<bar>) div 4),
                             m_rx_srtt := word_of_int ((uint (7 * m_rx_srtt s) + rtt) div 8)\<rparr>)
            in Inr (s1\<lparr>m_rx_rto := bound MIN_RTO (m_rx_srtt s1 + max 1 (4 * m_rx_rttvar s1)) MAX_RTO\<rparr>))
         else Inl Assertion_failed)
      else Inr s)"

fun free_acked :: "SSegment list \<Rightarrow> uint32 \<Rightarrow> uint32 \<Rightarrow> (SSegment list \<times> uint32) exec" where
  "free_acked [] nFree largest = (if nFree > 0 then Inl Assertion_failed else Inr ([], largest))"
| "free_acked (seg # segs) nFree largest =
     (if nFree > 0 then
        if nFree < ss_len seg then Inr (seg\<lparr>ss_len := ss_len seg - nFree\<rparr> # segs, largest)
        else free_acked segs (nFree - ss_len seg) (if ss_len seg > largest then ss_len seg else largest)
      else Inr (seg # segs, largest))"

text \<open>A valuable acknowledgement, up to the release of the acknowledged data.\<close>

definition process_acked :: "PseudoTcp \<Rightarrow> Segment \<Rightarrow> uint32 \<Rightarrow> PseudoTcp exec" where
  "process_acked s seg now =
     andThen (update_rtt s now (seg_tsecr seg)) (\<lambda>s1.
     andThen (SHIFT (m_swnd_scale s1)) (\<lambda>_.
     let nAcked = seg_ack seg - m_snd_una s1;
         s2 = s1\<lparr>m_snd_wnd := push_bit (unat (m_swnd_scale s1)) (ucast (seg_wnd seg)), m_snd_una := seg_ack seg,
                 m_rto_base := (if seg_ack seg = m_snd_nxt s1 then 0 else now)\<rparr>
     in andThen (ConsumeReadData (m_sbuf s2) (unat nAcked)) (\<lambda>sbuf.
        andThen (free_acked (m_slist s2) nAcked (m_largest s2)) (\<lambda>(slist, largest).
        Inr (s2\<lparr>m_sbuf := sbuf, m_slist := slist, m_largest := largest\<rparr>)))))"

text \<open>The congestion window after it. The result tells whether to go on.\<close>

definition process_cwnd :: "Env \<Rightarrow> PseudoTcp \<Rightarrow> uint32 \<Rightarrow> uint32 \<Rightarrow> (bool \<times> PseudoTcp) exec" where
  "process_cwnd E s nAcked now =
     (if m_dup_acks s \<ge> 3 then
        if m_snd_una s \<ge> m_recover s then
          Inr (True, s\<lparr>m_cwnd := min (m_ssthresh s) (m_snd_nxt s - m_snd_una s + m_mss s), m_dup_acks := 0\<rparr>)
        else
          andThen (transmit E s 0 now) (\<lambda>(ok, s1).
            if \<not> ok then Inr (False, closedown s1 ECONNABORTED)
            else Inr (True, s1\<lparr>m_cwnd := m_cwnd s1 + (m_mss s1 - min nAcked (m_cwnd s1))\<rparr>))
      else if m_cwnd s < m_ssthresh s then
        Inr (True, s\<lparr>m_dup_acks := 0, m_cwnd := m_cwnd s + m_mss s\<rparr>)
      else if m_cwnd s = 0 then Inl Division_by_zero
      else
        Inr (True, s\<lparr>m_dup_acks := 0, m_cwnd := m_cwnd s + max 1 (m_mss s * m_mss s div m_cwnd s)\<rparr>))"

definition process_dup_ack :: "Env \<Rightarrow> PseudoTcp \<Rightarrow> Segment \<Rightarrow> uint32 \<Rightarrow> (bool \<times> PseudoTcp) exec" where
  "process_dup_ack E s seg now =
     andThen (SHIFT (m_swnd_scale s)) (\<lambda>_.
     let s1 = s\<lparr>m_snd_wnd := push_bit (unat (m_swnd_scale s)) (ucast (seg_wnd seg))\<rparr> in
     if seg_len seg > 0 then Inr (True, s1)
     else if m_snd_una s1 \<noteq> m_snd_nxt s1 then
       let s2 = s1\<lparr>m_dup_acks := m_dup_acks s1 + 1\<rparr> in
       if m_dup_acks s2 = 3 then
         andThen (transmit E s2 0 now) (\<lambda>(ok, s3).
           if \<not> ok then Inr (False, closedown s3 ECONNABORTED)
           else
             let nInFlight = m_snd_nxt s3 - m_snd_una s3;
                 ssthresh = max (nInFlight div 2) (2 * m_mss s3)
             in Inr (True, s3\<lparr>m_recover := m_snd_nxt s3, m_ssthresh := ssthresh, m_cwnd := ssthresh + 3 * m_mss s3\<rparr>))
       else if m_dup_acks s2 > 3 then Inr (True, s2\<lparr>m_cwnd := m_cwnd s2 + m_mss s2\<rparr>)
       else Inr (True, s2)
     else Inr (True, s1\<lparr>m_dup_acks := 0\<rparr>))"

definition process_ack :: "Env \<Rightarrow> PseudoTcp \<Rightarrow> Segment \<Rightarrow> uint32 \<Rightarrow> (bool \<times> PseudoTcp) exec" where
  "process_ack E s seg now =
     (if seg_ack seg > m_snd_una s \<and> seg_ack seg \<le> m_snd_nxt s then
        andThen (process_acked s seg now) (\<lambda>s1. process_cwnd E s1 (seg_ack seg - m_snd_una s) now)
      else if seg_ack seg = m_snd_una s then process_dup_ack E s seg now
      else Inr (True, s))"

definition process_open :: "PseudoTcp \<Rightarrow> bool \<Rightarrow> PseudoTcp" where
  "process_open s bConnect =
     (if m_state s = TCP_SYN_RECEIVED \<and> \<not> bConnect
      then notify OnTcpOpen (adjustMTU (s\<lparr>m_state := TCP_ESTABLISHED\<rparr>)) else s)"

definition process_writeable :: "PseudoTcp \<Rightarrow> PseudoTcp" where
  "process_writeable s =
     (let kIdealRefillSize = (m_sbuf_len s + m_rbuf_len s) div 2 in
      if m_bWriteEnable s \<and> of_nat (GetBuffered (m_sbuf s)) < kIdealRefillSize
      then notify OnTcpWriteable (s\<lparr>m_bWriteEnable := False\<rparr>) else s)"

definition ack_flags :: "PseudoTcp \<Rightarrow> Segment \<Rightarrow> SendFlags" where
  "ack_flags s seg =
     (if seg_seq seg \<noteq> m_rcv_nxt s then sfImmediateAck
      else if seg_len seg \<noteq> 0 then (if m_ack_delay s = 0 then sfImmediateAck else sfDelayedAck)
      else sfNone)"

definition trim_old :: "PseudoTcp \<Rightarrow> Segment \<Rightarrow> Segment" where
  "trim_old s seg =
     (if seg_seq seg < m_rcv_nxt s then
        (let nAdjust = m_rcv_nxt s - seg_seq seg in
         if nAdjust < seg_len seg
         then seg\<lparr>seg_seq := seg_seq seg + nAdjust, seg_data := drop (unat nAdjust) (seg_data seg),
                  seg_len := seg_len seg - nAdjust\<rparr>
         else seg\<lparr>seg_len := 0\<rparr>)
      else seg)"

definition trim_new :: "PseudoTcp \<Rightarrow> Segment \<Rightarrow> Segment" where
  "trim_new s seg =
     (let available_space = of_nat (GetWriteRemaining (m_rbuf s)) in
      if seg_seq seg + seg_len seg - m_rcv_nxt s > available_space then
        (let nAdjust = seg_seq seg + seg_len seg - m_rcv_nxt s - available_space in
         if nAdjust < seg_len seg then seg\<lparr>seg_len := seg_len seg - nAdjust\<rparr> else seg\<lparr>seg_len := 0\<rparr>)
      else seg)"

fun drain_rlist :: "RSegment list \<Rightarrow> PseudoTcp \<Rightarrow> SendFlags \<Rightarrow> (SendFlags \<times> PseudoTcp) exec" where
  "drain_rlist [] s sflags = Inr (sflags, s\<lparr>m_rlist := []\<rparr>)"
| "drain_rlist (r # rs) s sflags =
     (if rs_seq r \<le> m_rcv_nxt s then
        if rs_seq r + rs_len r > m_rcv_nxt s then
          (let nAdjust = rs_seq r + rs_len r - m_rcv_nxt s in
           andThen (ConsumeWriteBuffer (m_rbuf s) (unat nAdjust)) (\<lambda>rbuf.
           drain_rlist rs (s\<lparr>m_rbuf := rbuf, m_rcv_nxt := m_rcv_nxt s + nAdjust, m_rcv_wnd := m_rcv_wnd s - nAdjust\<rparr>)
             sfImmediateAck))
        else drain_rlist rs s sflags
      else Inr (sflags, s\<lparr>m_rlist := r # rs\<rparr>))"

definition insert_rseg :: "RSegment \<Rightarrow> RSegment list \<Rightarrow> RSegment list" where
  "insert_rseg r rs = takeWhile (\<lambda>x. rs_seq x < rs_seq r) rs @ r # dropWhile (\<lambda>x. rs_seq x < rs_seq r) rs"

text \<open>The data of the trimmed segment; the results are \<open>bNewData\<close>, \<open>sflags\<close> and the state.\<close>

definition process_data :: "PseudoTcp \<Rightarrow> Segment \<Rightarrow> SendFlags \<Rightarrow> (bool \<times> SendFlags \<times> PseudoTcp) exec" where
  "process_data s seg sflags =
     (let bIgnoreData = (has_flag seg FLAG_CTL \<or> m_shutdown s \<noteq> SD_NONE) in
      if seg_len seg > 0 then
        if bIgnoreData then
          Inr (False, sflags,
               if seg_seq seg = m_rcv_nxt s then s\<lparr>m_rcv_nxt := m_rcv_nxt s + seg_len seg\<rparr> else s)
        else if length (seg_data seg) < unat (seg_len seg) then Inl Out_of_bounds
        else
          case WriteOffset (m_rbuf s) (take (unat (seg_len seg)) (seg_data seg)) (unat (seg_seq seg - m_rcv_nxt s)) of
            (result, _, rbuf) \<Rightarrow>
          andThen (ASSERT (result = SR_SUCCESS)) (\<lambda>_.
          if seg_seq seg = m_rcv_nxt s then
            andThen (ConsumeWriteBuffer rbuf (unat (seg_len seg))) (\<lambda>rbuf1.
            andThen (drain_rlist (m_rlist s)
                (s\<lparr>m_rbuf := rbuf1, m_rcv_nxt := m_rcv_nxt s + seg_len seg, m_rcv_wnd := m_rcv_wnd s - seg_len seg\<rparr>)
                sflags) (\<lambda>(sflags1, s1).
            Inr (True, sflags1, s1)))
          else
            Inr (False, sflags,
                 s\<lparr>m_rbuf := rbuf,
                   m_rlist := insert_rseg \<lparr>rs_seq = seg_seq seg, rs_len = seg_len seg\<rparr> (m_rlist s)\<rparr>))
      else Inr (False, sflags, s))"

definition process_readable :: "PseudoTcp \<Rightarrow> bool \<Rightarrow> PseudoTcp" where
  "process_readable s bNewData =
     (if bNewData \<and> m_bReadEnable s then notify OnTcpReadable (s\<lparr>m_bReadEnable := False\<rparr>) else s)"

text \<open>The second half of \<open>process\<close>: what follows the acknowledgement.\<close>

definition process_rest :: "Env \<Rightarrow> PseudoTcp \<Rightarrow> Segment \<Rightarrow> bool \<Rightarrow> (bool \<times> PseudoTcp) exec" where
  "process_rest E s seg bConnect =
     (let s1 = process_writeable (process_open s bConnect);
          sflags = ack_flags s1 seg;
          seg2 = trim_new s1 (trim_old s1 seg)
      in andThen (process_data s1 seg2 sflags) (\<lambda>(bNewData, sflags1, s2).
         andThen (attemptSend E s2 sflags1) (\<lambda>s3.
         Inr (True, process_readable s3 bNewData))))"

definition process :: "Env \<Rightarrow> PseudoTcp \<Rightarrow> Segment \<Rightarrow> (bool \<times> PseudoTcp) exec" where
  "process E s seg =
     (if seg_conv seg \<noteq> m_conv s then Inr (False, s)
      else
        case Now E s of (now, s1) \<Rightarrow>
        let s2 = s1\<lparr>m_lasttraffic := now, m_lastrecv := now, m_bOutgoing := False\<rparr> in
        if m_state s2 = TCP_CLOSED then Inr (False, s2)
        else if has_flag seg FLAG_RST then Inr (False, closedown s2 ECONNRESET)
        else
          andThen (process_control E s2 seg) (\<lambda>(ok, bConnect, s3).
          if \<not> ok then Inr (False, s3)
          else
            andThen (process_ack E (process_timestamp s3 seg) seg now) (\<lambda>(ok1, s4).
            if \<not> ok1 then Inr (False, s4) else process_rest E s4 seg bConnect)))"

subsection \<open>Public operations\<close>

definition parse :: "Env \<Rightarrow> PseudoTcp \<Rightarrow> byte list \<Rightarrow> (bool \<times> PseudoTcp) exec" where
  "parse E s buffer =
     (if length buffer < 12 then Inr (False, s)
      else
        andThen (bytes_to_long (env_big E) buffer 0) (\<lambda>conv.
        andThen (bytes_to_long (env_big E) buffer 4) (\<lambda>seq.
        andThen (bytes_to_long (env_big E) buffer 8) (\<lambda>ack.
        andThen (if 13 < length buffer then Inr (buffer ! 13) else Inl Out_of_bounds) (\<lambda>flags.
        andThen (bytes_to_short (env_big E) buffer 14) (\<lambda>wnd.
        andThen (bytes_to_long (env_big E) buffer 16) (\<lambda>tsval.
        andThen (bytes_to_long (env_big E) buffer 20) (\<lambda>tsecr.
        process E s
          \<lparr>seg_conv = conv, seg_seq = seq, seg_ack = ack, seg_flags = flags, seg_wnd = wnd,
           seg_data = drop (unat HEADER_SIZE) buffer, seg_len = of_nat (length buffer) - HEADER_SIZE,
           seg_tsval = tsval, seg_tsecr = tsecr\<rparr>))))))))"

definition NotifyPacket :: "Env \<Rightarrow> PseudoTcp \<Rightarrow> byte list \<Rightarrow> (bool \<times> PseudoTcp) exec" where
  "NotifyPacket E s buffer =
     (if length buffer > unat MAX_PACKET then Inr (False, s) else parse E s buffer)"

definition Connect :: "Env \<Rightarrow> PseudoTcp \<Rightarrow> (int \<times> PseudoTcp) exec" where
  "Connect E s =
     (if m_state s \<noteq> TCP_LISTEN then Inr (- 1, s\<lparr>m_error := EINVAL\<rparr>)
      else
        andThen (queueConnectMessage E (s\<lparr>m_state := TCP_SYN_SENT\<rparr>)) (\<lambda>s1.
        andThen (attemptSend E s1 sfNone) (\<lambda>s2. Inr (0, s2))))"

text \<open>\<open>NotifyClock\<close>: the retransmission, the probe of a closed window and the delayed
  acknowledgement. The first two tell whether to go on.\<close>

definition clock_retransmit :: "Env \<Rightarrow> PseudoTcp \<Rightarrow> uint32 \<Rightarrow> (bool \<times> PseudoTcp) exec" where
  "clock_retransmit E s now =
     (if m_rto_base s \<noteq> 0 \<and> TimeDiff (m_rto_base s + m_rx_rto s) now \<le> 0 then
        if m_slist s = [] then Inl Assertion_failed
        else
          andThen (transmit E s 0 now) (\<lambda>(ok, s1).
            if \<not> ok then Inr (False, closedown s1 ECONNABORTED)
            else
              let nInFlight = m_snd_nxt s1 - m_snd_una s1;
                  rto_limit = (if m_state s1 \<in> {TCP_LISTEN, TCP_SYN_SENT, TCP_SYN_RECEIVED} then DEF_RTO else MAX_RTO)
              in Inr (True,
                   s1\<lparr>m_ssthresh := max (nInFlight div 2) (2 * m_mss s1), m_cwnd := m_mss s1,
                      m_rx_rto := min rto_limit (m_rx_rto s1 * 2), m_rto_base := now\<rparr>))
      else Inr (True, s))"

definition clock_probe :: "Env \<Rightarrow> PseudoTcp \<Rightarrow> uint32 \<Rightarrow> (bool \<times> PseudoTcp) exec" where
  "clock_probe E s now =
     (if m_snd_wnd s = 0 \<and> TimeDiff (m_lastsend s + m_rx_rto s) now \<le> 0 then
        if TimeDiff now (m_lastrecv s) \<ge> 15000 then Inr (False, closedown s ECONNABORTED)
        else
          andThen (packet E s (m_snd_nxt s - 1) 0 0 0) (\<lambda>(_, s1).
            Inr (True, s1\<lparr>m_lastsend := now, m_rx_rto := min MAX_RTO (m_rx_rto s1 * 2)\<rparr>))
      else Inr (True, s))"

definition clock_delayed_ack :: "Env \<Rightarrow> PseudoTcp \<Rightarrow> uint32 \<Rightarrow> PseudoTcp exec" where
  "clock_delayed_ack E s now =
     (if m_t_ack s \<noteq> 0 \<and> TimeDiff (m_t_ack s + m_ack_delay s) now \<le> 0 then
        andThen (packet E s (m_snd_nxt s) 0 0 0) (\<lambda>(_, s1). Inr s1)
      else Inr s)"

definition NotifyClock :: "Env \<Rightarrow> PseudoTcp \<Rightarrow> uint32 \<Rightarrow> PseudoTcp exec" where
  "NotifyClock E s now =
     (if m_state s = TCP_CLOSED then Inr s
      else
        andThen (clock_retransmit E s now) (\<lambda>(on, s1).
        if \<not> on then Inr s1
        else
          andThen (clock_probe E s1 now) (\<lambda>(on1, s2).
          if \<not> on1 then Inr s2 else clock_delayed_ack E s2 now)))"

text \<open>\<open>clock_check\<close> is the timeout, or \<open>None\<close> when it returns false.\<close>

definition clock_check :: "PseudoTcp \<Rightarrow> uint32 \<Rightarrow> int option" where
  "clock_check s now =
     (if m_shutdown s = SD_FORCEFUL then None
      else if m_shutdown s = SD_GRACEFUL \<and>
        (m_state s \<noteq> TCP_ESTABLISHED \<or> GetBuffered (m_sbuf s) = 0 \<and> m_t_ack s = 0) then None
      else if m_state s = TCP_CLOSED then Some CLOSED_TIMEOUT
      else
        let t0 = DEFAULT_TIMEOUT;
            t1 = (if m_t_ack s \<noteq> 0 then min t0 (TimeDiff (m_t_ack s + m_ack_delay s) now) else t0);
            t2 = (if m_rto_base s \<noteq> 0 then min t1 (TimeDiff (m_rto_base s + m_rx_rto s) now) else t1);
            t3 = (if m_snd_wnd s = 0 then min t2 (TimeDiff (m_lastsend s + m_rx_rto s) now) else t2)
        in Some t3)"

definition GetNextClock :: "PseudoTcp \<Rightarrow> uint32 \<Rightarrow> int option" where
  "GetNextClock s now = clock_check s now"

definition GetOption :: "PseudoTcp \<Rightarrow> TcpOption \<Rightarrow> int" where
  "GetOption s opt =
     (case opt of
        OPT_NODELAY \<Rightarrow> (if m_use_nagling s then 0 else 1)
      | OPT_ACKDELAY \<Rightarrow> sint (m_ack_delay s)
      | OPT_SNDBUF \<Rightarrow> sint (m_sbuf_len s)
      | OPT_RCVBUF \<Rightarrow> sint (m_rbuf_len s))"

definition SetOption :: "Env \<Rightarrow> PseudoTcp \<Rightarrow> TcpOption \<Rightarrow> int \<Rightarrow> PseudoTcp exec" where
  "SetOption E s opt val =
     (case opt of
        OPT_NODELAY \<Rightarrow> Inr (s\<lparr>m_use_nagling := (val = 0)\<rparr>)
      | OPT_ACKDELAY \<Rightarrow> Inr (s\<lparr>m_ack_delay := word_of_int val\<rparr>)
      | OPT_SNDBUF \<Rightarrow> andThen (ASSERT (m_state s = TCP_LISTEN)) (\<lambda>_. Inr (resizeSendBuffer E s (word_of_int val)))
      | OPT_RCVBUF \<Rightarrow> andThen (ASSERT (m_state s = TCP_LISTEN)) (\<lambda>_. resizeReceiveBuffer E s (word_of_int val)))"

definition GetCongestionWindow :: "PseudoTcp \<Rightarrow> uint32" where
  "GetCongestionWindow s = m_cwnd s"

definition GetBytesInFlight :: "PseudoTcp \<Rightarrow> uint32" where
  "GetBytesInFlight s = m_snd_nxt s - m_snd_una s"

definition GetBytesBufferedNotSent :: "PseudoTcp \<Rightarrow> uint32" where
  "GetBytesBufferedNotSent s = m_snd_una s + of_nat (GetBuffered (m_sbuf s)) - m_snd_nxt s"

definition GetRoundTripTimeEstimateMs :: "PseudoTcp \<Rightarrow> uint32" where
  "GetRoundTripTimeEstimateMs s = m_rx_srtt s"

text \<open>\<open>Recv\<close> returns its result code, the bytes stored in the caller's buffer and the state.\<close>

definition Recv :: "Env \<Rightarrow> PseudoTcp \<Rightarrow> nat \<Rightarrow> (int \<times> byte list \<times> PseudoTcp) exec" where
  "Recv E s len =
     (if m_state s \<noteq> TCP_ESTABLISHED then Inr (SOCKET_ERROR, [], s\<lparr>m_error := ENOTCONN\<rparr>)
      else
        case FB_Read (m_rbuf s) len of (result, out, rbuf) \<Rightarrow>
        let s1 = s\<lparr>m_rbuf := rbuf\<rparr> in
        if result = SR_BLOCK then
          Inr (SOCKET_ERROR, [], s1\<lparr>m_bReadEnable := True, m_error := EWOULDBLOCK\<rparr>)
        else
          andThen (ASSERT (result = SR_SUCCESS)) (\<lambda>_.
          let available_space = of_nat (GetWriteRemaining rbuf) in
          if available_space - m_rcv_wnd s1 \<ge> min (m_rbuf_len s1 div 2) (m_mss s1) then
            let bWasClosed = (m_rcv_wnd s1 = 0);
                s2 = s1\<lparr>m_rcv_wnd := available_space\<rparr>
            in if bWasClosed then
                 andThen (attemptSend E s2 sfImmediateAck) (\<lambda>s3. Inr (int (length out), out, s3))
               else Inr (int (length out), out, s2)
          else Inr (int (length out), out, s1)))"

definition Send :: "Env \<Rightarrow> PseudoTcp \<Rightarrow> byte list \<Rightarrow> (int \<times> PseudoTcp) exec" where
  "Send E s data =
     (if m_state s \<noteq> TCP_ESTABLISHED then Inr (SOCKET_ERROR, s\<lparr>m_error := ENOTCONN\<rparr>)
      else if GetWriteRemaining (m_sbuf s) = 0 then
        Inr (SOCKET_ERROR, s\<lparr>m_bWriteEnable := True, m_error := EWOULDBLOCK\<rparr>)
      else
        andThen (queue s data (of_nat (length data)) False) (\<lambda>(written, s1).
        andThen (attemptSend E s1 sfNone) (\<lambda>s2. Inr (sint written, s2))))"

definition Close :: "PseudoTcp \<Rightarrow> bool \<Rightarrow> PseudoTcp" where
  "Close s force = s\<lparr>m_shutdown := (if force then SD_FORCEFUL else SD_GRACEFUL)\<rparr>"

definition GetError :: "PseudoTcp \<Rightarrow> int" where
  "GetError s = m_error s"

definition isReceiveBufferFull :: "PseudoTcp \<Rightarrow> bool" where
  "isReceiveBufferFull s \<longleftrightarrow> GetWriteRemaining (m_rbuf s) = 0"

definition disableWindowScale :: "PseudoTcp \<Rightarrow> PseudoTcp" where
  "disableWindowScale s = s\<lparr>m_support_wnd_scale := False\<rparr>"

end
