(* ===== verification/TcpFrame.thy ===== *)
theory TcpFrame
  imports PseudoTcp
begin

text \<open>
  Facts about the sending half of \<open>PseudoTcp\<close> (\<open>packet\<close>, \<open>transmit\<close>, \<open>attemptSend\<close>) that do
  not depend on what is sent. The interface \<open>packet_rel\<close> is a relation that the writing of a
  packet and the lowering of the segment size respect; the loop of \<open>transmit\<close> then does.
  \<open>send_rel\<close> adds the remaining elementary steps; the relation then holds between the states
  before and after \<open>attemptSend\<close>. Its instances: which fields stay as they are, the log of packets only
  grows, the segment size stays in range.
\<close>

subsection \<open>Relations that the sending steps respect\<close>

locale packet_rel =
  fixes R :: "PseudoTcp \<Rightarrow> PseudoTcp \<Rightarrow> bool"
  assumes R_refl: "R s s"
    and R_trans: "R s t \<Longrightarrow> R t u \<Longrightarrow> R s u"
    and R_packet: "packet E s seq flags offset len = Inr (wres, s') \<Longrightarrow> R s s'"
    and R_lower: "lower_mss s n = Inr (ok, s') \<Longrightarrow> R s s'"
begin

lemma transmit_loop_rel: "transmit_loop E s i n = Inr (ok, n', s') \<Longrightarrow> R s s'"
proof (induction E s i n arbitrary: ok n' s' rule: transmit_loop.induct)
  case (1 E s i n)
  let ?seg = "m_slist s ! i"
  obtain wres s1 where P: "packet E s (ss_seq ?seg) (if ss_bCtrl ?seg then FLAG_CTL else 0)
      (ss_seq ?seg - m_snd_una s) n = Inr (wres, s1)"
    using 1(2) by (auto simp: transmit_loop.simps [of E s i n] Let_def andThen_eq_Inr_iff)
  show ?case
  proof (cases wres)
    case WR_TOO_LARGE
    obtain ok1 s2 where L: "lower_mss s1 n = Inr (ok1, s2)"
      using 1(2) P WR_TOO_LARGE
      by (auto simp: transmit_loop.simps [of E s i n] Let_def andThen_eq_Inr_iff)
    have s2: "R s s2" using R_trans [OF R_packet [OF P] R_lower [OF L]] .
    show ?thesis
    proof (cases ok1)
      case True
      then have T: "transmit_loop E s2 i (m_mss s2) = Inr (ok, n', s')"
        using 1(2) P WR_TOO_LARGE L by (simp add: transmit_loop.simps [of E s i n] Let_def)
      have "R s2 s'"
        by (rule 1(1) [OF refl P refl _ _ _ L refl _ T]) (use True WR_TOO_LARGE in simp_all)
      then show ?thesis using R_trans s2 by blast
    next
      case False
      then have "s' = s2"
        using 1(2) P WR_TOO_LARGE L by (simp_all add: transmit_loop.simps [of E s i n] Let_def)
      then show ?thesis using s2 by simp
    qed
  qed (use 1(2) P R_packet [OF P] in \<open>simp_all add: transmit_loop.simps [of E s i n] Let_def\<close>)
qed

end

locale send_rel = packet_rel R for R :: "PseudoTcp \<Rightarrow> PseudoTcp \<Rightarrow> bool" +
  assumes R_transmitted: "i < length (m_slist s) \<Longrightarrow> R s (transmitted s i n now)"
    and R_break: "R s (break_seg s i n)"
    and R_clock: "R s (s\<lparr>x_clock := c\<rparr>)"
    and R_t_ack: "R s (s\<lparr>m_t_ack := ack_time\<rparr>)"
    and R_cwnd: "R s (s\<lparr>m_cwnd := m_mss s\<rparr>)"
begin

lemma transmit_rel:
  assumes "transmit E s i now = Inr (ok, s')"
  shows "R s s'"
proof (cases ok)
  case True
  then obtain n s1 where "i < length (m_slist s)" "s' = transmitted s1 i n now"
      and L: "transmit_loop E s i (min (ss_len (m_slist s ! i)) (m_mss s)) = Inr (True, n, s1)"
    using assms by (auto simp: transmit_True)
  then show ?thesis
    using R_trans [OF transmit_loop_rel [OF L] R_transmitted] transmit_loop_effect [OF L] by simp
next
  case False
  then show ?thesis using assms R_refl by (auto simp: transmit_False dest: transmit_loop_rel)
qed

lemma send_ack_rel: "send_ack E s fl = Inr s' \<Longrightarrow> R s s'"
  using R_trans [OF R_clock R_t_ack, of s] R_packet R_refl
  by (auto simp: send_ack_def andThen_eq_Inr_iff Now_def split: if_splits)

lemma attemptSend_loop_rel: "attemptSend_loop E s fl now = Inr s' \<Longrightarrow> R s s'"
proof (induction E s fl now rule: attemptSend_loop.induct)
  case (1 E s fl now)
  consider (ack) "nAvailable s = 0" | (nagle) "nAvailable s \<noteq> 0"
      "m_use_nagling s \<and> m_snd_nxt s > m_snd_una s \<and> nAvailable s < m_mss s"
    | (send) "nAvailable s \<noteq> 0" "\<not> (m_use_nagling s \<and> m_snd_nxt s > m_snd_una s \<and> nAvailable s < m_mss s)"
    by blast
  then show ?case
  proof cases
    case ack
    then show ?thesis using 1(2) send_ack_rel by (simp add: attemptSend_loop.simps [of E s fl now])
  next
    case nagle
    then show ?thesis using 1(2) R_refl by (simp add: attemptSend_loop.simps [of E s fl now])
  next
    case send
    then obtain i ok s1 where i: "next_unsent (m_slist s) 0 = Inr i"
        and t: "transmit E (break_seg s i (nAvailable s)) i now = Inr (ok, s1)"
      using 1(2) by (auto simp: attemptSend_loop.simps [of E s fl now] andThen_eq_Inr_iff)
    have q: "R s s1" using R_trans [OF R_break transmit_rel [OF t]] .
    show ?thesis
    proof (cases ok)
      case True
      then have "attemptSend_loop E s1 sfNone now = Inr s'"
        using 1(2) send i t by (simp add: attemptSend_loop.simps [of E s fl now])
      with 1(1) [OF send i t refl] True q show ?thesis using R_trans by blast
    next
      case False
      then have "s' = s1" using 1(2) send i t by (simp add: attemptSend_loop.simps [of E s fl now])
      then show ?thesis using q by simp
    qed
  qed
qed

lemma attemptSend_rel:
  assumes "attemptSend E s fl = Inr s'"
  shows "R s s'"
proof -
  let ?s1 = "s\<lparr>x_clock := Suc (x_clock s)\<rparr>"
  let ?late = "uint (m_rx_rto s) < TimeDiff (env_now E (x_clock s)) (m_lastsend s)"
  have loop: "attemptSend_loop E (if ?late then ?s1\<lparr>m_cwnd := m_mss ?s1\<rparr> else ?s1) fl (env_now E (x_clock s)) = Inr s'"
    using assms by (simp add: attemptSend_def Now_def Let_def)
  have "R s (if ?late then ?s1\<lparr>m_cwnd := m_mss ?s1\<rparr> else ?s1)"
    using R_clock [of s] R_trans [OF R_clock R_cwnd, of s] by (cases ?late) simp_all
  then show ?thesis using R_trans attemptSend_loop_rel [OF loop] by blast
qed

end

subsection \<open>Unchanged fields\<close>

text \<open>\<open>quiet s\<close> erases the fields that sending may write; two states with equal \<open>quiet\<close> images
  agree on all others.\<close>

definition quiet :: "PseudoTcp \<Rightarrow> PseudoTcp" where
  "quiet s = s\<lparr>x_clock := 0, m_ts_lastack := 0, x_sent := [], m_t_ack := 0, m_lastsend := 0,
     m_lasttraffic := 0, m_bOutgoing := False, m_slist := [], m_snd_nxt := 0, m_rto_base := 0,
     m_mss := 0, m_msslevel := 0, m_cwnd := 0\<rparr>"

lemma quiet_upd [simp]:
  "quiet (s\<lparr>x_clock := a\<rparr>) = quiet s" "quiet (s\<lparr>m_ts_lastack := b\<rparr>) = quiet s"
  "quiet (s\<lparr>x_sent := c\<rparr>) = quiet s" "quiet (s\<lparr>m_t_ack := d\<rparr>) = quiet s"
  "quiet (s\<lparr>m_lastsend := e\<rparr>) = quiet s" "quiet (s\<lparr>m_lasttraffic := f\<rparr>) = quiet s"
  "quiet (s\<lparr>m_bOutgoing := g\<rparr>) = quiet s" "quiet (s\<lparr>m_slist := h\<rparr>) = quiet s"
  "quiet (s\<lparr>m_snd_nxt := i\<rparr>) = quiet s" "quiet (s\<lparr>m_rto_base := j\<rparr>) = quiet s"
  "quiet (s\<lparr>m_mss := k\<rparr>) = quiet s" "quiet (s\<lparr>m_msslevel := l\<rparr>) = quiet s"
  "quiet (s\<lparr>m_cwnd := m\<rparr>) = quiet s"
  by (simp_all add: quiet_def)

lemma quiet_same:
  assumes "quiet s' = quiet s"
  shows "m_shutdown s' = m_shutdown s" "m_state s' = m_state s" "m_conv s' = m_conv s"
    "m_bReadEnable s' = m_bReadEnable s" "m_rlist s' = m_rlist s" "m_rbuf_len s' = m_rbuf_len s"
    "m_rcv_nxt s' = m_rcv_nxt s" "m_rcv_wnd s' = m_rcv_wnd s" "m_rwnd_scale s' = m_rwnd_scale s"
    "m_rbuf s' = m_rbuf s" "m_snd_una s' = m_snd_una s" "m_swnd_scale s' = m_swnd_scale s"
    "m_sbuf s' = m_sbuf s" "m_mtu_advise s' = m_mtu_advise s" "m_rx_rto s' = m_rx_rto s"
    "m_rx_srtt s' = m_rx_srtt s" "m_rx_rttvar s' = m_rx_rttvar s" "m_snd_wnd s' = m_snd_wnd s"
    "x_events s' = x_events s" "m_dup_acks s' = m_dup_acks s" "m_ack_delay s' = m_ack_delay s"
    "m_use_nagling s' = m_use_nagling s" "m_ssthresh s' = m_ssthresh s" "m_sbuf_len s' = m_sbuf_len s"
    "m_largest s' = m_largest s" "m_recover s' = m_recover s" "m_ts_recent s' = m_ts_recent s"
    "m_error s' = m_error s" "m_lastrecv s' = m_lastrecv s" "m_bWriteEnable s' = m_bWriteEnable s"
    "m_support_wnd_scale s' = m_support_wnd_scale s"
proof -
  have *: "f s' = f s" if "\<And>x. f (quiet x) = f x" for f :: "PseudoTcp \<Rightarrow> 'c"
    using that assms by metis
  show "m_shutdown s' = m_shutdown s" "m_state s' = m_state s" "m_conv s' = m_conv s"
    "m_bReadEnable s' = m_bReadEnable s" "m_rlist s' = m_rlist s" "m_rbuf_len s' = m_rbuf_len s"
    "m_rcv_nxt s' = m_rcv_nxt s" "m_rcv_wnd s' = m_rcv_wnd s" "m_rwnd_scale s' = m_rwnd_scale s"
    "m_rbuf s' = m_rbuf s" "m_snd_una s' = m_snd_una s" "m_swnd_scale s' = m_swnd_scale s"
    "m_sbuf s' = m_sbuf s" "m_mtu_advise s' = m_mtu_advise s" "m_rx_rto s' = m_rx_rto s"
    "m_rx_srtt s' = m_rx_srtt s" "m_rx_rttvar s' = m_rx_rttvar s" "m_snd_wnd s' = m_snd_wnd s"
    "x_events s' = x_events s" "m_dup_acks s' = m_dup_acks s" "m_ack_delay s' = m_ack_delay s"
    "m_use_nagling s' = m_use_nagling s" "m_ssthresh s' = m_ssthresh s" "m_sbuf_len s' = m_sbuf_len s"
    "m_largest s' = m_largest s" "m_recover s' = m_recover s" "m_ts_recent s' = m_ts_recent s"
    "m_error s' = m_error s" "m_lastrecv s' = m_lastrecv s" "m_bWriteEnable s' = m_bWriteEnable s"
    "m_support_wnd_scale s' = m_support_wnd_scale s"
    by (rule *, simp add: quiet_def)+
qed

interpretation quiet_rel: send_rel "\<lambda>s s'. quiet s' = quiet s"
proof
  show "quiet s' = quiet s" if "packet E s seq flags offset len = Inr (wres, s')" for E s seq flags offset len wres s'
  proof -
    have "quiet (snd (packet_written E t now len pkt)) = quiet t" for t now pkt
      by (simp add: packet_written_def Let_def)
    with that show ?thesis unfolding packet_Inr by (metis quiet_upd(1,2) snd_conv)
  qed
  show "quiet s' = quiet s" if "lower_mss s n = Inr (ok, s')" for s n ok s'
    using lower_mss_effect [OF that] by auto
qed (simp_all add: transmitted_def break_seg_def Let_def)

lemmas packet_same = quiet_same [OF quiet_rel.R_packet]
lemmas lower_mss_same = quiet_same [OF quiet_rel.R_lower]
lemmas transmit_same = quiet_same [OF quiet_rel.transmit_rel]
lemmas attemptSend_same = quiet_same [OF quiet_rel.attemptSend_rel]

subsection \<open>The log of packets\<close>

interpretation sent_rel: send_rel "\<lambda>s s'. \<exists>new. x_sent s' = x_sent s @ new"
proof
  show "\<exists>new. x_sent s' = x_sent s @ new" if "packet E s seq flags offset len = Inr (wres, s')"
    for E s seq flags offset len wres s'
  proof -
    have "\<exists>new. x_sent (snd (packet_written E t now len pkt)) = x_sent t @ new" for t now pkt
      by (simp add: packet_written_def Let_def)
    with that show ?thesis unfolding packet_Inr by (auto simp: packet_written_def Let_def split: if_splits)
  qed
qed (fastforce simp: transmitted_def break_seg_def Let_def dest: lower_mss_effect)+

subsection \<open>The segment size\<close>

definition mss_ok :: "PseudoTcp \<Rightarrow> bool" where
  "mss_ok s \<longleftrightarrow> 0 < m_mss s \<and> m_mss s \<le> 65419 \<and> m_msslevel s \<le> 9"

interpretation mss_rel: send_rel "\<lambda>s s'. mss_ok s \<longrightarrow> mss_ok s'"
proof
  show "mss_ok s \<longrightarrow> mss_ok s'" if "packet E s seq flags offset len = Inr (wres, s')"
    for E s seq flags offset len wres s'
    using packet_frame [OF that] by (simp add: mss_ok_def)
  show "mss_ok s \<longrightarrow> mss_ok s'" if "lower_mss s n = Inr (ok, s')" for s n ok s'
  proof -
    have "0 < (ucast (PACKET_MAXIMUMS ! l) - PACKET_OVERHEAD :: uint32)"
      if "l < length PACKET_MAXIMUMS" "PACKET_MAXIMUMS ! l \<noteq> 0" for l
      using table_mss(1) [OF that] by (auto simp: word_gt_0)
    with lower_mss_effect [OF that] show ?thesis using table_mss by (auto simp: mss_ok_def)
  qed
qed (simp_all add: mss_ok_def transmitted_def break_seg_def Let_def)

subsection \<open>The retransmission timer\<close>

text \<open>The timer runs only while there is a segment to retransmit.\<close>

definition rto_inv :: "PseudoTcp \<Rightarrow> bool" where
  "rto_inv s \<longleftrightarrow> (m_rto_base s \<noteq> 0 \<longrightarrow> m_slist s \<noteq> [])"

interpretation rto_rel: send_rel "\<lambda>s s'. rto_inv s \<longrightarrow> rto_inv s'"
proof
  show "rto_inv s \<longrightarrow> rto_inv s'" if "packet E s seq flags offset len = Inr (wres, s')"
    for E s seq flags offset len wres s'
    using that unfolding packet_Inr by (auto simp: packet_written_def Let_def rto_inv_def split: if_splits)
  show "rto_inv s \<longrightarrow> rto_inv s'" if "lower_mss s n = Inr (ok, s')" for s n ok s'
    using lower_mss_effect [OF that] by (auto simp: rto_inv_def)
  show "rto_inv s \<longrightarrow> rto_inv (transmitted s i n now)" if "i < length (m_slist s)" for s i n now
    using that by (auto simp: rto_inv_def transmitted_def split_seg_def Let_def)
qed (auto simp: rto_inv_def break_seg_def split_seg_def Let_def)

end
