(* ===== verification/TcpSend.thy ===== *)
theory TcpSend
  imports TcpFrame
begin

text \<open>
  The sending half of \<open>PseudoTcp\<close>: the invariant that ties the queue of segments to the send
  buffer, and the stream of bytes it stands for.
\<close>

subsection \<open>Wire format\<close>

lemma long_to_bytes_be: "long_to_bytes big v buf k = blit buf k (be32 v)"
  by (simp add: long_to_bytes_def)

lemma short_to_bytes_be: "short_to_bytes big v buf k = blit buf k (be16 v)"
  by (simp add: short_to_bytes_def)

definition header :: "uint32 \<Rightarrow> uint32 \<Rightarrow> uint32 \<Rightarrow> uint8 \<Rightarrow> uint16 \<Rightarrow> uint32 \<Rightarrow> uint32 \<Rightarrow> byte list" where
  "header conv seq ack flags wnd now ts =
     be32 conv @ be32 seq @ be32 ack @ [0, flags] @ be16 wnd @ be32 now @ be32 ts"

lemma length_header [simp]: "length (header conv seq ack flags wnd now ts) = 24"
  by (simp add: header_def)

lemma blit_append_at:
  "k = length as \<Longrightarrow> length src \<le> length bs \<Longrightarrow> blit (as @ bs) k src = (as @ src) @ drop (length src) bs"
  by (simp add: blit_def)

lemma put_header_eq:
  assumes "24 \<le> length buf"
  shows "put_header big buf conv seq ack flags wnd now ts = header conv seq ack flags wnd now ts @ drop 24 buf"
proof -
  have b3: "long_to_bytes big ack (long_to_bytes big seq (long_to_bytes big conv buf 0) 4) 8 =
      (be32 conv @ be32 seq @ be32 ack) @ drop 12 buf"
    using assms blit_append_at [of 0 "[]" "be32 conv" buf]
      blit_append_at [of 4 "be32 conv" "be32 seq" "drop 4 buf"]
      blit_append_at [of 8 "be32 conv @ be32 seq" "be32 ack" "drop 8 buf"]
    by (simp add: long_to_bytes_be)
  have d: "drop 12 buf = buf ! 12 # buf ! 13 # drop 14 buf"
    using assms Cons_nth_drop_Suc [of 12 buf, symmetric] Cons_nth_drop_Suc [of 13 buf, symmetric] by simp
  have b5: "(((be32 conv @ be32 seq @ be32 ack) @ drop 12 buf)[12 := 0])[13 := flags] =
      (be32 conv @ be32 seq @ be32 ack @ [0, flags]) @ drop 14 buf"
    by (simp add: d list_update_append)
  have b8: "long_to_bytes big ts (long_to_bytes big now (short_to_bytes big wnd
        ((be32 conv @ be32 seq @ be32 ack @ [0, flags]) @ drop 14 buf) 14) 16) 20 =
      header conv seq ack flags wnd now ts @ drop 24 buf"
    using assms blit_append_at [of 14 "be32 conv @ be32 seq @ be32 ack @ [0, flags]" "be16 wnd" "drop 14 buf"]
      blit_append_at [of 16 "be32 conv @ be32 seq @ be32 ack @ [0, flags] @ be16 wnd" "be32 now" "drop 16 buf"]
      blit_append_at [of 20 "be32 conv @ be32 seq @ be32 ack @ [0, flags] @ be16 wnd @ be32 now" "be32 ts" "drop 20 buf"]
    by (simp add: long_to_bytes_be short_to_bytes_be header_def)
  show ?thesis unfolding put_header_def Let_def b3 b5 b8 ..
qed

text \<open>The fields of a packet that the receiver reads.\<close>

definition pkt_seq :: "byte list \<Rightarrow> uint32" where "pkt_seq p = GetBE32 (take 4 (drop 4 p))"
definition pkt_ctl :: "byte list \<Rightarrow> bool" where "pkt_ctl p \<longleftrightarrow> (p ! 13) AND FLAG_CTL \<noteq> 0"
definition pkt_payload :: "byte list \<Rightarrow> byte list" where "pkt_payload p = drop 24 p"

lemma header_fields [simp]:
  "pkt_seq (header conv seq ack flags wnd now ts @ d) = seq"
  "pkt_ctl (header conv seq ack flags wnd now ts @ d) \<longleftrightarrow> flags AND FLAG_CTL \<noteq> 0"
  "pkt_payload (header conv seq ack flags wnd now ts @ d) = d"
  by (simp_all add: pkt_seq_def pkt_ctl_def pkt_payload_def header_def nth_append)

lemma HEADER_SIZE_nat [simp]: "unat HEADER_SIZE = 24"
  by (simp add: HEADER_SIZE_def)

text \<open>The bytes of a packet: the header, and the window of the send buffer it carries.\<close>

lemma packet_bytes_ok:
  assumes "unat (m_rwnd_scale s) < 32" and "fb_inv (m_sbuf s)"
    and "len \<noteq> 0 \<Longrightarrow> unat offset + unat len \<le> fb_data_length (m_sbuf s)"
  shows "packet_bytes E s now seq flags offset len = Inr (header (m_conv s) seq (m_rcv_nxt s) flags
     (ucast (drop_bit (unat (m_rwnd_scale s)) (m_rcv_wnd s))) now (m_ts_recent s) @
     take (unat len) (drop (unat offset) (fb_data (m_sbuf s))))"
proof (cases "len = 0")
  case True
  with assms show ?thesis by (simp add: packet_bytes_def SHIFT_def put_header_eq)
next
  case False
  then have l: "0 < unat len" by (simp add: unat_gt_0)
  with assms(3) [OF False] have "unat offset < fb_data_length (m_sbuf s)" by linarith
  then have r: "ReadOffset (m_sbuf s) (unat len) (unat offset) =
      (SR_SUCCESS, take (unat len) (drop (unat offset) (fb_data (m_sbuf s))))"
    using ReadOffsetLocked_spec [OF assms(2)] by (simp add: ReadOffset_def)
  have n: "length (take (unat len) (drop (unat offset) (fb_data (m_sbuf s)))) = unat len"
    using assms(2,3) False by (simp add: length_fb_data)
  have b: "blit (h @ x) 24 d = h @ d" if "length h = 24" "length x = length d" for h x d :: "byte list"
    using that by (simp add: blit_def)
  show ?thesis
    using False assms(1) n by (simp add: packet_bytes_def SHIFT_def put_header_eq r b Let_def)
qed

subsection \<open>Lists of segments\<close>

fun segs_from :: "uint32 \<Rightarrow> SSegment list \<Rightarrow> bool" where
  "segs_from q [] \<longleftrightarrow> True"
| "segs_from q (x # xs) \<longleftrightarrow> ss_seq x = q \<and> segs_from (q + ss_len x) xs"

definition seg_total :: "SSegment list \<Rightarrow> nat" where
  "seg_total xs = sum_list (map (\<lambda>x. unat (ss_len x)) xs)"

definition in_flight :: "SSegment list \<Rightarrow> nat" where
  "in_flight xs = seg_total (filter (\<lambda>x. ss_xmit x \<noteq> 0) xs)"

text \<open>Transmitted segments come before the others.\<close>

definition sent_first :: "SSegment list \<Rightarrow> bool" where
  "sent_first xs \<longleftrightarrow> sorted_wrt (\<lambda>x y. ss_xmit y \<noteq> 0 \<longrightarrow> ss_xmit x \<noteq> 0) xs"

lemma seg_total_simps [simp]:
  "seg_total [] = 0" "seg_total (x # xs) = unat (ss_len x) + seg_total xs" "seg_total (xs @ ys) = seg_total xs + seg_total ys"
  by (simp_all add: seg_total_def)

lemma in_flight_simps [simp]:
  "in_flight [] = 0" "in_flight (xs @ ys) = in_flight xs + in_flight ys"
  "in_flight (x # xs) = (if ss_xmit x \<noteq> 0 then unat (ss_len x) else 0) + in_flight xs"
  by (simp_all add: in_flight_def)

lemma in_flight_le: "in_flight xs \<le> seg_total xs"
  by (induction xs) simp_all

lemma segs_from_append:
  "segs_from q (xs @ ys) \<longleftrightarrow> segs_from q xs \<and> segs_from (q + of_nat (seg_total xs)) ys"
  by (induction xs arbitrary: q) (simp_all add: add.assoc)

lemma in_flight_unsent: "\<forall>x \<in> set xs. ss_xmit x = 0 \<Longrightarrow> in_flight xs = 0"
  by (induction xs) simp_all

lemma in_flight_sent: "\<forall>x \<in> set xs. ss_xmit x \<noteq> 0 \<Longrightarrow> in_flight xs = seg_total xs"
  by (induction xs) simp_all

lemma split_at_index:
  assumes "i < length xs"
  obtains as y bs where "xs = as @ y # bs" and "length as = i" and "xs ! i = y"
    and "take i xs = as" and "drop (Suc i) xs = bs"
  using that [of "take i xs" "xs ! i" "drop (Suc i) xs"] assms id_take_nth_drop [OF assms] by simp

lemma split_seg_list:
  "split_seg (as @ y # bs) (length as) n x =
   as @ y\<lparr>ss_len := n\<rparr> # (new_SSegment (ss_seq y + n) (ss_len y - n) (ss_bCtrl y))\<lparr>ss_xmit := x\<rparr> # bs"
  by (simp add: split_seg_def Let_def)

text \<open>Breaking a segment up changes none of these.\<close>

lemma split_seg_inv:
  assumes "i < length xs" and "n \<le> ss_len (xs ! i)"
  shows "segs_from q (split_seg xs i n (ss_xmit (xs ! i))) = segs_from q xs"
    and "seg_total (split_seg xs i n x) = seg_total xs"
    and "in_flight (split_seg xs i n (ss_xmit (xs ! i))) = in_flight xs"
    and "sent_first (split_seg xs i n (ss_xmit (xs ! i))) = sent_first xs"
proof -
  obtain as y bs where xs: "xs = as @ y # bs" "length as = i" "xs ! i = y"
    using split_at_index [OF assms(1)] by blast
  have n: "unat n + unat (ss_len y - n) = unat (ss_len y)"
    using assms(2) xs by (simp add: unat_sub word_le_nat_alt)
  have S: "split_seg xs i n z =
      as @ y\<lparr>ss_len := n\<rparr> # (new_SSegment (ss_seq y + n) (ss_len y - n) (ss_bCtrl y))\<lparr>ss_xmit := z\<rparr> # bs" for z
    unfolding xs(1) xs(2) [symmetric] by (rule split_seg_list)
  show "segs_from q (split_seg xs i n (ss_xmit (xs ! i))) = segs_from q xs"
    unfolding S xs(3) by (simp add: xs(1) new_SSegment_def segs_from_append add.assoc)
  show "seg_total (split_seg xs i n x) = seg_total xs" unfolding S using n by (simp add: xs(1) new_SSegment_def)
  show "in_flight (split_seg xs i n (ss_xmit (xs ! i))) = in_flight xs"
    unfolding S xs(3) using n by (simp add: xs(1) new_SSegment_def)
  show "sent_first (split_seg xs i n (ss_xmit (xs ! i))) = sent_first xs"
    unfolding S xs(3) sent_first_def by (auto simp: xs(1) new_SSegment_def sorted_wrt_append)
qed

text \<open>Marking a segment as transmitted when all before it are.\<close>

lemma mark_inv:
  assumes "i < length xs" and "\<forall>j < i. ss_xmit (xs ! j) \<noteq> 0" and "v \<noteq> 0"
  shows "segs_from q (xs[i := (xs ! i)\<lparr>ss_xmit := v\<rparr>]) = segs_from q xs"
    and "seg_total (xs[i := (xs ! i)\<lparr>ss_xmit := v\<rparr>]) = seg_total xs"
    and "in_flight (xs[i := (xs ! i)\<lparr>ss_xmit := v\<rparr>]) =
      in_flight xs + (if ss_xmit (xs ! i) = 0 then unat (ss_len (xs ! i)) else 0)"
    and "sent_first xs \<Longrightarrow> sent_first (xs[i := (xs ! i)\<lparr>ss_xmit := v\<rparr>])"
proof -
  obtain as y bs where xs: "xs = as @ y # bs" "length as = i" "xs ! i = y"
    using split_at_index [OF assms(1)] by blast
  have up: "xs[i := (xs ! i)\<lparr>ss_xmit := v\<rparr>] = as @ y\<lparr>ss_xmit := v\<rparr> # bs"
    unfolding xs(3) unfolding xs(1) by (simp add: list_update_append xs(2)[symmetric])
  have as: "\<forall>x \<in> set as. ss_xmit x \<noteq> 0"
  proof
    fix x
    assume "x \<in> set as"
    then obtain j where "j < i" "as ! j = x" by (auto simp: in_set_conv_nth xs(2))
    then show "ss_xmit x \<noteq> 0" using assms(2) xs by (auto simp: nth_append)
  qed
  show "segs_from q (xs[i := (xs ! i)\<lparr>ss_xmit := v\<rparr>]) = segs_from q xs"
    unfolding up by (simp add: xs(1) segs_from_append)
  show "seg_total (xs[i := (xs ! i)\<lparr>ss_xmit := v\<rparr>]) = seg_total xs" unfolding up by (simp add: xs(1))
  show "in_flight (xs[i := (xs ! i)\<lparr>ss_xmit := v\<rparr>]) =
      in_flight xs + (if ss_xmit (xs ! i) = 0 then unat (ss_len (xs ! i)) else 0)"
    unfolding up unfolding xs(3) using assms(3) by (simp add: xs(1))
  show "sent_first (xs[i := (xs ! i)\<lparr>ss_xmit := v\<rparr>])" if "sent_first xs"
    using that as assms(3) unfolding up sent_first_def by (simp add: xs(1) sorted_wrt_append)
qed

text \<open>The offset of a segment in the send buffer.\<close>

lemma seg_offset:
  assumes "segs_from q xs" and "i < length xs" and "seg_total xs < 2 ^ 32"
  shows "ss_seq (xs ! i) = q + of_nat (seg_total (take i xs))"
    and "unat (ss_seq (xs ! i) - q) = seg_total (take i xs)"
    and "seg_total (take i xs) + unat (ss_len (xs ! i)) \<le> seg_total xs"
proof -
  obtain as y bs where xs: "xs = as @ y # bs" "length as = i" "xs ! i = y" "take i xs = as"
    using split_at_index [OF assms(2)] by blast
  show s: "ss_seq (xs ! i) = q + of_nat (seg_total (take i xs))"
    using assms(1) unfolding xs(3,4) unfolding xs(1) by (simp add: segs_from_append)
  show le: "seg_total (take i xs) + unat (ss_len (xs ! i)) \<le> seg_total xs"
    unfolding xs(3,4) unfolding xs(1) by simp
  show "unat (ss_seq (xs ! i) - q) = seg_total (take i xs)"
    unfolding s using assms(3) le by (simp add: unat_of_nat_lt)
qed

subsection \<open>The invariant of the sending half\<close>

text \<open>
  The queue lists consecutive segments from \<open>m_snd_una\<close>, together they are the bytes in the
  send buffer, the transmitted ones come first and make up the bytes in flight.
\<close>

definition snd_inv :: "PseudoTcp \<Rightarrow> bool" where
  "snd_inv s \<longleftrightarrow> fb_open (m_sbuf s) \<and> fb_buffer_length (m_sbuf s) < 2 ^ 32 \<and>
     segs_from (m_snd_una s) (m_slist s) \<and> seg_total (m_slist s) = fb_data_length (m_sbuf s) \<and>
     sent_first (m_slist s) \<and> unat (m_snd_nxt s - m_snd_una s) = in_flight (m_slist s)"

text \<open>Values that make a packet fit: the segment size and the shift of the window.\<close>

definition net_ok :: "PseudoTcp \<Rightarrow> bool" where
  "net_ok s \<longleftrightarrow> mss_ok s \<and> unat (m_rwnd_scale s) < 32"

lemma snd_inv_bounds:
  assumes "snd_inv s"
  shows "fb_inv (m_sbuf s)" "fb_data_length (m_sbuf s) < 2 ^ 32" "seg_total (m_slist s) < 2 ^ 32"
    "in_flight (m_slist s) \<le> fb_data_length (m_sbuf s)"
  using assms in_flight_le [of "m_slist s"] by (auto simp: snd_inv_def fb_open_def fb_inv_def)

lemma small_packet:
  fixes len :: uint32
  assumes "len \<le> 65419"
  shows "HEADER_SIZE + len \<le> MAX_PACKET"
proof -
  have "unat len \<le> 65419" using assms by (simp add: word_le_nat_alt)
  then show ?thesis by (simp add: word_le_nat_alt tcp_consts unat_word_ariths)
qed

lemma packet_ok:
  assumes "snd_inv s" and "net_ok s" and "len \<le> 65419"
    and "len \<noteq> 0 \<Longrightarrow> unat offset + unat len \<le> fb_data_length (m_sbuf s)"
  obtains wres s' pkt res where "packet E s seq flags offset len = Inr (wres, s')"
    and "x_sent s' = x_sent s @ [(pkt, res)]"
    and "pkt_seq pkt = seq" and "pkt_ctl pkt \<longleftrightarrow> flags AND FLAG_CTL \<noteq> 0"
    and "pkt_payload pkt = take (unat len) (drop (unat offset) (fb_data (m_sbuf s)))"
    and "length pkt = 24 + unat len"
proof -
  let ?s1 = "s\<lparr>x_clock := Suc (x_clock s)\<rparr>"
  let ?pkt = "header (m_conv s) seq (m_rcv_nxt s) flags (ucast (drop_bit (unat (m_rwnd_scale s)) (m_rcv_wnd s)))
    (env_now E (x_clock s)) (m_ts_recent s) @ take (unat len) (drop (unat offset) (fb_data (m_sbuf s)))"
  have bytes: "packet_bytes E ?s1 (env_now E (x_clock s)) seq flags offset len = Inr ?pkt"
    using packet_bytes_ok [of ?s1 len offset E "env_now E (x_clock s)" seq flags] assms
      snd_inv_bounds(1) [OF assms(1)] by (simp add: net_ok_def)
  obtain wres s' where w: "packet_written E (?s1\<lparr>m_ts_lastack := m_rcv_nxt s\<rparr>) (env_now E (x_clock s)) len ?pkt = (wres, s')"
    by fastforce
  have "packet E s seq flags offset len = Inr (wres, s')"
    unfolding packet_Inr using bytes w small_packet [OF assms(3)] by auto
  moreover have "x_sent s' = x_sent s @ [(?pkt, env_write E (length (x_sent s)) ?pkt)]"
    using w by (auto simp: packet_written_def Let_def split: if_splits)
  moreover have "length ?pkt = 24 + unat len"
    using assms(4) length_fb_data [OF snd_inv_bounds(1) [OF assms(1)]] by (cases "len = 0") simp_all
  ultimately show ?thesis using that by auto
qed

text \<open>Packets do not touch what the invariant speaks of.\<close>

lemma packet_snd:
  assumes "packet E s seq flags offset len = Inr (wres, s')"
  shows "m_snd_nxt s' = m_snd_nxt s" "m_slist s' = m_slist s"
proof -
  show "m_slist s' = m_slist s" using packet_frame [OF assms] by simp
  obtain pkt where "(wres, s') = packet_written E (s\<lparr>x_clock := Suc (x_clock s), m_ts_lastack := m_rcv_nxt s\<rparr>) (env_now E (x_clock s)) len pkt"
    using assms unfolding packet_Inr by blast
  then show "m_snd_nxt s' = m_snd_nxt s" by (auto simp: packet_written_def Let_def split: if_splits)
qed

lemma lower_mss_snd: "lower_mss s n = Inr (ok, s') \<Longrightarrow> m_snd_nxt s' = m_snd_nxt s \<and> m_slist s' = m_slist s"
  using lower_mss_effect by fastforce

lemma snd_inv_packet:
  "packet E s seq flags offset len = Inr (wres, s') \<Longrightarrow> snd_inv s' = snd_inv s"
  by (simp add: snd_inv_def packet_snd packet_same)

lemma snd_inv_lower: "lower_mss s n = Inr (ok, s') \<Longrightarrow> snd_inv s' = snd_inv s"
  by (simp add: snd_inv_def lower_mss_snd lower_mss_same)

lemma net_ok_send:
  "packet E s seq flags offset len = Inr (wres, s') \<Longrightarrow> net_ok s \<Longrightarrow> net_ok s'"
  "lower_mss s n = Inr (ok, s') \<Longrightarrow> net_ok s \<Longrightarrow> net_ok s'"
  using mss_rel.R_packet mss_rel.R_lower by (auto simp: net_ok_def packet_same lower_mss_same)

lemma lower_mss_returns: "m_msslevel s \<le> 9 \<Longrightarrow> \<exists>ok s'. lower_mss s n = Inr (ok, s')"
proof (induction s n rule: lower_mss.induct)
  case (1 s n)
  let ?mss = "ucast (PACKET_MAXIMUMS ! Suc (m_msslevel s)) - PACKET_OVERHEAD :: uint32"
  let ?s1 = "s\<lparr>m_msslevel := Suc (m_msslevel s), m_mss := ?mss, m_cwnd := 2 * ?mss\<rparr>"
  have l: "Suc (m_msslevel s) < length PACKET_MAXIMUMS" using 1(2) by (simp add: PACKET_MAXIMUMS_def)
  show ?case
  proof (cases "PACKET_MAXIMUMS ! Suc (m_msslevel s) \<noteq> 0 \<and> \<not> ?mss < n")
    case True
    then have "m_msslevel ?s1 \<le> 9" using table_mss(3) [OF l] by simp
    then have "\<exists>ok s'. lower_mss ?s1 n = Inr (ok, s')" using 1(1) [OF l _ refl refl] True by simp
    then show ?thesis using True l by (simp add: lower_mss.simps [of s n] Let_def)
  next
    case False
    then show ?thesis using l by (auto simp: lower_mss.simps [of s n] Let_def)
  qed
qed

subsection \<open>The stream of bytes\<close>

text \<open>
  \<open>T\<close> is the whole stream that was ever queued, of which the first \<open>c\<close> bytes are the control
  message. A good packet carries a piece of \<open>T\<close> at the position its sequence number names, and
  its control flag tells on which side of \<open>c\<close> the piece lies.
\<close>

definition pkt_good :: "nat \<Rightarrow> byte list \<Rightarrow> byte list \<Rightarrow> bool" where
  "pkt_good c T p \<longleftrightarrow> 24 \<le> length p \<and> (pkt_payload p \<noteq> [] \<longrightarrow>
     (\<exists>k. pkt_seq p = of_nat k \<and> k + length (pkt_payload p) \<le> length T \<and>
        pkt_payload p = take (length (pkt_payload p)) (drop k T) \<and>
        (if pkt_ctl p then k + length (pkt_payload p) \<le> c else c \<le> k)))"

fun seg_ctl :: "nat \<Rightarrow> nat \<Rightarrow> SSegment list \<Rightarrow> bool" where
  "seg_ctl c k [] \<longleftrightarrow> True"
| "seg_ctl c k (x # xs) \<longleftrightarrow> (if ss_bCtrl x then k + unat (ss_len x) \<le> c else c \<le> k) \<and> seg_ctl c (k + unat (ss_len x)) xs"

lemma seg_ctl_append: "seg_ctl c k (xs @ ys) \<longleftrightarrow> seg_ctl c k xs \<and> seg_ctl c (k + seg_total xs) ys"
  by (induction xs arbitrary: k) (simp_all add: add.assoc)

lemma seg_ctl_at:
  assumes "seg_ctl c k xs" and "i < length xs"
  shows "if ss_bCtrl (xs ! i) then k + seg_total (take i xs) + unat (ss_len (xs ! i)) \<le> c
    else c \<le> k + seg_total (take i xs)"
proof -
  obtain as y bs where xs: "xs = as @ y # bs" "length as = i" "xs ! i = y" "take i xs = as"
    using split_at_index [OF assms(2)] by blast
  show ?thesis using assms(1) unfolding xs(3,4) by (simp add: xs(1) seg_ctl_append split: if_splits)
qed

lemma seg_ctl_split:
  assumes "i < length xs" and "n \<le> ss_len (xs ! i)" and "seg_ctl c k xs"
  shows "seg_ctl c k (split_seg xs i n x)"
proof -
  obtain as y bs where xs: "xs = as @ y # bs" "length as = i" "xs ! i = y"
    using split_at_index [OF assms(1)] by blast
  have n: "unat n + unat (ss_len y - n) = unat (ss_len y)"
    using assms(2) xs(3) by (simp add: unat_sub word_le_nat_alt)
  have S: "split_seg xs i n x =
      as @ y\<lparr>ss_len := n\<rparr> # (new_SSegment (ss_seq y + n) (ss_len y - n) (ss_bCtrl y))\<lparr>ss_xmit := x\<rparr> # bs"
    unfolding xs(1) xs(2) [symmetric] by (rule split_seg_list)
  show ?thesis
    unfolding S using assms(3) n by (auto simp: xs(1) seg_ctl_append new_SSegment_def add.assoc split: if_splits)
qed

lemma seg_ctl_mark: "seg_ctl c k (xs[i := (xs ! i)\<lparr>ss_xmit := v\<rparr>]) = seg_ctl c k xs"
proof (induction xs arbitrary: i k)
  case (Cons x xs)
  then show ?case by (cases i) simp_all
qed simp

definition snd_stream :: "nat \<Rightarrow> byte list \<Rightarrow> PseudoTcp \<Rightarrow> bool" where
  "snd_stream c T s \<longleftrightarrow> snd_inv s \<and>
     (\<exists>A. A \<le> length T \<and> m_snd_una s = of_nat A \<and> fb_data (m_sbuf s) = drop A T \<and> seg_ctl c A (m_slist s)) \<and>
     (\<forall>pr \<in> set (x_sent s). pkt_good c T (fst pr))"

lemma snd_stream_inv: "snd_stream c T s \<Longrightarrow> snd_inv s"
  by (simp add: snd_stream_def)

lemma snd_stream_same:
  assumes "snd_stream c T s" and "m_sbuf s' = m_sbuf s" and "m_snd_una s' = m_snd_una s"
    and "m_slist s' = m_slist s" and "m_snd_nxt s' = m_snd_nxt s" and "x_sent s' = x_sent s"
  shows "snd_stream c T s'"
  using assms by (simp add: snd_stream_def snd_inv_def)

lemma snd_stream_log:
  assumes "snd_stream c T s" and "m_sbuf s' = m_sbuf s" and "m_snd_una s' = m_snd_una s"
    and "m_slist s' = m_slist s" and "m_snd_nxt s' = m_snd_nxt s" and "x_sent s' = x_sent s @ [(pkt, res)]"
    and "pkt_good c T pkt"
  shows "snd_stream c T s'"
  using assms by (auto simp: snd_stream_def snd_inv_def)

text \<open>A packet without data, and a packet with the front of a queued segment.\<close>

lemma ack_packet_stream:
  assumes "snd_stream c T s" and "net_ok s"
  obtains wres s' where "packet E s seq flags offset 0 = Inr (wres, s')" and "snd_stream c T s'"
    and "net_ok s'"
proof -
  obtain wres s' pkt res where P: "packet E s seq flags offset 0 = Inr (wres, s')"
      "x_sent s' = x_sent s @ [(pkt, res)]" "pkt_payload pkt = []" "length pkt = 24"
    by (rule packet_ok [OF snd_stream_inv [OF assms(1)] assms(2), of 0 offset E seq flags]) auto
  have "snd_stream c T s'"
    by (rule snd_stream_log [OF assms(1) _ _ _ _ P(2)])
      (use P packet_same [OF P(1)] packet_snd [OF P(1)] in \<open>simp_all add: pkt_good_def\<close>)
  then show ?thesis using that P(1) net_ok_send(1) [OF P(1) assms(2)] by blast
qed

lemma segment_packet_stream:
  assumes "snd_stream c T s" and "net_ok s" and "i < length (m_slist s)"
    and "len \<le> ss_len (m_slist s ! i)" and "len \<le> 65419"
  obtains wres s' where "packet E s (ss_seq (m_slist s ! i)) (if ss_bCtrl (m_slist s ! i) then FLAG_CTL else 0)
      (ss_seq (m_slist s ! i) - m_snd_una s) len = Inr (wres, s')"
    and "snd_stream c T s'" and "net_ok s'"
proof -
  let ?seg = "m_slist s ! i" and ?off = "seg_total (take i (m_slist s))"
  note inv = snd_stream_inv [OF assms(1)]
  note B = snd_inv_bounds [OF inv]
  have so: "ss_seq ?seg = m_snd_una s + of_nat ?off" "unat (ss_seq ?seg - m_snd_una s) = ?off"
    "?off + unat (ss_len ?seg) \<le> fb_data_length (m_sbuf s)"
    using seg_offset [OF _ assms(3) B(3)] inv by (auto simp: snd_inv_def)
  have ln: "unat len \<le> unat (ss_len ?seg)" using assms(4) by (simp add: word_le_nat_alt)
  have fit: "unat (ss_seq ?seg - m_snd_una s) + unat len \<le> fb_data_length (m_sbuf s)"
    using so ln by linarith
  obtain A where A: "A \<le> length T" "m_snd_una s = of_nat A" "fb_data (m_sbuf s) = drop A T" "seg_ctl c A (m_slist s)"
    using assms(1) by (auto simp: snd_stream_def)
  obtain wres s' pkt res where P: "packet E s (ss_seq ?seg) (if ss_bCtrl ?seg then FLAG_CTL else 0)
        (ss_seq ?seg - m_snd_una s) len = Inr (wres, s')"
      "x_sent s' = x_sent s @ [(pkt, res)]" "pkt_seq pkt = ss_seq ?seg"
      "pkt_ctl pkt \<longleftrightarrow> (if ss_bCtrl ?seg then FLAG_CTL else 0) AND FLAG_CTL \<noteq> 0"
      "pkt_payload pkt = take (unat len) (drop (unat (ss_seq ?seg - m_snd_una s)) (fb_data (m_sbuf s)))"
      "length pkt = 24 + unat len"
    by (rule packet_ok [OF inv assms(2,5) fit, of E "ss_seq ?seg" "if ss_bCtrl ?seg then FLAG_CTL else 0"])
  have pl: "pkt_payload pkt = take (unat len) (drop (A + ?off) T)"
    using P(5) A so by (simp add: add.commute)
  have ll: "length (pkt_payload pkt) = unat len" using P(6) by (simp add: pkt_payload_def)
  have "length (drop A T) = fb_data_length (m_sbuf s)" using A(3) length_fb_data [OF B(1)] by simp
  then have in_T: "A + ?off + unat len \<le> length T" using fit so A(1) by simp
  have ctl: "pkt_ctl pkt = ss_bCtrl ?seg" using P(4) by (simp add: FLAG_CTL_def)
  have good: "pkt_good c T pkt"
    unfolding pkt_good_def ll
    using P(3,6) pl in_T ctl so(1) A(2) seg_ctl_at [OF A(4) assms(3)] ln
    by (auto intro!: exI [of _ "A + ?off"] split: if_splits)
  have "snd_stream c T s'"
    by (rule snd_stream_log [OF assms(1) _ _ _ _ P(2) good])
      (use packet_same [OF P(1)] packet_snd [OF P(1)] in simp_all)
  then show ?thesis using that P(1) net_ok_send(1) [OF P(1) assms(2)] by blast
qed

text \<open>Transmission never faults, keeps the invariant and sends good packets only.\<close>

lemma transmit_loop_stream:
  "snd_stream c T s \<Longrightarrow> net_ok s \<Longrightarrow> i < length (m_slist s) \<Longrightarrow> n \<le> ss_len (m_slist s ! i) \<Longrightarrow> n \<le> 65419 \<Longrightarrow>
   \<exists>ok n' s'. transmit_loop E s i n = Inr (ok, n', s') \<and> snd_stream c T s' \<and> net_ok s'"
proof (induction E s i n rule: transmit_loop.induct)
  case (1 E s i n)
  let ?seg = "m_slist s ! i"
  obtain wres s1 where P: "packet E s (ss_seq ?seg) (if ss_bCtrl ?seg then FLAG_CTL else 0)
      (ss_seq ?seg - m_snd_una s) n = Inr (wres, s1)" and s1: "snd_stream c T s1" "net_ok s1"
    by (rule segment_packet_stream [OF 1(2-6)])
  show ?case
  proof (cases wres)
    case WR_TOO_LARGE
    obtain ok1 s2 where L: "lower_mss s1 n = Inr (ok1, s2)"
      using lower_mss_returns [of s1 n] s1(2) by (auto simp: net_ok_def mss_ok_def)
    have q: "m_slist s2 = m_slist s" using lower_mss_snd [OF L] packet_snd [OF P] by simp
    have s2: "snd_stream c T s2" "net_ok s2"
    proof -
      have "x_sent s2 = x_sent s1" using lower_mss_effect [OF L] by auto
      then show "snd_stream c T s2"
        by (intro snd_stream_same [OF s1(1)]) (use lower_mss_same [OF L] lower_mss_snd [OF L] in simp_all)
      show "net_ok s2" using net_ok_send(2) [OF L s1(2)] .
    qed
    show ?thesis
    proof (cases ok1)
      case True
      then have m: "m_mss s2 < n" "m_mss s2 \<le> 65419" using lower_mss_True(1,3) L by simp_all
      then have "m_mss s2 \<le> ss_len (m_slist s2 ! i)" using 1(5) q by auto
      then have "\<exists>ok n' s'. transmit_loop E s2 i (m_mss s2) = Inr (ok, n', s') \<and> snd_stream c T s' \<and> net_ok s'"
        using 1(1) [OF refl P refl _ _ _ L refl] True WR_TOO_LARGE s2 q 1(4) m by simp
      then show ?thesis
        using P WR_TOO_LARGE L True by (simp add: transmit_loop.simps [of E s i n] Let_def)
    next
      case False
      then show ?thesis
        using P WR_TOO_LARGE L s2 by (auto simp: transmit_loop.simps [of E s i n] Let_def)
    qed
  qed (use P s1 in \<open>auto simp: transmit_loop.simps [of E s i n] Let_def\<close>)
qed

lemma transmitted_stream:
  assumes "snd_stream c T s" and "i < length (m_slist s)" and "\<forall>j < i. ss_xmit (m_slist s ! j) \<noteq> 0"
    and "n \<le> ss_len (m_slist s ! i)" and "ss_xmit (m_slist s ! i) + 1 \<noteq> 0"
  shows "snd_stream c T (transmitted s i n now)"
proof -
  let ?seg = "m_slist s ! i"
  define xs where "xs = (if n < ss_len ?seg then split_seg (m_slist s) i n (ss_xmit ?seg) else m_slist s)"
  define ys where "ys = xs[i := (xs ! i)\<lparr>ss_xmit := ss_xmit (xs ! i) + 1\<rparr>]"
  let ?t = "transmitted s i n now"
  have t: "m_slist ?t = ys" "m_snd_nxt ?t = (if ss_xmit ?seg = 0 then m_snd_nxt s + ss_len (xs ! i) else m_snd_nxt s)"
    "m_sbuf ?t = m_sbuf s" "m_snd_una ?t = m_snd_una s" "x_sent ?t = x_sent s"
    by (simp_all add: transmitted_def Let_def xs_def ys_def split_seg_nth assms(2))
  obtain A where A: "A \<le> length T" "m_snd_una s = of_nat A" "fb_data (m_sbuf s) = drop A T" "seg_ctl c A (m_slist s)"
    using assms(1) by (auto simp: snd_stream_def)
  note inv = snd_stream_inv [OF assms(1)]
  have x: "i < length xs" "ss_xmit (xs ! i) = ss_xmit ?seg" "\<forall>j < i. ss_xmit (xs ! j) \<noteq> 0"
    using assms(2,3) by (auto simp: xs_def split_seg_nth) (simp add: split_seg_def Let_def nth_append)
  note S = split_seg_inv [OF assms(2,4)]
  have v: "ss_xmit (xs ! i) + 1 \<noteq> 0" using assms(5) x(2) by simp
  note M = mark_inv [OF x(1,3) v]
  have fl: "in_flight ys = in_flight (m_slist s) + (if ss_xmit ?seg = 0 then unat (ss_len (xs ! i)) else 0)"
    using M(3) S(3) x(2) by (simp add: ys_def xs_def)
  have tot: "seg_total ys = seg_total (m_slist s)" using M(2) S(2) by (simp add: ys_def xs_def)
  have "unat (m_snd_nxt ?t - m_snd_una s) = in_flight ys"
  proof (cases "ss_xmit ?seg = 0")
    case True
    have "in_flight ys < 2 ^ 32" using in_flight_le [of ys] tot snd_inv_bounds(3) [OF inv] by simp
    then have "unat ((m_snd_nxt s - m_snd_una s) + ss_len (xs ! i)) = in_flight ys"
      using True fl inv by (subst unat_add_no_wrap) (simp_all add: snd_inv_def)
    then show ?thesis using True by (simp add: t diff_add_eq)
  next
    case False
    then show ?thesis using fl inv by (simp add: t snd_inv_def)
  qed
  moreover have "segs_from (m_snd_una s) ys" "sent_first ys"
    using M(1) M(4) S(1,4) inv by (auto simp: ys_def xs_def snd_inv_def)
  ultimately have "snd_inv ?t" using inv tot by (simp add: snd_inv_def t)
  moreover have "seg_ctl c A ys"
    using A(4) seg_ctl_split [OF assms(2,4)] by (simp add: ys_def seg_ctl_mark) (simp add: xs_def)
  ultimately show ?thesis using assms(1) A by (auto simp: snd_stream_def t)
qed

lemma transmit_stream:
  assumes "snd_stream c T s" and "net_ok s" and "i < length (m_slist s)" and "\<forall>j < i. ss_xmit (m_slist s ! j) \<noteq> 0"
  shows "\<exists>ok s'. transmit E s i now = Inr (ok, s') \<and> snd_stream c T s' \<and> net_ok s'"
proof (cases "too_many_xmits s i")
  case True
  then show ?thesis using assms by (auto simp: transmit_def)
next
  case False
  let ?n = "min (ss_len (m_slist s ! i)) (m_mss s)"
  have "?n \<le> 65419" using assms(2) by (auto simp: net_ok_def mss_ok_def min_def)
  then obtain ok n' s1 where L: "transmit_loop E s i ?n = Inr (ok, n', s1)" and s1: "snd_stream c T s1" "net_ok s1"
    using transmit_loop_stream [OF assms(1-3), of ?n E] by auto
  have e: "m_slist s1 = m_slist s" "n' \<le> ss_len (m_slist s ! i)" using transmit_loop_effect [OF L] by auto
  have x: "ss_xmit (m_slist s1 ! i) + 1 \<noteq> 0"
  proof
    assume "ss_xmit (m_slist s1 ! i) + 1 = 0"
    then have "ss_xmit (m_slist s ! i) = - 1" using e by (simp add: eq_neg_iff_add_eq_0)
    then show False using False by (simp add: too_many_xmits_def)
  qed
  have t: "snd_stream c T (transmitted s1 i n' now)"
    using transmitted_stream [OF s1(1), of i n'] assms(3,4) e x by simp
  have "net_ok (transmitted s1 i n' now)"
    using s1(2) mss_rel.R_transmitted by (simp add: net_ok_def transmitted_def Let_def mss_ok_def)
  then show ?thesis using False assms(3) L t s1 by (cases ok) (auto simp: transmit_def)
qed

lemma break_seg_stream:
  assumes "snd_stream c T s" and "i < length (m_slist s)" and "ss_xmit (m_slist s ! i) = 0"
  shows "snd_stream c T (break_seg s i n)"
proof (cases "n < ss_len (m_slist s ! i)")
  case True
  then have le: "n \<le> ss_len (m_slist s ! i)" by simp
  have b: "m_slist (break_seg s i n) = split_seg (m_slist s) i n (ss_xmit (m_slist s ! i))"
    using True assms(3) by (simp add: break_seg_def)
  have b': "m_sbuf (break_seg s i n) = m_sbuf s" "m_snd_una (break_seg s i n) = m_snd_una s"
    "m_snd_nxt (break_seg s i n) = m_snd_nxt s" "x_sent (break_seg s i n) = x_sent s"
    by (simp_all add: break_seg_def)
  have "snd_inv (break_seg s i n)"
    using snd_stream_inv [OF assms(1)] split_seg_inv [OF assms(2) le] by (simp add: snd_inv_def b b')
  then show ?thesis
    using assms(1) seg_ctl_split [OF assms(2) le] unfolding snd_stream_def b b' by blast
next
  case False
  then show ?thesis using assms(1) by (simp add: break_seg_def)
qed

lemma break_seg_list:
  assumes "i < length (m_slist s)"
  shows "i < length (m_slist (break_seg s i n))" and "\<forall>j < i. m_slist (break_seg s i n) ! j = m_slist s ! j"
  using assms by (auto simp: break_seg_def split_seg_def Let_def nth_append)

lemma send_ack_stream:
  assumes "snd_stream c T s" and "net_ok s"
  shows "\<exists>s'. send_ack E s fl = Inr s' \<and> snd_stream c T s' \<and> net_ok s'"
proof -
  obtain wres s1 where P: "packet E s (m_snd_nxt s) 0 0 0 = Inr (wres, s1)" "snd_stream c T s1" "net_ok s1"
    by (rule ack_packet_stream [OF assms])
  have "snd_stream c T (s\<lparr>x_clock := a, m_t_ack := b\<rparr>)" for a b
    by (rule snd_stream_same [OF assms(1)]) simp_all
  then show ?thesis
    using P assms by (auto simp: send_ack_def Now_def net_ok_def mss_ok_def)
qed

lemma next_unsent_returns:
  assumes "in_flight xs < seg_total xs"
  shows "\<exists>i. next_unsent xs k = Inr i"
  using assms by (induction xs k rule: next_unsent.induct) (auto split: if_splits)

lemma nAvailable_unsent:
  assumes "snd_inv s" and "nAvailable s \<noteq> 0"
  shows "in_flight (m_slist s) < seg_total (m_slist s)"
proof -
  let ?f = "m_snd_nxt s - m_snd_una s"
  have f: "unat ?f = in_flight (m_slist s)" "fb_data_length (m_sbuf s) = seg_total (m_slist s)"
    using assms(1) by (simp_all add: snd_inv_def)
  have "of_nat (fb_data_length (m_sbuf s)) \<noteq> ?f"
    using assms(2) by (auto simp: nAvailable_def Let_def GetBuffered_def split: if_splits)
  then have "fb_data_length (m_sbuf s) \<noteq> in_flight (m_slist s)"
    using f(1) by (metis of_nat_unat ucast_id)
  then show ?thesis using f snd_inv_bounds(4) [OF assms(1)] by linarith
qed

lemma attemptSend_loop_stream:
  "snd_stream c T s \<Longrightarrow> net_ok s \<Longrightarrow>
   \<exists>s'. attemptSend_loop E s fl now = Inr s' \<and> snd_stream c T s' \<and> net_ok s'"
proof (induction E s fl now rule: attemptSend_loop.induct)
  case (1 E s fl now)
  consider (ack) "nAvailable s = 0" | (nagle) "nAvailable s \<noteq> 0"
      "m_use_nagling s \<and> m_snd_nxt s > m_snd_una s \<and> nAvailable s < m_mss s"
    | (send) "nAvailable s \<noteq> 0" "\<not> (m_use_nagling s \<and> m_snd_nxt s > m_snd_una s \<and> nAvailable s < m_mss s)"
    by blast
  then show ?case
  proof cases
    case ack
    then show ?thesis using send_ack_stream [OF 1(2,3)] by (simp add: attemptSend_loop.simps [of E s fl now])
  next
    case nagle
    then show ?thesis using 1(2,3) by (simp add: attemptSend_loop.simps [of E s fl now])
  next
    case send
    obtain i where i: "next_unsent (m_slist s) 0 = Inr i"
      using next_unsent_returns [OF nAvailable_unsent [OF snd_stream_inv [OF 1(2)] send(1)]] by blast
    then have u: "i < length (m_slist s)" "ss_xmit (m_slist s ! i) = 0" "\<forall>j < i. ss_xmit (m_slist s ! j) \<noteq> 0"
      using next_unsent_Inr by fastforce+
    let ?b = "break_seg s i (nAvailable s)"
    have b: "snd_stream c T ?b" "net_ok ?b" "i < length (m_slist ?b)" "\<forall>j < i. ss_xmit (m_slist ?b ! j) \<noteq> 0"
      using break_seg_stream [OF 1(2) u(1,2)] 1(3) break_seg_list [OF u(1)] u(3)
      by (simp_all add: net_ok_def mss_ok_def break_seg_def)
    obtain ok s1 where t: "transmit E ?b i now = Inr (ok, s1)" "snd_stream c T s1" "net_ok s1"
      using transmit_stream [OF b] by blast
    then show ?thesis
      using 1(1) [OF send i t(1) refl] send i t
      by (cases ok) (auto simp: attemptSend_loop.simps [of E s fl now])
  qed
qed

text \<open>The sending loop returns, keeps the invariant and sends pieces of the stream only.\<close>

lemma attemptSend_stream:
  assumes "snd_stream c T s" and "net_ok s"
  shows "\<exists>s'. attemptSend E s fl = Inr s' \<and> snd_stream c T s' \<and> net_ok s'"
proof -
  let ?s1 = "s\<lparr>x_clock := Suc (x_clock s)\<rparr>"
  let ?s2 = "if TimeDiff (env_now E (x_clock s)) (m_lastsend s) > uint (m_rx_rto s) then ?s1\<lparr>m_cwnd := m_mss ?s1\<rparr> else ?s1"
  have "snd_stream c T ?s2" by (rule snd_stream_same [OF assms(1)]) simp_all
  moreover have "net_ok ?s2" using assms(2) by (simp add: net_ok_def mss_ok_def)
  ultimately have "\<exists>s'. attemptSend_loop E ?s2 fl (env_now E (x_clock s)) = Inr s' \<and> snd_stream c T s' \<and> net_ok s'"
    by (rule attemptSend_loop_stream)
  then show ?thesis by (simp add: attemptSend_def Now_def Let_def cong: if_cong split del: if_split)
qed

end
