(* ===== verification/TcpQueue.thy ===== *)
theory TcpQueue
  imports TcpSend
begin

text \<open>
  What enters and leaves the send queue: \<open>queue\<close> extends the stream, an acknowledgement at a
  segment boundary releases its front.
\<close>

subsection \<open>Queueing\<close>

lemma FB_Write_fits:
  assumes "fb_open f" and "length xs \<le> GetWriteRemaining f"
  obtains r f' where "FB_Write f xs = (r, length xs, f')" and "fb_open f'" and "fb_data f' = fb_data f @ xs"
    and "fb_buffer_length f' = fb_buffer_length f" and "fb_data_length f' = fb_data_length f + length xs"
proof (cases "fb_data_length f < fb_buffer_length f")
  case True
  have c: "length xs = min (length xs) (fb_buffer_length f - fb_data_length f)"
    using assms(2) by (simp add: GetWriteRemaining_def)
  have f: "fb_inv f" "fb_state f \<noteq> SS_CLOSED" using assms(1) by (auto simp: fb_open_def)
  show ?thesis
    by (rule FB_Write_spec [OF f True c]) (rule that, use f in \<open>auto simp: fb_open_def\<close>)
next
  case False
  then have "xs = []" using assms(2) by (simp add: GetWriteRemaining_def)
  moreover have "FB_Write f [] = (SR_BLOCK, 0, f)"
    using False assms(1) by (simp add: FB_Write_def WriteOffsetLocked_def fb_open_def)
  ultimately show ?thesis using that [of SR_BLOCK f] assms(1) by simp
qed

lemma pkt_good_append: "pkt_good c T p \<Longrightarrow> pkt_good c (T @ X) p"
  unfolding pkt_good_def by (fastforce simp: Let_def)

definition queued :: "SSegment list \<Rightarrow> uint32 \<Rightarrow> uint32 \<Rightarrow> bool \<Rightarrow> SSegment list" where
  "queued xs q n bCtrl =
     (if xs \<noteq> [] \<and> ss_bCtrl (last xs) = bCtrl \<and> ss_xmit (last xs) = 0
      then butlast xs @ [(last xs)\<lparr>ss_len := ss_len (last xs) + n\<rparr>]
      else xs @ [new_SSegment q n bCtrl])"

lemma queued_inv:
  assumes "segs_from u xs" and "sent_first xs" and "seg_total xs + unat n < 2 ^ 32"
  shows "segs_from u (queued xs (u + of_nat (seg_total xs)) n b)"
    and "seg_total (queued xs (u + of_nat (seg_total xs)) n b) = seg_total xs + unat n"
    and "in_flight (queued xs (u + of_nat (seg_total xs)) n b) = in_flight xs"
    and "sent_first (queued xs (u + of_nat (seg_total xs)) n b)"
proof -
  let ?q = "u + of_nat (seg_total xs)"
  have "segs_from u (queued xs ?q n b) \<and> seg_total (queued xs ?q n b) = seg_total xs + unat n \<and>
    in_flight (queued xs ?q n b) = in_flight xs \<and> sent_first (queued xs ?q n b)"
  proof (cases "xs \<noteq> [] \<and> ss_bCtrl (last xs) = b \<and> ss_xmit (last xs) = 0")
    case True
    then obtain as y where xs: "xs = as @ [y]" by (cases xs rule: rev_cases) auto
    have "unat (ss_len y + n) = unat (ss_len y) + unat n"
      using assms(3) by (intro unat_add_no_wrap) (simp add: xs)
    then show ?thesis
      using True assms by (auto simp: queued_def xs segs_from_append sent_first_def sorted_wrt_append)
  next
    case False
    then show ?thesis
      using assms by (auto simp: queued_def new_SSegment_def segs_from_append sent_first_def sorted_wrt_append)
  qed
  then show "segs_from u (queued xs ?q n b)" "seg_total (queued xs ?q n b) = seg_total xs + unat n"
    "in_flight (queued xs ?q n b) = in_flight xs" "sent_first (queued xs ?q n b)" by blast+
qed

lemma queued_ctl:
  assumes "seg_ctl c k xs" and "seg_total xs + unat n < 2 ^ 32"
    and "if b then k + seg_total xs + unat n \<le> c else c \<le> k + seg_total xs"
  shows "seg_ctl c k (queued xs q n b)"
proof (cases "xs \<noteq> [] \<and> ss_bCtrl (last xs) = b \<and> ss_xmit (last xs) = 0")
  case True
  then obtain as y where xs: "xs = as @ [y]" by (cases xs rule: rev_cases) auto
  have "unat (ss_len y + n) = unat (ss_len y) + unat n"
    using assms(2) by (intro unat_add_no_wrap) (simp add: xs)
  then show ?thesis using True assms by (auto simp: queued_def xs seg_ctl_append split: if_splits)
next
  case False
  then show ?thesis using assms by (auto simp: queued_def new_SSegment_def seg_ctl_append split: if_splits)
qed

text \<open>What \<open>queue\<close> does: it accepts as many bytes as fit and appends them to the stream.\<close>

lemma queue_effect:
  assumes "snd_inv s" and "unat len \<le> length data" and "bCtrl \<Longrightarrow> unat len \<le> GetWriteRemaining (m_sbuf s)"
    and n: "n = min (unat len) (GetWriteRemaining (m_sbuf s))"
  obtains sbuf where "queue s data len bCtrl = Inr (of_nat n, s\<lparr>m_slist := queued (m_slist s)
        (m_snd_una s + of_nat (seg_total (m_slist s))) (of_nat n) bCtrl, m_sbuf := sbuf\<rparr>)"
    and "fb_open sbuf" and "fb_data sbuf = fb_data (m_sbuf s) @ take n data"
    and "fb_buffer_length sbuf = fb_buffer_length (m_sbuf s)" and "fb_data_length sbuf = fb_data_length (m_sbuf s) + n"
proof -
  let ?a = "GetWriteRemaining (m_sbuf s)"
  have a: "?a < 2 ^ 32" using assms(1) by (auto simp: snd_inv_def GetWriteRemaining_def)
  have un: "unat (of_nat n :: uint32) = n" using a n by (intro unat_of_nat_lt) simp
  have ua: "unat (of_nat ?a :: uint32) = ?a" using a by (intro unat_of_nat_lt) simp
  have len: "andThen (if len > of_nat ?a then andThen (ASSERT (\<not> bCtrl)) (\<lambda>_. Inr (of_nat ?a)) else Inr len) f =
      f (of_nat n)" for f :: "uint32 \<Rightarrow> (uint32 \<times> PseudoTcp) exec"
    using assms(3) n ua by (cases bCtrl) (auto simp: word_less_nat_alt min_def)
  have o: "fb_open (m_sbuf s)" and tot: "GetBuffered (m_sbuf s) = seg_total (m_slist s)"
    using assms(1) by (auto simp: snd_inv_def GetBuffered_def)
  have l: "length (take n data) = n" using assms(2) n by simp
  then have "length (take n data) \<le> ?a" using n by simp
  then obtain r f' where W: "FB_Write (m_sbuf s) (take n data) = (r, n, f')" "fb_open f'"
      "fb_data f' = fb_data (m_sbuf s) @ take n data" "fb_buffer_length f' = fb_buffer_length (m_sbuf s)"
      "fb_data_length f' = fb_data_length (m_sbuf s) + n"
    using FB_Write_fits [OF o, of "take n data"] unfolding l by metis
  have "queue s data len bCtrl = Inr (of_nat n, s\<lparr>m_slist := queued (m_slist s)
        (m_snd_una s + of_nat (seg_total (m_slist s))) (of_nat n) bCtrl, m_sbuf := f'\<rparr>)"
    unfolding queue_def Let_def len un W(1) prod.case tot queued_def ..
  then show ?thesis using that W by blast
qed

lemma queue_stream:
  assumes "snd_stream c T s" and "unat len \<le> length data" and "c \<le> length T"
  obtains n s' where "queue s data len False = Inr (of_nat n, s')" and "n \<le> unat len"
    and "n = min (unat len) (GetWriteRemaining (m_sbuf s))"
    and "snd_stream c (T @ take n data) s'" and "quiet s' = quiet (s\<lparr>m_sbuf := m_sbuf s'\<rparr>)"
    and "fb_buffer_length (m_sbuf s') = fb_buffer_length (m_sbuf s)" and "m_slist s' \<noteq> []"
proof -
  note inv = snd_stream_inv [OF assms(1)]
  define n where "n = min (unat len) (GetWriteRemaining (m_sbuf s))"
  obtain sbuf where Q: "queue s data len False = Inr (of_nat n, s\<lparr>m_slist := queued (m_slist s)
        (m_snd_una s + of_nat (seg_total (m_slist s))) (of_nat n) False, m_sbuf := sbuf\<rparr>)"
      "fb_open sbuf" "fb_data sbuf = fb_data (m_sbuf s) @ take n data"
      "fb_buffer_length sbuf = fb_buffer_length (m_sbuf s)" "fb_data_length sbuf = fb_data_length (m_sbuf s) + n"
    by (rule queue_effect [where bCtrl = False, OF inv assms(2) _ n_def]) simp_all
  obtain A where A: "A \<le> length T" "m_snd_una s = of_nat A" "fb_data (m_sbuf s) = drop A T" "seg_ctl c A (m_slist s)"
    using assms(1) by (auto simp: snd_stream_def)
  have dl: "fb_data_length (m_sbuf s) = length T - A"
    using length_fb_data [OF snd_inv_bounds(1) [OF inv]] A by simp
  have a: "GetWriteRemaining (m_sbuf s) + fb_data_length (m_sbuf s) < 2 ^ 32"
    using inv by (simp add: snd_inv_def GetWriteRemaining_def fb_open_def fb_inv_def)
  then have un: "unat (of_nat n :: uint32) = n" by (intro unat_of_nat_lt) (simp add: n_def)
  have tn: "seg_total (m_slist s) + unat (of_nat n :: uint32) < 2 ^ 32"
    using a inv unfolding un by (auto simp: snd_inv_def n_def)
  note I = queued_inv [OF _ _ tn]
  let ?s' = "s\<lparr>m_slist := queued (m_slist s) (m_snd_una s + of_nat (seg_total (m_slist s))) (of_nat n) False, m_sbuf := sbuf\<rparr>"
  have "snd_inv ?s'" using inv I Q(2,4,5) un by (simp add: snd_inv_def)
  moreover have "seg_ctl c A (m_slist ?s')"
    using queued_ctl [OF A(4) tn, of False] inv A(1) assms(3) dl by (simp add: snd_inv_def)
  moreover have "\<forall>pr \<in> set (x_sent ?s'). pkt_good c (T @ take n data) (fst pr)"
    using assms(1) pkt_good_append by (auto simp: snd_stream_def)
  ultimately have "snd_stream c (T @ take n data) ?s'"
    using A Q(3) by (auto simp: snd_stream_def intro!: exI [of _ A])
  moreover have "m_slist ?s' \<noteq> []" by (simp add: queued_def)
  moreover have "n \<le> unat len" by (simp add: n_def)
  moreover have "quiet ?s' = quiet (s\<lparr>m_sbuf := m_sbuf ?s'\<rparr>)" by (simp add: quiet_def)
  ultimately show ?thesis using that [OF Q(1) _ n_def] Q(4) by simp
qed

subsection \<open>Acknowledgements\<close>

text \<open>An acknowledgement at a segment boundary.\<close>

definition ack_aligned :: "PseudoTcp \<Rightarrow> uint32 \<Rightarrow> bool" where
  "ack_aligned s ack \<longleftrightarrow> (\<exists>k \<le> length (m_slist s). unat (ack - m_snd_una s) = seg_total (take k (m_slist s)))"

lemma free_acked_aligned:
  "unat n = seg_total (take k xs) \<Longrightarrow> k \<le> length xs \<Longrightarrow>
   \<exists>j l'. free_acked xs n l = Inr (drop j xs, l') \<and> j \<le> length xs \<and> seg_total (take j xs) = unat n \<and>
     (j = 0 \<or> seg_total (take (j - 1) xs) < unat n)"
proof (induction xs n l arbitrary: k rule: free_acked.induct)
  case (1 n l)
  then show ?case by (simp add: unat_eq_0 word_gt_0)
next
  case (2 x xs n l)
  show ?case
  proof (cases "n > 0")
    case True
    then obtain k' where k: "k = Suc k'" using 2(2) by (cases k) (simp_all add: unat_eq_0)
    then have le: "ss_len x \<le> n" using 2(2) by (simp add: word_le_nat_alt)
    then have n': "unat (n - ss_len x) = seg_total (take k' xs)" using 2(2) k by (simp add: unat_sub)
    have "\<not> n < ss_len x" using le by simp
    then obtain j l' where j: "free_acked xs (n - ss_len x) (if ss_len x > l then ss_len x else l) = Inr (drop j xs, l')"
        "j \<le> length xs" "seg_total (take j xs) = unat (n - ss_len x)"
        "j = 0 \<or> seg_total (take (j - 1) xs) < unat (n - ss_len x)"
      using 2(1) [OF True _ n'] 2(3) k by auto
    have u: "unat (n - ss_len x) = unat n - unat (ss_len x)" "unat (ss_len x) \<le> unat n" "0 < unat n"
      using le True by (auto simp: unat_sub word_le_nat_alt unat_gt_0)
    have "seg_total (take (Suc j - 1) (x # xs)) < unat n"
      using j(4) u by (cases j) auto
    then show ?thesis
      using True \<open>\<not> n < ss_len x\<close> j u by (intro exI [of _ "Suc j"]) auto
  next
    case False
    then have "n = 0" by (simp add: word_gt_0)
    then show ?thesis by simp
  qed
qed

lemma acked_sent:
  assumes "sent_first xs" and "j \<le> length xs" and "j = 0 \<or> seg_total (take (j - 1) xs) < m" and "m \<le> in_flight xs"
  shows "\<forall>x \<in> set (take j xs). ss_xmit x \<noteq> 0"
proof (cases j)
  case 0
  then show ?thesis by simp
next
  case (Suc i)
  then have i: "i < length xs" using assms(2) by simp
  obtain as y bs where xs: "xs = as @ y # bs" "length as = i" "take i xs = as"
    using split_at_index [OF i] by metis
  have y: "ss_xmit y \<noteq> 0"
  proof
    assume 0: "ss_xmit y = 0"
    then have "\<forall>x \<in> set bs. ss_xmit x = 0"
      using assms(1) by (auto simp: sent_first_def xs(1) sorted_wrt_append)
    then have "in_flight xs = in_flight as" using 0 by (simp add: xs(1) in_flight_unsent)
    also have "\<dots> \<le> seg_total as" by (rule in_flight_le)
    finally show False using assms(3,4) Suc xs(3) by simp
  qed
  have "take j xs = as @ [y]" using Suc by (simp add: xs(1) xs(2) [symmetric])
  then show ?thesis using y assms(1) by (auto simp: sent_first_def xs(1) sorted_wrt_append)
qed

lemma sent_first_drop: "sent_first xs \<Longrightarrow> sent_first (drop j xs)"
  by (simp add: sent_first_def sorted_wrt_drop)

text \<open>The state after the release of \<open>j\<close> segments that were all transmitted.\<close>

lemma released_stream:
  assumes "snd_stream c T s" and "j \<le> length (m_slist s)" and "\<forall>x \<in> set (take j (m_slist s)). ss_xmit x \<noteq> 0"
    and "m_snd_una s' = m_snd_una s + of_nat (seg_total (take j (m_slist s)))" and "m_snd_nxt s' = m_snd_nxt s"
    and "m_slist s' = drop j (m_slist s)" and "fb_open (m_sbuf s')"
    and "fb_buffer_length (m_sbuf s') = fb_buffer_length (m_sbuf s)"
    and "fb_data (m_sbuf s') = drop (seg_total (take j (m_slist s))) (fb_data (m_sbuf s))"
    and "fb_data_length (m_sbuf s') = fb_data_length (m_sbuf s) - seg_total (take j (m_slist s))"
    and "x_sent s' = x_sent s"
  shows "snd_stream c T s'"
proof -
  let ?as = "take j (m_slist s)" and ?bs = "drop j (m_slist s)"
  note inv = snd_stream_inv [OF assms(1)]
  have xs: "m_slist s = ?as @ ?bs" by simp
  have tot: "seg_total (m_slist s) = seg_total ?as + seg_total ?bs" by (metis xs seg_total_simps(3))
  have fl: "in_flight (m_slist s) = seg_total ?as + in_flight ?bs"
    using in_flight_sent [OF assms(3)] by (metis xs in_flight_simps(2))
  have "segs_from (m_snd_una s) (?as @ ?bs)" using inv by (simp add: snd_inv_def)
  then have sf: "segs_from (m_snd_una s') ?bs" unfolding segs_from_append assms(4) by blast
  have un: "unat (of_nat (seg_total ?as) :: uint32) = seg_total ?as"
    using tot snd_inv_bounds(3) [OF inv] by (intro unat_of_nat_lt) simp
  have "unat (m_snd_nxt s - m_snd_una s - of_nat (seg_total ?as)) = in_flight ?bs"
  proof -
    have "of_nat (seg_total ?as) \<le> m_snd_nxt s - m_snd_una s"
      unfolding word_le_nat_alt un using inv fl by (simp add: snd_inv_def)
    then show ?thesis using inv fl un by (simp add: unat_sub snd_inv_def)
  qed
  then have "snd_inv s'"
    using inv tot sf sent_first_drop [of "m_slist s" j] assms(4-8,10)
    by (simp add: snd_inv_def diff_diff_eq) linarith
  moreover obtain A where A: "A \<le> length T" "m_snd_una s = of_nat A" "fb_data (m_sbuf s) = drop A T" "seg_ctl c A (m_slist s)"
    using assms(1) by (auto simp: snd_stream_def)
  moreover have "length (drop A T) = seg_total (m_slist s)"
    using A(3) length_fb_data [OF snd_inv_bounds(1) [OF inv]] inv by (simp add: snd_inv_def)
  moreover have "seg_ctl c (A + seg_total ?as) ?bs" using A(4) xs seg_ctl_append by metis
  ultimately show ?thesis
    using assms tot A by (auto simp: snd_stream_def add.commute intro!: exI [of _ "A + seg_total ?as"])
qed

lemma update_rtt_same:
  assumes "update_rtt s now tsecr = Inr s'"
  shows "m_sbuf s' = m_sbuf s" "m_snd_una s' = m_snd_una s" "m_slist s' = m_slist s" "m_snd_nxt s' = m_snd_nxt s"
    "x_sent s' = x_sent s" "m_mss s' = m_mss s" "m_msslevel s' = m_msslevel s" "m_rwnd_scale s' = m_rwnd_scale s"
    "m_rbuf s' = m_rbuf s" "m_rcv_nxt s' = m_rcv_nxt s" "m_rlist s' = m_rlist s" "m_rcv_wnd s' = m_rcv_wnd s"
    "m_shutdown s' = m_shutdown s" "m_state s' = m_state s" "m_conv s' = m_conv s" "m_rbuf_len s' = m_rbuf_len s"
    "m_mtu_advise s' = m_mtu_advise s"
  using assms by (auto simp: update_rtt_def Let_def split: if_splits)

lemma process_acked_stream:
  assumes "snd_stream c T s" and "process_acked s seg now = Inr s'" and "ack_aligned s (seg_ack seg)"
    and "m_snd_una s < seg_ack seg" and "seg_ack seg \<le> m_snd_nxt s"
  shows "snd_stream c T s'"
proof -
  let ?n = "seg_ack seg - m_snd_una s"
  note inv = snd_stream_inv [OF assms(1)]
  obtain s1 where R: "update_rtt s now (seg_tsecr seg) = Inr s1"
    using assms(2) by (auto simp: process_acked_def andThen_eq_Inr_iff)
  note S = update_rtt_same [OF R]
  obtain sbuf slist largest where C: "ConsumeReadData (m_sbuf s) (unat ?n) = Inr sbuf"
      and F: "free_acked (m_slist s) ?n (m_largest s1) = Inr (slist, largest)"
      and s': "m_sbuf s' = sbuf" "m_slist s' = slist" "m_snd_una s' = seg_ack seg" "m_snd_nxt s' = m_snd_nxt s"
        "x_sent s' = x_sent s"
    using assms(2) R S by (auto simp: process_acked_def andThen_eq_Inr_iff Let_def)
  obtain k where "unat ?n = seg_total (take k (m_slist s))" "k \<le> length (m_slist s)"
    using assms(3) by (auto simp: ack_aligned_def)
  then obtain j where j: "slist = drop j (m_slist s)" "j \<le> length (m_slist s)" "seg_total (take j (m_slist s)) = unat ?n"
      "j = 0 \<or> seg_total (take (j - 1) (m_slist s)) < unat ?n"
    using free_acked_aligned [of ?n k "m_slist s" "m_largest s1"] F by auto
  have le: "unat ?n \<le> in_flight (m_slist s)"
  proof -
    have "unat ?n \<le> unat (m_snd_nxt s - m_snd_una s)"
      using assms(4,5) by (simp add: unat_sub word_le_nat_alt word_less_nat_alt)
    then show ?thesis using inv by (simp add: snd_inv_def)
  qed
  then have "unat ?n \<le> fb_data_length (m_sbuf s)" using snd_inv_bounds(4) [OF inv] by linarith
  then obtain f' where "ConsumeReadData (m_sbuf s) (unat ?n) = Inr f'" "fb_inv f'"
      "fb_data f' = drop (unat ?n) (fb_data (m_sbuf s))" "fb_data_length f' = fb_data_length (m_sbuf s) - unat ?n"
      "fb_state f' = fb_state (m_sbuf s)" "fb_buffer_length f' = fb_buffer_length (m_sbuf s)"
    by (rule ConsumeReadData_spec [OF snd_inv_bounds(1) [OF inv]])
  then have f: "fb_open sbuf" "fb_data sbuf = drop (unat ?n) (fb_data (m_sbuf s))"
      "fb_data_length sbuf = fb_data_length (m_sbuf s) - unat ?n"
      "fb_buffer_length sbuf = fb_buffer_length (m_sbuf s)"
    using C inv by (auto simp: fb_open_def snd_inv_def)
  have sent: "\<forall>x \<in> set (take j (m_slist s)). ss_xmit x \<noteq> 0"
    using acked_sent [OF _ j(2,4) le] inv by (simp add: snd_inv_def)
  show ?thesis
    by (rule released_stream [OF assms(1) j(2) sent]) (use f s' j in simp_all)
qed

end
