(* ===== verification/TcpRecv.thy ===== *)
theory TcpRecv
  imports TcpQueue
begin

text \<open>
  The receiving half of \<open>PseudoTcp\<close>: packets that carry pieces of one stream, in any order and
  any number of times, are put together to a prefix of that stream.
\<close>

subsection \<open>Parked pieces\<close>

text \<open>The bytes of \<open>T\<close> between two positions.\<close>

definition piece :: "byte list \<Rightarrow> nat \<Rightarrow> nat \<Rightarrow> byte list" where
  "piece T lo hi = take (hi - lo) (drop lo T)"

lemma length_piece [simp]: "hi \<le> length T \<Longrightarrow> length (piece T lo hi) = hi - lo"
  by (simp add: piece_def)

lemma piece_nth: "lo + i < hi \<Longrightarrow> hi \<le> length T \<Longrightarrow> piece T lo hi ! i = T ! (lo + i)"
  by (simp add: piece_def)

lemma piece_drop: "drop n (piece T lo hi) = piece T (lo + n) hi"
  by (simp add: piece_def drop_take add.commute)

text \<open>An entry of \<open>m_rlist\<close> at stream position \<open>r\<close>: what it has beyond \<open>r\<close> lies parked in the ring.\<close>

definition held :: "nat \<Rightarrow> byte list \<Rightarrow> nat \<Rightarrow> FifoBuffer \<Rightarrow> RSegment \<Rightarrow> bool" where
  "held c T r f x \<longleftrightarrow> c \<le> unat (rs_seq x) \<and> unat (rs_seq x) + unat (rs_len x) \<le> length T \<and>
     (r < unat (rs_seq x) + unat (rs_len x) \<longrightarrow>
        fbw.parked f (max r (unat (rs_seq x)) - r)
          (piece T (max r (unat (rs_seq x))) (unat (rs_seq x) + unat (rs_len x))))"

lemma held_commit:
  assumes "held c T r f x" and "fb_view f' = fb_view f" and "fb_data_length f' = fb_data_length f + n"
    and "fb_data_length f' \<le> length (fb_view f)"
  shows "held c T (r + n) f' x"
proof -
  let ?a = "unat (rs_seq x)" and ?b = "unat (rs_seq x) + unat (rs_len x)"
  have "fbw.parked f' (max (r + n) ?a - (r + n)) (piece T (max (r + n) ?a) ?b)" if b: "r + n < ?b"
  proof -
    let ?m = "max (r + n) ?a - max r ?a"
    have p: "fbw.parked f (max r ?a - r) (piece T (max r ?a) ?b)"
      using assms(1) b by (simp add: held_def)
    have le: "?m \<le> length (piece T (max r ?a) ?b)" using assms(1) b by (auto simp: held_def max_def)
    have "fbw.parked f (max r ?a - r + ?m) (drop ?m (piece T (max r ?a) ?b))"
      using fbw.parked_suffix [OF p le] .
    moreover have "max r ?a - r + ?m = n + (max (r + n) ?a - (r + n))" by (auto simp: max_def)
    moreover have "drop ?m (piece T (max r ?a) ?b) = piece T (max (r + n) ?a) ?b"
      unfolding piece_drop by (simp add: max_def)
    ultimately show ?thesis using fbw.parked_after_commit [OF assms(2,3) _ assms(4)] by simp
  qed
  then show ?thesis using assms(1) by (simp add: held_def)
qed

lemma held_write:
  assumes "fb_open f" and "held c T r f x" and "r \<le> k" and "k < h" and "h \<le> length T"
    and "h - r \<le> GetWriteRemaining f"
  shows "held c T r (fb_write_at f (piece T k h) (k - r)) x"
proof -
  let ?a = "unat (rs_seq x)" and ?b = "unat (rs_seq x) + unat (rs_len x)"
  have room: "fbw.room f = GetWriteRemaining f"
    using assms(1) by (simp add: fbw.room_def GetWriteRemaining_def fb_open_def fb_inv_def)
  have fit: "k - r + length (piece T k h) \<le> fbw.room f" using assms room by simp
  have ne: "piece T k h \<noteq> []" using assms by (auto simp: piece_def)
  have "fbw.parked (fb_write_at f (piece T k h) (k - r)) (max r ?a - r) (piece T (max r ?a) ?b)" if b: "r < ?b"
  proof (rule fbw.parked_write_keep [OF assms(1) fit ne])
    show "fbw.parked f (max r ?a - r) (piece T (max r ?a) ?b)" using assms(2) b by (simp add: held_def)
    fix i
    assume i: "max r ?a - r \<le> i" "i < max r ?a - r + length (piece T (max r ?a) ?b)" "k - r \<le> i"
      "i < k - r + length (piece T k h)"
    have bT: "?b \<le> length T" using assms(2) by (simp add: held_def)
    show "piece T k h ! (i - (k - r)) = piece T (max r ?a) ?b ! (i - (max r ?a - r))"
      using i assms(3-5) bT by (simp add: piece_nth)
  qed
  then show ?thesis using assms(2) by (simp add: held_def)
qed

lemma held_read:
  assumes "fb_open f" and "0 < fb_data_length f" and "held c T r f x"
  shows "held c T r (fb_take_out f n) x"
  using assms(3) fbw.take_out_keeps(2) [OF assms(1,2)] by (simp add: held_def)

text \<open>A piece written at the position itself is parked there.\<close>

lemma write_parked:
  assumes "fb_open f" and "r \<le> k" and "k < h" and "h \<le> length T" and "h - r \<le> GetWriteRemaining f"
  shows "fbw.parked (fb_write_at f (piece T k h) (k - r)) (k - r) (piece T k h)"
    and "fb_open (fb_write_at f (piece T k h) (k - r))"
    and "fb_data (fb_write_at f (piece T k h) (k - r)) = fb_data f"
    and "fb_data_length (fb_write_at f (piece T k h) (k - r)) = fb_data_length f"
    and "fb_buffer_length (fb_write_at f (piece T k h) (k - r)) = fb_buffer_length f"
    and "WriteOffset f (piece T k h) (k - r) = (SR_SUCCESS, h - k, fb_write_at f (piece T k h) (k - r))"
proof -
  let ?xs = "piece T k h"
  have inv: "fb_inv f" "fb_state f \<noteq> SS_CLOSED" using assms(1) by (auto simp: fb_open_def)
  have len: "length ?xs = h - k" using assms by simp
  have room: "fb_data_length f + (k - r) < fb_buffer_length f"
    using assms inv by (simp add: GetWriteRemaining_def fb_inv_def)
  have c: "length ?xs = min (length ?xs) (fb_buffer_length f - fb_data_length f - (k - r))"
    using assms len by (simp add: GetWriteRemaining_def)
  obtain mem where W: "WriteOffsetLocked f ?xs (k - r) = (SR_SUCCESS, length ?xs, f\<lparr>fb_buffer := mem\<rparr>)"
      "fb_inv (f\<lparr>fb_buffer := mem\<rparr>)"
      "fb_view (f\<lparr>fb_buffer := mem\<rparr>) = blit (fb_view f) (fb_data_length f + (k - r)) (take (length ?xs) ?xs)"
    by (rule WriteOffsetLocked_spec [OF inv room c])
  have w: "fb_write_at f ?xs (k - r) = f\<lparr>fb_buffer := mem\<rparr>"
    using W(1) by (simp add: fb_write_at_def WriteOffset_def)
  have fits: "fb_data_length f + (k - r) + length ?xs \<le> length (fb_view f)"
    using assms inv len by (simp add: GetWriteRemaining_def fb_inv_def)
  show "fb_open (fb_write_at f ?xs (k - r))" using W(2) inv by (simp add: w fb_open_def)
  show "fb_data_length (fb_write_at f ?xs (k - r)) = fb_data_length f"
    "fb_buffer_length (fb_write_at f ?xs (k - r)) = fb_buffer_length f" by (simp_all add: w)
  show "fb_data (fb_write_at f ?xs (k - r)) = fb_data f"
    using W(3) fits by (simp add: w fb_data_def take_blit_before)
  show "WriteOffset f ?xs (k - r) = (SR_SUCCESS, h - k, fb_write_at f ?xs (k - r))"
    using W(1) len by (simp add: WriteOffset_def w)
  have "fbw.room f = GetWriteRemaining f"
    using inv by (simp add: fbw.room_def GetWriteRemaining_def fb_inv_def)
  then show "fbw.parked (fb_write_at f ?xs (k - r)) (k - r) ?xs"
    using fbw.parked_write [OF assms(1), of "k - r" ?xs] assms(2-5) len by (cases "?xs = []") simp_all
qed

subsection \<open>The invariant of the receiving half\<close>

text \<open>
  \<open>D\<close> is what the application has read. Together with the readable bytes it is the stream
  from \<open>c\<close> to \<open>m_rcv_nxt\<close>; the entries of \<open>m_rlist\<close> are further pieces, in order.
\<close>

definition rcv_stream :: "nat \<Rightarrow> byte list \<Rightarrow> byte list \<Rightarrow> PseudoTcp \<Rightarrow> bool" where
  "rcv_stream c T D s \<longleftrightarrow> fb_open (m_rbuf s) \<and> fb_buffer_length (m_rbuf s) < 2 ^ 32 \<and> length T < 2 ^ 32 \<and>
     unat (m_rcv_nxt s) \<le> length T \<and> D @ fb_data (m_rbuf s) = piece T c (unat (m_rcv_nxt s)) \<and>
     (unat (m_rcv_nxt s) < c \<longrightarrow> m_rlist s = []) \<and> sorted (map (\<lambda>x. unat (rs_seq x)) (m_rlist s)) \<and>
     (\<forall>x \<in> set (m_rlist s). unat (m_rcv_nxt s) < unat (rs_seq x) \<and> held c T (unat (m_rcv_nxt s)) (m_rbuf s) x)"

lemma rcv_stream_same:
  assumes "rcv_stream c T D s" and "m_rbuf s' = m_rbuf s" and "m_rcv_nxt s' = m_rcv_nxt s" and "m_rlist s' = m_rlist s"
  shows "rcv_stream c T D s'"
  using assms by (simp add: rcv_stream_def)

lemma piece_append: "lo \<le> mid \<Longrightarrow> mid \<le> hi \<Longrightarrow> piece T lo mid @ piece T mid hi = piece T lo hi"
  using take_add_drop [of "mid - lo" "hi - mid" "drop lo T"] by (simp add: piece_def)

lemma unat_add_bounded:
  fixes a b :: uint32
  assumes "unat a + unat b \<le> length (T :: byte list)" and "length T < 2 ^ 32"
  shows "unat (a + b) = unat a + unat b"
  using assms by (intro unat_add_no_wrap) simp

text \<open>Committing a piece parked at the front.\<close>

lemma commit_piece:
  assumes "fb_open f" and "fbw.parked f 0 (piece T r h)" and "r \<le> h" and "h \<le> length T" and "c \<le> r"
    and "D @ fb_data f = piece T c r"
  obtains f' where "ConsumeWriteBuffer f (h - r) = Inr f'" and "fb_open f'" and "D @ fb_data f' = piece T c h"
    and "fb_view f' = fb_view f" and "fb_data_length f' = fb_data_length f + (h - r)"
    and "fb_data_length f' \<le> length (fb_view f)" and "fb_buffer_length f' = fb_buffer_length f"
proof -
  have len: "length (piece T r h) = h - r" using assms(4) by simp
  obtain f' where f': "ConsumeWriteBuffer f (h - r) = Inr f'" "fb_open f'"
      "fbw.readable f' = fbw.readable f @ piece T r h" "fb_view f' = fb_view f"
      "fb_data_length f' = fb_data_length f + (h - r)"
    using fbw.commit_parked [OF assms(1,2)] len by metis
  have "fb_buffer_length f' = fb_buffer_length f"
    using f'(1) by (auto simp: ConsumeWriteBuffer_def andThen_eq_Inr_iff Let_def PostEvent_def split: if_splits)
  moreover have "D @ fb_data f' = piece T c h"
    using f'(3) assms piece_append [OF assms(5,3), of T] by (simp add: fbw.readable_def fb_data_def [symmetric])
      (metis append.assoc)
  moreover have "fb_data_length f' \<le> length (fb_view f)"
    using fbw.used_le [OF f'(2)] f'(4) by simp
  ultimately show ?thesis using that f' by blast
qed

lemma drain_frame:
  "drain_rlist xs s fl = Inr (fl', s') \<Longrightarrow>
   \<exists>a b w l. s' = s\<lparr>m_rbuf := a, m_rcv_nxt := b, m_rcv_wnd := w, m_rlist := l\<rparr>"
proof (induction xs s fl rule: drain_rlist.induct)
  case (1 s fl)
  then have "s' = s\<lparr>m_rbuf := m_rbuf s, m_rcv_nxt := m_rcv_nxt s, m_rcv_wnd := m_rcv_wnd s, m_rlist := []\<rparr>" by simp
  then show ?case by blast
next
  case (2 x xs s fl)
  consider (stop) "\<not> rs_seq x \<le> m_rcv_nxt s"
    | (old) "rs_seq x \<le> m_rcv_nxt s" "\<not> rs_seq x + rs_len x > m_rcv_nxt s"
    | (use_it) "rs_seq x \<le> m_rcv_nxt s" "rs_seq x + rs_len x > m_rcv_nxt s" by blast
  then show ?case
  proof cases
    case stop
    then have "s' = s\<lparr>m_rbuf := m_rbuf s, m_rcv_nxt := m_rcv_nxt s, m_rcv_wnd := m_rcv_wnd s, m_rlist := x # xs\<rparr>"
      using 2(3) by simp
    then show ?thesis by blast
  next
    case old
    then show ?thesis using 2(2,3) by simp
  next
    case use_it
    then obtain rbuf where "drain_rlist xs (s\<lparr>m_rbuf := rbuf, m_rcv_nxt := m_rcv_nxt s + (rs_seq x + rs_len x - m_rcv_nxt s),
        m_rcv_wnd := m_rcv_wnd s - (rs_seq x + rs_len x - m_rcv_nxt s)\<rparr>) sfImmediateAck = Inr (fl', s')"
        "ConsumeWriteBuffer (m_rbuf s) (unat (rs_seq x + rs_len x - m_rcv_nxt s)) = Inr rbuf"
      using 2(3) by (auto simp: Let_def andThen_eq_Inr_iff simp del: add_diff_cancel_left' add_diff_cancel_left)
    from 2(1) [OF use_it refl this(2) this(1)] show ?thesis by auto
  qed
qed

lemma drain_stream:
  "fb_open (m_rbuf s) \<Longrightarrow> fb_buffer_length (m_rbuf s) < 2 ^ 32 \<Longrightarrow> length T < 2 ^ 32 \<Longrightarrow>
   unat (m_rcv_nxt s) \<le> length T \<Longrightarrow> c \<le> unat (m_rcv_nxt s) \<Longrightarrow>
   D @ fb_data (m_rbuf s) = piece T c (unat (m_rcv_nxt s)) \<Longrightarrow> sorted (map (\<lambda>x. unat (rs_seq x)) xs) \<Longrightarrow>
   \<forall>x \<in> set xs. held c T (unat (m_rcv_nxt s)) (m_rbuf s) x \<Longrightarrow>
   \<exists>fl' s'. drain_rlist xs s fl = Inr (fl', s') \<and> rcv_stream c T D s'"
proof (induction xs s fl rule: drain_rlist.induct)
  case (1 s fl)
  then show ?case by (simp add: rcv_stream_def)
next
  case (2 x xs s fl)
  let ?r = "unat (m_rcv_nxt s)" and ?b = "unat (rs_seq x) + unat (rs_len x)"
  have h: "held c T ?r (m_rbuf s) x" using 2(10) by simp
  then have b: "unat (rs_seq x + rs_len x) = ?b" "?b \<le> length T"
    using unat_add_bounded [of "rs_seq x" "rs_len x" T] 2(5) by (auto simp: held_def)
  consider (stop) "\<not> rs_seq x \<le> m_rcv_nxt s"
    | (old) "rs_seq x \<le> m_rcv_nxt s" "\<not> rs_seq x + rs_len x > m_rcv_nxt s"
    | (use_it) "rs_seq x \<le> m_rcv_nxt s" "rs_seq x + rs_len x > m_rcv_nxt s" by blast
  then show ?case
  proof cases
    case stop
    then have "?r < unat (rs_seq x)" by (simp add: word_le_nat_alt)
    then show ?thesis using 2(3-) stop by (fastforce simp: rcv_stream_def)
  next
    case old
    then show ?thesis using 2(2) [OF old] 2(3-) by simp
  next
    case use_it
    let ?n = "rs_seq x + rs_len x - m_rcv_nxt s"
    have rb: "unat (rs_seq x) \<le> ?r" "?r < ?b" using use_it b by (simp_all add: word_le_nat_alt word_less_nat_alt)
    have n: "unat ?n = ?b - ?r" using use_it(2) b(1) by (simp add: unat_sub order_less_imp_le)
    have front: "fbw.parked (m_rbuf s) 0 (piece T ?r ?b)" using h rb by (simp add: held_def max_absorb1)
    obtain f' where f': "ConsumeWriteBuffer (m_rbuf s) (?b - ?r) = Inr f'" "fb_open f'"
        "D @ fb_data f' = piece T c ?b" "fb_view f' = fb_view (m_rbuf s)"
        "fb_data_length f' = fb_data_length (m_rbuf s) + (?b - ?r)"
        "fb_data_length f' \<le> length (fb_view (m_rbuf s))" "fb_buffer_length f' = fb_buffer_length (m_rbuf s)"
      by (rule commit_piece [OF 2(3) front less_imp_le [OF rb(2)] b(2) 2(7,8)])
    let ?s1 = "s\<lparr>m_rbuf := f', m_rcv_nxt := m_rcv_nxt s + ?n, m_rcv_wnd := m_rcv_wnd s - ?n\<rparr>"
    have nxt: "unat (m_rcv_nxt ?s1) = ?b" using b(1) by simp
    have "\<forall>x \<in> set xs. held c T ?b f' x"
      using 2(10) held_commit [OF _ f'(4,5,6)] rb by fastforce
    then have "\<exists>fl' s'. drain_rlist xs ?s1 sfImmediateAck = Inr (fl', s') \<and> rcv_stream c T D s'"
      by (intro 2(1) [OF use_it refl]) (use f' n nxt 2(4,5,7,9) b(2) rb in simp_all)
    then show ?thesis using use_it f'(1) n by (simp add: Let_def)
  qed
qed

subsection \<open>Trimming\<close>

text \<open>A segment that carries the bytes of \<open>T\<close> from \<open>k\<close> on.\<close>

definition carries :: "byte list \<Rightarrow> nat \<Rightarrow> Segment \<Rightarrow> bool" where
  "carries T k seg \<longleftrightarrow> unat (seg_seq seg) = k \<and> k + unat (seg_len seg) \<le> length T \<and>
     unat (seg_len seg) \<le> length (seg_data seg) \<and>
     take (unat (seg_len seg)) (seg_data seg) = piece T k (k + unat (seg_len seg))"

lemma trim_old_carries:
  assumes "carries T k seg"
  obtains "seg_len (trim_old s seg) = 0" and "seg_flags (trim_old s seg) = seg_flags seg"
  | k' where "carries T k' (trim_old s seg)" and "k \<le> k'" and "unat (m_rcv_nxt s) \<le> k'"
    and "k' + unat (seg_len (trim_old s seg)) = k + unat (seg_len seg)"
    and "seg_flags (trim_old s seg) = seg_flags seg"
proof -
  let ?r = "unat (m_rcv_nxt s)" and ?m = "unat (seg_len seg)" and ?a = "m_rcv_nxt s - seg_seq seg"
  have k: "unat (seg_seq seg) = k" using assms by (simp add: carries_def)
  consider (new) "?r \<le> k" | (overlap) "k < ?r" "?a < seg_len seg" | (old) "k < ?r" "\<not> ?a < seg_len seg" by linarith
  then show thesis
  proof cases
    case new
    then have "trim_old s seg = seg" using k by (simp add: trim_old_def word_less_nat_alt)
    then show thesis using that(2) [of k] assms new by simp
  next
    case old
    then show thesis using that(1) k by (simp add: trim_old_def word_less_nat_alt)
  next
    case overlap
    let ?t = "trim_old s seg"
    have a: "unat ?a = ?r - k" using overlap(1) k by (simp add: unat_sub word_le_nat_alt)
    have am: "?r - k < ?m" using overlap(2) a by (simp add: word_less_nat_alt)
    have t: "?t = seg\<lparr>seg_seq := seg_seq seg + ?a, seg_data := drop (?r - k) (seg_data seg), seg_len := seg_len seg - ?a\<rparr>"
      using overlap k a by (simp add: trim_old_def word_less_nat_alt Let_def)
    have l: "unat (seg_len ?t) = ?m - (?r - k)"
      using overlap(2) a by (simp add: t unat_sub word_less_nat_alt word_le_nat_alt)
    have d: "take (?m - (?r - k)) (drop (?r - k) (seg_data seg)) = piece T ?r (k + ?m)"
    proof -
      have "take (?m - (?r - k)) (drop (?r - k) (seg_data seg)) = drop (?r - k) (take ?m (seg_data seg))"
        by (simp add: drop_take)
      also have "\<dots> = piece T ?r (k + ?m)"
        using assms overlap(1) by (simp add: carries_def piece_drop)
      finally show ?thesis .
    qed
    have "carries T ?r ?t"
      unfolding carries_def l using assms am overlap(1) d by (auto simp: t carries_def add.commute)
    then show thesis using that(2) [of ?r] l am overlap(1) by (simp add: t)
  qed
qed

lemma trim_new_carries:
  assumes "carries T k seg" and "length T < 2 ^ 32" and "fb_buffer_length (m_rbuf s) < 2 ^ 32" and "unat (m_rcv_nxt s) \<le> k"
  obtains "seg_len (trim_new s seg) = 0" and "seg_flags (trim_new s seg) = seg_flags seg"
  | "carries T k (trim_new s seg)" and "0 < unat (seg_len (trim_new s seg))"
    and "k + unat (seg_len (trim_new s seg)) - unat (m_rcv_nxt s) \<le> GetWriteRemaining (m_rbuf s)"
    and "seg_flags (trim_new s seg) = seg_flags seg" and "unat (seg_len (trim_new s seg)) \<le> unat (seg_len seg)"
proof -
  let ?r = "unat (m_rcv_nxt s)" and ?m = "unat (seg_len seg)" and ?av = "GetWriteRemaining (m_rbuf s)"
  let ?t = "trim_new s seg"
  have k: "unat (seg_seq seg) = k" "k + ?m \<le> length T" using assms(1) by (auto simp: carries_def)
  have e: "unat (seg_seq seg + seg_len seg) = k + ?m" using unat_add_bounded [of "seg_seq seg" "seg_len seg" T] k assms(2) by simp
  then have over: "unat (seg_seq seg + seg_len seg - m_rcv_nxt s) = k + ?m - ?r"
    using assms(4) by (simp add: unat_sub word_le_nat_alt)
  have av: "unat (of_nat ?av :: uint32) = ?av" using assms(3) by (intro unat_of_nat_lt) (simp add: GetWriteRemaining_def)
  show thesis
  proof (cases "k + ?m - ?r > ?av")
    case False
    then have "?t = seg" using over av by (simp add: trim_new_def Let_def word_less_nat_alt)
    then show thesis using that assms(1) False by (cases "seg_len seg = 0") (simp_all add: unat_gt_0)
  next
    case True
    define n where "n = seg_seq seg + seg_len seg - m_rcv_nxt s - of_nat ?av"
    have un: "unat n = k + ?m - ?r - ?av" unfolding n_def using True over av by (simp add: unat_sub word_le_nat_alt)
    show thesis
    proof (cases "n < seg_len seg")
      case False
      then show thesis using that(1) True over av by (simp add: trim_new_def Let_def word_less_nat_alt n_def)
    next
      case less: True
      have t: "?t = seg\<lparr>seg_len := seg_len seg - n\<rparr>"
        using True less over av by (simp add: trim_new_def Let_def word_less_nat_alt n_def)
      have l: "unat (seg_len ?t) = ?m - (k + ?m - ?r - ?av)"
        using less un by (simp add: t unat_sub order_less_imp_le)
      have nm: "k + ?m - ?r - ?av < ?m" using less un by (simp add: word_less_nat_alt)
      have "take (unat (seg_len ?t)) (seg_data seg) = take (unat (seg_len ?t)) (take ?m (seg_data seg))"
        using l by simp
      also have "\<dots> = piece T k (k + unat (seg_len ?t))"
        using assms(1) l by (simp add: carries_def piece_def)
      finally have "take (unat (seg_len ?t)) (seg_data seg) = piece T k (k + unat (seg_len ?t))" .
      moreover have "unat (seg_len ?t) \<le> ?m" using l by simp
      ultimately have "carries T k ?t" using assms(1) unfolding carries_def by (simp add: t)
      then show thesis using that(2) l nm assms(4) True by (simp add: t)
    qed
  qed
qed

subsection \<open>The data of a segment\<close>

lemma sorted_insert_rseg:
  assumes "sorted (map (\<lambda>x. unat (rs_seq x)) xs)"
  shows "sorted (map (\<lambda>x. unat (rs_seq x)) (insert_rseg r xs))"
  using assms
  by (induction xs)
    (auto simp: insert_rseg_def word_less_nat_alt not_less dest!: set_takeWhileD set_dropWhileD)

lemma set_insert_rseg: "set (insert_rseg r xs) = insert r (set xs)"
  unfolding insert_rseg_def by (metis set_append set_simps(2) takeWhile_dropWhile_id Un_insert_right)

lemma process_data_frame:
  assumes "process_data s seg fl = Inr (new, fl', s')"
  shows "\<exists>a b w l. s' = s\<lparr>m_rbuf := a, m_rcv_nxt := b, m_rcv_wnd := w, m_rlist := l\<rparr>"
proof -
  have same: "\<exists>a b w l. s = s\<lparr>m_rbuf := a, m_rcv_nxt := b, m_rcv_wnd := w, m_rlist := l\<rparr>"
    by (rule exI [of _ "m_rbuf s"], rule exI [of _ "m_rcv_nxt s"], rule exI [of _ "m_rcv_wnd s"],
        rule exI [of _ "m_rlist s"]) simp
  have one: "\<exists>a b w l. s\<lparr>m_rcv_nxt := b1\<rparr> = s\<lparr>m_rbuf := a, m_rcv_nxt := b, m_rcv_wnd := w, m_rlist := l\<rparr>" for b1
    by (rule exI [of _ "m_rbuf s"], rule exI [of _ b1], rule exI [of _ "m_rcv_wnd s"],
        rule exI [of _ "m_rlist s"]) simp
  have two: "\<exists>a b w l. s\<lparr>m_rbuf := a1, m_rlist := l1\<rparr> = s\<lparr>m_rbuf := a, m_rcv_nxt := b, m_rcv_wnd := w, m_rlist := l\<rparr>" for a1 l1
    by (rule exI [of _ a1], rule exI [of _ "m_rcv_nxt s"], rule exI [of _ "m_rcv_wnd s"], rule exI [of _ l1]) simp
  have three: "\<exists>a b w l. t = s\<lparr>m_rbuf := a, m_rcv_nxt := b, m_rcv_wnd := w, m_rlist := l\<rparr>"
    if "drain_rlist xs (s\<lparr>m_rbuf := a1, m_rcv_nxt := b1, m_rcv_wnd := w1\<rparr>) f = Inr (f', t)" for xs a1 b1 w1 f f' t
    using drain_frame [OF that] by auto
  show ?thesis
    using assms same one two three unfolding process_data_def
    by (auto simp: Let_def andThen_eq_Inr_iff split: if_splits prod.splits)
qed

text \<open>Data that starts at or after \<open>m_rcv_nxt\<close> and fits.\<close>

lemma process_data_stream:
  assumes "rcv_stream c T D s" and "m_shutdown s = SD_NONE" and "\<not> has_flag seg FLAG_CTL"
    and "carries T k seg" and "c \<le> k" and "c \<le> unat (m_rcv_nxt s)" and "unat (m_rcv_nxt s) \<le> k"
    and "0 < unat (seg_len seg)" and "k + unat (seg_len seg) - unat (m_rcv_nxt s) \<le> GetWriteRemaining (m_rbuf s)"
  shows "\<exists>new fl' s'. process_data s seg fl = Inr (new, fl', s') \<and> rcv_stream c T D s'"
proof -
  let ?r = "unat (m_rcv_nxt s)" and ?h = "k + unat (seg_len seg)" and ?f = "m_rbuf s"
  have I: "fb_open ?f" "fb_buffer_length ?f < 2 ^ 32" "length T < 2 ^ 32" "?r \<le> length T"
    "D @ fb_data ?f = piece T c ?r" "sorted (map (\<lambda>x. unat (rs_seq x)) (m_rlist s))"
    "\<forall>x \<in> set (m_rlist s). ?r < unat (rs_seq x) \<and> held c T ?r ?f x"
    using assms(1) by (auto simp: rcv_stream_def)
  have k: "unat (seg_seq seg) = k" "?h \<le> length T" "unat (seg_len seg) \<le> length (seg_data seg)"
    "take (unat (seg_len seg)) (seg_data seg) = piece T k ?h"
    using assms(4) by (auto simp: carries_def)
  have kh: "k < ?h" using assms(8) by simp
  note W = write_parked [OF I(1) assms(7) kh k(2) assms(9)]
  let ?g = "fb_write_at ?f (piece T k ?h) (k - ?r)"
  have heldg: "\<forall>x \<in> set (m_rlist s). held c T ?r ?g x"
    using held_write [OF I(1) _ assms(7) kh k(2) assms(9)] I(7) by blast
  have off: "unat (seg_seq seg - m_rcv_nxt s) = k - ?r" using assms(7) k(1) by (simp add: unat_sub word_le_nat_alt)
  have wr: "WriteOffset ?f (take (unat (seg_len seg)) (seg_data seg)) (unat (seg_seq seg - m_rcv_nxt s)) = (SR_SUCCESS, ?h - k, ?g)"
    unfolding k(4) off by (rule W(6))
  have big: "seg_len seg > 0" "\<not> length (seg_data seg) < unat (seg_len seg)"
    using assms(8) k(3) by (simp_all add: word_less_nat_alt)
  show ?thesis
  proof (cases "seg_seq seg = m_rcv_nxt s")
    case True
    then have rk: "k = ?r" using k(1) by simp
    have park: "fbw.parked ?g 0 (piece T ?r ?h)" using W(1) rk by simp
    have data: "D @ fb_data ?g = piece T c ?r" using I(5) W(3) by simp
    have rh: "?r \<le> ?h" using rk by simp
    obtain f' where f': "ConsumeWriteBuffer ?g (?h - ?r) = Inr f'" "fb_open f'" "D @ fb_data f' = piece T c ?h"
        "fb_view f' = fb_view ?g" "fb_data_length f' = fb_data_length ?g + (?h - ?r)"
        "fb_data_length f' \<le> length (fb_view ?g)" "fb_buffer_length f' = fb_buffer_length ?g"
      by (rule commit_piece [OF W(2) park rh k(2) assms(6) data])
    let ?s1 = "s\<lparr>m_rbuf := f', m_rcv_nxt := m_rcv_nxt s + seg_len seg, m_rcv_wnd := m_rcv_wnd s - seg_len seg\<rparr>"
    have nxt: "unat (m_rcv_nxt ?s1) = ?h"
      using unat_add_bounded [of "m_rcv_nxt s" "seg_len seg" T] k(2) I(3) rk by simp
    have "\<forall>x \<in> set (m_rlist s). held c T ?h f' x"
      using heldg held_commit [OF _ f'(4-6)] rh by fastforce
    then have "\<exists>fl' s'. drain_rlist (m_rlist s) ?s1 fl = Inr (fl', s') \<and> rcv_stream c T D s'"
      by (intro drain_stream) (use f' nxt I k(2) W(5) assms(5) in simp_all)
    moreover have "unat (seg_len seg) = ?h - ?r" using rk by simp
    ultimately show ?thesis
      using True big wr f'(1) assms(2,3) by (auto simp: process_data_def Let_def)
  next
    case False
    let ?x = "\<lparr>rs_seq = seg_seq seg, rs_len = seg_len seg\<rparr>"
    let ?s1 = "s\<lparr>m_rbuf := ?g, m_rlist := insert_rseg ?x (m_rlist s)\<rparr>"
    have rk: "?r < k" using False assms(7) k(1) by (metis le_neq_implies_less word_unat_eq_iff)
    have "held c T ?r ?g ?x" using W(1) assms(5) k rk by (simp add: held_def max_absorb2)
    then have "rcv_stream c T D ?s1"
      using I W(2,3,5) heldg rk k(1) assms(6) sorted_insert_rseg [OF I(6), of ?x]
      by (auto simp: rcv_stream_def set_insert_rseg)
    then show ?thesis
      using False big wr assms(2,3) by (auto simp: process_data_def Let_def)
  qed
qed

text \<open>Control data is skipped, and counts when it is next in order.\<close>

lemma process_data_control:
  assumes "rcv_stream c T D s" and "has_flag seg FLAG_CTL" and "carries T k seg" and "k + unat (seg_len seg) \<le> c"
  shows "\<exists>new fl' s'. process_data s seg fl = Inr (new, fl', s') \<and> rcv_stream c T D s'"
proof (cases "seg_len seg > 0 \<and> seg_seq seg = m_rcv_nxt s")
  case True
  have k: "unat (seg_seq seg) = k" "k + unat (seg_len seg) \<le> length T" using assms(3) by (auto simp: carries_def)
  have I: "length T < 2 ^ 32" "D @ fb_data (m_rbuf s) = piece T c k" "m_rlist s = []"
    using assms(1,4) True k by (auto simp: rcv_stream_def word_less_nat_alt)
  let ?s1 = "s\<lparr>m_rcv_nxt := m_rcv_nxt s + seg_len seg\<rparr>"
  have "unat (m_rcv_nxt ?s1) = k + unat (seg_len seg)"
    using unat_add_bounded [of "m_rcv_nxt s" "seg_len seg" T] k True I(1) by simp
  then have "rcv_stream c T D ?s1"
    using assms(1,4) I k(2) by (auto simp: rcv_stream_def piece_def)
  then show ?thesis using True assms(2) by (auto simp: process_data_def Let_def)
next
  case False
  then show ?thesis using assms by (auto simp: process_data_def Let_def)
qed

subsection \<open>What the rest of the processing leaves alone\<close>

definition rcv_part :: "PseudoTcp \<Rightarrow> FifoBuffer \<times> uint32 \<times> RSegment list \<times> Shutdown \<times> uint8 \<times> uint32" where
  "rcv_part s = (m_rbuf s, m_rcv_nxt s, m_rlist s, m_shutdown s, m_rwnd_scale s, m_conv s)"

lemma rcv_stream_part: "rcv_part s' = rcv_part s \<Longrightarrow> rcv_stream c T D s' = rcv_stream c T D s"
  by (simp add: rcv_part_def rcv_stream_def)

lemma quiet_rcv_part: "quiet s' = quiet s \<Longrightarrow> rcv_part s' = rcv_part s"
  using quiet_same [of s' s] by (simp add: rcv_part_def)

lemma rcv_part_simple [simp]:
  "rcv_part (notify e s) = rcv_part s" "rcv_part (adjustMTU s) = rcv_part s"
  "rcv_part (closedown s err) = rcv_part s" "rcv_part (process_timestamp s seg) = rcv_part s"
  "rcv_part (process_open s b) = rcv_part s" "rcv_part (process_writeable s) = rcv_part s"
  "rcv_part (process_readable s b) = rcv_part s"
  by (simp_all add: rcv_part_def notify_def adjustMTU_def closedown_def process_timestamp_def process_open_def
      process_writeable_def process_readable_def Let_def)

lemma option_loop_frame: "option_loop s buf sp = (ended, sp', s') \<Longrightarrow> \<exists>w. s' = s\<lparr>m_swnd_scale := w\<rparr>"
proof (induction s buf sp rule: option_loop.induct)
  case (1 s buf sp)
  have self: "\<exists>w. s = s\<lparr>m_swnd_scale := w\<rparr>" by (rule exI [of _ "m_swnd_scale s"]) simp
  have ap: "\<exists>w. applyOption s kind d n = s\<lparr>m_swnd_scale := w\<rparr>" for kind d n
    using self by (auto simp: applyOption_def applyWindowScaleOption_def)
  obtain kind buf1 where r1: "read8_or_0 buf = (kind, buf1)" by fastforce
  obtain len buf2 where r2: "read8_or_0 buf1 = (len, buf2)" by fastforce
  consider (fin) "BB_Length buf = 0 \<or> kind = TCP_OPT_EOL"
    | (noop) "BB_Length buf \<noteq> 0" "kind \<noteq> TCP_OPT_EOL" "kind = TCP_OPT_NOOP"
    | (bad) "BB_Length buf \<noteq> 0" "kind \<noteq> TCP_OPT_EOL" "kind \<noteq> TCP_OPT_NOOP" "\<not> unat len \<le> BB_Length buf2"
    | (opt) "BB_Length buf \<noteq> 0" "kind \<noteq> TCP_OPT_EOL" "kind \<noteq> TCP_OPT_NOOP" "unat len \<le> BB_Length buf2"
    by blast
  then show ?case
  proof cases
    case opt
    then have "option_loop (applyOption s kind (BB_Data buf2) (ucast len)) (snd (Consume buf2 (unat len))) (insert kind sp) =
        (ended, sp', s')"
      using 1(3) r1 r2 by (simp add: option_loop.simps [of s buf sp])
    then have "\<exists>w. s' = (applyOption s kind (BB_Data buf2) (ucast len))\<lparr>m_swnd_scale := w\<rparr>"
      using 1(2) [OF opt(1) r1 [symmetric] opt(2,3) r2 [symmetric] opt(4)] by simp
    then show ?thesis using ap [of kind "BB_Data buf2" "ucast len"] by auto
  next
    case fin
    then have "s' = s" using 1(3) r1 by (simp add: option_loop.simps [of s buf sp] split: if_splits)
    then show ?thesis using self by simp
  next
    case noop
    then have "option_loop s buf1 sp = (ended, sp', s')"
      using 1(3) r1 by (simp add: option_loop.simps [of s buf sp])
    then show ?thesis using 1(1) [OF noop(1) r1 [symmetric] noop(2,3)] by simp
  next
    case bad
    then have "s' = s" using 1(3) r1 r2 by (simp add: option_loop.simps [of s buf sp])
    then show ?thesis using self by simp
  qed
qed

lemma parseOptions_frame:
  assumes "parseOptions E s data len = Inr s'" and "m_rwnd_scale s = 0"
  shows "\<exists>w. s' = s\<lparr>m_swnd_scale := w\<rparr>"
proof -
  obtain e sp s1 where L: "option_loop s (ByteBuffer_of (env_junk E) data (unat len)) {} = (e, sp, s1)"
    by (metis prod_cases3)
  then have "\<exists>w. s1 = s\<lparr>m_swnd_scale := w\<rparr>" by (rule option_loop_frame)
  moreover from this have "m_rwnd_scale s1 = 0" using assms(2) by auto
  ultimately show ?thesis using assms(1) L by (auto simp: parseOptions_def)
qed

lemma queue_frame:
  assumes "queue s data len b = Inr (w, s')"
  shows "\<exists>l f. s' = s\<lparr>m_slist := l, m_sbuf := f\<rparr>"
proof -
  obtain n where "(case FB_Write (m_sbuf s) (take (unat n) data) of (_, written, sbuf) \<Rightarrow>
      Inr (of_nat written, s\<lparr>m_slist := queued (m_slist s) (m_snd_una s + of_nat (GetBuffered (m_sbuf s))) n b, m_sbuf := sbuf\<rparr>)) =
      (Inr (w, s') :: (uint32 \<times> PseudoTcp) exec)"
    using assms unfolding queue_def Let_def andThen_eq_Inr_iff queued_def by blast
  then show ?thesis by (cases "FB_Write (m_sbuf s) (take (unat n) data)") auto
qed

lemma queueConnect_frame:
  assumes "queueConnectMessage E s = Inr s'"
  shows "\<exists>w l f. s' = s\<lparr>m_snd_wnd := w, m_slist := l, m_sbuf := f\<rparr>"
  using assms by (auto simp: queueConnectMessage_def Let_def andThen_eq_Inr_iff dest!: queue_frame)

lemma process_control_connect:
  assumes "process_control E s seg = Inr (ok, b, s')"
  obtains "s' = s" | s1 where "parseOptions E s (drop 1 (seg_data seg)) (seg_len seg - 1) = Inr s1"
    and "s' = s1 \<or> s' = notify OnTcpOpen (adjustMTU (s1\<lparr>m_state := TCP_ESTABLISHED\<rparr>)) \<and> m_state s1 = TCP_SYN_SENT \<or>
      m_state s1 = TCP_LISTEN \<and> queueConnectMessage E (s1\<lparr>m_state := TCP_SYN_RECEIVED\<rparr>) = Inr s'"
    and "ok" and "b" and "has_flag seg FLAG_CTL" and "seg_len seg \<noteq> 0"
  using assms by (auto simp: process_control_def andThen_eq_Inr_iff split: if_splits)

lemma process_control_part:
  assumes "process_control E s seg = Inr (ok, b, s')" and "m_rwnd_scale s = 0"
  shows "rcv_part s' = rcv_part s"
  using assms(1)
proof (cases rule: process_control_connect)
  case 1
  then show ?thesis by simp
next
  case (2 s1)
  then obtain w where s1: "s1 = s\<lparr>m_swnd_scale := w\<rparr>" using parseOptions_frame assms(2) by blast
  have "rcv_part s' = rcv_part s1"
    using 2(2) queueConnect_frame [of E "s1\<lparr>m_state := TCP_SYN_RECEIVED\<rparr>" s'] by (auto simp: rcv_part_def notify_def adjustMTU_def Let_def)
  then show ?thesis by (simp add: s1 rcv_part_def)
qed

lemma process_acked_part: "process_acked s seg now = Inr s' \<Longrightarrow> rcv_part s' = rcv_part s"
  by (auto simp: process_acked_def andThen_eq_Inr_iff Let_def rcv_part_def update_rtt_same)

lemma process_cwnd_part: "process_cwnd E s n now = Inr (ok, s') \<Longrightarrow> rcv_part s' = rcv_part s"
  by (auto simp: process_cwnd_def andThen_eq_Inr_iff split: if_splits dest!: quiet_rcv_part [OF quiet_rel.transmit_rel])
    (simp_all add: rcv_part_def)

lemma process_dup_ack_part: "process_dup_ack E s seg now = Inr (ok, s') \<Longrightarrow> rcv_part s' = rcv_part s"
  by (auto simp: process_dup_ack_def andThen_eq_Inr_iff Let_def split: if_splits
      dest!: quiet_rcv_part [OF quiet_rel.transmit_rel])
    (simp_all add: rcv_part_def)

lemma process_ack_part: "process_ack E s seg now = Inr (ok, s') \<Longrightarrow> rcv_part s' = rcv_part s"
  by (auto simp: process_ack_def andThen_eq_Inr_iff split: if_splits
      dest!: process_acked_part process_cwnd_part process_dup_ack_part)

subsection \<open>A packet\<close>

definition seg_of :: "byte list \<Rightarrow> Segment" where
  "seg_of p = \<lparr>seg_conv = GetBE32 (take 4 p), seg_seq = pkt_seq p, seg_ack = GetBE32 (take 4 (drop 8 p)),
     seg_flags = p ! 13, seg_wnd = GetBE16 (take 2 (drop 14 p)), seg_data = pkt_payload p,
     seg_len = of_nat (length (pkt_payload p)), seg_tsval = GetBE32 (take 4 (drop 16 p)),
     seg_tsecr = GetBE32 (take 4 (drop 20 p))\<rparr>"

lemma bytes_to_long_BE: "k + 4 \<le> length p \<Longrightarrow> bytes_to_long big p k = Inr (GetBE32 (take 4 (drop k p)))"
  by (simp add: bytes_to_long_def NetworkToHost_value)

lemma bytes_to_short_BE: "k + 2 \<le> length p \<Longrightarrow> bytes_to_short big p k = Inr (GetBE16 (take 2 (drop k p)))"
  by (simp add: bytes_to_short_def NetworkToHost_value)

lemma parse_seg:
  assumes "24 \<le> length p"
  shows "parse E s p = process E s (seg_of p)"
proof -
  have "of_nat (length p) - HEADER_SIZE = of_nat (length (pkt_payload p))"
    using assms by (simp add: pkt_payload_def HEADER_SIZE_def of_nat_diff)
  then show ?thesis
    using assms
    by (simp add: parse_def bytes_to_long_BE bytes_to_short_BE seg_of_def pkt_seq_def) (simp add: pkt_payload_def)
qed

lemma seg_of_carries:
  assumes "pkt_good c T p" and "length p \<le> 65535" and "pkt_payload p \<noteq> []" and "length T < 2 ^ 32"
  obtains k where "carries T k (seg_of p)" and "0 < unat (seg_len (seg_of p))"
    and "if has_flag (seg_of p) FLAG_CTL then k + unat (seg_len (seg_of p)) \<le> c else c \<le> k"
proof -
  obtain k where k: "pkt_seq p = of_nat k" "k + length (pkt_payload p) \<le> length T"
      "pkt_payload p = take (length (pkt_payload p)) (drop k T)"
      "if pkt_ctl p then k + length (pkt_payload p) \<le> c else c \<le> k"
    using assms(1,3) by (auto simp: pkt_good_def)
  have l: "unat (of_nat (length (pkt_payload p)) :: uint32) = length (pkt_payload p)"
    using assms(2) by (intro unat_of_nat_lt) (simp add: pkt_payload_def)
  have q: "unat (pkt_seq p) = k" unfolding k(1) using k(2) assms(4) by (intro unat_of_nat_lt) simp
  have "carries T k (seg_of p)" using k l q by (simp add: carries_def seg_of_def piece_def)
  moreover have "has_flag (seg_of p) FLAG_CTL = pkt_ctl p" by (simp add: has_flag_def seg_of_def pkt_ctl_def)
  ultimately show ?thesis using that k(4) l assms(3) by (simp add: seg_of_def)
qed

lemma trim_empty:
  "seg_len seg = 0 \<Longrightarrow> seg_len (trim_new s seg) = 0" "seg_len seg = 0 \<Longrightarrow> seg_len (trim_old s seg) = 0"
  by (simp_all add: trim_new_def trim_old_def Let_def)

lemma process_data_empty: "seg_len seg = 0 \<Longrightarrow> process_data s seg fl = Inr (False, fl, s)"
  by (simp add: process_data_def)

text \<open>A segment of the stream that is data must not come before the control message.\<close>

lemma process_rest_stream:
  assumes "rcv_stream c T D s" and "m_shutdown s = SD_NONE"
    and seg: "seg_len seg = 0 \<or> carries T k seg \<and> (if has_flag seg FLAG_CTL then k + unat (seg_len seg) \<le> c
        else c \<le> k \<and> c \<le> unat (m_rcv_nxt s))"
    and "process_rest E s seg b = Inr (ok, s')"
  shows "rcv_stream c T D s'"
proof -
  let ?s1 = "process_writeable (process_open s b)" and ?fl = "ack_flags (process_writeable (process_open s b)) seg"
  have p1: "rcv_part ?s1 = rcv_part s" by simp
  then have r1: "rcv_stream c T D ?s1" and sh: "m_shutdown ?s1 = SD_NONE" and nx: "m_rcv_nxt ?s1 = m_rcv_nxt s"
    using assms(1,2) rcv_stream_part [OF p1] by (simp_all add: rcv_part_def)
  let ?t = "trim_old ?s1 seg" and ?u = "trim_new ?s1 (trim_old ?s1 seg)"
  have I: "length T < 2 ^ 32" "fb_buffer_length (m_rbuf ?s1) < 2 ^ 32" using r1 by (simp_all add: rcv_stream_def)
  have "\<exists>new fl' s2. process_data ?s1 ?u ?fl = Inr (new, fl', s2) \<and> rcv_stream c T D s2"
  proof (cases "seg_len ?u = 0")
    case True
    then show ?thesis using r1 by (auto simp: process_data_empty)
  next
    case False
    then have t0: "seg_len ?t \<noteq> 0" and s0: "seg_len seg \<noteq> 0"
      by (auto simp: trim_empty)
    then have ck: "carries T k seg" using seg by simp
    obtain k' where k': "carries T k' ?t" "k \<le> k'" "unat (m_rcv_nxt ?s1) \<le> k'"
        "k' + unat (seg_len ?t) = k + unat (seg_len seg)" "seg_flags ?t = seg_flags seg"
      using trim_old_carries [OF ck, of ?s1] t0 by metis
    have u: "carries T k' ?u" "0 < unat (seg_len ?u)"
        "k' + unat (seg_len ?u) - unat (m_rcv_nxt ?s1) \<le> GetWriteRemaining (m_rbuf ?s1)" "seg_flags ?u = seg_flags ?t"
        and le: "unat (seg_len ?u) \<le> unat (seg_len ?t)"
      using trim_new_carries [OF k'(1) I k'(3)] False by metis+
    show ?thesis
    proof (cases "has_flag seg FLAG_CTL")
      case True
      then have "has_flag ?u FLAG_CTL" using u(4) k'(5) by (simp add: has_flag_def)
      moreover have "k' + unat (seg_len ?u) \<le> c" using seg s0 True k'(4) le by simp
      ultimately show ?thesis using process_data_control [OF r1 _ u(1)] by blast
    next
      case False
      then have "\<not> has_flag ?u FLAG_CTL" using u(4) k'(5) by (simp add: has_flag_def)
      moreover have "c \<le> k'" "c \<le> unat (m_rcv_nxt ?s1)" using seg s0 False k'(2) nx by simp_all
      ultimately show ?thesis using process_data_stream [OF r1 sh _ u(1) _ _ k'(3) u(2,3)] by blast
    qed
  qed
  then obtain new fl' s2 where d: "process_data ?s1 ?u ?fl = Inr (new, fl', s2)" "rcv_stream c T D s2" by blast
  then obtain s3 where a: "attemptSend E s2 fl' = Inr s3" "s' = process_readable s3 new"
    using assms(4) by (auto simp: process_rest_def Let_def andThen_eq_Inr_iff)
  have "rcv_part s' = rcv_part s2"
    using quiet_rcv_part [OF quiet_rel.attemptSend_rel [OF a(1)]] a(2) by simp
  then show ?thesis using d(2) rcv_stream_part by blast
qed

text \<open>The ways through \<open>process\<close>.\<close>

definition arrived :: "Env \<Rightarrow> PseudoTcp \<Rightarrow> PseudoTcp" where
  "arrived E s = s\<lparr>x_clock := Suc (x_clock s), m_lasttraffic := env_now E (x_clock s),
     m_lastrecv := env_now E (x_clock s), m_bOutgoing := False\<rparr>"

lemma process_cases:
  assumes "process E s seg = Inr (ok, s')"
  obtains (other) "s' = s" | (closed) "s' = arrived E s" | (reset) "s' = closedown (arrived E s) ECONNRESET"
  | (no_control) b where "process_control E (arrived E s) seg = Inr (False, b, s')"
  | (aborted) b s3 where "process_control E (arrived E s) seg = Inr (True, b, s3)"
      "process_ack E (process_timestamp s3 seg) seg (env_now E (x_clock s)) = Inr (False, s')"
  | (rest) b s3 s4 where "process_control E (arrived E s) seg = Inr (True, b, s3)"
      "process_ack E (process_timestamp s3 seg) seg (env_now E (x_clock s)) = Inr (True, s4)"
      "process_rest E s4 seg b = Inr (ok, s')"
proof -
  have "seg_conv seg = m_conv s \<Longrightarrow> m_state s \<noteq> TCP_CLOSED \<Longrightarrow> \<not> has_flag seg FLAG_RST \<Longrightarrow>
      andThen (process_control E (arrived E s) seg) (\<lambda>(ok, bConnect, s3).
        if \<not> ok then Inr (False, s3)
        else andThen (process_ack E (process_timestamp s3 seg) seg (env_now E (x_clock s))) (\<lambda>(ok1, s4).
          if \<not> ok1 then Inr (False, s4) else process_rest E s4 seg bConnect)) = Inr (ok, s')"
    using assms by (simp add: process_def Now_def Let_def arrived_def)
  moreover have "seg_conv seg \<noteq> m_conv s \<Longrightarrow> s' = s" "seg_conv seg = m_conv s \<Longrightarrow> m_state s = TCP_CLOSED \<Longrightarrow> s' = arrived E s"
    "seg_conv seg = m_conv s \<Longrightarrow> m_state s \<noteq> TCP_CLOSED \<Longrightarrow> has_flag seg FLAG_RST \<Longrightarrow> s' = closedown (arrived E s) ECONNRESET"
    using assms by (simp_all add: process_def Now_def Let_def arrived_def)
  ultimately show ?thesis
    using that by (fastforce simp: andThen_eq_Inr_iff split: if_splits)
qed

lemma process_stream:
  assumes "rcv_stream c T D s" and "m_shutdown s = SD_NONE" and "m_rwnd_scale s = 0"
    and seg: "seg_len seg = 0 \<or> carries T k seg \<and> (if has_flag seg FLAG_CTL then k + unat (seg_len seg) \<le> c
        else c \<le> k \<and> c \<le> unat (m_rcv_nxt s))"
    and "process E s seg = Inr (ok, s')"
  shows "rcv_stream c T D s'"
proof -
  have p2: "rcv_part (arrived E s) = rcv_part s" by (simp add: rcv_part_def arrived_def)
  have c3: "rcv_part s3 = rcv_part s" if "process_control E (arrived E s) seg = Inr (ok1, b, s3)" for ok1 b s3
    using process_control_part [OF that] p2 assms(3) by (simp add: arrived_def)
  have c4: "rcv_part s4 = rcv_part s" if "process_control E (arrived E s) seg = Inr (ok1, b, s3)"
    "process_ack E (process_timestamp s3 seg) seg now = Inr (ok2, s4)" for ok1 ok2 b s3 s4 now
    using process_ack_part [OF that(2)] c3 [OF that(1)] by simp
  have same: "rcv_part s' = rcv_part s \<Longrightarrow> ?thesis" using rcv_stream_part assms(1) by blast
  from assms(5) show ?thesis
  proof (cases rule: process_cases)
    case (rest b s3 s4)
    then have p4: "rcv_part s4 = rcv_part s" using c4 by blast
    then have s4: "rcv_stream c T D s4" "m_shutdown s4 = SD_NONE" "m_rcv_nxt s4 = m_rcv_nxt s"
      using rcv_stream_part [OF p4] assms(1,2) by (simp_all add: rcv_part_def)
    show ?thesis by (rule process_rest_stream [OF s4(1,2) _ rest(3), of k]) (use seg in \<open>auto simp: s4(3) split: if_splits\<close>)
  qed (use same p2 c3 c4 in \<open>auto simp: rcv_part_simple\<close>)
qed

text \<open>A good packet keeps the invariant, whether it is new, old, early or a duplicate.\<close>

lemma NotifyPacket_rcv:
  assumes "rcv_stream c T D s" and "m_shutdown s = SD_NONE" and "m_rwnd_scale s = 0" and "pkt_good c T p"
    and "pkt_payload p = [] \<or> pkt_ctl p \<or> c \<le> unat (m_rcv_nxt s)" and "NotifyPacket E s p = Inr (ok, s')"
  shows "rcv_stream c T D s'"
proof (cases "length p \<le> 65535")
  case False
  then show ?thesis using assms(1,6) by (simp add: NotifyPacket_def MAX_PACKET_def)
next
  case True
  then have P: "process E s (seg_of p) = Inr (ok, s')"
    using assms(4,6) by (simp add: NotifyPacket_def MAX_PACKET_def parse_seg pkt_good_def)
  have ctl: "has_flag (seg_of p) FLAG_CTL = pkt_ctl p" by (simp add: has_flag_def seg_of_def pkt_ctl_def)
  have "length T < 2 ^ 32" using assms(1) by (simp add: rcv_stream_def)
  show ?thesis
  proof (cases "pkt_payload p = []")
    case True
    then have "seg_len (seg_of p) = 0" by (simp add: seg_of_def)
    then show ?thesis using process_stream [OF assms(1-3) _ P] by blast
  next
    case False
    obtain k where "carries T k (seg_of p)"
        "if has_flag (seg_of p) FLAG_CTL then k + unat (seg_len (seg_of p)) \<le> c else c \<le> k"
      using seg_of_carries [OF assms(4) True False \<open>length T < 2 ^ 32\<close>] by metis
    then show ?thesis using process_stream [OF assms(1-3) _ P, of k] assms(5) False ctl by (auto split: if_splits)
  qed
qed

text \<open>\<open>Recv\<close> hands out the oldest unread bytes.\<close>

lemma Recv_rcv:
  assumes "rcv_stream c T D s" and "Recv E s n = Inr (res, out, s')"
  shows "rcv_stream c T (D @ out) s'"
proof -
  obtain result out1 rbuf where R: "FB_Read (m_rbuf s) n = (result, out1, rbuf)" by (metis prod_cases3)
  have o: "fb_open (m_rbuf s)" using assms(1) by (simp add: rcv_stream_def)
  have as: "rcv_part s3 = rcv_part t" if "attemptSend E t fl = Inr s3" for t fl s3
    using quiet_rcv_part [OF quiet_rel.attemptSend_rel [OF that]] .
  consider (idle) "m_state s \<noteq> TCP_ESTABLISHED" | (block) "m_state s = TCP_ESTABLISHED" "result = SR_BLOCK"
    | (read) "m_state s = TCP_ESTABLISHED" "result \<noteq> SR_BLOCK" by blast
  then show ?thesis
  proof cases
    case idle
    then have "out = []" "rcv_part s' = rcv_part s" using assms(2) by (auto simp: Recv_def rcv_part_def)
    then show ?thesis using rcv_stream_part [of s' s c T D] assms(1) by simp
  next
    case block
    then have "rbuf = m_rbuf s"
      using R by (cases "ReadOffsetLocked (m_rbuf s) n 0") (simp add: FB_Read_def Let_def split: if_splits)
    then have "out = []" "rcv_part s' = rcv_part s" using assms(2) R block by (auto simp: Recv_def Let_def rcv_part_def)
    then show ?thesis using rcv_stream_part [of s' s c T D] assms(1) by simp
  next
    case read
    let ?s1 = "\<lambda>w. s\<lparr>m_rbuf := rbuf, m_rcv_wnd := w\<rparr>"
    from read have "out = out1 \<and> (s' = s\<lparr>m_rbuf := rbuf\<rparr> \<or> (\<exists>w. s' = ?s1 w \<or> attemptSend E (?s1 w) sfImmediateAck = Inr s'))"
      using assms(2) R by (auto simp: Recv_def Let_def andThen_eq_Inr_iff split: if_splits)
    then have out: "out = out1" "rcv_part s' = rcv_part (s\<lparr>m_rbuf := rbuf\<rparr>)"
      using as by (auto simp: rcv_part_def)
    have pos: "0 < fb_data_length (m_rbuf s)"
      using read(2) R o by (cases "fb_data_length (m_rbuf s)") (auto simp: FB_Read_def ReadOffsetLocked_def fb_open_def)
    have rbuf: "rbuf = fb_take_out (m_rbuf s) n" using R by (simp add: fb_take_out_def)
    obtain f' where "FB_Read (m_rbuf s) n = (SR_SUCCESS, take n (fb_data (m_rbuf s)), f')" "fb_inv f'"
        "fb_data f' = drop n (fb_data (m_rbuf s))" "fb_state f' = fb_state (m_rbuf s)"
        "fb_buffer_length f' = fb_buffer_length (m_rbuf s)"
      using FB_Read_spec [of "m_rbuf s" n] o pos unfolding fb_open_def by metis
    then have f: "out1 = take n (fb_data (m_rbuf s))" "fb_open rbuf" "fb_data rbuf = drop n (fb_data (m_rbuf s))"
        "fb_buffer_length rbuf = fb_buffer_length (m_rbuf s)"
      using R o by (auto simp: fb_open_def)
    have "rcv_stream c T (D @ out) (s\<lparr>m_rbuf := rbuf\<rparr>)"
      using assms(1) f out(1) held_read [OF o pos, of c T "unat (m_rcv_nxt s)" _ n] by (auto simp: rcv_stream_def rbuf)
    then show ?thesis using out(2) rcv_stream_part by blast
  qed
qed

end
