(* ===== verification/TcpEndpoint.thy ===== *)
theory TcpEndpoint
  imports TcpRecv
begin

text \<open>
  The invariant of one end of a connection, from the constructor on, and its preservation by
  every operation of the interface. \<open>T\<close> is the stream the end has queued so far, control
  message first.
\<close>

subsection \<open>The invariant\<close>

definition connect_msg :: "PseudoTcp \<Rightarrow> byte list" where
  "connect_msg s = CTL_CONNECT # (if m_support_wnd_scale s then [TCP_OPT_WND_SCALE, 1, m_rwnd_scale s] else [])"

definition mtu_ok :: "PseudoTcp \<Rightarrow> bool" where
  "mtu_ok s \<longleftrightarrow> PACKET_OVERHEAD < m_mtu_advise s \<and> m_mtu_advise s \<le> MAX_PACKET"

definition ep_inv :: "nat \<Rightarrow> byte list \<Rightarrow> PseudoTcp \<Rightarrow> bool" where
  "ep_inv c T s \<longleftrightarrow> snd_stream c T s \<and> mss_ok s \<and> mtu_ok s \<and> rto_inv s \<and> m_rwnd_scale s = 0 \<and>
     length (connect_msg s) = c \<and> 4 \<le> fb_buffer_length (m_sbuf s) \<and>
     (m_state s = TCP_LISTEN \<longrightarrow> T = [] \<and> m_slist s = []) \<and>
     (m_state s \<in> {TCP_SYN_SENT, TCP_SYN_RECEIVED, TCP_ESTABLISHED} \<longrightarrow> c \<le> length T)"

lemma ep_net_ok: "ep_inv c T s \<Longrightarrow> net_ok s"
  by (simp add: ep_inv_def net_ok_def)

lemma ep_snd_stream: "ep_inv c T s \<Longrightarrow> snd_stream c T s"
  by (simp add: ep_inv_def)

text \<open>The parts of the state the invariant reads.\<close>

lemma ep_inv_same:
  assumes "ep_inv c T s" and "m_sbuf s' = m_sbuf s" and "m_snd_una s' = m_snd_una s"
    and "m_slist s' = m_slist s" and "m_snd_nxt s' = m_snd_nxt s" and "x_sent s' = x_sent s"
    and "m_mss s' = m_mss s" and "m_msslevel s' = m_msslevel s" and "m_mtu_advise s' = m_mtu_advise s"
    and "m_rto_base s' = m_rto_base s" and "m_rwnd_scale s' = m_rwnd_scale s"
    and "m_support_wnd_scale s' = m_support_wnd_scale s" and "m_state s' = m_state s \<or> m_state s' = TCP_CLOSED"
  shows "ep_inv c T s'"
proof -
  have "snd_stream c T s'" by (rule snd_stream_same [OF ep_snd_stream [OF assms(1)] assms(2-6)])
  moreover have "mss_ok s' = mss_ok s" "mtu_ok s' = mtu_ok s" "rto_inv s' = rto_inv s" "connect_msg s' = connect_msg s"
    using assms(2-12) by (simp_all add: mss_ok_def mtu_ok_def rto_inv_def connect_msg_def)
  ultimately show ?thesis
    using assms unfolding ep_inv_def by auto
qed

lemma idle_nAvailable:
  assumes "snd_inv s" and "m_slist s = []"
  shows "nAvailable s = 0"
proof -
  have "m_snd_nxt s - m_snd_una s = 0" "fb_data_length (m_sbuf s) = 0"
    using assms by (simp_all add: snd_inv_def unat_eq_0)
  then show ?thesis by (simp add: nAvailable_def Let_def GetBuffered_def min_def)
qed

lemma attemptSend_idle:
  assumes "snd_inv s" and "m_slist s = []" and "attemptSend E s fl = Inr s'"
  shows "m_slist s' = []"
proof -
  let ?s1 = "s\<lparr>x_clock := Suc (x_clock s)\<rparr>"
  have 0: "snd_inv t \<Longrightarrow> m_slist t = [] \<Longrightarrow> attemptSend_loop E t fl now = send_ack E t fl" for t now
    by (simp add: attemptSend_loop.simps [of E t fl now] idle_nAvailable)
  have "snd_inv ?s1" "\<And>w. snd_inv (?s1\<lparr>m_cwnd := w\<rparr>)" using assms(1) by (simp_all add: snd_inv_def)
  then obtain t where "send_ack E t fl = Inr s'" "m_slist t = []"
    using assms(2,3) 0 [of ?s1] 0 [of "?s1\<lparr>m_cwnd := m_mss s\<rparr>"]
    by (auto simp: attemptSend_def Now_def Let_def split: if_splits)
  then show ?thesis
    by (auto simp: send_ack_def Now_def andThen_eq_Inr_iff split: if_splits dest: packet_frame(1))
qed

lemma ep_send_step:
  assumes "ep_inv c T s" and "quiet s' = quiet s" and "snd_stream c T s'" and "mss_ok s'" and "rto_inv s'"
    and "m_slist s = [] \<Longrightarrow> m_slist s' = []"
  shows "ep_inv c T s'"
proof -
  note Q = quiet_same [OF assms(2)]
  have "mtu_ok s' = mtu_ok s" "connect_msg s' = connect_msg s" by (simp_all add: mtu_ok_def connect_msg_def Q)
  then show ?thesis using assms unfolding ep_inv_def Q by simp
qed

lemma attemptSend_ep:
  assumes "ep_inv c T s"
  shows "\<exists>s'. attemptSend E s fl = Inr s' \<and> ep_inv c T s'"
proof -
  obtain s' where A: "attemptSend E s fl = Inr s'" "snd_stream c T s'" "net_ok s'"
    using attemptSend_stream [OF ep_snd_stream [OF assms] ep_net_ok [OF assms]] by blast
  have "ep_inv c T s'"
    by (rule ep_send_step [OF assms quiet_rel.attemptSend_rel [OF A(1)] A(2)])
      (use A(3) assms rto_rel.attemptSend_rel [OF A(1)]
        attemptSend_idle [OF snd_stream_inv [OF ep_snd_stream [OF assms]] _ A(1)]
        in \<open>simp_all add: net_ok_def ep_inv_def\<close>)
  then show ?thesis using A(1) by blast
qed

lemma transmit_front_ep:
  assumes "ep_inv c T s" and "m_slist s \<noteq> []"
  shows "\<exists>ok s'. transmit E s 0 now = Inr (ok, s') \<and> ep_inv c T s'"
proof -
  obtain ok s' where A: "transmit E s 0 now = Inr (ok, s')" "snd_stream c T s'" "net_ok s'"
    using transmit_stream [OF ep_snd_stream [OF assms(1)] ep_net_ok [OF assms(1)], of 0 E now] assms(2) by auto
  have "ep_inv c T s'"
    by (rule ep_send_step [OF assms(1) quiet_rel.transmit_rel [OF A(1)] A(2)])
      (use A(3) assms rto_rel.transmit_rel [OF A(1)] in \<open>simp_all add: net_ok_def ep_inv_def\<close>)
  then show ?thesis using A(1) by blast
qed

lemma ack_packet_ep:
  assumes "ep_inv c T s"
  obtains wres s' where "packet E s seq flags offset 0 = Inr (wres, s')" and "ep_inv c T s'" and "m_slist s' = m_slist s"
proof -
  obtain wres s' where A: "packet E s seq flags offset 0 = Inr (wres, s')" "snd_stream c T s'" "net_ok s'"
    by (rule ack_packet_stream [OF ep_snd_stream [OF assms] ep_net_ok [OF assms]])
  have "ep_inv c T s'"
    by (rule ep_send_step [OF assms quiet_rel.R_packet [OF A(1)] A(2)])
      (use A(3) assms rto_rel.R_packet [OF A(1)] packet_frame [OF A(1)] in \<open>simp_all add: net_ok_def ep_inv_def\<close>)
  then show ?thesis using that A(1) packet_frame(1) [OF A(1)] by blast
qed

lemma mss_level_bound: "mss_level mtu PACKET_MAXIMUMS 0 \<le> 9"
  by (simp add: PACKET_MAXIMUMS_def)

lemma adjustMTU_mss:
  assumes "mtu_ok s"
  shows "mss_ok (adjustMTU s)"
proof -
  let ?a = "m_mtu_advise s"
  have a: "116 < unat ?a" "unat ?a \<le> 65535"
    using assms by (simp_all add: mtu_ok_def tcp_consts word_less_nat_alt word_le_nat_alt)
  then have "unat (?a - PACKET_OVERHEAD) = unat ?a - 116"
    by (simp add: tcp_consts unat_sub word_le_nat_alt)
  then show ?thesis
    using a mss_level_bound by (simp add: mss_ok_def adjustMTU_def Let_def word_less_nat_alt word_le_nat_alt)
qed

lemma adjustMTU_ep:
  assumes "ep_inv c T s" and "m_state s \<noteq> TCP_LISTEN" and "c \<le> length T"
  shows "ep_inv c T (adjustMTU (s\<lparr>m_state := TCP_ESTABLISHED\<rparr>))"
proof -
  let ?s' = "adjustMTU (s\<lparr>m_state := TCP_ESTABLISHED\<rparr>)"
  have "snd_stream c T ?s'"
    by (rule snd_stream_same [OF ep_snd_stream [OF assms(1)]]) (simp_all add: adjustMTU_def Let_def)
  moreover have "mss_ok ?s'" by (rule adjustMTU_mss) (use assms(1) in \<open>simp add: ep_inv_def mtu_ok_def\<close>)
  moreover have "mtu_ok ?s' = mtu_ok s" "rto_inv ?s' = rto_inv s" "connect_msg ?s' = connect_msg s"
    "m_rwnd_scale ?s' = m_rwnd_scale s" "m_sbuf ?s' = m_sbuf s" "m_state ?s' = TCP_ESTABLISHED"
    by (simp_all add: mtu_ok_def rto_inv_def connect_msg_def adjustMTU_def Let_def)
  ultimately show ?thesis using assms unfolding ep_inv_def by simp
qed

lemma notify_ep [simp]: "ep_inv c T (notify e s) = ep_inv c T s"
  by (simp add: notify_def ep_inv_def mss_ok_def mtu_ok_def rto_inv_def connect_msg_def snd_stream_def snd_inv_def)

lemma closedown_ep: "ep_inv c T s \<Longrightarrow> ep_inv c T (closedown s err)"
  by (simp add: closedown_def) (rule ep_inv_same, assumption, simp_all)

subsection \<open>Opening\<close>

text \<open>The message of \<open>queueConnectMessage\<close>, built in a \<open>ByteBuffer\<close>, is \<open>connect_msg\<close>.\<close>

lemma write8s:
  assumes "bb_inv b"
  shows "bb_unread (WriteUInt8 g b v) = bb_unread b @ [v]" and "bb_inv (WriteUInt8 g b v)"
  using WriteBytes_correct [OF assms] by (simp_all add: WriteUInt8_def)

lemma connect_buffer:
  fixes s :: PseudoTcp and g :: "nat \<Rightarrow> byte"
  defines "b1 \<equiv> WriteUInt8 g (new_ByteBuffer g ORDER_NETWORK) CTL_CONNECT"
  defines "b2 \<equiv> (if m_support_wnd_scale s
     then WriteUInt8 g (WriteUInt8 g (WriteUInt8 g b1 TCP_OPT_WND_SCALE) 1) (m_rwnd_scale s) else b1)"
  shows "BB_Length b2 = length (connect_msg s)" and "take (BB_Length b2) (BB_Data b2) = connect_msg s"
proof -
  have n: "bb_inv (new_ByteBuffer g ORDER_NETWORK)" "bb_unread (new_ByteBuffer g ORDER_NETWORK) = []"
    by (simp_all add: new_ByteBuffer_def bb_inv_Construct)
  have "bb_unread b2 = connect_msg s" "bb_inv b2"
    using n by (simp_all add: b2_def b1_def write8s connect_msg_def)
  then show "BB_Length b2 = length (connect_msg s)" "take (BB_Length b2) (BB_Data b2) = connect_msg s"
    using length_bb_unread [of b2] by (auto simp: bb_unread_def)
qed

lemma queueConnect_ep:
  assumes "ep_inv c [] s" and "m_slist s = []" and "st \<noteq> TCP_LISTEN"
  shows "\<exists>s'. queueConnectMessage E (s\<lparr>m_state := st\<rparr>) = Inr s' \<and> ep_inv c (connect_msg s) s' \<and> m_state s' = st \<and>
    m_conv s' = m_conv s"
proof -
  let ?g = "env_junk E" and ?s0 = "s\<lparr>m_state := st\<rparr>"
  let ?b1 = "WriteUInt8 ?g (new_ByteBuffer ?g ORDER_NETWORK) CTL_CONNECT"
  define b2 where "b2 = (if m_support_wnd_scale ?s0
     then WriteUInt8 ?g (WriteUInt8 ?g (WriteUInt8 ?g ?b1 TCP_OPT_WND_SCALE) 1) (m_rwnd_scale ?s0) else ?b1)"
  have B: "BB_Length b2 = length (connect_msg s)" "take (BB_Length b2) (BB_Data b2) = connect_msg s"
    using connect_buffer [where s = ?s0 and g = ?g, folded b2_def] by (simp_all add: connect_msg_def)
  have c: "length (connect_msg s) = c" "c \<le> 4" using assms(1) by (auto simp: ep_inv_def connect_msg_def)
  let ?s1 = "?s0\<lparr>m_snd_wnd := of_nat (BB_Length b2)\<rparr>" and ?len = "of_nat (BB_Length b2) :: uint32"
  note inv = snd_stream_inv [OF ep_snd_stream [OF assms(1)]]
  have inv1: "snd_inv ?s1" using inv by (simp add: snd_inv_def)
  have len: "unat ?len = c" unfolding B(1) c(1) using c(2) by (intro unat_of_nat_lt) simp
  have dl: "fb_data_length (m_sbuf s) = 0" "seg_total (m_slist s) = 0" using inv assms(2) by (simp_all add: snd_inv_def)
  have room: "unat ?len \<le> GetWriteRemaining (m_sbuf ?s1)"
    using assms(1) c(2) dl unfolding len by (simp add: GetWriteRemaining_def ep_inv_def)
  have fits: "unat ?len \<le> length (BB_Data b2)"
    using B c(1) unfolding len by (metis length_take min.cobounded1)
  have n: "c = min (unat ?len) (GetWriteRemaining (m_sbuf ?s1))" using room len by simp
  obtain sbuf where Q: "queue ?s1 (BB_Data b2) ?len True = Inr (of_nat c, ?s1\<lparr>m_slist := queued (m_slist ?s1)
        (m_snd_una ?s1 + of_nat (seg_total (m_slist ?s1))) (of_nat c) True, m_sbuf := sbuf\<rparr>)"
      "fb_open sbuf" "fb_data sbuf = fb_data (m_sbuf ?s1) @ take c (BB_Data b2)"
      "fb_buffer_length sbuf = fb_buffer_length (m_sbuf ?s1)" "fb_data_length sbuf = fb_data_length (m_sbuf ?s1) + c"
    by (rule queue_effect [where bCtrl = True, OF inv1 fits room n])
  let ?s' = "?s1\<lparr>m_slist := [new_SSegment (m_snd_una s) (of_nat c) True], m_sbuf := sbuf\<rparr>"
  have s': "queueConnectMessage E ?s0 = Inr ?s'"
    using Q(1) assms(2) unfolding queueConnectMessage_def Let_def b2_def [symmetric] by (simp add: queued_def dl)
  have data: "take c (BB_Data b2) = connect_msg s" using B c(1) by simp
  have uc: "unat (of_nat c :: uint32) = c" using c(2) by (intro unat_of_nat_lt) simp
  have una: "m_snd_una s = 0" "fb_data (m_sbuf s) = []" "\<forall>pr \<in> set (x_sent s). pkt_good c [] (fst pr)"
    using ep_snd_stream [OF assms(1)] by (auto simp: snd_stream_def)
  have "snd_inv ?s'"
    using inv Q(2,4,5) dl uc assms(2) by (simp add: snd_inv_def new_SSegment_def sent_first_def)
  moreover have "\<forall>pr \<in> set (x_sent s). pkt_good c (connect_msg s) (fst pr)"
    using una(3) pkt_good_append [of c "[]"] by (metis append_Nil)
  ultimately have "snd_stream c (connect_msg s) ?s'"
    using una Q(3) data uc by (simp add: snd_stream_def new_SSegment_def)
  moreover have "mss_ok ?s' = mss_ok s" "mtu_ok ?s' = mtu_ok s" "rto_inv ?s'" "connect_msg ?s' = connect_msg s"
    by (simp_all add: mss_ok_def mtu_ok_def rto_inv_def connect_msg_def)
  ultimately have "ep_inv c (connect_msg s) ?s'"
    using assms Q(4) c(1) unfolding ep_inv_def by simp
  then show ?thesis using s' by simp
qed

lemma Connect_ep:
  assumes "ep_inv c T s"
  shows "\<exists>r s'. Connect E s = Inr (r, s') \<and> (if m_state s = TCP_LISTEN then ep_inv c (connect_msg s) s' else ep_inv c T s')"
proof (cases "m_state s = TCP_LISTEN")
  case True
  then have "T = []" "m_slist s = []" using assms by (simp_all add: ep_inv_def)
  then have "ep_inv c [] s" "m_slist s = []" using assms by simp_all
  then obtain s1 where q: "queueConnectMessage E (s\<lparr>m_state := TCP_SYN_SENT\<rparr>) = Inr s1" "ep_inv c (connect_msg s) s1"
    using queueConnect_ep by blast
  then obtain s2 where "attemptSend E s1 sfNone = Inr s2" "ep_inv c (connect_msg s) s2" using attemptSend_ep by blast
  then show ?thesis using True q by (simp add: Connect_def)
next
  case False
  have "ep_inv c T (s\<lparr>m_error := EINVAL\<rparr>)" by (rule ep_inv_same [OF assms]) simp_all
  then show ?thesis using False by (simp add: Connect_def)
qed

subsection \<open>Sending, timers and options\<close>

lemma Send_ep:
  assumes "ep_inv c T s"
  shows "\<exists>r s' n. Send E s data = Inr (r, s') \<and> ep_inv c (T @ take n data) s' \<and>
    (if m_state s = TCP_ESTABLISHED \<and> GetWriteRemaining (m_sbuf s) \<noteq> 0
     then r = sint (of_nat n :: uint32) \<and> n = min (unat (of_nat (length data) :: uint32)) (GetWriteRemaining (m_sbuf s))
     else r = SOCKET_ERROR \<and> n = 0)"
proof (cases "m_state s = TCP_ESTABLISHED \<and> GetWriteRemaining (m_sbuf s) \<noteq> 0")
  case False
  have "ep_inv c T (s\<lparr>m_error := ENOTCONN\<rparr>)" "ep_inv c T (s\<lparr>m_bWriteEnable := True, m_error := EWOULDBLOCK\<rparr>)"
    by (rule ep_inv_same [OF assms]; simp)+
  then show ?thesis using False by (auto simp: Send_def intro!: exI [of _ 0])
next
  case True
  let ?len = "of_nat (length data) :: uint32"
  have l: "unat ?len \<le> length data" by (simp add: unat_of_nat)
  have "c \<le> length T" using assms True by (simp add: ep_inv_def)
  then obtain n s1 where Q: "queue s data ?len False = Inr (of_nat n, s1)" "n \<le> unat ?len"
      "n = min (unat ?len) (GetWriteRemaining (m_sbuf s))" "snd_stream c (T @ take n data) s1"
      "fb_buffer_length (m_sbuf s1) = fb_buffer_length (m_sbuf s)" "m_slist s1 \<noteq> []"
    by (rule queue_stream [OF ep_snd_stream [OF assms] l])
  obtain xs f where fr: "s1 = s\<lparr>m_slist := xs, m_sbuf := f\<rparr>" using queue_frame [OF Q(1)] by blast
  have "mss_ok s1 = mss_ok s" "mtu_ok s1 = mtu_ok s" "rto_inv s1" "connect_msg s1 = connect_msg s"
    "m_rwnd_scale s1 = m_rwnd_scale s" "m_state s1 = m_state s"
    using Q(6) by (simp_all add: fr mss_ok_def mtu_ok_def rto_inv_def connect_msg_def)
  then have "ep_inv c (T @ take n data) s1"
    using assms Q(4,5) True unfolding ep_inv_def by simp
  then obtain s2 where A: "attemptSend E s1 sfNone = Inr s2" "ep_inv c (T @ take n data) s2" using attemptSend_ep by blast
  then show ?thesis using True Q(1,3) by (auto simp: Send_def)
qed

lemma transmit_slist:
  assumes "transmit E s i now = Inr (True, s')"
  shows "m_slist s' \<noteq> []"
proof -
  have "m_slist (transmitted t i n now) \<noteq> []" if "i < length (m_slist t)" for t n
    using that by (cases "m_slist t") (auto simp: transmitted_def split_seg_def Let_def)
  then show ?thesis using assms by (auto simp: transmit_True dest!: transmit_loop_effect)
qed

lemma clock_retransmit_ep:
  assumes "ep_inv c T s"
  shows "\<exists>on s'. clock_retransmit E s now = Inr (on, s') \<and> ep_inv c T s'"
proof (cases "m_rto_base s \<noteq> 0 \<and> TimeDiff (m_rto_base s + m_rx_rto s) now \<le> 0")
  case True
  then have ne: "m_slist s \<noteq> []" using assms by (simp add: ep_inv_def rto_inv_def)
  then obtain ok s1 where t: "transmit E s 0 now = Inr (ok, s1)" "ep_inv c T s1" using transmit_front_ep [OF assms] by blast
  show ?thesis
  proof (cases ok)
    case False
    then show ?thesis using True ne t closedown_ep by (auto simp: clock_retransmit_def)
  next
    case ok: True
    then have l: "m_slist s1 \<noteq> []" using t(1) transmit_slist by (metis (full_types))
    have "ep_inv c T (s1\<lparr>m_ssthresh := a, m_cwnd := b, m_rx_rto := r, m_rto_base := now\<rparr>)" for a b r
    proof -
      let ?s2 = "s1\<lparr>m_ssthresh := a, m_cwnd := b, m_rx_rto := r\<rparr>"
      have "ep_inv c T ?s2" by (rule ep_inv_same [OF t(2)]) simp_all
      then show ?thesis
        using l by (simp add: ep_inv_def snd_stream_def snd_inv_def mss_ok_def mtu_ok_def rto_inv_def connect_msg_def split: if_splits)
    qed
    then show ?thesis using True ok ne t(1) by (auto simp: clock_retransmit_def Let_def)
  qed
next
  case False
  then show ?thesis using assms by (auto simp: clock_retransmit_def)
qed

lemma clock_probe_ep:
  assumes "ep_inv c T s"
  shows "\<exists>on s'. clock_probe E s now = Inr (on, s') \<and> ep_inv c T s'"
proof -
  obtain wres s1 where P: "packet E s (m_snd_nxt s - 1) 0 0 0 = Inr (wres, s1)" "ep_inv c T s1"
    by (rule ack_packet_ep [OF assms])
  have "ep_inv c T (s1\<lparr>m_lastsend := a, m_rx_rto := b\<rparr>)" for a b
    by (rule ep_inv_same [OF P(2)]) simp_all
  then show ?thesis using P(1) assms closedown_ep by (auto simp: clock_probe_def)
qed

lemma clock_delayed_ack_ep:
  assumes "ep_inv c T s"
  shows "\<exists>s'. clock_delayed_ack E s now = Inr s' \<and> ep_inv c T s'"
proof -
  obtain wres s1 where P: "packet E s (m_snd_nxt s) 0 0 0 = Inr (wres, s1)" "ep_inv c T s1"
    by (rule ack_packet_ep [OF assms])
  then show ?thesis using assms by (auto simp: clock_delayed_ack_def)
qed

lemma NotifyClock_ep:
  assumes "ep_inv c T s"
  shows "\<exists>s'. NotifyClock E s now = Inr s' \<and> ep_inv c T s'"
proof -
  obtain on1 s1 where 1: "clock_retransmit E s now = Inr (on1, s1)" "ep_inv c T s1"
    using clock_retransmit_ep [OF assms] by blast
  obtain on2 s2 where 2: "clock_probe E s1 now = Inr (on2, s2)" "ep_inv c T s2"
    using clock_probe_ep [OF 1(2)] by blast
  show ?thesis
    using 1 2 clock_delayed_ack_ep [OF 2(2), of E now] assms by (auto simp: NotifyClock_def)
qed

lemma NotifyMTU_ep:
  assumes "ep_inv c T s" and "116 < mtu"
  shows "ep_inv c T (NotifyMTU s mtu)"
proof -
  let ?s1 = "s\<lparr>m_mtu_advise := ucast mtu\<rparr>"
  have m: "116 < unat mtu" "unat mtu \<le> 65535"
    using assms(2) unsigned_less [of mtu, where 'a = nat] by (simp_all add: word_less_nat_alt)
  then have mtu: "mtu_ok ?s1"
    by (simp add: mtu_ok_def tcp_consts word_less_nat_alt word_le_nat_alt unsigned_ucast_eq take_bit_nat_eq_self)
  have "snd_stream c T ?s1" by (rule snd_stream_same [OF ep_snd_stream [OF assms(1)]]) simp_all
  then have e: "ep_inv c T ?s1"
    using assms(1) mtu unfolding ep_inv_def by (simp add: mss_ok_def rto_inv_def connect_msg_def split: if_splits)
  show ?thesis
  proof (cases "m_state s = TCP_ESTABLISHED")
    case True
    then have "c \<le> length T" using assms(1) by (simp add: ep_inv_def)
    moreover have "?s1\<lparr>m_state := TCP_ESTABLISHED\<rparr> = ?s1" using True by simp
    ultimately show ?thesis using adjustMTU_ep [OF e] True by (simp only: NotifyMTU_def Let_def) simp
  next
    case False
    then show ?thesis using e by (simp add: NotifyMTU_def Let_def)
  qed
qed

subsection \<open>An incoming packet\<close>

lemma process_control_ep:
  assumes "ep_inv c T s" and "process_control E s seg = Inr (ok, b, s')"
  shows "(ep_inv c T s' \<and> m_snd_una s' = m_snd_una s \<and> m_snd_nxt s' = m_snd_nxt s \<and> m_slist s' = m_slist s) \<or>
    (m_state s = TCP_LISTEN \<and> T = [] \<and> ep_inv c (connect_msg s) s' \<and> m_snd_una s' = m_snd_nxt s')"
  using assms(2)
proof (cases rule: process_control_connect)
  case 1
  then show ?thesis using assms(1) by simp
next
  case (2 s1)
  have "m_rwnd_scale s = 0" using assms(1) by (simp add: ep_inv_def)
  then obtain w where s1: "s1 = s\<lparr>m_swnd_scale := w\<rparr>" using parseOptions_frame [OF 2(1)] by blast
  have e1: "ep_inv c T s1" unfolding s1 by (rule ep_inv_same [OF assms(1)]) simp_all
  consider "s' = s1" | "s' = notify OnTcpOpen (adjustMTU (s1\<lparr>m_state := TCP_ESTABLISHED\<rparr>))" "m_state s1 = TCP_SYN_SENT"
    | "m_state s1 = TCP_LISTEN" "queueConnectMessage E (s1\<lparr>m_state := TCP_SYN_RECEIVED\<rparr>) = Inr s'"
    using 2(2) by blast
  then show ?thesis
  proof cases
    case 1
    then show ?thesis using e1 by (simp add: s1)
  next
    case 2
    have "c \<le> length T" using e1 2(2) by (simp add: ep_inv_def)
    then have "ep_inv c T s'" using adjustMTU_ep [OF e1] 2 by simp
    then show ?thesis using 2(1) by (simp add: s1 notify_def adjustMTU_def Let_def)
  next
    case 3
    then have T: "T = []" "m_slist s1 = []" using e1 by (simp_all add: ep_inv_def)
    have "\<exists>s'. queueConnectMessage E (s1\<lparr>m_state := TCP_SYN_RECEIVED\<rparr>) = Inr s' \<and> ep_inv c (connect_msg s1) s'"
      using queueConnect_ep [of c s1 TCP_SYN_RECEIVED E] e1 T by auto
    then have "ep_inv c (connect_msg s1) s'" using 3(2) by simp
    moreover have "m_snd_una s' = m_snd_una s \<and> m_snd_nxt s' = m_snd_nxt s"
      using queueConnect_frame [OF 3(2)] by (auto simp: s1)
    moreover have "m_snd_una s = m_snd_nxt s"
      using snd_stream_inv [OF ep_snd_stream [OF e1]] T(2) by (simp add: snd_inv_def s1 unat_eq_0)
    moreover have "connect_msg s1 = connect_msg s" "m_state s1 = m_state s" by (simp_all add: s1 connect_msg_def)
    ultimately show ?thesis using 3(1) T(1) by simp
  qed
qed

lemma process_acked_ep:
  assumes "ep_inv c T s" and "process_acked s seg now = Inr s'" and "ack_aligned s (seg_ack seg)"
    and "m_snd_una s < seg_ack seg" and "seg_ack seg \<le> m_snd_nxt s"
  shows "ep_inv c T s'"
proof -
  have st: "snd_stream c T s'" by (rule process_acked_stream [OF ep_snd_stream [OF assms(1)] assms(2-5)])
  obtain s1 sbuf slist largest where R: "update_rtt s now (seg_tsecr seg) = Inr s1"
      and C: "ConsumeReadData (m_sbuf s) (unat (seg_ack seg - m_snd_una s)) = Inr sbuf"
      and s': "s' = s1\<lparr>m_snd_wnd := push_bit (unat (m_swnd_scale s1)) (ucast (seg_wnd seg)), m_snd_una := seg_ack seg,
        m_rto_base := (if seg_ack seg = m_snd_nxt s1 then 0 else now), m_sbuf := sbuf, m_slist := slist, m_largest := largest\<rparr>"
    using assms(2) by (auto simp: process_acked_def andThen_eq_Inr_iff Let_def update_rtt_same)
  note S = update_rtt_same [OF R]
  have sup: "m_support_wnd_scale s1 = m_support_wnd_scale s"
    using R by (auto simp: update_rtt_def Let_def split: if_splits)
  have bl: "fb_buffer_length sbuf = fb_buffer_length (m_sbuf s)"
    using C by (auto simp: ConsumeReadData_def andThen_eq_Inr_iff Let_def PostEvent_def split: if_splits)
  have rto: "rto_inv s'"
  proof -
    have "unat (m_snd_nxt s' - m_snd_una s') = in_flight (m_slist s')" using snd_stream_inv [OF st] by (simp add: snd_inv_def)
    then show ?thesis by (auto simp: rto_inv_def s' S unat_eq_0 split: if_splits)
  qed
  have "m_snd_una s \<noteq> m_snd_nxt s" using assms(4,5) by auto
  then have "m_slist s \<noteq> []"
    using snd_stream_inv [OF ep_snd_stream [OF assms(1)]] by (auto simp: snd_inv_def unat_eq_0)
  then have "m_state s \<noteq> TCP_LISTEN" using assms(1) by (auto simp: ep_inv_def)
  moreover have "mss_ok s' = mss_ok s" "mtu_ok s' = mtu_ok s" "connect_msg s' = connect_msg s"
    by (simp_all add: s' S sup mss_ok_def mtu_ok_def connect_msg_def)
  ultimately show ?thesis
    using assms(1) st rto bl unfolding ep_inv_def by (simp add: s' S)
qed

lemma transmit_ep:
  assumes "ep_inv c T s" and "transmit E s 0 now = Inr (ok, s')"
  shows "ep_inv c T s'"
  using transmit_front_ep [OF assms(1), of E now] assms(2) by (cases "m_slist s") (auto simp: transmit_def)

lemma process_cwnd_ep:
  assumes "ep_inv c T s" and "process_cwnd E s n now = Inr (ok, s')"
  shows "ep_inv c T s'"
proof -
  have cw: "ep_inv c T t \<Longrightarrow> ep_inv c T (t\<lparr>m_cwnd := a\<rparr>)" "ep_inv c T t \<Longrightarrow> ep_inv c T (t\<lparr>m_cwnd := a, m_dup_acks := b\<rparr>)"
    "ep_inv c T t \<Longrightarrow> ep_inv c T (t\<lparr>m_dup_acks := b, m_cwnd := a\<rparr>)" for t a b
    by (rule ep_inv_same, assumption, simp_all)+
  consider (exit) "m_dup_acks s \<ge> 3" "m_snd_una s \<ge> m_recover s"
    | (recover) ok1 s1 where "m_dup_acks s \<ge> 3" "\<not> m_snd_una s \<ge> m_recover s" "transmit E s 0 now = Inr (ok1, s1)"
    | (slow) "\<not> m_dup_acks s \<ge> 3"
    using assms(2) by (cases "m_dup_acks s \<ge> 3"; cases "m_snd_una s \<ge> m_recover s")
      (auto simp: process_cwnd_def andThen_eq_Inr_iff)
  then show ?thesis
  proof cases
    case exit
    then show ?thesis using assms cw(2) [OF assms(1)] by (auto simp: process_cwnd_def)
  next
    case recover
    then show ?thesis
      using assms(2) cw(1) [OF transmit_ep [OF assms(1) recover(3)]] closedown_ep [OF transmit_ep [OF assms(1) recover(3)]]
      by (cases ok1) (auto simp: process_cwnd_def)
  next
    case slow
    then have "\<exists>w. s' = s\<lparr>m_dup_acks := 0, m_cwnd := w\<rparr>"
      using assms(2) by (auto simp: process_cwnd_def split: if_splits)
    then show ?thesis using cw(3) assms(1) by auto
  qed
qed

lemma dup_ack_plain:
  fixes s :: PseudoTcp and seg :: Segment
  defines "s1 \<equiv> s\<lparr>m_snd_wnd := push_bit (unat (m_swnd_scale s)) (ucast (seg_wnd seg))\<rparr>"
  assumes "process_dup_ack E s seg now = Inr (ok, s')"
    and "\<not> (\<not> 0 < seg_len seg \<and> m_snd_una s \<noteq> m_snd_nxt s \<and> m_dup_acks s + 1 = 3)"
  shows "ok \<and> (s' = s1 \<or> s' = s1\<lparr>m_dup_acks := 0\<rparr> \<or> s' = s1\<lparr>m_dup_acks := m_dup_acks s + 1\<rparr> \<or>
    s' = s1\<lparr>m_dup_acks := m_dup_acks s + 1, m_cwnd := m_cwnd s + m_mss s\<rparr>)"
proof -
  obtain d where d: "d = m_dup_acks s + 1" by simp
  consider "0 < seg_len seg" | "\<not> 0 < seg_len seg" "m_snd_una s = m_snd_nxt s"
    | "\<not> 0 < seg_len seg" "m_snd_una s \<noteq> m_snd_nxt s" "d \<noteq> 3" "3 < d"
    | "\<not> 0 < seg_len seg" "m_snd_una s \<noteq> m_snd_nxt s" "d \<noteq> 3" "\<not> 3 < d"
    using assms(3) unfolding d [symmetric] by blast
  then have "ok \<and> (s' = s1 \<or> s' = s1\<lparr>m_dup_acks := 0\<rparr> \<or> s' = s1\<lparr>m_dup_acks := d\<rparr> \<or>
    s' = s1\<lparr>m_dup_acks := d, m_cwnd := m_cwnd s + m_mss s\<rparr>)"
    by cases (use assms(2) d in \<open>simp_all add: process_dup_ack_def andThen_eq_Inr_iff Let_def s1_def\<close>)
  then show ?thesis unfolding d .
qed

lemma process_dup_ack_ep:
  assumes "ep_inv c T s" and "process_dup_ack E s seg now = Inr (ok, s')"
  shows "ep_inv c T s'"
proof -
  let ?s1 = "s\<lparr>m_snd_wnd := push_bit (unat (m_swnd_scale s)) (ucast (seg_wnd seg))\<rparr>"
  let ?s2 = "?s1\<lparr>m_dup_acks := m_dup_acks s + 1\<rparr>"
  have upd: "ep_inv c T (t\<lparr>m_recover := r, m_ssthresh := h, m_cwnd := a\<rparr>)" "ep_inv c T (t\<lparr>m_cwnd := a\<rparr>)"
    "ep_inv c T (t\<lparr>m_dup_acks := b\<rparr>)" if "ep_inv c T t" for t r h a b
    by (rule ep_inv_same [OF that]; simp)+
  have e1: "ep_inv c T ?s1" by (rule ep_inv_same [OF assms(1)]) simp_all
  note e2 = upd(3) [OF e1]
  show ?thesis
  proof (cases "\<not> 0 < seg_len seg \<and> m_snd_una s \<noteq> m_snd_nxt s \<and> m_dup_acks s + 1 = 3")
    case False
    show ?thesis
      using dup_ack_plain [OF assms(2) False] upd(2) [OF e2, of "m_cwnd s + m_mss s" "m_dup_acks s + 1"] e2 [of 0]
        e2 [of "m_dup_acks s + 1"] e1 by (elim conjE disjE) simp_all
  next
    case True
    then obtain ok1 s3 where t: "transmit E ?s2 0 now = Inr (ok1, s3)"
        "s' = (if ok1 then s3\<lparr>m_recover := m_snd_nxt s3,
            m_ssthresh := max ((m_snd_nxt s3 - m_snd_una s3) div 2) (2 * m_mss s3),
            m_cwnd := max ((m_snd_nxt s3 - m_snd_una s3) div 2) (2 * m_mss s3) + 3 * m_mss s3\<rparr>
          else closedown s3 ECONNABORTED)"
      using assms(2) by (auto simp: process_dup_ack_def andThen_eq_Inr_iff Let_def split: if_splits)
    then show ?thesis using upd(1) closedown_ep transmit_ep [OF e2 t(1)] by auto
  qed
qed

lemma process_ack_ep:
  assumes "ep_inv c T s" and "process_ack E s seg now = Inr (ok, s')"
    and "m_snd_una s < seg_ack seg \<Longrightarrow> seg_ack seg \<le> m_snd_nxt s \<Longrightarrow> ack_aligned s (seg_ack seg)"
  shows "ep_inv c T s'"
proof (cases "m_snd_una s < seg_ack seg \<and> seg_ack seg \<le> m_snd_nxt s")
  case True
  then obtain s1 where s1: "process_acked s seg now = Inr s1" "process_cwnd E s1 (seg_ack seg - m_snd_una s) now = Inr (ok, s')"
    using assms(2) by (auto simp: process_ack_def andThen_eq_Inr_iff)
  have "ep_inv c T s1" using process_acked_ep [OF assms(1) s1(1)] assms(3) True by blast
  then show ?thesis using process_cwnd_ep s1(2) by blast
next
  case False
  then have "process_dup_ack E s seg now = Inr (ok, s') \<or> s' = s"
    using assms(2) by (auto simp: process_ack_def split: if_splits)
  then show ?thesis using process_dup_ack_ep assms(1) by blast
qed

lemma process_open_ep:
  assumes "ep_inv c T s"
  shows "ep_inv c T (process_writeable (process_open s b))"
proof -
  have "ep_inv c T (process_open s b)"
  proof (cases "m_state s = TCP_SYN_RECEIVED \<and> \<not> b")
    case True
    then have "c \<le> length T" using assms by (simp add: ep_inv_def)
    then show ?thesis using adjustMTU_ep [OF assms] True by (simp add: process_open_def)
  qed (use assms in \<open>auto simp: process_open_def\<close>)
  moreover have "ep_inv c T t \<Longrightarrow> ep_inv c T (t\<lparr>m_bWriteEnable := False\<rparr>)" for t
    by (rule ep_inv_same, assumption, simp_all)
  ultimately show ?thesis by (simp add: process_writeable_def Let_def)
qed

lemma process_rest_ep:
  assumes "ep_inv c T s" and "process_rest E s seg b = Inr (ok, s')"
  shows "ep_inv c T s'"
proof -
  let ?s1 = "process_writeable (process_open s b)"
  obtain new fl s2 s3 where d: "process_data ?s1 (trim_new ?s1 (trim_old ?s1 seg)) (ack_flags ?s1 seg) = Inr (new, fl, s2)"
      "attemptSend E s2 fl = Inr s3" "s' = process_readable s3 new"
    using assms(2) by (auto simp: process_rest_def Let_def andThen_eq_Inr_iff)
  have "ep_inv c T s2"
    by (rule ep_inv_same [OF process_open_ep [OF assms(1), of b]]) (use process_data_frame [OF d(1)] in auto)
  then have "ep_inv c T s3" using attemptSend_ep [of c T s2 E fl] d(2) by auto
  moreover have "ep_inv c T t \<Longrightarrow> ep_inv c T (t\<lparr>m_bReadEnable := False\<rparr>)" for t
    by (rule ep_inv_same, assumption, simp_all)
  ultimately show ?thesis using d(3) by (simp add: process_readable_def)
qed

text \<open>The acknowledgement of a packet that is neither old nor too new must end at a segment.\<close>

definition good_ack :: "PseudoTcp \<Rightarrow> uint32 \<Rightarrow> bool" where
  "good_ack s ack \<longleftrightarrow> (m_snd_una s < ack \<longrightarrow> ack \<le> m_snd_nxt s \<longrightarrow> ack_aligned s ack)"

lemma process_ep:
  assumes "ep_inv c T s" and "process E s seg = Inr (ok, s')" and "good_ack s (seg_ack seg)"
  shows "ep_inv c T s' \<or> m_state s = TCP_LISTEN \<and> T = [] \<and> ep_inv c (connect_msg s) s'"
proof -
  have a: "ep_inv c T (arrived E s)" by (rule ep_inv_same [OF assms(1)]) (simp_all add: arrived_def)
  have cm: "connect_msg (arrived E s) = connect_msg s" "m_state (arrived E s) = m_state s"
    by (simp_all add: arrived_def connect_msg_def)
  have ctl: "\<exists>U. ep_inv c U s3 \<and> (U = T \<or> m_state s = TCP_LISTEN \<and> T = [] \<and> U = connect_msg s) \<and> good_ack s3 (seg_ack seg)"
    if "process_control E (arrived E s) seg = Inr (ok1, b, s3)" for ok1 b s3
    using process_control_ep [OF a that]
  proof (elim disjE)
    assume x: "ep_inv c T s3 \<and> m_snd_una s3 = m_snd_una (arrived E s) \<and> m_snd_nxt s3 = m_snd_nxt (arrived E s) \<and>
      m_slist s3 = m_slist (arrived E s)"
    then have "good_ack s3 (seg_ack seg)" using assms(3) by (simp add: good_ack_def ack_aligned_def arrived_def)
    then show ?thesis using x by blast
  next
    assume x: "m_state (arrived E s) = TCP_LISTEN \<and> T = [] \<and> ep_inv c (connect_msg (arrived E s)) s3 \<and> m_snd_una s3 = m_snd_nxt s3"
    then have "good_ack s3 (seg_ack seg)" by (auto simp: good_ack_def)
    then show ?thesis using x unfolding cm by blast
  qed
  have ts: "ep_inv c U (process_timestamp t seg)" "good_ack (process_timestamp t seg) x = good_ack t x" if "ep_inv c U t" for U t x
    by (rule ep_inv_same [OF that]; simp add: process_timestamp_def)
      (simp add: process_timestamp_def good_ack_def ack_aligned_def)
  have ack: "\<exists>U. ep_inv c U s4 \<and> (U = T \<or> m_state s = TCP_LISTEN \<and> T = [] \<and> U = connect_msg s)"
    if c: "process_control E (arrived E s) seg = Inr (ok1, b, s3)"
      and k: "process_ack E (process_timestamp s3 seg) seg now = Inr (ok2, s4)" for ok1 ok2 b s3 s4 now
  proof -
    obtain U where U: "ep_inv c U s3" "U = T \<or> m_state s = TCP_LISTEN \<and> T = [] \<and> U = connect_msg s" "good_ack s3 (seg_ack seg)"
      by (use ctl [OF c] in blast)
    have "ep_inv c U s4"
      using process_ack_ep [OF ts(1) [OF U(1)] k] ts(2) [OF U(1), of "seg_ack seg"] U(3) unfolding good_ack_def by blast
    then show ?thesis using U(2) by blast
  qed
  from assms(2) show ?thesis
  proof (cases rule: process_cases)
    case (rest b s3 s4)
    then show ?thesis using ack [OF rest(1,2)] process_rest_ep by blast
  next
    case (aborted b s3)
    then show ?thesis using ack by blast
  next
    case (no_control b)
    then show ?thesis using ctl by blast
  qed (use assms(1) a closedown_ep in auto)
qed

definition pkt_ack :: "byte list \<Rightarrow> uint32" where
  "pkt_ack p = GetBE32 (take 4 (drop 8 p))"

lemma NotifyPacket_ep:
  assumes "ep_inv c T s" and "NotifyPacket E s p = Inr (ok, s')" and "24 \<le> length p" and "good_ack s (pkt_ack p)"
  shows "ep_inv c T s' \<or> m_state s = TCP_LISTEN \<and> T = [] \<and> ep_inv c (connect_msg s) s'"
proof (cases "length p \<le> 65535")
  case True
  then have "process E s (seg_of p) = Inr (ok, s')"
    using assms(2,3) by (simp add: NotifyPacket_def MAX_PACKET_def parse_seg)
  then show ?thesis using process_ep [OF assms(1)] assms(4) by (simp add: seg_of_def pkt_ack_def)
qed (use assms in \<open>simp add: NotifyPacket_def MAX_PACKET_def\<close>)

lemma Recv_ep:
  assumes "ep_inv c T s" and "Recv E s n = Inr (res, out, s')"
  shows "ep_inv c T s'"
proof -
  have upd: "ep_inv c T (s\<lparr>m_error := e\<rparr>)" "ep_inv c T (s\<lparr>m_rbuf := f\<rparr>)" "ep_inv c T (s\<lparr>m_rbuf := f, m_rcv_wnd := w\<rparr>)"
    "ep_inv c T (s\<lparr>m_rbuf := f, m_bReadEnable := b, m_error := e\<rparr>)" "ep_inv c T (s\<lparr>m_bReadEnable := b, m_error := e\<rparr>)" for e f w b
    by (rule ep_inv_same [OF assms(1)]; simp)+
  obtain result out1 rbuf where R: "FB_Read (m_rbuf s) n = (result, out1, rbuf)" by (metis prod_cases3)
  have "(\<exists>e f w b. s' = s\<lparr>m_error := e\<rparr> \<or> s' = s\<lparr>m_rbuf := f\<rparr> \<or> s' = s\<lparr>m_rbuf := f, m_rcv_wnd := w\<rparr> \<or>
      s' = s\<lparr>m_rbuf := f, m_bReadEnable := b, m_error := e\<rparr> \<or> s' = s\<lparr>m_bReadEnable := b, m_error := e\<rparr>) \<or>
      (\<exists>f w. attemptSend E (s\<lparr>m_rbuf := f, m_rcv_wnd := w\<rparr>) sfImmediateAck = Inr s')"
    using assms(2) R by (fastforce simp: Recv_def Let_def andThen_eq_Inr_iff split: if_splits)
  then show ?thesis using upd attemptSend_ep [OF upd(3)] by (metis Inr_inject)
qed

subsection \<open>The constructor\<close>

lemma fb_open_new: "0 < n \<Longrightarrow> fb_open (new_FifoBuffer g n) \<and> fb_data (new_FifoBuffer g n) = [] \<and>
    fb_data_length (new_FifoBuffer g n) = 0 \<and> fb_buffer_length (new_FifoBuffer g n) = n"
  by (simp add: fb_open_def new_FifoBuffer_def fb_inv_def new_char_def fb_data_def)

lemma new_ep: "ep_inv 4 [] (new_PseudoTcp E conv)"
  using fb_open_new [of "unat DEFAULT_SND_BUF_SIZE" "env_junk E"]
  by (simp add: ep_inv_def snd_stream_def snd_inv_def new_PseudoTcp_def Let_def mss_ok_def mtu_ok_def rto_inv_def
      connect_msg_def tcp_consts sent_first_def)

lemma new_rcv: "rcv_stream c [] [] (new_PseudoTcp E conv)"
  using fb_open_new [of "unat DEFAULT_RCV_BUF_SIZE" "env_junk E"]
  by (simp add: rcv_stream_def new_PseudoTcp_def Let_def tcp_consts piece_def)

end
