(* ===== verification/TcpLink.thy ===== *)
theory TcpLink
  imports TcpEndpoint "HOL-Library.Sublist"
begin

text \<open>
  Two ends joined by a network that may lose, repeat and reorder packets. The steps of an end are
  the calls of the interface; every packet it receives is one the other end has handed to
  \<open>IPseudoTcpNotify::TcpWritePacket\<close>. What an application reads at one end is shown to be a prefix of
  what the application at the other end has written.
\<close>

subsection \<open>The part of the state that receives\<close>

lemma queueConnect_part: "queueConnectMessage E s = Inr s' \<Longrightarrow> rcv_part s' = rcv_part s"
  by (auto simp: rcv_part_def dest!: queueConnect_frame)

lemma attemptSend_part: "attemptSend E s fl = Inr s' \<Longrightarrow> rcv_part s' = rcv_part s"
  by (rule quiet_rcv_part) (rule quiet_rel.attemptSend_rel)

lemma transmit_part: "transmit E s i now = Inr (ok, s') \<Longrightarrow> rcv_part s' = rcv_part s"
  by (rule quiet_rcv_part) (rule quiet_rel.transmit_rel)

lemma packet_part: "packet E s seq flags offset len = Inr (w, s') \<Longrightarrow> rcv_part s' = rcv_part s"
  by (rule quiet_rcv_part) (rule quiet_rel.R_packet)

lemma rcv_part_upd [simp]:
  "rcv_part (s\<lparr>m_state := a\<rparr>) = rcv_part s" "rcv_part (s\<lparr>m_error := e\<rparr>) = rcv_part s"
  "rcv_part (s\<lparr>m_bWriteEnable := b\<rparr>) = rcv_part s" "rcv_part (s\<lparr>m_slist := l\<rparr>) = rcv_part s"
  "rcv_part (s\<lparr>m_sbuf := f\<rparr>) = rcv_part s" "rcv_part (s\<lparr>m_rto_base := t\<rparr>) = rcv_part s"
  "rcv_part (s\<lparr>m_ssthresh := c\<rparr>) = rcv_part s" "rcv_part (s\<lparr>m_cwnd := d\<rparr>) = rcv_part s"
  "rcv_part (s\<lparr>m_rx_rto := g\<rparr>) = rcv_part s" "rcv_part (s\<lparr>m_lastsend := h\<rparr>) = rcv_part s"
  "rcv_part (s\<lparr>m_mtu_advise := i\<rparr>) = rcv_part s"
  by (simp_all add: rcv_part_def)

lemma Connect_part: "Connect E s = Inr (r, s') \<Longrightarrow> rcv_part s' = rcv_part s"
  by (auto simp: Connect_def andThen_eq_Inr_iff dest!: queueConnect_part attemptSend_part split: if_splits)

lemma Send_part: "Send E s data = Inr (r, s') \<Longrightarrow> rcv_part s' = rcv_part s"
  by (auto simp: Send_def andThen_eq_Inr_iff dest!: queue_frame attemptSend_part split: if_splits)

lemma clock_part:
  "clock_retransmit E s now = Inr (on, s') \<Longrightarrow> rcv_part s' = rcv_part s"
  "clock_probe E s now = Inr (on, s') \<Longrightarrow> rcv_part s' = rcv_part s"
  "clock_delayed_ack E s now = Inr s' \<Longrightarrow> rcv_part s' = rcv_part s"
  by (auto simp: clock_retransmit_def clock_probe_def clock_delayed_ack_def andThen_eq_Inr_iff Let_def
      dest!: transmit_part packet_part split: if_splits)

lemma NotifyClock_part: "NotifyClock E s now = Inr s' \<Longrightarrow> rcv_part s' = rcv_part s"
  by (auto simp: NotifyClock_def andThen_eq_Inr_iff dest!: clock_part split: if_splits)

lemma NotifyMTU_part: "rcv_part (NotifyMTU s mtu) = rcv_part s"
  by (simp add: NotifyMTU_def Let_def)

lemma held_more: "held c T r f x \<Longrightarrow> held c (T @ X) r f x"
  by (simp add: held_def piece_def)

lemma rcv_more:
  assumes "rcv_stream c T D s" and "length (T @ X) < 2 ^ 32"
  shows "rcv_stream c (T @ X) D s"
proof -
  have "piece (T @ X) c (unat (m_rcv_nxt s)) = piece T c (unat (m_rcv_nxt s))"
    using assms(1) by (auto simp: rcv_stream_def piece_def)
  then show ?thesis using assms held_more by (simp add: rcv_stream_def)
qed

subsection \<open>Configured ends\<close>

text \<open>An end before it is used: options may be set, the buffers too. The receive buffer stays small
  enough for its size to be advertised without scaling.\<close>

inductive configured :: "PseudoTcp \<Rightarrow> bool" where
  created: "configured (new_PseudoTcp E conv)"
| nodelay: "configured s \<Longrightarrow> SetOption E s OPT_NODELAY v = Inr s' \<Longrightarrow> configured s'"
| ackdelay: "configured s \<Longrightarrow> SetOption E s OPT_ACKDELAY v = Inr s' \<Longrightarrow> configured s'"
| sndbuf: "configured s \<Longrightarrow> 4 \<le> v \<Longrightarrow> v < 2 ^ 31 \<Longrightarrow> SetOption E s OPT_SNDBUF v = Inr s' \<Longrightarrow> configured s'"
| rcvbuf: "configured s \<Longrightarrow> 1 \<le> v \<Longrightarrow> v \<le> 65535 \<Longrightarrow> SetOption E s OPT_RCVBUF v = Inr s' \<Longrightarrow> configured s'"

lemma SetCapacity_empty:
  assumes "fb_open f" and "fb_data_length f = 0" and "0 < n" and "SetCapacity g f n = (ok, f')"
  shows "fb_open f' \<and> fb_data f' = [] \<and> fb_data_length f' = 0 \<and> fb_buffer_length f' = n"
proof -
  have "fb_inv f" using assms(1) by (simp add: fb_open_def)
  then obtain f1 where "SetCapacity g f n = (True, f1)" "fb_inv f1" "fb_data f1 = fb_data f" "fb_buffer_length f1 = n"
      "fb_state f1 = fb_state f"
    by (rule SetCapacity_spec [of f n g]) (use assms(2,3) in auto)
  moreover have "fb_data f = []" using assms(2) by (simp add: fb_data_def)
  moreover have "length (fb_data f1) = fb_data_length f1" using \<open>fb_inv f1\<close> by (rule length_fb_data)
  ultimately show ?thesis using assms(1,4) by (auto simp: fb_open_def)
qed

lemma configured_inv:
  assumes "configured s"
  shows "ep_inv 4 [] s \<and> rcv_stream 4 [] [] s \<and> m_shutdown s = SD_NONE \<and> m_rlist s = []"
  using assms
proof induction
  case (created E conv)
  then show ?case using new_ep new_rcv by (simp add: new_PseudoTcp_def Let_def)
next
  case (nodelay s E v s')
  have s': "s' = s\<lparr>m_use_nagling := (v = 0)\<rparr>" using nodelay(2) by (simp add: SetOption_def)
  have "ep_inv 4 [] s'" unfolding s' by (rule ep_inv_same [of 4 "[]" s]) (use nodelay(3) in simp_all)
  moreover have "rcv_part s' = rcv_part s" by (simp add: s' rcv_part_def)
  ultimately show ?case using nodelay(3) rcv_stream_part [of s' s] by (simp add: s')
next
  case (ackdelay s E v s')
  have s': "s' = s\<lparr>m_ack_delay := word_of_int v\<rparr>" using ackdelay(2) by (simp add: SetOption_def)
  have "ep_inv 4 [] s'" unfolding s' by (rule ep_inv_same [of 4 "[]" s]) (use ackdelay(3) in simp_all)
  moreover have "rcv_part s' = rcv_part s" by (simp add: s' rcv_part_def)
  ultimately show ?case using ackdelay(3) rcv_stream_part [of s' s] by (simp add: s')
next
  case (sndbuf s v E s')
  let ?f = "snd (SetCapacity (env_junk E) (m_sbuf s) (unat (word_of_int v :: uint32)))"
  have s': "s' = s\<lparr>m_sbuf_len := word_of_int v, m_sbuf := ?f\<rparr>"
    using sndbuf by (auto simp: SetOption_def resizeSendBuffer_def andThen_eq_Inr_iff)
  have v: "unat (word_of_int v :: uint32) = nat v" using sndbuf by (simp add: unat_eq_nat_uint uint_word_of_int)
  have e: "ep_inv 4 [] s" "m_state s = TCP_LISTEN" using sndbuf by (auto simp: SetOption_def andThen_eq_Inr_iff)
  then have "m_slist s = []" by (simp add: ep_inv_def)
  then have i: "fb_open (m_sbuf s)" "fb_data_length (m_sbuf s) = 0"
    using snd_stream_inv [OF ep_snd_stream [OF e(1)]] by (simp_all add: snd_inv_def)
  have f: "fb_open ?f" "fb_data ?f = []" "fb_data_length ?f = 0" "fb_buffer_length ?f = nat v"
    using SetCapacity_empty [OF i, of "nat v" "env_junk E" "fst (SetCapacity (env_junk E) (m_sbuf s) (nat v))"] sndbuf(2)
    by (simp_all add: v)
  have "ep_inv 4 [] s'"
    using e(1) f sndbuf(2,3) \<open>m_slist s = []\<close>
    by (auto simp: s' ep_inv_def snd_stream_def snd_inv_def mss_ok_def mtu_ok_def rto_inv_def connect_msg_def split: if_splits)
  moreover have "rcv_part s' = rcv_part s" by (simp add: s' rcv_part_def)
  ultimately show ?case using sndbuf(5) rcv_stream_part [of s' s] by (simp add: s')
next
  case (rcvbuf s v E s')
  have v: "unat (word_of_int v :: uint32) = nat v" using rcvbuf by (simp add: unat_eq_nat_uint uint_word_of_int)
  have "scale_down (word_of_int v) 0 = (word_of_int v, 0)"
    using rcvbuf(2,3) v by (subst scale_down.simps) (auto simp: word_less_nat_alt nat_le_iff)
  then obtain ok f where f: "SetCapacity (env_junk E) (m_rbuf s) (nat v) = (ok, f)"
      and s': "s' = s\<lparr>m_rbuf := f, m_rbuf_len := word_of_int v, m_rwnd_scale := 0, m_ssthresh := word_of_int v,
        m_rcv_wnd := of_nat (GetWriteRemaining f)\<rparr>"
    using rcvbuf(4) v by (auto simp: SetOption_def resizeReceiveBuffer_def andThen_eq_Inr_iff Let_def split: prod.splits)
  have r: "rcv_stream 4 [] [] s" using rcvbuf(5) by simp
  then have o: "fb_open (m_rbuf s)" "fb_data (m_rbuf s) = []" by (simp_all add: rcv_stream_def piece_def)
  then have "fb_data_length (m_rbuf s) = 0" using length_fb_data [of "m_rbuf s"] by (simp add: fb_open_def)
  then have f': "fb_open f \<and> fb_data f = [] \<and> fb_buffer_length f = nat v"
    using SetCapacity_empty [OF o(1) _ _ f] rcvbuf(2) by simp
  then have "rcv_stream 4 [] [] s'" using r rcvbuf(3,5) by (auto simp: rcv_stream_def s' piece_def)
  moreover have e: "ep_inv 4 [] s" and "m_rwnd_scale s = 0" using rcvbuf(5) by (simp_all add: ep_inv_def)
  then have "ep_inv 4 [] s'" unfolding s' by (intro ep_inv_same [OF e]) simp_all
  ultimately show ?case using rcvbuf(5) by (simp add: s')
qed

subsection \<open>The steps of a pair\<close>

record Peer =
  p_tcp :: PseudoTcp
  p_wrote :: "byte list"
  p_read :: "byte list"

text \<open>
  \<open>peer_step q p p'\<close>: an operation at \<open>p\<close>, whose peer is \<open>q\<close>. A packet may be delivered when its
  acknowledgement is old, too new or at the end of a segment of the retransmission list, and
  when it carries data only after the peer's control message has arrived. The sequence numbers
  of a stream do not wrap. An end that was closed goes on sending what it has queued and is not read any more.
\<close>

inductive peer_step :: "Peer \<Rightarrow> Peer \<Rightarrow> Peer \<Rightarrow> bool" for q p where
  connect: "Connect E (p_tcp p) = Inr (r, s') \<Longrightarrow> peer_step q p (p\<lparr>p_tcp := s'\<rparr>)"
| send: "Send E (p_tcp p) data = Inr (r, s') \<Longrightarrow> length (p_wrote p) + length data + 4 < 2 ^ 31 \<Longrightarrow>
    peer_step q p (p\<lparr>p_tcp := s', p_wrote := p_wrote p @ take (nat r) data\<rparr>)"
| recv: "m_shutdown (p_tcp p) = SD_NONE \<Longrightarrow> Recv E (p_tcp p) n = Inr (r, out, s') \<Longrightarrow> peer_step q p (p\<lparr>p_tcp := s', p_read := p_read p @ out\<rparr>)"
| clock: "NotifyClock E (p_tcp p) now = Inr s' \<Longrightarrow> peer_step q p (p\<lparr>p_tcp := s'\<rparr>)"
| mtu: "116 < mtu \<Longrightarrow> peer_step q p (p\<lparr>p_tcp := NotifyMTU (p_tcp p) mtu\<rparr>)"
| deliver: "(pkt, w) \<in> set (x_sent (p_tcp q)) \<Longrightarrow> good_ack (p_tcp p) (pkt_ack pkt) \<Longrightarrow>
    pkt_payload pkt = [] \<or> pkt_ctl pkt \<or> 4 \<le> m_rcv_nxt (p_tcp p) \<Longrightarrow>
    NotifyPacket E (p_tcp p) pkt = Inr (ok, s') \<Longrightarrow> peer_step q p (p\<lparr>p_tcp := s'\<rparr>)"
| shut: "peer_step q p (p\<lparr>p_tcp := Close (p_tcp p) force\<rparr>)"

inductive link :: "Peer \<Rightarrow> Peer \<Rightarrow> bool" where
  start: "configured s \<Longrightarrow> configured t \<Longrightarrow>
    link \<lparr>p_tcp = s, p_wrote = [], p_read = []\<rparr> \<lparr>p_tcp = t, p_wrote = [], p_read = []\<rparr>"
| left: "link p q \<Longrightarrow> peer_step q p p' \<Longrightarrow> link p' q"
| right: "link p q \<Longrightarrow> peer_step p q q' \<Longrightarrow> link p q'"

text \<open>\<open>T\<close> is what the end has queued, \<open>U\<close> what its peer has queued. A closed end drops what arrives.\<close>

definition peer_inv :: "byte list \<Rightarrow> byte list \<Rightarrow> Peer \<Rightarrow> bool" where
  "peer_inv T U p \<longleftrightarrow> ep_inv 4 T (p_tcp p) \<and> p_wrote p = drop 4 T \<and> length T < 2 ^ 31 \<and> prefix (p_read p) (drop 4 U) \<and>
     (m_shutdown (p_tcp p) = SD_NONE \<longrightarrow> rcv_stream 4 U (p_read p) (p_tcp p))"

lemma rcv_stream_prefix:
  assumes "rcv_stream 4 U D s"
  shows "prefix D (drop 4 U)"
proof -
  have "D @ fb_data (m_rbuf s) = piece U 4 (unat (m_rcv_nxt s))" using assms by (simp add: rcv_stream_def)
  then show ?thesis unfolding piece_def by (metis prefixI take_is_prefix prefix_order.trans)
qed

lemma peer_invI:
  assumes "ep_inv 4 T (p_tcp p)" and "p_wrote p = drop 4 T" and "length T < 2 ^ 31" and "rcv_stream 4 U (p_read p) (p_tcp p)"
  shows "peer_inv T U p"
  using assms rcv_stream_prefix by (simp add: peer_inv_def)

lemma peer_inv_part:
  assumes "peer_inv T U p" and "ep_inv 4 T' s'" and "rcv_part s' = rcv_part (p_tcp p)"
    and "length T' < 2 ^ 31" and "p_wrote p' = drop 4 T'" and "p_tcp p' = s'" and "p_read p' = p_read p"
  shows "peer_inv T' U p'"
  using assms rcv_stream_part [OF assms(3)] by (simp add: peer_inv_def rcv_part_def)

text \<open>The traces are no part of the invariant.\<close>

lemma peer_inv_trace:
  assumes "peer_inv T U p"
  shows "peer_inv T U (p\<lparr>p_tcp := (p_tcp p)\<lparr>x_events := evs\<rparr>\<rparr>)" and "peer_inv T U (p\<lparr>p_tcp := (p_tcp p)\<lparr>x_clock := k\<rparr>\<rparr>)"
proof -
  have "ep_inv 4 T (p_tcp p)" using assms by (simp add: peer_inv_def)
  then have e: "ep_inv 4 T ((p_tcp p)\<lparr>x_events := evs\<rparr>)" "ep_inv 4 T ((p_tcp p)\<lparr>x_clock := k\<rparr>)" by (rule ep_inv_same; simp)+
  show "peer_inv T U (p\<lparr>p_tcp := (p_tcp p)\<lparr>x_events := evs\<rparr>\<rparr>)"
    by (rule peer_inv_part [OF assms e(1)]) (use assms in \<open>simp_all add: peer_inv_def rcv_part_def\<close>)
  show "peer_inv T U (p\<lparr>p_tcp := (p_tcp p)\<lparr>x_clock := k\<rparr>\<rparr>)"
    by (rule peer_inv_part [OF assms e(2)]) (use assms in \<open>simp_all add: peer_inv_def rcv_part_def\<close>)
qed

text \<open>Nothing but \<open>Close\<close> shuts an end down.\<close>

lemma process_shutdown:
  assumes "process E s seg = Inr (ok, s')" and "m_rwnd_scale s = 0"
  shows "m_shutdown s' = m_shutdown s"
proof -
  have p2: "rcv_part (arrived E s) = rcv_part s" by (simp add: rcv_part_def arrived_def)
  have c3: "rcv_part s3 = rcv_part s" if "process_control E (arrived E s) seg = Inr (ok1, b, s3)" for ok1 b s3
    using process_control_part [OF that] p2 assms(2) by (simp add: arrived_def)
  have c4: "rcv_part s4 = rcv_part s" if "process_control E (arrived E s) seg = Inr (ok1, b, s3)"
    "process_ack E (process_timestamp s3 seg) seg now = Inr (ok2, s4)" for ok1 ok2 b s3 s4 now
    using process_ack_part [OF that(2)] c3 [OF that(1)] by simp
  have sh: "rcv_part t = rcv_part u \<Longrightarrow> m_shutdown t = m_shutdown u" for t u by (simp add: rcv_part_def)
  have same: "rcv_part s' = rcv_part s \<Longrightarrow> ?thesis" by (rule sh)
  from assms(1) show ?thesis
  proof (cases rule: process_cases)
    case (rest b s3 s4)
    let ?s1 = "process_writeable (process_open s4 b)"
    obtain new fl s5 s6 where d: "process_data ?s1 (trim_new ?s1 (trim_old ?s1 seg)) (ack_flags ?s1 seg) = Inr (new, fl, s5)"
        "attemptSend E s5 fl = Inr s6" "s' = process_readable s6 new"
      using rest(3) by (auto simp: process_rest_def Let_def andThen_eq_Inr_iff)
    have "m_shutdown s5 = m_shutdown ?s1" using process_data_frame [OF d(1)] by auto
    also have "\<dots> = m_shutdown s" using c4 [OF rest(1,2)] by (intro sh) simp
    finally show ?thesis using sh [OF attemptSend_part [OF d(2)]] d(3) by (simp add: process_readable_def notify_def)
  next
    case (aborted b s3)
    then show ?thesis using same c4 by blast
  next
    case (no_control b)
    then show ?thesis using same c3 by blast
  next
    case reset
    then show ?thesis using same p2 by simp
  next
    case closed
    then show ?thesis using same p2 by simp
  qed simp
qed

lemma NotifyPacket_shutdown:
  assumes "NotifyPacket E s p = Inr (ok, s')" and "m_rwnd_scale s = 0" and "24 \<le> length p"
  shows "m_shutdown s' = m_shutdown s"
  using assms process_shutdown by (cases "length p \<le> 65535") (auto simp: NotifyPacket_def MAX_PACKET_def parse_seg)

lemma Recv_shutdown:
  assumes "Recv E s n = Inr (res, out, s')"
  shows "m_shutdown s' = m_shutdown s"
proof -
  have "attemptSend E t fl = Inr s' \<Longrightarrow> m_shutdown s' = m_shutdown t" for t fl
    using attemptSend_part [of E t fl s'] by (simp add: rcv_part_def)
  then show ?thesis
    using assms by (cases "FB_Read (m_rbuf s) n") (fastforce simp: Recv_def Let_def andThen_eq_Inr_iff split: if_splits)
qed

lemma ep_connect: "ep_inv 4 T s \<Longrightarrow> drop 4 (connect_msg s) = [] \<and> length (connect_msg s) < 2 ^ 31"
  by (auto simp: ep_inv_def)

lemma Send_accepted:
  assumes "r = sint (of_nat n :: uint32)" and "n < 2 ^ 31"
  shows "nat r = n"
  using assms by (simp add: sint_uint unsigned_of_nat signed_take_bit_int_eq_self take_bit_nat_eq_self)

lemma peer_step_inv:
  assumes "peer_step q p p'" and "peer_inv T U p" and "peer_inv U T q"
  shows "\<exists>X. peer_inv (T @ X) U p' \<and> length (T @ X) < 2 ^ 31"
proof -
  note I = assms(2) [unfolded peer_inv_def]
  have same: "peer_inv T U (p\<lparr>p_tcp := s'\<rparr>)" if "ep_inv 4 T s'" "rcv_part s' = rcv_part (p_tcp p)" for s'
    by (rule peer_inv_part [OF assms(2) that]) (use I in simp_all)
  have opened: "\<exists>X. peer_inv (T @ X) U (p\<lparr>p_tcp := s'\<rparr>) \<and> length (T @ X) < 2 ^ 31"
    if "m_state (p_tcp p) = TCP_LISTEN" "ep_inv 4 (connect_msg (p_tcp p)) s'" "rcv_part s' = rcv_part (p_tcp p)" for s'
  proof -
    have T: "T = []" using I that(1) by (simp add: ep_inv_def)
    then have "peer_inv (T @ connect_msg (p_tcp p)) U (p\<lparr>p_tcp := s'\<rparr>)"
      using ep_connect [of T "p_tcp p"] I by (intro peer_inv_part [OF assms(2) _ that(3)]) (use that(2) in auto)
    then show ?thesis using ep_connect [of T "p_tcp p"] I T by auto
  qed
  have fin: "?thesis" if "peer_inv T U p'" using that I by (intro exI [of _ "[]"]) simp
  from assms(1) show ?thesis
  proof cases
    case (connect E r s')
    then show ?thesis
      using Connect_ep [of 4 T "p_tcp p" E] I opened [of s'] same [of s'] fin Connect_part [OF connect(2)] by (auto split: if_splits)
  next
    case (send E data r s')
    obtain n where n: "ep_inv 4 (T @ take n data) s'" "r = sint (of_nat n :: uint32) \<or> r = SOCKET_ERROR \<and> n = 0"
        "n \<le> length data"
        "n = 0 \<or> m_state (p_tcp p) = TCP_ESTABLISHED"
      using Send_ep [of 4 T "p_tcp p" E data] I send(2) by (auto split: if_splits simp: unat_of_nat)
    then have r: "nat r = n" using Send_accepted send(3) by (auto simp: SOCKET_ERROR_def)
    have len: "length (T @ take n data) < 2 ^ 31" using send(3) I by simp
    have "n = 0 \<or> 4 \<le> length T" using n(4) I by (auto simp: ep_inv_def)
    then have "peer_inv (T @ take n data) U p'"
      by (intro peer_inv_part [OF assms(2) n(1) Send_part [OF send(2)] len]) (use I r send(1) in auto)
    then show ?thesis using len by blast
  next
    case (recv E n r out s')
    have "ep_inv 4 T s'" "rcv_stream 4 U (p_read p @ out) s'"
      using Recv_ep [OF _ recv(3)] Recv_rcv [OF _ recv(3)] I recv(2) by auto
    then have "peer_inv T U p'" using I recv(1) by (intro peer_invI) simp_all
    then show ?thesis by (rule fin)
  next
    case (clock E now s')
    then show ?thesis
      using fin same [OF _ NotifyClock_part [OF clock(2)]] NotifyClock_ep [of 4 T "p_tcp p" E now] I by auto
  next
    case (mtu mtu)
    then show ?thesis using fin same [OF NotifyMTU_ep NotifyMTU_part] I by auto
  next
    case (deliver pkt w E ok s')
    have g: "pkt_good 4 U pkt" using assms(3) deliver(2) by (auto simp: peer_inv_def ep_inv_def snd_stream_def)
    then have l: "24 \<le> length pkt" by (simp add: pkt_good_def)
    have z: "m_rwnd_scale (p_tcp p) = 0" using I by (simp add: ep_inv_def)
    have "pkt_payload pkt = [] \<or> pkt_ctl pkt \<or> 4 \<le> unat (m_rcv_nxt (p_tcp p))"
      using deliver(4) by (simp add: word_le_nat_alt)
    then have rcv: "m_shutdown (p_tcp p) = SD_NONE \<longrightarrow> rcv_stream 4 U (p_read p) s'" using NotifyPacket_rcv [OF _ _ z g _ deliver(5)] I by blast
    note sh = NotifyPacket_shutdown [OF deliver(5) z l]
    have "ep_inv 4 T s' \<or> T = [] \<and> ep_inv 4 (connect_msg (p_tcp p)) s'"
      using NotifyPacket_ep [OF _ deliver(5) l deliver(3), of 4 T] I by blast
    then obtain X where "ep_inv 4 (T @ X) s'" "length (T @ X) < 2 ^ 31" "drop 4 (T @ X) = drop 4 T"
      using I ep_connect [of T "p_tcp p"] by (metis append_Nil append_Nil2 drop_Nil)
    then show ?thesis using I rcv sh deliver(1) by (auto simp: peer_inv_def)
  next
    case (shut force)
    have "ep_inv 4 T (Close (p_tcp p) force)" by (rule ep_inv_same [of 4 T "p_tcp p"]) (use I in \<open>simp_all add: Close_def\<close>)
    moreover have "m_shutdown (Close (p_tcp p) force) \<noteq> SD_NONE" by (simp add: Close_def)
    ultimately have "peer_inv T U p'" using I shut by (simp add: peer_inv_def)
    then show ?thesis by (rule fin)
  qed
qed

lemma peer_more:
  assumes "peer_inv U T q" and "length (T @ X) < 2 ^ 31"
  shows "peer_inv U (T @ X) q"
proof -
  have "prefix (p_read q) (drop 4 (T @ X))" using assms(1) unfolding peer_inv_def by (metis drop_append prefix_prefix)
  then show ?thesis using assms rcv_more [of 4 T _ "p_tcp q" X] by (simp add: peer_inv_def)
qed

lemma link_inv:
  assumes "link p q"
  shows "\<exists>T U. peer_inv T U p \<and> peer_inv U T q"
  using assms
proof induction
  case (start s t)
  then show ?case using configured_inv by (intro exI [of _ "[]"] conjI peer_invI) simp_all
next
  case (left p q p')
  then obtain T U where I: "peer_inv T U p" "peer_inv U T q" by blast
  obtain X where X: "peer_inv (T @ X) U p'" "length (T @ X) < 2 ^ 31" using peer_step_inv [OF left(2) I] by blast
  then have "peer_inv U (T @ X) q" using peer_more [OF I(2)] by simp
  then show ?case using X(1) by blast
next
  case (right p q q')
  then obtain T U where I: "peer_inv T U p" "peer_inv U T q" by blast
  obtain X where X: "peer_inv (U @ X) T q'" "length (U @ X) < 2 ^ 31" using peer_step_inv [OF right(2) I(2,1)] by blast
  then have "peer_inv T (U @ X) p" using peer_more [OF I(1)] by simp
  then show ?case using X(1) by blast
qed

lemma peer_inv_prefix:
  assumes "peer_inv T U p" and "peer_inv U T q"
  shows "prefix (p_read p) (p_wrote q)"
  using assms by (simp add: peer_inv_def)

lemma Recv_total:
  assumes "ep_inv c T s" and "rcv_stream d U D s"
  shows "\<exists>r out s'. Recv E s n = Inr (r, out, s')"
proof -
  have o: "fb_inv (m_rbuf s)" "fb_state (m_rbuf s) \<noteq> SS_CLOSED" using assms(2) by (simp_all add: rcv_stream_def fb_open_def)
  obtain result out rbuf where R: "FB_Read (m_rbuf s) n = (result, out, rbuf)" by (metis prod_cases3)
  have "result = SR_SUCCESS \<or> result = SR_BLOCK"
  proof (cases "fb_data_length (m_rbuf s) = 0")
    case True
    then show ?thesis using R o by (auto simp: FB_Read_def ReadOffsetLocked_def split: if_splits)
  next
    case False
    then show ?thesis using FB_Read_spec [OF o(1), of n] R by fastforce
  qed
  moreover have "ep_inv c T (s\<lparr>m_rbuf := f, m_rcv_wnd := w\<rparr>)" for f w by (rule ep_inv_same [OF assms(1)]) simp_all
  then have "\<exists>s'. attemptSend E (s\<lparr>m_rbuf := f, m_rcv_wnd := w\<rparr>) fl = Inr s'" for f w fl using attemptSend_ep by blast
  then obtain s' where "attemptSend E (s\<lparr>m_rbuf := rbuf, m_rcv_wnd := of_nat (GetWriteRemaining rbuf)\<rparr>) sfImmediateAck = Inr s'"
    by blast
  ultimately show ?thesis
    using R by (auto simp: Recv_def Let_def)
qed

text \<open>An end that opens the connection, at a fixed environment.\<close>

definition env_idle :: Env where
  "env_idle = \<lparr>env_now = \<lambda>_. 1000, env_write = \<lambda>_ _. WR_SUCCESS, env_big = False, env_junk = \<lambda>_. 0\<rparr>"

lemma new_listen: "m_state (new_PseudoTcp E conv) = TCP_LISTEN"
  by (simp add: new_PseudoTcp_def Let_def)

lemma Connect_new:
  obtains s' where "Connect E (new_PseudoTcp E conv) = Inr (0, s')" and "m_state s' = TCP_SYN_SENT"
proof -
  let ?s = "new_PseudoTcp E conv"
  have e: "ep_inv 4 [] ?s" "m_slist ?s = []" using new_ep [of E conv] new_listen by (auto simp: ep_inv_def)
  obtain s1 where q: "queueConnectMessage E (?s\<lparr>m_state := TCP_SYN_SENT\<rparr>) = Inr s1" "ep_inv 4 (connect_msg ?s) s1"
      "m_state s1 = TCP_SYN_SENT"
    using queueConnect_ep [OF e, of TCP_SYN_SENT E] by auto
  obtain s2 where a: "attemptSend E s1 sfNone = Inr s2" using attemptSend_ep [OF q(2)] by blast
  then have "m_state s2 = TCP_SYN_SENT" using attemptSend_same(2) [OF a] q(3) by simp
  moreover have "Connect E ?s = Inr (0, s2)" using q(1) a by (simp add: Connect_def new_listen)
  ultimately show ?thesis using that by blast
qed

lemma link_connected:
  obtains s t where "link \<lparr>p_tcp = s, p_wrote = [], p_read = []\<rparr> \<lparr>p_tcp = t, p_wrote = [], p_read = []\<rparr>"
    and "m_state s = TCP_SYN_SENT" and "m_state t = TCP_SYN_SENT"
proof -
  let ?n = "new_PseudoTcp env_idle 7" and ?P = "\<lambda>s. \<lparr>p_tcp = s, p_wrote = [], p_read = []\<rparr> :: Peer"
  obtain s where s: "Connect env_idle ?n = Inr (0, s)" "m_state s = TCP_SYN_SENT" by (rule Connect_new)
  have "peer_step q (?P ?n) (?P s)" for q using peer_step.connect [of env_idle "?P ?n" 0 s q] s(1) by simp
  then have "link (?P s) (?P s)"
    using link.start [OF configured.created configured.created] link.left link.right by blast
  then show ?thesis using that s(2) by blast
qed

subsection \<open>The theorems\<close>





end
