(* ===== verification/TcpProps.thy ===== *)
theory TcpProps
  imports TcpLink
begin

text \<open>
  Properties of the single operations of \<open>PseudoTcp\<close> that hold for every packet a peer may send:
  the states of a connection, the bounds of the retransmission timeout, the flow control,
  the packet format, the timer, the size of the receive buffer, and two inputs that the
  code does not handle.
\<close>

subsection \<open>States and timeout\<close>

text \<open>The transitions of a connection.\<close>

inductive state_edge :: "TcpState \<Rightarrow> TcpState \<Rightarrow> bool" where
  stay: "state_edge s s"
| calling: "state_edge TCP_LISTEN TCP_SYN_SENT"
| answering: "state_edge TCP_LISTEN TCP_SYN_RECEIVED"
| opened: "state_edge TCP_SYN_SENT TCP_ESTABLISHED"
| accepted: "state_edge TCP_SYN_RECEIVED TCP_ESTABLISHED"
| closed: "state_edge s TCP_CLOSED"

inductive_simps state_edge_closed [simp]: "state_edge TCP_CLOSED t"
inductive_simps state_edge_to_closed [simp]: "state_edge s TCP_CLOSED"
inductive_simps state_edge_self [simp]: "state_edge s s"

definition rto_ok :: "PseudoTcp \<Rightarrow> bool" where
  "rto_ok s \<longleftrightarrow> MIN_RTO \<le> m_rx_rto s \<and> m_rx_rto s \<le> MAX_RTO"

text \<open>A step of an operation: it follows an edge and keeps the bounds of the timeout.\<close>

definition op_ok :: "PseudoTcp \<Rightarrow> PseudoTcp \<Rightarrow> bool" where
  "op_ok s s' \<longleftrightarrow> state_edge (m_state s) (m_state s') \<and> (rto_ok s \<longrightarrow> rto_ok s')"

text \<open>Steps that keep the state, and those that close the connection when they fail.\<close>

definition calm :: "PseudoTcp \<Rightarrow> PseudoTcp \<Rightarrow> bool" where
  "calm s s' \<longleftrightarrow> m_state s' = m_state s \<and> (rto_ok s \<longrightarrow> rto_ok s')"

lemma calm_refl [simp]: "calm s s" by (simp add: calm_def)

lemma calm_trans: "calm s t \<Longrightarrow> calm t u \<Longrightarrow> calm s u" by (simp add: calm_def)

lemma calm_op_ok: "calm s s' \<Longrightarrow> op_ok s s'" by (simp add: calm_def op_ok_def)

lemma calm_op_trans: "calm s t \<Longrightarrow> op_ok t u \<Longrightarrow> op_ok s u" "op_ok s t \<Longrightarrow> calm t u \<Longrightarrow> op_ok s u"
  by (auto simp: calm_def op_ok_def)

lemma calm_fields: "m_state s' = m_state s \<Longrightarrow> m_rx_rto s' = m_rx_rto s \<Longrightarrow> calm s s'"
  by (simp add: calm_def rto_ok_def)

lemma op_ok_fields: "state_edge (m_state s) (m_state s') \<Longrightarrow> m_rx_rto s' = m_rx_rto s \<Longrightarrow> op_ok s s'"
  by (simp add: op_ok_def rto_ok_def)

lemma quiet_calm: "quiet s' = quiet s \<Longrightarrow> calm s s'"
  by (rule calm_fields) (rule quiet_same; assumption)+

lemmas transmit_calm = quiet_calm [OF quiet_rel.transmit_rel]
lemmas attemptSend_calm = quiet_calm [OF quiet_rel.attemptSend_rel]
lemmas packet_calm = quiet_calm [OF quiet_rel.R_packet]

lemma closedown_op_ok [simp]: "op_ok s (closedown t err) = (rto_ok s \<longrightarrow> rto_ok t)"
  by (auto simp: op_ok_def closedown_def notify_def rto_ok_def)

lemma parseOptions_calm:
  assumes "parseOptions E s data len = Inr s'"
  shows "calm s s'"
proof -
  obtain ended sp s1 where L: "option_loop s (ByteBuffer_of (env_junk E) data (unat len)) {} = (ended, sp, s1)"
    by (metis prod_cases3)
  then have "calm s s1" using option_loop_frame [OF L] by (auto intro!: calm_fields)
  moreover have "calm s1 s'"
    using assms L by (auto simp: parseOptions_def andThen_eq_Inr_iff resizeReceiveBuffer_def Let_def
        intro!: calm_fields split: if_splits prod.splits)
  ultimately show ?thesis by (rule calm_trans)
qed

lemma queueConnect_calm: "queueConnectMessage E s = Inr s' \<Longrightarrow> calm s s'"
  by (auto intro!: calm_fields dest!: queueConnect_frame)

text \<open>The control message: the state moves along an edge only when it is a connect message.\<close>

lemma process_control_op:
  assumes "process_control E s seg = Inr (ok, b, s')"
  shows "calm s s' \<or> b \<and> op_ok s s'"
  using assms
proof (cases rule: process_control_connect)
  case 1
  then show ?thesis by simp
next
  case (2 s1)
  note c = parseOptions_calm [OF 2(1)]
  consider "s' = s1" | "s' = notify OnTcpOpen (adjustMTU (s1\<lparr>m_state := TCP_ESTABLISHED\<rparr>))" "m_state s1 = TCP_SYN_SENT"
    | "m_state s1 = TCP_LISTEN" "queueConnectMessage E (s1\<lparr>m_state := TCP_SYN_RECEIVED\<rparr>) = Inr s'"
    using 2(2) by blast
  then show ?thesis
  proof cases
    case 2
    have "op_ok s1 s'"
      by (rule op_ok_fields) (simp_all add: 2 notify_def adjustMTU_def Let_def state_edge.opened)
    then show ?thesis using calm_op_trans(1) [OF c] \<open>b\<close> by blast
  next
    case 3
    have "op_ok s1 (s1\<lparr>m_state := TCP_SYN_RECEIVED\<rparr>)"
      by (rule op_ok_fields) (simp_all add: 3(1) state_edge.answering)
    then have "op_ok s1 s'" using calm_op_trans(2) queueConnect_calm [OF 3(2)] by blast
    then show ?thesis using calm_op_trans(1) [OF c] \<open>b\<close> by blast
  qed (use c in simp)
qed

lemma bound_between: "lo \<le> hi \<Longrightarrow> lo \<le> bound lo mid hi \<and> bound lo mid hi \<le> hi"
  by (auto simp: bound_def min_def max_def)

lemma update_rtt_calm: "update_rtt s now ts = Inr s' \<Longrightarrow> calm s s'"
  using bound_between [of MIN_RTO MAX_RTO]
  by (auto simp: update_rtt_def calm_def rto_ok_def Let_def tcp_consts split: if_splits)

lemma process_acked_calm:
  assumes "process_acked s seg now = Inr s'"
  shows "calm s s'"
proof -
  obtain s1 where "update_rtt s now (seg_tsecr seg) = Inr s1" "m_state s' = m_state s1" "m_rx_rto s' = m_rx_rto s1"
    using assms by (auto simp: process_acked_def andThen_eq_Inr_iff Let_def)
  then show ?thesis using calm_trans [OF update_rtt_calm calm_fields] by blast
qed

text \<open>The acknowledgement keeps the state unless it closes the connection.\<close>

definition ack_step :: "bool \<Rightarrow> PseudoTcp \<Rightarrow> PseudoTcp \<Rightarrow> bool" where
  "ack_step ok s s' \<longleftrightarrow> (if ok then calm s s' else m_state s' = TCP_CLOSED \<and> (rto_ok s \<longrightarrow> rto_ok s'))"

lemma ack_step_transmit:
  assumes "transmit E t i now = Inr (ok1, s3)" and "calm s t"
    and "s' = (if ok1 then s3\<lparr>m_recover := r, m_ssthresh := h, m_cwnd := a\<rparr> else closedown s3 e)"
  shows "ack_step ok1 s s'"
  using calm_trans [OF assms(2) transmit_calm [OF assms(1)]] assms(3)
  by (auto simp: ack_step_def calm_def rto_ok_def closedown_def notify_def)

lemma process_cwnd_step:
  assumes "process_cwnd E s n now = Inr (ok, s')"
  shows "ack_step ok s s'"
proof (cases "m_dup_acks s \<ge> 3 \<and> \<not> m_snd_una s \<ge> m_recover s")
  case True
  then obtain ok1 s1 where t: "transmit E s 0 now = Inr (ok1, s1)" using assms by (auto simp: process_cwnd_def andThen_eq_Inr_iff)
  then have "ok = ok1 \<and> s' = (if ok1 then s1\<lparr>m_recover := m_recover s1, m_ssthresh := m_ssthresh s1,
      m_cwnd := m_cwnd s1 + (m_mss s1 - min n (m_cwnd s1))\<rparr> else closedown s1 ECONNABORTED)"
    using assms True by (cases ok1) (auto simp: process_cwnd_def)
  then show ?thesis using ack_step_transmit [OF t calm_refl] by blast
next
  case False
  then have "ok \<and> m_state s' = m_state s \<and> m_rx_rto s' = m_rx_rto s"
    using assms by (auto simp: process_cwnd_def split: if_splits)
  then show ?thesis by (simp add: ack_step_def calm_fields)
qed

lemma process_dup_ack_step:
  assumes "process_dup_ack E s seg now = Inr (ok, s')"
  shows "ack_step ok s s'"
proof (cases "\<not> 0 < seg_len seg \<and> m_snd_una s \<noteq> m_snd_nxt s \<and> m_dup_acks s + 1 = 3")
  case False
  have "m_state s' = m_state s \<and> m_rx_rto s' = m_rx_rto s"
    using dup_ack_plain [OF assms False] by (elim conjE disjE) simp_all
  moreover have "ok" using dup_ack_plain [OF assms False] by blast
  ultimately show ?thesis by (simp add: ack_step_def calm_fields)
next
  case True
  let ?s2 = "s\<lparr>m_snd_wnd := push_bit (unat (m_swnd_scale s)) (ucast (seg_wnd seg)), m_dup_acks := m_dup_acks s + 1\<rparr>"
  obtain ok1 s3 where t: "transmit E ?s2 0 now = Inr (ok1, s3)" "ok = ok1"
      "s' = (if ok1 then s3\<lparr>m_recover := m_snd_nxt s3,
          m_ssthresh := max ((m_snd_nxt s3 - m_snd_una s3) div 2) (2 * m_mss s3),
          m_cwnd := max ((m_snd_nxt s3 - m_snd_una s3) div 2) (2 * m_mss s3) + 3 * m_mss s3\<rparr>
        else closedown s3 ECONNABORTED)"
    using assms True by (auto simp: process_dup_ack_def andThen_eq_Inr_iff Let_def split: if_splits)
  have "calm s ?s2" by (rule calm_fields) simp_all
  then show ?thesis using ack_step_transmit [OF t(1) _ t(3)] t(2) by blast
qed

lemma process_ack_step:
  assumes "process_ack E s seg now = Inr (ok, s')"
  shows "ack_step ok s s'"
proof (cases "m_snd_una s < seg_ack seg \<and> seg_ack seg \<le> m_snd_nxt s")
  case True
  then obtain s1 where s1: "process_acked s seg now = Inr s1" "process_cwnd E s1 (seg_ack seg - m_snd_una s) now = Inr (ok, s')"
    using assms by (auto simp: process_ack_def andThen_eq_Inr_iff)
  then show ?thesis using process_acked_calm [OF s1(1)] process_cwnd_step [OF s1(2)]
    by (auto simp: ack_step_def calm_def split: if_splits)
next
  case False
  then have "process_dup_ack E s seg now = Inr (ok, s') \<or> ok \<and> s' = s"
    using assms by (auto simp: process_ack_def split: if_splits)
  then show ?thesis using process_dup_ack_step by (auto simp: ack_step_def)
qed

lemma process_rest_op:
  assumes "process_rest E s seg b = Inr (ok, s')"
  shows "op_ok s s'" and "b \<Longrightarrow> calm s s'"
proof -
  let ?s1 = "process_writeable (process_open s b)"
  obtain new fl s2 s3 where d: "process_data ?s1 (trim_new ?s1 (trim_old ?s1 seg)) (ack_flags ?s1 seg) = Inr (new, fl, s2)"
      "attemptSend E s2 fl = Inr s3" "s' = process_readable s3 new"
    using assms by (auto simp: process_rest_def Let_def andThen_eq_Inr_iff)
  have w: "calm t (process_writeable t)" "calm t (process_readable t new)" for t
    by (rule calm_fields; simp add: process_writeable_def process_readable_def notify_def Let_def)+
  have "calm ?s1 s2" using process_data_frame [OF d(1)] by (auto intro!: calm_fields)
  then have c: "calm (process_open s b) s'"
    using w attemptSend_calm [OF d(2)] d(3) calm_trans by metis
  have "op_ok s (process_open s b)"
    by (rule op_ok_fields) (auto simp: process_open_def notify_def adjustMTU_def Let_def intro: state_edge.accepted)
  then show "op_ok s s'" using c calm_op_trans(2) by blast
  show "calm s s'" if b using c that by (simp add: process_open_def)
qed

lemma process_op:
  assumes "process E s seg = Inr (ok, s')"
  shows "op_ok s s'"
proof -
  have a: "calm s (arrived E s)" by (rule calm_fields) (simp_all add: arrived_def)
  have ts: "calm t (process_timestamp t seg)" for t by (rule calm_fields) (simp_all add: process_timestamp_def)
  from assms show ?thesis
  proof (cases rule: process_cases)
    case (rest b s3 s4)
    have k: "calm s3 s4" using calm_trans [OF ts] process_ack_step [OF rest(2)] by (auto simp: ack_step_def)
    show ?thesis
    proof (cases b)
      case True
      have "calm s3 s'" using calm_trans [OF k process_rest_op(2) [OF rest(3) True]] .
      moreover have "op_ok (arrived E s) s3" using process_control_op [OF rest(1)] calm_op_ok by blast
      ultimately show ?thesis using calm_op_trans a by blast
    next
      case False
      then have "calm (arrived E s) s3" using process_control_op [OF rest(1)] by blast
      then show ?thesis using process_rest_op(1) [OF rest(3)] a k calm_trans calm_op_trans(1) by meson
    qed
  next
    case (aborted b s3)
    have "rto_ok s \<longrightarrow> rto_ok s3" using process_control_op [OF aborted(1)] a by (auto simp: calm_def op_ok_def)
    moreover have "m_state s' = TCP_CLOSED" "rto_ok s3 \<longrightarrow> rto_ok s'"
      using process_ack_step [OF aborted(2)] ts [of s3] by (auto simp: ack_step_def calm_def)
    ultimately show ?thesis by (simp add: op_ok_def)
  next
    case (no_control b)
    then show ?thesis using process_control_op a calm_op_ok calm_op_trans(1) by blast
  qed (use a calm_op_ok in \<open>auto simp: calm_def\<close>)
qed

lemma parse_op:
  assumes "parse E s p = Inr (ok, s')"
  shows "op_ok s s'"
  using assms calm_op_ok [OF calm_refl] process_op
  by (auto simp: parse_def andThen_eq_Inr_iff split: if_splits)

lemma rto_doubled:
  assumes "MIN_RTO \<le> r" and "r \<le> MAX_RTO" and "DEF_RTO \<le> limit" and "limit \<le> MAX_RTO"
  shows "MIN_RTO \<le> min limit (r * 2) \<and> min limit (r * 2) \<le> MAX_RTO"
proof -
  have "unat (r * 2) = unat r * 2"
    using assms(2) by (subst unat_mult_lem [THEN iffD1]) (simp_all add: tcp_consts word_le_nat_alt)
  then show ?thesis using assms by (auto simp: tcp_consts word_le_nat_alt min_def)
qed

lemma clock_retransmit_step:
  assumes "clock_retransmit E s now = Inr (on, s')"
  shows "ack_step on s s'"
proof (cases "m_rto_base s \<noteq> 0 \<and> TimeDiff (m_rto_base s + m_rx_rto s) now \<le> 0")
  case True
  then obtain ok s1 where t: "transmit E s 0 now = Inr (ok, s1)"
    using assms by (auto simp: clock_retransmit_def andThen_eq_Inr_iff split: if_splits)
  note c = transmit_calm [OF t]
  let ?limit = "if m_state s1 \<in> {TCP_LISTEN, TCP_SYN_SENT, TCP_SYN_RECEIVED} then DEF_RTO else MAX_RTO"
  show ?thesis
  proof (cases ok)
    case ok: True
    then have "on" "m_state s' = m_state s1" "m_rx_rto s' = min ?limit (m_rx_rto s1 * 2)"
      using assms True t by (auto simp: clock_retransmit_def Let_def split: if_splits)
    then show ?thesis
      using c rto_doubled [of "m_rx_rto s1" ?limit] by (simp add: ack_step_def calm_def rto_ok_def tcp_consts)
  next
    case False
    then show ?thesis using assms True t c
      by (auto simp: clock_retransmit_def ack_step_def calm_def rto_ok_def closedown_def notify_def split: if_splits)
  qed
qed (use assms in \<open>auto simp: clock_retransmit_def ack_step_def\<close>)

lemma clock_probe_step:
  assumes "clock_probe E s now = Inr (on, s')"
  shows "ack_step on s s'"
proof (cases "m_snd_wnd s = 0 \<and> TimeDiff (m_lastsend s + m_rx_rto s) now \<le> 0 \<and> \<not> TimeDiff now (m_lastrecv s) \<ge> 15000")
  case True
  then obtain w s1 where p: "packet E s (m_snd_nxt s - 1) 0 0 0 = Inr (w, s1)" "on"
      "m_state s' = m_state s1" "m_rx_rto s' = min MAX_RTO (m_rx_rto s1 * 2)"
    using assms by (auto simp: clock_probe_def andThen_eq_Inr_iff split: if_splits)
  then show ?thesis
    using packet_calm [OF p(1)] rto_doubled [of "m_rx_rto s1" MAX_RTO]
    by (simp add: ack_step_def calm_def rto_ok_def tcp_consts)
next
  case False
  then show ?thesis using assms
    by (auto simp: clock_probe_def ack_step_def rto_ok_def closedown_def notify_def split: if_splits)
qed

lemma NotifyClock_op:
  assumes "NotifyClock E s now = Inr s'"
  shows "op_ok s s'"
proof (cases "m_state s = TCP_CLOSED")
  case True
  then show ?thesis using assms calm_op_ok [OF calm_refl] by (simp add: NotifyClock_def)
next
  case False
  have stop: "ack_step False t u \<Longrightarrow> calm s t \<Longrightarrow> op_ok s u" for t u by (auto simp: ack_step_def calm_def op_ok_def)
  obtain on1 s1 where 1: "clock_retransmit E s now = Inr (on1, s1)"
    using assms False by (auto simp: NotifyClock_def andThen_eq_Inr_iff)
  note c1 = clock_retransmit_step [OF 1]
  show ?thesis
  proof (cases on1)
    case True
    then have k1: "calm s s1" using c1 by (simp add: ack_step_def)
    obtain on2 s2 where 2: "clock_probe E s1 now = Inr (on2, s2)"
      using assms False 1 True by (auto simp: NotifyClock_def andThen_eq_Inr_iff)
    note c2 = clock_probe_step [OF 2]
    show ?thesis
    proof (cases on2)
      case on2: True
      then have "calm s s2" using c2 k1 by (auto simp: ack_step_def intro: calm_trans)
      moreover have "clock_delayed_ack E s2 now = Inr s'"
        using assms False 1 2 True on2 by (simp add: NotifyClock_def)
      then have "calm s2 s'"
        by (auto simp: clock_delayed_ack_def andThen_eq_Inr_iff intro: packet_calm split: if_splits)
      ultimately show ?thesis using calm_trans calm_op_ok by blast
    next
      case on2: False
      then have "s' = s2" using assms False 1 2 True by (simp add: NotifyClock_def)
      then show ?thesis using stop [OF _ k1] c2 on2 by simp
    qed
  next
    case off: False
    then have "s' = s1" using assms False 1 by (simp add: NotifyClock_def)
    then show ?thesis using stop [OF _ calm_refl] c1 off by simp
  qed
qed

text \<open>The public operations, on any arguments and any packet.\<close>

inductive tcp_op :: "PseudoTcp \<Rightarrow> PseudoTcp \<Rightarrow> bool" for s where
  op_connect: "Connect E s = Inr (r, s') \<Longrightarrow> tcp_op s s'"
| op_send: "Send E s data = Inr (r, s') \<Longrightarrow> tcp_op s s'"
| op_recv: "Recv E s n = Inr (r, out, s') \<Longrightarrow> tcp_op s s'"
| op_packet: "NotifyPacket E s p = Inr (ok, s') \<Longrightarrow> tcp_op s s'"
| op_clock: "NotifyClock E s now = Inr s' \<Longrightarrow> tcp_op s s'"
| op_mtu: "tcp_op s (NotifyMTU s mtu)"
| op_option: "SetOption E s opt val = Inr s' \<Longrightarrow> tcp_op s s'"
| op_close: "tcp_op s (Close s force)"

inductive tcp_reach :: "PseudoTcp \<Rightarrow> bool" where
  reach_new: "tcp_reach (new_PseudoTcp E conv)"
| reach_op: "tcp_reach s \<Longrightarrow> tcp_op s s' \<Longrightarrow> tcp_reach s'"

lemma Connect_op:
  assumes "Connect E s = Inr (r, s')"
  shows "op_ok s s'"
proof (cases "m_state s = TCP_LISTEN")
  case True
  then obtain s1 where q: "queueConnectMessage E (s\<lparr>m_state := TCP_SYN_SENT\<rparr>) = Inr s1" "attemptSend E s1 sfNone = Inr s'"
    using assms by (auto simp: Connect_def andThen_eq_Inr_iff)
  have "op_ok s (s\<lparr>m_state := TCP_SYN_SENT\<rparr>)" by (rule op_ok_fields) (simp_all add: True state_edge.calling)
  then show ?thesis using calm_op_trans(2) queueConnect_calm [OF q(1)] attemptSend_calm [OF q(2)] by blast
next
  case False
  then show ?thesis using assms by (auto simp: Connect_def intro!: calm_op_ok calm_fields)
qed

lemma Send_calm:
  assumes "Send E s data = Inr (r, s')"
  shows "calm s s'"
proof (cases "m_state s = TCP_ESTABLISHED \<and> GetWriteRemaining (m_sbuf s) \<noteq> 0")
  case True
  then obtain w s1 where q: "queue s data (of_nat (length data)) False = Inr (w, s1)" "attemptSend E s1 sfNone = Inr s'"
    using assms by (auto simp: Send_def andThen_eq_Inr_iff)
  have "calm s s1" using queue_frame [OF q(1)] by (auto intro: calm_fields)
  then show ?thesis using calm_trans attemptSend_calm [OF q(2)] by blast
qed (use assms in \<open>auto simp: Send_def intro!: calm_fields split: if_splits\<close>)

lemma Recv_calm:
  assumes "Recv E s n = Inr (r, out, s')"
  shows "calm s s'"
proof -
  obtain result out1 rbuf where R: "FB_Read (m_rbuf s) n = (result, out1, rbuf)" by (metis prod_cases3)
  have "m_state s' = m_state s \<and> m_rx_rto s' = m_rx_rto s \<or>
      (\<exists>w. attemptSend E (s\<lparr>m_rbuf := rbuf, m_rcv_wnd := w\<rparr>) sfImmediateAck = Inr s')"
    using assms R by (auto simp: Recv_def Let_def andThen_eq_Inr_iff split: if_splits)
  then show ?thesis
  proof (elim disjE exE)
    fix w assume "attemptSend E (s\<lparr>m_rbuf := rbuf, m_rcv_wnd := w\<rparr>) sfImmediateAck = Inr s'"
    from attemptSend_calm [OF this] show ?thesis by (simp add: calm_def rto_ok_def)
  qed (simp add: calm_fields)
qed

lemma SetOption_calm: "SetOption E s opt val = Inr s' \<Longrightarrow> calm s s'"
  by (cases opt) (auto simp: SetOption_def resizeSendBuffer_def resizeReceiveBuffer_def andThen_eq_Inr_iff Let_def
      intro!: calm_fields split: prod.splits)

lemma tcp_op_ok: "tcp_op s s' \<Longrightarrow> op_ok s s'"
proof (induction rule: tcp_op.induct)
  case (op_packet E p ok s')
  then show ?case using parse_op calm_op_ok [OF calm_refl] by (auto simp: NotifyPacket_def split: if_splits)
next
  case (op_mtu mtu)
  then show ?case by (auto simp: NotifyMTU_def adjustMTU_def Let_def intro!: op_ok_fields)
next
  case (op_close force)
  then show ?case by (auto simp: Close_def intro!: op_ok_fields)
qed (auto intro: Connect_op NotifyClock_op calm_op_ok Send_calm Recv_calm SetOption_calm)

text \<open>Property C21: whatever operation is called, with whatever packet, the state of a connection only follows the edges of the
  state machine: it never goes back to an earlier state, and a closed connection stays closed.\<close>

theorem states_follow_machine:
  assumes "tcp_op s s'"
  shows "state_edge (m_state s) (m_state s')"
  using tcp_op_ok [OF assms] by (simp add: op_ok_def)

theorem states_follow_machine_witness:
  "state_edge TCP_LISTEN (m_state (NotifyMTU (new_PseudoTcp env_idle 7) 1500))"
  using states_follow_machine [OF tcp_op.op_mtu [of "new_PseudoTcp env_idle 7" 1500]] by (simp add: new_listen)

text \<open>Property C25: after any sequence of operations on a connection the retransmission timeout lies
  between 250 ms and a minute, however the peer's timestamps look and however often it was
  doubled.\<close>

theorem timeout_bounded:
  assumes "tcp_reach s"
  shows "MIN_RTO \<le> m_rx_rto s \<and> m_rx_rto s \<le> MAX_RTO"
proof -
  have "rto_ok s" using assms
  proof induction
    case (reach_new E conv)
    then show ?case by (simp add: rto_ok_def new_PseudoTcp_def Let_def tcp_consts)
  next
    case (reach_op s s')
    then show ?case using tcp_op_ok by (auto simp: op_ok_def)
  qed
  then show ?thesis by (simp add: rto_ok_def)
qed

theorem timeout_bounded_witness:
  "MIN_RTO \<le> m_rx_rto (Close (new_PseudoTcp env_idle 7) True) \<and> m_rx_rto (Close (new_PseudoTcp env_idle 7) True) \<le> MAX_RTO"
  by (rule timeout_bounded) (rule tcp_reach.reach_op [OF tcp_reach.reach_new tcp_op.op_close])

subsection \<open>Flow control\<close>

interpretation nxt_rel: packet_rel "\<lambda>s s'. m_snd_nxt s' = m_snd_nxt s"
  by unfold_locales (simp_all add: packet_snd lower_mss_snd)

definition flight :: "PseudoTcp \<Rightarrow> nat" where
  "flight s = unat (GetBytesInFlight s)"

lemma nAvailable_fits:
  assumes "nAvailable s \<noteq> 0"
  shows "flight s + unat (nAvailable s) \<le> unat (m_snd_wnd s)"
proof -
  let ?f = "m_snd_nxt s - m_snd_una s"
  obtain a u where u: "u = (if ?f < nWindow s then nWindow s - ?f else 0)"
      and a: "nAvailable s = (if u < a then (if u * 4 < nWindow s then 0 else u) else a)"
    unfolding nAvailable_def Let_def by blast
  have "nAvailable s \<le> u" by (auto simp: a)
  then have "?f < nWindow s" "nAvailable s \<le> nWindow s - ?f"
    using assms by (auto simp: u split: if_splits)
  then have "unat ?f + unat (nAvailable s) \<le> unat (nWindow s)"
    by (simp add: word_less_nat_alt word_le_nat_alt unat_sub_if')
  moreover have "unat (nWindow s) \<le> unat (m_snd_wnd s)" by (simp add: nWindow_def word_le_nat_alt [symmetric])
  ultimately show ?thesis by (simp add: flight_def GetBytesInFlight_def)
qed

lemma transmit_nxt:
  assumes "transmit E s i now = Inr (ok, s')" and "ss_xmit (m_slist s ! i) = 0"
  shows "m_snd_nxt s' = m_snd_nxt s \<or> (\<exists>n \<le> ss_len (m_slist s ! i). m_snd_nxt s' = m_snd_nxt s + n)"
proof (cases ok)
  case True
  then obtain n s1 where t: "i < length (m_slist s)" "s' = transmitted s1 i n now"
      and L: "transmit_loop E s i (min (ss_len (m_slist s ! i)) (m_mss s)) = Inr (True, n, s1)"
    using assms by (auto simp: transmit_True)
  have e: "m_slist s1 = m_slist s" "n \<le> ss_len (m_slist s ! i)" using transmit_loop_effect [OF L] by auto
  have "m_snd_nxt s1 = m_snd_nxt s" by (rule nxt_rel.transmit_loop_rel [OF L])
  then show ?thesis
    using t e assms(2) by (auto simp: transmitted_def Let_def split_seg_nth)
next
  case False
  then show ?thesis using assms nxt_rel.transmit_loop_rel by (auto simp: transmit_False)
qed

lemma attemptSend_loop_flight:
  "attemptSend_loop E s fl now = Inr s' \<Longrightarrow> flight s' \<le> max (flight s) (unat (m_snd_wnd s))"
proof (induction E s fl now rule: attemptSend_loop.induct)
  case (1 E s fl now)
  have ack: "flight s' = flight s" if "send_ack E s fl = Inr s'"
    using that packet_snd packet_same(11)
    by (auto simp: send_ack_def Now_def flight_def GetBytesInFlight_def andThen_eq_Inr_iff split: if_splits)
  show ?case
  proof (cases "nAvailable s = 0 \<or> m_use_nagling s \<and> m_snd_nxt s > m_snd_una s \<and> nAvailable s < m_mss s")
    case True
    then show ?thesis using 1(2) ack by (auto simp: attemptSend_loop.simps [of E s fl now] split: if_splits)
  next
    case False
    then have av: "nAvailable s \<noteq> 0" and nn: "\<not> (m_use_nagling s \<and> m_snd_nxt s > m_snd_una s \<and> nAvailable s < m_mss s)" by auto
    obtain i ok s1 where i: "next_unsent (m_slist s) 0 = Inr i"
        and t: "transmit E (break_seg s i (nAvailable s)) i now = Inr (ok, s1)"
      using 1(2) av nn by (auto simp: attemptSend_loop.simps [of E s fl now] andThen_eq_Inr_iff)
    let ?b = "break_seg s i (nAvailable s)"
    have x: "i < length (m_slist s)" "ss_xmit (m_slist s ! i) = 0" using next_unsent_Inr [OF i] by auto
    then have b: "ss_xmit (m_slist ?b ! i) = 0" "ss_len (m_slist ?b ! i) \<le> nAvailable s" "m_snd_nxt ?b = m_snd_nxt s"
      by (auto simp: break_seg_def split_seg_nth)
    have una: "m_snd_una s1 = m_snd_una s" "m_snd_wnd s1 = m_snd_wnd s"
      using transmit_same(11,18) [OF t] by (simp_all add: break_seg_def)
    have f1: "flight s1 \<le> max (flight s) (unat (m_snd_wnd s))"
      using transmit_nxt [OF t b(1)]
    proof (elim disjE exE conjE)
      fix n assume n: "n \<le> ss_len (m_slist ?b ! i)" "m_snd_nxt s1 = m_snd_nxt ?b + n"
      have "m_snd_nxt s + n - m_snd_una s = (m_snd_nxt s - m_snd_una s) + n" by simp
      moreover have "unat ((m_snd_nxt s - m_snd_una s) + n) \<le> unat (m_snd_nxt s - m_snd_una s) + unat n"
        by (subst unat_word_ariths(1)) (rule mod_less_eq_dividend)
      ultimately have "unat (m_snd_nxt s + n - m_snd_una s) \<le> unat (m_snd_nxt s - m_snd_una s) + unat n" by (simp only:)
      moreover have "unat n \<le> unat (nAvailable s)" using n(1) b(2) by (simp add: word_le_nat_alt [symmetric])
      ultimately have "flight s1 \<le> unat (m_snd_wnd s)"
        using nAvailable_fits [OF av] unfolding flight_def GetBytesInFlight_def n(2) b(3) una by linarith
      then show ?thesis by simp
    qed (simp add: flight_def GetBytesInFlight_def b(3) una)
    show ?thesis
    proof (cases ok)
      case True
      then have "attemptSend_loop E s1 sfNone now = Inr s'"
        using 1(2) av nn i t by (simp add: attemptSend_loop.simps [of E s fl now])
      with 1(1) [OF av nn i t refl] True have "flight s' \<le> max (flight s1) (unat (m_snd_wnd s1))" by blast
      then show ?thesis using f1 una by simp
    next
      case False
      then show ?thesis using 1(2) av nn i t f1 by (simp add: attemptSend_loop.simps [of E s fl now])
    qed
  qed
qed

text \<open>Property C20: flow control. However much data is queued, sending never puts more bytes in
  flight than the window the peer has advertised; when the window was reduced below what is
  already in flight, nothing is added.\<close>

theorem window_respected:
  assumes "attemptSend E s fl = Inr s'"
  shows "unat (GetBytesInFlight s') \<le> max (unat (GetBytesInFlight s)) (unat (m_snd_wnd s))"
proof -
  let ?s1 = "s\<lparr>x_clock := Suc (x_clock s)\<rparr>"
  obtain t now where "attemptSend_loop E t fl now = Inr s'" "t = ?s1 \<or> t = ?s1\<lparr>m_cwnd := m_mss s\<rparr>"
    using assms by (auto simp: attemptSend_def Now_def Let_def split: if_splits)
  then show ?thesis using attemptSend_loop_flight [of E t fl now s'] by (auto simp: flight_def GetBytesInFlight_def)
qed

theorem window_respected_witness:
  "\<exists>s s'. m_state s = TCP_SYN_SENT \<and> attemptSend env_idle s sfNone = Inr s' \<and>
     unat (GetBytesInFlight s') \<le> max (unat (GetBytesInFlight s)) (unat (m_snd_wnd s))"
proof -
  obtain s where s: "m_state s = TCP_SYN_SENT" "ep_inv 4 (connect_msg (new_PseudoTcp env_idle 7)) s"
    using queueConnect_ep [OF new_ep, of env_idle 7 TCP_SYN_SENT env_idle] by (auto simp: new_PseudoTcp_def Let_def)
  then obtain s' where "attemptSend env_idle s sfNone = Inr s'" using attemptSend_ep by blast
  then show ?thesis using window_respected s(1) by blast
qed

subsection \<open>The packet format\<close>

lemma seg_of_header:
  "seg_of (header conv seq ack flags wnd now ts @ data) =
   \<lparr>seg_conv = conv, seg_seq = seq, seg_ack = ack, seg_flags = flags, seg_wnd = wnd, seg_data = data,
    seg_len = of_nat (length data), seg_tsval = now, seg_tsecr = ts\<rparr>"
  by (simp add: seg_of_def) (simp add: header_def pkt_payload_def nth_append)

text \<open>Property C26: what \<open>packet\<close> encodes, \<open>NotifyPacket\<close> decodes: the receiving end processes
  exactly the header fields and the payload that the sending end put in, on hosts of
  either endianness.\<close>

theorem packet_decodes:
  assumes "fb_inv (m_sbuf s)" and "unat (m_rwnd_scale s) < 32" and "unat len \<le> 65511"
    and "unat offset + unat len \<le> fb_data_length (m_sbuf s)"
  shows "\<exists>r s' p w. packet E s seq flags offset len = Inr (r, s') \<and> x_sent s' = x_sent s @ [(p, w)] \<and>
    NotifyPacket F t p = process F t
      \<lparr>seg_conv = m_conv s, seg_seq = seq, seg_ack = m_rcv_nxt s, seg_flags = flags,
       seg_wnd = ucast (drop_bit (unat (m_rwnd_scale s)) (m_rcv_wnd s)),
       seg_data = take (unat len) (drop (unat offset) (fb_data (m_sbuf s))), seg_len = len,
       seg_tsval = env_now E (x_clock s), seg_tsecr = m_ts_recent s\<rparr>"
proof -
  let ?now = "env_now E (x_clock s)" and ?s1 = "s\<lparr>x_clock := Suc (x_clock s)\<rparr>"
  let ?data = "take (unat len) (drop (unat offset) (fb_data (m_sbuf s)))"
  let ?p = "header (m_conv s) seq (m_rcv_nxt s) flags (ucast (drop_bit (unat (m_rwnd_scale s)) (m_rcv_wnd s))) ?now (m_ts_recent s) @ ?data"
  have b: "packet_bytes E ?s1 ?now seq flags offset len = Inr ?p"
    using packet_bytes_ok [of ?s1 len offset E ?now seq flags] assms by simp
  have "unat (HEADER_SIZE + len) = 24 + unat len"
    using assms(3) by (subst unat_add_lem [THEN iffD1]) (simp_all add: HEADER_SIZE_def)
  then have a: "HEADER_SIZE + len \<le> MAX_PACKET" using assms(3) by (simp add: MAX_PACKET_def word_le_nat_alt)
  obtain r s' where w: "packet_written E (?s1\<lparr>m_ts_lastack := m_rcv_nxt ?s1\<rparr>) ?now len ?p = (r, s')" by fastforce
  have "packet E s seq flags offset len = Inr (r, s')" using a b w by (simp add: packet_def Now_def)
  moreover have "\<exists>w. x_sent s' = x_sent s @ [(?p, w)]" using w by (auto simp: packet_written_def Let_def split: if_splits)
  moreover have l: "length ?data = unat len" using assms(1,4) by (simp add: length_fb_data)
  have "NotifyPacket F t ?p = process F t (seg_of ?p)"
    using l assms(3) by (simp add: NotifyPacket_def MAX_PACKET_def parse_seg)
  ultimately show ?thesis unfolding seg_of_header l by auto
qed

theorem packet_decodes_witness:
  "\<exists>r s' p w. packet env_idle (new_PseudoTcp env_idle 7) 5 0 0 0 = Inr (r, s') \<and> x_sent s' = x_sent (new_PseudoTcp env_idle 7) @ [(p, w)] \<and>
    NotifyPacket env_idle (new_PseudoTcp env_idle 8) p = Inr (False, new_PseudoTcp env_idle 8)"
  using packet_decodes [of "new_PseudoTcp env_idle 7" 0 0 env_idle 5 0 env_idle "new_PseudoTcp env_idle 8"]
    fb_open_new [of 92160 "\<lambda>_. 0"]
  by (auto simp: process_def new_PseudoTcp_def Let_def fb_open_def env_idle_def tcp_consts)

text \<open>Property C33: a packet of 12 to 23 bytes passes the size check of \<open>parse\<close>, which compares
  with 12 although the header has 24 bytes, and the fields behind its end are read.\<close>

theorem short_packet_out_of_bounds:
  assumes "12 \<le> length p" and "length p < 24"
  shows "NotifyPacket E s p = Inl Out_of_bounds"
  using assms by (simp add: NotifyPacket_def MAX_PACKET_def parse_def bytes_to_long_def bytes_to_short_def)

theorem short_packet_out_of_bounds_witness:
  "NotifyPacket env_idle (new_PseudoTcp env_idle 7) (replicate 12 0) = Inl Out_of_bounds"
  by (rule short_packet_out_of_bounds) simp_all

subsection \<open>Acknowledgements at the wrap of the sequence numbers\<close>

text \<open>Property C34: once the sequence number of the next byte has wrapped past zero while bytes
  sent before are still in flight, no acknowledgement of new data is recognised, because the
  bounds are compared as plain unsigned numbers: the bytes in flight are never released.\<close>

theorem acks_lost_at_wrap:
  assumes "m_snd_nxt s < m_snd_una s" and "seg_ack seg \<noteq> m_snd_una s"
  shows "process_ack E s seg now = Inr (True, s)"
  using assms by (auto simp: process_ack_def)

theorem acks_lost_at_wrap_witness:
  "process_ack env_idle ((new_PseudoTcp env_idle 7)\<lparr>m_snd_una := 0xFFFFFFF0, m_snd_nxt := 0x10\<rparr>)
     \<lparr>seg_conv = 7, seg_seq = 0, seg_ack = 0x10, seg_flags = 0, seg_wnd = 0, seg_data = [], seg_len = 0, seg_tsval = 0, seg_tsecr = 0\<rparr> 5
   = Inr (True, (new_PseudoTcp env_idle 7)\<lparr>m_snd_una := 0xFFFFFFF0, m_snd_nxt := 0x10\<rparr>)"
  by (rule acks_lost_at_wrap) simp_all

subsection \<open>The timer\<close>

lemma clock_check_bounds:
  assumes "clock_check s now = Some t" and "m_state s \<noteq> TCP_CLOSED"
  shows "t \<le> DEFAULT_TIMEOUT" and "m_t_ack s \<noteq> 0 \<Longrightarrow> t \<le> TimeDiff (m_t_ack s + m_ack_delay s) now"
    and "m_rto_base s \<noteq> 0 \<Longrightarrow> t \<le> TimeDiff (m_rto_base s + m_rx_rto s) now"
    and "m_snd_wnd s = 0 \<Longrightarrow> t \<le> TimeDiff (m_lastsend s + m_rx_rto s) now"
proof -
  define t1 where "t1 = (if m_t_ack s \<noteq> 0 then min DEFAULT_TIMEOUT (TimeDiff (m_t_ack s + m_ack_delay s) now) else DEFAULT_TIMEOUT)"
  define t2 where "t2 = (if m_rto_base s \<noteq> 0 then min t1 (TimeDiff (m_rto_base s + m_rx_rto s) now) else t1)"
  have t: "t = (if m_snd_wnd s = 0 then min t2 (TimeDiff (m_lastsend s + m_rx_rto s) now) else t2)"
    using assms unfolding clock_check_def Let_def t1_def [symmetric] t2_def [symmetric] by (simp split: if_split_asm)
  have "t \<le> t2" by (simp add: t)
  moreover have "t2 \<le> t1" by (simp add: t2_def)
  moreover have "t1 \<le> DEFAULT_TIMEOUT" by (simp add: t1_def)
  ultimately show "t \<le> DEFAULT_TIMEOUT" by linarith
  show "t \<le> TimeDiff (m_t_ack s + m_ack_delay s) now" if "m_t_ack s \<noteq> 0"
    using \<open>t \<le> t2\<close> \<open>t2 \<le> t1\<close> that by (simp add: t1_def)
  show "t \<le> TimeDiff (m_rto_base s + m_rx_rto s) now" if "m_rto_base s \<noteq> 0"
    using \<open>t \<le> t2\<close> that by (simp add: t2_def)
  show "t \<le> TimeDiff (m_lastsend s + m_rx_rto s) now" if "m_snd_wnd s = 0" using that by (simp add: t)
qed



subsection \<open>The size of the receive buffer\<close>

lemma scale_down_spec:
  "scale_down n k = (n', k') \<Longrightarrow>
   \<exists>j. k' = k + of_nat j \<and> unat n' = unat n div 2 ^ j \<and> unat n' \<le> 65535 \<and> (0 < j \<longrightarrow> 65535 < unat n div 2 ^ (j - 1))"
proof (induction n k rule: scale_down.induct)
  case (1 n k)
  show ?case
  proof (cases "0xFFFF < n")
    case True
    then have "scale_down (drop_bit 1 n) (k + 1) = (n', k')" using 1(2) by (simp add: scale_down.simps [of n k])
    then obtain j where j: "k' = k + 1 + of_nat j" "unat n' = unat (drop_bit 1 n) div 2 ^ j" "unat n' \<le> 65535"
        "0 < j \<longrightarrow> 65535 < unat (drop_bit 1 n) div 2 ^ (j - 1)"
      using 1(1) [OF True] by blast
    have d: "unat (drop_bit 1 n) div 2 ^ i = unat n div 2 ^ Suc i" for i by (simp add: unat_drop_bit_1 div_mult2_eq)
    have "65535 < unat n" using True by (simp add: word_less_nat_alt)
    then have "0 < Suc j \<longrightarrow> 65535 < unat n div 2 ^ (Suc j - 1)" using j(4) unfolding d by (cases j) simp_all
    moreover have "unat n' = unat n div 2 ^ Suc j" using j(2) unfolding d .
    moreover have "k' = k + of_nat (Suc j)" using j(1) by simp
    ultimately show ?thesis using j(3) by blast
  next
    case False
    then have "n' = n" "k' = k" using 1(2) by (simp_all add: scale_down.simps [of n k])
    then show ?thesis using False by (intro exI [of _ 0]) (simp add: word_less_nat_alt)
  qed
qed



end
