(* ===== verification/TcpChannel.thy ===== *)
theory TcpChannel
  imports TcpLink
begin

text \<open>
  \<^verbatim>\<open>talk/session/tunnel/pseudotcpchannel.cc\<close>: a stream over a \<open>PseudoTcp\<close> that sends its packets through
  a transport channel. Three threads call the object: the signalling thread, the worker thread and the
  thread of the stream. Every method holds the lock \<open>cs_\<close>, so that the methods are the atomic
  steps; the messages that an object posts to the threads are fields of its record. A thread is a number;
  a pointer that is only compared and tested is a number or \<open>None\<close>.

  The transport channel, the session and the clock are parameters: \<open>n_send\<close> is what \<open>SendPacket\<close>
  returns for the packet of the given index and what \<open>GetError\<close> then tells.
\<close>

subsection \<open>Data\<close>

type_synonym thread = nat

definition EAGAIN :: int where "EAGAIN = 11"
definition EINPROGRESS :: int where "EINPROGRESS = 115"
definition EMSGSIZE :: int where "EMSGSIZE = 90"

definition IsBlockingError :: "int \<Rightarrow> bool" where
  "IsBlockingError e \<longleftrightarrow> e = EWOULDBLOCK \<or> e = EAGAIN \<or> e = EINPROGRESS"

record SessionView =
  sess_id :: nat
  sess_signaling_thread :: thread
  sess_worker_thread :: thread
  sess_initiator :: bool

record Net =
  n_now :: "nat \<Rightarrow> uint32"
  n_send :: "nat \<Rightarrow> byte list \<Rightarrow> int \<times> int"
  n_big :: bool
  n_junk :: "nat \<Rightarrow> byte"

datatype chan_message =
    MSG_WK_CLOCK
  | MSG_WK_PURGE
  | MSG_ST_EVENT "StreamEvent set" int
  | MSG_SI_DESTROYCHANNEL
  | MSG_SI_DESTROY

text \<open>\<open>q_...\<close> are the posted messages: the delays of the pending clocks, the number of purge messages, the events
  for the stream, and the numbers of the two messages of the signalling thread. \<open>x_signalled\<close>,
  \<open>x_closed\<close> and \<open>x_requested\<close> record the signals to the owners of the stream and of the channel and
  the calls of \<open>DestroyChannel\<close>.\<close>

record Chan =
  c_signal_thread :: thread
  c_worker_thread :: "thread option"
  c_stream_thread :: thread
  c_session :: "SessionView option"
  c_channel :: "nat option"
  c_component :: int
  c_content_name :: string
  c_channel_name :: string
  c_tcp :: "PseudoTcp option"
  c_stream :: bool
  c_stream_readable :: bool
  c_pending_read_event :: bool
  c_ready_to_connect :: bool
  q_clock :: "int list"
  q_purge :: nat
  q_event :: "(StreamEvent set \<times> int) list"
  q_destroychannel :: nat
  q_destroy :: nat
  x_signalled :: "(StreamEvent set \<times> int) list"
  x_closed :: nat
  x_requested :: "(string \<times> int) list"

subsection \<open>Threads\<close>

definition worker_current :: "thread \<Rightarrow> Chan \<Rightarrow> unit exec" where
  "worker_current cur c = (case c_worker_thread c of None \<Rightarrow> Inl Null_pointer | Some w \<Rightarrow> ASSERT (cur = w))"

definition post_event :: "StreamEvent set \<Rightarrow> int \<Rightarrow> Chan \<Rightarrow> Chan" where
  "post_event ev err c = c\<lparr>q_event := q_event c @ [(ev, err)]\<rparr>"

subsection \<open>Notifications of the connection\<close>

definition Chan_OnTcpOpen :: "thread \<Rightarrow> Chan \<Rightarrow> Chan exec" where
  "Chan_OnTcpOpen cur c =
     andThen (worker_current cur c) (\<lambda>_.
     Inr (if c_stream c
          then post_event {SE_OPEN, SE_READ, SE_WRITE} 0 (c\<lparr>c_stream_readable := True, c_pending_read_event := True\<rparr>)
          else c))"

definition Chan_OnTcpReadable :: "thread \<Rightarrow> Chan \<Rightarrow> Chan exec" where
  "Chan_OnTcpReadable cur c =
     andThen (worker_current cur c) (\<lambda>_.
     Inr (if c_stream c then
            let c1 = c\<lparr>c_stream_readable := True\<rparr> in
            if \<not> c_pending_read_event c1 then post_event {SE_READ} 0 (c1\<lparr>c_pending_read_event := True\<rparr>) else c1
          else c))"

definition Chan_OnTcpWriteable :: "thread \<Rightarrow> Chan \<Rightarrow> Chan exec" where
  "Chan_OnTcpWriteable cur c =
     andThen (worker_current cur c) (\<lambda>_. Inr (if c_stream c then post_event {SE_WRITE} 0 c else c))"

definition Chan_OnTcpClosed :: "thread \<Rightarrow> uint32 \<Rightarrow> Chan \<Rightarrow> Chan exec" where
  "Chan_OnTcpClosed cur nError c =
     andThen (worker_current cur c) (\<lambda>_. Inr (if c_stream c then post_event {SE_CLOSE} (sint nError) c else c))"

fun raise_events :: "thread \<Rightarrow> TcpEvent list \<Rightarrow> Chan \<Rightarrow> Chan exec" where
  "raise_events cur [] c = Inr c"
| "raise_events cur (OnTcpOpen # es) c = andThen (Chan_OnTcpOpen cur c) (raise_events cur es)"
| "raise_events cur (OnTcpReadable # es) c = andThen (Chan_OnTcpReadable cur c) (raise_events cur es)"
| "raise_events cur (OnTcpWriteable # es) c = andThen (Chan_OnTcpWriteable cur c) (raise_events cur es)"
| "raise_events cur (OnTcpClosed err # es) c = andThen (Chan_OnTcpClosed cur err c) (raise_events cur es)"

definition Chan_TcpWritePacket :: "Chan \<Rightarrow> int \<times> int \<Rightarrow> WriteResult exec" where
  "Chan_TcpWritePacket c answer =
     andThen (ASSERT (c_channel c \<noteq> None)) (\<lambda>_.
     case answer of (sent, err) \<Rightarrow>
       if sent > 0 then Inr WR_SUCCESS
       else if IsBlockingError err then Inr WR_SUCCESS
       else if err = EMSGSIZE then Inr WR_TOO_LARGE
       else andThen (ASSERT False) (\<lambda>_. Inr WR_FAIL))"

subsection \<open>Calls of the connection\<close>

text \<open>\<open>call_tcp\<close> runs an operation of the connection. The packets that the operation hands to
  \<open>TcpWritePacket\<close> and the notifications that it raises come back in the traces \<open>x_sent\<close> and
  \<open>x_events\<close> of the connection; the notifications only post messages, so that they are
  handled in order when the operation has returned. A failed assertion of \<open>TcpWritePacket\<close> stops the call.\<close>

definition chan_env :: "Net \<Rightarrow> Chan \<Rightarrow> Env" where
  "chan_env N c =
     \<lparr>env_now = n_now N,
      env_write = (\<lambda>k pkt. case Chan_TcpWritePacket c (n_send N k pkt) of Inl _ \<Rightarrow> WR_FAIL | Inr r \<Rightarrow> r),
      env_big = n_big N, env_junk = n_junk N\<rparr>"

fun check_writes :: "Net \<Rightarrow> Chan \<Rightarrow> nat \<Rightarrow> (byte list \<times> WriteResult) list \<Rightarrow> unit exec" where
  "check_writes N c k [] = Inr ()"
| "check_writes N c k (p # ps) = andThen (Chan_TcpWritePacket c (n_send N k (fst p))) (\<lambda>_. check_writes N c (Suc k) ps)"

definition call_tcp ::
  "Net \<Rightarrow> thread \<Rightarrow> (Env \<Rightarrow> PseudoTcp \<Rightarrow> ('a \<times> PseudoTcp) exec) \<Rightarrow> Chan \<Rightarrow> ('a \<times> Chan) exec" where
  "call_tcp N cur f c =
     (case c_tcp c of
        None \<Rightarrow> Inl Null_pointer
      | Some t \<Rightarrow>
          andThen (f (chan_env N c) (t\<lparr>x_events := []\<rparr>)) (\<lambda>(r, t1).
          andThen (check_writes N c (length (x_sent t)) (drop (length (x_sent t)) (x_sent t1))) (\<lambda>_.
          andThen (raise_events cur (x_events t1) (c\<lparr>c_tcp := Some (t1\<lparr>x_events := []\<rparr>)\<rparr>)) (\<lambda>c1.
          Inr (r, c1)))))"

text \<open>The default argument of \<open>AdjustClock\<close> is \<open>True\<close>.\<close>

definition Chan_AdjustClock :: "Net \<Rightarrow> bool \<Rightarrow> Chan \<Rightarrow> Chan exec" where
  "Chan_AdjustClock N clear c =
     (case c_tcp c of
        None \<Rightarrow> Inl Assertion_failed
      | Some t \<Rightarrow>
          case Now (chan_env N c) t of (now, t1) \<Rightarrow>
          case GetNextClock t1 now of
            Some timeout \<Rightarrow>
              andThen (ASSERT (c_channel c \<noteq> None)) (\<lambda>_.
              case c_worker_thread c of
                None \<Rightarrow> Inl Null_pointer
              | Some _ \<Rightarrow>
                  let c1 = (if clear then c\<lparr>q_clock := []\<rparr> else c) in
                  Inr (c1\<lparr>c_tcp := Some t1, q_clock := q_clock c1 @ [max timeout 0]\<rparr>))
          | None \<Rightarrow>
              let c1 = c\<lparr>c_tcp := None, c_ready_to_connect := False\<rparr> in
              Inr (if c_channel c1 \<noteq> None then c1\<lparr>q_destroychannel := Suc (q_destroychannel c1)\<rparr> else c1))"

definition Chan_CheckDestroy :: "Chan \<Rightarrow> Chan" where
  "Chan_CheckDestroy c =
     (if c_worker_thread c \<noteq> None \<or> c_stream c then c else c\<lparr>q_destroy := Suc (q_destroy c)\<rparr>)"

subsection \<open>Methods of the signalling thread\<close>

definition new_Chan :: "thread \<Rightarrow> thread \<Rightarrow> SessionView \<Rightarrow> Chan exec" where
  "new_Chan cur stream_thread session =
     andThen (ASSERT (cur = sess_signaling_thread session)) (\<lambda>_.
     Inr \<lparr>c_signal_thread = sess_signaling_thread session, c_worker_thread = None, c_stream_thread = stream_thread,
       c_session = Some session, c_channel = None, c_component = 0, c_content_name = [], c_channel_name = [],
       c_tcp = None, c_stream = False, c_stream_readable = False, c_pending_read_event = False,
       c_ready_to_connect = False, q_clock = [], q_purge = 0, q_event = [], q_destroychannel = 0, q_destroy = 0,
       x_signalled = [], x_closed = 0, x_requested = []\<rparr>)"

definition delete_Chan :: "thread \<Rightarrow> Chan \<Rightarrow> unit exec" where
  "delete_Chan cur c =
     andThen (ASSERT (cur = c_signal_thread c)) (\<lambda>_.
     andThen (ASSERT (c_worker_thread c = None)) (\<lambda>_.
     andThen (ASSERT (c_session c = None)) (\<lambda>_.
     andThen (ASSERT (c_channel c = None)) (\<lambda>_.
     andThen (ASSERT (\<not> c_stream c)) (\<lambda>_.
     ASSERT (c_tcp c = None))))))"

text \<open>\<open>channel\<close> is the transport channel that \<open>CreateChannel\<close> returns.\<close>

definition Chan_Connect :: "Net \<Rightarrow> thread \<Rightarrow> string \<Rightarrow> string \<Rightarrow> int \<Rightarrow> nat \<Rightarrow> Chan \<Rightarrow> (bool \<times> Chan) exec" where
  "Chan_Connect N cur content_name channel_name component channel c =
     andThen (ASSERT (cur = c_signal_thread c)) (\<lambda>_.
     if c_channel c \<noteq> None then Inr (False, c)
     else
       case c_session c of
         None \<Rightarrow> Inl Assertion_failed
       | Some session \<Rightarrow>
           let c1 = c\<lparr>c_worker_thread := Some (sess_worker_thread session), c_content_name := content_name,
                      c_channel := Some channel, c_component := component, c_channel_name := channel_name\<rparr> in
           andThen (ASSERT (c_tcp c1 = None)) (\<lambda>_.
           let c2 = c1\<lparr>c_tcp := Some (new_PseudoTcp (chan_env N c1) 0)\<rparr> in
           Inr (True, if sess_initiator session then c2\<lparr>c_ready_to_connect := True\<rparr> else c2)))"

definition Chan_GetStream :: "thread \<Rightarrow> Chan \<Rightarrow> Chan exec" where
  "Chan_GetStream cur c =
     andThen (ASSERT (cur = c_signal_thread c)) (\<lambda>_.
     andThen (ASSERT (c_session c \<noteq> None)) (\<lambda>_.
     Inr (if \<not> c_stream c then c\<lparr>c_stream := True\<rparr> else c)))"

definition Chan_OnChannelDestroyed :: "Net \<Rightarrow> thread \<Rightarrow> nat \<Rightarrow> Chan \<Rightarrow> Chan exec" where
  "Chan_OnChannelDestroyed N cur channel c =
     andThen (ASSERT (cur = c_signal_thread c)) (\<lambda>_.
     andThen (ASSERT (Some channel = c_channel c)) (\<lambda>_.
     case c_worker_thread c of
       None \<Rightarrow> Inl Null_pointer
     | Some _ \<Rightarrow>
         let c1 = c\<lparr>q_destroychannel := 0, q_clock := [], q_purge := Suc (q_purge c), c_session := None, c_channel := None\<rparr>;
             c2 = (if c_stream c1 \<and> (case c_tcp c1 of None \<Rightarrow> True | Some t \<Rightarrow> m_state t \<noteq> TCP_CLOSED)
                   then post_event {SE_CLOSE} 0 c1 else c1)
         in andThen (case c_tcp c2 of
                       None \<Rightarrow> Inr c2
                     | Some t \<Rightarrow> Chan_AdjustClock N True (c2\<lparr>c_tcp := Some (Close t True)\<rparr>))
            (\<lambda>c3. Inr (c3\<lparr>x_closed := Suc (x_closed c3)\<rparr>))))"

definition Chan_OnSessionTerminate :: "SessionView \<Rightarrow> Chan \<Rightarrow> Chan exec" where
  "Chan_OnSessionTerminate session c =
     (if c_session c \<noteq> None \<and> c_channel c = None then
        andThen (ASSERT (Some session = c_session c)) (\<lambda>_.
        andThen (ASSERT (c_worker_thread c = None)) (\<lambda>_.
        andThen (ASSERT (c_tcp c = None)) (\<lambda>_.
        let c1 = c\<lparr>c_session := None\<rparr> in
        Inr (if c_stream c1 then post_event {SE_CLOSE} (- 1) c1 else c1))))
      else Inr c)"

definition Chan_GetOption :: "thread \<Rightarrow> TcpOption \<Rightarrow> Chan \<Rightarrow> int exec" where
  "Chan_GetOption cur opt c =
     andThen (ASSERT (cur = c_signal_thread c)) (\<lambda>_.
     case c_tcp c of None \<Rightarrow> Inl Assertion_failed | Some t \<Rightarrow> Inr (GetOption t opt))"

definition Chan_SetOption :: "Net \<Rightarrow> thread \<Rightarrow> TcpOption \<Rightarrow> int \<Rightarrow> Chan \<Rightarrow> Chan exec" where
  "Chan_SetOption N cur opt value c =
     andThen (ASSERT (cur = c_signal_thread c)) (\<lambda>_.
     andThen (ASSERT (c_tcp c \<noteq> None)) (\<lambda>_.
     andThen (call_tcp N cur (\<lambda>E t. andThen (SetOption E t opt value) (\<lambda>t1. Inr ((), t1))) c) (\<lambda>(_, c1). Inr c1)))"

subsection \<open>Methods of the thread of the stream\<close>

definition Chan_GetState :: "thread \<Rightarrow> Chan \<Rightarrow> StreamState exec" where
  "Chan_GetState cur c =
     andThen (ASSERT (c_stream c \<and> cur = c_stream_thread c)) (\<lambda>_.
     Inr (if c_session c = None then SS_CLOSED
          else case c_tcp c of
                 None \<Rightarrow> SS_OPENING
               | Some t \<Rightarrow>
                   case m_state t of
                     TCP_LISTEN \<Rightarrow> SS_OPENING
                   | TCP_SYN_SENT \<Rightarrow> SS_OPENING
                   | TCP_SYN_RECEIVED \<Rightarrow> SS_OPENING
                   | TCP_ESTABLISHED \<Rightarrow> SS_OPEN
                   | TCP_CLOSED \<Rightarrow> SS_CLOSED))"

text \<open>The results are the \<open>StreamResult\<close>, the bytes read or the number of bytes written, and the error that is stored.\<close>

definition Chan_Read :: "Net \<Rightarrow> thread \<Rightarrow> nat \<Rightarrow> Chan \<Rightarrow> (StreamResult \<times> byte list \<times> int option \<times> Chan) exec" where
  "Chan_Read N cur buffer_len c =
     andThen (ASSERT (c_stream c \<and> cur = c_stream_thread c)) (\<lambda>_.
     if c_tcp c = None then Inr (SR_BLOCK, [], None, c)
     else
       andThen (call_tcp N cur (\<lambda>E t. andThen (Recv E t buffer_len) (\<lambda>(n, bs, t1). Inr ((n, bs), t1)))
                 (c\<lparr>c_stream_readable := False\<rparr>))
       (\<lambda>((result, bs), c1).
         if result > 0 then
           let c2 = c1\<lparr>c_stream_readable := True\<rparr> in
           Inr (SR_SUCCESS, bs, None,
                if \<not> c_pending_read_event c2 then post_event {SE_READ} 0 (c2\<lparr>c_pending_read_event := True\<rparr>) else c2)
         else
           case c_tcp c1 of
             None \<Rightarrow> Inl Null_pointer
           | Some t \<Rightarrow>
               if IsBlockingError (GetError t) then Inr (SR_BLOCK, [], None, c1)
               else Inr (SR_ERROR, [], Some (GetError t), c1)))"

definition Chan_Write :: "Net \<Rightarrow> thread \<Rightarrow> byte list \<Rightarrow> Chan \<Rightarrow> (StreamResult \<times> nat \<times> int option \<times> Chan) exec" where
  "Chan_Write N cur data c =
     andThen (ASSERT (c_stream c \<and> cur = c_stream_thread c)) (\<lambda>_.
     if c_tcp c = None then Inr (SR_BLOCK, 0, None, c)
     else
       andThen (call_tcp N cur (\<lambda>E t. Send E t data) c)
       (\<lambda>(result, c1).
         if result > 0 then Inr (SR_SUCCESS, nat result, None, c1)
         else
           case c_tcp c1 of
             None \<Rightarrow> Inl Null_pointer
           | Some t \<Rightarrow>
               if IsBlockingError (GetError t) then Inr (SR_BLOCK, 0, None, c1)
               else Inr (SR_ERROR, 0, Some (GetError t), c1)))"

definition Chan_Close :: "Net \<Rightarrow> thread \<Rightarrow> Chan \<Rightarrow> Chan exec" where
  "Chan_Close N cur c =
     andThen (ASSERT (c_stream c \<and> cur = c_stream_thread c)) (\<lambda>_.
     let c1 = c\<lparr>c_stream := False, q_event := []\<rparr> in
     case c_tcp c1 of
       Some t \<Rightarrow> Chan_AdjustClock N True (c1\<lparr>c_tcp := Some (Close t False)\<rparr>)
     | None \<Rightarrow> Inr (Chan_CheckDestroy c1))"

subsection \<open>Methods of the worker thread\<close>

definition Chan_OnChannelWritableState :: "Net \<Rightarrow> thread \<Rightarrow> nat \<Rightarrow> bool \<Rightarrow> Chan \<Rightarrow> Chan exec" where
  "Chan_OnChannelWritableState N cur channel writable c =
     andThen (worker_current cur c) (\<lambda>_.
     if c_channel c = None then Inr c
     else
       andThen (ASSERT (Some channel = c_channel c)) (\<lambda>_.
       if c_tcp c = None then Inr c
       else if \<not> c_ready_to_connect c \<or> \<not> writable then Inr c
       else
         andThen (call_tcp N cur (\<lambda>E t. Connect E t) (c\<lparr>c_ready_to_connect := False\<rparr>)) (\<lambda>(_, c1).
         Chan_AdjustClock N True c1)))"

definition Chan_OnChannelRead :: "Net \<Rightarrow> thread \<Rightarrow> nat \<Rightarrow> byte list \<Rightarrow> Chan \<Rightarrow> Chan exec" where
  "Chan_OnChannelRead N cur channel data c =
     andThen (worker_current cur c) (\<lambda>_.
     if c_channel c = None then Inr c
     else
       andThen (ASSERT (Some channel = c_channel c)) (\<lambda>_.
       if c_tcp c = None then Inr c
       else
         andThen (call_tcp N cur (\<lambda>E t. NotifyPacket E t data) c) (\<lambda>(_, c1).
         Chan_AdjustClock N True c1)))"

text \<open>\<open>sock\<close> is \<open>None\<close> when no socket can be created, otherwise the results of \<open>Connect\<close> and
  \<open>EstimateMTU\<close> and the value the latter leaves in \<open>mtu\<close>.\<close>

definition Chan_OnChannelConnectionChanged ::
  "Net \<Rightarrow> thread \<Rightarrow> nat \<Rightarrow> (int \<times> int \<times> uint16) option \<Rightarrow> Chan \<Rightarrow> Chan exec" where
  "Chan_OnChannelConnectionChanged N cur channel sock c =
     andThen (worker_current cur c) (\<lambda>_.
     if c_channel c = None then Inr c
     else
       andThen (ASSERT (Some channel = c_channel c)) (\<lambda>_.
       if c_tcp c = None then Inr c
       else
         let mtu = (case sock of
                      None \<Rightarrow> 1280
                    | Some (connected, estimated, value) \<Rightarrow> if connected < 0 then 1280 else value)
         in andThen (call_tcp N cur (\<lambda>E t. Inr ((), NotifyMTU t mtu)) c) (\<lambda>(_, c1).
            Chan_AdjustClock N True c1)))"

subsection \<open>Messages\<close>

text \<open>The result is \<open>None\<close> when the object has deleted itself.\<close>

fun Chan_OnMessage :: "Net \<Rightarrow> thread \<Rightarrow> chan_message \<Rightarrow> Chan \<Rightarrow> Chan option exec" where
  "Chan_OnMessage N cur MSG_WK_CLOCK c =
     andThen (worker_current cur c) (\<lambda>_.
     case c_tcp c of
       None \<Rightarrow> Inr (Some c)
     | Some t \<Rightarrow>
         andThen (call_tcp N cur (\<lambda>E t. case Now E t of (now, t1) \<Rightarrow> andThen (NotifyClock E t1 now) (\<lambda>t2. Inr ((), t2))) c)
         (\<lambda>(_, c1). andThen (Chan_AdjustClock N False c1) (\<lambda>c2. Inr (Some c2))))"
| "Chan_OnMessage N cur MSG_WK_PURGE c =
     andThen (worker_current cur c) (\<lambda>_.
     andThen (ASSERT (c_session c = None)) (\<lambda>_.
     andThen (ASSERT (c_channel c = None)) (\<lambda>_.
     Inr (Some (Chan_CheckDestroy (c\<lparr>c_worker_thread := None\<rparr>))))))"
| "Chan_OnMessage N cur (MSG_ST_EVENT event err) c =
     andThen (ASSERT (cur = c_stream_thread c)) (\<lambda>_.
     andThen (ASSERT (c_stream c)) (\<lambda>_.
     let c1 = (if SE_READ \<in> event then c\<lparr>c_pending_read_event := False\<rparr> else c) in
     Inr (Some (c1\<lparr>x_signalled := x_signalled c1 @ [(event, err)]\<rparr>))))"
| "Chan_OnMessage N cur MSG_SI_DESTROYCHANNEL c =
     andThen (ASSERT (cur = c_signal_thread c)) (\<lambda>_.
     andThen (ASSERT (c_session c \<noteq> None)) (\<lambda>_.
     andThen (ASSERT (c_channel c \<noteq> None)) (\<lambda>_.
     Inr (Some (c\<lparr>x_requested := x_requested c @ [(c_content_name c, c_component c)]\<rparr>)))))"
| "Chan_OnMessage N cur MSG_SI_DESTROY c =
     andThen (ASSERT (cur = c_signal_thread c)) (\<lambda>_.
     andThen (delete_Chan cur c) (\<lambda>_. Inr None))"

subsection \<open>The stream object\<close>

text \<open>\<open>parent\<close> tells whether the pointer to the channel \<open>c\<close> is set.\<close>

definition IS_GetState :: "thread \<Rightarrow> bool \<Rightarrow> Chan \<Rightarrow> StreamState exec" where
  "IS_GetState cur parent c = (if \<not> parent then Inr SS_CLOSED else Chan_GetState cur c)"

definition IS_Read ::
  "Net \<Rightarrow> thread \<Rightarrow> bool \<Rightarrow> nat \<Rightarrow> Chan \<Rightarrow> (StreamResult \<times> byte list \<times> int option \<times> Chan) exec" where
  "IS_Read N cur parent buffer_len c =
     (if \<not> parent then Inr (SR_ERROR, [], Some ENOTCONN, c) else Chan_Read N cur buffer_len c)"

definition IS_Write ::
  "Net \<Rightarrow> thread \<Rightarrow> bool \<Rightarrow> byte list \<Rightarrow> Chan \<Rightarrow> (StreamResult \<times> nat \<times> int option \<times> Chan) exec" where
  "IS_Write N cur parent data c =
     (if \<not> parent then Inr (SR_ERROR, 0, Some ENOTCONN, c) else Chan_Write N cur data c)"

definition IS_Close :: "Net \<Rightarrow> thread \<Rightarrow> bool \<Rightarrow> Chan \<Rightarrow> (bool \<times> Chan) exec" where
  "IS_Close N cur parent c =
     (if \<not> parent then Inr (False, c) else andThen (Chan_Close N cur c) (\<lambda>c1. Inr (False, c1)))"

subsection \<open>What a call of the connection changes\<close>

text \<open>The answers of the transport channel that \<open>TcpWritePacket\<close> knows.\<close>

definition answer_ok :: "int \<times> int \<Rightarrow> bool" where
  "answer_ok a \<longleftrightarrow> fst a > 0 \<or> IsBlockingError (snd a) \<or> snd a = EMSGSIZE"

definition answers_ok :: "Net \<Rightarrow> bool" where
  "answers_ok N \<longleftrightarrow> (\<forall>k pkt. answer_ok (n_send N k pkt))"

definition read_queued :: "Chan \<Rightarrow> bool" where
  "read_queued c \<longleftrightarrow> (\<exists>e \<in> set (q_event c). SE_READ \<in> fst e)"

text \<open>Events are only added for an open stream, and a pending read event is in the queue when it was there before.\<close>

definition stream_step :: "Chan \<Rightarrow> Chan \<Rightarrow> bool" where
  "stream_step c c' \<longleftrightarrow>
     (\<exists>a b evs. c' = c\<lparr>c_stream_readable := a, c_pending_read_event := b, q_event := q_event c @ evs\<rparr> \<and>
        (\<not> c_stream c \<longrightarrow> evs = [] \<and> b = c_pending_read_event c) \<and>
        (b \<longrightarrow> c_pending_read_event c \<or> (\<exists>e \<in> set evs. SE_READ \<in> fst e)))"

lemma stream_stepI:
  assumes "c' = c\<lparr>c_stream_readable := a, c_pending_read_event := b, q_event := q_event c @ evs\<rparr>"
    and "\<not> c_stream c \<Longrightarrow> evs = [] \<and> b = c_pending_read_event c"
    and "b \<Longrightarrow> c_pending_read_event c \<or> (\<exists>e \<in> set evs. SE_READ \<in> fst e)"
  shows "stream_step c c'"
  using assms unfolding stream_step_def by blast

lemma stream_step_refl [simp]: "stream_step c c"
  by (rule stream_stepI [where a = "c_stream_readable c" and b = "c_pending_read_event c" and evs = "[]"]) simp_all

lemma stream_step_trans:
  assumes "stream_step c c1" and "stream_step c1 c2"
  shows "stream_step c c2"
proof -
  obtain a b evs where 1: "c1 = c\<lparr>c_stream_readable := a, c_pending_read_event := b, q_event := q_event c @ evs\<rparr>"
    "\<not> c_stream c \<longrightarrow> evs = [] \<and> b = c_pending_read_event c" "b \<longrightarrow> c_pending_read_event c \<or> (\<exists>e \<in> set evs. SE_READ \<in> fst e)"
    using assms(1) unfolding stream_step_def by blast
  obtain a' b' evs' where 2: "c2 = c1\<lparr>c_stream_readable := a', c_pending_read_event := b', q_event := q_event c1 @ evs'\<rparr>"
    "\<not> c_stream c1 \<longrightarrow> evs' = [] \<and> b' = c_pending_read_event c1"
    "b' \<longrightarrow> c_pending_read_event c1 \<or> (\<exists>e \<in> set evs'. SE_READ \<in> fst e)"
    using assms(2) unfolding stream_step_def by blast
  show ?thesis
    by (rule stream_stepI [where a = a' and b = b' and evs = "evs @ evs'"]) (use 1 2 in auto)
qed

lemma stream_step_readable: "stream_step c (c\<lparr>c_stream_readable := a\<rparr>)"
  by (rule stream_stepI [where a = a and b = "c_pending_read_event c" and evs = "[]"]) simp_all

lemma stream_step_same:
  assumes "stream_step c c'"
  shows "c_worker_thread c' = c_worker_thread c" "c_channel c' = c_channel c" "c_tcp c' = c_tcp c" "c_stream c' = c_stream c"
    "c_session c' = c_session c" "c_signal_thread c' = c_signal_thread c" "c_stream_thread c' = c_stream_thread c"
  using assms by (auto simp: stream_step_def)

text \<open>A notification that comes on the worker thread is handled.\<close>

lemma notification_step:
  assumes "c_worker_thread c = Some cur"
  shows "\<exists>c'. Chan_OnTcpOpen cur c = Inr c' \<and> stream_step c c'" "\<exists>c'. Chan_OnTcpReadable cur c = Inr c' \<and> stream_step c c'"
    "\<exists>c'. Chan_OnTcpWriteable cur c = Inr c' \<and> stream_step c c'" "\<exists>c'. Chan_OnTcpClosed cur err c = Inr c' \<and> stream_step c c'"
proof -
  note d = assms worker_current_def post_event_def
  show "\<exists>c'. Chan_OnTcpOpen cur c = Inr c' \<and> stream_step c c'"
    by (cases "c_stream c") (auto simp: d Chan_OnTcpOpen_def
        intro!: stream_stepI [where a = True and b = True and evs = "[({SE_OPEN, SE_READ, SE_WRITE}, 0)]"])
  show "\<exists>c'. Chan_OnTcpReadable cur c = Inr c' \<and> stream_step c c'"
    by (cases "c_stream c"; cases "c_pending_read_event c") (auto simp: d Chan_OnTcpReadable_def stream_step_readable
        intro!: stream_stepI [where a = True and b = True and evs = "[({SE_READ}, 0)]"])
  show "\<exists>c'. Chan_OnTcpWriteable cur c = Inr c' \<and> stream_step c c'"
    by (cases "c_stream c") (auto simp: d Chan_OnTcpWriteable_def
        intro!: stream_stepI [where a = "c_stream_readable c" and b = "c_pending_read_event c" and evs = "[({SE_WRITE}, 0)]"])
  show "\<exists>c'. Chan_OnTcpClosed cur err c = Inr c' \<and> stream_step c c'"
    by (cases "c_stream c") (auto simp: d Chan_OnTcpClosed_def
        intro!: stream_stepI [where a = "c_stream_readable c" and b = "c_pending_read_event c" and evs = "[({SE_CLOSE}, sint err)]"])
qed

lemma raise_events_step:
  assumes "c_worker_thread c = Some cur \<or> es = []"
  shows "\<exists>c'. raise_events cur es c = Inr c' \<and> stream_step c c'"
  using assms
proof (induction es arbitrary: c)
  case Nil
  then show ?case by simp
next
  case (Cons e es)
  obtain c1 where c1: "raise_events cur (e # es) c = raise_events cur es c1" "stream_step c c1"
    using notification_step(1-3) [of c cur] notification_step(4) [of c cur "case e of OnTcpClosed x \<Rightarrow> x | _ \<Rightarrow> 0"]
      Cons.prems by (cases e) fastforce+
  have "c_worker_thread c1 = Some cur" using stream_step_same(1) [OF c1(2)] Cons.prems by simp
  from Cons.IH [OF disjI1 [OF this]] show ?case using c1 stream_step_trans by auto
qed

lemma TcpWritePacket_ok:
  "c_channel c \<noteq> None \<Longrightarrow> answer_ok a \<Longrightarrow> \<exists>r. Chan_TcpWritePacket c a = Inr r \<and> r \<noteq> WR_FAIL"
  by (cases a) (auto simp: Chan_TcpWritePacket_def answer_ok_def)

lemma check_writes_ok: "c_channel c \<noteq> None \<Longrightarrow> answers_ok N \<Longrightarrow> check_writes N c k ps = Inr ()"
proof (induction ps arbitrary: k)
  case (Cons p ps)
  then show ?case using TcpWritePacket_ok [of c "n_send N k (fst p)"] by (auto simp: answers_ok_def)
qed simp

definition no_events :: "(Env \<Rightarrow> PseudoTcp \<Rightarrow> ('a \<times> PseudoTcp) exec) \<Rightarrow> bool" where
  "no_events f \<longleftrightarrow> (\<forall>E t r t'. f E t = Inr (r, t') \<longrightarrow> x_events t' = x_events t)"

lemma call_tcp_step:
  assumes "c_tcp c = Some t" and "c_channel c \<noteq> None" and "answers_ok N" and "c_worker_thread c = Some cur \<or> no_events f"
    and "f (chan_env N c) (t\<lparr>x_events := []\<rparr>) = Inr (r, t1)"
  shows "\<exists>c'. call_tcp N cur f c = Inr (r, c') \<and> stream_step (c\<lparr>c_tcp := Some (t1\<lparr>x_events := []\<rparr>)\<rparr>) c'"
proof -
  have "c_worker_thread c = Some cur \<or> x_events t1 = []"
    using assms(4,5) by (fastforce simp: no_events_def)
  then have "c_worker_thread (c\<lparr>c_tcp := Some (t1\<lparr>x_events := []\<rparr>)\<rparr>) = Some cur \<or> x_events t1 = []" by simp
  from raise_events_step [OF this] show ?thesis
    using assms(1,5) check_writes_ok [OF assms(2,3)] by (auto simp: call_tcp_def)
qed

lemma call_tcp_fault:
  assumes "c_tcp c = Some t" and "f (chan_env N c) (t\<lparr>x_events := []\<rparr>) = Inl e"
  shows "call_tcp N cur f c = Inl e"
  using assms by (simp add: call_tcp_def)

lemma Recv_no_events: "no_events (\<lambda>E t. andThen (Recv E t n) (\<lambda>(k, bs, t1). Inr ((k, bs), t1)))"
  by (auto simp: no_events_def Recv_def andThen_eq_Inr_iff Let_def dest!: attemptSend_same(19) split: if_splits prod.splits)

lemma Send_no_events: "no_events (\<lambda>E t. Send E t data)"
  by (auto simp: no_events_def Send_def andThen_eq_Inr_iff dest!: attemptSend_same(19) queue_frame split: if_splits)

lemma SetOption_no_events: "no_events (\<lambda>E t. andThen (SetOption E t opt v) (\<lambda>t1. Inr ((), t1)))"
  by (auto simp: no_events_def SetOption_def resizeSendBuffer_def resizeReceiveBuffer_def andThen_eq_Inr_iff Let_def
      split: TcpOption.splits if_splits prod.splits)

subsection \<open>The clock\<close>

text \<open>The two outcomes of \<open>AdjustClock\<close>: a new clock message, or the end of the connection.\<close>

definition clock_step :: "Chan \<Rightarrow> Chan \<Rightarrow> bool" where
  "clock_step c c' \<longleftrightarrow>
     (\<exists>t q. c' = c\<lparr>c_tcp := Some t, q_clock := q\<rparr>) \<or>
     c' = c\<lparr>c_tcp := None, c_ready_to_connect := False, q_destroychannel := Suc (q_destroychannel c)\<rparr>"

lemma AdjustClock_step:
  assumes "c_tcp c = Some t" and "c_channel c \<noteq> None" and "c_worker_thread c \<noteq> None"
  shows "\<exists>c'. Chan_AdjustClock N clear c = Inr c' \<and> clock_step c c'"
proof -
  obtain now t1 where n: "Now (chan_env N c) t = (now, t1)" by (metis surj_pair)
  show ?thesis
  proof (cases "GetNextClock t1 now")
    case None
    then show ?thesis using assms n by (simp add: Chan_AdjustClock_def clock_step_def Let_def)
  next
    case (Some timeout)
    let ?c = "c\<lparr>c_tcp := Some t1, q_clock := (if clear then [] else q_clock c) @ [max timeout 0]\<rparr>"
    have "Chan_AdjustClock N clear c = Inr ?c" using Some assms n by (auto simp: Chan_AdjustClock_def Let_def)
    moreover have "clock_step c ?c" unfolding clock_step_def by blast
    ultimately show ?thesis by blast
  qed
qed

lemma AdjustClock_forced:
  assumes "c_tcp c = Some t" and "m_shutdown t = SD_FORCEFUL" and "c_channel c = None"
  shows "Chan_AdjustClock N clear c = Inr (c\<lparr>c_tcp := None, c_ready_to_connect := False\<rparr>)"
  using assms by (simp add: Chan_AdjustClock_def Now_def GetNextClock_def clock_check_def)

subsection \<open>The life of a channel\<close>

text \<open>The calls that reach the object, each on its thread. The transport channel signals with its own identity. \<open>Op_Clock\<close> delivers
  any of the pending clock messages, the other deliveries are in the order of posting. The second component is
  the pointer \<open>parent_\<close> of the stream.\<close>

datatype (discs_sels) chan_op =
    Op_Connect string string int nat
  | Op_GetStream
  | Op_Destroyed nat
  | Op_Terminate SessionView
  | Op_SetOption TcpOption int
  | Op_Read nat
  | Op_Write "byte list"
  | Op_Close
  | Op_Writable nat bool
  | Op_Packet nat "byte list"
  | Op_Route nat "(int \<times> int \<times> uint16) option"
  | Op_Clock nat
  | Op_Purge
  | Op_Event
  | Op_DestroyChannel
  | Op_Destroy

definition worker :: "Chan \<Rightarrow> thread" where
  "worker c = (case c_worker_thread c of None \<Rightarrow> 0 | Some w \<Rightarrow> w)"

definition keep :: "bool \<Rightarrow> Chan exec \<Rightarrow> (Chan option \<times> bool) exec" where
  "keep parent m = andThen m (\<lambda>c. Inr (Some c, parent))"

definition told :: "bool \<Rightarrow> Chan option exec \<Rightarrow> (Chan option \<times> bool) exec" where
  "told parent m = andThen m (\<lambda>r. Inr (r, parent))"

fun chan_run :: "Net \<Rightarrow> chan_op \<Rightarrow> Chan \<Rightarrow> bool \<Rightarrow> (Chan option \<times> bool) exec" where
  "chan_run N (Op_Connect content name cpt k) c p =
     keep p (andThen (Chan_Connect N (c_signal_thread c) content name cpt k c) (\<lambda>(_, c1). Inr c1))"
| "chan_run N Op_GetStream c p = keep True (Chan_GetStream (c_signal_thread c) c)"
| "chan_run N (Op_Destroyed k) c p = keep p (Chan_OnChannelDestroyed N (c_signal_thread c) k c)"
| "chan_run N (Op_Terminate s) c p = keep p (Chan_OnSessionTerminate s c)"
| "chan_run N (Op_SetOption opt v) c p = keep p (Chan_SetOption N (c_signal_thread c) opt v c)"
| "chan_run N (Op_Read n) c p = keep p (andThen (IS_Read N (c_stream_thread c) p n c) (\<lambda>(_, _, _, c1). Inr c1))"
| "chan_run N (Op_Write data) c p = keep p (andThen (IS_Write N (c_stream_thread c) p data c) (\<lambda>(_, _, _, c1). Inr c1))"
| "chan_run N Op_Close c p = andThen (IS_Close N (c_stream_thread c) p c) (\<lambda>(p1, c1). Inr (Some c1, p1))"
| "chan_run N (Op_Writable k w) c p = keep p (Chan_OnChannelWritableState N (worker c) k w c)"
| "chan_run N (Op_Packet k data) c p = keep p (Chan_OnChannelRead N (worker c) k data c)"
| "chan_run N (Op_Route k sock) c p = keep p (Chan_OnChannelConnectionChanged N (worker c) k sock c)"
| "chan_run N (Op_Clock i) c p =
     told p (Chan_OnMessage N (worker c) MSG_WK_CLOCK (c\<lparr>q_clock := take i (q_clock c) @ drop (Suc i) (q_clock c)\<rparr>))"
| "chan_run N Op_Purge c p = told p (Chan_OnMessage N (worker c) MSG_WK_PURGE (c\<lparr>q_purge := q_purge c - 1\<rparr>))"
| "chan_run N Op_Event c p =
     told p (Chan_OnMessage N (c_stream_thread c) (MSG_ST_EVENT (fst (hd (q_event c))) (snd (hd (q_event c))))
       (c\<lparr>q_event := tl (q_event c)\<rparr>))"
| "chan_run N Op_DestroyChannel c p =
     told p (Chan_OnMessage N (c_signal_thread c) MSG_SI_DESTROYCHANNEL (c\<lparr>q_destroychannel := q_destroychannel c - 1\<rparr>))"
| "chan_run N Op_Destroy c p =
     told p (Chan_OnMessage N (c_signal_thread c) MSG_SI_DESTROY (c\<lparr>q_destroy := q_destroy c - 1\<rparr>))"

text \<open>When a call may happen. The owner connects and takes the stream while it has the session, takes the stream once, and sets options
  of a connected channel. The transport channel signals until the worker thread is purged. The stream is closed by its
  owner, but not between the construction and the connection.\<close>

fun chan_enabled :: "chan_op list \<Rightarrow> Chan \<Rightarrow> bool \<Rightarrow> chan_op \<Rightarrow> bool" where
  "chan_enabled ops c p (Op_Connect content name cpt k) \<longleftrightarrow> c_session c \<noteq> None"
| "chan_enabled ops c p Op_GetStream \<longleftrightarrow> c_session c \<noteq> None \<and> Op_Close \<notin> set ops"
| "chan_enabled ops c p (Op_Destroyed k) \<longleftrightarrow> c_channel c = Some k"
| "chan_enabled ops c p (Op_Terminate s) \<longleftrightarrow> c_session c = None \<or> c_session c = Some s"
| "chan_enabled ops c p (Op_SetOption opt v) \<longleftrightarrow> c_tcp c \<noteq> None"
| "chan_enabled ops c p (Op_Read n) \<longleftrightarrow> p"
| "chan_enabled ops c p (Op_Write data) \<longleftrightarrow> p"
| "chan_enabled ops c p Op_Close \<longleftrightarrow> p \<and> (c_session c = None \<or> c_channel c \<noteq> None)"
| "chan_enabled ops c p (Op_Writable k w) \<longleftrightarrow> c_worker_thread c \<noteq> None \<and> c_channel c \<in> {None, Some k}"
| "chan_enabled ops c p (Op_Packet k data) \<longleftrightarrow> c_worker_thread c \<noteq> None \<and> c_channel c \<in> {None, Some k}"
| "chan_enabled ops c p (Op_Route k sock) \<longleftrightarrow> c_worker_thread c \<noteq> None \<and> c_channel c \<in> {None, Some k}"
| "chan_enabled ops c p (Op_Clock i) \<longleftrightarrow> i < length (q_clock c)"
| "chan_enabled ops c p Op_Purge \<longleftrightarrow> q_purge c > 0"
| "chan_enabled ops c p Op_Event \<longleftrightarrow> q_event c \<noteq> []"
| "chan_enabled ops c p Op_DestroyChannel \<longleftrightarrow> q_destroychannel c > 0"
| "chan_enabled ops c p Op_Destroy \<longleftrightarrow> q_destroy c > 0"

inductive chan_life :: "Net \<Rightarrow> chan_op list \<Rightarrow> Chan option \<Rightarrow> bool \<Rightarrow> bool" for N where
  created: "new_Chan cur st session = Inr c \<Longrightarrow> chan_life N [] (Some c) False"
| called: "chan_life N ops (Some c) p \<Longrightarrow> chan_enabled ops c p x \<Longrightarrow> chan_run N x c p = Inr (r, p1) \<Longrightarrow>
    chan_life N (ops @ [x]) r p1"

inductive_cases chan_life_NilE: "chan_life N [] r p"

text \<open>The lifetimes of the members, as the comment before the constructor describes them, are four phases: before the
  connection, connected, waiting for the purge, and without connection.\<close>

definition fresh :: "Chan \<Rightarrow> bool" where
  "fresh c \<longleftrightarrow> c_session c \<noteq> None \<and> c_channel c = None \<and> c_worker_thread c = None \<and> c_tcp c = None \<and>
     q_purge c = 0 \<and> q_clock c = [] \<and> q_destroychannel c = 0 \<and> q_destroy c = 0"

definition connected :: "Chan \<Rightarrow> bool" where
  "connected c \<longleftrightarrow> c_session c \<noteq> None \<and> c_channel c \<noteq> None \<and> c_worker_thread c \<noteq> None \<and> q_purge c = 0 \<and> q_destroy c = 0"

definition purging :: "Chan \<Rightarrow> bool" where
  "purging c \<longleftrightarrow> c_session c = None \<and> c_channel c = None \<and> c_worker_thread c \<noteq> None \<and> c_tcp c = None \<and>
     q_purge c = 1 \<and> q_clock c = [] \<and> q_destroychannel c = 0 \<and> q_destroy c = 0"

definition gone :: "Chan \<Rightarrow> bool" where
  "gone c \<longleftrightarrow> c_session c = None \<and> c_channel c = None \<and> c_worker_thread c = None \<and> c_tcp c = None \<and>
     q_purge c = 0 \<and> q_clock c = [] \<and> q_destroychannel c = 0"

lemmas phase_defs = fresh_def connected_def purging_def gone_def

definition stream_inv :: "bool \<Rightarrow> Chan \<Rightarrow> bool \<Rightarrow> bool" where
  "stream_inv closed c p \<longleftrightarrow>
     c_stream c = p \<and> (\<not> p \<longrightarrow> q_event c = []) \<and> (closed \<longrightarrow> \<not> p) \<and> (c_pending_read_event c \<longrightarrow> read_queued c \<or> closed)"

definition was_connected :: "chan_op list \<Rightarrow> bool" where
  "was_connected ops \<longleftrightarrow> (\<exists>x \<in> set ops. is_Op_Connect x)"

text \<open>Without a connection the object has asked for its deletion, unless the stream is open or the channel was
  never used.\<close>

definition end_inv :: "chan_op list \<Rightarrow> Chan \<Rightarrow> bool \<Rightarrow> bool" where
  "end_inv ops c p \<longleftrightarrow>
     (q_destroy c = 1 \<and> \<not> p \<or> q_destroy c = 0 \<and> (p \<or> Op_Close \<notin> set ops \<and> \<not> was_connected ops))"

definition chan_inv :: "chan_op list \<Rightarrow> Chan \<Rightarrow> bool \<Rightarrow> bool" where
  "chan_inv ops c p \<longleftrightarrow>
     stream_inv (Op_Close \<in> set ops) c p \<and> (Op_GetStream \<in> set ops \<longrightarrow> p \<or> Op_Close \<in> set ops) \<and>
     (fresh c \<and> Op_Close \<notin> set ops \<and> \<not> was_connected ops \<or> connected c \<and> was_connected ops \<or> purging c \<or> gone c \<and> end_inv ops c p)"

definition neutral :: "chan_op \<Rightarrow> bool" where
  "neutral x \<longleftrightarrow> x \<noteq> Op_Close \<and> x \<noteq> Op_GetStream \<and> \<not> is_Op_Connect x"

lemma inv_ops: "neutral x \<Longrightarrow> chan_inv (ops @ [x]) c p \<longleftrightarrow> chan_inv ops c p"
  by (auto simp: chan_inv_def end_inv_def was_connected_def neutral_def)

lemma stream_inv_same:
  assumes "stream_inv b c p" and "c_stream c' = c_stream c" and "q_event c' = q_event c"
    and "c_pending_read_event c' = c_pending_read_event c"
  shows "stream_inv b c' p"
  using assms by (simp add: stream_inv_def read_queued_def)

lemma stream_inv_step:
  assumes "stream_inv cl c p" and "stream_step c c'"
  shows "stream_inv cl c' p"
proof -
  obtain a b evs where 1: "c' = c\<lparr>c_stream_readable := a, c_pending_read_event := b, q_event := q_event c @ evs\<rparr>"
    "\<not> c_stream c \<longrightarrow> evs = [] \<and> b = c_pending_read_event c" "b \<longrightarrow> c_pending_read_event c \<or> (\<exists>e \<in> set evs. SE_READ \<in> fst e)"
    using assms(2) unfolding stream_step_def by blast
  have "b \<longrightarrow> read_queued c' \<or> cl"
    using 1(1,3) assms(1) by (auto simp: stream_inv_def read_queued_def)
  then show ?thesis using assms(1) 1(1,2) by (simp add: stream_inv_def)
qed

lemma inv_stream_step:
  assumes "chan_inv ops c p" and "stream_step c c'"
  shows "chan_inv ops c' p"
proof -
  have "fresh c' = fresh c" "connected c' = connected c" "purging c' = purging c" "gone c' = gone c" "end_inv ops c' p = end_inv ops c p"
    using assms(2) by (auto simp: stream_step_def phase_defs end_inv_def)
  then show ?thesis using assms(1) stream_inv_step [OF _ assms(2)] by (simp add: chan_inv_def)
qed

lemma inv_connected: "chan_inv ops c p \<Longrightarrow> c_channel c \<noteq> None \<Longrightarrow> connected c"
  by (auto simp: chan_inv_def phase_defs)

lemma connected_inv:
  assumes "chan_inv ops c p" and "connected c" and "connected c'" and "c_stream c' = c_stream c" and "q_event c' = q_event c"
    and "c_pending_read_event c' = c_pending_read_event c"
  shows "chan_inv ops c' p"
proof -
  have "was_connected ops" using assms(1,2) by (auto simp: chan_inv_def phase_defs)
  then show ?thesis using assms(1,3) stream_inv_same [OF _ assms(4-6)] by (simp add: chan_inv_def)
qed

lemma inv_tcp: "chan_inv ops c p \<Longrightarrow> c_channel c \<noteq> None \<Longrightarrow> chan_inv ops (c\<lparr>c_tcp := Some t\<rparr>) p"
  using connected_inv [of ops c p "c\<lparr>c_tcp := Some t\<rparr>"] inv_connected [of ops c p] by (simp add: connected_def)

lemma clock_step_same:
  assumes "clock_step c c'"
  shows "connected c' = connected c" "c_stream c' = c_stream c" "q_event c' = q_event c"
    "c_pending_read_event c' = c_pending_read_event c" "c_channel c' = c_channel c"
  using assms by (auto simp: clock_step_def connected_def)

lemma inv_clock_step: "chan_inv ops c p \<Longrightarrow> c_channel c \<noteq> None \<Longrightarrow> clock_step c c' \<Longrightarrow> chan_inv ops c' p"
  using connected_inv inv_connected clock_step_same by metis

lemma inv_alive:
  assumes "chan_inv ops c p" and "c_tcp c = Some t"
  shows "c_channel c \<noteq> None" "c_worker_thread c \<noteq> None" "c_worker_thread c = Some (worker c)" "connected c"
  using assms by (auto simp: chan_inv_def worker_def phase_defs)

lemma chan_env_cong: "c_channel c = c_channel c' \<Longrightarrow> chan_env N c = chan_env N c'"
  by (simp add: chan_env_def Chan_TcpWritePacket_def)

text \<open>The operation of the connection that a call makes, and its fault.\<close>

definition tcp_fails :: "Net \<Rightarrow> (Env \<Rightarrow> PseudoTcp \<Rightarrow> ('a \<times> PseudoTcp) exec) \<Rightarrow> Chan \<Rightarrow> fault \<Rightarrow> bool" where
  "tcp_fails N f c e \<longleftrightarrow> (\<exists>t. c_tcp c = Some t \<and> f (chan_env N c) (t\<lparr>x_events := []\<rparr>) = Inl e)"

definition clock_call :: "Env \<Rightarrow> PseudoTcp \<Rightarrow> (unit \<times> PseudoTcp) exec" where
  "clock_call E t = (case Now E t of (now, t1) \<Rightarrow> andThen (NotifyClock E t1 now) (\<lambda>t2. Inr ((), t2)))"

fun chan_tcp_fails :: "Net \<Rightarrow> chan_op \<Rightarrow> Chan \<Rightarrow> fault \<Rightarrow> bool" where
  "chan_tcp_fails N (Op_SetOption opt v) c e = tcp_fails N (\<lambda>E t. andThen (SetOption E t opt v) (\<lambda>t1. Inr ((), t1))) c e"
| "chan_tcp_fails N (Op_Read n) c e = tcp_fails N (\<lambda>E t. andThen (Recv E t n) (\<lambda>(k, bs, t1). Inr ((k, bs), t1))) c e"
| "chan_tcp_fails N (Op_Write data) c e = tcp_fails N (\<lambda>E t. Send E t data) c e"
| "chan_tcp_fails N (Op_Writable k w) c e = tcp_fails N Connect c e"
| "chan_tcp_fails N (Op_Packet k data) c e = tcp_fails N (\<lambda>E t. NotifyPacket E t data) c e"
| "chan_tcp_fails N (Op_Clock i) c e = tcp_fails N clock_call c e"
| "chan_tcp_fails N _ c e = False"

definition chan_good :: "chan_op list \<Rightarrow> Chan option \<Rightarrow> bool \<Rightarrow> bool" where
  "chan_good ops r p \<longleftrightarrow> (case r of None \<Rightarrow> \<not> p | Some c \<Rightarrow> chan_inv ops c p)"

definition outcome :: "Net \<Rightarrow> chan_op list \<Rightarrow> chan_op \<Rightarrow> Chan \<Rightarrow> bool \<Rightarrow> bool" where
  "outcome N ops x c p \<longleftrightarrow>
     (\<exists>r p1. chan_run N x c p = Inr (r, p1) \<and> chan_good (ops @ [x]) r p1) \<or>
     (\<exists>e. chan_run N x c p = Inl e \<and> chan_tcp_fails N x c e)"

lemma outcomeI:
  assumes "chan_run N x c p = Inr (Some c1, p1)" and "chan_inv (ops @ [x]) c1 p1"
  shows "outcome N ops x c p"
  using assms by (auto simp: outcome_def chan_good_def)

lemma keepI: "m = Inr c1 \<Longrightarrow> keep p m = Inr (Some c1, p)"
  by (simp add: keep_def)

text \<open>A call of the connection followed by \<open>AdjustClock\<close>.\<close>

lemma call_adjust:
  assumes inv: "chan_inv ops c p" and t: "c_tcp c = Some t" and N: "answers_ok N"
  shows "(\<exists>c1. andThen (call_tcp N (worker c) f c) (\<lambda>(_, c1). Chan_AdjustClock N b c1) = Inr c1 \<and> chan_inv ops c1 p) \<or>
    (\<exists>e. andThen (call_tcp N (worker c) f c) (\<lambda>(_, c1). Chan_AdjustClock N b c1) = Inl e \<and> tcp_fails N f c e)"
proof (cases "f (chan_env N c) (t\<lparr>x_events := []\<rparr>)")
  case (Inl e)
  then show ?thesis using call_tcp_fault [where f = f, OF t Inl, of "worker c"] t by (auto simp: tcp_fails_def)
next
  case (Inr a)
  obtain r t1 where a: "f (chan_env N c) (t\<lparr>x_events := []\<rparr>) = Inr (r, t1)" using Inr by (cases a) simp
  note al = inv_alive [OF inv t]
  let ?c = "c\<lparr>c_tcp := Some (t1\<lparr>x_events := []\<rparr>)\<rparr>"
  obtain c1 where c1: "call_tcp N (worker c) f c = Inr (r, c1)" "stream_step ?c c1"
    using call_tcp_step [where f = f and cur = "worker c", OF t al(1) N disjI1 [OF al(3)] a] by blast
  note s = stream_step_same [OF c1(2)]
  have i1: "chan_inv ops c1 p" by (rule inv_stream_step [OF inv_tcp [OF inv al(1)] c1(2)])
  obtain c2 where "Chan_AdjustClock N b c1 = Inr c2" "clock_step c1 c2"
    using AdjustClock_step [of c1 "t1\<lparr>x_events := []\<rparr>" N b] s al by auto
  then show ?thesis using c1(1) inv_clock_step [OF i1] s(2) al(1) by auto
qed

text \<open>Calls on the other two threads raise no notification.\<close>

lemma call_quiet:
  assumes inv: "chan_inv ops c p" and t: "c_tcp c = Some t" and N: "answers_ok N" and f: "no_events f"
  obtains r c1 where "call_tcp N cur f c = Inr (r, c1)" and "chan_inv ops c1 p" and "c_tcp c1 \<noteq> None" and "c_stream c1 = c_stream c"
  | e where "call_tcp N cur f c = Inl e" and "tcp_fails N f c e"
proof (cases "f (chan_env N c) (t\<lparr>x_events := []\<rparr>)")
  case (Inl e)
  then show ?thesis using call_tcp_fault [where f = f, OF t Inl, of cur] t that(2) by (auto simp: tcp_fails_def)
next
  case (Inr a)
  obtain r t1 where a: "f (chan_env N c) (t\<lparr>x_events := []\<rparr>) = Inr (r, t1)" using Inr by (cases a) simp
  note al = inv_alive [OF inv t]
  obtain c1 where c1: "call_tcp N cur f c = Inr (r, c1)" "stream_step (c\<lparr>c_tcp := Some (t1\<lparr>x_events := []\<rparr>)\<rparr>) c1"
    using call_tcp_step [where f = f and cur = cur, OF t al(1) N disjI2 [OF f] a] by blast
  have "chan_inv ops c1 p" by (rule inv_stream_step [OF inv_tcp [OF inv al(1)] c1(2)])
  then show ?thesis using that(1) c1(1) stream_step_same(3,4) [OF c1(2)] by simp
qed

subsection \<open>Each call keeps the invariant\<close>

lemma stream_inv_post: "stream_inv b c p \<Longrightarrow> c_stream c \<Longrightarrow> stream_inv b (post_event ev err c) p"
  by (auto simp: stream_inv_def read_queued_def post_event_def)

lemma inv_phase_cases:
  assumes "chan_inv ops c p"
  obtains "fresh c" | "connected c" | "purging c" | "gone c" "end_inv ops c p"
  using assms unfolding chan_inv_def by blast

lemma Connect_outcome:
  assumes inv: "chan_inv ops c p" and "c_session c \<noteq> None"
  shows "outcome N ops (Op_Connect content name cpt k) c p"
  using inv
proof (cases rule: inv_phase_cases)
  case 1
  then obtain c1 where c1: "Chan_Connect N (c_signal_thread c) content name cpt k c = Inr (True, c1)" "connected c1"
    "c_stream c1 = c_stream c" "q_event c1 = q_event c" "c_pending_read_event c1 = c_pending_read_event c"
    by (auto simp: Chan_Connect_def phase_defs Let_def)
  have "chan_inv (ops @ [Op_Connect content name cpt k]) c1 p"
    using inv c1(2) stream_inv_same [OF _ c1(3-5)] by (simp add: chan_inv_def was_connected_def)
  then show ?thesis using c1(1) by (intro outcomeI) (simp_all add: keep_def)
next
  case 2
  then have "Chan_Connect N (c_signal_thread c) content name cpt k c = Inr (False, c)"
    by (simp add: Chan_Connect_def connected_def)
  moreover have "chan_inv (ops @ [Op_Connect content name cpt k]) c p" using inv 2 by (simp add: chan_inv_def was_connected_def)
  ultimately show ?thesis by (intro outcomeI) (simp_all add: keep_def)
qed (use assms(2) in \<open>simp_all add: phase_defs\<close>)

lemma GetStream_outcome:
  assumes inv: "chan_inv ops c p" and "c_session c \<noteq> None" and "Op_Close \<notin> set ops"
  shows "outcome N ops Op_GetStream c p"
proof -
  have i: "chan_inv (ops @ [Op_GetStream]) (c\<lparr>c_stream := True\<rparr>) True"
    using inv assms(2,3) by (auto simp: chan_inv_def stream_inv_def read_queued_def phase_defs was_connected_def)
  have r: "chan_run N Op_GetStream c p = Inr (Some (c\<lparr>c_stream := True\<rparr>), True)"
    using assms(2) by (simp add: Chan_GetStream_def keep_def)
  show ?thesis by (rule outcomeI [OF r i])
qed

lemma Destroyed_outcome:
  assumes inv: "chan_inv ops c p" and k: "c_channel c = Some k"
  shows "outcome N ops (Op_Destroyed k) c p"
proof -
  have con: "connected c" using inv_connected [OF inv] k by simp
  let ?c1 = "c\<lparr>q_destroychannel := 0, q_clock := [], q_purge := Suc (q_purge c), c_session := None, c_channel := None\<rparr>"
  let ?post = "c_stream c \<and> (case c_tcp c of None \<Rightarrow> True | Some t \<Rightarrow> m_state t \<noteq> TCP_CLOSED)"
  let ?c2 = "if ?post then post_event {SE_CLOSE} 0 ?c1 else ?c1"
  obtain c3 where c3: "Chan_OnChannelDestroyed N (c_signal_thread c) k c = Inr c3" "purging c3"
    "c_stream c3 = c_stream ?c2" "q_event c3 = q_event ?c2" "c_pending_read_event c3 = c_pending_read_event ?c2"
  proof (cases "c_tcp c")
    case None
    show ?thesis by (rule that [of "?c2\<lparr>x_closed := Suc (x_closed c)\<rparr>"])
        (use con k None in \<open>auto simp: Chan_OnChannelDestroyed_def phase_defs post_event_def Let_def\<close>)
  next
    case (Some t)
    let ?c3 = "?c2\<lparr>c_tcp := None, c_ready_to_connect := False, x_closed := Suc (x_closed c)\<rparr>"
    have "Chan_AdjustClock N True (?c2\<lparr>c_tcp := Some (Close t True)\<rparr>) = Inr (?c2\<lparr>c_tcp := None, c_ready_to_connect := False\<rparr>)"
      by (subst AdjustClock_forced [where t = "Close t True"]) (simp_all add: Close_def post_event_def)
    then have "Chan_OnChannelDestroyed N (c_signal_thread c) k c = Inr ?c3"
      using con k Some by (auto simp: Chan_OnChannelDestroyed_def connected_def post_event_def Let_def)
    then show ?thesis by (rule that) (use con in \<open>auto simp: phase_defs post_event_def\<close>)
  qed
  have "stream_inv (Op_Close \<in> set ops) ?c1 p"
    by (rule stream_inv_same [of _ c]) (use inv in \<open>simp_all add: chan_inv_def\<close>)
  then have "stream_inv (Op_Close \<in> set ops) ?c2 p" using stream_inv_post by simp
  then have "stream_inv (Op_Close \<in> set ops) c3 p" by (rule stream_inv_same [OF _ c3(3-5)])
  then have "chan_inv (ops @ [Op_Destroyed k]) c3 p" using inv c3(2) by (simp add: chan_inv_def)
  then show ?thesis using c3(1) by (intro outcomeI) (simp_all add: keep_def)
qed

lemma Terminate_outcome:
  assumes inv: "chan_inv ops c p" and "c_session c = None \<or> c_session c = Some s"
  shows "outcome N ops (Op_Terminate s) c p"
proof (cases "fresh c")
  case True
  let ?c1 = "c\<lparr>c_session := None\<rparr>"
  let ?c2 = "if c_stream c then post_event {SE_CLOSE} (- 1) ?c1 else ?c1"
  have n: "Op_Close \<notin> set ops" "\<not> was_connected ops" using inv True by (auto simp: chan_inv_def phase_defs)
  have "stream_inv False ?c1 p" by (rule stream_inv_same [of _ c]) (use inv n in \<open>simp_all add: chan_inv_def\<close>)
  then have "stream_inv False ?c2 p" using stream_inv_post by simp
  moreover have "gone ?c2" "end_inv ops ?c2 p" using True n by (simp_all add: phase_defs post_event_def end_inv_def)
  ultimately have "chan_inv ops ?c2 p" using inv n by (simp add: chan_inv_def)
  then have "chan_inv (ops @ [Op_Terminate s]) ?c2 p" by (simp add: inv_ops neutral_def)
  moreover have "Chan_OnSessionTerminate s c = Inr ?c2"
    using True assms(2) by (auto simp: Chan_OnSessionTerminate_def fresh_def Let_def)
  ultimately show ?thesis by (intro outcomeI) (simp_all add: keep_def)
next
  case False
  then have "Chan_OnSessionTerminate s c = Inr c"
    using inv by (auto simp: Chan_OnSessionTerminate_def chan_inv_def phase_defs)
  then show ?thesis using inv by (intro outcomeI) (simp_all add: keep_def inv_ops neutral_def)
qed

lemma outcome_keep:
  assumes "chan_run N x c p = keep p m" and "neutral x"
    and "(\<exists>c1. m = Inr c1 \<and> chan_inv ops c1 p) \<or> (\<exists>e. m = Inl e \<and> chan_tcp_fails N x c e)"
  shows "outcome N ops x c p"
  using assms by (auto simp: outcome_def chan_good_def keep_def inv_ops)

lemma SetOption_outcome:
  assumes inv: "chan_inv ops c p" and "c_tcp c \<noteq> None" and N: "answers_ok N"
  shows "outcome N ops (Op_SetOption opt v) c p"
proof -
  obtain t where t: "c_tcp c = Some t" using assms(2) by blast
  let ?f = "\<lambda>E t. andThen (SetOption E t opt v) (\<lambda>t1. Inr ((), t1))"
  show ?thesis
    by (rule outcome_keep [OF chan_run.simps(5)])
      (rule call_quiet [where f = ?f and cur = "c_signal_thread c", OF inv t N SetOption_no_events];
        auto simp: Chan_SetOption_def t neutral_def)+
qed

lemma stream_step_read:
  assumes "c_stream c"
  shows "stream_step c (if \<not> c_pending_read_event c then post_event {SE_READ} 0 (c\<lparr>c_stream_readable := True, c_pending_read_event := True\<rparr>)
    else c\<lparr>c_stream_readable := True\<rparr>)"
  using assms by (auto simp: post_event_def stream_step_readable
      intro!: stream_stepI [where a = True and b = True and evs = "[({SE_READ}, 0)]"])

text \<open>\<open>Read\<close> keeps the invariant; after it has delivered data another read event is pending.\<close>

lemma Read_step:
  assumes inv: "chan_inv ops c True" and N: "answers_ok N"
  obtains r bs err c1 where "Chan_Read N (c_stream_thread c) n c = Inr (r, bs, err, c1)" and "chan_inv ops c1 True"
    and "r = SR_SUCCESS \<longrightarrow> c_pending_read_event c1"
  | e where "Chan_Read N (c_stream_thread c) n c = Inl e" and "chan_tcp_fails N (Op_Read n) c e"
proof (cases "c_tcp c")
  case None
  have st: "c_stream c" using inv by (simp add: chan_inv_def stream_inv_def)
  then have "Chan_Read N (c_stream_thread c) n c = Inr (SR_BLOCK, [], None, c)" using None by (simp add: Chan_Read_def)
  then show ?thesis using that(1) inv by simp
next
  case (Some t)
  let ?f = "\<lambda>E t. andThen (Recv E t n) (\<lambda>(k, bs, t1). Inr ((k, bs), t1))"
  let ?c = "c\<lparr>c_stream_readable := False\<rparr>"
  have st: "c_stream c" using inv by (simp add: chan_inv_def stream_inv_def)
  have i: "chan_inv ops ?c True" by (rule inv_stream_step [OF inv stream_step_readable])
  have t: "c_tcp ?c = Some t" using Some by simp
  show ?thesis
  proof (rule call_quiet [where f = ?f and cur = "c_stream_thread c", OF i t N Recv_no_events])
    fix r c1
    assume a: "call_tcp N (c_stream_thread c) ?f ?c = Inr (r, c1)" "chan_inv ops c1 True" "c_tcp c1 \<noteq> None" "c_stream c1 = c_stream ?c"
    obtain t1 where t1: "c_tcp c1 = Some t1" using a(3) by blast
    let ?c2 = "if \<not> c_pending_read_event c1 then post_event {SE_READ} 0 (c1\<lparr>c_stream_readable := True, c_pending_read_event := True\<rparr>)
      else c1\<lparr>c_stream_readable := True\<rparr>"
    have "chan_inv ops ?c2 True" by (rule inv_stream_step [OF a(2) stream_step_read]) (simp add: a(4) st)
    moreover have "c_pending_read_event ?c2" by (simp add: post_event_def)
    moreover have "Chan_Read N (c_stream_thread c) n c =
      Inr (if fst r > 0 then (SR_SUCCESS, snd r, None, ?c2)
        else if IsBlockingError (GetError t1) then (SR_BLOCK, [], None, c1) else (SR_ERROR, [], Some (GetError t1), c1))"
      using a(1) t1 st Some by (simp add: Chan_Read_def Let_def split: prod.splits)
    ultimately show ?thesis using that(1) a(2) by (auto split: if_splits)
  next
    fix e
    assume a: "call_tcp N (c_stream_thread c) ?f ?c = Inl e" "tcp_fails N ?f ?c e"
    have "chan_tcp_fails N (Op_Read n) c e" using a(2) chan_env_cong [of ?c c N] by (simp add: tcp_fails_def)
    then show ?thesis using that(2) a(1) st Some by (simp add: Chan_Read_def)
  qed
qed

lemma Write_step:
  assumes inv: "chan_inv ops c True" and N: "answers_ok N"
  obtains r k err c1 where "Chan_Write N (c_stream_thread c) data c = Inr (r, k, err, c1)" and "chan_inv ops c1 True"
  | e where "Chan_Write N (c_stream_thread c) data c = Inl e" and "chan_tcp_fails N (Op_Write data) c e"
proof (cases "c_tcp c")
  case None
  have st: "c_stream c" using inv by (simp add: chan_inv_def stream_inv_def)
  then have "Chan_Write N (c_stream_thread c) data c = Inr (SR_BLOCK, 0, None, c)" using None by (simp add: Chan_Write_def)
  then show ?thesis using that(1) inv by simp
next
  case (Some t)
  have st: "c_stream c" using inv by (simp add: chan_inv_def stream_inv_def)
  show ?thesis
  proof (rule call_quiet [where f = "\<lambda>E t. Send E t data" and cur = "c_stream_thread c", OF inv Some N Send_no_events])
    fix r c1
    assume a: "call_tcp N (c_stream_thread c) (\<lambda>E t. Send E t data) c = Inr (r, c1)" "chan_inv ops c1 True" "c_tcp c1 \<noteq> None"
    obtain t1 where t1: "c_tcp c1 = Some t1" using a(3) by blast
    have "Chan_Write N (c_stream_thread c) data c =
      Inr (if r > 0 then (SR_SUCCESS, nat r, None, c1)
        else if IsBlockingError (GetError t1) then (SR_BLOCK, 0, None, c1) else (SR_ERROR, 0, Some (GetError t1), c1))"
      using a(1) t1 st Some by (simp add: Chan_Write_def)
    then show ?thesis using that(1) a(2) by (auto split: if_splits)
  next
    fix e
    assume "call_tcp N (c_stream_thread c) (\<lambda>E t. Send E t data) c = Inl e" "tcp_fails N (\<lambda>E t. Send E t data) c e"
    then show ?thesis using that(2) st Some by (simp add: Chan_Write_def)
  qed
qed

lemma Read_outcome:
  assumes "chan_inv ops c True" and "answers_ok N"
  shows "outcome N ops (Op_Read n) c True"
  by (rule outcome_keep [OF chan_run.simps(6)]; (rule Read_step [OF assms, of n])?) (auto simp: IS_Read_def neutral_def)

lemma Write_outcome:
  assumes "chan_inv ops c True" and "answers_ok N"
  shows "outcome N ops (Op_Write data) c True"
  by (rule outcome_keep [OF chan_run.simps(7)]; (rule Write_step [OF assms, of data])?) (auto simp: IS_Write_def neutral_def)

lemma closed_inv:
  assumes inv: "chan_inv ops c True" and "\<not> fresh c"
  shows "chan_inv (ops @ [Op_Close]) (Chan_CheckDestroy (c\<lparr>c_stream := False, q_event := []\<rparr>)) False"
proof -
  let ?c = "Chan_CheckDestroy (c\<lparr>c_stream := False, q_event := []\<rparr>)"
  have "stream_inv True ?c False"
    by (simp add: stream_inv_def Chan_CheckDestroy_def)
  moreover have "connected c \<and> was_connected ops \<or> purging c \<or> gone c \<and> q_destroy c = 0"
    using inv assms(2) by (auto simp: chan_inv_def end_inv_def)
  then have "connected ?c \<and> was_connected ops \<or> purging ?c \<or> gone ?c \<and> q_destroy ?c = 1"
    by (auto simp: phase_defs Chan_CheckDestroy_def)
  ultimately show ?thesis by (auto simp: chan_inv_def end_inv_def was_connected_def)
qed

lemma Close_outcome:
  assumes inv: "chan_inv ops c True" and e: "c_session c = None \<or> c_channel c \<noteq> None"
  shows "outcome N ops Op_Close c True"
proof -
  have st: "c_stream c" using inv by (simp add: chan_inv_def stream_inv_def)
  have f: "\<not> fresh c" using e by (auto simp: fresh_def)
  let ?c1 = "c\<lparr>c_stream := False, q_event := []\<rparr>"
  have "\<exists>c2. Chan_Close N (c_stream_thread c) c = Inr c2 \<and> chan_inv (ops @ [Op_Close]) c2 False"
  proof (cases "c_tcp c")
    case None
    then show ?thesis using st closed_inv [OF inv f] by (simp add: Chan_Close_def)
  next
    case (Some t)
    note al = inv_alive [OF inv Some]
    have "Chan_CheckDestroy ?c1 = ?c1" using al by (simp add: Chan_CheckDestroy_def)
    then have "chan_inv (ops @ [Op_Close]) ?c1 False" using closed_inv [OF inv f] by simp
    then have i: "chan_inv (ops @ [Op_Close]) (?c1\<lparr>c_tcp := Some (Close t False)\<rparr>) False" by (rule inv_tcp) (use al in simp)
    obtain c2 where "Chan_AdjustClock N True (?c1\<lparr>c_tcp := Some (Close t False)\<rparr>) = Inr c2"
      "clock_step (?c1\<lparr>c_tcp := Some (Close t False)\<rparr>) c2"
      using AdjustClock_step [of "?c1\<lparr>c_tcp := Some (Close t False)\<rparr>" "Close t False" N True] al by auto
    then show ?thesis using inv_clock_step [OF i] al(1) Some st by (simp add: Chan_Close_def)
  qed
  then show ?thesis by (auto intro: outcomeI simp: IS_Close_def)
qed

lemma worker_current_ok: "c_worker_thread c \<noteq> None \<Longrightarrow> worker_current (worker c) c = Inr ()"
  by (auto simp: worker_current_def worker_def)

text \<open>The three signals of the transport channel have one form.\<close>

lemma channel_signal:
  assumes inv: "chan_inv ops c p" and w: "c_worker_thread c \<noteq> None" "c_channel c \<in> {None, Some k}" and N: "answers_ok N"
    and run: "chan_run N x c p = keep p (andThen (worker_current (worker c) c) (\<lambda>_. if c_channel c = None then Inr c
      else andThen (ASSERT (Some k = c_channel c)) (\<lambda>_. if c_tcp c = None then Inr c else m)))"
    and x: "neutral x"
    and m: "\<And>t. c_tcp c = Some t \<Longrightarrow> (\<exists>c1. m = Inr c1 \<and> chan_inv ops c1 p) \<or> (\<exists>e. m = Inl e \<and> chan_tcp_fails N x c e)"
  shows "outcome N ops x c p"
proof -
  let ?M = "andThen (worker_current (worker c) c) (\<lambda>_. if c_channel c = None then Inr c
      else andThen (ASSERT (Some k = c_channel c)) (\<lambda>_. if c_tcp c = None then Inr c else m))"
  have "(\<exists>c1. ?M = Inr c1 \<and> chan_inv ops c1 p) \<or> (\<exists>e. ?M = Inl e \<and> chan_tcp_fails N x c e)"
  proof (cases "c_channel c = None \<or> c_tcp c = None")
    case True
    then show ?thesis using w inv worker_current_ok [OF w(1)] by auto
  next
    case False
    then show ?thesis using w m worker_current_ok [OF w(1)] by auto
  qed
  then show ?thesis by (rule outcome_keep [OF run x])
qed

lemma Packet_outcome:
  assumes inv: "chan_inv ops c p" and w: "c_worker_thread c \<noteq> None" "c_channel c \<in> {None, Some k}" and N: "answers_ok N"
  shows "outcome N ops (Op_Packet k data) c p"
  by (rule channel_signal [OF inv w N]; (simp add: Chan_OnChannelRead_def neutral_def)?)
    (rule call_adjust [OF inv _ N, where f = "\<lambda>E t. NotifyPacket E t data" and b = True], assumption)

lemma Route_outcome:
  assumes inv: "chan_inv ops c p" and w: "c_worker_thread c \<noteq> None" "c_channel c \<in> {None, Some k}" and N: "answers_ok N"
  shows "outcome N ops (Op_Route k sock) c p"
proof (rule channel_signal [OF inv w N])
  let ?mtu = "case sock of None \<Rightarrow> 1280 | Some (joined, estimated, value) \<Rightarrow> if joined < 0 then 1280 else value"
  let ?m = "andThen (call_tcp N (worker c) (\<lambda>E t. Inr ((), NotifyMTU t ?mtu)) c) (\<lambda>(_, c1). Chan_AdjustClock N True c1)"
  show "chan_run N (Op_Route k sock) c p = keep p (andThen (worker_current (worker c) c) (\<lambda>_. if c_channel c = None then Inr c
      else andThen (ASSERT (Some k = c_channel c)) (\<lambda>_. if c_tcp c = None then Inr c else ?m)))"
    by (simp add: Chan_OnChannelConnectionChanged_def Let_def)
  show "(\<exists>c1. ?m = Inr c1 \<and> chan_inv ops c1 p) \<or> (\<exists>e. ?m = Inl e \<and> chan_tcp_fails N (Op_Route k sock) c e)"
    if "c_tcp c = Some t" for t
    using call_adjust [OF inv that N, where f = "\<lambda>E t. Inr ((), NotifyMTU t ?mtu)" and b = True] by (simp add: tcp_fails_def)
qed (simp_all add: neutral_def)

lemma Writable_outcome:
  assumes inv: "chan_inv ops c p" and w: "c_worker_thread c \<noteq> None" "c_channel c \<in> {None, Some k}" and N: "answers_ok N"
  shows "outcome N ops (Op_Writable k wr) c p"
proof (rule channel_signal [OF inv w N])
  let ?c = "c\<lparr>c_ready_to_connect := False\<rparr>"
  let ?m1 = "andThen (call_tcp N (worker c) (\<lambda>E t. Connect E t) ?c) (\<lambda>(_, c1). Chan_AdjustClock N True c1)"
  let ?m = "if \<not> c_ready_to_connect c \<or> \<not> wr then Inr c else ?m1"
  show "chan_run N (Op_Writable k wr) c p = keep p (andThen (worker_current (worker c) c) (\<lambda>_. if c_channel c = None then Inr c
      else andThen (ASSERT (Some k = c_channel c)) (\<lambda>_. if c_tcp c = None then Inr c else ?m)))"
    by (simp add: Chan_OnChannelWritableState_def)
  show "(\<exists>c1. ?m = Inr c1 \<and> chan_inv ops c1 p) \<or> (\<exists>e. ?m = Inl e \<and> chan_tcp_fails N (Op_Writable k wr) c e)"
    if "c_tcp c = Some t" for t
  proof -
    have "chan_inv ops ?c p"
      by (rule connected_inv [OF inv]) (use inv_alive [OF inv that] in \<open>simp_all add: connected_def\<close>)
    moreover have "worker ?c = worker c" "tcp_fails N Connect ?c = tcp_fails N Connect c"
      using chan_env_cong [of ?c c N] by (simp_all add: worker_def tcp_fails_def fun_eq_iff)
    ultimately show ?thesis
      using call_adjust [of ops ?c p t N, where f = "\<lambda>E t. Connect E t" and b = True] that N inv by auto
  qed
qed (simp_all add: neutral_def)

lemma outcome_told:
  assumes "chan_run N x c p = told p m" and "neutral x"
    and "(\<exists>c1. m = Inr (Some c1) \<and> chan_inv ops c1 p) \<or> (\<exists>e. m = Inl e \<and> chan_tcp_fails N x c e)"
  shows "outcome N ops x c p"
  using assms by (auto simp: outcome_def chan_good_def told_def inv_ops)

lemma Clock_outcome:
  assumes inv: "chan_inv ops c p" and i: "i < length (q_clock c)" and N: "answers_ok N"
  shows "outcome N ops (Op_Clock i) c p"
proof (rule outcome_told [OF chan_run.simps(12)])
  let ?c = "c\<lparr>q_clock := take i (q_clock c) @ drop (Suc i) (q_clock c)\<rparr>"
  let ?m = "Chan_OnMessage N (worker c) MSG_WK_CLOCK ?c"
  have con: "connected c" using inv i by (auto simp: chan_inv_def phase_defs)
  have w: "worker ?c = worker c" "worker_current (worker c) ?c = Inr ()"
    using con by (auto simp: worker_def worker_current_def connected_def)
  have ci: "chan_inv ops ?c p" by (rule connected_inv [OF inv]) (use con in \<open>simp_all add: connected_def\<close>)
  show "(\<exists>c1. ?m = Inr (Some c1) \<and> chan_inv ops c1 p) \<or> (\<exists>e. ?m = Inl e \<and> chan_tcp_fails N (Op_Clock i) c e)"
  proof (cases "c_tcp c")
    case None
    then show ?thesis using ci w(2) by simp
  next
    case (Some t)
    have "?m = andThen (andThen (call_tcp N (worker c) clock_call ?c) (\<lambda>(_, c1). Chan_AdjustClock N False c1)) (\<lambda>c2. Inr (Some c2))"
      using Some w(2) by (simp add: clock_call_def [abs_def] andThen_assoc case_prod_unfold)
    moreover have "tcp_fails N clock_call ?c = tcp_fails N clock_call c"
      using chan_env_cong [of ?c c N] by (simp add: tcp_fails_def fun_eq_iff)
    ultimately show ?thesis using call_adjust [OF ci _ N, where f = clock_call and b = False and t = t] Some w(1) by auto
  qed
qed (simp_all add: neutral_def)

lemma Purge_outcome:
  assumes inv: "chan_inv ops c p" and "q_purge c > 0"
  shows "outcome N ops Op_Purge c p"
proof (rule outcome_told [OF chan_run.simps(13)])
  let ?c = "c\<lparr>q_purge := q_purge c - 1\<rparr>"
  let ?c1 = "Chan_CheckDestroy (?c\<lparr>c_worker_thread := None\<rparr>)"
  have pu: "purging c" using assms by (auto simp: chan_inv_def phase_defs)
  have st: "c_stream c = p" using inv by (auto simp: chan_inv_def stream_inv_def)
  have "stream_inv (Op_Close \<in> set ops) ?c1 p"
    by (rule stream_inv_same [of _ c]) (use inv in \<open>simp_all add: chan_inv_def Chan_CheckDestroy_def\<close>)
  moreover have "gone ?c1" "end_inv ops ?c1 p" using pu st by (simp_all add: phase_defs Chan_CheckDestroy_def end_inv_def)
  ultimately have "chan_inv ops ?c1 p" using inv by (simp add: chan_inv_def)
  moreover have "Chan_OnMessage N (worker c) MSG_WK_PURGE ?c = Inr (Some ?c1)"
    using pu by (auto simp: purging_def worker_current_def worker_def)
  ultimately show "(\<exists>c1. Chan_OnMessage N (worker c) MSG_WK_PURGE ?c = Inr (Some c1) \<and> chan_inv ops c1 p) \<or>
    (\<exists>e. Chan_OnMessage N (worker c) MSG_WK_PURGE ?c = Inl e \<and> chan_tcp_fails N Op_Purge c e)" by blast
qed (simp_all add: neutral_def)

lemma Event_outcome:
  assumes inv: "chan_inv ops c p" and q: "q_event c \<noteq> []"
  shows "outcome N ops Op_Event c p"
proof -
  obtain ev err q where e: "q_event c = (ev, err) # q" using q by (metis neq_Nil_conv surj_pair)
  let ?c = "c\<lparr>q_event := tl (q_event c)\<rparr>"
  let ?d = "if SE_READ \<in> ev then ?c\<lparr>c_pending_read_event := False\<rparr> else ?c"
  let ?c1 = "?d\<lparr>x_signalled := x_signalled ?d @ [(ev, err)]\<rparr>"
  let ?m = "Chan_OnMessage N (c_stream_thread c) (MSG_ST_EVENT (fst (hd (q_event c))) (snd (hd (q_event c)))) ?c"
  have p: "p" "c_stream c" using inv e by (auto simp: chan_inv_def stream_inv_def)
  have "stream_inv (Op_Close \<in> set ops) ?c1 p"
    using inv e p by (auto simp: chan_inv_def stream_inv_def read_queued_def)
  moreover have "fresh ?c1 = fresh c" "connected ?c1 = connected c" "purging ?c1 = purging c" "gone ?c1 = gone c"
    "end_inv ops ?c1 p = end_inv ops c p"
    by (simp_all add: phase_defs end_inv_def)
  ultimately have "chan_inv ops ?c1 p" using inv by (simp add: chan_inv_def)
  moreover have "?m = Inr (Some ?c1)" using e p by (simp add: Let_def)
  ultimately show ?thesis by (intro outcome_told [OF chan_run.simps(14)] disjI1) (auto simp: neutral_def)
qed

lemma DestroyChannel_outcome:
  assumes inv: "chan_inv ops c p" and "q_destroychannel c > 0"
  shows "outcome N ops Op_DestroyChannel c p"
proof (rule outcome_told [OF chan_run.simps(15)])
  let ?c = "c\<lparr>q_destroychannel := q_destroychannel c - 1\<rparr>"
  let ?m = "Chan_OnMessage N (c_signal_thread c) MSG_SI_DESTROYCHANNEL ?c"
  have con: "connected c" using assms by (auto simp: chan_inv_def phase_defs)
  let ?c1 = "?c\<lparr>x_requested := x_requested c @ [(c_content_name c, c_component c)]\<rparr>"
  have "chan_inv ops ?c1 p" by (rule connected_inv [OF inv]) (use con in \<open>simp_all add: connected_def\<close>)
  moreover have "?m = Inr (Some ?c1)" using con by (simp add: connected_def)
  ultimately show "(\<exists>c1. ?m = Inr (Some c1) \<and> chan_inv ops c1 p) \<or> (\<exists>e. ?m = Inl e \<and> chan_tcp_fails N Op_DestroyChannel c e)"
    by blast
qed (simp_all add: neutral_def)

lemma Destroy_outcome:
  assumes inv: "chan_inv ops c p" and "q_destroy c > 0"
  shows "outcome N ops Op_Destroy c p"
proof -
  have "gone c" "\<not> p" "c_stream c = p" using assms by (auto simp: chan_inv_def stream_inv_def phase_defs end_inv_def)
  then have "chan_run N Op_Destroy c p = Inr (None, p)" by (simp add: told_def delete_Chan_def gone_def)
  moreover have "chan_good (ops @ [Op_Destroy]) None p" using \<open>\<not> p\<close> by (simp add: chan_good_def)
  ultimately show ?thesis unfolding outcome_def by blast
qed

lemma chan_outcome:
  assumes "chan_inv ops c p" and "chan_enabled ops c p x" and "answers_ok N"
  shows "outcome N ops x c p"
  using assms
  by (cases x) (auto intro: Connect_outcome GetStream_outcome Destroyed_outcome Terminate_outcome SetOption_outcome
      Read_outcome Write_outcome Close_outcome Writable_outcome Packet_outcome Route_outcome Clock_outcome Purge_outcome
      Event_outcome DestroyChannel_outcome Destroy_outcome)

lemma new_Chan_fields:
  assumes "new_Chan cur st session = Inr c"
  shows "c_signal_thread c = cur" "c_stream_thread c = st" "c_session c = Some session" "c_channel c = None"
    "c_worker_thread c = None" "c_tcp c = None" "\<not> c_stream c" "\<not> c_pending_read_event c" "q_clock c = []" "q_purge c = 0"
    "q_event c = []" "q_destroychannel c = 0" "q_destroy c = 0"
  using assms by (auto simp: new_Chan_def andThen_eq_Inr_iff)

lemma chan_life_good:
  assumes "chan_life N ops r p" and "answers_ok N"
  shows "chan_good ops r p"
  using assms
proof induction
  case (created cur st session c)
  note f = new_Chan_fields [OF created.hyps]
  then have "fresh c" by (simp add: fresh_def)
  with f show ?case by (simp add: chan_good_def chan_inv_def stream_inv_def was_connected_def)
next
  case (called ops c p x r p1)
  then have "chan_inv ops c p" by (simp add: chan_good_def)
  from chan_outcome [OF this called.hyps(2) called.prems] called.hyps(3) show ?case by (auto simp: outcome_def)
qed

subsection \<open>Properties\<close>

text \<open>After a read that delivered data another read event is on its way to the stream.\<close>

lemma read_rearmed:
  assumes "chan_life N ops (Some c) True" and "answers_ok N"
    and "Chan_Read N (c_stream_thread c) n c = Inr (SR_SUCCESS, bs, err, c1)"
  shows "read_queued c1"
proof -
  have "chan_inv ops c True" using chan_life_good [OF assms(1,2)] by (simp add: chan_good_def)
  from Read_step [OF this assms(2), of n] have "chan_inv ops c1 True" "c_pending_read_event c1"
    using assms(3) by auto
  then show ?thesis by (auto simp: chan_inv_def stream_inv_def)
qed



text \<open>A channel whose stream is taken before it is connected, as the initiator does it.\<close>

definition sample_session :: SessionView where
  "sample_session = \<lparr>sess_id = 1, sess_signaling_thread = 10, sess_worker_thread = 11, sess_initiator = True\<rparr>"

definition sample_net :: Net where
  "sample_net = \<lparr>n_now = (\<lambda>k. 1000 + of_nat k), n_send = (\<lambda>_ _. (1, 0)), n_big = False, n_junk = (\<lambda>_. 0)\<rparr>"

lemma sample_answers: "answers_ok sample_net"
  by (simp add: answers_ok_def answer_ok_def sample_net_def)

definition sample_ops :: "chan_op list" where
  "sample_ops = [Op_GetStream, Op_Connect ''tunnel'' ''tcp'' 1 7]"

lemma sample_life:
  "\<exists>c. chan_life sample_net sample_ops (Some c) True \<and> c_channel c = Some 7 \<and>
     c_tcp c = Some (new_PseudoTcp (chan_env sample_net c) 0)"
proof -
  obtain c where c: "new_Chan 10 12 sample_session = Inr c" by (simp add: new_Chan_def sample_session_def)
  note l0 = chan_life.created [OF c, of sample_net] and s = new_Chan_fields [OF c]
  let ?c1 = "c\<lparr>c_stream := True\<rparr>"
  have "chan_run sample_net Op_GetStream c False = Inr (Some ?c1, True)"
    by (simp add: Chan_GetStream_def keep_def s)
  then have l1: "chan_life sample_net [Op_GetStream] (Some ?c1) True"
    using chan_life.called [OF l0, of Op_GetStream] s by simp
  let ?d = "?c1\<lparr>c_worker_thread := Some 11, c_content_name := ''tunnel'', c_channel := Some 7, c_component := 1,
    c_channel_name := ''tcp''\<rparr>"
  let ?c2 = "?d\<lparr>c_tcp := Some (new_PseudoTcp (chan_env sample_net ?d) 0), c_ready_to_connect := True\<rparr>"
  have r2: "chan_run sample_net (Op_Connect ''tunnel'' ''tcp'' 1 7) ?c1 True = Inr (Some ?c2, True)"
    using s by (simp add: Chan_Connect_def keep_def Let_def sample_session_def)
  have "chan_life sample_net ([Op_GetStream] @ [Op_Connect ''tunnel'' ''tcp'' 1 7]) (Some ?c2) True"
    by (rule chan_life.called [OF l1 _ r2]) (simp add: s)
  moreover have "chan_env sample_net ?d = chan_env sample_net ?c2" by (rule chan_env_cong) simp
  ultimately show ?thesis by (intro exI [of _ ?c2]) (simp add: sample_ops_def)
qed



text \<open>A stream that is closed before the channel is connected makes the channel delete itself
  while it has its session, which fails the assertion of the destructor.\<close>

theorem early_close_asserts:
  assumes "new_Chan cur st session = Inr c"
  shows "\<exists>c1 c2. Chan_GetStream cur c = Inr c1 \<and> Chan_Close N st c1 = Inr c2 \<and> q_destroy c2 = 1 \<and>
    c_session c2 = Some session \<and> Chan_OnMessage N cur MSG_SI_DESTROY (c2\<lparr>q_destroy := 0\<rparr>) = Inl Assertion_failed"
proof -
  note f = new_Chan_fields [OF assms]
  let ?c1 = "c\<lparr>c_stream := True\<rparr>" and ?c2 = "c\<lparr>c_stream := False, q_event := [], q_destroy := 1\<rparr>"
  have "Chan_GetStream cur c = Inr ?c1" using f by (simp add: Chan_GetStream_def)
  moreover have "Chan_Close N st ?c1 = Inr ?c2" using f by (simp add: Chan_Close_def Chan_CheckDestroy_def)
  moreover have "Chan_OnMessage N cur MSG_SI_DESTROY (?c2\<lparr>q_destroy := 0\<rparr>) = Inl Assertion_failed"
    using f by (simp add: delete_Chan_def ASSERT_def)
  ultimately show ?thesis using f by (intro exI [of _ ?c1] exI [of _ ?c2]) simp
qed

theorem early_close_asserts_witness:
  "\<exists>c c1 c2. new_Chan 10 12 sample_session = Inr c \<and> Chan_GetStream 10 c = Inr c1 \<and> Chan_Close sample_net 12 c1 = Inr c2 \<and>
     Chan_OnMessage sample_net 10 MSG_SI_DESTROY (c2\<lparr>q_destroy := 0\<rparr>) = Inl Assertion_failed"
proof -
  obtain c where c: "new_Chan 10 12 sample_session = Inr c" by (simp add: new_Chan_def sample_session_def)
  then show ?thesis using early_close_asserts [OF c, of sample_net] by blast
qed

text \<open>A channel whose session ends before its stream was taken is not deleted: nothing is posted, and no call
  that can still reach the object changes it.\<close>

lemma declined_channel_leaks:
  assumes "new_Chan cur st session = Inr c"
  shows "\<exists>c1. Chan_OnSessionTerminate session c = Inr c1 \<and> q_destroy c1 = 0 \<and>
    (\<forall>x. chan_enabled [Op_Terminate session] c1 False x \<longrightarrow> chan_run N x c1 False = Inr (Some c1, False))"
proof -
  note f = new_Chan_fields [OF assms]
  let ?c = "c\<lparr>c_session := None\<rparr>"
  have "chan_run N x ?c False = Inr (Some ?c, False)" if "chan_enabled [Op_Terminate session] ?c False x" for x
    using that f by (cases x) (simp_all add: Chan_OnSessionTerminate_def keep_def)
  moreover have "Chan_OnSessionTerminate session c = Inr ?c" using f by (simp add: Chan_OnSessionTerminate_def)
  ultimately show ?thesis using f by (intro exI [of _ ?c]) simp
qed

end
