(* ===== verification/FileStream.thy ===== *)
theory FileStream
  imports FifoBuffer
begin

text \<open>
  The class \<open>FileStream\<close> of \<^verbatim>\<open>talk/base/stream.cc\<close> and what it uses of C's standard I/O.

  A disk holds the files, the open handles with their positions, and what may go wrong: a path
  that cannot be opened gives an error number, and the \<open>i\<close>-th transfer moves at most
  \<open>d_limit i\<close> bytes, none of them when there is an I/O error. Data is in the file when \<open>fwrite\<close> returns:
  the buffering of the library is not modelled, nor are other processes.
\<close>

subsection \<open>Standard I/O\<close>

record Disk =
  d_file :: "string \<rightharpoonup> byte list"
  d_open :: "nat \<rightharpoonup> string \<times> nat"
  d_next :: nat
  d_deny :: "string \<Rightarrow> int option"
  d_limit :: "nat \<Rightarrow> nat"
  d_errno :: "nat \<Rightarrow> int"
  d_calls :: nat

definition ERR_NOENT :: int where "ERR_NOENT = 2"

definition c_str :: "string \<Rightarrow> string" where
  "c_str s = takeWhile (\<lambda>c. c \<noteq> CHR 0x00) s"

definition d_content :: "Disk \<Rightarrow> string \<Rightarrow> byte list" where
  "d_content d path = (case d_file d path of None \<Rightarrow> [] | Some bs \<Rightarrow> bs)"

definition c_fopen :: "Disk \<Rightarrow> string \<Rightarrow> string \<Rightarrow> (int + nat) \<times> Disk" where
  "c_fopen d path mode =
     (case d_deny d path of
        Some err \<Rightarrow> (Inl err, d)
      | None \<Rightarrow>
          let opened = d\<lparr>d_open := (d_open d)(d_next d \<mapsto> (path, 0)), d_next := Suc (d_next d)\<rparr> in
          if mode = ''wb'' then (Inr (d_next d), opened\<lparr>d_file := (d_file d)(path \<mapsto> [])\<rparr>)
          else if d_file d path = None then (Inl ERR_NOENT, d)
          else (Inr (d_next d), opened))"

text \<open>The bytes read, \<open>errno\<close> and the end-of-file indicator.\<close>

definition c_fread :: "Disk \<Rightarrow> nat \<Rightarrow> nat \<Rightarrow> byte list \<times> int \<times> bool \<times> Disk" where
  "c_fread d h n =
     (case d_open d h of
        None \<Rightarrow> ([], d_errno d (d_calls d), False, d)
      | Some (path, pos) \<Rightarrow>
          let rest = drop pos (d_content d path);
              bs = take (min n (d_limit d (d_calls d))) rest
          in (bs, d_errno d (d_calls d), rest = [],
              d\<lparr>d_open := (d_open d)(h \<mapsto> (path, pos + length bs)), d_calls := Suc (d_calls d)\<rparr>))"

definition c_fwrite :: "Disk \<Rightarrow> nat \<Rightarrow> byte list \<Rightarrow> nat \<times> int \<times> Disk" where
  "c_fwrite d h data =
     (case d_open d h of
        None \<Rightarrow> (0, d_errno d (d_calls d), d)
      | Some (path, pos) \<Rightarrow>
          let bs = take (d_limit d (d_calls d)) data;
              old = d_content d path;
              padded = old @ replicate (pos - length old) 0
          in (length bs, d_errno d (d_calls d),
              d\<lparr>d_file := (d_file d)(path \<mapsto> blit padded pos bs),
                d_open := (d_open d)(h \<mapsto> (path, pos + length bs)), d_calls := Suc (d_calls d)\<rparr>))"

definition c_fclose :: "Disk \<Rightarrow> nat \<Rightarrow> Disk" where
  "c_fclose d h = d\<lparr>d_open := (d_open d)(h := None)\<rparr>"

text \<open>\<open>fseek(.., SEEK_SET)\<close> fails on a negative offset.\<close>

definition c_fseek :: "Disk \<Rightarrow> nat \<Rightarrow> int \<Rightarrow> bool \<times> Disk" where
  "c_fseek d h offset =
     (case d_open d h of
        None \<Rightarrow> (False, d)
      | Some (path, pos) \<Rightarrow> if offset < 0 then (False, d) else (True, d\<lparr>d_open := (d_open d)(h \<mapsto> (path, nat offset))\<rparr>))"

definition c_ftell :: "Disk \<Rightarrow> nat \<Rightarrow> int" where
  "c_ftell d h = (case d_open d h of None \<Rightarrow> - 1 | Some (_, pos) \<Rightarrow> int pos)"

definition c_fstat :: "Disk \<Rightarrow> nat \<Rightarrow> nat option" where
  "c_fstat d h = (case d_open d h of None \<Rightarrow> None | Some (path, _) \<Rightarrow> map_option length (d_file d path))"

subsection \<open>The class\<close>

text \<open>The state of a \<open>FileStream\<close> is its \<open>FILE*\<close>, absent when null. A result goes with what is stored
  through the pointer arguments; nothing is stored where the value is absent.\<close>

type_synonym FileStream = "nat option"

definition new_FileStream :: FileStream where
  "new_FileStream = None"

definition FileStream_Close :: "Disk \<Rightarrow> FileStream \<Rightarrow> FileStream \<times> Disk" where
  "FileStream_Close d fs = (case fs of Some h \<Rightarrow> (None, c_fclose d h) | None \<Rightarrow> (None, d))"

definition FileStream_Open :: "Disk \<Rightarrow> FileStream \<Rightarrow> string \<Rightarrow> string \<Rightarrow> bool \<times> int option \<times> FileStream \<times> Disk" where
  "FileStream_Open d fs filename mode =
     (let (fs1, d1) = FileStream_Close d fs in
      case c_fopen d1 (c_str filename) mode of
        (Inl err, d2) \<Rightarrow> (False, Some err, None, d2)
      | (Inr h, d2) \<Rightarrow> (True, None, Some h, d2))"

text \<open>The sharing flag is used on Windows only.\<close>

definition FileStream_OpenShare :: "Disk \<Rightarrow> FileStream \<Rightarrow> string \<Rightarrow> string \<Rightarrow> int \<Rightarrow> bool \<times> int option \<times> FileStream \<times> Disk" where
  "FileStream_OpenShare d fs filename mode shflag =
     (let (fs1, d1) = FileStream_Close d fs in FileStream_Open d1 fs1 filename mode)"

definition FileStream_GetState :: "FileStream \<Rightarrow> StreamState" where
  "FileStream_GetState fs = (if fs = None then SS_CLOSED else SS_OPEN)"

definition FileStream_Read :: "Disk \<Rightarrow> FileStream \<Rightarrow> nat \<Rightarrow> StreamResult \<times> byte list \<times> int option \<times> Disk" where
  "FileStream_Read d fs buffer_len =
     (case fs of
        None \<Rightarrow> (SR_EOS, [], None, d)
      | Some h \<Rightarrow>
          (case c_fread d h buffer_len of (bs, err, eof, d1) \<Rightarrow>
           if bs = [] \<and> buffer_len > 0 then
             if eof then (SR_EOS, [], None, d1) else (SR_ERROR, [], Some err, d1)
           else (SR_SUCCESS, bs, None, d1)))"

definition FileStream_Write :: "Disk \<Rightarrow> FileStream \<Rightarrow> byte list \<Rightarrow> StreamResult \<times> nat \<times> int option \<times> Disk" where
  "FileStream_Write d fs data =
     (case fs of
        None \<Rightarrow> (SR_EOS, 0, None, d)
      | Some h \<Rightarrow>
          (case c_fwrite d h data of (result, err, d1) \<Rightarrow>
           if result = 0 \<and> length data > 0 then (SR_ERROR, 0, Some err, d1) else (SR_SUCCESS, result, None, d1)))"

text \<open>The position is cut to an \<open>int\<close>.\<close>

definition FileStream_SetPosition :: "Disk \<Rightarrow> FileStream \<Rightarrow> nat \<Rightarrow> bool \<times> Disk" where
  "FileStream_SetPosition d fs position =
     (case fs of None \<Rightarrow> (False, d) | Some h \<Rightarrow> c_fseek d h (sint (word_of_nat position :: 32 word)))"

definition FileStream_GetPosition :: "Disk \<Rightarrow> FileStream \<Rightarrow> nat option" where
  "FileStream_GetPosition d fs =
     (case fs of None \<Rightarrow> None | Some h \<Rightarrow> let result = c_ftell d h in if result < 0 then None else Some (nat result))"

definition FileStream_GetSize :: "Disk \<Rightarrow> FileStream \<Rightarrow> nat option" where
  "FileStream_GetSize d fs = (case fs of None \<Rightarrow> None | Some h \<Rightarrow> c_fstat d h)"

text \<open>\<open>*size -= result\<close> on a \<open>size_t\<close>.\<close>

definition FileStream_GetAvailable :: "Disk \<Rightarrow> FileStream \<Rightarrow> uint64 option" where
  "FileStream_GetAvailable d fs =
     (case FileStream_GetSize d fs of
        None \<Rightarrow> None
      | Some sz \<Rightarrow>
          let result = (case fs of None \<Rightarrow> - 1 | Some h \<Rightarrow> c_ftell d h) in
          if result < 0 then None else Some (word_of_nat sz - word_of_int result))"

definition FileStream_ReserveSize :: "Disk \<Rightarrow> FileStream \<Rightarrow> nat \<Rightarrow> bool" where
  "FileStream_ReserveSize d fs n = True"

text \<open>The static \<open>GetSize\<close> of a path.\<close>

definition FileStream_GetSize_path :: "Disk \<Rightarrow> string \<Rightarrow> nat option" where
  "FileStream_GetSize_path d filename = map_option length (d_file d (c_str filename))"

end
