(* ===== verification/StreamBase.thy ===== *)
theory StreamBase
  imports FileStream
begin

text \<open>
  The loops of \<open>StreamInterface\<close> (\<^verbatim>\<open>talk/base/stream.cc\<close>) over the virtual \<open>Read\<close> and \<open>Write\<close>, and the
  contracts of a stream that is written to and of one that is read from. The contracts hold for
  \<open>FifoBuffer\<close> and for an open \<open>FileStream\<close>.

  The virtual method is a parameter of each loop: a function from the state of the stream. A loop
  that does not end has the value \<open>None\<close>.
\<close>

subsection \<open>The loops\<close>

partial_function (option) WriteAll_loop ::
  "('x \<Rightarrow> byte list \<Rightarrow> StreamResult \<times> nat \<times> 'x) \<Rightarrow> byte list \<Rightarrow> nat \<Rightarrow> 'x \<Rightarrow> (StreamResult \<times> nat \<times> 'x) option" where
  "WriteAll_loop wr data pos x =
     (if pos < length data then
        (case wr x (drop pos data) of (result, current, x1) \<Rightarrow>
         if result \<noteq> SR_SUCCESS then Some (result, pos, x1) else WriteAll_loop wr data (pos + current) x1)
      else Some (SR_SUCCESS, pos, x))"

definition WriteAll ::
  "('x \<Rightarrow> byte list \<Rightarrow> StreamResult \<times> nat \<times> 'x) \<Rightarrow> 'x \<Rightarrow> byte list \<Rightarrow> (StreamResult \<times> nat \<times> 'x) option" where
  "WriteAll wr x data = WriteAll_loop wr data 0 x"

text \<open>The bytes read so far are the accumulator, of length \<open>total_read\<close>.\<close>

partial_function (option) ReadAll_loop ::
  "('x \<Rightarrow> nat \<Rightarrow> StreamResult \<times> byte list \<times> 'x) \<Rightarrow> nat \<Rightarrow> byte list \<Rightarrow> 'x \<Rightarrow> (StreamResult \<times> byte list \<times> 'x) option" where
  "ReadAll_loop rd buffer_len acc x =
     (if length acc < buffer_len then
        (case rd x (buffer_len - length acc) of (result, bs, x1) \<Rightarrow>
         if result \<noteq> SR_SUCCESS then Some (result, acc, x1) else ReadAll_loop rd buffer_len (acc @ bs) x1)
      else Some (SR_SUCCESS, acc, x))"

definition ReadAll ::
  "('x \<Rightarrow> nat \<Rightarrow> StreamResult \<times> byte list \<times> 'x) \<Rightarrow> 'x \<Rightarrow> nat \<Rightarrow> (StreamResult \<times> byte list \<times> 'x) option" where
  "ReadAll rd x buffer_len = ReadAll_loop rd buffer_len [] x"

definition NEWLINE :: byte where "NEWLINE = 10"

partial_function (option) ReadLine_loop ::
  "('x \<Rightarrow> nat \<Rightarrow> StreamResult \<times> byte list \<times> 'x) \<Rightarrow> byte list \<Rightarrow> 'x \<Rightarrow> (StreamResult \<times> byte list \<times> 'x) option" where
  "ReadLine_loop rd line x =
     (case rd x 1 of (result, bs, x1) \<Rightarrow>
      if result \<noteq> SR_SUCCESS then Some (result, line, x1)
      else if hd bs = NEWLINE then Some (result, line, x1)
      else ReadLine_loop rd (line @ [hd bs]) x1)"

definition ReadLine ::
  "('x \<Rightarrow> nat \<Rightarrow> StreamResult \<times> byte list \<times> 'x) \<Rightarrow> 'x \<Rightarrow> (StreamResult \<times> byte list \<times> 'x) option" where
  "ReadLine rd x =
     (case ReadLine_loop rd [] x of
        None \<Rightarrow> None
      | Some (result, line, x1) \<Rightarrow> Some (if line \<noteq> [] then SR_SUCCESS else result, line, x1))"

subsection \<open>The contract of a stream that is written to\<close>

locale byte_sink =
  fixes wr :: "'x \<Rightarrow> byte list \<Rightarrow> StreamResult \<times> nat \<times> 'x"
    and put :: "'x \<Rightarrow> byte list"
    and sink_ok :: "'x \<Rightarrow> bool"
  assumes write_keeps: "sink_ok x \<Longrightarrow> wr x data = (r, n, x1) \<Longrightarrow> sink_ok x1"
    and write_some: "sink_ok x \<Longrightarrow> data \<noteq> [] \<Longrightarrow> wr x data = (SR_SUCCESS, n, x1) \<Longrightarrow>
      0 < n \<and> n \<le> length data \<and> put x1 = put x @ take n data"
    and write_none: "sink_ok x \<Longrightarrow> wr x data = (r, n, x1) \<Longrightarrow> r \<noteq> SR_SUCCESS \<Longrightarrow> put x1 = put x"
begin

lemma WriteAll_loop_spec:
  assumes "sink_ok x" and "pos \<le> length data"
  shows "\<exists>r t x1. WriteAll_loop wr data pos x = Some (r, t, x1) \<and> sink_ok x1 \<and> pos \<le> t \<and> t \<le> length data \<and>
    put x1 = put x @ take (t - pos) (drop pos data) \<and> (r = SR_SUCCESS \<longleftrightarrow> t = length data)"
  using assms
proof (induction "length data - pos" arbitrary: pos x rule: less_induct)
  case less
  show ?case
  proof (cases "pos < length data")
    case False
    then show ?thesis using less.prems by (subst WriteAll_loop.simps) simp
  next
    case True
    obtain r n x1 where w: "wr x (drop pos data) = (r, n, x1)" by (metis prod_cases3)
    note k = write_keeps [OF less.prems(1) w]
    show ?thesis
    proof (cases "r = SR_SUCCESS")
      case False
      then show ?thesis using True w k write_none [OF less.prems(1) w False] by (subst WriteAll_loop.simps) simp
    next
      case ok: True
      have "drop pos data \<noteq> []" using True by simp
      note s = write_some [OF less.prems(1) this w [unfolded ok]]
      have n: "0 < n" "pos + n \<le> length data" using s True by auto
      have "length data - (pos + n) < length data - pos" using n True by simp
      from less.hyps [OF this k n(2)] obtain r2 t x2 where i: "WriteAll_loop wr data (pos + n) x1 = Some (r2, t, x2)" "sink_ok x2"
        "pos + n \<le> t" "t \<le> length data" "put x2 = put x1 @ take (t - (pos + n)) (drop (pos + n) data)"
        "r2 = SR_SUCCESS \<longleftrightarrow> t = length data" by blast
      have "take n (drop pos data) @ take (t - (pos + n)) (drop (pos + n) data) = take (t - pos) (drop pos data)"
        using i(3) take_add [of n "t - (pos + n)" "drop pos data"] by (simp add: add.commute)
      then show ?thesis using True ok w i s by (subst WriteAll_loop.simps) simp
    qed
  qed
qed

text \<open>\<open>WriteAll\<close> returns and has written a prefix of the data, all of it exactly when it succeeds.\<close>

lemma WriteAll_spec:
  assumes "sink_ok x"
  shows "\<exists>r t x1. WriteAll wr x data = Some (r, t, x1) \<and> sink_ok x1 \<and> t \<le> length data \<and> put x1 = put x @ take t data \<and>
    (r = SR_SUCCESS \<longleftrightarrow> t = length data)"
  using WriteAll_loop_spec [OF assms, of 0 data] by (auto simp: WriteAll_def)

end

subsection \<open>The contract of a stream that is read from\<close>

locale byte_source =
  fixes rd :: "'x \<Rightarrow> nat \<Rightarrow> StreamResult \<times> byte list \<times> 'x"
    and left :: "'x \<Rightarrow> byte list"
    and source_ok :: "'x \<Rightarrow> bool"
  assumes read_keeps: "source_ok x \<Longrightarrow> rd x n = (r, bs, x1) \<Longrightarrow> source_ok x1"
    and read_some: "source_ok x \<Longrightarrow> 0 < n \<Longrightarrow> rd x n = (SR_SUCCESS, bs, x1) \<Longrightarrow> bs \<noteq> [] \<and> length bs \<le> n \<and> left x = bs @ left x1"
    and read_none: "source_ok x \<Longrightarrow> rd x n = (r, bs, x1) \<Longrightarrow> r \<noteq> SR_SUCCESS \<Longrightarrow> left x1 = left x"
begin

lemma ReadAll_loop_spec:
  assumes "source_ok x" and "length acc \<le> buffer_len"
  shows "\<exists>r bs x1. ReadAll_loop rd buffer_len acc x = Some (r, acc @ bs, x1) \<and> source_ok x1 \<and> length (acc @ bs) \<le> buffer_len \<and>
    left x = bs @ left x1 \<and> (r = SR_SUCCESS \<longleftrightarrow> length (acc @ bs) = buffer_len)"
  using assms
proof (induction "buffer_len - length acc" arbitrary: acc x rule: less_induct)
  case less
  show ?case
  proof (cases "length acc < buffer_len")
    case False
    then show ?thesis using less.prems by (subst ReadAll_loop.simps) simp
  next
    case True
    then have n: "0 < buffer_len - length acc" by simp
    obtain r bs x1 where w: "rd x (buffer_len - length acc) = (r, bs, x1)" by (metis prod_cases3)
    note k = read_keeps [OF less.prems(1) w]
    show ?thesis
    proof (cases "r = SR_SUCCESS")
      case False
      then show ?thesis using True w k read_none [OF less.prems(1) w False] by (subst ReadAll_loop.simps) simp
    next
      case ok: True
      note s = read_some [OF less.prems(1) n w [unfolded ok]]
      have m: "buffer_len - length (acc @ bs) < buffer_len - length acc" "length (acc @ bs) \<le> buffer_len"
        using s True by (cases bs; simp)+
      from less.hyps [OF m(1) k m(2)] obtain r2 bs2 x2 where i: "ReadAll_loop rd buffer_len (acc @ bs) x1 = Some (r2, (acc @ bs) @ bs2, x2)"
        "source_ok x2" "length ((acc @ bs) @ bs2) \<le> buffer_len" "left x1 = bs2 @ left x2"
        "r2 = SR_SUCCESS \<longleftrightarrow> length ((acc @ bs) @ bs2) = buffer_len" by blast
      then show ?thesis using True ok w s by (subst ReadAll_loop.simps) (auto intro!: exI [of _ "bs @ bs2"])
    qed
  qed
qed

text \<open>\<open>ReadAll\<close> returns the next bytes of the stream, as many as were asked for exactly when it succeeds.\<close>

lemma ReadAll_spec:
  assumes "source_ok x"
  shows "\<exists>r bs x1. ReadAll rd x buffer_len = Some (r, bs, x1) \<and> source_ok x1 \<and> length bs \<le> buffer_len \<and> left x = bs @ left x1 \<and>
    (r = SR_SUCCESS \<longleftrightarrow> length bs = buffer_len)"
  using ReadAll_loop_spec [OF assms, of "[]" buffer_len] by (auto simp: ReadAll_def)

lemma ReadLine_loop_spec:
  assumes "source_ok x"
  shows "\<exists>r bs x1. ReadLine_loop rd line x = Some (r, line @ bs, x1) \<and> source_ok x1 \<and> NEWLINE \<notin> set bs \<and>
    left x = bs @ (if r = SR_SUCCESS then [NEWLINE] else []) @ left x1"
  using assms
proof (induction "length (left x)" arbitrary: line x rule: less_induct)
  case less
  obtain r bs x1 where w: "rd x 1 = (r, bs, x1)" by (metis prod_cases3)
  note k = read_keeps [OF less.prems w]
  show ?case
  proof (cases "r = SR_SUCCESS")
    case False
    then show ?thesis using w k read_none [OF less.prems w False] by (subst ReadLine_loop.simps) simp
  next
    case ok: True
    have s: "bs \<noteq> [] \<and> length bs \<le> 1 \<and> left x = bs @ left x1" using read_some [OF less.prems _ w [unfolded ok]] by simp
    then have b: "bs = [hd bs]" by (cases bs) auto
    then have l: "left x = hd bs # left x1" using s by (metis append_Cons append_Nil)
    show ?thesis
    proof (cases "hd bs = NEWLINE")
      case True
      then show ?thesis using w ok k l by (subst ReadLine_loop.simps) simp
    next
      case False
      have "length (left x1) < length (left x)" using l by simp
      from less.hyps [OF this k] obtain r2 bs2 x2 where "ReadLine_loop rd (line @ [hd bs]) x1 = Some (r2, (line @ [hd bs]) @ bs2, x2)"
        "source_ok x2" "NEWLINE \<notin> set bs2" "left x1 = bs2 @ (if r2 = SR_SUCCESS then [NEWLINE] else []) @ left x2" by metis
      then show ?thesis using w ok l False by (subst ReadLine_loop.simps) (auto intro!: exI [of _ "hd bs # bs2"])
    qed
  qed
qed

end

text \<open>A sink that never refuses, and a source that refuses only when nothing is left.\<close>

locale willing_sink = byte_sink +
  assumes write_willing: "sink_ok x \<Longrightarrow> data \<noteq> [] \<Longrightarrow> fst (wr x data) = SR_SUCCESS"
begin

lemma WriteAll_loop_succeeds:
  assumes "sink_ok x" and "pos \<le> length data"
  shows "\<exists>x1. WriteAll_loop wr data pos x = Some (SR_SUCCESS, length data, x1) \<and> sink_ok x1 \<and> put x1 = put x @ drop pos data"
  using assms
proof (induction "length data - pos" arbitrary: pos x rule: less_induct)
  case less
  show ?case
  proof (cases "pos < length data")
    case False
    then show ?thesis using less.prems by (subst WriteAll_loop.simps) simp
  next
    case True
    then have ne: "drop pos data \<noteq> []" by simp
    obtain n x1 where w: "wr x (drop pos data) = (SR_SUCCESS, n, x1)"
      using write_willing [OF less.prems(1) ne] by (metis fst_conv prod_cases3)
    note k = write_keeps [OF less.prems(1) w] and s = write_some [OF less.prems(1) ne w]
    have n: "length data - (pos + n) < length data - pos" "pos + n \<le> length data" using s True by auto
    from less.hyps [OF n(1) k n(2)] obtain x2 where "WriteAll_loop wr data (pos + n) x1 = Some (SR_SUCCESS, length data, x2)"
      "sink_ok x2" "put x2 = put x1 @ drop (pos + n) data" by blast
    moreover have "take n (drop pos data) @ drop (pos + n) data = drop pos data"
      by (metis add.commute append_take_drop_id drop_drop)
    ultimately show ?thesis using True w s by (subst WriteAll_loop.simps) simp
  qed
qed

end

locale prompt_source = byte_source +
  assumes read_prompt: "source_ok x \<Longrightarrow> 0 < n \<Longrightarrow> left x \<noteq> [] \<Longrightarrow> fst (rd x n) = SR_SUCCESS"
begin

lemma ReadAll_loop_prompt:
  assumes "source_ok x" and "length acc \<le> buffer_len" and "ReadAll_loop rd buffer_len acc x = Some (r, bs, x1)"
  shows "r = SR_SUCCESS \<or> left x1 = []"
  using assms
proof (induction "buffer_len - length acc" arbitrary: acc x rule: less_induct)
  case less
  show ?case
  proof (cases "length acc < buffer_len")
    case False
    then show ?thesis using less.prems(3) by (subst (asm) ReadAll_loop.simps) simp
  next
    case True
    then have n: "0 < buffer_len - length acc" by simp
    obtain r2 bs2 x2 where w: "rd x (buffer_len - length acc) = (r2, bs2, x2)" by (metis prod_cases3)
    show ?thesis
    proof (cases "r2 = SR_SUCCESS")
      case False
      then have "left x = []" using read_prompt [OF less.prems(1) n] w by auto
      then show ?thesis using False True w less.prems(3) read_none [OF less.prems(1) w False]
        by (subst (asm) ReadAll_loop.simps) simp
    next
      case ok: True
      note s = read_some [OF less.prems(1) n w [unfolded ok]]
      have m: "buffer_len - length (acc @ bs2) < buffer_len - length acc" "length (acc @ bs2) \<le> buffer_len"
        using s True by (cases bs2; simp)+
      have "ReadAll_loop rd buffer_len (acc @ bs2) x2 = Some (r, bs, x1)"
        using less.prems(3) True w ok by (subst (asm) ReadAll_loop.simps) simp
      then show ?thesis by (rule less.hyps [OF m(1) read_keeps [OF less.prems(1) w] m(2)])
    qed
  qed
qed

lemma ReadAll_available:
  assumes "source_ok x" and "n \<le> length (left x)"
  shows "\<exists>x1. ReadAll rd x n = Some (SR_SUCCESS, take n (left x), x1) \<and> source_ok x1 \<and> left x1 = drop n (left x)"
proof -
  obtain r bs x1 where r: "ReadAll rd x n = Some (r, bs, x1)" "source_ok x1" "length bs \<le> n" "left x = bs @ left x1"
    "r = SR_SUCCESS \<longleftrightarrow> length bs = n" using ReadAll_spec [OF assms(1)] by blast
  have "r = SR_SUCCESS \<or> left x1 = []"
    by (rule ReadAll_loop_prompt [OF assms(1), of "[]" n r bs]) (use r(1) in \<open>simp_all add: ReadAll_def\<close>)
  then have "r = SR_SUCCESS" using r(3,4,5) assms(2) by auto
  then show ?thesis using r by auto
qed

lemma ReadLine_loop_prompt:
  assumes "source_ok x" and "ReadLine_loop rd line x = Some (r, bs, x1)"
  shows "r = SR_SUCCESS \<or> left x1 = []"
  using assms
proof (induction "length (left x)" arbitrary: line x rule: less_induct)
  case less
  obtain r2 bs2 x2 where w: "rd x 1 = (r2, bs2, x2)" by (metis prod_cases3)
  show ?case
  proof (cases "r2 = SR_SUCCESS")
    case False
    then have "left x = []" using read_prompt [OF less.prems(1), of 1] w by auto
    then show ?thesis using False w less.prems(2) read_none [OF less.prems(1) w False] by (subst (asm) ReadLine_loop.simps) simp
  next
    case ok: True
    have s: "bs2 \<noteq> [] \<and> left x = bs2 @ left x2" using read_some [OF less.prems(1) _ w [unfolded ok]] by simp
    then have m: "length (left x2) < length (left x)" by (cases bs2) auto
    show ?thesis
    proof (cases "hd bs2 = NEWLINE")
      case True
      then show ?thesis using w ok less.prems(2) by (subst (asm) ReadLine_loop.simps) simp
    next
      case False
      have "ReadLine_loop rd (line @ [hd bs2]) x2 = Some (r, bs, x1)"
        using less.prems(2) w ok False by (subst (asm) ReadLine_loop.simps) simp
      then show ?thesis by (rule less.hyps [OF m read_keeps [OF less.prems(1) w]])
    qed
  qed
qed

text \<open>\<open>ReadLine\<close> returns the bytes up to the next line feed, or up to the end, and takes the line feed out as well.\<close>

lemma ReadLine_prompt:
  assumes "source_ok x"
  shows "\<exists>r x1. ReadLine rd x = Some (r, takeWhile (\<lambda>b. b \<noteq> NEWLINE) (left x), x1) \<and> source_ok x1 \<and>
    left x1 = tl (dropWhile (\<lambda>b. b \<noteq> NEWLINE) (left x))"
proof -
  obtain r bs x1 where r: "ReadLine_loop rd [] x = Some (r, bs, x1)" "source_ok x1" "NEWLINE \<notin> set bs"
    "left x = bs @ (if r = SR_SUCCESS then [NEWLINE] else []) @ left x1" using ReadLine_loop_spec [OF assms, of "[]"] by auto
  have p: "r = SR_SUCCESS \<or> left x1 = []" by (rule ReadLine_loop_prompt [OF assms r(1)])
  have "takeWhile (\<lambda>b. b \<noteq> NEWLINE) (left x) = bs \<and> tl (dropWhile (\<lambda>b. b \<noteq> NEWLINE) (left x)) = left x1"
  proof (cases "r = SR_SUCCESS")
    case True
    then have "left x = bs @ NEWLINE # left x1" using r(4) by simp
    moreover have "takeWhile (\<lambda>b. b \<noteq> NEWLINE) (bs @ NEWLINE # left x1) = bs @ takeWhile (\<lambda>b. b \<noteq> NEWLINE) (NEWLINE # left x1)"
      by (rule takeWhile_append2) (use r(3) in auto)
    moreover have "dropWhile (\<lambda>b. b \<noteq> NEWLINE) (bs @ NEWLINE # left x1) = dropWhile (\<lambda>b. b \<noteq> NEWLINE) (NEWLINE # left x1)"
      by (rule dropWhile_append2) (use r(3) in auto)
    ultimately show ?thesis by simp
  next
    case False
    then have "left x = bs" "left x1 = []" using r(4) p by simp_all
    moreover have "takeWhile (\<lambda>b. b \<noteq> NEWLINE) bs = bs" using r(3) by (auto simp: takeWhile_eq_all_conv)
    moreover have "dropWhile (\<lambda>b. b \<noteq> NEWLINE) bs = []" using r(3) by (auto simp: dropWhile_eq_Nil_conv)
    ultimately show ?thesis by (metis list.sel(2))
  qed
  then show ?thesis using r(1,2) by (auto simp: ReadLine_def)
qed

end

subsection \<open>FifoBuffer\<close>

lemma FB_Write_success:
  assumes "fb_inv f" and "FB_Write f xs = (SR_SUCCESS, n, f')" and "xs \<noteq> []"
  shows "0 < n"
proof (cases "fb_state f \<noteq> SS_CLOSED \<and> fb_data_length f < fb_buffer_length f")
  case True
  then have "n = min (length xs) (fb_buffer_length f - fb_data_length f)"
    using FB_Write_spec [OF assms(1) _ _ refl, of xs] assms(2) by (metis prod.inject)
  then show ?thesis using True assms(3) by (cases xs) auto
next
  case False
  then show ?thesis using assms(2) by (auto simp: FB_Write_def WriteOffsetLocked_def Let_def split: if_splits)
qed

lemma FB_Read_success:
  assumes "fb_inv f" and "FB_Read f n = (SR_SUCCESS, bs, f')" and "0 < n"
  shows "bs \<noteq> [] \<and> length bs \<le> n"
proof (cases "0 < fb_data_length f")
  case True
  then have "bs = take n (fb_data f)" using FB_Read_spec [OF assms(1) True, of n] assms(2) by (metis prod.inject)
  then show ?thesis using True assms(1,3) length_fb_data [of f] by auto
next
  case False
  then show ?thesis using assms(2) by (auto simp: FB_Read_def ReadOffsetLocked_def split: if_splits)
qed

lemma FB_failed:
  assumes "fb_inv f"
  shows "FB_Write f xs = (r, n, f') \<Longrightarrow> r \<noteq> SR_SUCCESS \<Longrightarrow> n = 0" and "FB_Read f k = (r, bs, f') \<Longrightarrow> r \<noteq> SR_SUCCESS \<Longrightarrow> bs = []"
  by (auto simp: FB_Write_def WriteOffsetLocked_def FB_Read_def ReadOffsetLocked_def Let_def split: if_splits prod.splits)

interpretation fifo_sink: byte_sink FB_Write fb_data fb_inv
proof
  fix x x1 :: FifoBuffer and data r n
  assume x: "fb_inv x"
  show "FB_Write x data = (r, n, x1) \<Longrightarrow> fb_inv x1" using FB_Write_cases [OF x] by blast
  show "0 < n \<and> n \<le> length data \<and> fb_data x1 = fb_data x @ take n data" if "data \<noteq> []" "FB_Write x data = (SR_SUCCESS, n, x1)"
    using FB_Write_cases [OF x that(2)] FB_Write_success [OF x that(2,1)] by blast
  show "fb_data x1 = fb_data x" if "FB_Write x data = (r, n, x1)" "r \<noteq> SR_SUCCESS"
    using FB_Write_cases [OF x that(1)] FB_failed(1) [OF x that] by simp
qed

interpretation fifo_source: byte_source FB_Read fb_data fb_inv
proof
  fix x x1 :: FifoBuffer and n r bs
  assume x: "fb_inv x"
  show "FB_Read x n = (r, bs, x1) \<Longrightarrow> fb_inv x1" using FB_Read_cases [OF x] by blast
  show "bs \<noteq> [] \<and> length bs \<le> n \<and> fb_data x = bs @ fb_data x1" if "0 < n" "FB_Read x n = (SR_SUCCESS, bs, x1)"
    using FB_Read_cases [OF x that(2)] FB_Read_success [OF x that(2,1)] by blast
  show "fb_data x1 = fb_data x" if "FB_Read x n = (r, bs, x1)" "r \<noteq> SR_SUCCESS"
    using FB_Read_cases [OF x that(1)] FB_failed(2) [OF x that] by simp
qed

subsection \<open>FileStream\<close>

text \<open>A file stream with an open handle, as a stream over the disk.\<close>

definition file_wr :: "nat \<Rightarrow> Disk \<Rightarrow> byte list \<Rightarrow> StreamResult \<times> nat \<times> Disk" where
  "file_wr h d data = (case FileStream_Write d (Some h) data of (r, n, _, d1) \<Rightarrow> (r, n, d1))"

definition file_rd :: "nat \<Rightarrow> Disk \<Rightarrow> nat \<Rightarrow> StreamResult \<times> byte list \<times> Disk" where
  "file_rd h d n = (case FileStream_Read d (Some h) n of (r, bs, _, d1) \<Rightarrow> (r, bs, d1))"

definition file_left :: "nat \<Rightarrow> Disk \<Rightarrow> byte list" where
  "file_left h d = (case d_open d h of None \<Rightarrow> [] | Some (path, pos) \<Rightarrow> drop pos (d_content d path))"

definition at_end :: "nat \<Rightarrow> string \<Rightarrow> Disk \<Rightarrow> bool" where
  "at_end h path d \<longleftrightarrow> d_open d h = Some (path, length (d_content d path))"

definition opened :: "nat \<Rightarrow> string \<Rightarrow> byte list \<Rightarrow> Disk \<Rightarrow> bool" where
  "opened h path content d \<longleftrightarrow> (\<exists>pos. d_open d h = Some (path, pos)) \<and> d_content d path = content"

interpretation file_sink: byte_sink "file_wr h" "\<lambda>d. d_content d path" "at_end h path" for h path
proof
  fix d d1 r n and data :: "byte list"
  assume d: "at_end h path d"
  let ?bs = "take (d_limit d (d_calls d)) data"
  have w: "c_fwrite d h data = (length ?bs, d_errno d (d_calls d), d\<lparr>d_file := (d_file d)(path \<mapsto> d_content d path @ ?bs),
      d_open := (d_open d)(h \<mapsto> (path, length (d_content d path) + length ?bs)), d_calls := Suc (d_calls d)\<rparr>)"
    using d by (simp add: c_fwrite_def at_end_def Let_def blit_def)
  show "file_wr h d data = (r, n, d1) \<Longrightarrow> at_end h path d1"
    using w by (auto simp: file_wr_def FileStream_Write_def at_end_def d_content_def split: if_splits)
  show "0 < n \<and> n \<le> length data \<and> d_content d1 path = d_content d path @ take n data"
    if "data \<noteq> []" "file_wr h d data = (SR_SUCCESS, n, d1)"
    using that w by (auto simp: file_wr_def FileStream_Write_def d_content_def min_def split: if_splits)
  show "d_content d1 path = d_content d path" if "file_wr h d data = (r, n, d1)" "r \<noteq> SR_SUCCESS"
    using that w by (auto simp: file_wr_def FileStream_Write_def d_content_def min_def split: if_splits)
qed

interpretation file_source: byte_source "file_rd h" "file_left h" "opened h path content" for h path content
proof
  fix d d1 n r bs
  assume d: "opened h path content d"
  then obtain pos where p: "d_open d h = Some (path, pos)" "d_content d path = content" by (auto simp: opened_def)
  define b where "b = take (min n (d_limit d (d_calls d))) (drop pos content)"
  have l: "drop pos content = b @ drop (pos + length b) content" "length b \<le> n" unfolding b_def
    by (metis append_take_drop_id append_eq_conv_conj drop_drop add.commute) simp
  have w: "c_fread d h n = (b, d_errno d (d_calls d), drop pos content = [],
      d\<lparr>d_open := (d_open d)(h \<mapsto> (path, pos + length b)), d_calls := Suc (d_calls d)\<rparr>)"
    using p by (simp add: c_fread_def Let_def b_def)
  have c: "d_content (d\<lparr>d_open := x, d_calls := y\<rparr>) path = content" for x y using p(2) by (simp add: d_content_def)
  show "file_rd h d n = (r, bs, d1) \<Longrightarrow> opened h path content d1"
    using w c by (auto simp: file_rd_def FileStream_Read_def opened_def split: if_splits)
  show "bs \<noteq> [] \<and> length bs \<le> n \<and> file_left h d = bs @ file_left h d1" if "0 < n" "file_rd h d n = (SR_SUCCESS, bs, d1)"
    using that w c l p by (auto simp: file_rd_def FileStream_Read_def file_left_def split: if_splits)
  show "file_left h d1 = file_left h d" if "file_rd h d n = (r, bs, d1)" "r \<noteq> SR_SUCCESS"
    using that w c p by (auto simp: file_rd_def FileStream_Read_def file_left_def split: if_splits)
qed

text \<open>Without I/O errors a file takes whatever is written and gives whatever it holds.\<close>

definition no_errors :: "Disk \<Rightarrow> bool" where
  "no_errors d \<longleftrightarrow> (\<forall>i. 0 < d_limit d i)"

lemma file_keeps_limit:
  "file_wr h d data = (r, n, d1) \<Longrightarrow> no_errors d1 = no_errors d" "file_rd h d k = (r2, bs, d2) \<Longrightarrow> no_errors d2 = no_errors d"
  by (auto simp: file_wr_def file_rd_def FileStream_Write_def FileStream_Read_def c_fwrite_def c_fread_def no_errors_def Let_def
      split: option.splits prod.splits if_splits)

lemma file_wr_keeps:
  "file_wr h d data = (r, n, d1) \<Longrightarrow> d_deny d1 = d_deny d \<and> (d_file d p \<noteq> None \<longrightarrow> d_file d1 p \<noteq> None)"
  by (auto simp: file_wr_def FileStream_Write_def c_fwrite_def Let_def split: option.splits prod.splits if_splits)

definition file_ready :: "nat \<Rightarrow> string \<Rightarrow> (string \<Rightarrow> int option) \<Rightarrow> Disk \<Rightarrow> bool" where
  "file_ready h path deny d \<longleftrightarrow> at_end h path d \<and> no_errors d \<and> d_deny d = deny \<and> d_file d path \<noteq> None"

interpretation sound_file: willing_sink "file_wr h" "\<lambda>d. d_content d path" "file_ready h path deny" for h path deny
proof
  fix d d1 r n and data :: "byte list"
  assume r: "file_ready h path deny d"
  then have d: "at_end h path d \<and> no_errors d" by (simp add: file_ready_def)
  show "file_wr h d data = (r, n, d1) \<Longrightarrow> file_ready h path deny d1"
    using r file_sink.write_keeps file_keeps_limit(1) file_wr_keeps unfolding file_ready_def by metis
  show "data \<noteq> [] \<Longrightarrow> file_wr h d data = (SR_SUCCESS, n, d1) \<Longrightarrow>
      0 < n \<and> n \<le> length data \<and> d_content d1 path = d_content d path @ take n data"
    using file_sink.write_some d by metis
  show "file_wr h d data = (r, n, d1) \<Longrightarrow> r \<noteq> SR_SUCCESS \<Longrightarrow> d_content d1 path = d_content d path"
    using file_sink.write_none d by metis
  show "data \<noteq> [] \<Longrightarrow> fst (file_wr h d data) = SR_SUCCESS"
    using d by (auto simp: file_wr_def FileStream_Write_def c_fwrite_def at_end_def no_errors_def Let_def split: prod.splits)
qed

interpretation sound_source: prompt_source "file_rd h" "file_left h" "\<lambda>d. opened h path content d \<and> no_errors d" for h path content
proof
  fix d d1 n r bs
  assume d: "opened h path content d \<and> no_errors d"
  show "file_rd h d n = (r, bs, d1) \<Longrightarrow> opened h path content d1 \<and> no_errors d1"
    using file_source.read_keeps d file_keeps_limit(2) by metis
  show "0 < n \<Longrightarrow> file_rd h d n = (SR_SUCCESS, bs, d1) \<Longrightarrow> bs \<noteq> [] \<and> length bs \<le> n \<and> file_left h d = bs @ file_left h d1"
    using file_source.read_some d by metis
  show "file_rd h d n = (r, bs, d1) \<Longrightarrow> r \<noteq> SR_SUCCESS \<Longrightarrow> file_left h d1 = file_left h d"
    using file_source.read_none d by metis
  show "0 < n \<Longrightarrow> file_left h d \<noteq> [] \<Longrightarrow> fst (file_rd h d n) = SR_SUCCESS"
    using d by (auto simp: file_rd_def FileStream_Read_def c_fread_def opened_def no_errors_def file_left_def Let_def min_def
        split: prod.splits if_splits) (metis less_numeral_extra(3))
qed

interpretation fifo_prompt: prompt_source FB_Read fb_data fb_inv
proof
  fix x :: FifoBuffer and n :: nat
  assume x: "fb_inv x" and l: "fb_data x \<noteq> []"
  then have "0 < fb_data_length x" using length_fb_data [of x] by (metis length_greater_0_conv)
  then show "fst (FB_Read x n) = SR_SUCCESS" using FB_Read_spec [OF x] by (metis fst_conv)
qed

subsection \<open>Properties\<close>

text \<open>What is written to a file with \<open>WriteAll\<close> is what \<open>ReadAll\<close> reads from it after it is
  closed and opened again, however the transfers are cut up; both loops return.\<close>

theorem file_round_trip:
  assumes "d_deny d (c_str name) = None" and "no_errors d"
  shows "\<exists>h d1 d2 d3 h2 d4 d5. FileStream_Open d None name ''wb'' = (True, None, Some h, d1) \<and>
    WriteAll (file_wr h) d1 data = Some (SR_SUCCESS, length data, d2) \<and> FileStream_Close d2 (Some h) = (None, d3) \<and>
    FileStream_Open d3 None name ''rb'' = (True, None, Some h2, d4) \<and> ReadAll (file_rd h2) d4 (length data) = Some (SR_SUCCESS, data, d5)"
proof -
  let ?p = "c_str name" and ?h = "d_next d"
  let ?d1 = "d\<lparr>d_open := (d_open d)(d_next d \<mapsto> (?p, 0)), d_next := Suc (d_next d), d_file := (d_file d)(?p \<mapsto> [])\<rparr>"
  have o1: "FileStream_Open d None name ''wb'' = (True, None, Some ?h, ?d1)"
    using assms(1) by (simp add: FileStream_Open_def FileStream_Close_def c_fopen_def)
  have a1: "file_ready ?h ?p (d_deny d) ?d1" using assms(2) by (simp add: file_ready_def at_end_def d_content_def no_errors_def)
  obtain d2 where w: "WriteAll (file_wr ?h) ?d1 data = Some (SR_SUCCESS, length data, d2)" "file_ready ?h ?p (d_deny d) d2"
    "d_content d2 ?p = data"
    using sound_file.WriteAll_loop_succeeds [OF a1, of 0 data] by (auto simp: WriteAll_def d_content_def)
  have deny: "d_deny d2 = d_deny d" "d_file d2 ?p \<noteq> None"
    using w(2) by (simp_all add: file_ready_def)
  let ?d3 = "c_fclose d2 ?h"
  have d3: "d_deny ?d3 = d_deny d" "d_file ?d3 = d_file d2" using deny by (simp_all add: c_fclose_def)
  let ?d4 = "?d3\<lparr>d_open := (d_open ?d3)(d_next ?d3 \<mapsto> (?p, 0)), d_next := Suc (d_next ?d3)\<rparr>"
  have o2: "FileStream_Open ?d3 None name ''rb'' = (True, None, Some (d_next ?d3), ?d4)"
    using assms(1) deny(2) by (simp add: FileStream_Open_def FileStream_Close_def c_fopen_def d3)
  have a4: "opened (d_next ?d3) ?p data ?d4 \<and> no_errors ?d4" and l4: "file_left (d_next ?d3) ?d4 = data"
    using w(2,3) by (simp_all add: file_ready_def opened_def d_content_def no_errors_def file_left_def d3 c_fclose_def)
  obtain d5 where "ReadAll (file_rd (d_next ?d3)) ?d4 (length data) = Some (SR_SUCCESS, data, d5)"
    using sound_source.ReadAll_available [OF a4, of "length data"] l4 by auto
  moreover have "FileStream_Close d2 (Some ?h) = (None, ?d3)" by (simp add: FileStream_Close_def)
  ultimately show ?thesis using o1 w(1) o2 by blast
qed

definition demo_disk :: Disk where
  "demo_disk = \<lparr>d_file = Map.empty, d_open = Map.empty, d_next = 3, d_deny = \<lambda>_. None, d_limit = \<lambda>i. Suc i, d_errno = \<lambda>_. 5, d_calls = 0\<rparr>"

theorem file_round_trip_witness:
  "\<exists>h d1 d2 d3 h2 d4 d5. FileStream_Open demo_disk None ''a.txt'' ''wb'' = (True, None, Some h, d1) \<and>
    WriteAll (file_wr h) d1 [1, 2, 3] = Some (SR_SUCCESS, 3, d2) \<and> FileStream_Close d2 (Some h) = (None, d3) \<and>
    FileStream_Open d3 None ''a.txt'' ''rb'' = (True, None, Some h2, d4) \<and> ReadAll (file_rd h2) d4 3 = Some (SR_SUCCESS, [1, 2, 3], d5)"
  using file_round_trip [of demo_disk "''a.txt''" "[1, 2, 3]"] by (simp add: demo_disk_def no_errors_def numeral_3_eq_3)

text \<open>\<open>ReadLine\<close> on a \<open>FifoBuffer\<close> returns, gives the bytes before the next line feed or all bytes
  when there is none, and leaves what follows the line feed.\<close>

theorem read_line_correct:
  assumes "fb_inv f"
  shows "\<exists>r f1. ReadLine FB_Read f = Some (r, takeWhile (\<lambda>b. b \<noteq> NEWLINE) (fb_data f), f1) \<and> fb_inv f1 \<and>
    fb_data f1 = tl (dropWhile (\<lambda>b. b \<noteq> NEWLINE) (fb_data f))"
  by (rule fifo_prompt.ReadLine_prompt [OF assms])

theorem read_line_correct_witness:
  "\<exists>r f1. ReadLine FB_Read (snd (snd (FB_Write (new_FifoBuffer (\<lambda>_. 0) 8) [65, 10, 66]))) = Some (r, [65], f1) \<and> fb_data f1 = [66]"
proof -
  let ?f = "snd (snd (FB_Write (new_FifoBuffer (\<lambda>_. 0) 8) [65, 10, 66]))"
  have "fb_inv ?f" "fb_data ?f = [65, 10, 66]" by code_simp+
  then show ?thesis using read_line_correct [of ?f] by (auto simp: NEWLINE_def)
qed

end
