(* ===== verification/Pump.thy ===== *)
theory Pump
  imports StreamBase
begin

text \<open>
  \<open>main/customxmpppump.cc\<close>: the file transfer over a tunnel. A server answers incoming tunnels; a client
  hands a tunnel and a file to \<open>ProcessStream\<close>. \<open>OnStreamEvent\<close> then moves the bytes between the two
  whenever the tunnel can be written or has data.

  The tunnel is any \<open>StreamInterface\<close>: its methods are the record \<open>Stream\<close>, functions of its state. What
  is printed is left out. An access through the null \<open>file_\<close> and a failed assertion are faults; a
  loop that does not end has the value \<open>None\<close>.
\<close>

record 's Stream =
  s_GetState :: "'s \<Rightarrow> StreamState"
  s_Read :: "'s \<Rightarrow> nat \<Rightarrow> StreamResult \<times> byte list \<times> 's"
  s_Write :: "'s \<Rightarrow> byte list \<Rightarrow> StreamResult \<times> nat \<times> 's"
  s_Close :: "'s \<Rightarrow> 's"

definition MSG_LOGIN_COMPLETE :: uint32 where "MSG_LOGIN_COMPLETE = 1"
definition MSG_LOGIN_FAILED :: uint32 where "MSG_LOGIN_FAILED = 2"
definition MSG_DONE :: uint32 where "MSG_DONE = 3"

datatype XmppEngineState = STATE_NONE | STATE_START | STATE_OPENING | STATE_OPEN | STATE_CLOSED

definition BUFFER_SIZE :: nat where "BUFFER_SIZE = 1024 * 64"

text \<open>\<open>p_posted\<close> lists the messages posted to the thread, each with its delay in milliseconds; \<open>p_disk\<close> is
  the disk the files are on.\<close>

record Pump =
  p_server :: bool
  p_sending :: bool
  p_file :: "FileStream option"
  p_buffer :: "byte list"
  p_buffer_len :: nat
  p_posted :: "(nat \<times> uint32) list"
  p_disk :: Disk

text \<open>The constructor leaves \<open>sending_\<close>, \<open>buffer_\<close> and \<open>buffer_len_\<close> unspecified.\<close>

definition new_Pump :: "bool \<Rightarrow> (nat \<Rightarrow> byte) \<Rightarrow> nat \<Rightarrow> Disk \<Rightarrow> Pump" where
  "new_Pump junk g n d = \<lparr>p_server = False, p_sending = junk, p_file = None, p_buffer = new_char g BUFFER_SIZE,
     p_buffer_len = n, p_posted = [], p_disk = d\<rparr>"

definition Serve :: "Pump \<Rightarrow> Pump" where
  "Serve p = p\<lparr>p_server := True\<rparr>"

definition Post :: "nat \<Rightarrow> uint32 \<Rightarrow> Pump \<Rightarrow> Pump" where
  "Post delay msg p = p\<lparr>p_posted := p_posted p @ [(delay, msg)]\<rparr>"

fun OnStateChange :: "XmppEngineState \<Rightarrow> Pump \<Rightarrow> Pump" where
  "OnStateChange STATE_OPEN p = Post 0 MSG_LOGIN_COMPLETE p"
| "OnStateChange STATE_CLOSED p = Post 0 MSG_LOGIN_FAILED p"
| "OnStateChange _ p = p"

text \<open>Destroying the \<open>FileStream\<close> closes its file.\<close>

definition Cleanup :: "'s Stream \<Rightarrow> Pump \<Rightarrow> 's \<Rightarrow> bool \<Rightarrow> Pump \<times> 's" where
  "Cleanup T p s delay =
     (let d1 = (case p_file p of None \<Rightarrow> p_disk p | Some fs \<Rightarrow> snd (FileStream_Close (p_disk p) fs));
          p1 = p\<lparr>p_file := None, p_disk := d1\<rparr>
      in (if p_server p then p1 else Post (if delay then 2000 else 0) MSG_DONE p1, s_Close T s))"

definition fs_read :: "FileStream \<Rightarrow> Disk \<Rightarrow> nat \<Rightarrow> StreamResult \<times> byte list \<times> Disk" where
  "fs_read fs d n = (case FileStream_Read d fs n of (r, bs, _, d1) \<Rightarrow> (r, bs, d1))"

definition fs_write :: "FileStream \<Rightarrow> Disk \<Rightarrow> byte list \<Rightarrow> StreamResult \<times> nat \<times> Disk" where
  "fs_write fs d data = (case FileStream_Write d fs data of (r, n, _, d1) \<Rightarrow> (r, n, d1))"

text \<open>The loops of \<open>OnStreamEvent\<close>. The inner ones have the form of \<open>WriteAll\<close> and \<open>ReadAll\<close> over \<open>buffer_\<close>.\<close>

partial_function (option) send_loop :: "'s Stream \<Rightarrow> Pump \<Rightarrow> 's \<Rightarrow> (Pump \<times> 's) exec option" where
  "send_loop T p s =
     (case WriteAll_loop (s_Write T) (take (p_buffer_len p) (p_buffer p)) 0 s of
        None \<Rightarrow> None
      | Some (result, write_pos, s1) \<Rightarrow>
          if result = SR_BLOCK then
            let buffer_len = p_buffer_len p - write_pos in
            Some (Inr (p\<lparr>p_buffer_len := buffer_len, p_buffer := blit (p_buffer p) 0 (take buffer_len (drop write_pos (p_buffer p)))\<rparr>, s1))
          else if result \<noteq> SR_SUCCESS then Some (Inr (Cleanup T p s1 False))
          else
            (case p_file p of
               None \<Rightarrow> Some (Inl Null_pointer)
             | Some fs \<Rightarrow>
                 (case ReadAll_loop (fs_read fs) BUFFER_SIZE [] (p_disk p) of
                    None \<Rightarrow> None
                  | Some (result2, bs, d1) \<Rightarrow>
                      let p1 = p\<lparr>p_buffer := blit (p_buffer p) 0 bs, p_buffer_len := length bs, p_disk := d1\<rparr> in
                      if result2 = SR_SUCCESS then send_loop T p1 s1
                      else if result2 = SR_EOS then
                        if length bs > 0 then send_loop T p1 s1 else Some (Inr (Cleanup T p1 s1 True))
                      else Some (Inr (Cleanup T p1 s1 False)))))"

partial_function (option) recv_loop :: "'s Stream \<Rightarrow> Pump \<Rightarrow> 's \<Rightarrow> (Pump \<times> 's) exec option" where
  "recv_loop T p s =
     (case ReadAll_loop (s_Read T) BUFFER_SIZE [] s of
        None \<Rightarrow> None
      | Some (result, bs, s1) \<Rightarrow>
          let p1 = p\<lparr>p_buffer := blit (p_buffer p) 0 bs, p_buffer_len := length bs\<rparr> in
          if result = SR_BLOCK \<and> bs = [] then Some (Inr (p1, s1))
          else if result \<noteq> SR_SUCCESS \<and> result \<noteq> SR_BLOCK then Some (Inr (Cleanup T p1 s1 False))
          else
            (case p_file p1 of
               None \<Rightarrow> Some (Inl Null_pointer)
             | Some fs \<Rightarrow>
                 (case WriteAll_loop (fs_write fs) (take (p_buffer_len p1) (p_buffer p1)) 0 (p_disk p1) of
                    None \<Rightarrow> None
                  | Some (result2, write_pos, d1) \<Rightarrow>
                      let p2 = p1\<lparr>p_disk := d1\<rparr> in
                      if result2 = SR_SUCCESS then recv_loop T p2 s1 else Some (Inr (Cleanup T p2 s1 False)))))"

text \<open>The event flags are a set.\<close>

definition OnStreamEvent :: "'s Stream \<Rightarrow> Pump \<Rightarrow> 's \<Rightarrow> StreamEvent set \<Rightarrow> (Pump \<times> 's) exec option" where
  "OnStreamEvent T p s events =
     (if SE_CLOSE \<in> events then Some (Inr (Cleanup T p s False))
      else if p_sending p \<and> SE_WRITE \<in> events then send_loop T p s
      else if \<not> p_sending p \<and> SE_READ \<in> events then recv_loop T p s
      else Some (Inr (p, s)))"

definition ProcessStream :: "'s Stream \<Rightarrow> Pump \<Rightarrow> 's \<Rightarrow> string \<Rightarrow> bool \<Rightarrow> (bool \<times> Pump \<times> 's) exec option" where
  "ProcessStream T p s filename snd_flag =
     (if p_file p \<noteq> None then Some (Inl Assertion_failed)
      else
        case FileStream_Open (p_disk p) new_FileStream (c_str filename) (if snd_flag then ''rb'' else ''wb'') of (ok, err, fs, d1) \<Rightarrow>
        let p1 = p\<lparr>p_sending := snd_flag, p_file := Some fs, p_buffer_len := 0, p_disk := d1\<rparr> in
        if \<not> ok then Some (Inr (False, p1, s))
        else if s_GetState T s = SS_CLOSED then Some (Inr (False, p1, s))
        else if s_GetState T s = SS_OPEN then
          (case OnStreamEvent T p1 s {SE_OPEN, SE_READ, SE_WRITE} of
             None \<Rightarrow> None
           | Some (Inl f) \<Rightarrow> Some (Inl f)
           | Some (Inr (p2, s2)) \<Rightarrow> Some (Inr (True, p2, s2)))
        else Some (Inr (True, p1, s)))"

text \<open>An incoming tunnel is declined or accepted; the stream that \<open>AcceptTunnel\<close> gives is the argument.\<close>

datatype 's TunnelReply = Declined | Accepted 's

definition OnIncomingTunnel :: "'s Stream \<Rightarrow> Pump \<Rightarrow> string \<Rightarrow> 's \<Rightarrow> ('s TunnelReply \<times> Pump) exec option" where
  "OnIncomingTunnel T p description accepted =
     (if \<not> p_server p \<or> p_file p \<noteq> None then Some (Inr (Declined, p))
      else
        let answer = (\<lambda>snd_flag.
              case ProcessStream T p accepted (drop 5 description) snd_flag of
                None \<Rightarrow> None
              | Some (Inl f) \<Rightarrow> Some (Inl f)
              | Some (Inr (ok, p1, s1)) \<Rightarrow> Some (Inr (Accepted s1, if ok then p1 else Post 0 MSG_DONE p1)))
        in if take 5 (c_str description) = ''send:'' then answer True
           else if take 5 (c_str description) = ''recv:'' then answer False
           else Some (Inr (Declined, p)))"

end
