(* ===== verification/PumpProps.thy ===== *)
theory PumpProps
  imports Pump
begin

text \<open>
  The transfer of a file over a tunnel: what the sender puts into the tunnel is the file, in order, and
  what the receiver takes out of the tunnel is in the file. The tunnel is any stream that keeps the
  contracts of \<open>StreamBase\<close>.
\<close>

subsection \<open>Contracts of the tunnel\<close>

locale tunnel_sink = byte_sink "s_Write T" put sink_ok
  for T :: "'s Stream" and put :: "'s \<Rightarrow> byte list" and sink_ok :: "'s \<Rightarrow> bool" +
  assumes close_put: "put (s_Close T s) = put s"

locale tunnel_source = byte_source "s_Read T" left source_ok
  for T :: "'s Stream" and left :: "'s \<Rightarrow> byte list" and source_ok :: "'s \<Rightarrow> bool" +
  assumes close_left: "left (s_Close T s) = left s"

text \<open>A source that reports the end only when nothing is left.\<close>

locale ending_source = byte_source +
  assumes read_end: "source_ok x \<Longrightarrow> 0 < n \<Longrightarrow> rd x n = (SR_EOS, bs, x1) \<Longrightarrow> left x1 = []"
begin

lemma ReadAll_loop_end:
  assumes "source_ok x" and "length acc \<le> buffer_len" and "ReadAll_loop rd buffer_len acc x = Some (SR_EOS, bs, x1)"
  shows "left x1 = []"
  using assms
proof (induction "buffer_len - length acc" arbitrary: acc x rule: less_induct)
  case less
  show ?case
  proof (cases "length acc < buffer_len")
    case False
    then show ?thesis using less.prems(3) by (subst (asm) ReadAll_loop.simps) simp
  next
    case True
    then have n: "0 < buffer_len - length acc" by simp
    obtain r2 bs2 x2 where w: "rd x (buffer_len - length acc) = (r2, bs2, x2)" by (metis prod_cases3)
    show ?thesis
    proof (cases "r2 = SR_SUCCESS")
      case False
      then have "r2 = SR_EOS" "x2 = x1" using True w less.prems(3) by (subst (asm) ReadAll_loop.simps; simp)+
      then show ?thesis using read_end [OF less.prems(1) n] w by simp
    next
      case ok: True
      note s = read_some [OF less.prems(1) n w [unfolded ok]]
      have m: "buffer_len - length (acc @ bs2) < buffer_len - length acc" "length (acc @ bs2) \<le> buffer_len"
        using s True by (cases bs2; simp)+
      have "ReadAll_loop rd buffer_len (acc @ bs2) x2 = Some (SR_EOS, bs, x1)"
        using less.prems(3) True w ok by (subst (asm) ReadAll_loop.simps) simp
      then show ?thesis by (rule less.hyps [OF m(1) read_keeps [OF less.prems(1) w] m(2)])
    qed
  qed
qed

end

interpretation file_ending: ending_source "file_rd h" "file_left h" "opened h path content" for h path content
  by unfold_locales (auto simp: file_rd_def FileStream_Read_def c_fread_def opened_def file_left_def d_content_def Let_def split: prod.splits if_splits)

lemma fs_file: "fs_read (Some h) = file_rd h" "fs_write (Some h) = file_wr h"
  by (simp_all add: fun_eq_iff fs_read_def file_rd_def fs_write_def file_wr_def)

subsection \<open>Sending\<close>

definition sending_ok :: "nat \<Rightarrow> string \<Rightarrow> byte list \<Rightarrow> Pump \<Rightarrow> bool" where
  "sending_ok h path c p \<longleftrightarrow> p_file p = Some (Some h) \<and> p_sending p \<and> opened h path c (p_disk p) \<and>
     length (p_buffer p) = BUFFER_SIZE \<and> p_buffer_len p \<le> BUFFER_SIZE"

text \<open>The bytes of the file that are not yet in the tunnel.\<close>

definition unsent :: "nat \<Rightarrow> Pump \<Rightarrow> byte list" where
  "unsent h p = take (p_buffer_len p) (p_buffer p) @ file_left h (p_disk p)"

definition ended :: "Pump \<Rightarrow> bool \<Rightarrow> Pump \<Rightarrow> bool" where
  "ended p delay p' \<longleftrightarrow> p_file p' = None \<and> p_server p' = p_server p \<and>
     p_posted p' = p_posted p @ (if p_server p then [] else [(if delay then 2000 else 0, MSG_DONE)])"

lemma Cleanup_ended:
  assumes "Cleanup T p s delay = (p', s')"
  shows "ended p delay p' \<and> s' = s_Close T s"
  using assms by (auto simp: Cleanup_def ended_def Post_def Let_def split: if_splits)

context tunnel_sink
begin

lemma send_loop_spec:
  assumes "sending_ok h path c p" and "sink_ok s"
  shows "\<exists>p' s' k. send_loop T p s = Some (Inr (p', s')) \<and> put s' = put s @ k \<and>
    (sending_ok h path c p' \<and> unsent h p = k @ unsent h p' \<and> p_posted p' = p_posted p \<and> p_server p' = p_server p \<or>
     ended p True p' \<and> unsent h p = k \<or>
     ended p False p' \<and> (\<exists>rest. unsent h p = k @ rest))"
  using assms
proof (induction "length (file_left h (p_disk p))" arbitrary: p s rule: less_induct)
  case less
  let ?data = "take (p_buffer_len p) (p_buffer p)" and ?L = "file_left h (p_disk p)"
  have P: "p_file p = Some (Some h)" "p_sending p" "opened h path c (p_disk p)" "length (p_buffer p) = BUFFER_SIZE"
    "p_buffer_len p \<le> BUFFER_SIZE" using less.prems(1) by (simp_all add: sending_ok_def)
  have ld: "length ?data = p_buffer_len p" using P by simp
  obtain r t s1 where w: "WriteAll_loop (s_Write T) ?data 0 s = Some (r, t, s1)" "sink_ok s1" "t \<le> length ?data"
    "put s1 = put s @ take t ?data" "r = SR_SUCCESS \<longleftrightarrow> t = length ?data"
    using WriteAll_loop_spec [OF less.prems(2), of 0 ?data] by auto
  consider (block) "r = SR_BLOCK" | (fail) "r \<noteq> SR_BLOCK" "r \<noteq> SR_SUCCESS" | (go) "r = SR_SUCCESS" by blast
  then show ?case
  proof cases
    case block
    let ?n = "p_buffer_len p - t"
    let ?p' = "p\<lparr>p_buffer_len := ?n, p_buffer := blit (p_buffer p) 0 (take ?n (drop t (p_buffer p)))\<rparr>"
    have r: "send_loop T p s = Some (Inr (?p', s1))" using w(1) block by (subst send_loop.simps) (simp add: Let_def)
    have d: "take ?n (drop t (p_buffer p)) = drop t ?data" by (simp add: drop_take)
    have "length (drop t ?data) = ?n" using ld w(3) by simp
    then have u: "take ?n (blit (p_buffer p) 0 (drop t ?data)) = drop t ?data" "length (blit (p_buffer p) 0 (drop t ?data)) = BUFFER_SIZE"
      using P by (simp_all add: blit_def)
    have ok: "sending_ok h path c ?p'" and "unsent h ?p' = drop t ?data @ ?L"
      using P u by (simp_all add: sending_ok_def unsent_def d)
    then have "unsent h p = take t ?data @ unsent h ?p'" unfolding unsent_def [of h p] by (metis append.assoc append_take_drop_id)
    then show ?thesis using r w(4) ok by auto
  next
    case fail
    obtain p' s' where c: "Cleanup T p s1 False = (p', s')" by fastforce
    have r: "send_loop T p s = Some (Inr (p', s'))" using w(1) fail c by (subst send_loop.simps) simp
    have "unsent h p = take t ?data @ drop t ?data @ ?L" unfolding unsent_def by (metis append.assoc append_take_drop_id)
    then show ?thesis using r Cleanup_ended [OF c] w(4) close_put by auto
  next
    case go
    then have t: "put s1 = put s @ ?data" using w(4,5) by (metis order_refl take_all)
    obtain r2 bs d1 where f: "ReadAll_loop (file_rd h) BUFFER_SIZE [] (p_disk p) = Some (r2, bs, d1)" "opened h path c d1"
      "length bs \<le> BUFFER_SIZE" "?L = bs @ file_left h d1" "r2 = SR_SUCCESS \<longleftrightarrow> length bs = BUFFER_SIZE"
      using file_source.ReadAll_loop_spec [OF P(3), of "[]" BUFFER_SIZE] by auto
    let ?p1 = "p\<lparr>p_buffer := blit (p_buffer p) 0 bs, p_buffer_len := length bs, p_disk := d1\<rparr>"
    have ok1: "sending_ok h path c ?p1" and un1: "unsent h ?p1 = ?L"
      using P f by (simp_all add: sending_ok_def unsent_def blit_def)
    have step: "send_loop T p s = (if r2 = SR_SUCCESS \<or> r2 = SR_EOS \<and> bs \<noteq> [] then send_loop T ?p1 s1
        else Some (Inr (Cleanup T ?p1 s1 (r2 = SR_EOS))))"
      using w(1) go P(1) f(1) by (subst send_loop.simps) (auto simp: fs_file Let_def)
    show ?thesis
    proof (cases "r2 = SR_SUCCESS \<or> r2 = SR_EOS \<and> bs \<noteq> []")
      case True
      then have "bs \<noteq> []" using f(5) by (auto simp: BUFFER_SIZE_def)
      then have "length (file_left h (p_disk ?p1)) < length ?L" using f(4) by (cases bs) simp_all
      from less.hyps [OF this ok1 w(2)] obtain p' s' k where
        i: "send_loop T ?p1 s1 = Some (Inr (p', s'))" "put s' = put s1 @ k"
        "sending_ok h path c p' \<and> unsent h ?p1 = k @ unsent h p' \<and> p_posted p' = p_posted p \<and> p_server p' = p_server p \<or>
         ended ?p1 True p' \<and> unsent h ?p1 = k \<or> ended ?p1 False p' \<and> (\<exists>rest. unsent h ?p1 = k @ rest)" by auto
      have "ended ?p1 b p' = ended p b p'" for b by (simp add: ended_def)
      then show ?thesis using i step True t un1
        by (intro exI [of _ p'] exI [of _ s'] exI [of _ "?data @ k"]) (auto simp: unsent_def)
    next
      case False
      obtain p' s' where c: "Cleanup T ?p1 s1 (r2 = SR_EOS) = (p', s')" by fastforce
      have e: "ended p (r2 = SR_EOS) p'" "put s' = put s @ ?data" using Cleanup_ended [OF c] t close_put by (simp_all add: ended_def)
      have "?L = []" if "r2 = SR_EOS"
        using file_ending.ReadAll_loop_end [OF P(3), of "[]" BUFFER_SIZE bs d1] f(1,4) that False by simp
      then show ?thesis using e step False c
        by (intro exI [of _ p'] exI [of _ s'] exI [of _ ?data]) (cases "r2 = SR_EOS"; auto simp: unsent_def)
    qed
  qed
qed

end

subsection \<open>Receiving\<close>

definition receiving_ok :: "nat \<Rightarrow> string \<Rightarrow> Pump \<Rightarrow> bool" where
  "receiving_ok h path p \<longleftrightarrow> p_file p = Some (Some h) \<and> \<not> p_sending p \<and> at_end h path (p_disk p) \<and> length (p_buffer p) = BUFFER_SIZE"

lemma Cleanup_content: "Cleanup T p s delay = (p', s') \<Longrightarrow> d_content (p_disk p') path = d_content (p_disk p) path"
  by (auto simp: Cleanup_def Post_def Let_def FileStream_Close_def c_fclose_def d_content_def split: if_splits option.splits)

context tunnel_source
begin

lemma recv_loop_spec:
  assumes "receiving_ok h path p" and "source_ok s"
  shows "\<exists>p' s' k. recv_loop T p s = Some (Inr (p', s')) \<and> left s = k @ left s' \<and>
    (receiving_ok h path p' \<and> d_content (p_disk p') path = d_content (p_disk p) path @ k \<or>
     ended p False p' \<and> (\<exists>k1 k2. k = k1 @ k2 \<and> d_content (p_disk p') path = d_content (p_disk p) path @ k1))"
  using assms
proof (induction "length (left s)" arbitrary: p s rule: less_induct)
  case less
  have P: "p_file p = Some (Some h)" "\<not> p_sending p" "at_end h path (p_disk p)" "length (p_buffer p) = BUFFER_SIZE"
    using less.prems(1) by (simp_all add: receiving_ok_def)
  obtain r bs s1 where f: "ReadAll_loop (s_Read T) BUFFER_SIZE [] s = Some (r, bs, s1)" "source_ok s1"
    "length bs \<le> BUFFER_SIZE" "left s = bs @ left s1" "r = SR_SUCCESS \<longleftrightarrow> length bs = BUFFER_SIZE"
    using ReadAll_loop_spec [OF less.prems(2), of "[]" BUFFER_SIZE] by auto
  let ?p1 = "p\<lparr>p_buffer := blit (p_buffer p) 0 bs, p_buffer_len := length bs\<rparr>"
  have b: "take (length bs) (blit (p_buffer p) 0 bs) = bs" "length (blit (p_buffer p) 0 bs) = BUFFER_SIZE"
    using P(4) f(3) by (simp_all add: blit_def)
  have "bs \<noteq> []" if "r = SR_SUCCESS" using f(5) that by (auto simp: BUFFER_SIZE_def)
  then consider (idle) "r = SR_BLOCK" "bs = []" | (fail) "r \<noteq> SR_BLOCK" "r \<noteq> SR_SUCCESS" | (go) "r = SR_SUCCESS \<or> r = SR_BLOCK" "bs \<noteq> []"
    by blast
  then show ?case
  proof cases
    case idle
    then have "recv_loop T p s = Some (Inr (?p1, s1))" using f(1) by (subst recv_loop.simps) (simp add: Let_def)
    moreover have "receiving_ok h path ?p1" using P b by (simp add: receiving_ok_def)
    ultimately show ?thesis using f(4) idle by (intro exI [of _ ?p1] exI [of _ s1] exI [of _ "[]"]) simp
  next
    case fail
    obtain p' s' where c: "Cleanup T ?p1 s1 False = (p', s')" by fastforce
    have "recv_loop T p s = Some (Inr (p', s'))" using f(1) fail c by (subst recv_loop.simps) (simp add: Let_def)
    moreover have "ended p False p'" "left s' = left s1" using Cleanup_ended [OF c] close_left by (simp_all add: ended_def)
    ultimately show ?thesis using f(4) Cleanup_content [OF c, of path]
      by (intro exI [of _ p'] exI [of _ s'] exI [of _ bs]) auto
  next
    case go
    obtain r2 t d1 where w: "WriteAll_loop (file_wr h) bs 0 (p_disk p) = Some (r2, t, d1)" "at_end h path d1"
      "t \<le> length bs" "d_content d1 path = d_content (p_disk p) path @ take t bs" "r2 = SR_SUCCESS \<longleftrightarrow> t = length bs"
      using file_sink.WriteAll_loop_spec [OF P(3), of 0 bs] by auto
    let ?p2 = "?p1\<lparr>p_disk := d1\<rparr>"
    have step: "recv_loop T p s = (if r2 = SR_SUCCESS then recv_loop T ?p2 s1 else Some (Inr (Cleanup T ?p2 s1 False)))"
      using f(1) go w(1) P(1) b(1) by (subst recv_loop.simps) (auto simp: Let_def fs_file)
    show ?thesis
    proof (cases "r2 = SR_SUCCESS")
      case True
      then have t: "d_content d1 path = d_content (p_disk p) path @ bs" using w(4,5) by simp
      have ok2: "receiving_ok h path ?p2" using P b(2) w(2) by (simp add: receiving_ok_def)
      have "length (left s1) < length (left s)" using f(4) go(2) by (cases bs) simp_all
      from less.hyps [OF this ok2 f(2)] obtain p' s' k where
        i: "recv_loop T ?p2 s1 = Some (Inr (p', s'))" "left s1 = k @ left s'"
        "receiving_ok h path p' \<and> d_content (p_disk p') path = d_content d1 path @ k \<or>
         ended ?p2 False p' \<and> (\<exists>k1 k2. k = k1 @ k2 \<and> d_content (p_disk p') path = d_content d1 path @ k1)" by auto
      have "ended ?p2 False p' = ended p False p'" by (simp add: ended_def)
      then show ?thesis using i step True t f(4)
        by (intro exI [of _ p'] exI [of _ s'] exI [of _ "bs @ k"]) auto
    next
      case False
      obtain p' s' where c: "Cleanup T ?p2 s1 False = (p', s')" by fastforce
      have "ended p False p'" "left s' = left s1" using Cleanup_ended [OF c] close_left by (simp_all add: ended_def)
      moreover have "d_content (p_disk p') path = d_content (p_disk p) path @ take t bs" using Cleanup_content [OF c, of path] w(4) by simp
      ultimately show ?thesis using step False c f(4)
        by (intro exI [of _ p'] exI [of _ s'] exI [of _ bs]) (auto intro: exI [of _ "take t bs"] exI [of _ "drop t bs"])
    qed
  qed
qed

end

subsection \<open>Runs\<close>

text \<open>A run of the sender: one event after the other, each finding the tunnel in any state that the network left it
  in, with the bytes \<open>k\<close> that the event adds to the tunnel. It ends when the file is closed.\<close>

inductive send_run ::
  "'s Stream \<Rightarrow> ('s \<Rightarrow> byte list) \<Rightarrow> ('s \<Rightarrow> bool) \<Rightarrow> Pump \<Rightarrow> string \<Rightarrow> byte list \<Rightarrow> Pump \<Rightarrow> bool" for T put sink_ok p0 name where
  send_start: "sink_ok s \<Longrightarrow> ProcessStream T p0 s name True = Some (Inr (True, p1, s1)) \<Longrightarrow> put s1 = put s @ k \<Longrightarrow>
    send_run T put sink_ok p0 name k p1"
| send_event: "send_run T put sink_ok p0 name ks p1 \<Longrightarrow> p_file p1 \<noteq> None \<Longrightarrow> sink_ok s \<Longrightarrow>
    OnStreamEvent T p1 s ev = Some (Inr (p2, s2)) \<Longrightarrow> put s2 = put s @ k \<Longrightarrow> send_run T put sink_ok p0 name (ks @ k) p2"

inductive recv_run ::
  "'s Stream \<Rightarrow> ('s \<Rightarrow> byte list) \<Rightarrow> ('s \<Rightarrow> bool) \<Rightarrow> Pump \<Rightarrow> string \<Rightarrow> byte list \<Rightarrow> Pump \<Rightarrow> bool" for T left source_ok p0 name where
  recv_start: "source_ok s \<Longrightarrow> ProcessStream T p0 s name False = Some (Inr (True, p1, s1)) \<Longrightarrow> left s = k @ left s1 \<Longrightarrow>
    recv_run T left source_ok p0 name k p1"
| recv_event: "recv_run T left source_ok p0 name ks p1 \<Longrightarrow> p_file p1 \<noteq> None \<Longrightarrow> source_ok s \<Longrightarrow>
    OnStreamEvent T p1 s ev = Some (Inr (p2, s2)) \<Longrightarrow> left s = k @ left s2 \<Longrightarrow> recv_run T left source_ok p0 name (ks @ k) p2"

text \<open>The pump when \<open>ProcessStream\<close> has opened the file.\<close>

definition opened_pump :: "bool \<Rightarrow> FileStream \<Rightarrow> Disk \<Rightarrow> Pump \<Rightarrow> Pump" where
  "opened_pump b fs d p = p\<lparr>p_sending := b, p_file := Some fs, p_buffer_len := 0, p_disk := d\<rparr>"

lemma ProcessStream_True:
  assumes "ProcessStream T p s name b = Some (Inr (True, p1, s1))"
  obtains err fs d where "FileStream_Open (p_disk p) None (c_str name) (if b then ''rb'' else ''wb'') = (True, err, fs, d)"
    and "s1 = s \<and> p1 = opened_pump b fs d p \<or> OnStreamEvent T (opened_pump b fs d p) s {SE_OPEN, SE_READ, SE_WRITE} = Some (Inr (p1, s1))"
proof -
  obtain ok err fs d where o: "FileStream_Open (p_disk p) None (c_str name) (if b then ''rb'' else ''wb'') = (ok, err, fs, d)"
    by (metis prod_cases4)
  have "ok" "s1 = s \<and> p1 = opened_pump b fs d p \<or> OnStreamEvent T (opened_pump b fs d p) s {SE_OPEN, SE_READ, SE_WRITE} = Some (Inr (p1, s1))"
    using assms o by (auto simp: ProcessStream_def new_FileStream_def Let_def opened_pump_def split: if_splits option.splits sum.splits)
  then show ?thesis using that [of err fs d] o by simp
qed

lemma c_str_idem [simp]: "c_str (c_str s) = c_str s"
  by (simp add: c_str_def)

lemma open_read:
  assumes "FileStream_Open d None name ''rb'' = (True, err, fs, d1)"
  obtains h where "fs = Some h" and "d_open d1 h = Some (c_str name, 0)" and "d_content d1 (c_str name) = d_content d (c_str name)"
  using assms by (auto simp: FileStream_Open_def FileStream_Close_def c_fopen_def Let_def d_content_def split: option.splits sum.splits if_splits)

lemma open_write:
  assumes "FileStream_Open d None name ''wb'' = (True, err, fs, d1)"
  obtains h where "fs = Some h" and "at_end h (c_str name) d1" and "d_content d1 (c_str name) = []"
  using assms by (auto simp: FileStream_Open_def FileStream_Close_def c_fopen_def Let_def d_content_def at_end_def split: option.splits sum.splits if_splits)

definition done_posted :: "Pump \<Rightarrow> bool" where
  "done_posted p \<longleftrightarrow> (2000, MSG_DONE) \<in> set (p_posted p)"

definition send_inv :: "string \<Rightarrow> byte list \<Rightarrow> byte list \<Rightarrow> Pump \<Rightarrow> bool" where
  "send_inv path c ks p \<longleftrightarrow> (\<exists>h. sending_ok h path c p \<and> c = ks @ unsent h p) \<and> \<not> done_posted p \<or>
     p_file p = None \<and> (\<exists>rest. c = ks @ rest \<and> (done_posted p \<longrightarrow> rest = []))"

definition recv_inv :: "string \<Rightarrow> byte list \<Rightarrow> Pump \<Rightarrow> bool" where
  "recv_inv path ks p \<longleftrightarrow> (\<exists>h. receiving_ok h path p) \<and> d_content (p_disk p) path = ks \<or>
     p_file p = None \<and> (\<exists>rest. ks = d_content (p_disk p) path @ rest)"

context tunnel_sink
begin

lemma send_OnStreamEvent:
  assumes "sending_ok h path c p" and "sink_ok s"
  shows "\<exists>p' s' k. OnStreamEvent T p s ev = Some (Inr (p', s')) \<and> put s' = put s @ k \<and>
    (sending_ok h path c p' \<and> unsent h p = k @ unsent h p' \<and> p_posted p' = p_posted p \<or>
     p_file p' = None \<and> (\<exists>rest. unsent h p = k @ rest \<and> (done_posted p' \<longrightarrow> done_posted p \<or> rest = [])))"
proof -
  have p: "p_sending p" using assms(1) by (simp add: sending_ok_def)
  consider (close) "SE_CLOSE \<in> ev" | (writing) "SE_CLOSE \<notin> ev" "SE_WRITE \<in> ev" | (other) "SE_CLOSE \<notin> ev" "SE_WRITE \<notin> ev" by blast
  then show ?thesis
  proof cases
    case close
    obtain p' s' where c: "Cleanup T p s False = (p', s')" by fastforce
    then show ?thesis using close Cleanup_ended [OF c] close_put
      by (intro exI [of _ p'] exI [of _ s'] exI [of _ "[]"]) (auto simp: OnStreamEvent_def ended_def done_posted_def)
  next
    case writing
    obtain p' s' k where "send_loop T p s = Some (Inr (p', s'))" "put s' = put s @ k"
      "sending_ok h path c p' \<and> unsent h p = k @ unsent h p' \<and> p_posted p' = p_posted p \<and> p_server p' = p_server p \<or>
       ended p True p' \<and> unsent h p = k \<or> ended p False p' \<and> (\<exists>rest. unsent h p = k @ rest)"
      using send_loop_spec [OF assms] by blast
    then show ?thesis using writing p
      by (intro exI [of _ p'] exI [of _ s'] exI [of _ k]) (auto simp: OnStreamEvent_def ended_def done_posted_def)
  next
    case other
    then show ?thesis using p assms(1) by (intro exI [of _ p] exI [of _ s] exI [of _ "[]"]) (simp add: OnStreamEvent_def)
  qed
qed

lemma send_inv_event:
  assumes "send_inv path c ks p1" and "p_file p1 \<noteq> None" and "sink_ok s" and "OnStreamEvent T p1 s ev = Some (Inr (p2, s2))"
    and "put s2 = put s @ k"
  shows "send_inv path c (ks @ k) p2"
proof -
  obtain h where i: "sending_ok h path c p1" "c = ks @ unsent h p1" "\<not> done_posted p1" using assms(1,2) by (auto simp: send_inv_def)
  obtain k' where k': "put s2 = put s @ k'" "sending_ok h path c p2 \<and> unsent h p1 = k' @ unsent h p2 \<and> p_posted p2 = p_posted p1 \<or>
     p_file p2 = None \<and> (\<exists>rest. unsent h p1 = k' @ rest \<and> (done_posted p2 \<longrightarrow> done_posted p1 \<or> rest = []))"
    using send_OnStreamEvent [OF i(1) assms(3), of ev] assms(4) by auto
  then have "k' = k" using assms(5) by simp
  then show ?thesis using i k'(2) by (auto simp: send_inv_def done_posted_def)
qed

lemma send_run_inv:
  assumes "send_run T put sink_ok p0 name ks p" and "length (p_buffer p0) = BUFFER_SIZE" and "\<not> done_posted p0"
  shows "send_inv (c_str name) (d_content (p_disk p0) (c_str name)) ks p"
  using assms
proof (induction rule: send_run.induct)
  case (send_start s p1 s1 k)
  let ?c = "d_content (p_disk p0) (c_str name)"
  obtain err fs d where o: "FileStream_Open (p_disk p0) None (c_str name) ''rb'' = (True, err, fs, d)"
    "s1 = s \<and> p1 = opened_pump True fs d p0 \<or> OnStreamEvent T (opened_pump True fs d p0) s {SE_OPEN, SE_READ, SE_WRITE} = Some (Inr (p1, s1))"
    using ProcessStream_True [OF send_start.hyps(2)] by auto
  obtain h where h: "fs = Some h" "d_open d h = Some (c_str name, 0)" "d_content d (c_str name) = ?c" using open_read [OF o(1)] by auto
  let ?p = "opened_pump True fs d p0"
  have "sending_ok h (c_str name) ?c ?p" "unsent h ?p = ?c" "\<not> done_posted ?p"
    using h send_start.prems by (auto simp: sending_ok_def unsent_def opened_pump_def opened_def file_left_def done_posted_def)
  then have i: "send_inv (c_str name) ?c [] ?p" by (auto simp: send_inv_def)
  show ?case
  proof (cases "s1 = s \<and> p1 = ?p")
    case True
    then show ?thesis using i send_start.hyps(3) by simp
  next
    case False
    then show ?thesis using send_inv_event [OF i _ send_start.hyps(1) _ send_start.hyps(3)] o(2) by (auto simp: opened_pump_def)
  qed
next
  case (send_event ks p1 s ev p2 s2 k)
  then show ?case by (intro send_inv_event [of _ _ _ p1 s ev p2 s2]) auto
qed

end

context tunnel_source
begin

lemma recv_OnStreamEvent:
  assumes "receiving_ok h path p" and "source_ok s"
  shows "\<exists>p' s' k. OnStreamEvent T p s ev = Some (Inr (p', s')) \<and> left s = k @ left s' \<and>
    (receiving_ok h path p' \<and> d_content (p_disk p') path = d_content (p_disk p) path @ k \<or>
     p_file p' = None \<and> (\<exists>k1 k2. k = k1 @ k2 \<and> d_content (p_disk p') path = d_content (p_disk p) path @ k1))"
proof -
  have p: "\<not> p_sending p" using assms(1) by (simp add: receiving_ok_def)
  consider (close) "SE_CLOSE \<in> ev" | (read) "SE_CLOSE \<notin> ev" "SE_READ \<in> ev" | (other) "SE_CLOSE \<notin> ev" "SE_READ \<notin> ev" by blast
  then show ?thesis
  proof cases
    case close
    obtain p' s' where c: "Cleanup T p s False = (p', s')" by fastforce
    then show ?thesis using close Cleanup_ended [OF c] close_left Cleanup_content [OF c]
      by (intro exI [of _ p'] exI [of _ s'] exI [of _ "[]"]) (simp add: OnStreamEvent_def ended_def)
  next
    case read
    then show ?thesis using recv_loop_spec [OF assms] p by (auto simp: OnStreamEvent_def ended_def)
  next
    case other
    then show ?thesis using p assms(1) by (intro exI [of _ p] exI [of _ s] exI [of _ "[]"]) (simp add: OnStreamEvent_def)
  qed
qed

lemma recv_inv_event:
  assumes "recv_inv path ks p1" and "p_file p1 \<noteq> None" and "source_ok s" and "OnStreamEvent T p1 s ev = Some (Inr (p2, s2))"
    and "left s = k @ left s2"
  shows "recv_inv path (ks @ k) p2"
proof -
  obtain h where i: "receiving_ok h path p1" "d_content (p_disk p1) path = ks" using assms(1,2) by (auto simp: recv_inv_def)
  obtain k' where k': "left s = k' @ left s2" "receiving_ok h path p2 \<and> d_content (p_disk p2) path = ks @ k' \<or>
     p_file p2 = None \<and> (\<exists>k1 k2. k' = k1 @ k2 \<and> d_content (p_disk p2) path = ks @ k1)"
    using recv_OnStreamEvent [OF i(1) assms(3), of ev] assms(4) i(2) by auto
  then have "k' = k" using assms(5) by simp
  then show ?thesis using k'(2) by (auto simp: recv_inv_def)
qed

lemma recv_run_inv:
  assumes "recv_run T left source_ok p0 name ks p" and "length (p_buffer p0) = BUFFER_SIZE"
  shows "recv_inv (c_str name) ks p"
  using assms
proof (induction rule: recv_run.induct)
  case (recv_start s p1 s1 k)
  obtain err fs d where o: "FileStream_Open (p_disk p0) None (c_str name) ''wb'' = (True, err, fs, d)"
    "s1 = s \<and> p1 = opened_pump False fs d p0 \<or> OnStreamEvent T (opened_pump False fs d p0) s {SE_OPEN, SE_READ, SE_WRITE} = Some (Inr (p1, s1))"
    using ProcessStream_True [OF recv_start.hyps(2)] by auto
  obtain h where h: "fs = Some h" "at_end h (c_str name) d" "d_content d (c_str name) = []" using open_write [OF o(1)] by auto
  let ?p = "opened_pump False fs d p0"
  have "receiving_ok h (c_str name) ?p" "d_content (p_disk ?p) (c_str name) = []"
    using h recv_start.prems by (auto simp: receiving_ok_def opened_pump_def)
  then have i: "recv_inv (c_str name) [] ?p" by (auto simp: recv_inv_def)
  show ?case
  proof (cases "s1 = s \<and> p1 = ?p")
    case True
    then show ?thesis using i recv_start.hyps(3) by simp
  next
    case False
    then show ?thesis using recv_inv_event [OF i _ recv_start.hyps(1) _ recv_start.hyps(3)] o(2) by (auto simp: opened_pump_def)
  qed
next
  case (recv_event ks p1 s ev p2 s2 k)
  then show ?case by (intro recv_inv_event [of _ _ p1 s ev p2 s2]) auto
qed

end

subsection \<open>A buffer as the tunnel\<close>

definition fifo_stream :: "FifoBuffer Stream" where
  "fifo_stream = \<lparr>s_GetState = FB_GetState, s_Read = FB_Read, s_Write = FB_Write, s_Close = FB_Close\<rparr>"

lemma fifo_stream_sel [simp]:
  "s_GetState fifo_stream = FB_GetState" "s_Read fifo_stream = FB_Read" "s_Write fifo_stream = FB_Write" "s_Close fifo_stream = FB_Close"
  by (simp_all add: fifo_stream_def)

interpretation fifo_in: tunnel_sink fifo_stream fb_data fb_inv
  unfolding tunnel_sink_def tunnel_sink_axioms_def using fifo_sink.byte_sink_axioms
  by (simp add: FB_Close_def fb_data_def fb_view_def)

interpretation fifo_out: tunnel_source fifo_stream fb_data fb_inv
  unfolding tunnel_source_def tunnel_source_axioms_def using fifo_source.byte_source_axioms
  by (simp add: FB_Close_def fb_data_def fb_view_def)

subsection \<open>Properties\<close>

text \<open>Property C5: what the sender puts into the tunnel, over any sequence of events and any states of
  the tunnel in between, is a prefix of the file it was given; when it signals the end of the
  transfer with the delayed message it is the whole file.\<close>

theorem file_sent_in_order:
  assumes "tunnel_sink T put sink_ok" and "length (p_buffer p0) = BUFFER_SIZE" and "\<not> done_posted p0"
    and "send_run T put sink_ok p0 name ks p"
  shows "(\<exists>rest. d_content (p_disk p0) (c_str name) = ks @ rest) \<and> (done_posted p \<longrightarrow> ks = d_content (p_disk p0) (c_str name))"
  using tunnel_sink.send_run_inv [OF assms(1,4,2,3)] unfolding send_inv_def by auto

text \<open>Property C7: as long as the file is open, every event of the sender returns, whatever the state of the tunnel, without
  a fault: its loops end.\<close>

theorem sender_events_return:
  assumes "tunnel_sink T put sink_ok" and "length (p_buffer p0) = BUFFER_SIZE" and "\<not> done_posted p0"
    and "send_run T put sink_ok p0 name ks p" and "p_file p \<noteq> None" and "sink_ok s"
  shows "\<exists>p2 s2 k. OnStreamEvent T p s ev = Some (Inr (p2, s2)) \<and> put s2 = put s @ k"
proof -
  obtain h where "sending_ok h (c_str name) (d_content (p_disk p0) (c_str name)) p"
    using tunnel_sink.send_run_inv [OF assms(1,4,2,3)] assms(5) unfolding send_inv_def by auto
  from tunnel_sink.send_OnStreamEvent [OF assms(1) this assms(6)] show ?thesis by blast
qed

text \<open>Property C6: what the receiver takes out of the tunnel is in the file, in order and completely, as long
  as the transfer goes on; when it has ended, the file holds a prefix of it.\<close>

theorem file_received_in_order:
  assumes "tunnel_source T left source_ok" and "length (p_buffer p0) = BUFFER_SIZE" and "recv_run T left source_ok p0 name ks p"
  shows "(\<exists>rest. ks = d_content (p_disk p) (c_str name) @ rest) \<and> (p_file p \<noteq> None \<longrightarrow> d_content (p_disk p) (c_str name) = ks)"
  using tunnel_source.recv_run_inv [OF assms(1,3,2)] unfolding recv_inv_def by auto

definition demo_pump :: Pump where
  "demo_pump = new_Pump False (\<lambda>_. 0) 0 (demo_disk\<lparr>d_file := [''f'' \<mapsto> [1, 2, 3]]\<rparr>)"

lemma demo_pump_ok: "length (p_buffer demo_pump) = BUFFER_SIZE" "\<not> done_posted demo_pump" "c_str ''f'' = ''f''"
  "d_content (p_disk demo_pump) ''f'' = [1, 2, 3]"
  by (simp_all add: demo_pump_def new_Pump_def done_posted_def c_str_def d_content_def)

definition opening_stream :: "FifoBuffer Stream" where
  "opening_stream = fifo_stream\<lparr>s_GetState := \<lambda>_. SS_OPENING\<rparr>"

lemma opening_sink: "tunnel_sink opening_stream fb_data fb_inv"
  using fifo_in.tunnel_sink_axioms by (simp add: tunnel_sink_def tunnel_sink_axioms_def opening_stream_def)

lemma opening_source: "tunnel_source opening_stream fb_data fb_inv"
  using fifo_out.tunnel_source_axioms by (simp add: tunnel_source_def tunnel_source_axioms_def opening_stream_def)

definition demo_opened :: "bool \<Rightarrow> Pump" where
  "demo_opened b = opened_pump b (Some 3) (snd (c_fopen (p_disk demo_pump) ''f'' (if b then ''rb'' else ''wb''))) demo_pump"

definition demo_fifo :: FifoBuffer where
  "demo_fifo = snd (snd (FB_Write (new_FifoBuffer (\<lambda>_. 0) 8) [65, 66]))"

lemma demo_fifo_ok: "fb_inv demo_fifo" "fb_data demo_fifo = [65, 66]" "fb_state demo_fifo = SS_OPEN"
  by code_simp+

lemma demo_opens: "ProcessStream opening_stream demo_pump demo_fifo ''f'' b = Some (Inr (True, demo_opened b, demo_fifo))"
  by (simp add: ProcessStream_def demo_pump_def new_Pump_def FileStream_Open_def new_FileStream_def FileStream_Close_def c_fopen_def
      demo_disk_def c_str_def opening_stream_def demo_opened_def opened_pump_def)

theorem file_sent_in_order_witness:
  "\<exists>p2 s2 k rest. OnStreamEvent opening_stream (demo_opened True) demo_fifo {SE_WRITE} = Some (Inr (p2, s2)) \<and>
     fb_data s2 = [65, 66] @ k \<and> [1, 2, 3] = k @ rest"
proof -
  note st = send_run.send_start [of fb_inv, OF demo_fifo_ok(1) demo_opens [of True], of fb_data "[]"]
  have r: "send_run opening_stream fb_data fb_inv demo_pump ''f'' [] (demo_opened True)" using st by simp
  have f: "p_file (demo_opened True) \<noteq> None" by (simp add: demo_opened_def opened_pump_def)
  have "sending_ok 3 ''f'' [1, 2, 3] (demo_opened True)"
    by (simp add: sending_ok_def demo_opened_def opened_pump_def demo_pump_def new_Pump_def opened_def c_fopen_def demo_disk_def d_content_def)
  then obtain p2 s2 k where e: "OnStreamEvent opening_stream (demo_opened True) demo_fifo {SE_WRITE} = Some (Inr (p2, s2))"
    "fb_data s2 = fb_data demo_fifo @ k"
    using tunnel_sink.send_OnStreamEvent [OF opening_sink _ demo_fifo_ok(1)] by blast
  have "send_run opening_stream fb_data fb_inv demo_pump ''f'' k p2"
    using send_run.send_event [OF r f demo_fifo_ok(1) e] by simp
  from file_sent_in_order [OF opening_sink demo_pump_ok(1,2) this] show ?thesis using e demo_fifo_ok(2) demo_pump_ok(3,4) by auto
qed

theorem sender_events_return_witness:
  "\<exists>p2 s2 k. OnStreamEvent opening_stream (demo_opened True) demo_fifo {SE_OPEN, SE_WRITE} = Some (Inr (p2, s2)) \<and> fb_data s2 = fb_data demo_fifo @ k"
proof -
  have r: "send_run opening_stream fb_data fb_inv demo_pump ''f'' [] (demo_opened True)"
    using send_run.send_start [of fb_inv, OF demo_fifo_ok(1) demo_opens [of True], of fb_data "[]"] by simp
  have "p_file (demo_opened True) \<noteq> None" by (simp add: demo_opened_def opened_pump_def)
  from sender_events_return [OF opening_sink demo_pump_ok(1,2) r this demo_fifo_ok(1)] show ?thesis .
qed

theorem file_received_in_order_witness:
  "\<exists>p2 s2 k. OnStreamEvent opening_stream (demo_opened False) demo_fifo {SE_READ} = Some (Inr (p2, s2)) \<and>
     [65, 66] = k @ fb_data s2 \<and> (\<exists>rest. k = d_content (p_disk p2) ''f'' @ rest)"
proof -
  have r: "recv_run opening_stream fb_data fb_inv demo_pump ''f'' [] (demo_opened False)"
    using recv_run.recv_start [of fb_inv, OF demo_fifo_ok(1) demo_opens [of False], of fb_data "[]"] by simp
  have f: "p_file (demo_opened False) \<noteq> None" by (simp add: demo_opened_def opened_pump_def)
  have "receiving_ok 3 ''f'' (demo_opened False)"
    by (simp add: receiving_ok_def demo_opened_def opened_pump_def demo_pump_def new_Pump_def at_end_def c_fopen_def demo_disk_def d_content_def)
  then obtain p2 s2 k where e: "OnStreamEvent opening_stream (demo_opened False) demo_fifo {SE_READ} = Some (Inr (p2, s2))"
    "fb_data demo_fifo = k @ fb_data s2"
    using tunnel_source.recv_OnStreamEvent [OF opening_source _ demo_fifo_ok(1)] by blast
  have "recv_run opening_stream fb_data fb_inv demo_pump ''f'' k p2"
    using recv_run.recv_event [OF r f demo_fifo_ok(1) e] by simp
  from file_received_in_order [OF opening_source demo_pump_ok(1) this] show ?thesis using e demo_fifo_ok(2) demo_pump_ok(3) by auto
qed

text \<open>When a server cannot open the file of a request, it keeps the unopened file stream: every later
  tunnel is declined.\<close>

theorem failed_open_wedges_server:
  assumes "p_server p" and "p_file p = None" and "take 5 (c_str desc) = ''send:'' \<or> take 5 (c_str desc) = ''recv:''"
    and "\<And>mode. \<not> fst (FileStream_Open (p_disk p) None (c_str (drop 5 desc)) mode)"
  shows "\<exists>p'. OnIncomingTunnel T p desc s = Some (Inr (Accepted s, p')) \<and> OnIncomingTunnel T p' desc2 s2 = Some (Inr (Declined, p'))"
proof -
  have "\<exists>p1. ProcessStream T p s (drop 5 desc) b = Some (Inr (False, p1, s)) \<and> p_file p1 \<noteq> None" for b
  proof -
    obtain ok err fs d where o: "FileStream_Open (p_disk p) None (c_str (drop 5 desc)) (if b then ''rb'' else ''wb'') = (ok, err, fs, d)"
      by (metis prod_cases4)
    have "\<not> ok" using assms(4) [of "if b then ''rb'' else ''wb''"] unfolding o by simp
    with o show ?thesis using assms(2) by (simp add: ProcessStream_def new_FileStream_def Let_def)
  qed
  then obtain p1 p2 where "ProcessStream T p s (drop 5 desc) True = Some (Inr (False, p1, s))" "p_file p1 \<noteq> None"
    "ProcessStream T p s (drop 5 desc) False = Some (Inr (False, p2, s))" "p_file p2 \<noteq> None" by metis
  then show ?thesis using assms(1,2,3) by (auto simp: OnIncomingTunnel_def Let_def Post_def)
qed

definition demo_server :: Pump where
  "demo_server = Serve (new_Pump False (\<lambda>_. 0) 0 (demo_disk\<lparr>d_deny := \<lambda>_. Some 13\<rparr>))"

theorem failed_open_wedges_server_witness:
  "\<exists>p'. OnIncomingTunnel fifo_stream demo_server ''recv:/etc/x'' demo_fifo = Some (Inr (Accepted demo_fifo, p')) \<and>
     OnIncomingTunnel fifo_stream p' ''recv:/tmp/y'' demo_fifo = Some (Inr (Declined, p'))"
proof -
  have "p_server demo_server" "p_file demo_server = None" "take 5 (c_str ''recv:/etc/x'') = ''recv:''"
    "\<And>mode. \<not> fst (FileStream_Open (p_disk demo_server) None (c_str (drop 5 ''recv:/etc/x'')) mode)"
    by (simp_all add: demo_server_def Serve_def new_Pump_def c_str_def FileStream_Open_def FileStream_Close_def c_fopen_def)
  then show ?thesis by (intro failed_open_wedges_server) simp_all
qed

text \<open>When the peer has closed the tunnel before all data was taken out of it, the receiver
  reads the remaining bytes, meets the end of the stream, and closes the file without
  writing them.\<close>

theorem closed_tunnel_loses_data:
  assumes "receiving_ok h path p" and "fb_inv f" and "fb_state f = SS_CLOSED" and "fb_data f \<noteq> []" and "length (fb_data f) < BUFFER_SIZE"
  shows "\<exists>p' f'. OnStreamEvent fifo_stream p f {SE_READ} = Some (Inr (p', f')) \<and> fb_data f' = [] \<and> p_file p' = None \<and>
    d_content (p_disk p') path = d_content (p_disk p) path"
proof -
  have "0 < fb_data_length f" using assms(2,4) length_fb_data [of f] by (metis length_greater_0_conv)
  then obtain f1 where f1: "FB_Read f BUFFER_SIZE = (SR_SUCCESS, fb_data f, f1)" "fb_data f1 = []" "fb_inv f1" "fb_state f1 = SS_CLOSED"
    using FB_Read_spec [OF assms(2), of BUFFER_SIZE] assms(3,5) by (metis drop_all less_imp_le take_all)
  have "fb_data_length f1 = 0" using f1(2,3) length_fb_data [of f1] by simp
  then have e: "FB_Read f1 n = (SR_EOS, [], f1)" for n using f1(4) by (simp add: FB_Read_def ReadOffsetLocked_def)
  have "ReadAll_loop FB_Read BUFFER_SIZE (fb_data f) f1 = Some (SR_EOS, fb_data f, f1)"
    using assms(5) by (subst ReadAll_loop.simps) (simp add: e)
  then have r: "ReadAll_loop FB_Read BUFFER_SIZE [] f = Some (SR_EOS, fb_data f, f1)"
    using f1(1) by (subst ReadAll_loop.simps) (simp add: BUFFER_SIZE_def)
  let ?p1 = "p\<lparr>p_buffer := blit (p_buffer p) 0 (fb_data f), p_buffer_len := length (fb_data f)\<rparr>"
  obtain p' f' where c: "Cleanup fifo_stream ?p1 f1 False = (p', f')" by fastforce
  have "recv_loop fifo_stream p f = Some (Inr (p', f'))" using r c by (subst recv_loop.simps) (simp add: Let_def)
  moreover have "\<not> p_sending p" using assms(1) by (simp add: receiving_ok_def)
  moreover have "fb_data (FB_Close f1) = fb_data f1" using fifo_in.close_put [of f1] by simp
  ultimately show ?thesis using Cleanup_ended [OF c] Cleanup_content [OF c, of path] f1(2)
    by (simp add: OnStreamEvent_def ended_def)
qed

theorem closed_tunnel_loses_data_witness:
  "\<exists>p' f'. OnStreamEvent fifo_stream (demo_opened False) (FB_Close demo_fifo) {SE_READ} = Some (Inr (p', f')) \<and> fb_data f' = [] \<and>
     p_file p' = None \<and> d_content (p_disk p') ''f'' = []"
proof -
  have "receiving_ok 3 ''f'' (demo_opened False)" "d_content (p_disk (demo_opened False)) ''f'' = []"
    by (simp_all add: receiving_ok_def demo_opened_def opened_pump_def demo_pump_def new_Pump_def at_end_def c_fopen_def demo_disk_def d_content_def)
  moreover have "fb_inv (FB_Close demo_fifo)" "fb_data (FB_Close demo_fifo) = [65, 66]" "fb_state (FB_Close demo_fifo) = SS_CLOSED"
    by code_simp+
  ultimately show ?thesis using closed_tunnel_loses_data [of 3 "''f''" "demo_opened False" "FB_Close demo_fifo"] by (simp add: BUFFER_SIZE_def)
qed

end
