(* ===== verification/TcpTunnel.thy ===== *)
theory TcpTunnel
  imports TcpChannel PumpProps
begin

text \<open>
  The stream of a channel as the tunnel of a file transfer. It keeps the contracts of \<open>StreamBase\<close>, so that the
  theorems on the file transfer hold for it; and two channels joined by a network deliver at one end what was
  written at the other.
\<close>

subsection \<open>What a call of the connection returns\<close>

lemma notification_Inr:
  assumes "Chan_OnTcpOpen cur c = Inr c' \<or> Chan_OnTcpReadable cur c = Inr c' \<or> Chan_OnTcpWriteable cur c = Inr c' \<or>
    Chan_OnTcpClosed cur err c = Inr c'"
  shows "stream_step c c'"
proof -
  have "c_worker_thread c = Some cur"
    using assms by (auto simp: Chan_OnTcpOpen_def Chan_OnTcpReadable_def Chan_OnTcpWriteable_def Chan_OnTcpClosed_def
        worker_current_def andThen_eq_Inr_iff split: option.splits)
  from notification_step(1-3) [OF this] notification_step(4) [OF this, of err] show ?thesis using assms by auto
qed

lemma raise_events_Inr:
  assumes "raise_events cur es c = Inr c'"
  shows "stream_step c c'"
  using assms
proof (induction es arbitrary: c)
  case Nil
  then show ?case by simp
next
  case (Cons e es)
  obtain c1 where "stream_step c c1" "raise_events cur es c1 = Inr c'"
    using Cons.prems notification_Inr [of cur c] by (cases e) (auto simp: andThen_eq_Inr_iff)
  then show ?case using Cons.IH stream_step_trans by blast
qed

lemma call_tcp_Inr:
  assumes "call_tcp N cur f c = Inr (r, c1)"
  obtains t t1 where "c_tcp c = Some t" and "f (chan_env N c) (t\<lparr>x_events := []\<rparr>) = Inr (r, t1)"
    and "stream_step (c\<lparr>c_tcp := Some (t1\<lparr>x_events := []\<rparr>)\<rparr>) c1" and "c_tcp c1 = Some (t1\<lparr>x_events := []\<rparr>)"
proof -
  obtain t where t: "c_tcp c = Some t" using assms by (auto simp: call_tcp_def split: option.splits)
  then obtain t1 where t1: "f (chan_env N c) (t\<lparr>x_events := []\<rparr>) = Inr (r, t1)"
    "raise_events cur (x_events t1) (c\<lparr>c_tcp := Some (t1\<lparr>x_events := []\<rparr>)\<rparr>) = Inr c1"
    using assms by (auto simp: call_tcp_def andThen_eq_Inr_iff)
  note s = raise_events_Inr [OF t1(2)]
  show ?thesis by (rule that [OF t t1(1) s]) (use stream_step_same(3) [OF s] in simp)
qed

text \<open>\<open>Read\<close> and \<open>Write\<close> are \<open>Recv\<close> and \<open>Send\<close> of the connection.\<close>

lemma Chan_Read_Inr:
  assumes "Chan_Read N cur n c = Inr (r, bs, err, c1)" and "c_tcp c = Some t"
  obtains k out t1 where "Recv (chan_env N c) (t\<lparr>x_events := []\<rparr>) n = Inr (k, out, t1)"
    and "c_tcp c1 = Some (t1\<lparr>x_events := []\<rparr>)" and "r = SR_SUCCESS \<longleftrightarrow> 0 < k" and "bs = (if 0 < k then out else [])"
proof -
  let ?f = "\<lambda>E t. andThen (Recv E t n) (\<lambda>(k, bs, t1). Inr ((k, bs), t1))"
  let ?c = "c\<lparr>c_stream_readable := False\<rparr>"
  obtain k out c2 where k: "call_tcp N cur ?f ?c = Inr ((k, out), c2)" "r = SR_SUCCESS \<longleftrightarrow> 0 < k" "bs = (if 0 < k then out else [])"
    "c_tcp c1 = c_tcp c2"
    using assms by (auto simp: Chan_Read_def andThen_eq_Inr_iff post_event_def Let_def split: if_splits option.splits)
  obtain t' t1 where c: "c_tcp ?c = Some t'" "?f (chan_env N ?c) (t'\<lparr>x_events := []\<rparr>) = Inr ((k, out), t1)"
    "c_tcp c2 = Some (t1\<lparr>x_events := []\<rparr>)"
    using call_tcp_Inr [OF k(1)] by blast
  have "Recv (chan_env N c) (t\<lparr>x_events := []\<rparr>) n = Inr (k, out, t1)"
    using c(1,2) assms(2) chan_env_cong [of ?c c N] by (auto simp: andThen_eq_Inr_iff)
  then show ?thesis using that k c(3) by simp
qed

lemma Chan_Write_Inr:
  assumes "Chan_Write N cur data c = Inr (r, n, err, c1)" and "c_tcp c = Some t"
  obtains k t1 where "Send (chan_env N c) (t\<lparr>x_events := []\<rparr>) data = Inr (k, t1)"
    and "c_tcp c1 = Some (t1\<lparr>x_events := []\<rparr>)" and "r = SR_SUCCESS \<longleftrightarrow> 0 < k" and "n = nat k"
proof -
  obtain k c2 where k: "call_tcp N cur (\<lambda>E t. Send E t data) c = Inr (k, c2)" "r = SR_SUCCESS \<longleftrightarrow> 0 < k" "n = nat k" "c_tcp c1 = c_tcp c2"
    using assms by (auto simp: Chan_Write_def andThen_eq_Inr_iff split: if_splits option.splits)
  show ?thesis using call_tcp_Inr [OF k(1)] that k assms(2) by (metis option.inject)
qed

lemma Chan_Read_None: "Chan_Read N cur n c = Inr (r, bs, err, c1) \<Longrightarrow> c_tcp c = None \<Longrightarrow> r = SR_BLOCK \<and> bs = [] \<and> c1 = c"
  by (auto simp: Chan_Read_def andThen_eq_Inr_iff)

lemma Chan_Write_None: "Chan_Write N cur data c = Inr (r, n, err, c1) \<Longrightarrow> c_tcp c = None \<Longrightarrow> r = SR_BLOCK \<and> n = 0 \<and> c1 = c"
  by (auto simp: Chan_Write_def andThen_eq_Inr_iff)

subsection \<open>Effect on the buffers\<close>

lemma queue_written:
  assumes "queue s data len b = Inr (w, s')"
  obtains n res k f where "FB_Write (m_sbuf s) (take n data) = (res, k, f)" and "w = of_nat k" and "m_sbuf s' = f"
proof -
  obtain n where "(case FB_Write (m_sbuf s) (take (unat n) data) of (_, written, sbuf) \<Rightarrow>
      Inr (of_nat written, s\<lparr>m_slist := queued (m_slist s) (m_snd_una s + of_nat (GetBuffered (m_sbuf s))) n b, m_sbuf := sbuf\<rparr>)) =
      (Inr (w, s') :: (uint32 \<times> PseudoTcp) exec)"
    using assms unfolding queue_def Let_def andThen_eq_Inr_iff queued_def by blast
  then show ?thesis using that by (cases "FB_Write (m_sbuf s) (take (unat n) data)") auto
qed

lemma Send_buffer:
  assumes "fb_inv (m_sbuf s)" and "Send E s data = Inr (r, s')"
  shows "fb_inv (m_sbuf s')" and "nat r \<le> length data"
proof -
  have "fb_inv (m_sbuf s') \<and> nat r \<le> length data"
  proof (cases "m_state s = TCP_ESTABLISHED \<and> GetWriteRemaining (m_sbuf s) \<noteq> 0")
    case False
    then show ?thesis using assms by (auto simp: Send_def SOCKET_ERROR_def split: if_splits)
  next
    case True
    then obtain w s1 where q: "queue s data (of_nat (length data)) False = Inr (w, s1)" "attemptSend E s1 sfNone = Inr s'" "r = sint w"
      using assms(2) by (auto simp: Send_def andThen_eq_Inr_iff)
    obtain n k res f where f: "FB_Write (m_sbuf s) (take n data) = (res, k, f)" "w = of_nat k" "m_sbuf s1 = f"
      by (rule queue_written [OF q(1)])
    have k: "fb_inv f" "k \<le> length data" using FB_Write_cases [OF assms(1) f(1)] by auto
    have "sint w \<le> uint w" by (simp add: sint_uint signed_take_bit_int_less_eq_self_iff order_trans [OF _ uint_ge_0])
    then have "nat (sint w) \<le> unat w" unfolding unat_eq_nat_uint by (rule nat_mono)
    also have "unat w \<le> k" by (simp add: f(2) unat_of_nat)
    finally show ?thesis using k q(3) f(3) attemptSend_same(13) [OF q(2)] by simp
  qed
  then show "fb_inv (m_sbuf s')" "nat r \<le> length data" by simp_all
qed

lemma Recv_buffer:
  assumes "fb_inv (m_rbuf s)" and "Recv E s n = Inr (r, out, s')"
  shows "fb_inv (m_rbuf s')" and "fb_data (m_rbuf s) = out @ fb_data (m_rbuf s')" and "0 < r \<longleftrightarrow> out \<noteq> []"
    and "0 < n \<Longrightarrow> length out \<le> n"
proof -
  obtain res bs f where f: "FB_Read (m_rbuf s) n = (res, bs, f)" by (metis prod_cases3)
  note c = FB_Read_cases [OF assms(1) f]
  have b: "bs = [] \<or> res = SR_SUCCESS" using FB_failed(2) [OF assms(1) f] by blast
  have l: "0 < n \<Longrightarrow> length bs \<le> n" using FB_Read_success [OF assms(1), of n bs f] f b by (cases "res = SR_SUCCESS") auto
  have "(out = bs \<and> m_rbuf s' = f \<and> r = int (length out)) \<or> (out = [] \<and> bs = [] \<and> m_rbuf s' = f \<and> r = SOCKET_ERROR) \<or>
    (out = [] \<and> m_rbuf s' = m_rbuf s \<and> r = SOCKET_ERROR)"
    using assms(2) f b by (auto simp: Recv_def Let_def andThen_eq_Inr_iff dest!: attemptSend_same(10) split: if_splits)
  then show "fb_inv (m_rbuf s')" "fb_data (m_rbuf s) = out @ fb_data (m_rbuf s')" "0 < r \<longleftrightarrow> out \<noteq> []" "0 < n \<Longrightarrow> length out \<le> n"
    using c l assms(1) by (auto simp: SOCKET_ERROR_def)
qed

subsection \<open>The stream of a channel\<close>

text \<open>An end of the tunnel: the channel, what its stream has accepted so far, and what is left to read. A fault of the
  channel is an error of the stream that changes nothing.\<close>

record TunnelEnd =
  te_chan :: Chan
  te_put :: "byte list"
  te_left :: "byte list"

definition chan_GetState :: "TunnelEnd \<Rightarrow> StreamState" where
  "chan_GetState e = (case IS_GetState (c_stream_thread (te_chan e)) (c_stream (te_chan e)) (te_chan e) of Inl _ \<Rightarrow> SS_CLOSED | Inr s \<Rightarrow> s)"

definition chan_rd :: "Net \<Rightarrow> TunnelEnd \<Rightarrow> nat \<Rightarrow> StreamResult \<times> byte list \<times> TunnelEnd" where
  "chan_rd N e n =
     (case IS_Read N (c_stream_thread (te_chan e)) (c_stream (te_chan e)) n (te_chan e) of
        Inl _ \<Rightarrow> (SR_ERROR, [], e)
      | Inr (r, bs, _, c) \<Rightarrow> (r, bs, e\<lparr>te_chan := c, te_left := drop (length bs) (te_left e)\<rparr>))"

definition chan_wr :: "Net \<Rightarrow> TunnelEnd \<Rightarrow> byte list \<Rightarrow> StreamResult \<times> nat \<times> TunnelEnd" where
  "chan_wr N e data =
     (case IS_Write N (c_stream_thread (te_chan e)) (c_stream (te_chan e)) data (te_chan e) of
        Inl _ \<Rightarrow> (SR_ERROR, 0, e)
      | Inr (r, n, _, c) \<Rightarrow> (r, n, e\<lparr>te_chan := c, te_put := te_put e @ take n data\<rparr>))"

definition chan_close :: "Net \<Rightarrow> TunnelEnd \<Rightarrow> TunnelEnd" where
  "chan_close N e =
     (case IS_Close N (c_stream_thread (te_chan e)) (c_stream (te_chan e)) (te_chan e) of Inl _ \<Rightarrow> e | Inr (_, c) \<Rightarrow> e\<lparr>te_chan := c\<rparr>)"

definition chan_stream :: "Net \<Rightarrow> TunnelEnd Stream" where
  "chan_stream N = \<lparr>s_GetState = chan_GetState, s_Read = chan_rd N, s_Write = chan_wr N, s_Close = chan_close N\<rparr>"

lemma chan_stream_sel [simp]:
  "s_Read (chan_stream N) = chan_rd N" "s_Write (chan_stream N) = chan_wr N" "s_Close (chan_stream N) = chan_close N"
  by (simp_all add: chan_stream_def)

definition chan_sink_ok :: "TunnelEnd \<Rightarrow> bool" where
  "chan_sink_ok e \<longleftrightarrow> (\<forall>t. c_tcp (te_chan e) = Some t \<longrightarrow> fb_inv (m_sbuf t))"

definition chan_source_ok :: "TunnelEnd \<Rightarrow> bool" where
  "chan_source_ok e \<longleftrightarrow> (\<forall>t. c_tcp (te_chan e) = Some t \<longrightarrow> fb_inv (m_rbuf t) \<and> te_left e = fb_data (m_rbuf t))"

lemma chan_wr_cases:
  assumes "chan_sink_ok e" and "chan_wr N e data = (r, n, e1)"
  shows "chan_sink_ok e1" and "te_put e1 = te_put e @ take n data" and "n \<le> length data" and "r = SR_SUCCESS \<longleftrightarrow> 0 < n"
proof -
  let ?c = "te_chan e"
  have "chan_sink_ok e1 \<and> te_put e1 = te_put e @ take n data \<and> n \<le> length data \<and> (r = SR_SUCCESS \<longleftrightarrow> 0 < n)"
  proof (cases "IS_Write N (c_stream_thread ?c) (c_stream ?c) data ?c")
    case (Inl a)
    then show ?thesis using assms by (auto simp: chan_wr_def)
  next
    case (Inr a)
    obtain r' n' err c where a: "a = (r', n', err, c)" by (metis prod_cases4)
    have e1: "r' = r" "n' = n" "e1 = e\<lparr>te_chan := c, te_put := te_put e @ take n data\<rparr>"
      using assms(2) Inr a by (auto simp: chan_wr_def)
    show ?thesis
    proof (cases "c_stream ?c \<and> c_tcp ?c \<noteq> None")
      case True
      then obtain t where t: "c_tcp ?c = Some t" by blast
      have "Chan_Write N (c_stream_thread ?c) data ?c = Inr (r, n, err, c)" using Inr a e1 True by (simp add: IS_Write_def)
      then obtain k t1 where k: "Send (chan_env N ?c) (t\<lparr>x_events := []\<rparr>) data = Inr (k, t1)"
        "c_tcp c = Some (t1\<lparr>x_events := []\<rparr>)" "r = SR_SUCCESS \<longleftrightarrow> 0 < k" "n = nat k"
        by (rule Chan_Write_Inr [OF _ t])
      have "fb_inv (m_sbuf (t\<lparr>x_events := []\<rparr>))" using assms(1) t by (simp add: chan_sink_ok_def)
      from Send_buffer [OF this k(1)] show ?thesis using k e1 by (auto simp: chan_sink_ok_def)
    next
      case False
      then have "n = 0" "c = ?c" "r \<noteq> SR_SUCCESS"
        using Inr a e1 Chan_Write_None [of N "c_stream_thread ?c" data ?c r n err c] by (auto simp: IS_Write_def split: if_splits)
      then show ?thesis using assms(1) e1 by (simp add: chan_sink_ok_def)
    qed
  qed
  then show "chan_sink_ok e1" "te_put e1 = te_put e @ take n data" "n \<le> length data" "r = SR_SUCCESS \<longleftrightarrow> 0 < n" by simp_all
qed

lemma chan_rd_cases:
  assumes "chan_source_ok e" and "chan_rd N e n = (r, bs, e1)"
  shows "chan_source_ok e1" and "te_left e = bs @ te_left e1" and "0 < n \<Longrightarrow> length bs \<le> n" and "r = SR_SUCCESS \<longleftrightarrow> bs \<noteq> []"
proof -
  let ?c = "te_chan e"
  have "chan_source_ok e1 \<and> te_left e = bs @ te_left e1 \<and> (0 < n \<longrightarrow> length bs \<le> n) \<and> (r = SR_SUCCESS \<longleftrightarrow> bs \<noteq> [])"
  proof (cases "IS_Read N (c_stream_thread ?c) (c_stream ?c) n ?c")
    case (Inl a)
    then show ?thesis using assms by (auto simp: chan_rd_def)
  next
    case (Inr a)
    obtain r' bs' err c where a: "a = (r', bs', err, c)" by (metis prod_cases4)
    have e1: "r' = r" "bs' = bs" "e1 = e\<lparr>te_chan := c, te_left := drop (length bs) (te_left e)\<rparr>"
      using assms(2) Inr a by (auto simp: chan_rd_def)
    show ?thesis
    proof (cases "c_stream ?c \<and> c_tcp ?c \<noteq> None")
      case True
      then obtain t where t: "c_tcp ?c = Some t" by blast
      have "Chan_Read N (c_stream_thread ?c) n ?c = Inr (r, bs, err, c)" using Inr a e1 True by (simp add: IS_Read_def)
      then obtain k out t1 where k: "Recv (chan_env N ?c) (t\<lparr>x_events := []\<rparr>) n = Inr (k, out, t1)"
        "c_tcp c = Some (t1\<lparr>x_events := []\<rparr>)" "r = SR_SUCCESS \<longleftrightarrow> 0 < k" "bs = (if 0 < k then out else [])"
        by (rule Chan_Read_Inr [OF _ t])
      have "fb_inv (m_rbuf (t\<lparr>x_events := []\<rparr>))" "te_left e = fb_data (m_rbuf t)" using assms(1) t by (simp_all add: chan_source_ok_def)
      then show ?thesis using Recv_buffer [OF _ k(1)] k e1 by (auto simp: chan_source_ok_def)
    next
      case False
      then have "bs = []" "c = ?c" "r \<noteq> SR_SUCCESS"
        using Inr a e1 Chan_Read_None [of N "c_stream_thread ?c" n ?c r bs err c] by (auto simp: IS_Read_def split: if_splits)
      then show ?thesis using assms(1) e1 by (simp add: chan_source_ok_def)
    qed
  qed
  then show "chan_source_ok e1" "te_left e = bs @ te_left e1" "0 < n \<Longrightarrow> length bs \<le> n" "r = SR_SUCCESS \<longleftrightarrow> bs \<noteq> []" by simp_all
qed

lemma chan_close_same [simp]: "te_put (chan_close N e) = te_put e" "te_left (chan_close N e) = te_left e"
  by (simp_all add: chan_close_def split: sum.splits prod.splits)

interpretation chan_sink: tunnel_sink "chan_stream N" te_put chan_sink_ok for N
proof (unfold_locales, unfold chan_stream_sel)
  fix e e1 data r n
  assume ok: "chan_sink_ok e"
  show "chan_sink_ok e1" if "chan_wr N e data = (r, n, e1)" using chan_wr_cases(1) [OF ok that] .
  show "0 < n \<and> n \<le> length data \<and> te_put e1 = te_put e @ take n data" if "chan_wr N e data = (SR_SUCCESS, n, e1)"
    using chan_wr_cases [OF ok that] by blast
  show "te_put e1 = te_put e" if "chan_wr N e data = (r, n, e1)" "r \<noteq> SR_SUCCESS"
    using chan_wr_cases [OF ok that(1)] that(2) by simp
qed (rule chan_close_same)

interpretation chan_source: tunnel_source "chan_stream N" te_left chan_source_ok for N
proof (unfold_locales, unfold chan_stream_sel)
  fix e e1 n r bs
  assume ok: "chan_source_ok e"
  show "chan_source_ok e1" if "chan_rd N e n = (r, bs, e1)" using chan_rd_cases(1) [OF ok that] .
  show "bs \<noteq> [] \<and> length bs \<le> n \<and> te_left e = bs @ te_left e1" if "0 < n" "chan_rd N e n = (SR_SUCCESS, bs, e1)"
    using chan_rd_cases [OF ok that(2)] that(1) by blast
  show "te_left e1 = te_left e" if "chan_rd N e n = (r, bs, e1)" "r \<noteq> SR_SUCCESS"
    using chan_rd_cases [OF ok that(1)] that(2) by simp
qed (rule chan_close_same)

subsection \<open>The operation of the connection that a call makes\<close>

definition route_mtu :: "(int \<times> int \<times> uint16) option \<Rightarrow> uint16" where
  "route_mtu sock = (case sock of None \<Rightarrow> 1280 | Some (joined, estimated, value) \<Rightarrow> if joined < 0 then 1280 else value)"

fun op_call :: "chan_op \<Rightarrow> Chan \<Rightarrow> Env \<Rightarrow> PseudoTcp \<Rightarrow> PseudoTcp exec" where
  "op_call (Op_SetOption opt v) c E t = SetOption E t opt v"
| "op_call (Op_Read n) c E t = andThen (Recv E t n) (\<lambda>(_, _, t1). Inr t1)"
| "op_call (Op_Write data) c E t = andThen (Send E t data) (\<lambda>(_, t1). Inr t1)"
| "op_call Op_Close c E t = Inr (Close t False)"
| "op_call (Op_Destroyed k) c E t = Inr (Close t True)"
| "op_call (Op_Writable k w) c E t = (if c_ready_to_connect c \<and> w then andThen (Connect E t) (\<lambda>(_, t1). Inr t1) else Inr t)"
| "op_call (Op_Packet k data) c E t = andThen (NotifyPacket E t data) (\<lambda>(_, t1). Inr t1)"
| "op_call (Op_Route k sock) c E t = Inr (NotifyMTU t (route_mtu sock))"
| "op_call (Op_Clock i) c E t = andThen (clock_call E t) (\<lambda>(_, t1). Inr t1)"
| "op_call x c E t = Inr t"

text \<open>Two connections that differ in the traces only.\<close>

definition bare :: "PseudoTcp \<Rightarrow> PseudoTcp" where
  "bare t = t\<lparr>x_events := [], x_clock := 0\<rparr>"

lemma bare_upd [simp]: "bare (t\<lparr>x_events := evs\<rparr>) = bare t" "bare (t\<lparr>x_clock := k\<rparr>) = bare t"
  by (simp_all add: bare_def)

lemma bare_same:
  assumes "bare t = bare t'"
  shows "m_shutdown t = m_shutdown t'" "m_rcv_nxt t = m_rcv_nxt t'" "good_ack t = good_ack t'" "x_sent t = x_sent t'"
    "m_sbuf t = m_sbuf t'" "m_rbuf t = m_rbuf t'" "m_state t = m_state t'"
proof -
  have *: "f t = f t'" if "\<And>x. f (bare x) = f x" for f :: "PseudoTcp \<Rightarrow> 'b"
    using that assms by metis
  show "m_shutdown t = m_shutdown t'" "m_rcv_nxt t = m_rcv_nxt t'" "good_ack t = good_ack t'" "x_sent t = x_sent t'"
    "m_sbuf t = m_sbuf t'" "m_rbuf t = m_rbuf t'" "m_state t = m_state t'"
    by (rule *, simp add: bare_def good_ack_def ack_aligned_def fun_eq_iff)+
qed

lemma peer_inv_bare:
  assumes "peer_inv T U p" and "bare t = bare (p_tcp p)"
  shows "peer_inv T U (p\<lparr>p_tcp := t\<rparr>)"
proof -
  have 1: "peer_inv T U (p\<lparr>p_tcp := bare (p_tcp p)\<rparr>)"
    using peer_inv_trace(2) [OF peer_inv_trace(1) [OF assms(1), of "[]"], of 0] by (simp add: bare_def)
  have "t = (bare t)\<lparr>x_events := x_events t, x_clock := x_clock t\<rparr>" by (cases t) (simp add: bare_def)
  then show ?thesis
    using peer_inv_trace(2) [OF peer_inv_trace(1) [OF 1, of "x_events t"], of "x_clock t"] assms(2) by simp
qed

lemma AdjustClock_Inr:
  assumes "Chan_AdjustClock N b c = Inr c'" and "c_tcp c = Some t"
  shows "c_tcp c' = None \<or> (\<exists>t'. c_tcp c' = Some t' \<and> bare t' = bare t)"
  using assms by (auto simp: Chan_AdjustClock_def Now_def andThen_eq_Inr_iff Let_def split: option.splits if_splits)

lemma call_adjust_Inr:
  assumes "andThen (call_tcp N cur f c) (\<lambda>(_, c1). Chan_AdjustClock N b c1) = Inr c'" and "c_tcp c = Some t"
  obtains r t1 where "f (chan_env N c) (t\<lparr>x_events := []\<rparr>) = Inr (r, t1)"
    and "c_tcp c' = None \<or> (\<exists>t'. c_tcp c' = Some t' \<and> bare t' = bare t1)"
proof -
  obtain r c1 where c1: "call_tcp N cur f c = Inr (r, c1)" "Chan_AdjustClock N b c1 = Inr c'"
    using assms(1) by (auto simp: andThen_eq_Inr_iff)
  obtain t1 where t1: "f (chan_env N c) (t\<lparr>x_events := []\<rparr>) = Inr (r, t1)" "c_tcp c1 = Some (t1\<lparr>x_events := []\<rparr>)"
    using call_tcp_Inr [OF c1(1)] assms(2) by (metis option.inject)
  have "c_tcp c' = None \<or> (\<exists>t'. c_tcp c' = Some t' \<and> bare t' = bare t1)"
    using AdjustClock_Inr [OF c1(2) t1(2)] by auto
  then show ?thesis using that t1(1) by blast
qed

text \<open>Every call makes its operation on the connection; afterwards the connection is the result, up to the traces, or deleted.\<close>

definition tcp_kept :: "PseudoTcp \<Rightarrow> Chan \<Rightarrow> bool" where
  "tcp_kept t c \<longleftrightarrow> c_tcp c = None \<or> (\<exists>t'. c_tcp c = Some t' \<and> bare t' = bare t)"

lemma keep_Inr: "keep p m = Inr (Some c, p1) \<longleftrightarrow> m = Inr c \<and> p1 = p"
  by (auto simp: keep_def andThen_eq_Inr_iff)

lemma told_Inr: "told p m = Inr (Some c, p1) \<longleftrightarrow> m = Inr (Some c) \<and> p1 = p"
  by (auto simp: told_def andThen_eq_Inr_iff)

lemma andThen_snd: "andThen m (\<lambda>(_, c1). Inr c1) = Inr c \<longleftrightarrow> (\<exists>r. m = Inr (r, c))"
  by (cases m) (auto split: prod.splits)

lemma signal_Inr:
  assumes "andThen (worker_current w c) (\<lambda>_. if c_channel c = None then Inr c
      else andThen (ASSERT (Some k = c_channel c)) (\<lambda>_. if c_tcp c = None then Inr c else m)) = Inr c'"
    and "c_tcp c = Some t" and "c_channel c \<noteq> None"
  shows "m = Inr c'"
  using assms by (auto simp: andThen_eq_Inr_iff)

lemma signal_call:
  assumes "chan_run N x c p = keep p (andThen (worker_current (worker c) c) (\<lambda>_. if c_channel c = None then Inr c
      else andThen (ASSERT (Some k = c_channel c)) (\<lambda>_. if c_tcp c = None then Inr c
      else andThen (call_tcp N (worker c) f d) (\<lambda>(_, c1). Chan_AdjustClock N True c1))))"
    and "chan_run N x c p = Inr (Some c', p1)" and "c_tcp c = Some t" and "c_channel c \<noteq> None"
    and "c_tcp d = Some t" and "c_channel d = c_channel c"
    and "\<And>r t1. f (chan_env N c) (t\<lparr>x_events := []\<rparr>) = Inr (r, t1) \<Longrightarrow> op_call x c (chan_env N c) (t\<lparr>x_events := []\<rparr>) = Inr t1"
  shows "\<exists>t1. op_call x c (chan_env N c) (t\<lparr>x_events := []\<rparr>) = Inr t1 \<and> tcp_kept t1 c'"
proof -
  let ?m = "andThen (call_tcp N (worker c) f d) (\<lambda>(_, c1). Chan_AdjustClock N True c1)"
  let ?M = "andThen (worker_current (worker c) c) (\<lambda>_. if c_channel c = None then Inr c
      else andThen (ASSERT (Some k = c_channel c)) (\<lambda>_. if c_tcp c = None then Inr c else ?m))"
  have "keep p ?M = Inr (Some c', p1)" by (rule trans [OF assms(1) [symmetric] assms(2)])
  then have "?M = Inr c'" unfolding keep_Inr by blast
  then have "?m = Inr c'" by (rule signal_Inr [OF _ assms(3,4)])
  then obtain r t1 where "f (chan_env N d) (t\<lparr>x_events := []\<rparr>) = Inr (r, t1)" "tcp_kept t1 c'"
    using call_adjust_Inr [OF _ assms(5)] unfolding tcp_kept_def by blast
  then show ?thesis using assms(7) chan_env_cong [of d c N, OF assms(6)] by auto
qed

lemma run_call:
  assumes run: "chan_run N x c p = Inr (Some c', p1)" and en: "chan_enabled ops c p x" and inv: "chan_inv ops c p"
    and t: "c_tcp c = Some t"
  shows "\<exists>t1. op_call x c (chan_env N c) (t\<lparr>x_events := []\<rparr>) = Inr t1 \<and> tcp_kept t1 c'"
proof -
  note al = inv_alive [OF inv t]
  have same: "?thesis" if "\<And>E t. op_call x c E t = Inr t" "c_tcp c' = c_tcp c"
    using that t by (simp add: tcp_kept_def)
  show ?thesis
  proof (cases x)
    case (Op_Connect content name cpt k)
    then show ?thesis using run al(1) by (intro same) (auto simp: keep_Inr Chan_Connect_def andThen_eq_Inr_iff)
  next
    case Op_GetStream
    then show ?thesis using run by (intro same) (auto simp: keep_Inr Chan_GetStream_def andThen_eq_Inr_iff)
  next
    case (Op_Destroyed k)
    then obtain c2 c3 where "Chan_AdjustClock N True (c2\<lparr>c_tcp := Some (Close t True)\<rparr>) = Inr c3" "c_tcp c' = c_tcp c3"
      using run t by (auto simp: keep_Inr Chan_OnChannelDestroyed_def andThen_eq_Inr_iff post_event_def Let_def split: option.splits if_splits)
    then show ?thesis using AdjustClock_Inr [of N True "c2\<lparr>c_tcp := Some (Close t True)\<rparr>" c3 "Close t True"]
      by (auto simp: Op_Destroyed tcp_kept_def Close_def bare_def)
  next
    case (Op_Terminate s)
    then show ?thesis using run al(1) by (intro same) (auto simp: keep_Inr Chan_OnSessionTerminate_def)
  next
    case (Op_SetOption opt v)
    then obtain r where r: "call_tcp N (c_signal_thread c) (\<lambda>E t. andThen (SetOption E t opt v) (\<lambda>t1. Inr ((), t1))) c = Inr (r, c')"
      using run t by (auto simp: keep_Inr Chan_SetOption_def andThen_eq_Inr_iff)
    obtain t' t1 where "c_tcp c = Some t'" "andThen (SetOption (chan_env N c) (t'\<lparr>x_events := []\<rparr>) opt v) (\<lambda>t1. Inr ((), t1)) = Inr (r, t1)"
      "c_tcp c' = Some (t1\<lparr>x_events := []\<rparr>)"
      by (rule call_tcp_Inr [OF r])
    then show ?thesis using t by (simp add: Op_SetOption tcp_kept_def andThen_eq_Inr_iff)
  next
    case (Op_Read n)
    then have p: "p" using en by simp
    obtain r bs err where r: "Chan_Read N (c_stream_thread c) n c = Inr (r, bs, err, c')"
      using run p by (auto simp: Op_Read keep_Inr IS_Read_def andThen_eq_Inr_iff)
    show ?thesis by (rule Chan_Read_Inr [OF r t]) (simp add: Op_Read tcp_kept_def)
  next
    case (Op_Write data)
    then have p: "p" using en by simp
    obtain r n err where r: "Chan_Write N (c_stream_thread c) data c = Inr (r, n, err, c')"
      using run p by (auto simp: Op_Write keep_Inr IS_Write_def andThen_eq_Inr_iff)
    show ?thesis by (rule Chan_Write_Inr [OF r t]) (simp add: Op_Write tcp_kept_def)
  next
    case Op_Close
    then obtain c2 where "Chan_AdjustClock N True (c2\<lparr>c_tcp := Some (Close t False)\<rparr>) = Inr c'"
      using run en t by (auto simp: IS_Close_def Chan_Close_def andThen_eq_Inr_iff Let_def)
    then show ?thesis using AdjustClock_Inr [of N True "c2\<lparr>c_tcp := Some (Close t False)\<rparr>" c' "Close t False"]
      by (auto simp: Op_Close tcp_kept_def Close_def bare_def)
  next
    case (Op_Writable k w)
    show ?thesis
    proof (cases "c_ready_to_connect c \<and> w")
      case True
      then show ?thesis
        by (intro signal_call [where f = "\<lambda>E t. Connect E t" and d = "c\<lparr>c_ready_to_connect := False\<rparr>" and k = k, OF _ run t al(1)])
          (simp_all add: Op_Writable Chan_OnChannelWritableState_def t)
    next
      case False
      then have "c' = c" using run t al(1) by (auto simp: Op_Writable keep_Inr Chan_OnChannelWritableState_def andThen_eq_Inr_iff)
      then show ?thesis using False t by (auto simp: Op_Writable tcp_kept_def)
    qed
  next
    case (Op_Packet k data)
    show ?thesis
      by (rule signal_call [where f = "\<lambda>E t. NotifyPacket E t data" and d = c and k = k, OF _ run t al(1) t])
        (simp_all add: Op_Packet Chan_OnChannelRead_def)
  next
    case (Op_Route k sock)
    show ?thesis
      by (rule signal_call [where f = "\<lambda>E t. Inr ((), NotifyMTU t (route_mtu sock))" and d = c and k = k, OF _ run t al(1) t])
        (simp_all add: Op_Route Chan_OnChannelConnectionChanged_def route_mtu_def Let_def)
  next
    case (Op_Clock i)
    let ?c = "c\<lparr>q_clock := take i (q_clock c) @ drop (Suc i) (q_clock c)\<rparr>"
    have "andThen (call_tcp N (worker c) clock_call ?c) (\<lambda>(_, c1). Chan_AdjustClock N False c1) = Inr c'"
      using run t by (auto simp: Op_Clock told_Inr clock_call_def [abs_def] andThen_eq_Inr_iff)
    then obtain r t1 where "clock_call (chan_env N ?c) (t\<lparr>x_events := []\<rparr>) = Inr (r, t1)" "tcp_kept t1 c'"
      using call_adjust_Inr [of N "worker c" clock_call ?c False c' t] t unfolding tcp_kept_def by auto
    then show ?thesis using chan_env_cong [of ?c c N] by (simp add: Op_Clock)
  next
    case Op_Purge
    then show ?thesis using run by (intro same) (auto simp: told_Inr andThen_eq_Inr_iff Chan_CheckDestroy_def)
  next
    case Op_Event
    then show ?thesis using run by (intro same) (auto simp: told_Inr andThen_eq_Inr_iff Let_def)
  next
    case Op_DestroyChannel
    then show ?thesis using run by (intro same) (auto simp: told_Inr andThen_eq_Inr_iff)
  next
    case Op_Destroy
    then show ?thesis using run by (auto simp: told_Inr andThen_eq_Inr_iff)
  qed
qed

subsection \<open>Two channels joined by a network\<close>

text \<open>A site is a channel with the calls it has had, and the peer that its connection is, or was when it was deleted,
  with what its stream has accepted and delivered.\<close>

record Site =
  st_ops :: "chan_op list"
  st_chan :: Chan
  st_open :: bool
  st_peer :: Peer

definition accepted :: "Net \<Rightarrow> chan_op \<Rightarrow> Chan \<Rightarrow> byte list" where
  "accepted N x c =
     (case x of Op_Write data \<Rightarrow>
        (case Chan_Write N (c_stream_thread c) data c of Inl _ \<Rightarrow> [] | Inr (_, n, _, _) \<Rightarrow> take n data)
      | _ \<Rightarrow> [])"

definition delivered :: "Net \<Rightarrow> chan_op \<Rightarrow> Chan \<Rightarrow> byte list" where
  "delivered N x c =
     (case x of Op_Read n \<Rightarrow> (case Chan_Read N (c_stream_thread c) n c of Inl _ \<Rightarrow> [] | Inr (_, bs, _, _) \<Rightarrow> bs) | _ \<Rightarrow> [])"

definition last_tcp :: "Net \<Rightarrow> chan_op \<Rightarrow> Chan \<Rightarrow> Chan \<Rightarrow> PseudoTcp \<Rightarrow> PseudoTcp" where
  "last_tcp N x c c' old =
     (case c_tcp c of
        Some t \<Rightarrow> (case op_call x c (chan_env N c) (t\<lparr>x_events := []\<rparr>) of Inl _ \<Rightarrow> old | Inr t1 \<Rightarrow> t1)
      | None \<Rightarrow> (case c_tcp c' of None \<Rightarrow> old | Some t \<Rightarrow> t))"

definition next_peer :: "Net \<Rightarrow> chan_op \<Rightarrow> Chan \<Rightarrow> Chan \<Rightarrow> Peer \<Rightarrow> Peer" where
  "next_peer N x c c' p =
     \<lparr>p_tcp = last_tcp N x c c' (p_tcp p), p_wrote = p_wrote p @ accepted N x c, p_read = p_read p @ delivered N x c\<rparr>"

text \<open>The packets that arrive are among those the other connection has sent, with the conditions of \<open>peer_step\<close>; the sequence
  numbers do not wrap, the path carries the headers, and the buffers are not resized.\<close>

fun network_allows :: "Peer \<Rightarrow> Site \<Rightarrow> chan_op \<Rightarrow> bool" where
  "network_allows q a (Op_Packet k pkt) \<longleftrightarrow> pkt \<in> fst ` set (x_sent (p_tcp q)) \<and>
     (\<forall>t. c_tcp (st_chan a) = Some t \<longrightarrow>
        good_ack t (pkt_ack pkt) \<and> (pkt_payload pkt = [] \<or> pkt_ctl pkt \<or> 4 \<le> m_rcv_nxt t))"
| "network_allows q a (Op_Write data) \<longleftrightarrow> length (p_wrote (st_peer a)) + length data + 4 < 2 ^ 31"
| "network_allows q a (Op_Route k sock) \<longleftrightarrow> 116 < route_mtu sock"
| "network_allows q a (Op_SetOption opt v) \<longleftrightarrow> opt = OPT_NODELAY \<or> opt = OPT_ACKDELAY"
| "network_allows q a _ \<longleftrightarrow> True"

inductive site_step :: "Net \<Rightarrow> Peer \<Rightarrow> Site \<Rightarrow> Site \<Rightarrow> bool" for N q a where
  call: "chan_enabled (st_ops a) (st_chan a) (st_open a) x \<Longrightarrow> network_allows q a x \<Longrightarrow>
    chan_run N x (st_chan a) (st_open a) = Inr (Some c', p') \<Longrightarrow>
    site_step N q a \<lparr>st_ops = st_ops a @ [x], st_chan = c', st_open = p', st_peer = next_peer N x (st_chan a) c' (st_peer a)\<rparr>"

definition new_site :: "Env \<Rightarrow> Chan \<Rightarrow> Site" where
  "new_site E c = \<lparr>st_ops = [], st_chan = c, st_open = False, st_peer = \<lparr>p_tcp = new_PseudoTcp E 0, p_wrote = [], p_read = []\<rparr>\<rparr>"

inductive joined :: "Net \<Rightarrow> Net \<Rightarrow> Site \<Rightarrow> Site \<Rightarrow> bool" for N M where
  begun: "new_Chan cur st session = Inr c \<Longrightarrow> new_Chan cur' st' session' = Inr d \<Longrightarrow> joined N M (new_site E c) (new_site E' d)"
| at_left: "joined N M a b \<Longrightarrow> site_step N (st_peer b) a a' \<Longrightarrow> joined N M a' b"
| at_right: "joined N M a b \<Longrightarrow> site_step M (st_peer a) b b' \<Longrightarrow> joined N M a b'"

definition site_inv :: "byte list \<Rightarrow> byte list \<Rightarrow> Site \<Rightarrow> bool" where
  "site_inv T U a \<longleftrightarrow>
     chan_inv (st_ops a) (st_chan a) (st_open a) \<and> peer_inv T U (st_peer a) \<and>
     (\<forall>t. c_tcp (st_chan a) = Some t \<longrightarrow> bare t = bare (p_tcp (st_peer a)) \<and> (Op_Close \<notin> set (st_ops a) \<longrightarrow> m_shutdown t = SD_NONE)) \<and>
     (\<not> was_connected (st_ops a) \<longrightarrow> T = [] \<and> p_read (st_peer a) = [])"

text \<open>The operation on the connection is a step of the pair.\<close>

lemma peer_inv_option:
  assumes "peer_inv T U p" and "SetOption E (p_tcp p) opt v = Inr t" and "opt = OPT_NODELAY \<or> opt = OPT_ACKDELAY"
  shows "peer_inv T U (p\<lparr>p_tcp := t\<rparr>)"
proof -
  have t: "t = (p_tcp p)\<lparr>m_use_nagling := (v = 0)\<rparr> \<or> t = (p_tcp p)\<lparr>m_ack_delay := word_of_int v\<rparr>"
    using assms(2,3) by (auto simp: SetOption_def)
  then have "ep_inv 4 T t"
    using assms(1) ep_inv_same [of 4 T "p_tcp p" t] by (auto simp: peer_inv_def)
  moreover have "rcv_part t = rcv_part (p_tcp p)" using t by (auto simp: rcv_part_def)
  ultimately show ?thesis using assms(1) by (intro peer_inv_part [OF assms(1)]) (simp_all add: peer_inv_def)
qed

lemma step_peer:
  assumes "peer_step q p p'" and "peer_inv T U p" and "peer_inv U T q"
  shows "\<exists>X. peer_inv (T @ X) U p'"
  using peer_step_inv [OF assms] by blast

lemma accepted_other [simp]: "\<not> is_Op_Write x \<Longrightarrow> accepted N x c = []"
  by (cases x) (simp_all add: accepted_def)

lemma delivered_other [simp]: "\<not> is_Op_Read x \<Longrightarrow> delivered N x c = []"
  by (cases x) (simp_all add: delivered_def)

lemma op_peer_plain:
  assumes inv: "peer_inv T U p" "peer_inv U T q" and allows: "network_allows q a x"
    and call: "op_call x c E (p_tcp p) = Inr t1" and tcp: "c_tcp (st_chan a) = Some t" "bare t = bare (p_tcp p)"
    and x: "\<not> is_Op_Write x" "\<not> is_Op_Read x"
  shows "\<exists>X. peer_inv (T @ X) U (p\<lparr>p_tcp := t1\<rparr>)"
proof -
  have stay: ?thesis if "peer_inv T U (p\<lparr>p_tcp := t1\<rparr>)" using that by (intro exI [of _ "[]"]) simp
  have step: ?thesis if "peer_step q p (p\<lparr>p_tcp := t1\<rparr>)" by (rule step_peer [OF that inv])
  show ?thesis
  proof (cases x)
    case (Op_SetOption opt v)
    then show ?thesis using peer_inv_option [OF inv(1)] call allows by (intro stay) auto
  next
    case (Op_Packet k pkt)
    then obtain ok where "NotifyPacket E (p_tcp p) pkt = Inr (ok, t1)" using call by (auto simp: andThen_eq_Inr_iff)
    moreover have "\<exists>w. (pkt, w) \<in> set (x_sent (p_tcp q))" "good_ack (p_tcp p) (pkt_ack pkt)"
      "pkt_payload pkt = [] \<or> pkt_ctl pkt \<or> 4 \<le> m_rcv_nxt (p_tcp p)"
      using allows tcp(1) bare_same(2,3) [OF tcp(2)] by (auto simp: Op_Packet)
    ultimately show ?thesis using step peer_step.deliver by blast
  next
    case (Op_Clock i)
    then obtain t2 where t2: "NotifyClock E ((p_tcp p)\<lparr>x_clock := Suc (x_clock (p_tcp p))\<rparr>) (env_now E (x_clock (p_tcp p))) = Inr t1"
      using call by (auto simp: clock_call_def Now_def andThen_eq_Inr_iff)
    let ?p = "p\<lparr>p_tcp := (p_tcp p)\<lparr>x_clock := Suc (x_clock (p_tcp p))\<rparr>\<rparr>"
    have "peer_step q ?p (p\<lparr>p_tcp := t1\<rparr>)" using peer_step.clock [of E ?p _ t1 q] t2 by simp
    then show ?thesis by (rule step_peer [OF _ peer_inv_trace(2) [OF inv(1)] inv(2)])
  next
    case (Op_Writable k w)
    show ?thesis
    proof (cases "c_ready_to_connect c \<and> w")
      case True
      then obtain r where "Connect E (p_tcp p) = Inr (r, t1)" using call by (auto simp: Op_Writable andThen_eq_Inr_iff)
      then show ?thesis using step peer_step.connect by blast
    next
      case False
      then show ?thesis using call inv(1) by (intro stay) (auto simp: Op_Writable)
    qed
  qed (use call inv(1) allows x stay step peer_step.shut [of q p False] peer_step.shut [of q p True] peer_step.mtu [of _ q p] in auto)
qed

text \<open>Only the connection creates a \<open>PseudoTcp\<close>.\<close>

lemma run_creates:
  assumes "chan_run N x c p = Inr (Some c', p1)" and "chan_enabled ops c p x" and "chan_inv ops c p"
    and "c_tcp c = None" and "c_tcp c' = Some t"
  shows "fresh c" and "\<exists>E. t = new_PseudoTcp E 0"
proof -
  have "fresh c \<and> (\<exists>E. t = new_PseudoTcp E 0)"
  proof (cases x)
    case (Op_Connect content name cpt k)
    then have "c_channel c = None" "c_session c \<noteq> None" "\<exists>E. t = new_PseudoTcp E 0"
      using assms(1,2,4,5) by (auto simp: keep_Inr Chan_Connect_def andThen_eq_Inr_iff Let_def split: if_splits)
    then show ?thesis using assms(3) by (auto simp: chan_inv_def phase_defs)
  next
    case (Op_Read n)
    then show ?thesis using assms by (auto simp: keep_Inr IS_Read_def andThen_eq_Inr_iff dest: Chan_Read_None)
  next
    case (Op_Write data)
    then show ?thesis using assms by (auto simp: keep_Inr IS_Write_def andThen_eq_Inr_iff dest: Chan_Write_None)
  qed (use assms(1,2,4,5) in \<open>auto simp: keep_Inr told_Inr andThen_eq_Inr_iff Chan_GetStream_def Chan_OnChannelDestroyed_def
      Chan_OnSessionTerminate_def Chan_SetOption_def IS_Close_def Chan_Close_def Chan_CheckDestroy_def
      Chan_OnChannelWritableState_def Chan_OnChannelRead_def Chan_OnChannelConnectionChanged_def post_event_def Let_def
      split: if_splits option.splits\<close>)
  then show "fresh c" "\<exists>E. t = new_PseudoTcp E 0" by simp_all
qed

lemma AdjustClock_channel: "Chan_AdjustClock N b c = Inr c' \<Longrightarrow> c_channel c' = c_channel c"
  by (auto simp: Chan_AdjustClock_def andThen_eq_Inr_iff Let_def split: option.splits prod.splits if_splits)

lemma Destroyed_tcp:
  assumes "chan_run N (Op_Destroyed k) c p = Inr (Some c', p1)" and "chan_inv ops c' p1"
  shows "c_tcp c' = None"
proof -
  have "c_channel c' = None"
    using assms(1) by (auto simp: keep_Inr Chan_OnChannelDestroyed_def andThen_eq_Inr_iff post_event_def Let_def
        dest!: AdjustClock_channel split: option.splits if_splits)
  then show ?thesis using inv_alive(1) [OF assms(2)] by (cases "c_tcp c'") auto
qed

text \<open>Only \<open>Close\<close> and the end of the transport channel shut the connection down.\<close>

lemma op_call_shutdown:
  assumes "op_call x c E t = Inr t1" and "x \<noteq> Op_Close" and "\<not> is_Op_Destroyed x" and "m_rwnd_scale t = 0"
    and "\<And>k pkt. x = Op_Packet k pkt \<Longrightarrow> 24 \<le> length pkt"
    and "\<And>opt v. x = Op_SetOption opt v \<Longrightarrow> opt = OPT_NODELAY \<or> opt = OPT_ACKDELAY"
  shows "m_shutdown t1 = m_shutdown t"
proof -
  have sh: "rcv_part a = rcv_part b \<Longrightarrow> m_shutdown a = m_shutdown b" for a b by (simp add: rcv_part_def)
  show ?thesis
  proof (cases x)
    case (Op_Packet k pkt)
    then show ?thesis using assms(1,4,5) NotifyPacket_shutdown by (auto simp: andThen_eq_Inr_iff)
  next
    case (Op_SetOption opt v)
    then show ?thesis using assms(1,6) by (auto simp: SetOption_def)
  next
    case (Op_Clock i)
    then obtain t2 where "NotifyClock E (t\<lparr>x_clock := Suc (x_clock t)\<rparr>) (env_now E (x_clock t)) = Inr t1"
      using assms(1) by (auto simp: clock_call_def Now_def andThen_eq_Inr_iff)
    then show ?thesis using sh [OF NotifyClock_part] by fastforce
  qed (use assms(1-3) in \<open>auto simp: andThen_eq_Inr_iff intro: sh [OF Connect_part] sh [OF Send_part] sh [OF NotifyMTU_part] Recv_shutdown
      split: if_splits\<close>)
qed

lemma op_peer_stream:
  assumes inv: "peer_inv T U (p\<lparr>p_tcp := t\<lparr>x_events := []\<rparr>\<rparr>)" "peer_inv U T q" and allows: "network_allows q a x" and p: "st_peer a = p"
    and run: "chan_run N x c True = Inr (Some c', p1)" and t: "c_tcp c = Some t" and sh: "m_shutdown t = SD_NONE"
    and x: "is_Op_Write x \<or> is_Op_Read x"
  shows "\<exists>X. peer_inv (T @ X) U (next_peer N x c c' p)"
proof -
  let ?p = "p\<lparr>p_tcp := t\<lparr>x_events := []\<rparr>\<rparr>"
  have "peer_step q ?p (next_peer N x c c' p)"
  proof (cases x)
    case (Op_Write data)
    obtain r n err where w: "Chan_Write N (c_stream_thread c) data c = Inr (r, n, err, c')"
      using run by (auto simp: Op_Write keep_Inr IS_Write_def andThen_eq_Inr_iff)
    obtain k t1 where k: "Send (chan_env N c) (t\<lparr>x_events := []\<rparr>) data = Inr (k, t1)" "n = nat k" by (rule Chan_Write_Inr [OF w t])
    have "peer_step q ?p (?p\<lparr>p_tcp := t1, p_wrote := p_wrote ?p @ take (nat k) data\<rparr>)"
      by (rule peer_step.send [of "chan_env N c"]) (use k allows p in \<open>simp_all add: Op_Write\<close>)
    moreover have "next_peer N x c c' p = ?p\<lparr>p_tcp := t1, p_wrote := p_wrote ?p @ take (nat k) data\<rparr>"
      using w k t by (simp add: next_peer_def last_tcp_def accepted_def delivered_def Op_Write)
    ultimately show ?thesis by simp
  next
    case (Op_Read n)
    obtain r bs err where w: "Chan_Read N (c_stream_thread c) n c = Inr (r, bs, err, c')"
      using run by (auto simp: Op_Read keep_Inr IS_Read_def andThen_eq_Inr_iff)
    obtain k out t1 where k: "Recv (chan_env N c) (t\<lparr>x_events := []\<rparr>) n = Inr (k, out, t1)" "bs = (if 0 < k then out else [])"
      by (rule Chan_Read_Inr [OF w t])
    have "fb_inv (m_rbuf (t\<lparr>x_events := []\<rparr>))" using inv(1) sh by (simp add: peer_inv_def rcv_stream_def fb_open_def)
    then have bs: "bs = out" using Recv_buffer(3) [OF _ k(1)] k(2) by auto
    have "peer_step q ?p (?p\<lparr>p_tcp := t1, p_read := p_read ?p @ out\<rparr>)"
      by (rule peer_step.recv [of _ "chan_env N c"]) (use k sh in simp_all)
    moreover have "next_peer N x c c' p = ?p\<lparr>p_tcp := t1, p_read := p_read ?p @ out\<rparr>"
      using w k t bs by (simp add: next_peer_def last_tcp_def accepted_def delivered_def Op_Read)
    ultimately show ?thesis by simp
  qed (use x in simp_all)
  from step_peer [OF this inv] show ?thesis .
qed

lemma accepted_None: "c_tcp c = None \<Longrightarrow> accepted N x c = []" "c_tcp c = None \<Longrightarrow> delivered N x c = []"
  by (auto simp: accepted_def delivered_def dest: Chan_Read_None Chan_Write_None split: chan_op.splits sum.splits)

lemma created_peer:
  assumes "length U < 2 ^ 31"
  shows "peer_inv [] U \<lparr>p_tcp = new_PseudoTcp E 0, p_wrote = [], p_read = []\<rparr>"
  using assms new_ep rcv_more [of 4 "[]" "[]" "new_PseudoTcp E 0" U] new_rcv by (intro peer_invI) simp_all

lemma site_step_inv:
  assumes step: "site_step N q a a'" and inv: "site_inv T U a" and q: "peer_inv U T q" and N: "answers_ok N"
  shows "\<exists>X. site_inv (T @ X) U a'"
proof -
  from step obtain x c' p' where x: "chan_enabled (st_ops a) (st_chan a) (st_open a) x" "network_allows q a x"
    "chan_run N x (st_chan a) (st_open a) = Inr (Some c', p')"
    and a': "a' = \<lparr>st_ops = st_ops a @ [x], st_chan = c', st_open = p', st_peer = next_peer N x (st_chan a) c' (st_peer a)\<rparr>"
    by cases blast
  let ?c = "st_chan a" and ?p = "st_peer a"
  note ci = inv [unfolded site_inv_def, THEN conjunct1]
  have ci': "chan_inv (st_ops a @ [x]) c' p'"
    using chan_outcome [OF ci x(1) N] x(3) by (auto simp: outcome_def chan_good_def)
  have pi: "peer_inv T U ?p" using inv by (simp add: site_inv_def)
  show ?thesis
  proof (cases "c_tcp ?c")
    case None
    note e = accepted_None [OF None]
    show ?thesis
    proof (cases "c_tcp c'")
      case None': None
      have "next_peer N x ?c c' ?p = ?p" by (simp add: next_peer_def last_tcp_def None None' e)
      then have "site_inv T U a'" using inv ci' pi by (auto simp: site_inv_def a' None' was_connected_def)
      then show ?thesis by (intro exI [of _ "[]"]) simp
    next
      case (Some t)
      obtain E where f: "fresh ?c" "t = new_PseudoTcp E 0" using run_creates [OF x(3,1) ci None Some] by blast
      then have nc: "\<not> was_connected (st_ops a)" using ci by (auto simp: chan_inv_def phase_defs)
      then have T: "T = []" "p_read ?p = []" "p_wrote ?p = []" using inv pi by (auto simp: site_inv_def peer_inv_def)
      have "length U < 2 ^ 31" using q by (simp add: peer_inv_def)
      from created_peer [OF this, of E] have "peer_inv T U (next_peer N x ?c c' ?p)"
        by (simp add: next_peer_def last_tcp_def None Some e T f)
      moreover have "m_shutdown t = SD_NONE" by (simp add: f(2) new_PseudoTcp_def Let_def)
      ultimately have "site_inv T U a'"
        using ci' T by (auto simp: site_inv_def a' Some next_peer_def last_tcp_def None e)
      then show ?thesis by (intro exI [of _ "[]"]) simp
    qed
  next
    case (Some t)
    have b: "bare t = bare (p_tcp ?p)" "Op_Close \<notin> set (st_ops a) \<longrightarrow> m_shutdown t = SD_NONE" using inv Some by (auto simp: site_inv_def)
    let ?r = "?p\<lparr>p_tcp := t\<lparr>x_events := []\<rparr>\<rparr>"
    have p0: "peer_inv T U ?r" by (rule peer_inv_bare [OF pi]) (simp add: b(1))
    obtain t1 where t1: "op_call x ?c (chan_env N ?c) (t\<lparr>x_events := []\<rparr>) = Inr t1" "tcp_kept t1 c'"
      using run_call [OF x(3,1) ci Some] by blast
    have tl: "p_tcp (next_peer N x ?c c' ?p) = t1" by (simp add: next_peer_def last_tcp_def Some t1)
    have "\<exists>X. peer_inv (T @ X) U (next_peer N x ?c c' ?p)"
    proof (cases "is_Op_Write x \<or> is_Op_Read x")
      case True
      then have o: "st_open a" using x(1) by (cases x) auto
      then have "m_shutdown t = SD_NONE" using b(2) ci by (auto simp: chan_inv_def stream_inv_def)
      then show ?thesis using op_peer_stream [OF p0 q x(2) refl _ Some _ True] x(3) o by simp
    next
      case False
      have "\<exists>X. peer_inv (T @ X) U (?r\<lparr>p_tcp := t1\<rparr>)"
        by (rule op_peer_plain [OF p0 q x(2), where c = ?c and t = t]) (use t1 Some False in simp_all)
      moreover have "next_peer N x ?c c' ?p = ?r\<lparr>p_tcp := t1\<rparr>" using False tl by (simp add: next_peer_def)
      ultimately show ?thesis by simp
    qed
    then obtain X where X: "peer_inv (T @ X) U (next_peer N x ?c c' ?p)" by blast
    have wc: "was_connected (st_ops a)" using ci inv_alive(4) [OF ci Some] by (auto simp: chan_inv_def phase_defs)
    have sh: "m_shutdown t1 = SD_NONE" if "Op_Close \<notin> set (st_ops a @ [x])" "c_tcp c' \<noteq> None"
    proof -
      have g: "pkt_good 4 U pkt" if "x = Op_Packet k pkt" for k pkt
        using q x(2) that by (auto simp: peer_inv_def ep_inv_def snd_stream_def)
      have "m_shutdown t1 = m_shutdown (t\<lparr>x_events := []\<rparr>)"
      proof (rule op_call_shutdown [OF t1(1)])
        show "m_rwnd_scale (t\<lparr>x_events := []\<rparr>) = 0" using p0 by (simp add: peer_inv_def ep_inv_def)
        show "24 \<le> length pkt" if "x = Op_Packet k pkt" for k pkt using g [OF that] by (simp add: pkt_good_def)
        show "\<not> is_Op_Destroyed x" using Destroyed_tcp ci' x(3) that(2) by (cases x) auto
      qed (use that x(2) in auto)
      then show ?thesis using b(2) that(1) by simp
    qed
    have kept: "bare t' = bare t1 \<and> (Op_Close \<notin> set (st_ops a @ [x]) \<longrightarrow> m_shutdown t' = SD_NONE)" if "c_tcp c' = Some t'" for t'
    proof -
      have b': "bare t' = bare t1" using t1(2) that by (simp add: tcp_kept_def)
      show ?thesis unfolding bare_same(1) [OF b'] using sh that b' by blast
    qed
    have "was_connected (st_ops a @ [x])" using wc by (auto simp: was_connected_def)
    then have "site_inv (T @ X) U a'" using ci' X kept by (simp add: site_inv_def a' tl)
    then show ?thesis by blast
  qed
qed

lemma joined_inv:
  assumes "joined N M a b" and "answers_ok N" and "answers_ok M"
  shows "\<exists>T U. site_inv T U a \<and> site_inv U T b"
  using assms
proof induction
  case (begun cur st session c cur' st' session' d E E')
  have "site_inv [] [] (new_site E c)" if "new_Chan cur st session = Inr c" for cur st session c E
    using chan_life_good [OF chan_life.created [OF that] assms(2)] new_Chan_fields(6) [OF that] created_peer [of "[]" E]
    by (simp add: site_inv_def new_site_def chan_good_def)
  then show ?case using begun.hyps by blast
next
  case (at_left a b a')
  then obtain T U where I: "site_inv T U a" "site_inv U T b" by blast
  then have q: "peer_inv U T (st_peer b)" by (simp add: site_inv_def)
  obtain X where X: "site_inv (T @ X) U a'" using site_step_inv [OF at_left.hyps(2) I(1) q assms(2)] by blast
  then have "length (T @ X) < 2 ^ 31" by (simp add: site_inv_def peer_inv_def)
  then have "site_inv U (T @ X) b" using I(2) peer_more [OF q] by (auto simp: site_inv_def)
  then show ?case using X by blast
next
  case (at_right a b b')
  then obtain T U where I: "site_inv T U a" "site_inv U T b" by blast
  then have q: "peer_inv T U (st_peer a)" by (simp add: site_inv_def)
  obtain X where X: "site_inv (U @ X) T b'" using site_step_inv [OF at_right.hyps(2) I(2) q assms(3)] by blast
  then have "length (U @ X) < 2 ^ 31" by (simp add: site_inv_def peer_inv_def)
  then have "site_inv T (U @ X) a" using I(1) peer_more [OF q] by (auto simp: site_inv_def)
  then show ?case using X by blast
qed

lemma joined_prefix:
  assumes "joined N M a b" and "answers_ok N" and "answers_ok M"
  shows "prefix (p_read (st_peer a)) (p_wrote (st_peer b))" and "prefix (p_read (st_peer b)) (p_wrote (st_peer a))"
  using joined_inv [OF assms] peer_inv_prefix by (auto simp: site_inv_def)


lemma sample_joined:
  "\<exists>a b. joined sample_net sample_net a b \<and> c_tcp (st_chan a) \<noteq> None \<and> st_open a"
proof -
  obtain c where c: "new_Chan 10 12 sample_session = Inr c" by (simp add: new_Chan_def sample_session_def)
  note f = new_Chan_fields [OF c]
  let ?a = "new_site undefined c"
  have j: "joined sample_net sample_net ?a ?a" by (rule joined.begun [OF c c])
  let ?c1 = "c\<lparr>c_stream := True\<rparr>"
  have "chan_run sample_net Op_GetStream (st_chan ?a) (st_open ?a) = Inr (Some ?c1, True)"
    using f by (simp add: new_site_def Chan_GetStream_def keep_def)
  from site_step.call [where q = "st_peer ?a", OF _ _ this] obtain a1 where
    a1: "site_step sample_net (st_peer ?a) ?a a1" "st_chan a1 = ?c1" "st_open a1" "st_ops a1 = [Op_GetStream]"
    using f by (fastforce simp: new_site_def)
  have j1: "joined sample_net sample_net a1 ?a" by (rule joined.at_left [OF j a1(1)])
  obtain c2 where c2: "chan_run sample_net (Op_Connect ''tunnel'' ''tcp'' 1 7) (st_chan a1) (st_open a1) = Inr (Some c2, True)" "c_tcp c2 \<noteq> None"
    using f a1 by (auto simp: Chan_Connect_def keep_def Let_def sample_session_def)
  obtain a2 where a2: "site_step sample_net (st_peer ?a) a1 a2" "st_chan a2 = c2" "st_open a2"
    using site_step.call [where q = "st_peer ?a", OF _ _ c2(1)] f a1 by fastforce
  have "joined sample_net sample_net a2 ?a" by (rule joined.at_left [OF j1 a2(1)])
  then show ?thesis using a2 c2(2) by blast
qed


end
