(* ===== verification/Jid.thy ===== *)
theory Jid
  imports Prelude
begin

text \<open>
  XMPP addresses, \<open>talk/xmpp/jid.cc\<close>: parsing, normalisation, printing and comparison. A string
  is a list of bytes, written as characters. \<open>tolower\<close> is that of the \<open>C\<close> locale, the one a
  program runs in that does not call \<open>setlocale\<close>: it leaves the bytes above 0x7F alone.
\<close>

record Jid =
  node_name :: string
  domain_name :: string
  resource_name :: string

definition byte_of :: "char \<Rightarrow> nat" where
  "byte_of c = of_char c"

definition is_upper :: "char \<Rightarrow> bool" where
  "is_upper c \<longleftrightarrow> byte_of (CHR ''A'') \<le> byte_of c \<and> byte_of c \<le> byte_of (CHR ''Z'')"

definition lower :: "char \<Rightarrow> char" where
  "lower c = char_of (byte_of c + (byte_of (CHR ''a'') - byte_of (CHR ''A'')))"

definition NUL :: char where
  "NUL = CHR 0x00"

subsection \<open>Normalisation\<close>

text \<open>Each function returns the character or string and the value stored through \<open>valid\<close>.\<close>

definition PrepNodeAscii :: "char \<Rightarrow> char \<times> bool" where
  "PrepNodeAscii ch =
     (if is_upper ch then (lower ch, True)
      else if byte_of ch \<le> 0x17 \<or> ch \<in> set '' &/:<>@'' \<or> ch = CHR 0x22 \<or> ch = CHR 0x27 \<or> byte_of ch = 0x7F then (NUL, False)
      else (ch, True))"

fun prep_node_loop :: "string \<Rightarrow> string \<Rightarrow> string option" where
  "prep_node_loop [] result = Some result"
| "prep_node_loop (ch # rest) result =
     (let (c, char_valid) = (if byte_of ch \<le> 0x7F then PrepNodeAscii ch else (ch, True))
      in if \<not> char_valid then None else prep_node_loop rest (result @ [c]))"

definition PrepNode :: "string \<Rightarrow> string \<times> bool" where
  "PrepNode node =
     (case prep_node_loop node [] of
        None \<Rightarrow> ([], False)
      | Some result \<Rightarrow> if length result > 1023 then ([], False) else (result, True))"

definition PrepResourceAscii :: "char \<Rightarrow> char \<times> bool" where
  "PrepResourceAscii ch = (if byte_of ch \<le> 0x17 \<or> byte_of ch = 0x7F then (NUL, False) else (ch, True))"

text \<open>The validity of a character of the resource is not looked at.\<close>

fun prep_resource_loop :: "string \<Rightarrow> string \<Rightarrow> string" where
  "prep_resource_loop [] result = result"
| "prep_resource_loop (ch # rest) result =
     (let (c, char_valid) = (if byte_of ch \<le> 0x7F then PrepResourceAscii ch else (ch, True))
      in prep_resource_loop rest (result @ [c]))"

definition PrepResource :: "string \<Rightarrow> string \<times> bool" where
  "PrepResource resource =
     (let result = prep_resource_loop resource [] in if length result > 1023 then ([], False) else (result, True))"

definition PrepDomainLabelAscii :: "char \<Rightarrow> char \<times> bool" where
  "PrepDomainLabelAscii ch =
     (if is_upper ch then (lower ch, True)
      else if byte_of ch \<le> 0x2C \<or> (0x2E \<le> byte_of ch \<and> byte_of ch \<le> 0x2F) \<or> (0x3A \<le> byte_of ch \<and> byte_of ch \<le> 0x40) \<or>
              (0x5B \<le> byte_of ch \<and> byte_of ch \<le> 0x60) \<or> (0x7B \<le> byte_of ch \<and> byte_of ch \<le> 0x7F) then (NUL, False)
      else (ch, True))"

fun prep_label_loop :: "string \<Rightarrow> string \<Rightarrow> string \<times> bool" where
  "prep_label_loop [] buf = (buf, True)"
| "prep_label_loop (ch # rest) buf =
     (let (c, char_valid) = (if byte_of ch \<le> 0x7F then PrepDomainLabelAscii ch else (ch, True))
      in if \<not> char_valid then (buf @ [c], False) else prep_label_loop rest (buf @ [c]))"

text \<open>\<open>PrepDomainLabel(start, end, buf, valid)\<close> for the characters between \<open>start\<close> and \<open>end\<close>.\<close>

definition PrepDomainLabel :: "string \<Rightarrow> string \<Rightarrow> string \<times> bool" where
  "PrepDomainLabel label buf =
     (let start_len = length buf; (buf1, chars_valid) = prep_label_loop label buf; count = length buf1 - start_len
      in if \<not> chars_valid then (buf1, False)
         else if count = 0 then (buf1, False)
         else if count > 63 then (buf1, False)
         else if buf1 ! start_len = CHR ''-'' then (buf1, False)
         else if buf1 ! (length buf1 - 1) = CHR ''-'' then (buf1, False)
         else (buf1, True))"

text \<open>The loop over the domain; the second argument holds the characters from \<open>last\<close> to \<open>i\<close>.\<close>

fun prep_domain_loop :: "string \<Rightarrow> string \<Rightarrow> string \<Rightarrow> string \<times> bool" where
  "prep_domain_loop [] label buf = PrepDomainLabel label buf"
| "prep_domain_loop (ch # rest) label buf =
     (if ch = CHR ''.'' then
        let (buf1, label_valid) = PrepDomainLabel label buf; buf2 = buf1 @ [CHR ''.'']
        in if \<not> label_valid then (buf2, False) else prep_domain_loop rest [] buf2
      else prep_domain_loop rest (label @ [ch]) buf)"

text \<open>When the result is too long, \<open>valid\<close> keeps the value \<open>true\<close> that the inner function stored.\<close>

definition PrepDomain :: "string \<Rightarrow> string \<times> bool" where
  "PrepDomain domain =
     (let (result, valid) = prep_domain_loop domain [] []
      in if \<not> valid then ([], False) else if length result > 1023 then ([], True) else (result, True))"

subsection \<open>Construction\<close>

definition empty_Jid :: Jid where
  "empty_Jid = \<lparr>node_name = [], domain_name = [], resource_name = []\<rparr>"

definition ValidateOrReset :: "Jid \<Rightarrow> Jid" where
  "ValidateOrReset j =
     (let (n, valid_node) = PrepNode (node_name j);
          (d, valid_domain) = PrepDomain (domain_name j);
          (r, valid_resource) = PrepResource (resource_name j)
      in if \<not> valid_node \<or> \<not> valid_domain \<or> \<not> valid_resource then empty_Jid
         else \<lparr>node_name = n, domain_name = d, resource_name = r\<rparr>)"

definition Jid_parts :: "string \<Rightarrow> string \<Rightarrow> string \<Rightarrow> Jid" where
  "Jid_parts n d r = ValidateOrReset \<lparr>node_name = n, domain_name = d, resource_name = r\<rparr>"

text \<open>\<open>s.find(c)\<close>, \<open>None\<close> for \<open>npos\<close>.\<close>

definition find_char :: "char \<Rightarrow> string \<Rightarrow> nat option" where
  "find_char c s = (if c \<in> set s then Some (length (takeWhile (\<lambda>x. x \<noteq> c) s)) else None)"

definition Jid_string :: "string \<Rightarrow> Jid" where
  "Jid_string s =
     (if s = [] then empty_Jid
      else
        let slash = find_char (CHR ''/'') s;
            r = (case slash of None \<Rightarrow> [] | Some k \<Rightarrow> drop (k + 1) s);
            at = find_char (CHR ''@'') s;
            (n, domain_begin) =
              (case at of
                 Some a \<Rightarrow> if (case slash of None \<Rightarrow> True | Some k \<Rightarrow> a < k) then (take a s, a + 1) else ([], 0)
               | None \<Rightarrow> ([], 0));
            domain_length = (case slash of None \<Rightarrow> length s - domain_begin | Some k \<Rightarrow> k - domain_begin)
        in ValidateOrReset \<lparr>node_name = n, domain_name = take domain_length (drop domain_begin s), resource_name = r\<rparr>)"

subsection \<open>Operations\<close>

definition IsEmpty :: "Jid \<Rightarrow> bool" where
  "IsEmpty j \<longleftrightarrow> node_name j = [] \<and> domain_name j = [] \<and> resource_name j = []"

definition IsValid :: "Jid \<Rightarrow> bool" where
  "IsValid j \<longleftrightarrow> domain_name j \<noteq> []"

definition IsBare :: "Jid \<Rightarrow> bool" where
  "IsBare j \<longleftrightarrow> (if IsEmpty j then True else IsValid j \<and> resource_name j = [])"

definition IsFull :: "Jid \<Rightarrow> bool" where
  "IsFull j \<longleftrightarrow> IsValid j \<and> resource_name j \<noteq> []"

text \<open>The assertion in \<open>Str\<close> repeats the test of \<open>IsValid\<close>.\<close>

definition Str :: "Jid \<Rightarrow> string" where
  "Str j =
     (if \<not> IsValid j then []
      else (if node_name j \<noteq> [] then node_name j @ ''@'' else []) @ domain_name j @
           (if resource_name j \<noteq> [] then ''/'' @ resource_name j else []))"

definition BareJid :: "Jid \<Rightarrow> Jid" where
  "BareJid j = (if \<not> IsValid j then empty_Jid else if \<not> IsFull j then j else Jid_parts (node_name j) (domain_name j) [])"

definition BareEquals :: "Jid \<Rightarrow> Jid \<Rightarrow> bool" where
  "BareEquals j other \<longleftrightarrow> node_name other = node_name j \<and> domain_name other = domain_name j"

definition CopyFrom :: "Jid \<Rightarrow> Jid \<Rightarrow> Jid" where
  "CopyFrom j other = j\<lparr>node_name := node_name other, domain_name := domain_name other, resource_name := resource_name other\<rparr>"

definition Jid_eq :: "Jid \<Rightarrow> Jid \<Rightarrow> bool" where
  "Jid_eq j other \<longleftrightarrow> node_name other = node_name j \<and> domain_name other = domain_name j \<and> resource_name other = resource_name j"

text \<open>\<open>std::string::compare\<close>, of which only the sign is defined: bytes are compared as unsigned.\<close>

fun str_compare :: "string \<Rightarrow> string \<Rightarrow> int" where
  "str_compare [] [] = 0"
| "str_compare [] (b # bs) = - 1"
| "str_compare (a # as) [] = 1"
| "str_compare (a # as) (b # bs) =
     (if byte_of a < byte_of b then - 1 else if byte_of b < byte_of a then 1 else str_compare as bs)"

definition Compare :: "Jid \<Rightarrow> Jid \<Rightarrow> int" where
  "Compare j other =
     (let compare_result = str_compare (node_name j) (node_name other) in
      if 0 \<noteq> compare_result then compare_result
      else let compare_result = str_compare (domain_name j) (domain_name other) in
           if 0 \<noteq> compare_result then compare_result
           else str_compare (resource_name j) (resource_name other))"

subsection \<open>Normalised characters\<close>

lemma byte_of_char_of: "k < 256 \<Longrightarrow> byte_of (char_of k) = k"
  by (simp add: byte_of_def)

lemma byte_of_less: "byte_of c < 256"
  by (simp add: byte_of_def)

lemma byte_of_inject: "byte_of a = byte_of b \<longleftrightarrow> a = b"
  by (simp add: byte_of_def)

lemma byte_consts:
  "byte_of (CHR ''A'') = 65" "byte_of (CHR ''Z'') = 90" "byte_of (CHR ''a'') = 97" "byte_of NUL = 0" "byte_of (CHR ''.'') = 46"
  "byte_of (CHR ''/'') = 47" "byte_of (CHR ''@'') = 64" "byte_of (CHR '' '') = 32" "byte_of (CHR ''&'') = 38" "byte_of (CHR '':'') = 58"
  "byte_of (CHR ''<'') = 60" "byte_of (CHR ''>'') = 62" "byte_of (CHR 0x22) = 34" "byte_of (CHR 0x27) = 39"
  by (simp_all add: byte_of_def NUL_def)

lemma byte_lower: "is_upper c \<Longrightarrow> byte_of (lower c) = byte_of c + 32"
  by (simp add: is_upper_def lower_def byte_consts byte_of_char_of)

definition node_char :: "char \<Rightarrow> char \<times> bool" where
  "node_char ch = (if byte_of ch \<le> 0x7F then PrepNodeAscii ch else (ch, True))"

definition resource_char :: "char \<Rightarrow> char" where
  "resource_char ch = fst (if byte_of ch \<le> 0x7F then PrepResourceAscii ch else (ch, True))"

definition label_char :: "char \<Rightarrow> char \<times> bool" where
  "label_char ch = (if byte_of ch \<le> 0x7F then PrepDomainLabelAscii ch else (ch, True))"

text \<open>A byte value that the characters are compared with as a number.\<close>

lemma char_eq_byte: "c = d \<longleftrightarrow> byte_of c = byte_of d"
  by (simp add: byte_of_inject)

lemma node_char_fixed:
  assumes "node_char c = (d, True)"
  shows "node_char d = (d, True) \<and> d \<noteq> CHR ''/'' \<and> d \<noteq> CHR ''@''"
proof (cases "is_upper c")
  case True
  then have "d = lower c" "byte_of d = byte_of c + 32" "65 \<le> byte_of c" "byte_of c \<le> 90"
    using assms by (auto simp: node_char_def PrepNodeAscii_def is_upper_def byte_consts byte_lower split: if_splits)
  then show ?thesis by (simp add: node_char_def PrepNodeAscii_def is_upper_def char_eq_byte byte_consts)
next
  case False
  then have "d = c" using assms by (auto simp: node_char_def PrepNodeAscii_def split: if_splits)
  then show ?thesis using assms False by (auto simp: node_char_def PrepNodeAscii_def byte_consts split: if_splits)
qed

lemma label_char_fixed:
  assumes "label_char c = (d, True)"
  shows "label_char d = (d, True) \<and> d \<noteq> CHR ''/'' \<and> d \<noteq> CHR ''@'' \<and> d \<noteq> CHR ''.''"
proof (cases "is_upper c")
  case True
  then have "d = lower c" "byte_of d = byte_of c + 32" "65 \<le> byte_of c" "byte_of c \<le> 90"
    using assms by (auto simp: label_char_def PrepDomainLabelAscii_def is_upper_def byte_consts byte_lower split: if_splits)
  then show ?thesis by (simp add: label_char_def PrepDomainLabelAscii_def is_upper_def char_eq_byte byte_consts)
next
  case False
  then have "d = c" using assms by (auto simp: label_char_def PrepDomainLabelAscii_def split: if_splits)
  then show ?thesis using assms False by (auto simp: label_char_def PrepDomainLabelAscii_def byte_consts split: if_splits)
qed

lemma not_upper: "node_char c = (c, True) \<Longrightarrow> \<not> is_upper c" "label_char c = (c, True) \<Longrightarrow> \<not> is_upper c" "\<not> is_upper (CHR ''.'')"
  using byte_lower [of c]
  by (auto simp: node_char_def PrepNodeAscii_def label_char_def PrepDomainLabelAscii_def is_upper_def byte_consts split: if_splits)

lemma resource_char_fixed: "resource_char (resource_char c) = resource_char c"
  by (auto simp: resource_char_def PrepResourceAscii_def byte_consts)

subsection \<open>Normal forms\<close>

lemma prep_node_loop_Cons:
  "prep_node_loop (ch # rest) result = (if snd (node_char ch) then prep_node_loop rest (result @ [fst (node_char ch)]) else None)"
  by (simp add: node_char_def split: prod.splits)

lemma prep_label_loop_Cons:
  "prep_label_loop (ch # rest) buf =
     (if snd (label_char ch) then prep_label_loop rest (buf @ [fst (label_char ch)]) else (buf @ [fst (label_char ch)], False))"
  by (simp add: label_char_def split: prod.splits)

lemma prep_resource_loop_map: "prep_resource_loop rs result = result @ map resource_char rs"
  by (induction rs arbitrary: result) (simp_all add: resource_char_def split: prod.splits)

declare prep_node_loop.simps(2) [simp del] prep_label_loop.simps(2) [simp del]

lemma prep_node_loop_ok:
  assumes "\<forall>c \<in> set ns. node_char c = (c, True)"
  shows "prep_node_loop ns result = Some (result @ ns)"
  using assms by (induction ns arbitrary: result) (simp_all add: prep_node_loop_Cons)

lemma prep_node_loop_chars:
  assumes "prep_node_loop ns result = Some m"
  shows "\<exists>k. m = result @ k \<and> (\<forall>c \<in> set k. node_char c = (c, True) \<and> c \<noteq> CHR ''/'' \<and> c \<noteq> CHR ''@'')"
  using assms
proof (induction ns arbitrary: result)
  case (Cons ch ns)
  then have v: "node_char ch = (fst (node_char ch), True)" "prep_node_loop ns (result @ [fst (node_char ch)]) = Some m"
    by (auto simp: prep_node_loop_Cons split: if_splits) (metis prod.collapse)
  from Cons.IH [OF v(2)] obtain k where "m = (result @ [fst (node_char ch)]) @ k"
    "\<forall>c \<in> set k. node_char c = (c, True) \<and> c \<noteq> CHR ''/'' \<and> c \<noteq> CHR ''@''" by blast
  then show ?case using node_char_fixed [OF v(1)] by (intro exI [of _ "fst (node_char ch) # k"]) simp
qed simp

lemma prep_label_loop_ok:
  assumes "\<forall>c \<in> set ns. label_char c = (c, True)"
  shows "prep_label_loop ns buf = (buf @ ns, True)"
  using assms by (induction ns arbitrary: buf) (simp_all add: prep_label_loop_Cons)

lemma prep_label_loop_chars:
  assumes "prep_label_loop ns buf = (m, True)"
  shows "\<exists>k. m = buf @ k \<and> (\<forall>c \<in> set k. label_char c = (c, True) \<and> c \<noteq> CHR ''/'' \<and> c \<noteq> CHR ''@'' \<and> c \<noteq> CHR ''.'')"
  using assms
proof (induction ns arbitrary: buf)
  case (Cons ch ns)
  then have v: "label_char ch = (fst (label_char ch), True)" "prep_label_loop ns (buf @ [fst (label_char ch)]) = (m, True)"
    by (auto simp: prep_label_loop_Cons split: if_splits) (metis prod.collapse)
  from Cons.IH [OF v(2)] obtain k where "m = (buf @ [fst (label_char ch)]) @ k"
    "\<forall>c \<in> set k. label_char c = (c, True) \<and> c \<noteq> CHR ''/'' \<and> c \<noteq> CHR ''@'' \<and> c \<noteq> CHR ''.''" by blast
  then show ?case using label_char_fixed [OF v(1)] by (intro exI [of _ "fst (label_char ch) # k"]) simp
qed simp

text \<open>A label in normal form is between one and 63 characters long and has no dot or separator.\<close>

definition good_label :: "string \<Rightarrow> bool" where
  "good_label l \<longleftrightarrow> l \<noteq> [] \<and> length l \<le> 63 \<and> hd l \<noteq> CHR ''-'' \<and> last l \<noteq> CHR ''-'' \<and>
     (\<forall>c \<in> set l. label_char c = (c, True) \<and> c \<noteq> CHR ''/'' \<and> c \<noteq> CHR ''@'' \<and> c \<noteq> CHR ''.'')"

lemma PrepDomainLabel_good:
  assumes "good_label l"
  shows "PrepDomainLabel l buf = (buf @ l, True)"
proof -
  have "prep_label_loop l buf = (buf @ l, True)" using assms by (intro prep_label_loop_ok) (simp add: good_label_def)
  moreover have l: "l \<noteq> []" "length l \<le> 63" "hd l \<noteq> CHR ''-''" "last l \<noteq> CHR ''-''"
    using assms unfolding good_label_def by blast+
  moreover have "(buf @ l) ! (length buf + length l - 1) = last l"
    using l(1) last_conv_nth [of "buf @ l"] by simp
  moreover have "(buf @ l) ! length buf = hd l" using l(1) by (simp add: nth_append hd_conv_nth)
  ultimately show ?thesis by (simp add: PrepDomainLabel_def Let_def)
qed

lemma PrepDomainLabel_valid:
  assumes "PrepDomainLabel label buf = (b, True)"
  shows "\<exists>l. b = buf @ l \<and> good_label l"
proof -
  have p: "prep_label_loop label buf = (b, True)"
    using assms by (auto simp: PrepDomainLabel_def Let_def split: prod.splits if_splits)
  obtain k where k: "b = buf @ k" "\<forall>c \<in> set k. label_char c = (c, True) \<and> c \<noteq> CHR ''/'' \<and> c \<noteq> CHR ''@'' \<and> c \<noteq> CHR ''.''"
    using prep_label_loop_chars [OF p] by blast
  then have "good_label k"
    using assms p by (cases "k = []") (simp_all add: PrepDomainLabel_def good_label_def nth_append hd_conv_nth last_conv_nth split: if_splits)
  with k(1) show ?thesis by blast
qed

lemma prep_domain_loop_label:
  "CHR ''.'' \<notin> set l \<Longrightarrow> prep_domain_loop (l @ ds) label buf = prep_domain_loop ds (label @ l) buf"
  by (induction l arbitrary: label) auto

definition good_domain :: "string \<Rightarrow> bool" where
  "good_domain d \<longleftrightarrow> d \<noteq> [] \<and> (\<forall>buf. prep_domain_loop d [] buf = (buf @ d, True)) \<and> 
     (\<forall>c \<in> set d. c \<noteq> CHR ''/'' \<and> c \<noteq> CHR ''@'' \<and> \<not> is_upper c)"

lemma good_domainD:
  assumes "good_domain d"
  shows "d \<noteq> []" and "prep_domain_loop d [] buf = (buf @ d, True)" and "\<forall>c \<in> set d. c \<noteq> CHR ''/'' \<and> c \<noteq> CHR ''@'' \<and> \<not> is_upper c"
  using assms unfolding good_domain_def by blast+

lemma good_labelD:
  assumes "good_label l"
  shows "l \<noteq> []" and "CHR ''.'' \<notin> set l" and "\<forall>c \<in> set l. c \<noteq> CHR ''/'' \<and> c \<noteq> CHR ''@'' \<and> \<not> is_upper c"
  using assms not_upper(2) unfolding good_label_def by blast+

lemma good_domain_label:
  assumes "good_label l"
  shows "good_domain l"
  using prep_domain_loop_label [OF good_labelD(2) [OF assms], of "[]" "[]"] good_labelD [OF assms] PrepDomainLabel_good [OF assms]
  unfolding good_domain_def by simp

lemma good_domain_dot:
  assumes "good_label l" and "good_domain d"
  shows "good_domain (l @ CHR ''.'' # d)"
proof -
  have "prep_domain_loop (l @ CHR ''.'' # d) [] buf = (buf @ l @ CHR ''.'' # d, True)" for buf
    using prep_domain_loop_label [OF good_labelD(2) [OF assms(1)], of "CHR ''.'' # d" "[]" buf] PrepDomainLabel_good [OF assms(1)] assms(2)
    by (simp add: good_domain_def)
  then show ?thesis using assms(2) good_labelD [OF assms(1)] not_upper(3) unfolding good_domain_def by (simp add: ball_Un)
qed

lemma prep_domain_loop_valid:
  assumes "prep_domain_loop ds label buf = (b, True)"
  shows "\<exists>d. b = buf @ d \<and> good_domain d"
  using assms
proof (induction ds arbitrary: label buf)
  case Nil
  then show ?case using PrepDomainLabel_valid [of label buf b] good_domain_label by auto
next
  case (Cons ch ds)
  show ?case
  proof (cases "ch = CHR ''.''")
    case True
    then obtain b1 where b1: "PrepDomainLabel label buf = (b1, True)" "prep_domain_loop ds [] (b1 @ [CHR ''.'']) = (b, True)"
      using Cons.prems by (auto simp: Let_def split: prod.splits if_splits)
    obtain l where l: "b1 = buf @ l" "good_label l" using PrepDomainLabel_valid [OF b1(1)] by blast
    obtain d where "b = (b1 @ [CHR ''.'']) @ d" "good_domain d" using Cons.IH [OF b1(2)] by blast
    then show ?thesis using l good_domain_dot [OF l(2)] by (intro exI [of _ "l @ CHR ''.'' # d"]) simp
  next
    case False
    then show ?thesis using Cons.IH Cons.prems by simp
  qed
qed

subsection \<open>Addresses in normal form\<close>

definition jid_inv :: "Jid \<Rightarrow> bool" where
  "jid_inv j \<longleftrightarrow>
     (\<forall>c \<in> set (node_name j). node_char c = (c, True) \<and> c \<noteq> CHR ''/'' \<and> c \<noteq> CHR ''@'') \<and> length (node_name j) \<le> 1023 \<and>
     (domain_name j = [] \<or> good_domain (domain_name j) \<and> length (domain_name j) \<le> 1023) \<and>
     (\<forall>c \<in> set (resource_name j). resource_char c = c) \<and> length (resource_name j) \<le> 1023"

lemma jid_inv_empty [simp, inv_intros]: "jid_inv empty_Jid"
  by (simp add: jid_inv_def empty_Jid_def)

lemma jid_inv_Validate [inv_intros]: "jid_inv (ValidateOrReset j)"
proof (cases "snd (PrepNode (node_name j)) \<and> snd (PrepDomain (domain_name j)) \<and> snd (PrepResource (resource_name j))")
  case False
  then show ?thesis by (auto simp: ValidateOrReset_def split: prod.splits)
next
  case True
  let ?n = "fst (PrepNode (node_name j))" and ?d = "fst (PrepDomain (domain_name j))" and ?r = "fst (PrepResource (resource_name j))"
  have e: "ValidateOrReset j = \<lparr>node_name = ?n, domain_name = ?d, resource_name = ?r\<rparr>"
    using True by (auto simp: ValidateOrReset_def split: prod.splits)
  have n: "prep_node_loop (node_name j) [] = Some ?n" "length ?n \<le> 1023"
    using True by (auto simp: PrepNode_def split: option.splits if_splits)
  obtain b v where b: "prep_domain_loop (domain_name j) [] [] = (b, v)" by fastforce
  have d: "?d = [] \<or> prep_domain_loop (domain_name j) [] [] = (?d, True) \<and> length ?d \<le> 1023"
    using True by (auto simp: PrepDomain_def b split: if_splits)
  have r: "?r = map resource_char (resource_name j)" "length ?r \<le> 1023"
    using True by (auto simp: PrepResource_def Let_def prep_resource_loop_map split: if_splits)
  have rc: "\<forall>c \<in> set ?r. resource_char c = c" unfolding r(1) by (simp add: resource_char_fixed)
  show ?thesis
    using prep_node_loop_chars [OF n(1)] n(2) d prep_domain_loop_valid [of "domain_name j" "[]" "[]" ?d] r(2) rc
    unfolding e jid_inv_def by auto
qed

lemma ValidateOrReset_id:
  assumes "jid_inv j" and "IsValid j"
  shows "ValidateOrReset j = j"
proof -
  have "prep_node_loop (node_name j) [] = Some (node_name j)" using assms(1) prep_node_loop_ok [of "node_name j" "[]"] by (simp add: jid_inv_def)
  moreover have "prep_domain_loop (domain_name j) [] [] = (domain_name j, True)" "length (domain_name j) \<le> 1023"
    using assms good_domainD(2) [of "domain_name j" "[]"] by (simp_all add: jid_inv_def IsValid_def)
  moreover have "map resource_char (resource_name j) = resource_name j" using assms(1) by (simp add: jid_inv_def map_idI)
  ultimately show ?thesis using assms(1)
    by (simp add: ValidateOrReset_def PrepNode_def PrepDomain_def PrepResource_def prep_resource_loop_map jid_inv_def)
qed

lemma jid_inv_BareJid [inv_intros]: "jid_inv j \<Longrightarrow> jid_inv (BareJid j)"
  by (simp add: BareJid_def Jid_parts_def jid_inv_Validate)

text \<open>The addresses that the class makes.\<close>

inductive made :: "Jid \<Rightarrow> bool" where
  made_empty: "made empty_Jid"
| made_string: "made (Jid_string s)"
| made_parts: "made (Jid_parts n d r)"
| made_bare: "made j \<Longrightarrow> made (BareJid j)"
| made_copy: "made j \<Longrightarrow> made k \<Longrightarrow> made (CopyFrom j k)"

lemma made_inv: "made j \<Longrightarrow> jid_inv j"
proof (induction rule: made.induct)
  case (made_string s)
  then show ?case by (auto simp: Jid_string_def Let_def intro: inv_intros split: prod.splits)
next
  case (made_copy j k)
  then show ?case by (simp add: CopyFrom_def jid_inv_def)
qed (simp_all add: inv_intros Jid_parts_def)

subsection \<open>Printing and parsing\<close>

lemma find_char_skip: "c \<notin> set xs \<Longrightarrow> find_char c (xs @ ys) = map_option (\<lambda>k. length xs + k) (find_char c ys)"
  by (auto simp: find_char_def takeWhile_append)

lemma find_char_simps [simp]: "find_char c [] = None" "find_char c (d # ds) = (if d = c then Some 0 else map_option Suc (find_char c ds))"
  by (auto simp: find_char_def)

lemma find_char_None: "c \<notin> set xs \<Longrightarrow> find_char c xs = None"
  by (simp add: find_char_def)

lemma Jid_string_Str:
  assumes "jid_inv j" and "IsValid j"
  shows "Jid_string (Str j) = ValidateOrReset j"
proof -
  obtain n d r where j: "j = \<lparr>node_name = n, domain_name = d, resource_name = r\<rparr>" by (cases j) auto
  have g: "\<forall>c \<in> set n. node_char c = (c, True) \<and> c \<noteq> CHR ''/'' \<and> c \<noteq> CHR ''@''" "good_domain d"
    using assms by (simp_all add: j jid_inv_def IsValid_def)
  have sep: "CHR ''/'' \<notin> set n" "CHR ''@'' \<notin> set n" "CHR ''/'' \<notin> set d" "CHR ''@'' \<notin> set d" "d \<noteq> []"
    using g unfolding good_domain_def by blast+
  have at: "find_char (CHR ''@'') (d @ CHR ''/'' # r) = map_option (\<lambda>k. Suc (length d + k)) (find_char (CHR ''@'') r)"
    using sep(4) by (simp add: find_char_skip option.map_comp comp_def)
  have sl: "find_char (CHR ''/'') (d @ CHR ''/'' # r) = Some (length d)" "find_char (CHR ''/'') d = None" "find_char (CHR ''@'') d = None"
    using sep by (simp_all add: find_char_skip find_char_None)
  have nd: "find_char (CHR ''/'') (n @ CHR ''@'' # x) = map_option (\<lambda>k. Suc (length n + k)) (find_char (CHR ''/'') x)"
    "find_char (CHR ''@'') (n @ CHR ''@'' # x) = Some (length n)" for x
    using sep by (simp_all add: find_char_skip option.map_comp comp_def)
  show ?thesis
  proof (cases "n = []")
    case True
    then show ?thesis using sep(5) sl at
      by (cases "r = []"; cases "find_char (CHR ''@'') r") (simp_all add: j Str_def IsValid_def Jid_string_def)
  next
    case False
    then show ?thesis using sep(5) sl nd by (cases "r = []") (simp_all add: j Str_def IsValid_def Jid_string_def)
  qed
qed

lemma jid_canonical: "made j \<Longrightarrow> IsValid j \<Longrightarrow> Jid_string (Str j) = j"
  using Jid_string_Str [OF made_inv] ValidateOrReset_id [OF made_inv] by simp

text \<open>Property C31: printing a valid address and parsing the text gives the same address back, whatever
  input the address was made from: the printed form is canonical.\<close>

theorem jid_round_trip:
  assumes "made j" and "IsValid j"
  shows "Jid_string (Str j) = j"
  using assms by (rule jid_canonical)

theorem jid_round_trip_witness:
  "IsValid (Jid_string ''Bob@Example.com/home'') \<and> Jid_string (Str (Jid_string ''Bob@Example.com/home'')) = Jid_string ''Bob@Example.com/home''"
proof -
  have v: "IsValid (Jid_string ''Bob@Example.com/home'')" by code_simp
  then show ?thesis using jid_round_trip [OF made.made_string v] by simp
qed

text \<open>The parts of an address stay within 1023 bytes each, the printed form within
  3071; node and domain hold no separator and no capital letter.\<close>

theorem jid_parts_bounded:
  assumes "made j"
  shows "length (node_name j) \<le> 1023 \<and> length (domain_name j) \<le> 1023 \<and> length (resource_name j) \<le> 1023 \<and> length (Str j) \<le> 3071 \<and>
    (\<forall>c \<in> set (node_name j) \<union> set (domain_name j). c \<noteq> CHR ''/'' \<and> c \<noteq> CHR ''@'' \<and> \<not> is_upper c)"
proof -
  note I = made_inv [OF assms, unfolded jid_inv_def]
  have d: "length (domain_name j) \<le> 1023" "\<forall>c \<in> set (domain_name j). c \<noteq> CHR ''/'' \<and> c \<noteq> CHR ''@'' \<and> \<not> is_upper c"
    using I good_domainD(3) [of "domain_name j"] by (cases "domain_name j = []"; simp)+
  have n: "\<forall>c \<in> set (node_name j). c \<noteq> CHR ''/'' \<and> c \<noteq> CHR ''@'' \<and> \<not> is_upper c" using I not_upper(1) by blast
  have "length (Str j) \<le> 3071" using I d(1) by (simp add: Str_def)
  then show ?thesis using I d n by blast
qed

theorem jid_parts_bounded_witness: "length (Str (Jid_string ''Bob@Example.com/home'')) \<le> 3071"
  using jid_parts_bounded [OF made.made_string, of "''Bob@Example.com/home''"] by blast

text \<open>The bare address of a valid one is valid and bare, agrees with it in node and
  domain, and prints as the part before the first slash.\<close>

theorem bare_jid_correct:
  assumes "made j" and "IsValid j"
  shows "IsValid (BareJid j) \<and> IsBare (BareJid j) \<and> BareEquals (BareJid j) j \<and> Str (BareJid j) = takeWhile (\<lambda>c. c \<noteq> CHR ''/'') (Str j)"
proof -
  let ?b = "j\<lparr>resource_name := []\<rparr>"
  note I = made_inv [OF assms(1)]
  have "jid_inv ?b" "IsValid ?b" using I assms(2) by (simp_all add: jid_inv_def IsValid_def)
  then have "ValidateOrReset ?b = ?b" by (rule ValidateOrReset_id)
  moreover have "\<lparr>node_name = node_name j, domain_name = domain_name j, resource_name = []\<rparr> = ?b" by (cases j) simp
  ultimately have "Jid_parts (node_name j) (domain_name j) [] = ?b" by (simp only: Jid_parts_def)
  then have b: "BareJid j = ?b" using assms(2) by (simp add: BareJid_def IsFull_def)
  have "CHR ''/'' \<notin> set (node_name j)" "CHR ''/'' \<notin> set (domain_name j)"
    using I assms(2) good_domainD(3) [of "domain_name j"] unfolding jid_inv_def IsValid_def by blast+
  then have "takeWhile (\<lambda>c. c \<noteq> CHR ''/'') (Str j) = Str ?b"
    using assms(2) by (auto simp: Str_def IsValid_def takeWhile_append)
  then show ?thesis using assms(2) unfolding b by (simp add: IsValid_def IsBare_def BareEquals_def IsEmpty_def)
qed

theorem bare_jid_correct_witness: "Str (BareJid (Jid_string ''bob@example.com/home'')) = ''bob@example.com''"
proof -
  have v: "IsValid (Jid_string ''bob@example.com/home'')" "Str (Jid_string ''bob@example.com/home'') = ''bob@example.com/home''" by code_simp+
  show ?thesis using bare_jid_correct [OF made.made_string v(1)] v(2) by simp
qed

subsection \<open>Comparison\<close>

text \<open>What a three-way comparison promises to ordered containers.\<close>

locale comparator =
  fixes cmp :: "'a \<Rightarrow> 'a \<Rightarrow> int"
  assumes cmp_zero: "cmp a b = 0 \<longleftrightarrow> a = b"
    and cmp_flip: "cmp b a = - cmp a b"
    and cmp_trans: "cmp a b < 0 \<Longrightarrow> cmp b c < 0 \<Longrightarrow> cmp a c < 0"
begin

lemma cmp_le_trans: "cmp a b \<le> 0 \<Longrightarrow> cmp b c \<le> 0 \<Longrightarrow> cmp a c \<le> 0"
  using cmp_trans [of a b c] cmp_zero [of a b] cmp_zero [of b c] by (cases "cmp a b = 0"; cases "cmp b c = 0") auto

lemma cmp_antisym: "cmp a b \<le> 0 \<Longrightarrow> cmp b a \<le> 0 \<Longrightarrow> a = b"
  using cmp_flip [of a b] cmp_zero [of a b] by simp

end

sublocale comparator \<subseteq> cmp_order: linorder "\<lambda>a b. cmp a b \<le> 0" "\<lambda>a b. cmp a b < 0"
proof
  fix a b c
  show "(cmp a b < 0) = (cmp a b \<le> 0 \<and> \<not> cmp b a \<le> 0)" using cmp_flip [of a b] by linarith
  show "cmp a a \<le> 0" using cmp_zero [of a a] by simp
  show "cmp a b \<le> 0 \<Longrightarrow> cmp b c \<le> 0 \<Longrightarrow> cmp a c \<le> 0" by (rule cmp_le_trans)
  show "cmp a b \<le> 0 \<Longrightarrow> cmp b a \<le> 0 \<Longrightarrow> a = b" by (rule cmp_antisym)
  show "cmp a b \<le> 0 \<or> cmp b a \<le> 0" using cmp_flip [of a b] by linarith
qed

lemma str_compare_trans: "str_compare a b < 0 \<Longrightarrow> str_compare b c < 0 \<Longrightarrow> str_compare a c < 0"
proof (induction a b arbitrary: c rule: str_compare.induct)
  case (2 b bs)
  then show ?case by (cases c) auto
next
  case (4 a as b bs)
  show ?case
  proof (cases c)
    case Nil
    then show ?thesis using 4(3) by simp
  next
    case (Cons d ds)
    consider "byte_of a < byte_of b" "byte_of b \<le> byte_of d" | "byte_of a = byte_of b" "byte_of b < byte_of d"
      | "byte_of a = byte_of b" "byte_of b = byte_of d" "str_compare as bs < 0" "str_compare bs ds < 0"
      using 4(2,3) Cons by (auto split: if_splits)
    then show ?thesis using 4(1) [of ds] Cons by cases simp_all
  qed
qed auto

interpretation strcmp: comparator str_compare
proof
  fix a b c :: string
  show "str_compare a b = 0 \<longleftrightarrow> a = b" by (induction a b rule: str_compare.induct) (auto simp: char_eq_byte)
  show "str_compare b a = - str_compare a b" by (induction a b rule: str_compare.induct) auto
  show "str_compare a b < 0 \<Longrightarrow> str_compare b c < 0 \<Longrightarrow> str_compare a c < 0" by (rule str_compare_trans)
qed

interpretation jidcmp: comparator Compare
proof
  fix a b c :: Jid
  show "Compare a b = 0 \<longleftrightarrow> a = b" by (auto simp: Compare_def Let_def strcmp.cmp_zero intro: Jid.equality)
  show "Compare b a = - Compare a b"
    using strcmp.cmp_flip [of "node_name a" "node_name b"] strcmp.cmp_flip [of "domain_name a" "domain_name b"]
      strcmp.cmp_flip [of "resource_name a" "resource_name b"] by (simp add: Compare_def Let_def)
  show "Compare a b < 0 \<Longrightarrow> Compare b c < 0 \<Longrightarrow> Compare a c < 0"
    using strcmp.cmp_trans [of "node_name a" "node_name b" "node_name c"] strcmp.cmp_trans [of "domain_name a" "domain_name b" "domain_name c"]
      strcmp.cmp_trans [of "resource_name a" "resource_name b" "resource_name c"]
    by (auto simp: Compare_def Let_def strcmp.cmp_zero split: if_splits)
qed

text \<open>Property C32: \<open>Compare\<close> is a total order that agrees with the equality of addresses, as the ordered
  containers that hold addresses rely on.\<close>

theorem jid_compare_total_order:
  "(Compare j k = 0 \<longleftrightarrow> Jid_eq j k) \<and> (Compare j k < 0 \<longleftrightarrow> Compare k j > 0) \<and>
   \<not> (Compare j k < 0 \<and> Compare k l < 0 \<and> \<not> Compare j l < 0)"
proof -
  have "Jid_eq j k \<longleftrightarrow> j = k" by (auto simp: Jid_eq_def intro: Jid.equality)
  then show ?thesis using jidcmp.cmp_zero [of j k] jidcmp.cmp_flip [of k j] jidcmp.cmp_trans [of j k l] by auto
qed

subsection \<open>Two slips\<close>

text \<open>A domain whose labels are right but that is longer than 1023 bytes is not reported as
  invalid: the address keeps its node and resource without a domain, so it is neither valid nor empty, although
  a part that fails its checks is meant to empty all three.\<close>

theorem long_domain_not_reset:
  assumes "good_domain d" and "length d > 1023" and "PrepNode n = (n1, True)" and "PrepResource r = (r1, True)" and "n1 \<noteq> []"
  shows "Jid_parts n d r = \<lparr>node_name = n1, domain_name = [], resource_name = r1\<rparr> \<and> \<not> IsValid (Jid_parts n d r) \<and> \<not> IsEmpty (Jid_parts n d r)"
proof -
  have "prep_domain_loop d [] [] = (d, True)" using assms(1) by (simp add: good_domain_def)
  then have "PrepDomain d = ([], True)" using assms(2) by (simp add: PrepDomain_def)
  then show ?thesis using assms(3,4,5) by (simp add: Jid_parts_def ValidateOrReset_def IsValid_def IsEmpty_def)
qed

fun dotted :: "nat \<Rightarrow> string" where
  "dotted 0 = ''a''"
| "dotted (Suc k) = ''a'' @ CHR ''.'' # dotted k"

lemma good_dotted: "good_domain (dotted k)"
proof (induction k)
  case 0
  have "good_label ''a''" by code_simp
  then show ?case using good_domain_label by simp
next
  case (Suc k)
  have "good_label ''a''" by code_simp
  from good_domain_dot [OF this Suc] show ?case by simp
qed

lemma length_dotted: "length (dotted k) = 2 * k + 1"
  by (induction k) simp_all

theorem long_domain_not_reset_witness: "\<not> IsValid (Jid_parts ''bob'' (dotted 600) []) \<and> \<not> IsEmpty (Jid_parts ''bob'' (dotted 600) [])"
proof -
  have "PrepNode ''bob'' = (''bob'', True)" "PrepResource [] = ([], True)" by code_simp+
  moreover have "length (dotted 600) > 1023" by (simp add: length_dotted)
  ultimately show ?thesis using long_domain_not_reset [OF good_dotted, of 600 "''bob''" "''bob''" "[]" "[]"] by blast
qed

text \<open>A control character makes \<open>PrepResourceAscii\<close> report an invalid character, but the resource is
  accepted with a zero byte in its place.\<close>

lemma control_in_resource_accepted: "byte_of c \<le> 0x17 \<Longrightarrow> PrepResourceAscii c = (NUL, False) \<and> PrepResource [c] = ([NUL], True)"
  by (simp add: PrepResource_def prep_resource_loop_map resource_char_def PrepResourceAscii_def)

end
