(* ===== verification/StdMap.thy ===== *)
theory StdMap
  imports Prelude
begin

text \<open>
  \<open>std::map\<close> as the sources use it: \<open>find\<close>, \<open>insert\<close> of a pair (which leaves an existing entry
  alone), \<open>erase\<close> of a key and iteration in the order of the keys. The locale \<open>std_map\<close>
  states what its clients rely on; the sorted association lists that stand for the maps in the model
  interpret it.
\<close>

locale std_map =
  fixes inv :: "'m \<Rightarrow> bool" and lookup :: "'m \<Rightarrow> 'k \<Rightarrow> 'v option"
    and add :: "'k \<Rightarrow> 'v \<Rightarrow> 'm \<Rightarrow> 'm" and del :: "'k \<Rightarrow> 'm \<Rightarrow> 'm" and empty :: 'm
  assumes inv_empty: "inv empty" and lookup_empty: "lookup empty k = None"
    and inv_add: "inv m \<Longrightarrow> inv (add k v m)"
    and lookup_add: "inv m \<Longrightarrow> lookup (add k v m) k' = (if k' = k \<and> lookup m k = None then Some v else lookup m k')"
    and inv_del: "inv m \<Longrightarrow> inv (del k m)"
    and lookup_del: "inv m \<Longrightarrow> lookup (del k m) k' = (if k' = k then None else lookup m k')"
begin

lemma add_new: "inv m \<Longrightarrow> lookup m k = None \<Longrightarrow> lookup (add k v m) = (lookup m)(k \<mapsto> v)"
  by (auto simp: lookup_add)

lemma add_keeps: "inv m \<Longrightarrow> lookup m k = Some w \<Longrightarrow> lookup (add k v m) = lookup m"
  by (auto simp: lookup_add)

lemma del_add: "inv m \<Longrightarrow> lookup m k = None \<Longrightarrow> lookup (del k (add k v m)) = lookup m"
  by (auto simp: lookup_add lookup_del inv_add)

end

fun map_insert :: "'k::linorder \<Rightarrow> 'v \<Rightarrow> ('k \<times> 'v) list \<Rightarrow> ('k \<times> 'v) list" where
  "map_insert k v [] = [(k, v)]"
| "map_insert k v ((k1, v1) # m) =
     (if k < k1 then (k, v) # (k1, v1) # m else if k = k1 then (k1, v1) # m else (k1, v1) # map_insert k v m)"

definition map_erase :: "'k \<Rightarrow> ('k \<times> 'v) list \<Rightarrow> ('k \<times> 'v) list" where
  "map_erase k m = filter (\<lambda>kv. fst kv \<noteq> k) m"

definition map_inv :: "('k::linorder \<times> 'v) list \<Rightarrow> bool" where
  "map_inv m \<longleftrightarrow> sorted_wrt (<) (map fst m)"

lemma set_map_insert: "fst ` set (map_insert k v m) = insert k (fst ` set m)"
  by (induction k v m rule: map_insert.induct) auto

lemma map_inv_insert: "map_inv m \<Longrightarrow> map_inv (map_insert k v m)"
  unfolding map_inv_def
proof (induction k v m rule: map_insert.induct)
  case (2 k v k1 v1 m)
  then show ?case using set_map_insert [of k v m] by (auto simp: image_iff)
qed simp

lemma map_of_insert:
  "map_inv m \<Longrightarrow> map_of (map_insert k v m) k' = (if k' = k \<and> map_of m k = None then Some v else map_of m k')"
proof (induction k v m rule: map_insert.induct)
  case (2 k v k1 v1 m)
  show ?case
  proof (cases "k < k1")
    case True
    then have "k \<noteq> k1" "k \<notin> fst ` set m" using 2(2) by (auto simp: map_inv_def)
    then show ?thesis using True by (auto simp: map_of_eq_None_iff)
  qed (use 2 in \<open>auto simp: map_inv_def\<close>)
qed simp

lemma map_of_erase: "map_of (map_erase k m) k' = (if k' = k then None else map_of m k')"
  unfolding map_erase_def by (induction m) auto

lemma map_inv_erase: "map_inv m \<Longrightarrow> map_inv (map_erase k m)"
  unfolding map_inv_def map_erase_def by (induction m) auto

interpretation sm: std_map map_inv map_of map_insert map_erase "[] :: ('k::linorder \<times> 'v) list"
  by unfold_locales (simp_all add: map_inv_insert map_of_insert map_inv_erase map_of_erase, simp add: map_inv_def)

lemma map_of_iff:
  assumes "map_inv m"
  shows "map_of m k = Some v \<longleftrightarrow> (k, v) \<in> set m"
proof -
  have "distinct (map fst m)" using assms by (simp add: map_inv_def strict_sorted_iff)
  then show ?thesis using map_of_SomeD map_of_is_SomeI by metis
qed

end
