(* ===== verification/TunnelSession.thy ===== *)
theory TunnelSession
  imports Jid StdMap "HOL-Library.Char_ord" "HOL-Library.List_Lexorder"
begin

text \<open>
  How a tunnel is negotiated: \<^verbatim>\<open>talk/session/tunnel/tunnelsessionclient.cc\<close> over \<^verbatim>\<open>talk/p2p/base/session.cc\<close>, \<^verbatim>\<open>sessionmanager.cc\<close> and
  \<^verbatim>\<open>sessiondescription.cc\<close>, on the signalling thread. Sessions are objects with an address, since a pointer to a session outlives its entry in the map of the
  manager. The manager, its sessions, the client and its tunnels are one record. A signal calls its slots at once; what is posted waits in \<open>sm_posted\<close>.

  Parameters (\<open>Env\<close>) are the codec of the XML elements, the transports with their candidates, the descriptions that the transport factory makes, the result of
  \<open>PseudoTcpChannel::Connect\<close>, and what the application does with an incoming tunnel. The calls to the channel of a tunnel are recorded in it.
\<close>

subsection \<open>Descriptions\<close>

record ContentInfo =
  ci_name :: string
  ci_type :: string
  ci_rejected :: bool
  ci_description :: string

record TransportInfo =
  ti_content_name :: string
  ti_transport_type :: string
  ti_candidates :: "string list"

record SessionDescription =
  sd_contents :: "ContentInfo list"
  sd_transports :: "TransportInfo list"
  sd_groups :: "string list"

definition FindContentInfoByType :: "ContentInfo list \<Rightarrow> string \<Rightarrow> ContentInfo option" where
  "FindContentInfoByType contents type = List.find (\<lambda>c. ci_type c = type) contents"

definition FirstContentByType :: "SessionDescription \<Rightarrow> string \<Rightarrow> ContentInfo option" where
  "FirstContentByType sd type = FindContentInfoByType (sd_contents sd) type"

definition AddContent :: "string \<Rightarrow> string \<Rightarrow> string \<Rightarrow> SessionDescription \<Rightarrow> SessionDescription" where
  "AddContent name type description sd =
     sd\<lparr>sd_contents := sd_contents sd @ [\<lparr>ci_name = name, ci_type = type, ci_rejected = False, ci_description = description\<rparr>]\<rparr>"

definition GetTransportInfoByName :: "SessionDescription \<Rightarrow> string \<Rightarrow> TransportInfo option" where
  "GetTransportInfoByName sd name = List.find (\<lambda>t. ti_content_name t = name) (sd_transports sd)"

definition AddTransportInfo :: "TransportInfo \<Rightarrow> SessionDescription \<Rightarrow> SessionDescription" where
  "AddTransportInfo t sd = (if GetTransportInfoByName sd (ti_content_name t) \<noteq> None then sd else sd\<lparr>sd_transports := sd_transports sd @ [t]\<rparr>)"

subsection \<open>The state of the signalling thread\<close>

datatype State = STATE_INIT | STATE_SENTINITIATE | STATE_RECEIVEDINITIATE | STATE_SENTPRACCEPT | STATE_SENTACCEPT | STATE_RECEIVEDPRACCEPT
  | STATE_RECEIVEDACCEPT | STATE_SENTMODIFY | STATE_RECEIVEDMODIFY | STATE_SENTREJECT | STATE_RECEIVEDREJECT | STATE_SENTREDIRECT | STATE_SENTTERMINATE
  | STATE_RECEIVEDTERMINATE | STATE_INPROGRESS | STATE_DEINIT

datatype Error = ERROR_NONE | ERROR_TIME | ERROR_RESPONSE | ERROR_NETWORK | ERROR_CONTENT | ERROR_TRANSPORT

datatype ActionType = ACTION_UNKNOWN | ACTION_SESSION_INITIATE | ACTION_SESSION_INFO | ACTION_SESSION_ACCEPT | ACTION_SESSION_REJECT
  | ACTION_SESSION_TERMINATE | ACTION_TRANSPORT_INFO | ACTION_TRANSPORT_ACCEPT | ACTION_DESCRIPTION_INFO

datatype SignalingProtocol = PROTOCOL_JINGLE | PROTOCOL_GINGLE | PROTOCOL_HYBRID

datatype SessionMsg = MSG_TIMEOUT | MSG_ERROR | MSG_STATE

record TransportProxy =
  px_sent_candidates :: "string list"
  px_unsent_candidates :: "string list"
  px_negotiated :: bool

text \<open>\<open>s_listener\<close>: a tunnel is connected to \<open>SignalState\<close>.\<close>

record Session =
  s_id :: string
  s_content_type :: string
  s_initiator :: bool
  s_local_name :: string
  s_initiator_name :: string
  s_remote_name :: string
  s_state :: State
  s_error :: Error
  s_local_description :: "SessionDescription option"
  s_remote_description :: "SessionDescription option"
  s_proxies :: "(string \<times> TransportProxy) list"
  s_initiate_acked :: bool
  s_current_protocol :: SignalingProtocol
  s_listener :: bool

datatype ChannelCall = Call_Connect string | Call_OnSessionTerminate | Call_GetStream

record TunnelSession =
  tn_session :: "nat option"
  tn_channel :: "ChannelCall list option"

text \<open>An outgoing stanza: a message of one action, for every protocol it is written in, an acknowledgement, or an error.\<close>

datatype 'x Stanza = Out_message string ActionType string string "(SignalingProtocol \<times> 'x) list" | Out_ack string | Out_error string

record 'x Manager =
  sm_objects :: "nat \<Rightarrow> Session option"
  sm_fresh :: nat
  sm_session_map :: "(string \<times> nat) list"
  sm_client_map :: "string list"
  sm_posted :: "(nat \<times> SessionMsg) list"
  sm_out :: "'x Stanza list"
  tc_jid :: string
  tc_namespace :: string
  tc_sessions :: "TunnelSession list"
  tc_shutdown :: bool

record 'x SessionMessage =
  m_protocol :: SignalingProtocol
  m_type :: ActionType
  m_sid :: string
  m_from :: string
  m_to :: string
  m_initiator :: string
  m_action :: 'x

datatype Action = Initiate_action SessionDescription | Accept_action SessionDescription | Transport_action TransportInfo

datatype Reply = Reply_accept | Reply_decline | Reply_later

record 'x Env =
  e_write :: "SignalingProtocol \<Rightarrow> Action \<Rightarrow> 'x option"
  e_write_terminate :: "SignalingProtocol \<Rightarrow> string \<Rightarrow> 'x"
  e_parse_initiate :: "'x \<Rightarrow> SessionDescription option"
  e_parse_accept :: "'x \<Rightarrow> SessionDescription option"
  e_parse_terminate :: "'x \<Rightarrow> bool"
  e_parse_transports :: "ContentInfo list \<Rightarrow> 'x \<Rightarrow> TransportInfo list option"
  e_parse_description_info :: "'x \<Rightarrow> bool"
  e_content_type :: "'x \<Rightarrow> string option"
  e_candidates_ok :: "string list \<Rightarrow> bool"
  e_offer_transport :: "string option"
  e_answer_transport :: "TransportInfo \<Rightarrow> string option"
  e_connect :: "nat \<Rightarrow> bool"
  e_incoming :: "string \<Rightarrow> string \<Rightarrow> Reply"

definition NS_TUNNEL :: string where "NS_TUNNEL = ''http://www.google.com/talk/tunnel''"
definition CN_TUNNEL :: string where "CN_TUNNEL = ''tunnel''"
definition NS_GINGLE_P2P :: string where "NS_GINGLE_P2P = ''http://www.google.com/transport/p2p''"
definition STR_TERMINATE_DECLINE :: string where "STR_TERMINATE_DECLINE = ''decline''"
definition STR_TERMINATE_SUCCESS :: string where "STR_TERMINATE_SUCCESS = ''success''"
definition STR_TERMINATE_ERROR :: string where "STR_TERMINATE_ERROR = ''general-error''"
definition STR_TERMINATE_INCOMPATIBLE_PARAMETERS :: string where "STR_TERMINATE_INCOMPATIBLE_PARAMETERS = ''incompatible-parameters''"

definition getS :: "'x Manager \<Rightarrow> nat \<Rightarrow> Session exec" where
  "getS M a = (case sm_objects M a of None \<Rightarrow> Inl Null_pointer | Some s \<Rightarrow> Inr s)"

definition setS :: "nat \<Rightarrow> Session \<Rightarrow> 'x Manager \<Rightarrow> 'x Manager" where
  "setS a s M = M\<lparr>sm_objects := (sm_objects M)(a \<mapsto> s)\<rparr>"

definition modS :: "nat \<Rightarrow> (Session \<Rightarrow> Session) \<Rightarrow> 'x Manager \<Rightarrow> 'x Manager exec" where
  "modS a f M = andThen (getS M a) (\<lambda>s. Inr (setS a (f s) M))"

definition post :: "nat \<Rightarrow> SessionMsg \<Rightarrow> 'x Manager \<Rightarrow> 'x Manager" where
  "post a m M = M\<lparr>sm_posted := sm_posted M @ [(a, m)]\<rparr>"

definition emit :: "'x Stanza \<Rightarrow> 'x Manager \<Rightarrow> 'x Manager" where
  "emit st M = M\<lparr>sm_out := sm_out M @ [st]\<rparr>"

subsection \<open>Tunnels\<close>

definition HasSession :: "TunnelSession \<Rightarrow> nat \<Rightarrow> bool exec" where
  "HasSession tn a = andThen (ASSERT (tn_session tn \<noteq> None)) (\<lambda>_. Inr (tn_session tn = Some a))"

text \<open>The search in \<open>sessions_\<close>: the index of the tunnel of a session.\<close>

fun find_tunnel :: "TunnelSession list \<Rightarrow> nat \<Rightarrow> nat option exec" where
  "find_tunnel [] a = Inr None"
| "find_tunnel (tn # ts) a =
     andThen (HasSession tn a) (\<lambda>has. if has then Inr (Some 0) else andThen (find_tunnel ts a) (\<lambda>i. Inr (map_option Suc i)))"

text \<open>A call to the channel of the tunnel that is connected to a session.\<close>

definition call_channel :: "nat \<Rightarrow> ChannelCall \<Rightarrow> 'x Manager \<Rightarrow> 'x Manager exec" where
  "call_channel a c M =
     andThen (find_tunnel (tc_sessions M) a) (\<lambda>i. case i of
       None \<Rightarrow> Inl Null_pointer
     | Some i \<Rightarrow>
         (case tn_channel (tc_sessions M ! i) of
            None \<Rightarrow> Inl Assertion_failed
          | Some cs \<Rightarrow> Inr (M\<lparr>tc_sessions := (tc_sessions M)[i := (tc_sessions M ! i)\<lparr>tn_channel := Some (cs @ [c])\<rparr>]\<rparr>)))"

definition GetStream :: "nat \<Rightarrow> 'x Manager \<Rightarrow> 'x Manager exec" where
  "GetStream a M = call_channel a Call_GetStream M"

definition OnAccept :: "'x Env \<Rightarrow> nat \<Rightarrow> 'x Manager \<Rightarrow> 'x Manager exec" where
  "OnAccept E a M =
     andThen (getS M a) (\<lambda>s. case s_remote_description s of
       None \<Rightarrow> Inl Null_pointer
     | Some sd \<Rightarrow>
         (case FirstContentByType sd NS_TUNNEL of
            None \<Rightarrow> Inl Assertion_failed
          | Some content \<Rightarrow> andThen (call_channel a (Call_Connect (ci_name content)) M) (\<lambda>M. andThen (ASSERT (e_connect E a)) (\<lambda>_. Inr M))))"

definition OnTerminate :: "nat \<Rightarrow> 'x Manager \<Rightarrow> 'x Manager exec" where
  "OnTerminate a M = call_channel a Call_OnSessionTerminate M"

text \<open>\<open>OnInitiate\<close> is an argument: it hands the tunnel to the application, which may accept or decline it and so change the state again.\<close>

definition OnSessionState :: "'x Env \<Rightarrow> (nat \<Rightarrow> 'x Manager \<Rightarrow> 'x Manager exec) \<Rightarrow> nat \<Rightarrow> State \<Rightarrow> 'x Manager \<Rightarrow> 'x Manager exec" where
  "OnSessionState E OnInitiate a state M =
     (case state of
        STATE_RECEIVEDINITIATE \<Rightarrow> OnInitiate a M
      | STATE_SENTACCEPT \<Rightarrow> OnAccept E a M
      | STATE_RECEIVEDACCEPT \<Rightarrow> OnAccept E a M
      | STATE_SENTTERMINATE \<Rightarrow> OnTerminate a M
      | STATE_RECEIVEDTERMINATE \<Rightarrow> OnTerminate a M
      | STATE_DEINIT \<Rightarrow> Inl Assertion_failed
      | _ \<Rightarrow> Inr M)"

subsection \<open>Sessions\<close>

definition SetState_with :: "'x Env \<Rightarrow> (nat \<Rightarrow> 'x Manager \<Rightarrow> 'x Manager exec) \<Rightarrow> nat \<Rightarrow> State \<Rightarrow> 'x Manager \<Rightarrow> 'x Manager exec" where
  "SetState_with E OnInitiate a state M =
     andThen (getS M a) (\<lambda>s.
     if state \<noteq> s_state s then
       let M1 = setS a (s\<lparr>s_state := state\<rparr>) M in
       andThen (if s_listener s then OnSessionState E OnInitiate a state M1 else Inr M1) (\<lambda>M. Inr (post a MSG_STATE M))
     else Inr M)"

text \<open>The states other than \<open>STATE_RECEIVEDINITIATE\<close> do not reach the application.\<close>

definition SetState :: "'x Env \<Rightarrow> nat \<Rightarrow> State \<Rightarrow> 'x Manager \<Rightarrow> 'x Manager exec" where
  "SetState E = SetState_with E (\<lambda>_. Inr)"

definition SetError :: "nat \<Rightarrow> Error \<Rightarrow> 'x Manager \<Rightarrow> 'x Manager exec" where
  "SetError a error M =
     andThen (modS a (\<lambda>s. s\<lparr>s_error := error\<rparr>) M) (\<lambda>M. Inr (if error \<noteq> ERROR_NONE then post a MSG_ERROR M else M))"

definition new_TransportProxy :: TransportProxy where
  "new_TransportProxy = \<lparr>px_sent_candidates = [], px_unsent_candidates = [], px_negotiated = False\<rparr>"

definition GetOrCreateTransportProxy :: "string \<Rightarrow> Session \<Rightarrow> Session" where
  "GetOrCreateTransportProxy name s = s\<lparr>s_proxies := map_insert name new_TransportProxy (s_proxies s)\<rparr>"

definition GetEmptyTransportInfos :: "ContentInfo list \<Rightarrow> TransportInfo list" where
  "GetEmptyTransportInfos contents = map (\<lambda>c. \<lparr>ti_content_name = ci_name c, ti_transport_type = NS_GINGLE_P2P, ti_candidates = []\<rparr>) contents"

fun CreateTransportProxies :: "TransportInfo list \<Rightarrow> Session \<Rightarrow> bool \<times> Session" where
  "CreateTransportProxies [] s = (True, s)"
| "CreateTransportProxies (t # ts) s =
     (if ti_transport_type t \<noteq> NS_GINGLE_P2P then (False, s) else CreateTransportProxies ts (GetOrCreateTransportProxy (ti_content_name t) s))"

fun OnRemoteCandidates :: "'x Env \<Rightarrow> TransportInfo list \<Rightarrow> Session \<Rightarrow> bool" where
  "OnRemoteCandidates E [] s = True"
| "OnRemoteCandidates E (t # ts) s =
     (map_of (s_proxies s) (ti_content_name t) \<noteq> None \<and> e_candidates_ok E (ti_candidates t) \<and> OnRemoteCandidates E ts s)"

definition WriteActionMessage :: "'x Env \<Rightarrow> SignalingProtocol \<Rightarrow> Action \<Rightarrow> (SignalingProtocol \<times> 'x) list option" where
  "WriteActionMessage E protocol action =
     (if protocol = PROTOCOL_HYBRID then
        case e_write E PROTOCOL_JINGLE action of
          None \<Rightarrow> None
        | Some x \<Rightarrow> (case e_write E PROTOCOL_GINGLE action of None \<Rightarrow> None | Some y \<Rightarrow> Some [(PROTOCOL_JINGLE, x), (PROTOCOL_GINGLE, y)])
      else map_option (\<lambda>x. [(protocol, x)]) (e_write E protocol action))"

definition SendMessage :: "ActionType \<Rightarrow> Session \<Rightarrow> (SignalingProtocol \<times> 'x) list option \<Rightarrow> 'x Manager \<Rightarrow> bool \<times> 'x Manager" where
  "SendMessage type s elems M =
     (case elems of None \<Rightarrow> (False, M) | Some xs \<Rightarrow> (True, emit (Out_message (s_remote_name s) type (s_id s) (s_initiator_name s) xs) M))"

definition SendInitiateMessage :: "'x Env \<Rightarrow> SessionDescription \<Rightarrow> Session \<Rightarrow> 'x Manager \<Rightarrow> bool \<times> 'x Manager" where
  "SendInitiateMessage E sdesc s M =
     SendMessage ACTION_SESSION_INITIATE s
       (WriteActionMessage E (s_current_protocol s) (Initiate_action (sdesc\<lparr>sd_transports := GetEmptyTransportInfos (sd_contents sdesc)\<rparr>))) M"

definition SendAcceptMessage :: "'x Env \<Rightarrow> SessionDescription \<Rightarrow> Session \<Rightarrow> 'x Manager \<Rightarrow> bool \<times> 'x Manager" where
  "SendAcceptMessage E sdesc s M =
     SendMessage ACTION_SESSION_ACCEPT s
       (map_option (\<lambda>x. [(s_current_protocol s, x)])
          (e_write E (s_current_protocol s) (Accept_action (sdesc\<lparr>sd_transports := GetEmptyTransportInfos (sd_contents sdesc)\<rparr>)))) M"

definition write_terminates :: "'x Env \<Rightarrow> SignalingProtocol \<Rightarrow> string \<Rightarrow> (SignalingProtocol \<times> 'x) list" where
  "write_terminates E protocol reason =
     (if protocol = PROTOCOL_HYBRID then [(PROTOCOL_JINGLE, e_write_terminate E PROTOCOL_JINGLE reason), (PROTOCOL_GINGLE, e_write_terminate E PROTOCOL_GINGLE reason)]
      else [(protocol, e_write_terminate E protocol reason)])"

definition SendRejectMessage :: "'x Env \<Rightarrow> string \<Rightarrow> Session \<Rightarrow> 'x Manager \<Rightarrow> bool \<times> 'x Manager" where
  "SendRejectMessage E reason s M = SendMessage ACTION_SESSION_REJECT s (Some (write_terminates E (s_current_protocol s) reason)) M"

definition SendTerminateMessage :: "'x Env \<Rightarrow> string \<Rightarrow> Session \<Rightarrow> 'x Manager \<Rightarrow> bool \<times> 'x Manager" where
  "SendTerminateMessage E reason s M = SendMessage ACTION_SESSION_TERMINATE s (Some (write_terminates E (s_current_protocol s) reason)) M"

definition SendTransportInfoMessage :: "'x Env \<Rightarrow> string \<Rightarrow> string list \<Rightarrow> Session \<Rightarrow> 'x Manager \<Rightarrow> bool \<times> 'x Manager" where
  "SendTransportInfoMessage E name candidates s M =
     SendMessage ACTION_TRANSPORT_INFO s (WriteActionMessage E (s_current_protocol s)
       (Transport_action \<lparr>ti_content_name = name, ti_transport_type = NS_GINGLE_P2P, ti_candidates = candidates\<rparr>)) M"

text \<open>The loops over the proxies stop at the first message that cannot be written.\<close>

fun send_all :: "'x Env \<Rightarrow> (TransportProxy \<Rightarrow> string list) \<Rightarrow> (TransportProxy \<Rightarrow> TransportProxy) \<Rightarrow> Session \<Rightarrow> (string \<times> TransportProxy) list \<Rightarrow> 'x Manager
    \<Rightarrow> bool \<times> (string \<times> TransportProxy) list \<times> 'x Manager" where
  "send_all E candidates clear s [] M = (True, [], M)"
| "send_all E candidates clear s ((name, px) # pxs) M =
     (if candidates px \<noteq> [] then
        case SendTransportInfoMessage E name (candidates px) s M of (ok, M) \<Rightarrow>
        if ok then case send_all E candidates clear s pxs M of (r, rest, M) \<Rightarrow> (r, (name, clear px) # rest, M)
        else (False, (name, px) # pxs, M)
      else case send_all E candidates clear s pxs M of (r, rest, M) \<Rightarrow> (r, (name, px) # rest, M))"

definition ResendAllTransportInfoMessages :: "'x Env \<Rightarrow> nat \<Rightarrow> 'x Manager \<Rightarrow> (bool \<times> 'x Manager) exec" where
  "ResendAllTransportInfoMessages E a M =
     andThen (getS M a) (\<lambda>s.
     case send_all E px_sent_candidates (\<lambda>px. px\<lparr>px_sent_candidates := []\<rparr>) s (s_proxies s) M of (ok, pxs, M) \<Rightarrow>
     Inr (ok, setS a (s\<lparr>s_proxies := pxs\<rparr>) M))"

definition SendAllUnsentTransportInfoMessages :: "'x Env \<Rightarrow> nat \<Rightarrow> 'x Manager \<Rightarrow> 'x Manager exec" where
  "SendAllUnsentTransportInfoMessages E a M =
     andThen (getS M a) (\<lambda>s.
     case send_all E px_unsent_candidates (\<lambda>px. px\<lparr>px_unsent_candidates := []\<rparr>) s (s_proxies s) M of (ok, pxs, M) \<Rightarrow>
     Inr (setS a (s\<lparr>s_proxies := pxs\<rparr>) M))"

text \<open>\<open>PushdownTransportDescription\<close>, \<open>SpeculativelyConnectAllTransportChannels\<close> and \<open>MaybeEnableMuxingSupport\<close> act on the transports only, and their results are
  not used; the transports, with the assertions on them, are not modelled.\<close>

definition Initiate :: "'x Env \<Rightarrow> nat \<Rightarrow> string \<Rightarrow> SessionDescription \<Rightarrow> 'x Manager \<Rightarrow> (bool \<times> 'x Manager) exec" where
  "Initiate E a dest sdesc M =
     andThen (getS M a) (\<lambda>s.
     if s_state s \<noteq> STATE_INIT then Inr (False, M)
     else
       case CreateTransportProxies (GetEmptyTransportInfos (sd_contents sdesc)) (s\<lparr>s_remote_name := dest, s_local_description := Some sdesc\<rparr>) of (created, s) \<Rightarrow>
       let M = setS a s M in
       if \<not> created then Inr (False, M)
       else case SendInitiateMessage E sdesc s M of (sent, M) \<Rightarrow>
       if \<not> sent then Inr (False, M)
       else andThen (SetState E a STATE_SENTINITIATE M) (\<lambda>M. Inr (True, M)))"

definition Accept :: "'x Env \<Rightarrow> nat \<Rightarrow> SessionDescription \<Rightarrow> 'x Manager \<Rightarrow> (bool \<times> 'x Manager) exec" where
  "Accept E a sdesc M =
     andThen (getS M a) (\<lambda>s.
     if s_state s \<noteq> STATE_RECEIVEDINITIATE then Inr (False, M)
     else
       let s = s\<lparr>s_local_description := Some sdesc\<rparr>; M = setS a s M in
       case SendAcceptMessage E sdesc s M of (sent, M) \<Rightarrow>
       if \<not> sent then Inr (False, M)
       else andThen (SetState E a STATE_SENTACCEPT M) (\<lambda>M. Inr (True, M)))"

definition Reject :: "'x Env \<Rightarrow> nat \<Rightarrow> string \<Rightarrow> 'x Manager \<Rightarrow> (bool \<times> 'x Manager) exec" where
  "Reject E a reason M =
     andThen (getS M a) (\<lambda>s.
     if s_state s \<noteq> STATE_RECEIVEDINITIATE \<and> s_state s \<noteq> STATE_RECEIVEDMODIFY then Inr (False, M)
     else case SendRejectMessage E reason s M of (sent, M) \<Rightarrow>
       if \<not> sent then Inr (False, M)
       else andThen (SetState E a STATE_SENTREJECT M) (\<lambda>M. Inr (True, M)))"

definition TerminateWithReason :: "'x Env \<Rightarrow> nat \<Rightarrow> string \<Rightarrow> 'x Manager \<Rightarrow> (bool \<times> 'x Manager) exec" where
  "TerminateWithReason E a reason M =
     andThen (getS M a) (\<lambda>s.
     if s_state s = STATE_SENTTERMINATE \<or> s_state s = STATE_RECEIVEDTERMINATE then Inr (False, M)
     else case (if s_state s = STATE_SENTREJECT \<or> s_state s = STATE_RECEIVEDREJECT then (True, M) else SendTerminateMessage E reason s M) of (sent, M) \<Rightarrow>
       if \<not> sent then Inr (False, M)
       else andThen (SetState E a STATE_SENTTERMINATE M) (\<lambda>M. Inr (True, M)))"

definition Terminate :: "'x Env \<Rightarrow> nat \<Rightarrow> 'x Manager \<Rightarrow> (bool \<times> 'x Manager) exec" where
  "Terminate E a M = TerminateWithReason E a STR_TERMINATE_SUCCESS M"

subsection \<open>The tunnel client\<close>

definition new_TunnelSession :: "nat \<Rightarrow> TunnelSession" where
  "new_TunnelSession a = \<lparr>tn_session = Some a, tn_channel = Some []\<rparr>"

text \<open>The constructor connects the tunnel to the session.\<close>

definition MakeTunnelSession :: "nat \<Rightarrow> 'x Manager \<Rightarrow> (TunnelSession \<times> 'x Manager) exec" where
  "MakeTunnelSession a M = andThen (modS a (\<lambda>s. s\<lparr>s_listener := True\<rparr>) M) (\<lambda>M. Inr (new_TunnelSession a, M))"

text \<open>\<open>ReleaseSession\<close> returns the session and deletes the tunnel.\<close>

definition ReleaseSession :: "TunnelSession \<Rightarrow> 'x Manager \<Rightarrow> (nat \<times> 'x Manager) exec" where
  "ReleaseSession tn M =
     (case tn_session tn of
        None \<Rightarrow> Inl Assertion_failed
      | Some a \<Rightarrow> andThen (ASSERT (tn_channel tn \<noteq> None)) (\<lambda>_. andThen (modS a (\<lambda>s. s\<lparr>s_listener := False\<rparr>) M) (\<lambda>M. Inr (a, M))))"

definition OnSessionCreate :: "nat \<Rightarrow> bool \<Rightarrow> 'x Manager \<Rightarrow> 'x Manager exec" where
  "OnSessionCreate a received M =
     (if received then andThen (MakeTunnelSession a M) (\<lambda>(tn, M). Inr (M\<lparr>tc_sessions := tc_sessions M @ [tn]\<rparr>)) else Inr M)"

definition OnSessionDestroy :: "nat \<Rightarrow> 'x Manager \<Rightarrow> 'x Manager exec" where
  "OnSessionDestroy a M =
     (if tc_shutdown M then Inr M
      else andThen (find_tunnel (tc_sessions M) a) (\<lambda>i. case i of
        None \<Rightarrow> Inr M
      | Some i \<Rightarrow>
          andThen (ReleaseSession (tc_sessions M ! i) M) (\<lambda>(session, M).
          andThen (ASSERT (session = a)) (\<lambda>_. Inr (M\<lparr>tc_sessions := take i (tc_sessions M) @ drop (Suc i) (tc_sessions M)\<rparr>)))))"

definition FindTunnelContent :: "SessionDescription \<Rightarrow> (string \<times> string) option" where
  "FindTunnelContent sdesc = map_option (\<lambda>c. (ci_name c, ci_description c)) (FirstContentByType sdesc NS_TUNNEL)"

definition NewTunnelSessionDescription :: "string \<Rightarrow> string \<Rightarrow> SessionDescription" where
  "NewTunnelSessionDescription content_name content = AddContent content_name NS_TUNNEL content \<lparr>sd_contents = [], sd_transports = [], sd_groups = []\<rparr>"

definition CreateOffer :: "'x Env \<Rightarrow> string \<Rightarrow> SessionDescription option" where
  "CreateOffer E description =
     (case e_offer_transport E of
        None \<Rightarrow> None
      | Some ttype \<Rightarrow> Some (AddTransportInfo \<lparr>ti_content_name = CN_TUNNEL, ti_transport_type = ttype, ti_candidates = []\<rparr> (NewTunnelSessionDescription CN_TUNNEL description)))"

definition CreateAnswer :: "'x Env \<Rightarrow> SessionDescription \<Rightarrow> SessionDescription option" where
  "CreateAnswer E offer =
     (case FindTunnelContent offer of
        None \<Rightarrow> None
      | Some (content_name, description) \<Rightarrow>
          let answer = NewTunnelSessionDescription content_name description in
          (case GetTransportInfoByName offer content_name of
             None \<Rightarrow> Some answer
           | Some tinfo \<Rightarrow>
               (case e_answer_transport E tinfo of
                  None \<Rightarrow> None
                | Some ttype \<Rightarrow> Some (AddTransportInfo \<lparr>ti_content_name = content_name, ti_transport_type = ttype, ti_candidates = []\<rparr> answer))))"

text \<open>\<open>AcceptTunnel\<close> returns whether there is a stream.\<close>

definition AcceptTunnel :: "'x Env \<Rightarrow> nat \<Rightarrow> 'x Manager \<Rightarrow> (bool \<times> 'x Manager) exec" where
  "AcceptTunnel E a M =
     andThen (find_tunnel (tc_sessions M) a) (\<lambda>i.
     andThen (ASSERT (i \<noteq> None)) (\<lambda>_.
     andThen (getS M a) (\<lambda>s.
     case s_remote_description s of
       None \<Rightarrow> Inl Null_pointer
     | Some offer \<Rightarrow>
         (case CreateAnswer E offer of
            None \<Rightarrow> Inr (False, M)
          | Some answer \<Rightarrow> andThen (Accept E a answer M) (\<lambda>(_, M). andThen (GetStream a M) (\<lambda>M. Inr (True, M)))))))"

definition DeclineTunnel :: "'x Env \<Rightarrow> nat \<Rightarrow> 'x Manager \<Rightarrow> 'x Manager exec" where
  "DeclineTunnel E a M = andThen (Reject E a STR_TERMINATE_DECLINE M) (\<lambda>(_, M). Inr M)"

definition OnIncomingTunnel :: "'x Env \<Rightarrow> nat \<Rightarrow> 'x Manager \<Rightarrow> 'x Manager exec" where
  "OnIncomingTunnel E a M =
     andThen (getS M a) (\<lambda>s.
     case s_remote_description s of
       None \<Rightarrow> Inl Null_pointer
     | Some sd \<Rightarrow>
         (case FindTunnelContent sd of
            None \<Rightarrow> andThen (Reject E a STR_TERMINATE_INCOMPATIBLE_PARAMETERS M) (\<lambda>(_, M). Inr M)
          | Some (content_name, description) \<Rightarrow>
              (case e_incoming E (s_remote_name s) description of
                 Reply_accept \<Rightarrow> andThen (AcceptTunnel E a M) (\<lambda>(_, M). Inr M)
               | Reply_decline \<Rightarrow> DeclineTunnel E a M
               | Reply_later \<Rightarrow> Inr M)))"

subsection \<open>The manager\<close>

definition GetClient :: "string \<Rightarrow> 'x Manager \<Rightarrow> bool" where
  "GetClient content_type M \<longleftrightarrow> content_type \<in> set (sm_client_map M)"

definition AddClient :: "string \<Rightarrow> 'x Manager \<Rightarrow> 'x Manager exec" where
  "AddClient content_type M =
     andThen (ASSERT (\<not> GetClient content_type M)) (\<lambda>_. Inr (M\<lparr>sm_client_map := content_type # sm_client_map M\<rparr>))"

definition RemoveClient :: "string \<Rightarrow> 'x Manager \<Rightarrow> 'x Manager exec" where
  "RemoveClient content_type M =
     andThen (ASSERT (GetClient content_type M)) (\<lambda>_. Inr (M\<lparr>sm_client_map := removeAll content_type (sm_client_map M)\<rparr>))"

definition new_Session :: "string \<Rightarrow> string \<Rightarrow> string \<Rightarrow> string \<Rightarrow> Session" where
  "new_Session local_name initiator_name sid content_type =
     \<lparr>s_id = sid, s_content_type = content_type, s_initiator = (initiator_name = local_name), s_local_name = local_name, s_initiator_name = initiator_name,
      s_remote_name = [], s_state = STATE_INIT, s_error = ERROR_NONE, s_local_description = None, s_remote_description = None, s_proxies = [],
      s_initiate_acked = False, s_current_protocol = PROTOCOL_HYBRID, s_listener = False\<rparr>"

definition CreateSession :: "string \<Rightarrow> string \<Rightarrow> string \<Rightarrow> string \<Rightarrow> bool \<Rightarrow> 'x Manager \<Rightarrow> (nat \<times> 'x Manager) exec" where
  "CreateSession local_name initiator_name sid content_type received_initiate M =
     andThen (ASSERT (GetClient content_type M)) (\<lambda>_.
     let a = sm_fresh M;
         M = M\<lparr>sm_objects := (sm_objects M)(a \<mapsto> new_Session local_name initiator_name sid content_type), sm_fresh := Suc a,
               sm_session_map := map_insert sid a (map_erase sid (sm_session_map M))\<rparr>
     in andThen (OnSessionCreate a received_initiate M) (\<lambda>M. Inr (a, M)))"

text \<open>\<open>delete session\<close>: the destructor reports \<open>STATE_DEINIT\<close>, and the handler of messages is forgotten by the queue.\<close>

definition delete_Session :: "'x Env \<Rightarrow> nat \<Rightarrow> 'x Manager \<Rightarrow> 'x Manager exec" where
  "delete_Session E a M =
     andThen (getS M a) (\<lambda>s.
     andThen (ASSERT (s_state s \<noteq> STATE_DEINIT)) (\<lambda>_.
     let M = setS a (s\<lparr>s_state := STATE_DEINIT\<rparr>) M in
     andThen (if s_listener s then OnSessionState E (\<lambda>_. Inr) a STATE_DEINIT M else Inr M) (\<lambda>M.
     Inr (M\<lparr>sm_objects := (sm_objects M)(a := None), sm_posted := filter (\<lambda>p. fst p \<noteq> a) (sm_posted M)\<rparr>))))"

definition DestroySession :: "'x Env \<Rightarrow> nat \<Rightarrow> 'x Manager \<Rightarrow> 'x Manager exec" where
  "DestroySession E a M =
     andThen (getS M a) (\<lambda>s.
     if map_of (sm_session_map M) (s_id s) \<noteq> None then
       andThen (OnSessionDestroy a M) (\<lambda>M. delete_Session E a (M\<lparr>sm_session_map := map_erase (s_id s) (sm_session_map M)\<rparr>))
     else Inr M)"

definition FindSession :: "string \<Rightarrow> string \<Rightarrow> 'x Manager \<Rightarrow> nat option exec" where
  "FindSession sid remote_name M =
     (case map_of (sm_session_map M) sid of
        None \<Rightarrow> Inr None
      | Some a \<Rightarrow> andThen (getS M a) (\<lambda>s. Inr (if Jid_eq (Jid_string remote_name) (Jid_string (s_remote_name s)) then Some a else None)))"

subsection \<open>Messages\<close>

text \<open>The results say whether the message is valid; an invalid one is answered with an error.\<close>

definition OnInitiateMessage :: "'x Env \<Rightarrow> nat \<Rightarrow> 'x SessionMessage \<Rightarrow> 'x Manager \<Rightarrow> (bool \<times> 'x Manager) exec" where
  "OnInitiateMessage E a msg M =
     andThen (getS M a) (\<lambda>s.
     if s_state s \<noteq> STATE_INIT then Inr (False, M)
     else case e_parse_initiate E (m_action msg) of
       None \<Rightarrow> Inr (False, M)
     | Some init \<Rightarrow>
         (case CreateTransportProxies (sd_transports init) s of (created, s) \<Rightarrow>
          if \<not> created then Inr (False, setS a s M)
          else
            let M = setS a (s\<lparr>s_remote_name := m_from msg, s_initiator_name := m_initiator msg, s_remote_description := Some init\<rparr>) M in
            andThen (SetState_with E (OnIncomingTunnel E) a STATE_RECEIVEDINITIATE M) (\<lambda>M.
            andThen (getS M a) (\<lambda>s. Inr (s_state s \<noteq> STATE_SENTREJECT \<longrightarrow> OnRemoteCandidates E (sd_transports init) s, M)))))"

definition OnInitiateAcked :: "'x Env \<Rightarrow> nat \<Rightarrow> 'x Manager \<Rightarrow> 'x Manager exec" where
  "OnInitiateAcked E a M =
     andThen (getS M a) (\<lambda>s.
     if \<not> s_initiate_acked s then SendAllUnsentTransportInfoMessages E a (setS a (s\<lparr>s_initiate_acked := True\<rparr>) M) else Inr M)"

definition OnAcceptMessage :: "'x Env \<Rightarrow> nat \<Rightarrow> 'x SessionMessage \<Rightarrow> 'x Manager \<Rightarrow> (bool \<times> 'x Manager) exec" where
  "OnAcceptMessage E a msg M =
     andThen (getS M a) (\<lambda>s.
     if s_state s \<noteq> STATE_SENTINITIATE then Inr (False, M)
     else case e_parse_accept E (m_action msg) of
       None \<Rightarrow> Inr (False, M)
     | Some accept \<Rightarrow>
         andThen (OnInitiateAcked E a M) (\<lambda>M.
         andThen (modS a (\<lambda>s. s\<lparr>s_remote_description := Some accept\<rparr>) M) (\<lambda>M.
         andThen (SetState E a STATE_RECEIVEDACCEPT M) (\<lambda>M.
         andThen (getS M a) (\<lambda>s. Inr (OnRemoteCandidates E (sd_transports accept) s, M))))))"

definition OnRejectMessage :: "'x Env \<Rightarrow> nat \<Rightarrow> 'x Manager \<Rightarrow> (bool \<times> 'x Manager) exec" where
  "OnRejectMessage E a M =
     andThen (getS M a) (\<lambda>s.
     if s_state s \<noteq> STATE_SENTINITIATE then Inr (False, M) else andThen (SetState E a STATE_RECEIVEDREJECT M) (\<lambda>M. Inr (True, M)))"

definition OnTerminateMessage :: "'x Env \<Rightarrow> nat \<Rightarrow> 'x SessionMessage \<Rightarrow> 'x Manager \<Rightarrow> (bool \<times> 'x Manager) exec" where
  "OnTerminateMessage E a msg M =
     (if \<not> e_parse_terminate E (m_action msg) then Inr (False, M) else andThen (SetState E a STATE_RECEIVEDTERMINATE M) (\<lambda>M. Inr (True, M)))"

definition initiator_description :: "Session \<Rightarrow> SessionDescription option" where
  "initiator_description s = (if s_initiator s then s_local_description s else s_remote_description s)"

definition OnTransportInfoMessage :: "'x Env \<Rightarrow> nat \<Rightarrow> 'x SessionMessage \<Rightarrow> 'x Manager \<Rightarrow> (bool \<times> 'x Manager) exec" where
  "OnTransportInfoMessage E a msg M =
     andThen (getS M a) (\<lambda>s. case initiator_description s of
       None \<Rightarrow> Inl Null_pointer
     | Some sd \<Rightarrow>
         (case e_parse_transports E (sd_contents sd) (m_action msg) of
            None \<Rightarrow> Inr (False, M)
          | Some tinfos \<Rightarrow> Inr (OnRemoteCandidates E tinfos s, M)))"

definition OnDescriptionInfoMessage :: "'x Env \<Rightarrow> nat \<Rightarrow> 'x SessionMessage \<Rightarrow> 'x Manager \<Rightarrow> (bool \<times> 'x Manager) exec" where
  "OnDescriptionInfoMessage E a msg M =
     andThen (getS M a) (\<lambda>s. Inr (s_state s = STATE_INPROGRESS \<and> e_parse_description_info E (m_action msg), M))"

definition dispatch :: "'x Env \<Rightarrow> nat \<Rightarrow> 'x SessionMessage \<Rightarrow> 'x Manager \<Rightarrow> (bool \<times> 'x Manager) exec" where
  "dispatch E a msg M =
     (case m_type msg of
        ACTION_SESSION_INITIATE \<Rightarrow> OnInitiateMessage E a msg M
      | ACTION_SESSION_INFO \<Rightarrow> Inr (True, M)
      | ACTION_SESSION_ACCEPT \<Rightarrow> OnAcceptMessage E a msg M
      | ACTION_SESSION_REJECT \<Rightarrow> OnRejectMessage E a M
      | ACTION_SESSION_TERMINATE \<Rightarrow> OnTerminateMessage E a msg M
      | ACTION_TRANSPORT_INFO \<Rightarrow> OnTransportInfoMessage E a msg M
      | ACTION_TRANSPORT_ACCEPT \<Rightarrow> Inr (True, M)
      | ACTION_DESCRIPTION_INFO \<Rightarrow> OnDescriptionInfoMessage E a msg M
      | ACTION_UNKNOWN \<Rightarrow> Inr (False, M))"

definition update_protocol :: "SignalingProtocol \<Rightarrow> Session \<Rightarrow> Session" where
  "update_protocol p s =
     (if s_current_protocol s = PROTOCOL_HYBRID then s\<lparr>s_current_protocol := (if p = PROTOCOL_GINGLE then PROTOCOL_GINGLE else PROTOCOL_JINGLE)\<rparr> else s)"

definition Session_OnIncomingMessage :: "'x Env \<Rightarrow> nat \<Rightarrow> 'x SessionMessage \<Rightarrow> 'x Manager \<Rightarrow> 'x Manager exec" where
  "Session_OnIncomingMessage E a msg M =
     andThen (getS M a) (\<lambda>s.
     andThen (ASSERT (s_state s = STATE_INIT \<or> m_from msg = s_remote_name s)) (\<lambda>_.
     andThen (dispatch E a msg (setS a (update_protocol (m_protocol msg) s) M)) (\<lambda>(valid, M).
     if valid then andThen (getS M a) (\<lambda>s. Inr (emit (Out_ack (s_remote_name s)) M)) else Inr (emit (Out_error (m_from msg)) M))))"

text \<open>\<open>None\<close>: the stanza is no session message.\<close>

definition OnIncomingMessage :: "'x Env \<Rightarrow> string \<Rightarrow> 'x SessionMessage option \<Rightarrow> 'x Manager \<Rightarrow> 'x Manager exec" where
  "OnIncomingMessage E from parsed M =
     (case parsed of
        None \<Rightarrow> Inr (emit (Out_error from) M)
      | Some msg \<Rightarrow>
          andThen (FindSession (m_sid msg) (m_from msg) M) (\<lambda>session.
          case session of
            Some a \<Rightarrow> Session_OnIncomingMessage E a msg M
          | None \<Rightarrow>
              if m_type msg \<noteq> ACTION_SESSION_INITIATE then Inr (emit (Out_error from) M)
              else (case e_content_type E (m_action msg) of
                None \<Rightarrow> Inr (emit (Out_error from) M)
              | Some content_type \<Rightarrow>
                  if \<not> GetClient content_type M then Inr (emit (Out_error from) M)
                  else andThen (CreateSession (m_to msg) (m_initiator msg) (m_sid msg) content_type True M) (\<lambda>(a, M). Session_OnIncomingMessage E a msg M))))"

definition OnIncomingResponse :: "'x Env \<Rightarrow> 'x SessionMessage \<Rightarrow> 'x Manager \<Rightarrow> 'x Manager exec" where
  "OnIncomingResponse E orig M =
     andThen (FindSession (m_sid orig) (m_to orig) M) (\<lambda>session.
     case session of Some a \<Rightarrow> if m_type orig = ACTION_SESSION_INITIATE then OnInitiateAcked E a M else Inr M | None \<Rightarrow> Inr M)"

definition BareJidsEqual :: "string \<Rightarrow> string \<Rightarrow> bool" where
  "BareJidsEqual name1 name2 \<longleftrightarrow>
     IsValid (Jid_string name1) \<and> IsValid (Jid_string name2) \<and> BareEquals (Jid_string name1) (Jid_string name2)"

definition OnRedirectError :: "'x Env \<Rightarrow> nat \<Rightarrow> string \<Rightarrow> 'x Manager \<Rightarrow> (bool \<times> 'x Manager) exec" where
  "OnRedirectError E a target M =
     andThen (getS M a) (\<lambda>s.
     if s_state s \<noteq> STATE_SENTINITIATE then Inr (False, M)
     else if \<not> BareJidsEqual (s_remote_name s) target then Inr (False, M)
     else
       let s = s\<lparr>s_remote_name := target\<rparr>; M = setS a s M in
       case s_local_description s of
         None \<Rightarrow> Inl Null_pointer
       | Some sdesc \<Rightarrow> (case SendInitiateMessage E sdesc s M of (sent, M) \<Rightarrow> if sent then ResendAllTransportInfoMessages E a M else Inr (False, M)))"

text \<open>\<open>redirect\<close> and \<open>error_type\<close> are what the error stanza contains.\<close>

definition OnFailedSend :: "'x Env \<Rightarrow> 'x SessionMessage \<Rightarrow> string option \<Rightarrow> string option \<Rightarrow> 'x Manager \<Rightarrow> 'x Manager exec" where
  "OnFailedSend E orig redirect error_type M =
     andThen (FindSession (m_sid orig) (m_to orig) M) (\<lambda>session.
     case session of
       None \<Rightarrow> Inr M
     | Some a \<Rightarrow>
         (case redirect of
            Some target \<Rightarrow> andThen (OnRedirectError E a target M) (\<lambda>(ok, M). if \<not> ok then SetError a ERROR_RESPONSE M else Inr M)
          | None \<Rightarrow>
              (case error_type of
                 None \<Rightarrow> Inr M
               | Some t \<Rightarrow> if m_type orig \<noteq> ACTION_TRANSPORT_INFO \<and> t \<noteq> ''continue'' \<and> t \<noteq> ''wait'' then SetError a ERROR_RESPONSE M else Inr M)))"

definition BaseSession_OnMessage :: "'x Env \<Rightarrow> nat \<Rightarrow> SessionMsg \<Rightarrow> 'x Manager \<Rightarrow> 'x Manager exec" where
  "BaseSession_OnMessage E a m M =
     (case m of
        MSG_TIMEOUT \<Rightarrow> SetError a ERROR_TIME M
      | MSG_STATE \<Rightarrow>
          andThen (getS M a) (\<lambda>s. if s_state s = STATE_SENTACCEPT \<or> s_state s = STATE_RECEIVEDACCEPT then SetState E a STATE_INPROGRESS M else Inr M)
      | MSG_ERROR \<Rightarrow> Inr M)"

definition Session_OnMessage :: "'x Env \<Rightarrow> nat \<Rightarrow> SessionMsg \<Rightarrow> 'x Manager \<Rightarrow> 'x Manager exec" where
  "Session_OnMessage E a m M =
     andThen (getS M a) (\<lambda>s.
     andThen (BaseSession_OnMessage E a m M) (\<lambda>M.
     case m of
       MSG_ERROR \<Rightarrow> andThen (TerminateWithReason E a STR_TERMINATE_ERROR M) (\<lambda>(_, M). Inr M)
     | MSG_STATE \<Rightarrow>
         if s_state s = STATE_SENTREJECT \<or> s_state s = STATE_RECEIVEDREJECT then andThen (Terminate E a M) (\<lambda>(_, M). Inr M)
         else if s_state s = STATE_SENTTERMINATE \<or> s_state s = STATE_RECEIVEDTERMINATE then DestroySession E a M
         else Inr M
     | MSG_TIMEOUT \<Rightarrow> Inr M))"

text \<open>The thread takes a message from the queue. The delay of \<open>MSG_TIMEOUT\<close> is not modelled: any message may be next.\<close>

definition take_message :: "'x Env \<Rightarrow> nat \<Rightarrow> 'x Manager \<Rightarrow> 'x Manager exec" where
  "take_message E i M =
     (case sm_posted M ! i of (a, m) \<Rightarrow> Session_OnMessage E a m (M\<lparr>sm_posted := take i (sm_posted M) @ drop (Suc i) (sm_posted M)\<rparr>))"

definition OnTransportWritable :: "nat \<Rightarrow> bool \<Rightarrow> 'x Manager \<Rightarrow> 'x Manager exec" where
  "OnTransportWritable a waiting M =
     andThen (getS M a) (\<lambda>_.
     let M = M\<lparr>sm_posted := filter (\<lambda>p. p \<noteq> (a, MSG_TIMEOUT)) (sm_posted M)\<rparr> in Inr (if waiting then post a MSG_TIMEOUT M else M))"

fun update_proxy :: "string \<Rightarrow> (TransportProxy \<Rightarrow> TransportProxy) \<Rightarrow> (string \<times> TransportProxy) list \<Rightarrow> (string \<times> TransportProxy) list" where
  "update_proxy name f [] = []"
| "update_proxy name f ((n, px) # pxs) = (if n = name then (n, f px) # pxs else (n, px) # update_proxy name f pxs)"

definition OnTransportProxyCandidatesReady :: "'x Env \<Rightarrow> nat \<Rightarrow> string \<Rightarrow> string list \<Rightarrow> 'x Manager \<Rightarrow> 'x Manager exec" where
  "OnTransportProxyCandidatesReady E a name candidates M =
     andThen (getS M a) (\<lambda>s.
     case map_of (s_proxies s) name of
       None \<Rightarrow> Inr M
     | Some px \<Rightarrow>
         if s_initiator s \<and> \<not> s_initiate_acked s then
           Inr (setS a (s\<lparr>s_proxies := update_proxy name (\<lambda>px. px\<lparr>px_unsent_candidates := px_unsent_candidates px @ candidates\<rparr>) (s_proxies s)\<rparr>) M)
         else
           let s = (if \<not> px_negotiated px then
                      s\<lparr>s_proxies := update_proxy name (\<lambda>px. px\<lparr>px_sent_candidates := px_sent_candidates px @ candidates\<rparr>) (s_proxies s)\<rparr> else s)
           in Inr (snd (SendTransportInfoMessage E name candidates s (setS a s M))))"

subsection \<open>Calls of the application and of channels\<close>

text \<open>\<open>sid\<close> is the random identifier of the new session.\<close>

definition CreateTunnel :: "'x Env \<Rightarrow> string \<Rightarrow> string \<Rightarrow> string \<Rightarrow> 'x Manager \<Rightarrow> (bool \<times> 'x Manager) exec" where
  "CreateTunnel E sid dest description M =
     (case CreateOffer E description of
        None \<Rightarrow> Inr (False, M)
      | Some offer \<Rightarrow>
          andThen (CreateSession (tc_jid M) (tc_jid M) sid (tc_namespace M) False M) (\<lambda>(a, M).
          andThen (MakeTunnelSession a M) (\<lambda>(tn, M).
          andThen (Initiate E a dest offer (M\<lparr>tc_sessions := tc_sessions M @ [tn]\<rparr>)) (\<lambda>(_, M).
          andThen (GetStream a M) (\<lambda>M. Inr (True, M))))))"

definition OnChannelClosed :: "'x Env \<Rightarrow> nat \<Rightarrow> 'x Manager \<Rightarrow> 'x Manager exec" where
  "OnChannelClosed E a M = andThen (Terminate E a M) (\<lambda>(_, M). Inr M)"

subsection \<open>Start and end\<close>

definition new_SessionManager :: "'x Manager" where
  "new_SessionManager = \<lparr>sm_objects = (\<lambda>_. None), sm_fresh = 0, sm_session_map = [], sm_client_map = [], sm_posted = [], sm_out = [],
     tc_jid = [], tc_namespace = [], tc_sessions = [], tc_shutdown = False\<rparr>"

definition new_TunnelSessionClient :: "string \<Rightarrow> string \<Rightarrow> 'x Manager \<Rightarrow> 'x Manager exec" where
  "new_TunnelSessionClient jid ns M = AddClient ns (M\<lparr>tc_jid := jid, tc_namespace := ns, tc_sessions := [], tc_shutdown := False\<rparr>)"

fun release_all :: "'x Env \<Rightarrow> TunnelSession list \<Rightarrow> 'x Manager \<Rightarrow> 'x Manager exec" where
  "release_all E [] M = Inr M"
| "release_all E (tn # ts) M = andThen (ReleaseSession tn M) (\<lambda>(a, M). andThen (DestroySession E a M) (release_all E ts))"

text \<open>The destructor of the client: the tunnels are deleted and the vector goes with it.\<close>

definition delete_client :: "'x Env \<Rightarrow> 'x Manager \<Rightarrow> 'x Manager exec" where
  "delete_client E M =
     andThen (release_all E (tc_sessions M) (M\<lparr>tc_shutdown := True\<rparr>)) (\<lambda>M. RemoveClient (tc_namespace M) (M\<lparr>tc_sessions := []\<rparr>))"

partial_function (option) TerminateAll :: "'x Env \<Rightarrow> 'x Manager \<Rightarrow> 'x Manager exec option" where
  "TerminateAll E M =
     (case sm_session_map M of
        [] \<Rightarrow> Some (Inr M)
      | (_, a) # _ \<Rightarrow> (case Terminate E a M of Inl e \<Rightarrow> Some (Inl e) | Inr (_, M) \<Rightarrow> TerminateAll E M))"

definition delete_Manager :: "'x Manager \<Rightarrow> unit exec" where
  "delete_Manager M = ASSERT (sm_session_map M = [])"

end
