(* ===== verification/TunnelSessionProps.thy ===== *)
theory TunnelSessionProps
  imports TunnelSession
begin

text \<open>
  What the signalling of tunnels keeps: the map of the manager, the session objects, the tunnels of the client and the posted messages agree after every call, no call
  faults, the states of a session follow a machine, and every session that was rejected, terminated or accepted has the message posted that finishes the work.
\<close>

subsection \<open>The invariant\<close>

definition tunnel_ok :: "TunnelSession \<Rightarrow> bool" where
  "tunnel_ok tn \<longleftrightarrow> tn_session tn \<noteq> None \<and> tn_channel tn \<noteq> None"

definition wired :: "'x Manager \<Rightarrow> bool" where
  "wired M \<longleftrightarrow>
     map_inv (sm_session_map M) \<and>
     (\<forall>sid a. map_of (sm_session_map M) sid = Some a \<longleftrightarrow> (\<exists>s. sm_objects M a = Some s \<and> s_id s = sid)) \<and>
     list_all tunnel_ok (tc_sessions M) \<and> distinct (map tn_session (tc_sessions M)) \<and>
     (\<forall>a. Some a \<in> tn_session ` set (tc_sessions M) \<longleftrightarrow> sm_objects M a \<noteq> None) \<and>
     (\<forall>p \<in> set (sm_posted M). sm_objects M (fst p) \<noteq> None) \<and>
     (\<forall>a. sm_objects M a \<noteq> None \<longrightarrow> a < sm_fresh M) \<and> \<not> tc_shutdown M \<and> tc_namespace M \<in> set (sm_client_map M)"

text \<open>States in which the session waits for its own \<open>MSG_STATE\<close>.\<close>

definition settling :: "State set" where
  "settling = {STATE_SENTACCEPT, STATE_RECEIVEDACCEPT, STATE_SENTREJECT, STATE_RECEIVEDREJECT, STATE_SENTTERMINATE, STATE_RECEIVEDTERMINATE}"

definition sess_ok :: "(nat \<times> SessionMsg) list \<Rightarrow> nat \<Rightarrow> Session \<Rightarrow> bool" where
  "sess_ok posted a s \<longleftrightarrow>
     s_listener s \<and> s_state s \<noteq> STATE_DEINIT \<and> s_state s \<noteq> STATE_RECEIVEDMODIFY \<and>
     (initiator_description s = None \<longrightarrow> s_remote_name s = []) \<and>
     (s_state s = STATE_RECEIVEDINITIATE \<longrightarrow> s_remote_description s \<noteq> None) \<and>
     (s_state s = STATE_SENTINITIATE \<longrightarrow> s_local_description s \<noteq> None) \<and>
     (s_state s \<in> settling \<longrightarrow> (a, MSG_STATE) \<in> set posted)"

definition books :: "'x Manager \<Rightarrow> bool" where
  "books M \<longleftrightarrow> wired M \<and> (\<forall>a s. sm_objects M a = Some s \<longrightarrow> sess_ok (sm_posted M) a s)"

text \<open>The machine of the states.\<close>

inductive state_move :: "State \<Rightarrow> State \<Rightarrow> bool" where
  "state_move STATE_INIT STATE_SENTINITIATE"
| "state_move STATE_INIT STATE_RECEIVEDINITIATE"
| "state_move STATE_SENTINITIATE STATE_RECEIVEDACCEPT"
| "state_move STATE_SENTINITIATE STATE_RECEIVEDREJECT"
| "state_move STATE_RECEIVEDINITIATE STATE_SENTACCEPT"
| "state_move STATE_RECEIVEDINITIATE STATE_SENTREJECT"
| "state_move STATE_SENTACCEPT STATE_INPROGRESS"
| "state_move STATE_RECEIVEDACCEPT STATE_INPROGRESS"
| "st \<noteq> STATE_SENTTERMINATE \<Longrightarrow> st \<noteq> STATE_RECEIVEDTERMINATE \<Longrightarrow> state_move st STATE_SENTTERMINATE"
| "state_move st STATE_RECEIVEDTERMINATE"

text \<open>What a call on one session leaves alone.\<close>

definition obj_move :: "nat \<Rightarrow> (nat \<Rightarrow> Session option) \<Rightarrow> (nat \<Rightarrow> Session option) \<Rightarrow> bool" where
  "obj_move a f g \<longleftrightarrow>
     (\<exists>s s'. f a = Some s \<and> g = f(a \<mapsto> s') \<and> s_id s' = s_id s \<and> s_listener s' = s_listener s \<and> s_initiator s' = s_initiator s \<and>
        state_move\<^sup>*\<^sup>* (s_state s) (s_state s'))"

definition on_session :: "nat \<Rightarrow> 'x Manager \<Rightarrow> 'x Manager \<Rightarrow> bool" where
  "on_session a M M' \<longleftrightarrow>
     obj_move a (sm_objects M) (sm_objects M') \<and>
     sm_session_map M' = sm_session_map M \<and> sm_fresh M' = sm_fresh M \<and> sm_client_map M' = sm_client_map M \<and> tc_shutdown M' = tc_shutdown M \<and>
     tc_namespace M' = tc_namespace M \<and> tc_jid M' = tc_jid M \<and>
     map tn_session (tc_sessions M') = map tn_session (tc_sessions M) \<and> (list_all tunnel_ok (tc_sessions M) \<longrightarrow> list_all tunnel_ok (tc_sessions M')) \<and>
     (\<exists>ms. sm_posted M' = sm_posted M @ map (Pair a) ms)"

lemma obj_move_refl: "f a \<noteq> None \<Longrightarrow> obj_move a f f"
  by (auto simp: obj_move_def) (metis fun_upd_triv rtranclp.rtrancl_refl)

lemma obj_move_trans:
  assumes "obj_move a f g" and "obj_move a g h"
  shows "obj_move a f h"
proof -
  obtain s t where s: "f a = Some s" "g = f(a \<mapsto> t)" "s_id t = s_id s" "s_listener t = s_listener s" "s_initiator t = s_initiator s" "state_move\<^sup>*\<^sup>* (s_state s) (s_state t)"
    using assms(1) unfolding obj_move_def by blast
  obtain t' u where u: "g a = Some t'" "h = g(a \<mapsto> u)" "s_id u = s_id t'" "s_listener u = s_listener t'" "s_initiator u = s_initiator t'"
    "state_move\<^sup>*\<^sup>* (s_state t') (s_state u)"
    using assms(2) unfolding obj_move_def by blast
  have "t' = t" using s(2) u(1) by simp
  then show ?thesis unfolding obj_move_def using s u by (intro exI [of _ s] exI [of _ u]) (auto intro: rtranclp_trans)
qed

lemma posted_refl: "\<exists>ms. posted = posted @ map (Pair a) ms"
  by (rule exI [of _ "[]"]) simp

lemma on_session_refl: "sm_objects M a \<noteq> None \<Longrightarrow> on_session a M M"
  by (simp add: on_session_def obj_move_refl posted_refl)

lemma on_session_trans:
  assumes "on_session a M M1" and "on_session a M1 M2"
  shows "on_session a M M2"
proof -
  obtain ms ms' where "sm_posted M1 = sm_posted M @ map (Pair a) ms" "sm_posted M2 = sm_posted M1 @ map (Pair a) ms'"
    using assms unfolding on_session_def by blast
  then have "sm_posted M2 = sm_posted M @ map (Pair a) (ms @ ms')" by simp
  then show ?thesis using assms obj_move_trans unfolding on_session_def by (metis (no_types, lifting))
qed

lemma on_session_wired:
  assumes "wired M" and "on_session a M M'"
  shows "wired M'"
proof -
  from assms(2) obtain s s' ms where m: "sm_objects M a = Some s" "sm_objects M' = (sm_objects M)(a \<mapsto> s')" "s_id s' = s_id s"
    "sm_posted M' = sm_posted M @ map (Pair a) ms" "sm_session_map M' = sm_session_map M" "sm_fresh M' = sm_fresh M" "sm_client_map M' = sm_client_map M"
    "tc_shutdown M' = tc_shutdown M" "tc_namespace M' = tc_namespace M" "map tn_session (tc_sessions M') = map tn_session (tc_sessions M)"
    "list_all tunnel_ok (tc_sessions M) \<longrightarrow> list_all tunnel_ok (tc_sessions M')"
    unfolding on_session_def obj_move_def by auto
  have t: "tn_session ` set (tc_sessions M') = tn_session ` set (tc_sessions M)" using arg_cong [OF m(10), of set] by simp
  show ?thesis using assms(1) unfolding wired_def t m(5-10) by (auto simp: m(1-4,11))
qed

lemma sess_ok_more: "sess_ok posted a s \<Longrightarrow> set posted \<subseteq> set posted' \<Longrightarrow> sess_ok posted' a s"
  by (auto simp: sess_ok_def)

text \<open>The books without the posted message of one session.\<close>

definition books_but :: "nat \<Rightarrow> 'x Manager \<Rightarrow> bool" where
  "books_but a M \<longleftrightarrow>
     wired M \<and> (\<forall>b s. sm_objects M b = Some s \<longrightarrow> b \<noteq> a \<longrightarrow> sess_ok (sm_posted M) b s) \<and>
     (\<forall>s. sm_objects M a = Some s \<longrightarrow> sess_ok ((a, MSG_STATE) # sm_posted M) a s)"

lemma books_but: "books M \<Longrightarrow> books_but a M"
  using sess_ok_more [of "sm_posted M" a _ "(a, MSG_STATE) # sm_posted M"] unfolding books_def books_but_def by auto

lemma on_session_books:
  assumes "books_but a M" and "on_session a M M'" and "\<And>s'. sm_objects M' a = Some s' \<Longrightarrow> sess_ok (sm_posted M') a s'"
  shows "books M'"
  unfolding books_def
proof (intro conjI allI impI)
  show "wired M'" using on_session_wired assms(1,2) by (auto simp: books_but_def)
  fix b s assume b: "sm_objects M' b = Some s"
  show "sess_ok (sm_posted M') b s"
  proof (cases "b = a")
    case False
    then have "sm_objects M b = Some s" "set (sm_posted M) \<subseteq> set (sm_posted M')" using b assms(2) unfolding on_session_def obj_move_def by auto
    moreover have "sess_ok (sm_posted M) b s" using assms(1) False \<open>sm_objects M b = Some s\<close> unfolding books_but_def by simp
    ultimately show ?thesis using sess_ok_more by blast
  qed (use b assms(3) in simp)
qed

definition op_ok :: "nat \<Rightarrow> 'x Manager \<Rightarrow> 'x Manager exec \<Rightarrow> bool" where
  "op_ok a M r \<longleftrightarrow> (\<exists>M'. r = Inr M' \<and> on_session a M M' \<and> books M')"

definition op_ok2 :: "nat \<Rightarrow> 'x Manager \<Rightarrow> ('b \<times> 'x Manager) exec \<Rightarrow> bool" where
  "op_ok2 a M r \<longleftrightarrow> (\<exists>b M'. r = Inr (b, M') \<and> on_session a M M' \<and> books M')"

lemma op_ok_bind: "op_ok a M r \<Longrightarrow> (\<And>M'. on_session a M M' \<Longrightarrow> books M' \<Longrightarrow> op_ok a M' (f M')) \<Longrightarrow> op_ok a M (andThen r f)"
  unfolding op_ok_def by (metis andThen_Inr on_session_trans)

lemma op_ok2_bind: "op_ok2 a M r \<Longrightarrow> (\<And>b M'. on_session a M M' \<Longrightarrow> books M' \<Longrightarrow> op_ok a M' (f (b, M'))) \<Longrightarrow> op_ok a M (andThen r f)"
  unfolding op_ok_def op_ok2_def by (metis andThen_Inr on_session_trans)

lemma op_ok_bind2: "op_ok a M r \<Longrightarrow> (\<And>M'. on_session a M M' \<Longrightarrow> books M' \<Longrightarrow> op_ok2 a M' (f M')) \<Longrightarrow> op_ok2 a M (andThen r f)"
  unfolding op_ok_def op_ok2_def by (metis andThen_Inr on_session_trans)

lemma op_ok2_bind2: "op_ok2 a M r \<Longrightarrow> (\<And>b M'. on_session a M M' \<Longrightarrow> books M' \<Longrightarrow> op_ok2 a M' (f (b, M'))) \<Longrightarrow> op_ok2 a M (andThen r f)"
  unfolding op_ok2_def by (metis andThen_Inr on_session_trans)

lemma op_ok_Inr: "books M \<Longrightarrow> sm_objects M a \<noteq> None \<Longrightarrow> op_ok a M (Inr M)" "books M \<Longrightarrow> sm_objects M a \<noteq> None \<Longrightarrow> op_ok2 a M (Inr (b, M))"
  by (auto simp: op_ok_def op_ok2_def on_session_refl)

lemma on_session_obj: "on_session a M M' \<Longrightarrow> sm_objects M' a \<noteq> None"
  by (auto simp: on_session_def obj_move_def)

lemma on_session_other: "on_session a M M' \<Longrightarrow> b \<noteq> a \<Longrightarrow> sm_objects M' b = sm_objects M b"
  by (auto simp: on_session_def obj_move_def)

subsection \<open>Elementary steps\<close>

lemma getS_eq [simp]: "sm_objects M a = Some s \<Longrightarrow> getS M a = Inr s"
  by (simp add: getS_def)

lemma setS_sel [simp]: "sm_objects (setS a s M) = (sm_objects M)(a \<mapsto> s)" "sm_posted (setS a s M) = sm_posted M" "tc_sessions (setS a s M) = tc_sessions M"
  by (simp_all add: setS_def)

lemma emit_sel [simp]: "sm_objects (emit st M) = sm_objects M" "sm_posted (emit st M) = sm_posted M" "tc_sessions (emit st M) = tc_sessions M"
  by (simp_all add: emit_def)

lemma post_sel [simp]: "sm_objects (post a m M) = sm_objects M" "sm_posted (post a m M) = sm_posted M @ [(a, m)]"
  by (simp_all add: post_def)

lemma setS_on_session:
  assumes "sm_objects M a = Some s" and "s_id s' = s_id s" and "s_listener s' = s_listener s" and "s_initiator s' = s_initiator s"
    and "state_move\<^sup>*\<^sup>* (s_state s) (s_state s')"
  shows "on_session a M (setS a s' M)"
  using assms by (auto simp: on_session_def setS_def obj_move_def posted_refl)

lemma post_on_session: "sm_objects M a \<noteq> None \<Longrightarrow> on_session a M (post a m M)"
  by (simp add: on_session_def post_def obj_move_refl) (rule exI [of _ "[m]"], simp)

lemma emit_on_session: "sm_objects M a \<noteq> None \<Longrightarrow> on_session a M (emit st M)"
  by (simp add: on_session_def emit_def obj_move_refl posted_refl)

lemma books_emit: "books (emit st M) = books M"
  by (simp add: books_def wired_def emit_def)

lemma find_tunnel_found:
  assumes "list_all tunnel_ok ts" and "Some a \<in> tn_session ` set ts"
  shows "\<exists>i < length ts. find_tunnel ts a = Inr (Some i) \<and> tn_session (ts ! i) = Some a"
  using assms by (induction ts) (auto simp: HasSession_def tunnel_ok_def)

lemma find_tunnel_absent:
  assumes "list_all tunnel_ok ts" and "Some a \<notin> tn_session ` set ts"
  shows "find_tunnel ts a = Inr None"
  using assms by (induction ts) (auto simp: HasSession_def tunnel_ok_def)

lemma call_channel_ok:
  assumes "wired M" and "sm_objects M a = Some s"
  shows "\<exists>M'. call_channel a c M = Inr M' \<and> on_session a M M' \<and> sm_objects M' = sm_objects M \<and> sm_posted M' = sm_posted M"
proof -
  have ok: "list_all tunnel_ok (tc_sessions M)" "Some a \<in> tn_session ` set (tc_sessions M)" using assms by (auto simp: wired_def)
  then obtain i where i: "i < length (tc_sessions M)" "find_tunnel (tc_sessions M) a = Inr (Some i)" "tn_session (tc_sessions M ! i) = Some a"
    using find_tunnel_found by blast
  obtain cs where cs: "tn_channel (tc_sessions M ! i) = Some cs" using ok(1) i(1) by (auto simp: list_all_length tunnel_ok_def)
  let ?tn = "(tc_sessions M ! i)\<lparr>tn_channel := Some (cs @ [c])\<rparr>"
  have "map tn_session ((tc_sessions M)[i := ?tn]) = map tn_session (tc_sessions M)" using i(1) by (simp add: map_update list_update_same_conv)
  moreover have "list_all tunnel_ok ((tc_sessions M)[i := ?tn])" using ok(1) i by (auto simp: list_all_length nth_list_update tunnel_ok_def)
  ultimately show ?thesis using assms(2) i cs by (simp add: call_channel_def on_session_def obj_move_refl posted_refl)
qed

lemma SendMessage_cases:
  obtains "SendMessage type s elems M = (False, M)" | st where "SendMessage type s elems M = (True, emit st M)"
  by (cases elems) (auto simp: SendMessage_def)

lemma books_obj: "books M \<Longrightarrow> sm_objects M a = Some s \<Longrightarrow> sess_ok (sm_posted M) a s"
  by (simp add: books_def)

lemma books_set:
  assumes "books M" and "sm_objects M a = Some s" and "s_id s' = s_id s" and "s_listener s' = s_listener s" and "s_initiator s' = s_initiator s"
    and "state_move\<^sup>*\<^sup>* (s_state s) (s_state s')" and "sess_ok (sm_posted M) a s'"
  shows "books (setS a s' M)" and "on_session a M (setS a s' M)"
proof -
  show o: "on_session a M (setS a s' M)" using assms by (intro setS_on_session)
  show "books (setS a s' M)" by (rule on_session_books [OF books_but [OF assms(1)] o]) (use assms(7) in simp)
qed

lemma books_post:
  assumes "books M" and "sm_objects M a \<noteq> None"
  shows "books (post a m M)"
proof (rule on_session_books [OF books_but [OF assms(1)] post_on_session [OF assms(2)]])
  fix s assume "sm_objects (post a m M) a = Some s"
  then show "sess_ok (sm_posted (post a m M)) a s" by (intro sess_ok_more [OF books_obj [OF assms(1)]]) auto
qed

text \<open>Updates of the other fields of a session.\<close>

definition core :: "Session \<Rightarrow> string \<times> bool \<times> bool \<times> State \<times> SessionDescription option \<times> SessionDescription option \<times> string" where
  "core s = (s_id s, s_listener s, s_initiator s, s_state s, s_local_description s, s_remote_description s, s_remote_name s)"

lemma books_same:
  assumes "books M" and "sm_objects M a = Some s" and "core s' = core s"
  shows "books (setS a s' M)" and "on_session a M (setS a s' M)"
proof -
  have "initiator_description s' = initiator_description s" using assms(3) by (simp add: initiator_description_def core_def)
  then have "sess_ok (sm_posted M) a s'" using books_obj [OF assms(1,2)] assms(3) by (simp add: sess_ok_def core_def)
  then show "books (setS a s' M)" and "on_session a M (setS a s' M)" using books_set [OF assms(1,2), of s'] assms(3) by (simp_all add: core_def)
qed

text \<open>What a state needs of the session that enters it.\<close>

definition may_enter :: "'x Env \<Rightarrow> nat \<Rightarrow> State \<Rightarrow> Session \<Rightarrow> bool" where
  "may_enter E a st s \<longleftrightarrow>
     st \<noteq> STATE_DEINIT \<and> st \<noteq> STATE_RECEIVEDMODIFY \<and> st \<noteq> STATE_RECEIVEDINITIATE \<and> (st = STATE_SENTINITIATE \<longrightarrow> s_local_description s \<noteq> None) \<and>
     (st \<in> {STATE_SENTACCEPT, STATE_RECEIVEDACCEPT} \<longrightarrow>
        e_connect E a \<and> (\<exists>sd. s_remote_description s = Some sd \<and> FirstContentByType sd NS_TUNNEL \<noteq> None))"

lemma OnAccept_ok:
  assumes "wired M" and "sm_objects M a = Some s" and "s_remote_description s = Some sd" and "FirstContentByType sd NS_TUNNEL = Some c" and "e_connect E a"
  shows "\<exists>M'. OnAccept E a M = Inr M' \<and> on_session a M M' \<and> sm_objects M' = sm_objects M \<and> sm_posted M' = sm_posted M"
proof -
  obtain M' where "call_channel a (Call_Connect (ci_name c)) M = Inr M' \<and> on_session a M M' \<and> sm_objects M' = sm_objects M \<and> sm_posted M' = sm_posted M"
    using call_channel_ok [OF assms(1,2)] by blast
  then show ?thesis using assms by (simp add: OnAccept_def)
qed

lemma OnSessionState_ok:
  assumes "wired M" and "sm_objects M a = Some s" and "may_enter E a st s"
  shows "\<exists>M'. OnSessionState E f a st M = Inr M' \<and> on_session a M M' \<and> sm_objects M' = sm_objects M \<and> sm_posted M' = sm_posted M"
proof -
  have n: "\<exists>M'. Inr M = (Inr M' :: 'a Manager exec) \<and> on_session a M M' \<and> sm_objects M' = sm_objects M \<and> sm_posted M' = sm_posted M"
    using on_session_refl [of M a] assms(2) by auto
  have t: "\<exists>M'. OnTerminate a M = Inr M' \<and> on_session a M M' \<and> sm_objects M' = sm_objects M \<and> sm_posted M' = sm_posted M"
    unfolding OnTerminate_def by (rule call_channel_ok [OF assms(1,2)])
  have c: "st \<in> {STATE_SENTACCEPT, STATE_RECEIVEDACCEPT} \<Longrightarrow>
      \<exists>M'. OnAccept E a M = Inr M' \<and> on_session a M M' \<and> sm_objects M' = sm_objects M \<and> sm_posted M' = sm_posted M"
    using assms(3) OnAccept_ok [OF assms(1,2)] unfolding may_enter_def by blast
  show ?thesis using n t c assms(3) by (cases st) (simp_all add: OnSessionState_def may_enter_def)
qed

lemma SetState_enter:
  assumes "books_but a M" and "sm_objects M a = Some s" and "may_enter E a st s" and "state_move (s_state s) st" and "st \<noteq> s_state s"
  shows "op_ok a M (SetState E a st M)"
proof -
  have sok: "sess_ok ((a, MSG_STATE) # sm_posted M) a s" using assms(1,2) by (auto simp: books_but_def)
  let ?s = "s\<lparr>s_state := st\<rparr>"
  let ?M1 = "setS a ?s M"
  have o1: "on_session a M ?M1" using assms(2,4) by (intro setS_on_session) auto
  have w: "wired ?M1" using on_session_wired assms(1) o1 by (auto simp: books_but_def)
  have m: "may_enter E a st ?s" using assms(3) by (simp add: may_enter_def)
  obtain M2 where M2: "OnSessionState E (\<lambda>_. Inr) a st ?M1 = Inr M2" "on_session a ?M1 M2" "sm_objects M2 = sm_objects ?M1" "sm_posted M2 = sm_posted ?M1"
    using OnSessionState_ok [OF w _ m] by fastforce
  have o3: "on_session a M (post a MSG_STATE M2)"
    using on_session_trans [OF on_session_trans [OF o1 M2(2)] post_on_session] on_session_obj [OF M2(2)] by blast
  have "sess_ok (sm_posted (post a MSG_STATE M2)) a ?s" using sok assms(3) by (auto simp: sess_ok_def may_enter_def initiator_description_def)
  then have "books (post a MSG_STATE M2)" using on_session_books [OF assms(1) o3] M2(3) by simp
  moreover have "SetState E a st M = Inr (post a MSG_STATE M2)"
    using assms(2,5) M2(1) sok by (simp add: SetState_def SetState_with_def Let_def sess_ok_def)
  ultimately show ?thesis using o3 by (auto simp: op_ok_def)
qed

lemma SetState_ok:
  assumes "books M" and "sm_objects M a = Some s" and "may_enter E a st s" and "state_move (s_state s) st"
  shows "op_ok a M (SetState E a st M)"
proof (cases "st = s_state s")
  case True
  then show ?thesis using assms(1,2) by (simp add: SetState_def SetState_with_def op_ok_Inr)
qed (use SetState_enter [OF books_but [OF assms(1)] assms(2-4)] in simp)

lemma SetError_ok: "books M \<Longrightarrow> sm_objects M a = Some s \<Longrightarrow> op_ok a M (SetError a e M)"
proof -
  assume M: "books M" "sm_objects M a = Some s"
  let ?M1 = "setS a (s\<lparr>s_error := e\<rparr>) M"
  have b: "books ?M1" "on_session a M ?M1" using books_same [OF M, of "s\<lparr>s_error := e\<rparr>"] by (simp_all add: core_def)
  have o: "on_session a ?M1 (post a MSG_ERROR ?M1)" by (intro post_on_session) simp
  have "books (post a MSG_ERROR ?M1)" using b(1) by (intro books_post) simp_all
  then show ?thesis using b o M on_session_trans by (auto simp: op_ok_def SetError_def modS_def)
qed

subsection \<open>The calls of a session\<close>

lemma emit_ok: "books M \<Longrightarrow> sm_objects M a \<noteq> None \<Longrightarrow> books (emit st M) \<and> on_session a M (emit st M)"
  by (simp add: books_emit emit_on_session)

lemma op_ok_emit: "op_ok a (emit st M) r \<Longrightarrow> sm_objects M a \<noteq> None \<Longrightarrow> op_ok a M r"
  unfolding op_ok_def using on_session_trans emit_on_session by blast

lemma op_ok2_emit: "op_ok2 a (emit st M) r \<Longrightarrow> sm_objects M a \<noteq> None \<Longrightarrow> op_ok2 a M r"
  unfolding op_ok2_def using on_session_trans emit_on_session by blast

lemma op_ok2_set: "op_ok2 a (setS a s M) r \<Longrightarrow> on_session a M (setS a s M) \<Longrightarrow> op_ok2 a M r"
  unfolding op_ok2_def using on_session_trans by blast

lemma op_ok_set: "op_ok a (setS a s M) r \<Longrightarrow> on_session a M (setS a s M) \<Longrightarrow> op_ok a M r"
  unfolding op_ok_def using on_session_trans by blast

text \<open>A message is sent, and then the state changes.\<close>

lemma send_and_enter:
  assumes "books M" and "sm_objects M a = Some s" and "may_enter E a st s" and "state_move (s_state s) st"
  shows "op_ok2 a M (case SendMessage type s1 elems M of (sent, M) \<Rightarrow> if \<not> sent then Inr (False, M) else andThen (SetState E a st M) (\<lambda>M. Inr (True, M)))"
proof (cases rule: SendMessage_cases [of type s1 elems M])
  case 1
  then show ?thesis using assms by (simp add: op_ok_Inr)
next
  case (2 stz)
  have "op_ok a (emit stz M) (SetState E a st (emit stz M))" using assms by (intro SetState_ok) (simp_all add: books_emit)
  then have "op_ok2 a (emit stz M) (andThen (SetState E a st (emit stz M)) (\<lambda>M. Inr (True, M)))"
    by (rule op_ok_bind2) (auto intro: op_ok_Inr dest: on_session_obj)
  then show ?thesis using 2 op_ok2_emit assms(2) by fastforce
qed

lemma proxies_core: "core (snd (CreateTransportProxies ts s)) = core s"
  by (induction ts s rule: CreateTransportProxies.induct) (auto simp: core_def GetOrCreateTransportProxy_def)

lemma Initiate_ok:
  assumes "books M" and "sm_objects M a = Some s" and "s_initiator s"
  shows "op_ok2 a M (Initiate E a dest sdesc M)"
proof (cases "s_state s = STATE_INIT")
  case True
  obtain created s1 where c: "CreateTransportProxies (GetEmptyTransportInfos (sd_contents sdesc)) (s\<lparr>s_remote_name := dest, s_local_description := Some sdesc\<rparr>) = (created, s1)"
    by fastforce
  then have k: "core s1 = core (s\<lparr>s_remote_name := dest, s_local_description := Some sdesc\<rparr>)" using proxies_core by (metis snd_conv)
  then have "sess_ok (sm_posted M) a s1" using books_obj [OF assms(1,2)] True assms(3) by (auto simp: sess_ok_def core_def initiator_description_def settling_def)
  then have b: "books (setS a s1 M)" "on_session a M (setS a s1 M)" using books_set [OF assms(1,2), of s1] k by (simp_all add: core_def)
  show ?thesis
  proof (cases created)
    case True
    have m: "may_enter E a STATE_SENTINITIATE s1" using k by (simp add: may_enter_def core_def)
    have v: "state_move (s_state s1) STATE_SENTINITIATE" using k \<open>s_state s = STATE_INIT\<close> state_move.intros by (simp add: core_def)
    from op_ok2_set [OF send_and_enter [OF b(1) _ m v] b(2)] show ?thesis
      using assms(2) True c \<open>s_state s = STATE_INIT\<close> by (simp add: Initiate_def SendInitiateMessage_def Let_def)
  next
    case False
    then show ?thesis using assms(2) c \<open>s_state s = STATE_INIT\<close> b by (auto simp: Initiate_def Let_def op_ok2_def)
  qed
qed (use assms in \<open>simp add: Initiate_def op_ok_Inr\<close>)

lemma Accept_ok:
  assumes "books M" and "sm_objects M a = Some s" and "e_connect E a" and "s_remote_description s = Some sd" and "FirstContentByType sd NS_TUNNEL \<noteq> None"
  shows "op_ok2 a M (Accept E a sdesc M)"
proof (cases "s_state s = STATE_RECEIVEDINITIATE")
  case True
  let ?s = "s\<lparr>s_local_description := Some sdesc\<rparr>"
  have "sess_ok (sm_posted M) a ?s" using books_obj [OF assms(1,2)] by (auto simp: sess_ok_def initiator_description_def split: if_splits)
  then have b: "books (setS a ?s M)" "on_session a M (setS a ?s M)" using books_set [OF assms(1,2), of ?s] by simp_all
  have m: "may_enter E a STATE_SENTACCEPT ?s" using assms by (simp add: may_enter_def)
  have "state_move (s_state ?s) STATE_SENTACCEPT" using True state_move.intros by simp
  from op_ok2_set [OF send_and_enter [OF b(1) _ m this] b(2)] show ?thesis using assms(2) True by (simp add: Accept_def SendAcceptMessage_def Let_def)
qed (use assms in \<open>simp add: Accept_def op_ok_Inr\<close>)

lemma Reject_ok:
  assumes "books M" and "sm_objects M a = Some s" and "s_state s \<noteq> STATE_RECEIVEDMODIFY"
  shows "op_ok2 a M (Reject E a reason M)"
proof (cases "s_state s = STATE_RECEIVEDINITIATE")
  case True
  have m: "may_enter E a STATE_SENTREJECT s" by (simp add: may_enter_def)
  have "state_move (s_state s) STATE_SENTREJECT" using True state_move.intros by simp
  from send_and_enter [OF assms(1,2) m this] show ?thesis using assms(2) True by (simp add: Reject_def SendRejectMessage_def)
qed (use assms in \<open>simp add: Reject_def op_ok_Inr\<close>)

lemma TerminateWithReason_ok:
  assumes "books M" and "sm_objects M a = Some s"
  shows "op_ok2 a M (TerminateWithReason E a reason M)"
proof (cases "s_state s = STATE_SENTTERMINATE \<or> s_state s = STATE_RECEIVEDTERMINATE")
  case False
  have m: "may_enter E a STATE_SENTTERMINATE s" by (simp add: may_enter_def)
  have v: "state_move (s_state s) STATE_SENTTERMINATE" using False state_move.intros by blast
  show ?thesis
  proof (cases "s_state s = STATE_SENTREJECT \<or> s_state s = STATE_RECEIVEDREJECT")
    case True
    have "op_ok2 a M (andThen (SetState E a STATE_SENTTERMINATE M) (\<lambda>M. Inr (True, M)))"
      by (rule op_ok_bind2 [OF SetState_ok [OF assms m v]]) (auto intro: op_ok_Inr dest: on_session_obj)
    then show ?thesis using assms(2) False True by (simp add: TerminateWithReason_def)
  next
    case no: False
    then show ?thesis using send_and_enter [OF assms m v] assms(2) False by (simp add: TerminateWithReason_def SendTerminateMessage_def)
  qed
qed (use assms in \<open>simp add: TerminateWithReason_def op_ok_Inr\<close>)

subsection \<open>The tunnel client\<close>

lemma call_channel_books:
  assumes "books M" and "sm_objects M a = Some s"
  shows "op_ok a M (call_channel a c M)"
proof -
  have "wired M" using assms by (simp add: books_def)
  then obtain M' where M': "call_channel a c M = Inr M'" "on_session a M M'" "sm_objects M' = sm_objects M" "sm_posted M' = sm_posted M"
    using call_channel_ok assms(2) by blast
  have "books M'" using on_session_books [OF books_but [OF assms(1)] M'(2)] M'(3,4) books_obj [OF assms(1)] by simp
  then show ?thesis using M' by (auto simp: op_ok_def)
qed

lemma AcceptTunnel_ok:
  assumes "books M" and "sm_objects M a = Some s" and "e_connect E a" and "s_remote_description s = Some sd"
  shows "op_ok2 a M (AcceptTunnel E a M)"
proof -
  have "list_all tunnel_ok (tc_sessions M)" "Some a \<in> tn_session ` set (tc_sessions M)" using assms(1,2) by (auto simp: books_def wired_def)
  then obtain i where i: "find_tunnel (tc_sessions M) a = Inr (Some i)" using find_tunnel_found by blast
  show ?thesis
  proof (cases "CreateAnswer E sd")
    case None
    then show ?thesis using assms i by (simp add: AcceptTunnel_def op_ok_Inr)
  next
    case (Some answer)
    then have "FirstContentByType sd NS_TUNNEL \<noteq> None" by (auto simp: CreateAnswer_def FindTunnelContent_def split: option.splits)
    then have "op_ok2 a M (Accept E a answer M)" using assms by (intro Accept_ok)
    then have "op_ok2 a M (andThen (Accept E a answer M) (\<lambda>(_, M). andThen (GetStream a M) (\<lambda>M. Inr (True, M))))"
    proof (rule op_ok2_bind2, simp)
      fix M' assume o: "on_session a M M'" and b: "books M'"
      then obtain s' where s': "sm_objects M' a = Some s'" using on_session_obj by blast
      show "op_ok2 a M' (andThen (GetStream a M') (\<lambda>M. Inr (True, M)))"
        unfolding GetStream_def by (rule op_ok_bind2 [OF call_channel_books [OF b s']]) (auto intro: op_ok_Inr dest: on_session_obj)
    qed
    then show ?thesis using assms i Some by (simp add: AcceptTunnel_def)
  qed
qed

lemma drop_result: "op_ok2 a M r \<Longrightarrow> op_ok a M (andThen r (\<lambda>(_, M). Inr M))"
  by (erule op_ok2_bind) (auto intro: op_ok_Inr dest: on_session_obj)

lemma OnIncomingTunnel_ok:
  assumes "books M" and "sm_objects M a = Some s" and "e_connect E a" and "s_remote_description s = Some sd"
  shows "op_ok a M (OnIncomingTunnel E a M)"
proof -
  have n: "s_state s \<noteq> STATE_RECEIVEDMODIFY" using books_obj [OF assms(1,2)] by (simp add: sess_ok_def)
  have r: "op_ok a M (andThen (Reject E a reason M) (\<lambda>(_, M). Inr M))" for reason using drop_result [OF Reject_ok [OF assms(1,2) n]] .
  have t: "op_ok a M (andThen (AcceptTunnel E a M) (\<lambda>(_, M). Inr M))" using drop_result [OF AcceptTunnel_ok [OF assms]] .
  have i: "op_ok a M (Inr M)" using assms by (simp add: op_ok_Inr)
  show ?thesis
  proof (cases "FindTunnelContent sd")
    case (Some nd)
    then show ?thesis using assms(2,4) r t i
      by (cases nd; cases "e_incoming E (s_remote_name s) (snd nd)") (simp_all add: OnIncomingTunnel_def DeclineTunnel_def)
  qed (use assms(2,4) r in \<open>simp add: OnIncomingTunnel_def\<close>)
qed

subsection \<open>Messages\<close>

lemma emits_ok:
  assumes "sm_objects M a \<noteq> None"
  shows "on_session a M (fold emit sts M) \<and> sm_objects (fold emit sts M) = sm_objects M \<and> books (fold emit sts M) = books M"
  using assms
proof (induction sts arbitrary: M)
  case (Cons st sts)
  have o: "on_session a M (emit st M)" using Cons.prems by (rule emit_on_session)
  have "sm_objects (emit st M) a \<noteq> None" using Cons.prems by simp
  from Cons.IH [OF this] on_session_trans [OF o] show ?case by (simp add: books_emit)
qed (simp add: on_session_refl)

lemma SendTransport_cases:
  obtains "SendTransportInfoMessage E n c s M = (False, M)" | st where "SendTransportInfoMessage E n c s M = (True, emit st M)"
  unfolding SendTransportInfoMessage_def by (rule SendMessage_cases)

lemma send_all_emits: "send_all E f g s pxs M = (r, pxs', M') \<Longrightarrow> \<exists>sts. M' = fold emit sts M"
proof (induction E f g s pxs M arbitrary: r pxs' M' rule: send_all.induct)
  case (1 E f g s M)
  then show ?case by (auto intro: exI [of _ "[]"])
next
  case (2 E f g s name px pxs M)
  show ?case
  proof (cases "f px = []")
    case True
    then show ?thesis using 2 by (auto split: prod.splits)
  next
    case False
    note step = 2(3) and IH = 2(1)
    show ?thesis
    proof (cases rule: SendTransport_cases [of E name "f px" s M])
      case 1
      then have "M' = M" using step False by simp
      then show ?thesis by (intro exI [of _ "[]"]) simp
    next
      case (2 st)
      then obtain r1 p1 where "send_all E f g s pxs (emit st M) = (r1, p1, M')" using step False by (auto split: prod.splits)
      then obtain sts where "M' = fold emit sts (emit st M)" using IH [OF False 2 [symmetric]] by blast
      then show ?thesis by (intro exI [of _ "st # sts"]) simp
    qed
  qed
qed

lemma SendAll_ok:
  assumes "books M" and "sm_objects M a = Some s"
  shows "op_ok a M (SendAllUnsentTransportInfoMessages E a M)" and "op_ok2 a M (ResendAllTransportInfoMessages E a M)"
proof -
  have k: "books (setS a (s\<lparr>s_proxies := pxs\<rparr>) (fold emit sts M)) \<and> on_session a M (setS a (s\<lparr>s_proxies := pxs\<rparr>) (fold emit sts M))" for pxs sts
    using books_same [of "fold emit sts M" a s "s\<lparr>s_proxies := pxs\<rparr>"] emits_ok [of M a sts] assms on_session_trans by (fastforce simp: core_def)
  show "op_ok a M (SendAllUnsentTransportInfoMessages E a M)" "op_ok2 a M (ResendAllTransportInfoMessages E a M)"
    using assms(2) k send_all_emits unfolding op_ok_def op_ok2_def SendAllUnsentTransportInfoMessages_def ResendAllTransportInfoMessages_def
    by (auto split: prod.splits) blast+
qed

lemma OnInitiateAcked_ok:
  assumes "books M" and "sm_objects M a = Some s"
  shows "op_ok a M (OnInitiateAcked E a M)"
proof (cases "s_initiate_acked s")
  case False
  let ?M = "setS a (s\<lparr>s_initiate_acked := True\<rparr>) M"
  have b: "books ?M" "on_session a M ?M" using books_same [OF assms, of "s\<lparr>s_initiate_acked := True\<rparr>"] by (simp_all add: core_def)
  then show ?thesis using op_ok_set [OF SendAll_ok(1) [OF b(1)] b(2)] assms(2) False by (simp add: OnInitiateAcked_def)
qed (use assms in \<open>simp add: OnInitiateAcked_def op_ok_Inr\<close>)

lemma received_initiate_ok:
  assumes "books M" and "sm_objects M a = Some s" and "s_state s = STATE_INIT" and "s_remote_description s = Some sd" and "e_connect E a"
  shows "op_ok a M (SetState_with E (OnIncomingTunnel E) a STATE_RECEIVEDINITIATE M)"
proof -
  let ?s = "s\<lparr>s_state := STATE_RECEIVEDINITIATE\<rparr>"
  note sok = books_obj [OF assms(1,2)]
  have "sess_ok (sm_posted M) a ?s" using sok assms(4) by (auto simp: sess_ok_def initiator_description_def settling_def)
  moreover have "state_move (s_state s) (s_state ?s)" using assms(3) state_move.intros by simp
  ultimately have b: "books (setS a ?s M)" "on_session a M (setS a ?s M)" using books_set [OF assms(1,2), of ?s] by auto
  have "op_ok a (setS a ?s M) (OnIncomingTunnel E a (setS a ?s M))" by (rule OnIncomingTunnel_ok [OF b(1), of a ?s E sd]) (use assms(4,5) in auto)
  then have "op_ok a (setS a ?s M) (andThen (OnIncomingTunnel E a (setS a ?s M)) (\<lambda>M. Inr (post a MSG_STATE M)))"
    by (rule op_ok_bind) (auto simp: op_ok_def books_post post_on_session dest: on_session_obj)
  then show ?thesis using op_ok_set b(2) assms(2,3) sok by (simp add: SetState_with_def Let_def sess_ok_def OnSessionState_def)
qed

text \<open>The last step of a handler looks at the session once more.\<close>

lemma look_again: "books M \<Longrightarrow> sm_objects M a \<noteq> None \<Longrightarrow> op_ok2 a M (andThen (getS M a) (\<lambda>s. Inr (f s, M)))"
  by (auto simp: op_ok_Inr)

lemma OnInitiateMessage_ok:
  assumes "books M" and "sm_objects M a = Some s" and "e_connect E a" and "s_initiator s \<longrightarrow> s_local_description s \<noteq> None"
  shows "op_ok2 a M (OnInitiateMessage E a msg M)"
proof -
  note sok = books_obj [OF assms(1,2)]
  have i: "op_ok2 a M (Inr (False, M))" using assms by (simp add: op_ok_Inr)
  show ?thesis
  proof (cases "s_state s = STATE_INIT \<and> e_parse_initiate E (m_action msg) \<noteq> None")
    case True
    then obtain init where p: "e_parse_initiate E (m_action msg) = Some init" by blast
    obtain created s1 where c: "CreateTransportProxies (sd_transports init) s = (created, s1)" by fastforce
    then have k: "core s1 = core s" using proxies_core by (metis snd_conv)
    show ?thesis
    proof (cases created)
      case False
      then show ?thesis using books_same [OF assms(1,2) k] assms(2) True p c by (auto simp: OnInitiateMessage_def op_ok2_def)
    next
      case cr: True
      let ?s = "s1\<lparr>s_remote_name := m_from msg, s_initiator_name := m_initiator msg, s_remote_description := Some init\<rparr>"
      let ?M = "setS a ?s M"
      have "sess_ok (sm_posted M) a ?s" using sok k True assms(4) by (auto simp: sess_ok_def initiator_description_def core_def settling_def)
      then have b: "books ?M" "on_session a M ?M" using books_set [OF assms(1,2), of ?s] k by (simp_all add: core_def)
      have "op_ok a ?M (SetState_with E (OnIncomingTunnel E) a STATE_RECEIVEDINITIATE ?M)"
        by (rule received_initiate_ok [OF b(1)]) (use k True assms(3) in \<open>auto simp: core_def\<close>)
      then have "op_ok2 a ?M (andThen (SetState_with E (OnIncomingTunnel E) a STATE_RECEIVEDINITIATE ?M) (\<lambda>M. andThen (getS M a)
          (\<lambda>s. Inr (s_state s \<noteq> STATE_SENTREJECT \<longrightarrow> OnRemoteCandidates E (sd_transports init) s, M))))"
        by (rule op_ok_bind2) (auto intro: look_again dest: on_session_obj)
      then show ?thesis using op_ok2_set b(2) assms(2) True p c cr by (fastforce simp: OnInitiateMessage_def Let_def)
    qed
  qed (use i assms(2) in \<open>auto simp: OnInitiateMessage_def\<close>)
qed

lemma OnInitiateAcked_core:
  assumes "sm_objects M a = Some s" and "OnInitiateAcked E a M = Inr M'"
  shows "\<exists>s'. sm_objects M' a = Some s' \<and> core s' = core s"
proof (cases "s_initiate_acked s")
  case False
  let ?s = "s\<lparr>s_initiate_acked := True\<rparr>"
  obtain r pxs M1 where x: "send_all E px_unsent_candidates (\<lambda>px. px\<lparr>px_unsent_candidates := []\<rparr>) ?s (s_proxies ?s) (setS a ?s M) = (r, pxs, M1)"
    by (metis prod_cases3)
  have "M' = setS a (?s\<lparr>s_proxies := pxs\<rparr>) M1" using assms False x by (simp add: OnInitiateAcked_def SendAllUnsentTransportInfoMessages_def)
  then show ?thesis by (simp add: core_def)
qed (use assms in \<open>simp add: OnInitiateAcked_def\<close>)

lemma OnAcceptMessage_ok:
  assumes "books M" and "sm_objects M a = Some s" and "e_connect E a"
    and "\<And>sd. e_parse_accept E (m_action msg) = Some sd \<Longrightarrow> FirstContentByType sd NS_TUNNEL \<noteq> None"
  shows "op_ok2 a M (OnAcceptMessage E a msg M)"
proof (cases "s_state s = STATE_SENTINITIATE \<and> e_parse_accept E (m_action msg) \<noteq> None")
  case True
  then obtain sd where p: "e_parse_accept E (m_action msg) = Some sd" by blast
  obtain M1 where M1: "OnInitiateAcked E a M = Inr M1" "on_session a M M1" "books M1" using OnInitiateAcked_ok [OF assms(1,2)] by (auto simp: op_ok_def)
  obtain s1 where s1: "sm_objects M1 a = Some s1" "core s1 = core s" using OnInitiateAcked_core [OF assms(2) M1(1)] by blast
  let ?s = "s1\<lparr>s_remote_description := Some sd\<rparr>"
  let ?M = "setS a ?s M1"
  have "sess_ok (sm_posted M1) a ?s" using books_obj [OF M1(3) s1(1)] by (auto simp: sess_ok_def initiator_description_def split: if_splits)
  then have b: "books ?M" "on_session a M1 ?M" using books_set [OF M1(3) s1(1), of ?s] by simp_all
  have m: "may_enter E a STATE_RECEIVEDACCEPT ?s" using assms(3,4) p by (simp add: may_enter_def)
  have v: "state_move (s_state ?s) STATE_RECEIVEDACCEPT" using True s1(2) state_move.intros by (simp add: core_def)
  have "op_ok a ?M (SetState E a STATE_RECEIVEDACCEPT ?M)" by (rule SetState_ok [OF b(1) _ m v]) simp
  then have "op_ok2 a ?M (andThen (SetState E a STATE_RECEIVEDACCEPT ?M) (\<lambda>M. andThen (getS M a) (\<lambda>s. Inr (OnRemoteCandidates E (sd_transports sd) s, M))))"
    by (rule op_ok_bind2) (auto intro: look_again dest: on_session_obj)
  then have "op_ok2 a M1 (andThen (SetState E a STATE_RECEIVEDACCEPT ?M) (\<lambda>M. andThen (getS M a) (\<lambda>s. Inr (OnRemoteCandidates E (sd_transports sd) s, M))))"
    by (rule op_ok2_set [OF _ b(2)])
  then have "op_ok2 a M (andThen (SetState E a STATE_RECEIVEDACCEPT ?M) (\<lambda>M. andThen (getS M a) (\<lambda>s. Inr (OnRemoteCandidates E (sd_transports sd) s, M))))"
    unfolding op_ok2_def using on_session_trans [OF M1(2)] by blast
  then show ?thesis using True p M1(1) s1(1) assms(2) by (simp add: OnAcceptMessage_def modS_def)
next
  case False
  then show ?thesis using assms(1,2) by (auto simp: OnAcceptMessage_def op_ok_Inr)
qed

lemma enter_message_ok:
  assumes "books M" and "sm_objects M a = Some s" and "may_enter E a st s" and "state_move (s_state s) st"
  shows "op_ok2 a M (andThen (SetState E a st M) (\<lambda>M. Inr (True, M)))"
  by (rule op_ok_bind2 [OF SetState_ok [OF assms]]) (auto intro: op_ok_Inr dest: on_session_obj)

text \<open>What a peer must not do: accept without a tunnel, or send candidates to a session without a description.\<close>

definition message_ok :: "'x Env \<Rightarrow> 'x SessionMessage \<Rightarrow> Session \<Rightarrow> bool" where
  "message_ok E msg s \<longleftrightarrow>
     (s_state s = STATE_INIT \<or> m_from msg = s_remote_name s) \<and>
     (m_type msg = ACTION_SESSION_ACCEPT \<longrightarrow> (\<forall>sd. e_parse_accept E (m_action msg) = Some sd \<longrightarrow> FirstContentByType sd NS_TUNNEL \<noteq> None)) \<and>
     (m_type msg = ACTION_TRANSPORT_INFO \<longrightarrow> initiator_description s \<noteq> None) \<and> (s_initiator s \<longrightarrow> s_local_description s \<noteq> None)"

lemma dispatch_ok:
  assumes "books M" and "sm_objects M a = Some s" and "e_connect E a" and "message_ok E msg s"
  shows "op_ok2 a M (dispatch E a msg M)"
proof -
  have i: "op_ok2 a M (Inr (b, M))" for b :: bool using assms(1,2) by (simp add: op_ok_Inr)
  have n: "may_enter E a STATE_RECEIVEDREJECT s" "may_enter E a STATE_RECEIVEDTERMINATE s" by (simp_all add: may_enter_def)
  have r: "op_ok2 a M (OnRejectMessage E a M)"
    using i enter_message_ok [OF assms(1,2) n(1)] assms(2) state_move.intros(4) by (cases "s_state s = STATE_SENTINITIATE") (simp_all add: OnRejectMessage_def)
  have t: "op_ok2 a M (OnTerminateMessage E a msg M)"
    using i enter_message_ok [OF assms(1,2) n(2)] state_move.intros(10) by (simp add: OnTerminateMessage_def)
  have c: "op_ok2 a M (OnTransportInfoMessage E a msg M)" if "m_type msg = ACTION_TRANSPORT_INFO"
    using i assms(2,4) that by (auto simp: OnTransportInfoMessage_def message_ok_def split: option.splits)
  have d: "op_ok2 a M (OnDescriptionInfoMessage E a msg M)" using i assms(2) by (simp add: OnDescriptionInfoMessage_def)
  have x: "op_ok2 a M (OnAcceptMessage E a msg M)" if "m_type msg = ACTION_SESSION_ACCEPT"
    using assms that by (intro OnAcceptMessage_ok [OF assms(1-3)]) (auto simp: message_ok_def)
  have y: "op_ok2 a M (OnInitiateMessage E a msg M)" using assms by (intro OnInitiateMessage_ok [OF assms(1-3)]) (simp add: message_ok_def)
  show ?thesis using i r t c d x y by (cases "m_type msg") (simp_all add: dispatch_def)
qed

lemma Session_OnIncomingMessage_ok:
  assumes "books M" and "sm_objects M a = Some s" and "e_connect E a" and "message_ok E msg s"
  shows "op_ok a M (Session_OnIncomingMessage E a msg M)"
proof -
  let ?s = "update_protocol (m_protocol msg) s"
  have k: "core ?s = core s" by (simp add: update_protocol_def core_def)
  have b: "books (setS a ?s M)" "on_session a M (setS a ?s M)" by (rule books_same [OF assms(1,2) k])+
  have "initiator_description ?s = initiator_description s" using k by (simp add: initiator_description_def core_def)
  then have "message_ok E msg ?s" using assms(4) k by (simp add: message_ok_def core_def)
  then have "op_ok2 a (setS a ?s M) (dispatch E a msg (setS a ?s M))" using dispatch_ok [OF b(1) _ assms(3)] by simp
  then have "op_ok a (setS a ?s M) (andThen (dispatch E a msg (setS a ?s M)) (\<lambda>(valid, M).
     if valid then andThen (getS M a) (\<lambda>s. Inr (emit (Out_ack (s_remote_name s)) M)) else Inr (emit (Out_error (m_from msg)) M)))"
  proof (rule op_ok2_bind)
    fix v M' assume o: "on_session a (setS a ?s M) M'" and b': "books M'"
    obtain s' where "sm_objects M' a = Some s'" using on_session_obj [OF o] by blast
    then show "op_ok a M' (case (v, M') of (valid, M) \<Rightarrow>
      if valid then andThen (getS M a) (\<lambda>s. Inr (emit (Out_ack (s_remote_name s)) M)) else Inr (emit (Out_error (m_from msg)) M))"
      using b' emit_ok [of M' a] by (simp add: op_ok_def)
  qed
  then show ?thesis using op_ok_set b(2) assms(2,4) by (auto simp: Session_OnIncomingMessage_def message_ok_def)
qed

subsection \<open>Creating and destroying sessions\<close>

lemma wired_destroyed:
  assumes "wired M" and "sm_objects M a = Some s" and "tc_sessions M = A @ tn # B" and "tn_session tn = Some a"
    and "sm_objects M' = (sm_objects M)(a := None)" and "sm_session_map M' = map_erase (s_id s) (sm_session_map M)"
    and "sm_posted M' = filter (\<lambda>p. fst p \<noteq> a) (sm_posted M)" and "tc_sessions M' = A @ B"
    and "sm_fresh M' = sm_fresh M" and "sm_client_map M' = sm_client_map M" and "tc_shutdown M' = tc_shutdown M" and "tc_namespace M' = tc_namespace M"
  shows "wired M'"
proof -
  have w: "map_inv (sm_session_map M)" "\<And>sid b. map_of (sm_session_map M) sid = Some b \<longleftrightarrow> (\<exists>s. sm_objects M b = Some s \<and> s_id s = sid)"
    "list_all tunnel_ok (tc_sessions M)" "distinct (map tn_session (tc_sessions M))"
    "\<And>b. Some b \<in> tn_session ` set (tc_sessions M) \<longleftrightarrow> sm_objects M b \<noteq> None" "\<And>p. p \<in> set (sm_posted M) \<Longrightarrow> sm_objects M (fst p) \<noteq> None"
    "\<And>b. sm_objects M b \<noteq> None \<Longrightarrow> b < sm_fresh M" "\<not> tc_shutdown M" "tc_namespace M \<in> set (sm_client_map M)"
    using assms(1) unfolding wired_def by auto
  have own: "map_of (sm_session_map M) (s_id s) = Some a" using w(2) assms(2) by blast
  have m: "map_of (sm_session_map M') sid = Some b \<longleftrightarrow> (\<exists>s. sm_objects M' b = Some s \<and> s_id s = sid)" for sid b
    using w(2) [of sid b] own assms(2) unfolding assms(5,6) by (auto simp: map_of_erase)
  have t: "Some b \<in> tn_session ` set (tc_sessions M') \<longleftrightarrow> sm_objects M' b \<noteq> None" for b
    using w(4) w(5) [of b] assms(3,4,5,8) by (auto simp: image_iff)
  show ?thesis unfolding wired_def
    using m t w(3,4,6,7,8,9) assms(3,5,7-12) by (auto simp: assms(6) map_inv_erase [OF w(1)])
qed

lemma DestroySession_ok:
  assumes "books_but a M" and "sm_objects M a = Some s"
  shows "\<exists>M'. DestroySession E a M = Inr M' \<and> books M' \<and> sm_objects M' = (sm_objects M)(a := None) \<and> sm_posted M' = filter (\<lambda>p. fst p \<noteq> a) (sm_posted M)"
proof -
  let ?ts = "tc_sessions M"
  have w: "wired M" using assms(1) by (simp add: books_but_def)
  have sok: "sess_ok ((a, MSG_STATE) # sm_posted M) a s" using assms by (simp add: books_but_def)
  have ok: "list_all tunnel_ok ?ts" "Some a \<in> tn_session ` set ?ts" "map_of (sm_session_map M) (s_id s) = Some a" "\<not> tc_shutdown M"
    using w assms(2) unfolding wired_def by auto
  obtain i where i: "i < length ?ts" "find_tunnel ?ts a = Inr (Some i)" "tn_session (?ts ! i) = Some a" using find_tunnel_found [OF ok(1,2)] by blast
  have c: "tn_channel (?ts ! i) \<noteq> None" using ok(1) i(1) by (simp add: list_all_length tunnel_ok_def)
  define M' where "M' = M\<lparr>sm_objects := (sm_objects M)(a := None), sm_session_map := map_erase (s_id s) (sm_session_map M),
    sm_posted := filter (\<lambda>p. fst p \<noteq> a) (sm_posted M), tc_sessions := take i ?ts @ drop (Suc i) ?ts\<rparr>"
  have "DestroySession E a M = Inr M'"
    using assms(2) ok(3,4) i(2,3) c sok
    by (simp add: DestroySession_def OnSessionDestroy_def ReleaseSession_def modS_def delete_Session_def Let_def setS_def getS_def sess_ok_def M'_def)
  moreover have "wired M'"
    by (rule wired_destroyed [OF w assms(2) id_take_nth_drop [OF i(1)] i(3)]) (simp_all add: M'_def)
  moreover have "sess_ok (sm_posted M') b t" if "sm_objects M' b = Some t" for b t
  proof -
    have b: "b \<noteq> a" "sm_objects M b = Some t" using that by (auto simp: M'_def split: if_splits)
    then have "sess_ok (sm_posted M) b t" using assms(1) by (simp add: books_but_def)
    then show ?thesis using b by (auto simp: sess_ok_def M'_def)
  qed
  ultimately show ?thesis unfolding books_def by (intro exI [of _ M']) (simp add: M'_def)
qed

text \<open>A new session with its tunnel.\<close>

definition with_session :: "nat \<Rightarrow> Session \<Rightarrow> 'x Manager \<Rightarrow> 'x Manager" where
  "with_session a s M = M\<lparr>sm_fresh := Suc a, sm_session_map := map_insert (s_id s) a (map_erase (s_id s) (sm_session_map M)), sm_objects := (sm_objects M)(a \<mapsto> s),
     tc_sessions := tc_sessions M @ [new_TunnelSession a]\<rparr>"

lemma with_session_books:
  assumes "books M" and "a = sm_fresh M" and "map_of (sm_session_map M) (s_id s) = None" and "sess_ok (sm_posted M) a s"
  shows "books (with_session a s M)"
proof -
  have w: "map_inv (sm_session_map M)" "\<And>sid b. map_of (sm_session_map M) sid = Some b \<longleftrightarrow> (\<exists>s. sm_objects M b = Some s \<and> s_id s = sid)"
    "list_all tunnel_ok (tc_sessions M)" "distinct (map tn_session (tc_sessions M))"
    "\<And>b. Some b \<in> tn_session ` set (tc_sessions M) \<longleftrightarrow> sm_objects M b \<noteq> None" "\<And>p. p \<in> set (sm_posted M) \<Longrightarrow> sm_objects M (fst p) \<noteq> None"
    "\<And>b. sm_objects M b \<noteq> None \<Longrightarrow> b < sm_fresh M" "\<not> tc_shutdown M" "tc_namespace M \<in> set (sm_client_map M)"
    using assms(1) unfolding books_def wired_def by auto
  have f: "sm_objects M a = None" using w(7) [of a] assms(2) by (cases "sm_objects M a") auto
  let ?M = "with_session a s M"
  have e: "map_inv (map_erase (s_id s) (sm_session_map M))" using w(1) by (rule map_inv_erase)
  have m: "map_of (sm_session_map ?M) sid = Some b \<longleftrightarrow> (\<exists>s. sm_objects ?M b = Some s \<and> s_id s = sid)" for sid b
    using w(2) [of sid b] assms(3) f by (auto simp: with_session_def map_of_insert [OF e] map_of_erase)
  have "wired ?M" unfolding wired_def
    using m w(3-9) f assms(2) map_inv_insert [OF e, of "s_id s" a]
    by (auto simp: with_session_def new_TunnelSession_def tunnel_ok_def less_Suc_eq)
  then show ?thesis unfolding books_def using assms(1,4) by (auto simp: with_session_def books_def)
qed

lemma CreateSession_received:
  assumes "books M" and "GetClient ct M" and "map_of (sm_session_map M) sid = None" and "initiator \<noteq> local"
  shows "\<exists>M' s. CreateSession local initiator sid ct True M = Inr (sm_fresh M, M') \<and> books M' \<and> sm_objects M' = (sm_objects M)(sm_fresh M \<mapsto> s) \<and>
    sm_objects M (sm_fresh M) = None \<and> s_state s = STATE_INIT \<and> \<not> s_initiator s"
proof -
  let ?a = "sm_fresh M" and ?s = "(new_Session local initiator sid ct)\<lparr>s_listener := True\<rparr>"
  have f: "sm_objects M ?a = None" using assms(1) unfolding books_def wired_def by (metis less_irrefl)
  have "sess_ok (sm_posted M) ?a ?s" using assms(4) by (auto simp: sess_ok_def new_Session_def initiator_description_def settling_def)
  then have b: "books (with_session ?a ?s M)" using assms(1,3) by (intro with_session_books) (simp_all add: new_Session_def)
  have "CreateSession local initiator sid ct True M = Inr (?a, with_session ?a ?s M)"
    using assms(2) by (simp add: CreateSession_def OnSessionCreate_def MakeTunnelSession_def modS_def getS_def setS_def with_session_def new_Session_def Let_def)
  then show ?thesis using b f assms(4) by (intro exI [of _ "with_session ?a ?s M"] exI [of _ ?s]) (simp add: with_session_def new_Session_def)
qed

lemma CreateTunnel_ok:
  assumes "books M" and "map_of (sm_session_map M) sid = None"
  shows "\<exists>b M'. CreateTunnel E sid dest description M = Inr (b, M') \<and> books M' \<and> (\<forall>a s. sm_objects M a = Some s \<longrightarrow> sm_objects M' a = Some s)"
proof (cases "CreateOffer E description")
  case (Some offer)
  let ?a = "sm_fresh M" and ?s = "(new_Session (tc_jid M) (tc_jid M) sid (tc_namespace M))\<lparr>s_listener := True\<rparr>"
  have f: "sm_objects M ?a = None" and g: "GetClient (tc_namespace M) M" using assms(1) unfolding books_def wired_def GetClient_def by (metis less_irrefl, simp)
  have "sess_ok (sm_posted M) ?a ?s" by (auto simp: sess_ok_def new_Session_def initiator_description_def settling_def)
  then have b: "books (with_session ?a ?s M)" using assms by (intro with_session_books) (simp_all add: new_Session_def)
  have o: "sm_objects (with_session ?a ?s M) ?a = Some ?s" by (simp add: with_session_def)
  obtain r M1 where M1: "Initiate E ?a dest offer (with_session ?a ?s M) = Inr (r, M1)" "on_session ?a (with_session ?a ?s M) M1" "books M1"
    using Initiate_ok [OF b o, of E dest offer] by (auto simp: op_ok2_def new_Session_def)
  obtain s1 where s1: "sm_objects M1 ?a = Some s1" using on_session_obj [OF M1(2)] by blast
  obtain M2 where M2: "GetStream ?a M1 = Inr M2" "on_session ?a M1 M2" "books M2"
    using call_channel_books [OF M1(3) s1, of Call_GetStream] by (auto simp: op_ok_def GetStream_def)
  have "CreateTunnel E sid dest description M = Inr (True, M2)"
    using Some g M1(1) M2(1)
    by (simp add: CreateTunnel_def CreateSession_def OnSessionCreate_def MakeTunnelSession_def modS_def getS_def setS_def with_session_def new_Session_def Let_def)
  moreover have "sm_objects M2 b = Some t" if "sm_objects M b = Some t" for b t
  proof -
    have "b \<noteq> ?a" using that f by auto
    then show ?thesis using that on_session_other [OF on_session_trans [OF M1(2) M2(2)], of b] by (simp add: with_session_def)
  qed
  ultimately show ?thesis using M2(3) by blast
qed (use assms in \<open>auto simp: CreateTunnel_def\<close>)

subsection \<open>Posted messages\<close>

lemma posted_remove:
  assumes "i < length xs"
  shows "set xs = insert (xs ! i) (set (take i xs @ drop (Suc i) xs))"
  using arg_cong [OF id_take_nth_drop [OF assms], of set] by auto

lemma removed_books_but:
  assumes "books M" and "i < length (sm_posted M)" and "sm_posted M ! i = (a, m)"
  shows "books_but a (M\<lparr>sm_posted := take i (sm_posted M) @ drop (Suc i) (sm_posted M)\<rparr>)" (is "books_but a ?M")
proof -
  note r = posted_remove [OF assms(2), unfolded assms(3)]
  have "wired ?M" using assms(1) r unfolding books_def wired_def by (auto simp: r)
  moreover have "sess_ok (sm_posted ?M) b s" if "sm_objects M b = Some s" "b \<noteq> a" for b s
    using books_obj [OF assms(1) that(1)] that(2) r by (auto simp: sess_ok_def)
  moreover have "sess_ok ((a, MSG_STATE) # sm_posted ?M) a s" if "sm_objects M a = Some s" for s
    using books_obj [OF assms(1) that] by (auto simp: sess_ok_def)
  ultimately show ?thesis by (simp add: books_but_def)
qed

lemma books_but_calm:
  assumes "books_but a M" and "\<And>s. sm_objects M a = Some s \<Longrightarrow> s_state s \<in> settling \<Longrightarrow> (a, MSG_STATE) \<in> set (sm_posted M)"
  shows "books M"
proof -
  have "sess_ok (sm_posted M) b s" if "sm_objects M b = Some s" for b s
    using assms that by (cases "b = a") (auto simp: books_but_def sess_ok_def)
  then show ?thesis using assms(1) by (simp add: books_def books_but_def)
qed

lemma Terminate_but:
  assumes "books_but a M" and "sm_objects M a = Some s" and "s_state s = STATE_SENTREJECT \<or> s_state s = STATE_RECEIVEDREJECT"
  shows "op_ok2 a M (Terminate E a M)"
proof -
  have m: "may_enter E a STATE_SENTTERMINATE s" by (simp add: may_enter_def)
  have v: "state_move (s_state s) STATE_SENTTERMINATE" using assms(3) by (intro state_move.intros) auto
  have "op_ok2 a M (andThen (SetState E a STATE_SENTTERMINATE M) (\<lambda>M. Inr (True, M)))"
    by (rule op_ok_bind2 [OF SetState_enter [OF assms(1,2) m v]]) (use assms(3) in \<open>auto intro: op_ok_Inr dest: on_session_obj\<close>)
  then show ?thesis using assms(2,3) by (auto simp: Terminate_def TerminateWithReason_def)
qed

text \<open>A message either works on its session or destroys it.\<close>

definition handled :: "nat \<Rightarrow> 'x Manager \<Rightarrow> 'x Manager \<Rightarrow> bool" where
  "handled a M M' \<longleftrightarrow> obj_move a (sm_objects M) (sm_objects M') \<or>
     sm_objects M' = (sm_objects M)(a := None) \<and> (\<exists>s. sm_objects M a = Some s \<and> s_state s \<in> {STATE_SENTTERMINATE, STATE_RECEIVEDTERMINATE})"

lemma Session_OnMessage_ok:
  assumes "books_but a M" and "sm_objects M a = Some s" and "m \<noteq> MSG_STATE \<longrightarrow> books M"
  shows "\<exists>M'. Session_OnMessage E a m M = Inr M' \<and> books M' \<and> handled a M M'"
proof -
  have ok: "op_ok a M r \<Longrightarrow> \<exists>M'. r = Inr M' \<and> books M' \<and> handled a M M'" for r :: "'a Manager exec"
    by (auto simp: op_ok_def handled_def on_session_def)
  show ?thesis
  proof (cases m)
    case MSG_TIMEOUT
    then have "op_ok a M (andThen (SetError a ERROR_TIME M) Inr)"
      using assms by (intro op_ok_bind [OF SetError_ok]) (auto intro: op_ok_Inr dest: on_session_obj)
    then show ?thesis using ok MSG_TIMEOUT assms(2) by (simp add: Session_OnMessage_def BaseSession_OnMessage_def)
  next
    case MSG_ERROR
    then have "op_ok a M (andThen (TerminateWithReason E a STR_TERMINATE_ERROR M) (\<lambda>(_, M). Inr M))"
      using assms by (intro drop_result TerminateWithReason_ok) auto
    then show ?thesis using ok MSG_ERROR assms(2) by (simp add: Session_OnMessage_def BaseSession_OnMessage_def)
  next
    case MSG_STATE
    consider "s_state s \<in> {STATE_SENTACCEPT, STATE_RECEIVEDACCEPT}" | "s_state s \<in> {STATE_SENTREJECT, STATE_RECEIVEDREJECT}"
      | "s_state s \<in> {STATE_SENTTERMINATE, STATE_RECEIVEDTERMINATE}" | "s_state s \<notin> settling" by (auto simp: settling_def)
    then show ?thesis
    proof cases
      case 1
      have m: "may_enter E a STATE_INPROGRESS s" by (simp add: may_enter_def)
      have v: "state_move (s_state s) STATE_INPROGRESS" using 1 state_move.intros by auto
      have "op_ok a M (andThen (SetState E a STATE_INPROGRESS M) Inr)"
        by (rule op_ok_bind [OF SetState_enter [OF assms(1,2) m v]]) (use 1 in \<open>auto intro: op_ok_Inr dest: on_session_obj\<close>)
      then show ?thesis using ok MSG_STATE 1 assms(2) by (auto simp: Session_OnMessage_def BaseSession_OnMessage_def)
    next
      case 2
      have "op_ok a M (andThen (Terminate E a M) (\<lambda>(_, M). Inr M))" using 2 by (intro drop_result Terminate_but [OF assms(1,2)]) auto
      then show ?thesis using ok MSG_STATE 2 assms(2) by (auto simp: Session_OnMessage_def BaseSession_OnMessage_def)
    next
      case 3
      obtain M' where "DestroySession E a M = Inr M'" "books M'" "sm_objects M' = (sm_objects M)(a := None)" using DestroySession_ok [OF assms(1,2)] by blast
      then show ?thesis using MSG_STATE 3 assms(2) by (auto simp: Session_OnMessage_def BaseSession_OnMessage_def handled_def)
    next
      case 4
      then have "books M" using books_but_calm [OF assms(1)] assms(2) by auto
      then show ?thesis using ok [OF op_ok_Inr(1)] MSG_STATE 4 assms(2) by (auto simp: Session_OnMessage_def BaseSession_OnMessage_def settling_def)
    qed
  qed
qed

lemma take_message_ok:
  assumes "books M" and "i < length (sm_posted M)" and "sm_posted M ! i = (a, m)"
  shows "\<exists>M'. take_message E i M = Inr M' \<and> books M' \<and> handled a M M'"
proof -
  let ?M = "M\<lparr>sm_posted := take i (sm_posted M) @ drop (Suc i) (sm_posted M)\<rparr>"
  note b = removed_books_but [OF assms]
  have "(a, m) \<in> set (sm_posted M)" using assms(2,3) nth_mem by metis
  then obtain s where s: "sm_objects M a = Some s" using assms(1) unfolding books_def wired_def by fastforce
  have "books ?M" if "m \<noteq> MSG_STATE"
  proof (rule books_but_calm [OF b])
    fix t assume "sm_objects ?M a = Some t" "s_state t \<in> settling"
    then have "(a, MSG_STATE) \<in> set (sm_posted M)" using books_obj [OF assms(1)] by (auto simp: sess_ok_def)
    then show "(a, MSG_STATE) \<in> set (sm_posted ?M)" using posted_remove [OF assms(2), unfolded assms(3)] that by auto
  qed
  then have "\<exists>M'. Session_OnMessage E a m ?M = Inr M' \<and> books M' \<and> handled a ?M M'" using s by (intro Session_OnMessage_ok [OF b]) auto
  then show ?thesis using assms(3) by (simp add: take_message_def handled_def)
qed

subsection \<open>The manager\<close>

lemma FindSession_cases:
  assumes "books M"
  obtains "FindSession sid name M = Inr None" "\<And>a s. map_of (sm_session_map M) sid = Some a \<Longrightarrow> sm_objects M a = Some s \<Longrightarrow> \<not> Jid_eq (Jid_string name) (Jid_string (s_remote_name s))"
  | a s where "FindSession sid name M = Inr (Some a)" "map_of (sm_session_map M) sid = Some a" "sm_objects M a = Some s" "Jid_eq (Jid_string name) (Jid_string (s_remote_name s))"
proof (cases "map_of (sm_session_map M) sid")
  case None
  then show ?thesis using that(1) by (simp add: FindSession_def)
next
  case (Some a)
  then obtain s where s: "sm_objects M a = Some s" using assms unfolding books_def wired_def by blast
  show ?thesis
  proof (cases "Jid_eq (Jid_string name) (Jid_string (s_remote_name s))")
    case True
    then show ?thesis using that(2) [OF _ Some s] Some s by (simp add: FindSession_def)
  next
    case False
    then have "\<not> Jid_eq (Jid_string name) (Jid_string (s_remote_name t))" if "map_of (sm_session_map M) sid = Some b" "sm_objects M b = Some t" for b t
      using that Some s by simp
    moreover have "FindSession sid name M = Inr None" using False Some s by (simp add: FindSession_def)
    ultimately show ?thesis using that(1) by blast
  qed
qed

text \<open>What the model asks of incoming messages: a sender, spelled in one way only, no known identifier from another sender, an initiator that is not the receiver,
  and no accept without a tunnel. The lemmas at the end show that the code fails without each of them.\<close>

definition incoming_ok :: "'x Env \<Rightarrow> 'x Manager \<Rightarrow> 'x SessionMessage \<Rightarrow> bool" where
  "incoming_ok E M msg \<longleftrightarrow>
     \<not> Jid_eq (Jid_string (m_from msg)) (Jid_string []) \<and>
     (\<forall>a s. map_of (sm_session_map M) (m_sid msg) = Some a \<longrightarrow> sm_objects M a = Some s \<longrightarrow>
        (if Jid_eq (Jid_string (m_from msg)) (Jid_string (s_remote_name s)) then m_from msg = s_remote_name s else m_type msg \<noteq> ACTION_SESSION_INITIATE)) \<and>
     (m_type msg = ACTION_SESSION_INITIATE \<longrightarrow> m_initiator msg \<noteq> m_to msg) \<and>
     (m_type msg = ACTION_SESSION_ACCEPT \<longrightarrow> (\<forall>sd. e_parse_accept E (m_action msg) = Some sd \<longrightarrow> FirstContentByType sd NS_TUNNEL \<noteq> None))"

text \<open>Sessions over a call: they keep their identifier, move along the machine, and go only when they are terminated.\<close>

definition terminated :: "State set" where
  "terminated = {STATE_SENTTERMINATE, STATE_RECEIVEDTERMINATE}"

definition evolved :: "'x Manager \<Rightarrow> 'x Manager \<Rightarrow> bool" where
  "evolved M M' \<longleftrightarrow>
     (\<forall>a s. sm_objects M a = Some s \<longrightarrow>
        (case sm_objects M' a of
           None \<Rightarrow> s_state s \<in> terminated
         | Some s' \<Rightarrow> s_id s' = s_id s \<and> s_initiator s' = s_initiator s \<and> state_move\<^sup>*\<^sup>* (s_state s) (s_state s')))"

definition call_ok :: "'x Manager \<Rightarrow> 'x Manager exec \<Rightarrow> bool" where
  "call_ok M r \<longleftrightarrow> (\<exists>M'. r = Inr M' \<and> books M' \<and> evolved M M')"

lemma evolved_move:
  assumes "obj_move a (sm_objects M) (sm_objects M')"
  shows "evolved M M'"
proof -
  obtain s s' where m: "sm_objects M a = Some s" "sm_objects M' = (sm_objects M)(a \<mapsto> s')" "s_id s' = s_id s" "s_initiator s' = s_initiator s"
    "state_move\<^sup>*\<^sup>* (s_state s) (s_state s')"
    using assms unfolding obj_move_def by blast
  show ?thesis unfolding evolved_def
  proof (intro allI impI)
    fix b t assume "sm_objects M b = Some t"
    then show "case sm_objects M' b of None \<Rightarrow> s_state t \<in> terminated
      | Some s' \<Rightarrow> s_id s' = s_id t \<and> s_initiator s' = s_initiator t \<and> state_move\<^sup>*\<^sup>* (s_state t) (s_state s')"
      using m by (cases "b = a") simp_all
  qed
qed

lemma evolved_kept: "(\<And>a s. sm_objects M a = Some s \<Longrightarrow> sm_objects M' a = Some s) \<Longrightarrow> evolved M M'"
  unfolding evolved_def by simp

lemma evolved_handled:
  assumes "handled a M M'"
  shows "evolved M M'"
proof (cases "obj_move a (sm_objects M) (sm_objects M')")
  case False
  then show ?thesis using assms by (auto simp: handled_def evolved_def terminated_def)
qed (rule evolved_move)

lemma call_ok_op: "op_ok a M r \<Longrightarrow> call_ok M r"
  unfolding op_ok_def call_ok_def on_session_def using evolved_move by blast

lemma call_ok_Inr: "books M \<Longrightarrow> call_ok M (Inr M)" "books M \<Longrightarrow> call_ok M (Inr (emit st M))"
  by (auto simp: call_ok_def books_emit intro: evolved_kept)

lemma message_ok_known:
  assumes "books M" and "incoming_ok E M msg" and "map_of (sm_session_map M) (m_sid msg) = Some a" and "sm_objects M a = Some s"
    and "Jid_eq (Jid_string (m_from msg)) (Jid_string (s_remote_name s))"
  shows "message_ok E msg s"
proof -
  have f: "m_from msg = s_remote_name s" using assms(2-5) by (auto simp: incoming_ok_def)
  have "s_remote_name s \<noteq> []" using assms(2,5) f by (auto simp: incoming_ok_def)
  then have d: "initiator_description s \<noteq> None" using books_obj [OF assms(1,4)] by (auto simp: sess_ok_def)
  then have "s_initiator s \<longrightarrow> s_local_description s \<noteq> None" by (cases "s_initiator s") (simp_all add: initiator_description_def)
  then show ?thesis using f d assms(2) by (simp add: message_ok_def incoming_ok_def)
qed

lemma OnIncomingMessage_ok:
  assumes "books M" and "\<And>a. e_connect E a" and "\<And>msg. parsed = Some msg \<Longrightarrow> incoming_ok E M msg"
  shows "call_ok M (OnIncomingMessage E from parsed M)"
proof (cases parsed)
  case (Some msg)
  note i = assms(3) [OF Some]
  note e = call_ok_Inr(2) [OF assms(1)]
  show ?thesis
  proof (cases rule: FindSession_cases [OF assms(1), of "m_sid msg" "m_from msg"])
    case 1
    show ?thesis
    proof (cases "m_type msg = ACTION_SESSION_INITIATE \<and> (\<exists>ct. e_content_type E (m_action msg) = Some ct \<and> GetClient ct M)")
      case True
      then obtain ct where ct: "e_content_type E (m_action msg) = Some ct" "GetClient ct M" by blast
      have n: "map_of (sm_session_map M) (m_sid msg) = None"
      proof (rule ccontr)
        assume "map_of (sm_session_map M) (m_sid msg) \<noteq> None"
        then obtain a s where "map_of (sm_session_map M) (m_sid msg) = Some a" "sm_objects M a = Some s" using assms(1) unfolding books_def wired_def by blast
        then show False using 1(2) i True by (auto simp: incoming_ok_def)
      qed
      let ?a = "sm_fresh M"
      obtain M1 s where c: "CreateSession (m_to msg) (m_initiator msg) (m_sid msg) ct True M = Inr (?a, M1)" "books M1" "sm_objects M1 = (sm_objects M)(?a \<mapsto> s)"
        "sm_objects M ?a = None" "s_state s = STATE_INIT" "\<not> s_initiator s"
        using CreateSession_received [OF assms(1) ct(2) n, of "m_initiator msg" "m_to msg"] i True unfolding incoming_ok_def by blast
      have "message_ok E msg s" using c(5,6) True by (simp add: message_ok_def)
      then obtain M2 where M2: "Session_OnIncomingMessage E ?a msg M1 = Inr M2" "on_session ?a M1 M2" "books M2"
        using Session_OnIncomingMessage_ok [OF c(2) _ assms(2), of ?a s msg] c(3) by (auto simp: op_ok_def)
      have "evolved M M2"
      proof (rule evolved_kept)
        fix b t assume b: "sm_objects M b = Some t"
        then have "b \<noteq> ?a" using c(4) by auto
        then show "sm_objects M2 b = Some t" using b on_session_other [OF M2(2)] c(3) by simp
      qed
      then show ?thesis using Some 1(1) True ct c(1) M2 by (auto simp: OnIncomingMessage_def call_ok_def)
    qed (use Some 1(1) e in \<open>auto simp: OnIncomingMessage_def split: option.splits\<close>)
  next
    case (2 a s)
    have "op_ok a M (Session_OnIncomingMessage E a msg M)"
      by (rule Session_OnIncomingMessage_ok [OF assms(1) 2(3) assms(2) message_ok_known [OF assms(1) i 2(2-4)]])
    then show ?thesis using Some 2(1) call_ok_op by (simp add: OnIncomingMessage_def)
  qed
qed (use call_ok_Inr(2) [OF assms(1)] in \<open>simp add: OnIncomingMessage_def\<close>)

lemma OnIncomingResponse_ok:
  assumes "books M"
  shows "call_ok M (OnIncomingResponse E orig M)"
proof (cases rule: FindSession_cases [OF assms, of "m_sid orig" "m_to orig"])
  case (2 a s)
  then show ?thesis using call_ok_op [OF OnInitiateAcked_ok [OF assms 2(3)]] call_ok_Inr(1) [OF assms] by (simp add: OnIncomingResponse_def)
qed (use call_ok_Inr(1) [OF assms] in \<open>simp add: OnIncomingResponse_def\<close>)

lemma empty_jid_invalid: "\<not> IsValid (Jid_string [])"
  by code_simp

lemma OnRedirectError_ok:
  assumes "books M" and "sm_objects M a = Some s"
  shows "op_ok2 a M (OnRedirectError E a target M)"
proof (cases "s_state s = STATE_SENTINITIATE \<and> BareJidsEqual (s_remote_name s) target")
  case True
  note sok = books_obj [OF assms]
  have "s_remote_name s \<noteq> []" using True empty_jid_invalid by (auto simp: BareJidsEqual_def)
  then have d: "initiator_description s \<noteq> None" "s_local_description s \<noteq> None" using sok True by (auto simp: sess_ok_def)
  then obtain sdesc where l: "s_local_description s = Some sdesc" by blast
  let ?s = "s\<lparr>s_remote_name := target\<rparr>"
  have "sess_ok (sm_posted M) a ?s" using sok d(1) by (auto simp: sess_ok_def initiator_description_def)
  then have b: "books (setS a ?s M)" "on_session a M (setS a ?s M)" using books_set [OF assms, of ?s] by simp_all
  have o: "sm_objects (setS a ?s M) a = Some ?s" by simp
  have "op_ok2 a (setS a ?s M) (case SendInitiateMessage E sdesc ?s (setS a ?s M) of (sent, M) \<Rightarrow> if sent then ResendAllTransportInfoMessages E a M else Inr (False, M))"
  proof (cases rule: SendMessage_cases [of ACTION_SESSION_INITIATE ?s
      "WriteActionMessage E (s_current_protocol ?s) (Initiate_action (sdesc\<lparr>sd_transports := GetEmptyTransportInfos (sd_contents sdesc)\<rparr>))" "setS a ?s M"])
    case 1
    then show ?thesis using b(1) by (simp add: SendInitiateMessage_def op_ok_Inr)
  next
    case (2 st)
    have "op_ok2 a (emit st (setS a ?s M)) (ResendAllTransportInfoMessages E a (emit st (setS a ?s M)))"
      using b(1) by (intro SendAll_ok(2)) (simp_all add: books_emit)
    then show ?thesis using 2 op_ok2_emit by (fastforce simp: SendInitiateMessage_def)
  qed
  then show ?thesis using op_ok2_set b(2) assms(2) True l by (simp add: OnRedirectError_def Let_def)
qed (use assms in \<open>auto simp: OnRedirectError_def op_ok_Inr\<close>)

lemma OnFailedSend_ok:
  assumes "books M"
  shows "call_ok M (OnFailedSend E orig redirect error_type M)"
proof (cases rule: FindSession_cases [OF assms, of "m_sid orig" "m_to orig"])
  case (2 a s)
  note n = call_ok_Inr(1) [OF assms] and e = call_ok_op [OF SetError_ok [OF assms 2(3)]]
  have "op_ok a M (andThen (OnRedirectError E a target M) (\<lambda>(ok, M). if \<not> ok then SetError a ERROR_RESPONSE M else Inr M))" for target
  proof (rule op_ok2_bind [OF OnRedirectError_ok [OF assms 2(3)]])
    fix ok M' assume o: "on_session a M M'" and b: "books M'"
    then obtain s' where "sm_objects M' a = Some s'" using on_session_obj by blast
    then show "op_ok a M' (case (ok, M') of (ok, M) \<Rightarrow> if \<not> ok then SetError a ERROR_RESPONSE M else Inr M)"
      using SetError_ok [OF b] b by (simp add: op_ok_Inr)
  qed
  note r = call_ok_op [OF this]
  show ?thesis using 2(1) n e r by (cases redirect; cases error_type) (simp_all add: OnFailedSend_def)
qed (use call_ok_Inr(1) [OF assms] in \<open>simp add: OnFailedSend_def\<close>)

lemma OnTransportWritable_ok:
  assumes "books M" and "sm_objects M a \<noteq> None"
  shows "call_ok M (OnTransportWritable a waiting M)"
proof -
  let ?M = "M\<lparr>sm_posted := filter (\<lambda>p. p \<noteq> (a, MSG_TIMEOUT)) (sm_posted M)\<rparr>"
  have "wired ?M" using assms(1) unfolding books_def wired_def by auto
  moreover have "sess_ok (sm_posted ?M) b s" if "sm_objects M b = Some s" for b s using books_obj [OF assms(1) that] by (auto simp: sess_ok_def)
  ultimately have b: "books ?M" by (simp add: books_def)
  have "books (post a MSG_TIMEOUT ?M)" using books_post [OF b] assms(2) by simp
  then show ?thesis using b assms(2) by (auto simp: OnTransportWritable_def Let_def call_ok_def evolved_kept getS_def)
qed

lemma OnTransportProxyCandidatesReady_ok:
  assumes "books M" and "sm_objects M a = Some s"
  shows "op_ok a M (OnTransportProxyCandidatesReady E a name candidates M)"
proof -
  have k: "books (setS a (s\<lparr>s_proxies := pxs\<rparr>) M) \<and> on_session a M (setS a (s\<lparr>s_proxies := pxs\<rparr>) M)" for pxs
    using books_same [OF assms, of "s\<lparr>s_proxies := pxs\<rparr>"] by (simp add: core_def)
  have send: "op_ok a M (Inr (snd (SendTransportInfoMessage E name candidates s1 (setS a (s\<lparr>s_proxies := pxs\<rparr>) M))))" for s1 pxs
  proof (cases rule: SendTransport_cases [of E name candidates s1 "setS a (s\<lparr>s_proxies := pxs\<rparr>) M"])
    case (2 st)
    have "on_session a (setS a (s\<lparr>s_proxies := pxs\<rparr>) M) (emit st (setS a (s\<lparr>s_proxies := pxs\<rparr>) M))" by (rule emit_on_session) simp
    then show ?thesis using 2 k [of pxs] on_session_trans by (auto simp: op_ok_def books_emit)
  qed (use k [of pxs] in \<open>simp add: op_ok_def\<close>)
  have same: "s\<lparr>s_proxies := s_proxies s\<rparr> = s" by simp
  show ?thesis
    using assms k send send [of _ "s_proxies s", unfolded same]
    by (auto simp: OnTransportProxyCandidatesReady_def Let_def op_ok_def on_session_refl split: option.splits)
qed

end
