(* ===== verification/SessionMessages.thy ===== *)
theory SessionMessages
  imports TunnelSession
begin

text \<open>
  The envelope of session messages, \<^verbatim>\<open>talk/p2p/base/sessionmessages.cc\<close>: names of actions, and the attributes of the \<^verbatim>\<open>jingle\<close> and \<^verbatim>\<open>session\<close> elements of a stanza. The
  elements inside them are a parameter. A stanza keeps only the children that these functions look at.
\<close>

subsection \<open>Names of actions\<close>

definition JINGLE_ACTION_SESSION_INITIATE :: string where "JINGLE_ACTION_SESSION_INITIATE = ''session-initiate''"
definition JINGLE_ACTION_SESSION_INFO :: string where "JINGLE_ACTION_SESSION_INFO = ''session-info''"
definition JINGLE_ACTION_SESSION_ACCEPT :: string where "JINGLE_ACTION_SESSION_ACCEPT = ''session-accept''"
definition JINGLE_ACTION_SESSION_TERMINATE :: string where "JINGLE_ACTION_SESSION_TERMINATE = ''session-terminate''"
definition JINGLE_ACTION_TRANSPORT_INFO :: string where "JINGLE_ACTION_TRANSPORT_INFO = ''transport-info''"
definition JINGLE_ACTION_TRANSPORT_ACCEPT :: string where "JINGLE_ACTION_TRANSPORT_ACCEPT = ''transport-accept''"
definition JINGLE_ACTION_DESCRIPTION_INFO :: string where "JINGLE_ACTION_DESCRIPTION_INFO = ''description-info''"
definition GINGLE_ACTION_INITIATE :: string where "GINGLE_ACTION_INITIATE = ''initiate''"
definition GINGLE_ACTION_INFO :: string where "GINGLE_ACTION_INFO = ''info''"
definition GINGLE_ACTION_ACCEPT :: string where "GINGLE_ACTION_ACCEPT = ''accept''"
definition GINGLE_ACTION_REJECT :: string where "GINGLE_ACTION_REJECT = ''reject''"
definition GINGLE_ACTION_TERMINATE :: string where "GINGLE_ACTION_TERMINATE = ''terminate''"
definition GINGLE_ACTION_CANDIDATES :: string where "GINGLE_ACTION_CANDIDATES = ''candidates''"
definition GINGLE_ACTION_UPDATE :: string where "GINGLE_ACTION_UPDATE = ''update''"

named_theorems action_names

declare JINGLE_ACTION_SESSION_INITIATE_def [action_names] JINGLE_ACTION_SESSION_INFO_def [action_names] JINGLE_ACTION_SESSION_ACCEPT_def [action_names]
  JINGLE_ACTION_SESSION_TERMINATE_def [action_names] JINGLE_ACTION_TRANSPORT_INFO_def [action_names] JINGLE_ACTION_TRANSPORT_ACCEPT_def [action_names]
  JINGLE_ACTION_DESCRIPTION_INFO_def [action_names] GINGLE_ACTION_INITIATE_def [action_names] GINGLE_ACTION_INFO_def [action_names]
  GINGLE_ACTION_ACCEPT_def [action_names] GINGLE_ACTION_REJECT_def [action_names] GINGLE_ACTION_TERMINATE_def [action_names]
  GINGLE_ACTION_CANDIDATES_def [action_names] GINGLE_ACTION_UPDATE_def [action_names]

definition ToActionType :: "string \<Rightarrow> ActionType" where
  "ToActionType type =
     (if type = GINGLE_ACTION_INITIATE then ACTION_SESSION_INITIATE
      else if type = GINGLE_ACTION_INFO then ACTION_SESSION_INFO
      else if type = GINGLE_ACTION_ACCEPT then ACTION_SESSION_ACCEPT
      else if type = GINGLE_ACTION_REJECT then ACTION_SESSION_REJECT
      else if type = GINGLE_ACTION_TERMINATE then ACTION_SESSION_TERMINATE
      else if type = GINGLE_ACTION_CANDIDATES then ACTION_TRANSPORT_INFO
      else if type = JINGLE_ACTION_SESSION_INITIATE then ACTION_SESSION_INITIATE
      else if type = JINGLE_ACTION_TRANSPORT_INFO then ACTION_TRANSPORT_INFO
      else if type = JINGLE_ACTION_TRANSPORT_ACCEPT then ACTION_TRANSPORT_ACCEPT
      else if type = JINGLE_ACTION_SESSION_INFO then ACTION_SESSION_INFO
      else if type = JINGLE_ACTION_SESSION_ACCEPT then ACTION_SESSION_ACCEPT
      else if type = JINGLE_ACTION_SESSION_TERMINATE then ACTION_SESSION_TERMINATE
      else if type = JINGLE_ACTION_TRANSPORT_INFO then ACTION_TRANSPORT_INFO
      else if type = JINGLE_ACTION_TRANSPORT_ACCEPT then ACTION_TRANSPORT_ACCEPT
      else if type = JINGLE_ACTION_DESCRIPTION_INFO then ACTION_DESCRIPTION_INFO
      else if type = GINGLE_ACTION_UPDATE then ACTION_DESCRIPTION_INFO
      else ACTION_UNKNOWN)"

fun ToJingleString :: "ActionType \<Rightarrow> string" where
  "ToJingleString ACTION_SESSION_INITIATE = JINGLE_ACTION_SESSION_INITIATE"
| "ToJingleString ACTION_SESSION_INFO = JINGLE_ACTION_SESSION_INFO"
| "ToJingleString ACTION_DESCRIPTION_INFO = JINGLE_ACTION_DESCRIPTION_INFO"
| "ToJingleString ACTION_SESSION_ACCEPT = JINGLE_ACTION_SESSION_ACCEPT"
| "ToJingleString ACTION_SESSION_REJECT = JINGLE_ACTION_SESSION_TERMINATE"
| "ToJingleString ACTION_SESSION_TERMINATE = JINGLE_ACTION_SESSION_TERMINATE"
| "ToJingleString ACTION_TRANSPORT_INFO = JINGLE_ACTION_TRANSPORT_INFO"
| "ToJingleString ACTION_TRANSPORT_ACCEPT = JINGLE_ACTION_TRANSPORT_ACCEPT"
| "ToJingleString ACTION_UNKNOWN = []"

fun ToGingleString :: "ActionType \<Rightarrow> string" where
  "ToGingleString ACTION_SESSION_INITIATE = GINGLE_ACTION_INITIATE"
| "ToGingleString ACTION_SESSION_INFO = GINGLE_ACTION_INFO"
| "ToGingleString ACTION_SESSION_ACCEPT = GINGLE_ACTION_ACCEPT"
| "ToGingleString ACTION_SESSION_REJECT = GINGLE_ACTION_REJECT"
| "ToGingleString ACTION_SESSION_TERMINATE = GINGLE_ACTION_TERMINATE"
| "ToGingleString ACTION_TRANSPORT_INFO = GINGLE_ACTION_CANDIDATES"
| "ToGingleString _ = []"

subsection \<open>Stanzas\<close>

text \<open>A \<^verbatim>\<open>jingle\<close> element with its \<^verbatim>\<open>action\<close> and \<^verbatim>\<open>sid\<close>, or a \<^verbatim>\<open>session\<close> element with its \<^verbatim>\<open>type\<close> and \<^verbatim>\<open>id\<close>. A missing attribute is read as an empty string.\<close>

record 'x child =
  ch_action :: "string option"
  ch_sid :: "string option"
  ch_initiator :: "string option"
  ch_elems :: 'x

record 'x wire =
  w_iq :: bool
  w_type :: string
  w_from :: string
  w_to :: string
  w_jingle :: "'x child option"
  w_session :: "'x child option"

definition Attr :: "string option \<Rightarrow> string" where
  "Attr a = (case a of None \<Rightarrow> [] | Some v \<Rightarrow> v)"

definition IsJingleMessage :: "'x wire \<Rightarrow> bool" where
  "IsJingleMessage st = (case w_jingle st of None \<Rightarrow> False | Some c \<Rightarrow> ch_action c \<noteq> None \<and> ch_sid c \<noteq> None)"

definition IsGingleMessage :: "'x wire \<Rightarrow> bool" where
  "IsGingleMessage st = (case w_session st of None \<Rightarrow> False | Some c \<Rightarrow> ch_action c \<noteq> None \<and> ch_sid c \<noteq> None \<and> ch_initiator c \<noteq> None)"

definition IsSessionMessage :: "'x wire \<Rightarrow> bool" where
  "IsSessionMessage st \<longleftrightarrow> w_iq st \<and> w_type st = ''set'' \<and> (IsJingleMessage st \<or> IsGingleMessage st)"

definition ParseGingleSessionMessage :: "'x wire \<Rightarrow> 'x child \<Rightarrow> 'x SessionMessage option" where
  "ParseGingleSessionMessage st c =
     (let type = ToActionType (Attr (ch_action c)) in
      if type = ACTION_UNKNOWN then None
      else Some \<lparr>m_protocol = PROTOCOL_GINGLE, m_type = type, m_sid = Attr (ch_sid c), m_from = w_from st, m_to = w_to st,
                 m_initiator = Attr (ch_initiator c), m_action = ch_elems c\<rparr>)"

definition ParseJingleSessionMessage :: "'x wire \<Rightarrow> 'x child \<Rightarrow> 'x SessionMessage option" where
  "ParseJingleSessionMessage st c =
     (let type = ToActionType (Attr (ch_action c)) in
      if type = ACTION_UNKNOWN then None
      else Some \<lparr>m_protocol = PROTOCOL_JINGLE, m_type = type, m_sid = Attr (ch_sid c), m_from = w_from st, m_to = w_to st,
                 m_initiator = Attr (ch_initiator c), m_action = ch_elems c\<rparr>)"

definition ParseHybridSessionMessage :: "'x wire \<Rightarrow> 'x child \<Rightarrow> 'x SessionMessage option" where
  "ParseHybridSessionMessage st c = map_option (\<lambda>msg. msg\<lparr>m_protocol := PROTOCOL_HYBRID\<rparr>) (ParseJingleSessionMessage st c)"

definition ParseSessionMessage :: "'x wire \<Rightarrow> 'x SessionMessage option" where
  "ParseSessionMessage st =
     (case (w_jingle st, w_session st) of
        (Some j, Some _) \<Rightarrow> ParseHybridSessionMessage st j
      | (Some j, None) \<Rightarrow> ParseJingleSessionMessage st j
      | (None, Some s) \<Rightarrow> ParseGingleSessionMessage st s
      | (None, None) \<Rightarrow> None)"

definition WriteGingleAction :: "ActionType \<Rightarrow> string \<Rightarrow> string \<Rightarrow> 'x \<Rightarrow> 'x child" where
  "WriteGingleAction type sid initiator elems =
     \<lparr>ch_action = Some (ToGingleString type), ch_sid = Some sid, ch_initiator = Some initiator, ch_elems = elems\<rparr>"

definition WriteJingleAction :: "ActionType \<Rightarrow> string \<Rightarrow> string \<Rightarrow> 'x \<Rightarrow> 'x child" where
  "WriteJingleAction type sid initiator elems =
     \<lparr>ch_action = Some (ToJingleString type), ch_sid = Some sid,
      ch_initiator = (if type = ACTION_SESSION_INITIATE then Some initiator else None), ch_elems = elems\<rparr>"

text \<open>\<open>AddElement\<close> appends, and \<open>FirstNamed\<close> finds the first: a second child of the same name is not seen.\<close>

definition WriteSessionMessage :: "SignalingProtocol \<Rightarrow> string \<Rightarrow> ActionType \<Rightarrow> string \<Rightarrow> string \<Rightarrow> 'x \<Rightarrow> 'x wire \<Rightarrow> 'x wire" where
  "WriteSessionMessage protocol dest type sid initiator elems st =
     (let st = st\<lparr>w_to := dest, w_type := ''set''\<rparr> in
      if protocol = PROTOCOL_GINGLE then
        st\<lparr>w_session := (case w_session st of None \<Rightarrow> Some (WriteGingleAction type sid initiator elems) | Some c \<Rightarrow> Some c)\<rparr>
      else st\<lparr>w_jingle := (case w_jingle st of None \<Rightarrow> Some (WriteJingleAction type sid initiator elems) | Some c \<Rightarrow> Some c)\<rparr>)"

text \<open>The stanza of an outgoing message, with the sender that the server fills in, as the other side parses it.\<close>

fun write_stanza :: "string \<Rightarrow> 'x Stanza \<Rightarrow> 'x wire option" where
  "write_stanza sender (Out_message dest type sid initiator elems) =
     Some (fold (\<lambda>(protocol, x). WriteSessionMessage protocol dest type sid initiator x) elems
       \<lparr>w_iq = True, w_type = [], w_from = sender, w_to = [], w_jingle = None, w_session = None\<rparr>)"
| "write_stanza sender _ = None"

definition deliver :: "string \<Rightarrow> 'x Stanza \<Rightarrow> 'x SessionMessage option" where
  "deliver sender st = Option.bind (write_stanza sender st) ParseSessionMessage"

subsection \<open>Round trips\<close>

lemma action_round_trip:
  "ToActionType (ToJingleString type) = (if type = ACTION_SESSION_REJECT then ACTION_SESSION_TERMINATE else type)"
  "ToActionType (ToGingleString type) = (if type \<in> {ACTION_TRANSPORT_ACCEPT, ACTION_DESCRIPTION_INFO} then ACTION_UNKNOWN else type)"
  by (cases type; simp add: ToActionType_def action_names)+

lemmas terminate_round_trip = action_round_trip(1) [of ACTION_SESSION_REJECT, simplified]

text \<open>A message of a session is a session message for the other side, which reads the same identifier, initiator and elements out of it. In Jingle a rejection arrives as
  a termination, and only an initiate names the initiator.\<close>

theorem message_round_trip:
  assumes "type \<noteq> ACTION_UNKNOWN" and "elems \<in> {[(PROTOCOL_JINGLE, x)], [(PROTOCOL_JINGLE, x), (PROTOCOL_GINGLE, y)], [(PROTOCOL_GINGLE, x)]}"
    and "elems = [(PROTOCOL_GINGLE, x)] \<Longrightarrow> type \<notin> {ACTION_TRANSPORT_ACCEPT, ACTION_DESCRIPTION_INFO}"
  shows "\<exists>st msg. write_stanza sender (Out_message dest type sid initiator elems) = Some st \<and> IsSessionMessage st \<and> ParseSessionMessage st = Some msg \<and>
    m_from msg = sender \<and> m_to msg = dest \<and> m_sid msg = sid \<and> m_action msg = x \<and>
    m_type msg = (if fst (hd elems) = PROTOCOL_JINGLE \<and> type = ACTION_SESSION_REJECT then ACTION_SESSION_TERMINATE else type) \<and>
    (type = ACTION_SESSION_INITIATE \<longrightarrow> m_initiator msg = initiator)"
  using assms
  by (auto simp: WriteSessionMessage_def WriteJingleAction_def WriteGingleAction_def IsSessionMessage_def IsJingleMessage_def IsGingleMessage_def Let_def
      ParseSessionMessage_def ParseHybridSessionMessage_def ParseJingleSessionMessage_def ParseGingleSessionMessage_def Attr_def action_round_trip terminate_round_trip)

text \<open>A Gingle peer cannot be told of a changed description: the name of the action is missing from the table, so that the other side finds an unknown action.\<close>

theorem gingle_update_lost: "deliver sender (Out_message dest ACTION_DESCRIPTION_INFO sid initiator [(PROTOCOL_GINGLE, x)]) = None"
  by (simp add: deliver_def WriteSessionMessage_def WriteGingleAction_def Let_def ParseSessionMessage_def ParseGingleSessionMessage_def Attr_def ToActionType_def action_names)

end
