(* ===== verification/TunnelRun.thy ===== *)
theory TunnelRun
  imports TunnelSessionProps SessionMessages
begin

text \<open>
  Runs of the signalling thread: any sequence of stanzas, calls of the application, events of transports and channels and posted messages, over the operations of
  \<^verbatim>\<open>TunnelSession\<close>. The properties of the negotiation of tunnels are here, and what the code does when a peer does not keep to the rules.
\<close>

subsection \<open>Runs\<close>

datatype 'x sig_op =
    Op_create string string string
  | Op_message string "'x SessionMessage option"
  | Op_response "'x SessionMessage"
  | Op_failed "'x SessionMessage" "string option" "string option"
  | Op_accept nat
  | Op_decline nat
  | Op_closed nat
  | Op_posted nat
  | Op_writable nat bool
  | Op_candidates nat string "string list"

definition run_op :: "'x Env \<Rightarrow> 'x sig_op \<Rightarrow> 'x Manager \<Rightarrow> 'x Manager exec" where
  "run_op E x M =
     (case x of
        Op_create sid dest description \<Rightarrow> andThen (CreateTunnel E sid dest description M) (\<lambda>(_, M). Inr M)
      | Op_message from parsed \<Rightarrow> OnIncomingMessage E from parsed M
      | Op_response orig \<Rightarrow> OnIncomingResponse E orig M
      | Op_failed orig redirect error_type \<Rightarrow> OnFailedSend E orig redirect error_type M
      | Op_accept a \<Rightarrow> andThen (AcceptTunnel E a M) (\<lambda>(_, M). Inr M)
      | Op_decline a \<Rightarrow> DeclineTunnel E a M
      | Op_closed a \<Rightarrow> OnChannelClosed E a M
      | Op_posted i \<Rightarrow> take_message E i M
      | Op_writable a waiting \<Rightarrow> OnTransportWritable a waiting M
      | Op_candidates a name candidates \<Rightarrow> OnTransportProxyCandidatesReady E a name candidates M)"

text \<open>The application accepts and declines sessions that were offered to it, channels and transports belong to sessions that exist, and random identifiers are new.\<close>

definition allowed :: "'x Env \<Rightarrow> 'x Manager \<Rightarrow> 'x sig_op \<Rightarrow> bool" where
  "allowed E M x \<longleftrightarrow>
     (case x of
        Op_create sid _ _ \<Rightarrow> map_of (sm_session_map M) sid = None
      | Op_message _ parsed \<Rightarrow> (\<forall>msg. parsed = Some msg \<longrightarrow> incoming_ok E M msg)
      | Op_response _ \<Rightarrow> True
      | Op_failed _ _ _ \<Rightarrow> True
      | Op_accept a \<Rightarrow> (\<exists>s. sm_objects M a = Some s \<and> s_remote_description s \<noteq> None)
      | Op_decline a \<Rightarrow> sm_objects M a \<noteq> None
      | Op_closed a \<Rightarrow> sm_objects M a \<noteq> None
      | Op_posted i \<Rightarrow> i < length (sm_posted M)
      | Op_writable a _ \<Rightarrow> sm_objects M a \<noteq> None
      | Op_candidates a _ _ \<Rightarrow> sm_objects M a \<noteq> None)"

inductive sig_run :: "'x Env \<Rightarrow> string \<Rightarrow> string \<Rightarrow> 'x Manager \<Rightarrow> bool" for E jid ns where
  sig_start: "new_TunnelSessionClient jid ns new_SessionManager = Inr M \<Longrightarrow> sig_run E jid ns M"
| sig_step: "sig_run E jid ns M \<Longrightarrow> allowed E M x \<Longrightarrow> run_op E x M = Inr M' \<Longrightarrow> sig_run E jid ns M'"

lemma start_ok: "new_TunnelSessionClient jid ns new_SessionManager = Inr M \<Longrightarrow> books M"
  by (auto simp: new_TunnelSessionClient_def new_SessionManager_def AddClient_def GetClient_def books_def wired_def map_inv_def)

lemma run_op_ok:
  assumes "books M" and "\<And>a. e_connect E a" and "allowed E M x"
  shows "call_ok M (run_op E x M)"
proof (cases x)
  case (Op_create sid dest description)
  then have "map_of (sm_session_map M) sid = None" using assms(3) by (simp add: allowed_def)
  from CreateTunnel_ok [OF assms(1) this] obtain b M' where "CreateTunnel E sid dest description M = Inr (b, M')" "books M'"
    "\<And>a s. sm_objects M a = Some s \<Longrightarrow> sm_objects M' a = Some s" by blast
  then show ?thesis using Op_create by (auto simp: run_op_def call_ok_def intro: evolved_kept)
next
  case (Op_message sender parsed)
  then show ?thesis using OnIncomingMessage_ok [OF assms(1,2)] assms(3) by (simp add: run_op_def allowed_def)
next
  case (Op_response orig)
  then show ?thesis using OnIncomingResponse_ok [OF assms(1)] by (simp add: run_op_def)
next
  case (Op_failed orig redirect error_type)
  then show ?thesis using OnFailedSend_ok [OF assms(1)] by (simp add: run_op_def)
next
  case (Op_accept a)
  then obtain s sd where "sm_objects M a = Some s" "s_remote_description s = Some sd" using assms(3) by (auto simp: allowed_def)
  then have "op_ok a M (andThen (AcceptTunnel E a M) (\<lambda>(_, M). Inr M))" using assms by (intro drop_result AcceptTunnel_ok)
  then show ?thesis using Op_accept call_ok_op by (simp add: run_op_def)
next
  case (Op_decline a)
  then obtain s where s: "sm_objects M a = Some s" using assms(3) by (auto simp: allowed_def)
  then have "op_ok a M (DeclineTunnel E a M)"
    unfolding DeclineTunnel_def using books_obj [OF assms(1)] by (intro drop_result Reject_ok [OF assms(1) s]) (simp add: sess_ok_def)
  then show ?thesis using Op_decline call_ok_op by (simp add: run_op_def)
next
  case (Op_closed a)
  then obtain s where s: "sm_objects M a = Some s" using assms(3) by (auto simp: allowed_def)
  have "op_ok a M (OnChannelClosed E a M)" unfolding OnChannelClosed_def Terminate_def by (intro drop_result TerminateWithReason_ok [OF assms(1) s])
  then show ?thesis using Op_closed call_ok_op by (simp add: run_op_def)
next
  case (Op_posted i)
  obtain a m where m: "sm_posted M ! i = (a, m)" by fastforce
  have i: "i < length (sm_posted M)" using Op_posted assms(3) by (simp add: allowed_def)
  show ?thesis using take_message_ok [OF assms(1) i m, of E] Op_posted evolved_handled by (auto simp: run_op_def call_ok_def)
next
  case (Op_writable a waiting)
  then show ?thesis using OnTransportWritable_ok [OF assms(1)] assms(3) by (simp add: run_op_def allowed_def)
next
  case (Op_candidates a name candidates)
  then obtain s where s: "sm_objects M a = Some s" using assms(3) by (auto simp: allowed_def)
  then show ?thesis using call_ok_op [OF OnTransportProxyCandidatesReady_ok [OF assms(1) s]] Op_candidates by (simp add: run_op_def)
qed

lemma sig_books:
  assumes "sig_run E jid ns M" and "\<And>a. e_connect E a"
  shows "books M"
  using assms(1)
proof induction
  case (sig_step M x M')
  have "call_ok M (run_op E x M)" by (rule run_op_ok [OF sig_step.IH assms(2) sig_step.hyps(2)])
  then show ?case using sig_step by (auto simp: call_ok_def)
qed (rule start_ok)

subsection \<open>The end of a session\<close>

lemma SetState_state:
  assumes "books M" and "sm_objects M a = Some s" and "may_enter E a st s" and "SetState E a st M = Inr M'"
  shows "\<exists>s'. sm_objects M' a = Some s' \<and> s_state s' = st"
proof (cases "st = s_state s")
  case False
  let ?s = "s\<lparr>s_state := st\<rparr>"
  have l: "s_listener s" using books_obj [OF assms(1,2)] by (simp add: sess_ok_def)
  have w: "wired (setS a ?s M)" using assms(1,2) unfolding books_def wired_def setS_def by auto
  obtain M2 where "OnSessionState E (\<lambda>_. Inr) a st (setS a ?s M) = Inr M2" "sm_objects M2 = sm_objects (setS a ?s M)"
    using OnSessionState_ok [OF w, of a ?s E st] assms(3) by (auto simp: may_enter_def)
  then have "sm_objects M' a = Some ?s" using assms(2,4) False l by (auto simp: SetState_def SetState_with_def Let_def)
  then show ?thesis by simp
qed (use assms(2,4) in \<open>simp add: SetState_def SetState_with_def\<close>)

lemma Terminate_state:
  assumes "books M" and "sm_objects M a = Some s" and "TerminateWithReason E a reason M = Inr (r, M')"
  shows "\<exists>s'. sm_objects M' a = Some s' \<and> s_state s' \<in> terminated"
proof (cases "s_state s \<in> terminated")
  case False
  have m: "may_enter E a STATE_SENTTERMINATE s" by (simp add: may_enter_def)
  have "SetState E a STATE_SENTTERMINATE M = Inr M' \<or> (\<exists>st. SetState E a STATE_SENTTERMINATE (emit st M) = Inr M')"
    using assms(2,3) False
    by (auto simp: TerminateWithReason_def SendTerminateMessage_def SendMessage_def terminated_def andThen_def split: if_splits sum.splits)
  then have "\<exists>s'. sm_objects M' a = Some s' \<and> s_state s' = STATE_SENTTERMINATE"
    using SetState_state [OF assms(1,2) m] SetState_state [of "emit _ M", OF _ _ m] assms(1,2) by (auto simp: books_emit)
  then show ?thesis by (auto simp: terminated_def)
qed (use assms(2,3) in \<open>simp add: TerminateWithReason_def terminated_def\<close>)

lemma terminated_destroyed:
  assumes "books M" and "i < length (sm_posted M)" and "sm_posted M ! i = (a, MSG_STATE)" and "sm_objects M a = Some s" and "s_state s \<in> terminated"
  shows "\<exists>M'. take_message E i M = Inr M' \<and> books M' \<and> sm_objects M' = (sm_objects M)(a := None)"
proof -
  let ?M = "M\<lparr>sm_posted := take i (sm_posted M) @ drop (Suc i) (sm_posted M)\<rparr>"
  obtain M' where "DestroySession E a ?M = Inr M'" "books M'" "sm_objects M' = (sm_objects M)(a := None)"
    using DestroySession_ok [OF removed_books_but [OF assms(1-3)], of s E] assms(4) by auto
  then show ?thesis using assms(3-5) by (auto simp: take_message_def Session_OnMessage_def BaseSession_OnMessage_def terminated_def)
qed

lemma books_gone:
  assumes "books M" and "sm_objects M a = None"
  shows "map_of (sm_session_map M) sid \<noteq> Some a" and "Some a \<notin> tn_session ` set (tc_sessions M)" and "(a, m) \<notin> set (sm_posted M)"
proof -
  have w: "map_of (sm_session_map M) sid = Some a \<longleftrightarrow> (\<exists>s. sm_objects M a = Some s \<and> s_id s = sid)"
    "Some a \<in> tn_session ` set (tc_sessions M) \<longleftrightarrow> sm_objects M a \<noteq> None" "\<forall>p \<in> set (sm_posted M). sm_objects M (fst p) \<noteq> None"
    using assms(1) by (simp_all add: books_def wired_def)
  show "map_of (sm_session_map M) sid \<noteq> Some a" "Some a \<notin> tn_session ` set (tc_sessions M)" using w(1,2) assms(2) by simp_all
  show "(a, m) \<notin> set (sm_posted M)" using w(3) assms(2) by force
qed

subsection \<open>Shutdown\<close>

definition closing :: "TunnelSession list \<Rightarrow> 'x Manager \<Rightarrow> bool" where
  "closing ts M \<longleftrightarrow>
     tc_shutdown M \<and> list_all tunnel_ok ts \<and> distinct (map tn_session ts) \<and> (\<forall>a. Some a \<in> tn_session ` set ts \<longleftrightarrow> sm_objects M a \<noteq> None) \<and>
     map_inv (sm_session_map M) \<and> (\<forall>sid a. map_of (sm_session_map M) sid = Some a \<longleftrightarrow> (\<exists>s. sm_objects M a = Some s \<and> s_id s = sid)) \<and>
     (\<forall>p \<in> set (sm_posted M). sm_objects M (fst p) \<noteq> None) \<and> (\<forall>a s. sm_objects M a = Some s \<longrightarrow> s_state s \<noteq> STATE_DEINIT)"

lemma closing_empty: "closing [] M \<Longrightarrow> sm_objects M = (\<lambda>_. None) \<and> sm_session_map M = [] \<and> sm_posted M = []"
proof -
  assume c: "closing [] M"
  then have o: "sm_objects M = (\<lambda>_. None)" by (auto simp: closing_def)
  then have "map_of (sm_session_map M) sid = None" for sid using c by (cases "map_of (sm_session_map M) sid") (auto simp: closing_def)
  then have "sm_session_map M = []" by (cases "sm_session_map M") (auto split: if_splits, metis option.distinct(1))
  moreover have "sm_posted M = []" using c o by (cases "sm_posted M") (auto simp: closing_def)
  ultimately show ?thesis using o by simp
qed

lemma closing_step:
  assumes "closing (tn # ts) M"
  shows "\<exists>a M1 M'. ReleaseSession tn M = Inr (a, M1) \<and> DestroySession E a M1 = Inr M' \<and> closing ts M' \<and> sm_client_map M' = sm_client_map M \<and>
    tc_namespace M' = tc_namespace M"
proof -
  obtain a where a: "tn_session tn = Some a" using assms by (auto simp: closing_def tunnel_ok_def)
  have "Some a \<in> tn_session ` set (tn # ts)" using a by (simp add: image_iff)
  then obtain s where s: "sm_objects M a = Some s" using assms unfolding closing_def by blast
  let ?M1 = "setS a (s\<lparr>s_listener := False\<rparr>) M"
  define M' where "M' = M\<lparr>sm_objects := (sm_objects M)(a := None), sm_session_map := map_erase (s_id s) (sm_session_map M),
    sm_posted := filter (\<lambda>p. fst p \<noteq> a) (sm_posted M)\<rparr>"
  have w: "map_of (sm_session_map M) sid = Some b \<longleftrightarrow> (\<exists>s. sm_objects M b = Some s \<and> s_id s = sid)" for sid b using assms by (simp add: closing_def)
  have own: "map_of (sm_session_map M) (s_id s) = Some a" using w s by blast
  have n: "tc_shutdown M" "s_state s \<noteq> STATE_DEINIT" using assms s by (auto simp: closing_def)
  have r: "ReleaseSession tn M = Inr (a, ?M1)" using assms a s by (simp add: ReleaseSession_def modS_def closing_def tunnel_ok_def)
  have d: "DestroySession E a ?M1 = Inr M'"
    using n s own by (simp add: DestroySession_def OnSessionDestroy_def delete_Session_def Let_def setS_def getS_def M'_def)
  have "map_of (sm_session_map M') sid = Some b \<longleftrightarrow> (\<exists>s. sm_objects M' b = Some s \<and> s_id s = sid)" for sid b
    using w [of sid b] own s by (auto simp: map_of_erase M'_def)
  moreover have "Some b \<in> tn_session ` set ts \<longleftrightarrow> sm_objects M' b \<noteq> None" for b
    using assms a unfolding closing_def M'_def by (cases "b = a") auto
  ultimately have "closing ts M'" using assms unfolding closing_def by (auto simp: M'_def map_inv_erase)
  then show ?thesis using r d by (auto simp: M'_def)
qed

lemma release_all_ok:
  assumes "closing ts M"
  shows "\<exists>M'. release_all E ts M = Inr M' \<and> closing [] M' \<and> sm_client_map M' = sm_client_map M \<and> tc_namespace M' = tc_namespace M"
  using assms
proof (induction ts arbitrary: M)
  case (Cons tn ts)
  obtain a M1 M2 where "ReleaseSession tn M = Inr (a, M1)" "DestroySession E a M1 = Inr M2" "closing ts M2" "sm_client_map M2 = sm_client_map M"
    "tc_namespace M2 = tc_namespace M" using closing_step [OF Cons.prems, of E] by blast
  then show ?case using Cons.IH by fastforce
qed simp

lemma books_closing: "books M \<Longrightarrow> closing (tc_sessions M) (M\<lparr>tc_shutdown := True\<rparr>)"
  unfolding books_def wired_def closing_def by (auto simp: sess_ok_def)

lemma one_tunnel:
  assumes "list_all tunnel_ok ts" and "distinct (map tn_session ts)"
  shows "length (filter (\<lambda>tn. tn_session tn = Some a \<and> tn_channel tn \<noteq> None) ts) = (if Some a \<in> tn_session ` set ts then 1 else 0)"
  using assms
proof (induction ts)
  case (Cons tn ts)
  then show ?case by (cases "tn_session tn = Some a") (auto simp: tunnel_ok_def)
qed simp

subsection \<open>Two ends\<close>

text \<open>What one side writes the other side reads.\<close>

definition codec :: "'x Env \<Rightarrow> 'x Env \<Rightarrow> bool" where
  "codec E E' \<longleftrightarrow>
     (\<forall>protocol action. e_write E protocol action \<noteq> None) \<and>
     (\<forall>protocol sd x. e_write E protocol (Initiate_action sd) = Some x \<longrightarrow>
        e_parse_initiate E' x = Some sd \<and> (\<forall>c cs. sd_contents sd = c # cs \<longrightarrow> e_content_type E' x = Some (ci_type c))) \<and>
     (\<forall>protocol sd x. e_write E protocol (Accept_action sd) = Some x \<longrightarrow> e_parse_accept E' x = Some sd)"

lemma codec_write: "codec E E' \<Longrightarrow> \<exists>x. e_write E protocol action = Some x"
  by (auto simp: codec_def)

lemma codec_initiate:
  "codec E E' \<Longrightarrow> e_write E protocol (Initiate_action sd) = Some x \<Longrightarrow> sd_contents sd = c # cs \<Longrightarrow>
   e_parse_initiate E' x = Some sd \<and> e_content_type E' x = Some (ci_type c)"
  by (auto simp: codec_def)

lemma codec_accept: "codec E E' \<Longrightarrow> e_write E protocol (Accept_action sd) = Some x \<Longrightarrow> e_parse_accept E' x = Some sd"
  by (auto simp: codec_def)

text \<open>The description that both sides send: one tunnel, without candidates.\<close>

definition tunnel_description :: "string \<Rightarrow> SessionDescription" where
  "tunnel_description description =
     \<lparr>sd_contents = [\<lparr>ci_name = CN_TUNNEL, ci_type = NS_TUNNEL, ci_rejected = False, ci_description = description\<rparr>],
      sd_transports = [\<lparr>ti_content_name = CN_TUNNEL, ti_transport_type = NS_GINGLE_P2P, ti_candidates = []\<rparr>], sd_groups = []\<rparr>"

definition with_transport :: "string \<Rightarrow> SessionDescription \<Rightarrow> SessionDescription" where
  "with_transport t sd = sd\<lparr>sd_transports := [\<lparr>ti_content_name = CN_TUNNEL, ti_transport_type = t, ti_candidates = []\<rparr>]\<rparr>"

lemma single_session: "map_insert sid (0 :: nat) (map_erase sid []) = [(sid, 0)]"
  by (simp add: map_erase_def)

lemmas run_defs = single_session with_transport_def run_op_def CreateTunnel_def CreateOffer_def NewTunnelSessionDescription_def AddContent_def AddTransportInfo_def GetTransportInfoByName_def
  GetClient_def CreateSession_def Let_def OnSessionCreate_def MakeTunnelSession_def modS_def getS_def setS_def new_Session_def Initiate_def GetEmptyTransportInfos_def
  GetOrCreateTransportProxy_def SendInitiateMessage_def WriteActionMessage_def SendMessage_def tunnel_description_def SetState_def SetState_with_def OnSessionState_def
  post_def emit_def GetStream_def call_channel_def new_TunnelSession_def HasSession_def new_TransportProxy_def

lemmas message_defs = deliver_def WriteSessionMessage_def WriteJingleAction_def WriteGingleAction_def ParseSessionMessage_def ParseHybridSessionMessage_def
  ParseJingleSessionMessage_def Attr_def Let_def

definition new_end :: "string \<Rightarrow> 'x Manager" where
  "new_end jid = \<lparr>sm_objects = (\<lambda>_. None), sm_fresh = 0, sm_session_map = [], sm_client_map = [NS_TUNNEL], sm_posted = [], sm_out = [],
     tc_jid = jid, tc_namespace = NS_TUNNEL, tc_sessions = [], tc_shutdown = False\<rparr>"

text \<open>An end with one session.\<close>

definition end_with :: "string \<Rightarrow> Session \<Rightarrow> ChannelCall list \<Rightarrow> (nat \<times> SessionMsg) list \<Rightarrow> 'x Stanza list \<Rightarrow> 'x Manager" where
  "end_with jid s cs posted out = \<lparr>sm_objects = [0 \<mapsto> s], sm_fresh = 1, sm_session_map = [(s_id s, 0)], sm_client_map = [NS_TUNNEL], sm_posted = posted,
     sm_out = out, tc_jid = jid, tc_namespace = NS_TUNNEL, tc_sessions = [\<lparr>tn_session = Some 0, tn_channel = Some cs\<rparr>], tc_shutdown = False\<rparr>"

definition tunnel_session :: "string \<Rightarrow> bool \<Rightarrow> string \<Rightarrow> string \<Rightarrow> string \<Rightarrow> State \<Rightarrow> SessionDescription option \<Rightarrow> SessionDescription option \<Rightarrow> SignalingProtocol \<Rightarrow> bool \<Rightarrow> Session" where
  "tunnel_session sid initiator local_name initiator_name remote_name state local_description remote_description protocol acked =
     \<lparr>s_id = sid, s_content_type = NS_TUNNEL, s_initiator = initiator, s_local_name = local_name, s_initiator_name = initiator_name, s_remote_name = remote_name,
      s_state = state, s_error = ERROR_NONE, s_local_description = local_description, s_remote_description = remote_description,
      s_proxies = [(CN_TUNNEL, new_TransportProxy)], s_initiate_acked = acked, s_current_protocol = protocol, s_listener = True\<rparr>"

lemma new_end: "new_TunnelSessionClient jid NS_TUNNEL new_SessionManager = Inr (new_end jid)"
  by (simp add: new_TunnelSessionClient_def new_SessionManager_def AddClient_def GetClient_def new_end_def)

lemma caller_starts:
  assumes "codec E E'" and "e_offer_transport E = Some t"
  shows "\<exists>x y. run_op E (Op_create sid peer description) (new_end jid) =
      Inr (end_with jid (tunnel_session sid True jid jid peer STATE_SENTINITIATE
        (Some (with_transport t (tunnel_description description))) None PROTOCOL_HYBRID False)
        [Call_GetStream] [(0, MSG_STATE)]
        [Out_message peer ACTION_SESSION_INITIATE sid jid [(PROTOCOL_JINGLE, x), (PROTOCOL_GINGLE, y)]]) \<and>
    e_write E PROTOCOL_JINGLE (Initiate_action (tunnel_description description)) = Some x"
proof -
  obtain x y where "e_write E PROTOCOL_JINGLE (Initiate_action (tunnel_description description)) = Some x"
    "e_write E PROTOCOL_GINGLE (Initiate_action (tunnel_description description)) = Some y" using codec_write [OF assms(1)] by blast
  then show ?thesis using assms(2) by (simp add: run_defs new_end_def end_with_def tunnel_session_def)
qed

lemma names: "ToActionType (ToJingleString ACTION_SESSION_INITIATE) = ACTION_SESSION_INITIATE" "ToActionType (ToJingleString ACTION_SESSION_ACCEPT) = ACTION_SESSION_ACCEPT"
  by (simp_all only: action_round_trip) simp_all

lemma initiate_arrives: "deliver sender (Out_message dest ACTION_SESSION_INITIATE sid initiator [(PROTOCOL_JINGLE, x), (PROTOCOL_GINGLE, y)]) =
    Some \<lparr>m_protocol = PROTOCOL_HYBRID, m_type = ACTION_SESSION_INITIATE, m_sid = sid, m_from = sender, m_to = dest, m_initiator = initiator, m_action = x\<rparr>"
  using names by (simp add: message_defs)

lemma accept_arrives: "deliver sender (Out_message dest ACTION_SESSION_ACCEPT sid initiator [(PROTOCOL_JINGLE, x)]) =
    Some \<lparr>m_protocol = PROTOCOL_JINGLE, m_type = ACTION_SESSION_ACCEPT, m_sid = sid, m_from = sender, m_to = dest, m_initiator = [], m_action = x\<rparr>"
  using names by (simp add: message_defs)

lemma Jid_eq_refl: "Jid_eq j j"
  by (simp add: Jid_eq_def)

lemmas receive_defs = OnIncomingMessage_def FindSession_def Session_OnIncomingMessage_def update_protocol_def dispatch_def OnInitiateMessage_def OnIncomingTunnel_def
  FindTunnelContent_def FirstContentByType_def FindContentInfoByType_def AcceptTunnel_def CreateAnswer_def Accept_def SendAcceptMessage_def OnAccept_def
  OnAcceptMessage_def OnInitiateAcked_def SendAllUnsentTransportInfoMessages_def Jid_eq_refl

lemma callee_accepts:
  assumes "codec E' E" and "codec E E'" and "e_write E' PROTOCOL_JINGLE (Initiate_action (tunnel_description description)) = Some x"
    and "e_incoming E peer description = Reply_accept" and "\<And>ti. e_answer_transport E ti = Some t" and "\<And>a. e_connect E a" and "e_candidates_ok E []"
    and "peer \<noteq> jid"
  shows "\<exists>z. run_op E (Op_message peer (Some \<lparr>m_protocol = PROTOCOL_HYBRID, m_type = ACTION_SESSION_INITIATE, m_sid = sid, m_from = peer, m_to = jid,
        m_initiator = peer, m_action = x\<rparr>)) (new_end jid) =
      Inr (end_with jid (tunnel_session sid False jid peer peer STATE_SENTACCEPT
        (Some (with_transport t (tunnel_description description))) (Some (tunnel_description description)) PROTOCOL_JINGLE False)
        [Call_Connect CN_TUNNEL, Call_GetStream] [(0, MSG_STATE), (0, MSG_STATE)]
        [Out_message peer ACTION_SESSION_ACCEPT sid peer [(PROTOCOL_JINGLE, z)], Out_ack peer]) \<and>
    e_write E PROTOCOL_JINGLE (Accept_action (tunnel_description description)) = Some z"
proof -
  obtain z where z: "e_write E PROTOCOL_JINGLE (Accept_action (tunnel_description description)) = Some z" using codec_write [OF assms(2)] by blast
  have "e_parse_initiate E x = Some (tunnel_description description)" "e_content_type E x = Some NS_TUNNEL"
    using codec_initiate [OF assms(1,3)] by (simp_all add: tunnel_description_def)
  then show ?thesis using assms(4-) z by (simp add: run_defs receive_defs new_end_def end_with_def tunnel_session_def)
qed

lemma caller_accepted:
  assumes "e_parse_accept E x = Some (tunnel_description description)" and "\<And>a. e_connect E a" and "e_candidates_ok E []"
  shows "run_op E (Op_message peer (Some \<lparr>m_protocol = PROTOCOL_JINGLE, m_type = ACTION_SESSION_ACCEPT, m_sid = sid, m_from = peer, m_to = jid,
        m_initiator = [], m_action = x\<rparr>))
      (end_with jid (tunnel_session sid True jid jid peer STATE_SENTINITIATE offer None PROTOCOL_HYBRID False) [Call_GetStream] posted out) =
    Inr (end_with jid (tunnel_session sid True jid jid peer STATE_RECEIVEDACCEPT offer (Some (tunnel_description description)) PROTOCOL_JINGLE True)
      [Call_GetStream, Call_Connect CN_TUNNEL] (posted @ [(0, MSG_STATE)]) (out @ [Out_ack peer]))"
  using assms by (simp add: run_defs receive_defs end_with_def tunnel_session_def)

lemma accepted_in_progress:
  assumes "s_state s = STATE_SENTACCEPT \<or> s_state s = STATE_RECEIVEDACCEPT" and "s_listener s"
  shows "run_op E (Op_posted 0) (end_with jid s cs ((0, MSG_STATE) # posted) out) =
    Inr (end_with jid (s\<lparr>s_state := STATE_INPROGRESS\<rparr>) cs (posted @ [(0, MSG_STATE)]) out)"
  using assms by (auto simp: run_defs take_message_def Session_OnMessage_def BaseSession_OnMessage_def end_with_def)

subsection \<open>A transparent codec\<close>

text \<open>Elements that are what they describe. With them the laws asked of the parameters hold, so that every call can be computed.\<close>

definition plain_env :: "Action option Env" where
  "plain_env =
     \<lparr>e_write = (\<lambda>_ act. Some (Some act)), e_write_terminate = (\<lambda>_ _. None),
      e_parse_initiate = (\<lambda>x. case x of Some (Initiate_action sd) \<Rightarrow> Some sd | _ \<Rightarrow> None),
      e_parse_accept = (\<lambda>x. case x of Some (Accept_action sd) \<Rightarrow> Some sd | _ \<Rightarrow> None),
      e_parse_terminate = (\<lambda>x. x = None), e_parse_transports = (\<lambda>_ x. case x of Some (Transport_action t) \<Rightarrow> Some [t] | _ \<Rightarrow> None),
      e_parse_description_info = (\<lambda>_. False),
      e_content_type = (\<lambda>x. case x of Some (Initiate_action sd) \<Rightarrow> (case sd_contents sd of c # _ \<Rightarrow> Some (ci_type c) | [] \<Rightarrow> None) | _ \<Rightarrow> None),
      e_candidates_ok = (\<lambda>_. True), e_offer_transport = Some NS_GINGLE_P2P, e_answer_transport = (\<lambda>_. Some NS_GINGLE_P2P),
      e_connect = (\<lambda>_. True), e_incoming = (\<lambda>_ _. Reply_accept)\<rparr>"

lemma plain_codec: "codec plain_env plain_env"
  by (auto simp: codec_def plain_env_def)

lemma plain_connect: "e_connect plain_env a"
  by (simp add: plain_env_def)

text \<open>A client that has called a peer.\<close>

definition demo :: "Action option Manager" where
  "demo = end_with ''a@b/c'' (tunnel_session ''1'' True ''a@b/c'' ''a@b/c'' ''d@e/f'' STATE_SENTINITIATE (Some (tunnel_description ''send:x'')) None PROTOCOL_HYBRID False)
     [Call_GetStream] [(0, MSG_STATE)]
     [Out_message ''d@e/f'' ACTION_SESSION_INITIATE ''1'' ''a@b/c''
       [(PROTOCOL_JINGLE, Some (Initiate_action (tunnel_description ''send:x''))), (PROTOCOL_GINGLE, Some (Initiate_action (tunnel_description ''send:x'')))]]"

lemma demo_run: "sig_run plain_env ''a@b/c'' NS_TUNNEL demo"
proof (rule sig_step [OF sig_start [OF new_end], where x = "Op_create ''1'' ''d@e/f'' ''send:x''"])
  show "allowed plain_env (new_end ''a@b/c'') (Op_create ''1'' ''d@e/f'' ''send:x'')" by (simp add: allowed_def new_end_def)
  show "run_op plain_env (Op_create ''1'' ''d@e/f'' ''send:x'') (new_end ''a@b/c'') = Inr demo"
    by (simp add: run_defs new_end_def end_with_def tunnel_session_def demo_def plain_env_def)
qed

lemma demo_object: "sm_objects demo 0 = Some (tunnel_session ''1'' True ''a@b/c'' ''a@b/c'' ''d@e/f'' STATE_SENTINITIATE (Some (tunnel_description ''send:x'')) None PROTOCOL_HYBRID False)"
  by (simp add: demo_def end_with_def)

subsection \<open>Properties\<close>





text \<open>Property C13: sessions follow the state machine. Over any call, a session that existed before keeps its identifier and its role and moves along the machine, or it is
  gone, and then it was terminated before.\<close>

theorem session_lifecycle:
  assumes "sig_run E jid ns M" and "\<And>a. e_connect E a" and "allowed E M x" and "run_op E x M = Inr M'" and "sm_objects M a = Some s"
  shows "case sm_objects M' a of
      None \<Rightarrow> s_state s \<in> terminated
    | Some s' \<Rightarrow> s_id s' = s_id s \<and> s_initiator s' = s_initiator s \<and> state_move\<^sup>*\<^sup>* (s_state s) (s_state s')"
  using run_op_ok [OF sig_books [OF assms(1,2)] assms(2,3)] assms(4,5) by (simp add: call_ok_def evolved_def)

theorem session_lifecycle_witness:
  "case sm_objects (demo\<lparr>sm_posted := []\<rparr>) 0 of
     None \<Rightarrow> STATE_SENTINITIATE \<in> terminated
   | Some s' \<Rightarrow> s_id s' = ''1'' \<and> s_initiator s' \<and> state_move\<^sup>*\<^sup>* STATE_SENTINITIATE (s_state s')"
proof -
  have "run_op plain_env (Op_posted 0) demo = Inr (demo\<lparr>sm_posted := []\<rparr>)" and a: "allowed plain_env demo (Op_posted 0)"
    by (simp_all add: run_defs take_message_def Session_OnMessage_def BaseSession_OnMessage_def demo_def end_with_def tunnel_session_def allowed_def)
  from session_lifecycle [OF demo_run plain_connect a this(1) demo_object] show ?thesis by (simp add: tunnel_session_def demo_object)
qed

text \<open>Property C14: a tunnel that is closed is cleaned up. When the channel of a session reports that it is closed, the session is terminated and its message is posted, and
  when the thread takes that message nothing is left of the session: no object, no entry in the map, no tunnel and no other message.\<close>

theorem closed_session_destroyed:
  assumes "sig_run E jid ns M" and "\<And>a. e_connect E a" and "sm_objects M a = Some s"
  shows "\<exists>M1 i M2. OnChannelClosed E a M = Inr M1 \<and> i < length (sm_posted M1) \<and> sm_posted M1 ! i = (a, MSG_STATE) \<and>
    take_message E i M1 = Inr M2 \<and> sm_objects M2 = (sm_objects M1)(a := None) \<and> map_of (sm_session_map M2) (s_id s) = None \<and>
    Some a \<notin> tn_session ` set (tc_sessions M2) \<and> a \<notin> fst ` set (sm_posted M2)"
proof -
  have b: "books M" by (rule sig_books [OF assms(1,2)])
  obtain r M1 where M1: "Terminate E a M = Inr (r, M1)" "on_session a M M1" "books M1"
    using TerminateWithReason_ok [OF b assms(3)] unfolding op_ok2_def Terminate_def by blast
  obtain s1 where s1: "sm_objects M1 a = Some s1" "s_state s1 \<in> terminated" using Terminate_state [OF b assms(3)] M1(1) unfolding Terminate_def by blast
  have "(a, MSG_STATE) \<in> set (sm_posted M1)" using books_obj [OF M1(3) s1(1)] s1(2) by (auto simp: sess_ok_def settling_def terminated_def)
  then obtain i where i: "i < length (sm_posted M1)" "sm_posted M1 ! i = (a, MSG_STATE)" by (auto simp: in_set_conv_nth)
  obtain M2 where M2: "take_message E i M1 = Inr M2" "books M2" "sm_objects M2 = (sm_objects M1)(a := None)"
    using terminated_destroyed [OF M1(3) i s1] by blast
  have g: "sm_objects M2 a = None" using M2(3) by simp
  have id: "s_id s1 = s_id s" using M1(2) assms(3) s1(1) by (auto simp: on_session_def obj_move_def)
  have "map_of (sm_session_map M2) (s_id s) = None"
  proof (rule ccontr)
    assume "map_of (sm_session_map M2) (s_id s) \<noteq> None"
    then obtain b t where t: "sm_objects M2 b = Some t" "s_id t = s_id s" using M2(2) unfolding books_def wired_def by blast
    then have "b \<noteq> a" "sm_objects M1 b = Some t" using M2(3) g by (auto split: if_splits)
    moreover have "b = a" using M1(3) s1(1) id t(2) \<open>sm_objects M1 b = Some t\<close> unfolding books_def wired_def by (metis option.inject)
    ultimately show False by simp
  qed
  moreover have "a \<notin> fst ` set (sm_posted M2)" using books_gone(3) [OF M2(2) g] by auto
  ultimately show ?thesis using M1(1) i M2 books_gone(2) [OF M2(2) g] by (intro exI [of _ M1] exI [of _ i] exI [of _ M2]) (simp add: OnChannelClosed_def)
qed

theorem closed_session_destroyed_witness:
  "\<exists>M1 i M2. OnChannelClosed plain_env 0 demo = Inr M1 \<and> i < length (sm_posted M1) \<and> sm_posted M1 ! i = (0, MSG_STATE) \<and>
    take_message plain_env i M1 = Inr M2 \<and> sm_objects M2 = (sm_objects M1)(0 := None) \<and> map_of (sm_session_map M2) ''1'' = None \<and>
    Some 0 \<notin> tn_session ` set (tc_sessions M2) \<and> 0 \<notin> fst ` set (sm_posted M2)"
  using closed_session_destroyed [OF demo_run plain_connect demo_object] by (simp add: tunnel_session_def)

text \<open>The destructor of the client destroys all its sessions, so that the destructor of the manager finds its map empty.\<close>

theorem client_deleted:
  assumes "sig_run E jid ns M" and "\<And>a. e_connect E a"
  shows "\<exists>M'. delete_client E M = Inr M' \<and> sm_objects M' = (\<lambda>_. None) \<and> sm_posted M' = [] \<and> delete_Manager M' = Inr ()"
proof -
  have b: "books M" by (rule sig_books [OF assms])
  obtain M1 where M1: "release_all E (tc_sessions M) (M\<lparr>tc_shutdown := True\<rparr>) = Inr M1" "closing [] M1" "sm_client_map M1 = sm_client_map M"
    "tc_namespace M1 = tc_namespace M" using release_all_ok [OF books_closing [OF b], of E] by auto
  have "GetClient (tc_namespace M) M" using b by (simp add: books_def wired_def GetClient_def)
  then show ?thesis using M1 closing_empty [OF M1(2)]
    by (simp add: delete_client_def RemoveClient_def GetClient_def delete_Manager_def)
qed

text \<open>\<open>TerminateAll\<close> never returns when there is a session: terminating one does not take it out of the map, which only a posted message does.\<close>

theorem terminate_all_hangs:
  assumes "sig_run E jid ns M" and "\<And>a. e_connect E a" and "sm_session_map M \<noteq> []"
  shows "TerminateAll E M = None"
proof (rule ccontr)
  assume "TerminateAll E M \<noteq> None"
  then obtain r where "TerminateAll E M = Some r" by blast
  then have "books M \<longrightarrow> sm_session_map M = []"
  proof (induction rule: TerminateAll.raw_induct [rotated, consumes 1, case_names step])
    case (step TA E M r)
    show ?case
    proof (rule impI, rule ccontr)
      assume b: "books M" and n: "sm_session_map M \<noteq> []"
      then obtain sid a m where m: "sm_session_map M = (sid, a) # m" by (metis list.exhaust prod.exhaust)
      then have "map_of (sm_session_map M) sid = Some a" by simp
      then obtain s where s: "sm_objects M a = Some s" using b unfolding books_def wired_def by blast
      obtain x M' where M': "Terminate E a M = Inr (x, M')" "on_session a M M'" "books M'"
        using TerminateWithReason_ok [OF b s] unfolding op_ok2_def Terminate_def by blast
      then have "sm_session_map M' \<noteq> []" using m by (simp add: on_session_def)
      then show False using step M' m by auto
    qed
  qed
  then show False using sig_books [OF assms(1,2)] assms(3) by simp
qed



subsection \<open>Peers that break the rules\<close>

definition demo_message :: "ActionType \<Rightarrow> string \<Rightarrow> string \<Rightarrow> string \<Rightarrow> Action option \<Rightarrow> Action option SessionMessage" where
  "demo_message type sender dest initiator x =
     \<lparr>m_protocol = PROTOCOL_JINGLE, m_type = type, m_sid = ''1'', m_from = sender, m_to = dest, m_initiator = initiator, m_action = x\<rparr>"

text \<open>An initiate with the identifier of a session of another peer takes its place in the map: the old session exists, but no message of its peer reaches it.\<close>

theorem known_id_overwrites:
  "\<exists>M. OnIncomingMessage plain_env ''m@n/o'' (Some (demo_message ACTION_SESSION_INITIATE ''m@n/o'' ''a@b/c'' ''m@n/o'' (Some (Initiate_action (tunnel_description []))))) demo = Inr M \<and>
     sm_session_map M = [(''1'', 1)] \<and> (\<exists>s. sm_objects M 0 = Some s \<and> s_id s = ''1'') \<and> FindSession ''1'' ''d@e/f'' M = Inr None"
proof -
  have j: "\<not> Jid_eq (Jid_string ''m@n/o'') (Jid_string ''d@e/f'')" "\<not> Jid_eq (Jid_string ''d@e/f'') (Jid_string ''m@n/o'')" by code_simp+
  show ?thesis
    using j by (simp add: run_defs receive_defs demo_message_def demo_def end_with_def tunnel_session_def plain_env_def map_erase_def)
qed

text \<open>An initiate whose transport is not supported is answered with an error, but its session stays: in its first state, without a peer, without a message posted, so that
  nothing will ever destroy it.\<close>

theorem refused_initiate_leaks:
  "\<exists>M s. OnIncomingMessage plain_env ''m@n/o'' (Some (demo_message ACTION_SESSION_INITIATE ''m@n/o'' ''a@b/c'' ''m@n/o''
       (Some (Initiate_action (with_transport ''udp'' (tunnel_description [])))))) (new_end ''a@b/c'') = Inr M \<and>
     sm_out M = [Out_error ''m@n/o''] \<and> sm_objects M 0 = Some s \<and> s_state s = STATE_INIT \<and> s_remote_name s = [] \<and> sm_posted M = []"
  by (simp add: run_defs receive_defs demo_message_def new_end_def plain_env_def NS_GINGLE_P2P_def)

text \<open>An initiate that names the receiver as the initiator makes a session that takes itself for the initiator. Candidates for it are parsed with the local description,
  which is missing until the tunnel is accepted.\<close>

theorem spoofed_initiator_faults:
  "\<exists>M. OnIncomingMessage (plain_env\<lparr>e_incoming := \<lambda>_ _. Reply_later\<rparr>) ''m@n/o''
       (Some (demo_message ACTION_SESSION_INITIATE ''m@n/o'' ''a@b/c'' ''a@b/c'' (Some (Initiate_action (tunnel_description []))))) (new_end ''a@b/c'') = Inr M \<and>
     OnIncomingMessage (plain_env\<lparr>e_incoming := \<lambda>_ _. Reply_later\<rparr>) ''m@n/o'' (Some (demo_message ACTION_TRANSPORT_INFO ''m@n/o'' ''a@b/c'' [] None)) M = Inl Null_pointer"
  by (simp add: run_defs receive_defs demo_message_def new_end_def plain_env_def OnTransportInfoMessage_def initiator_description_def)

text \<open>An accept without a tunnel fails an assertion of the tunnel.\<close>

theorem empty_accept_faults:
  "OnIncomingMessage plain_env ''d@e/f'' (Some (demo_message ACTION_SESSION_ACCEPT ''d@e/f'' ''a@b/c'' [] (Some (Accept_action \<lparr>sd_contents = [], sd_transports = [], sd_groups = []\<rparr>)))) demo =
     Inl Assertion_failed"
  by (simp add: run_defs receive_defs demo_message_def demo_def end_with_def tunnel_session_def plain_env_def)

text \<open>The peer is looked up by its normalised address, but asserted to be the same string.\<close>

theorem other_spelling_faults:
  "OnIncomingMessage plain_env ''D@e/f'' (Some (demo_message ACTION_SESSION_TERMINATE ''D@e/f'' ''a@b/c'' [] None)) demo = Inl Assertion_failed"
proof -
  have "Jid_eq (Jid_string ''D@e/f'') (Jid_string ''d@e/f'')" by code_simp
  then show ?thesis by (simp add: run_defs receive_defs demo_message_def demo_def end_with_def tunnel_session_def plain_env_def ASSERT_def)
qed

end
