(* ===== verification/Inotify.thy ===== *)
theory Inotify
  imports ByteOrder StdMap "HOL-Library.Char_ord" "HOL-Library.List_Lexorder"
begin

text \<open>
  The directory watcher, \<open>main/inotify-cxx.cc\<close> and \<open>main/inotify-cxx.h\<close>: events and their names,
  watches, and the \<open>Inotify\<close> object with its two indexes of watches and its queue of events.

  The kernel is the parameter \<open>Sys\<close>: each system call is a function of a kernel state, and the
  calls that may fail give a result and an \<open>errno\<close>. There is one \<open>Inotify\<close> object, as in the
  program; the watch objects live in a heap indexed by addresses, which are natural
  numbers. An operation returns, throws an \<open>InotifyException\<close> (keeping the changes made until then) or meets
  undefined behaviour; the text of an exception is without the prefix \<open>__PRETTY_FUNCTION__\<close>.
  The locks are compiled out (\<open>INOTIFY_THREAD_SAFE\<close> is not defined).
\<close>

subsection \<open>Constants of the system headers\<close>

definition IN_ACCESS :: uint32 where "IN_ACCESS = 0x1"
definition IN_MODIFY :: uint32 where "IN_MODIFY = 0x2"
definition IN_ATTRIB :: uint32 where "IN_ATTRIB = 0x4"
definition IN_CLOSE_WRITE :: uint32 where "IN_CLOSE_WRITE = 0x8"
definition IN_CLOSE_NOWRITE :: uint32 where "IN_CLOSE_NOWRITE = 0x10"
definition IN_OPEN :: uint32 where "IN_OPEN = 0x20"
definition IN_MOVED_FROM :: uint32 where "IN_MOVED_FROM = 0x40"
definition IN_MOVED_TO :: uint32 where "IN_MOVED_TO = 0x80"
definition IN_CREATE :: uint32 where "IN_CREATE = 0x100"
definition IN_DELETE :: uint32 where "IN_DELETE = 0x200"
definition IN_DELETE_SELF :: uint32 where "IN_DELETE_SELF = 0x400"
definition IN_MOVE_SELF :: uint32 where "IN_MOVE_SELF = 0x800"
definition IN_UNMOUNT :: uint32 where "IN_UNMOUNT = 0x2000"
definition IN_Q_OVERFLOW :: uint32 where "IN_Q_OVERFLOW = 0x4000"
definition IN_IGNORED :: uint32 where "IN_IGNORED = 0x8000"
definition IN_CLOSE :: uint32 where "IN_CLOSE = 0x18"
definition IN_MOVE :: uint32 where "IN_MOVE = 0xC0"
definition IN_ONLYDIR :: uint32 where "IN_ONLYDIR = 0x1000000"
definition IN_DONT_FOLLOW :: uint32 where "IN_DONT_FOLLOW = 0x2000000"
definition IN_ISDIR :: uint32 where "IN_ISDIR = 0x40000000"
definition IN_ONESHOT :: uint32 where "IN_ONESHOT = 0x80000000"
definition IN_ALL_EVENTS :: uint32 where "IN_ALL_EVENTS = 0xFFF"

lemmas in_masks = IN_ACCESS_def IN_MODIFY_def IN_ATTRIB_def IN_CLOSE_WRITE_def IN_CLOSE_NOWRITE_def
  IN_OPEN_def IN_MOVED_FROM_def IN_MOVED_TO_def IN_CREATE_def IN_DELETE_def IN_DELETE_SELF_def
  IN_MOVE_SELF_def IN_UNMOUNT_def IN_Q_OVERFLOW_def IN_IGNORED_def IN_CLOSE_def IN_MOVE_def
  IN_ONLYDIR_def IN_DONT_FOLLOW_def IN_ISDIR_def IN_ONESHOT_def IN_ALL_EVENTS_def

definition ERR_INTR :: int where "ERR_INTR = 4"
definition ERR_IO :: int where "ERR_IO = 5"
definition ERR_WOULDBLOCK :: int where "ERR_WOULDBLOCK = 11"
definition ERR_BUSY :: int where "ERR_BUSY = 16"
definition ERR_INVAL :: int where "ERR_INVAL = 22"
definition O_NONBLOCK :: uint32 where "O_NONBLOCK = 0x800"
definition FD_CLOEXEC :: uint32 where "FD_CLOEXEC = 1"

definition INOTIFY_EVENT_SIZE :: nat where "INOTIFY_EVENT_SIZE = 16"
definition INOTIFY_BUFLEN :: nat where "INOTIFY_BUFLEN = 1024 * (INOTIFY_EVENT_SIZE + 16)"
definition PROCFS_INOTIFY_BASE :: string where "PROCFS_INOTIFY_BASE = ''/proc/sys/fs/inotify/''"

subsection \<open>Event types\<close>

definition IsType :: "uint32 \<Rightarrow> uint32 \<Rightarrow> bool" where
  "IsType uValue uType \<longleftrightarrow> uValue AND uType \<noteq> 0 \<and> NOT uValue AND uType = 0"

definition GetMaskByName :: "string \<Rightarrow> uint32" where
  "GetMaskByName rName =
     (if rName = ''IN_ACCESS'' then IN_ACCESS
      else if rName = ''IN_MODIFY'' then IN_MODIFY
      else if rName = ''IN_ATTRIB'' then IN_ATTRIB
      else if rName = ''IN_CLOSE_WRITE'' then IN_CLOSE_WRITE
      else if rName = ''IN_CLOSE_NOWRITE'' then IN_CLOSE_NOWRITE
      else if rName = ''IN_OPEN'' then IN_OPEN
      else if rName = ''IN_MOVED_FROM'' then IN_MOVED_FROM
      else if rName = ''IN_MOVED_TO'' then IN_MOVED_TO
      else if rName = ''IN_CREATE'' then IN_CREATE
      else if rName = ''IN_DELETE'' then IN_DELETE
      else if rName = ''IN_DELETE_SELF'' then IN_DELETE_SELF
      else if rName = ''IN_UNMOUNT'' then IN_UNMOUNT
      else if rName = ''IN_Q_OVERFLOW'' then IN_Q_OVERFLOW
      else if rName = ''IN_IGNORED'' then IN_IGNORED
      else if rName = ''IN_CLOSE'' then IN_CLOSE
      else if rName = ''IN_MOVE'' then IN_MOVE
      else if rName = ''IN_ISDIR'' then IN_ISDIR
      else if rName = ''IN_ONESHOT'' then IN_ONESHOT
      else if rName = ''IN_ALL_EVENTS'' then IN_ALL_EVENTS
      else if rName = ''IN_DONT_FOLLOW'' then IN_DONT_FOLLOW
      else if rName = ''IN_ONLYDIR'' then IN_ONLYDIR
      else if rName = ''IN_MOVE_SELF'' then IN_MOVE_SELF
      else 0)"

definition DUMP_SEP :: "string \<Rightarrow> string" where
  "DUMP_SEP rStr = (if rStr \<noteq> [] then rStr @ '','' else rStr)"

text \<open>\<open>if (IsType(uValue, t)) { DUMP_SEP; rStr.append(name); }\<close>\<close>

definition dump_if :: "uint32 \<Rightarrow> uint32 \<Rightarrow> string \<Rightarrow> string \<Rightarrow> string" where
  "dump_if uValue t name rStr = (if IsType uValue t then DUMP_SEP rStr @ name else rStr)"

text \<open>The branch for values that are not \<open>IN_ALL_EVENTS\<close>. The \<open>else\<close> after the conditional
  group of \<open>IN_MOVE_SELF\<close> belongs to the test of \<open>IN_MOVE_SELF\<close>.\<close>

definition dump_events :: "uint32 \<Rightarrow> string" where
  "dump_events u =
     (let s1 = dump_if u IN_ACCESS ''IN_ACCESS'' [];
          s2 = dump_if u IN_MODIFY ''IN_MODIFY'' s1;
          s3 = dump_if u IN_ATTRIB ''IN_ATTRIB'' s2;
          s4 = dump_if u IN_CREATE ''IN_CREATE'' s3;
          s5 = dump_if u IN_DELETE ''IN_DELETE'' s4;
          s6 = dump_if u IN_DELETE_SELF ''IN_DELETE_SELF'' s5;
          s7 = dump_if u IN_OPEN ''IN_OPEN'' s6;
          s8 = dump_if u IN_CLOSE ''IN_CLOSE'' s7;
          s9 = (if IsType u IN_MOVE_SELF then dump_if u IN_MOVE_SELF ''IN_MOVE_SELF'' s8
                else dump_if u IN_CLOSE_NOWRITE ''IN_CLOSE_NOWRITE'' (dump_if u IN_CLOSE_WRITE ''IN_CLOSE_WRITE'' s8))
      in if IsType u IN_MOVE then dump_if u IN_MOVE ''IN_MOVE'' s9
         else dump_if u IN_MOVED_TO ''IN_MOVED_TO'' (dump_if u IN_MOVED_FROM ''IN_MOVED_FROM'' s9))"

definition DumpTypes :: "uint32 \<Rightarrow> string" where
  "DumpTypes u =
     (let s0 = (if IsType u IN_ALL_EVENTS then ''IN_ALL_EVENTS'' else dump_events u);
          s1 = dump_if u IN_UNMOUNT ''IN_UNMOUNT'' s0;
          s2 = dump_if u IN_Q_OVERFLOW ''IN_Q_OVERFLOW'' s1;
          s3 = dump_if u IN_IGNORED ''IN_IGNORED'' s2;
          s4 = dump_if u IN_ISDIR ''IN_ISDIR'' s3;
          s5 = dump_if u IN_ONESHOT ''IN_ONESHOT'' s4;
          s6 = dump_if u IN_DONT_FOLLOW ''IN_DONT_FOLLOW'' s5
      in dump_if u IN_ONLYDIR ''IN_ONLYDIR'' s6)"

subsection \<open>Objects\<close>

datatype InotifySource = Src_NULL | Src_inotify | Src_watch nat

record InotifyException =
  ie_msg :: string
  ie_err :: int
  ie_src :: InotifySource

datatype 'a outcome = Return 'a | Throw InotifyException | Undefined fault

definition throw :: "string \<Rightarrow> int \<Rightarrow> InotifySource \<Rightarrow> 'a outcome" where
  "throw msg err src = Throw \<lparr>ie_msg = msg, ie_err = err, ie_src = src\<rparr>"

datatype InotifyPtr = NULL_ptr | This_ptr | Wild_ptr

record InotifyWatch =
  m_path :: string
  m_uMask :: uint32
  m_wd :: int
  m_pInotify :: InotifyPtr
  m_fEnabled :: bool

text \<open>The constructor does not initialise \<open>m_pInotify\<close>: it holds whatever was there.\<close>

definition new_InotifyWatch :: "InotifyPtr \<Rightarrow> string \<Rightarrow> uint32 \<Rightarrow> bool \<Rightarrow> InotifyWatch" where
  "new_InotifyWatch junk rPath uMask fEnabled =
     \<lparr>m_path = rPath, m_uMask = uMask, m_wd = - 1, m_pInotify = junk, m_fEnabled = fEnabled\<rparr>"

record InotifyEvent =
  ev_mask :: uint32
  ev_cookie :: uint32
  ev_name :: string
  ev_watch :: "nat option"

definition plain_InotifyEvent :: InotifyEvent where
  "plain_InotifyEvent = \<lparr>ev_mask = 0, ev_cookie = 0, ev_name = [], ev_watch = None\<rparr>"

datatype FcntlCmd = F_GETFL | F_SETFL | F_GETFD | F_SETFD

record 'k Sys =
  sys_init :: "'k \<Rightarrow> int \<times> int \<times> 'k"
  sys_add :: "'k \<Rightarrow> int \<Rightarrow> string \<Rightarrow> uint32 \<Rightarrow> int \<times> int \<times> 'k"
  sys_rm :: "'k \<Rightarrow> int \<Rightarrow> int \<Rightarrow> int \<times> int \<times> 'k"
  sys_read :: "'k \<Rightarrow> int \<Rightarrow> nat \<Rightarrow> int \<times> int \<times> byte list \<times> 'k"
  sys_close :: "'k \<Rightarrow> int \<Rightarrow> 'k"
  sys_fcntl :: "'k \<Rightarrow> int \<Rightarrow> FcntlCmd \<Rightarrow> uint32 \<Rightarrow> int \<times> int \<times> 'k"
  sys_scan :: "'k \<Rightarrow> string \<Rightarrow> int + uint32 option"
  sys_print :: "'k \<Rightarrow> string \<Rightarrow> uint32 \<Rightarrow> (int + bool) \<times> 'k"
  sys_big :: bool

record 'k Inotify =
  m_fd :: int
  m_watches :: "(int \<times> nat) list"
  m_paths :: "(string \<times> nat) list"
  m_buf :: "byte list"
  m_events :: "InotifyEvent list"
  x_heap :: "nat \<Rightarrow> InotifyWatch"
  x_sys :: 'k

definition set_watch :: "nat \<Rightarrow> (InotifyWatch \<Rightarrow> InotifyWatch) \<Rightarrow> 'k Inotify \<Rightarrow> 'k Inotify" where
  "set_watch w f st = st\<lparr>x_heap := (x_heap st)(w := f (x_heap st w))\<rparr>"

definition GetDescriptor :: "'k Inotify \<Rightarrow> InotifyEvent \<Rightarrow> int" where
  "GetDescriptor st e = (case ev_watch e of Some w \<Rightarrow> m_wd (x_heap st w) | None \<Rightarrow> - 1)"

definition FindWatch :: "'k Inotify \<Rightarrow> int \<Rightarrow> nat option" where
  "FindWatch st iDescriptor = map_of (m_watches st) iDescriptor"

definition FindWatch_path :: "'k Inotify \<Rightarrow> string \<Rightarrow> nat option" where
  "FindWatch_path st rPath = map_of (m_paths st) rPath"

definition GetWatchCount :: "'k Inotify \<Rightarrow> nat" where
  "GetWatchCount st = length (m_paths st)"

definition GetEnabledCount :: "'k Inotify \<Rightarrow> nat" where
  "GetEnabledCount st = length (m_watches st)"

definition GetEventCount :: "'k Inotify \<Rightarrow> nat" where
  "GetEventCount st = length (m_events st)"

subsection \<open>Watches\<close>

definition SetMask :: "'k Sys \<Rightarrow> 'k Inotify \<Rightarrow> nat \<Rightarrow> uint32 \<Rightarrow> unit outcome \<times> 'k Inotify" where
  "SetMask S st w uMask =
     (let W = x_heap st w in
      if m_wd W \<noteq> - 1 then
        if m_pInotify W = This_ptr then
          (case sys_add S (x_sys st) (m_fd st) (m_path W) uMask of (wd, err, k) \<Rightarrow>
             let st1 = st\<lparr>x_sys := k\<rparr> in
             if wd \<noteq> m_wd W
             then (throw ''changing mask failed'' (if wd = - 1 then err else ERR_INVAL) (Src_watch w), st1)
             else (Return (), set_watch w (m_uMask_update (\<lambda>_. uMask)) st1))
        else (Undefined Null_pointer, st)
      else (Return (), set_watch w (m_uMask_update (\<lambda>_. uMask)) st))"

definition SetEnabled :: "'k Sys \<Rightarrow> 'k Inotify \<Rightarrow> nat \<Rightarrow> bool \<Rightarrow> unit outcome \<times> 'k Inotify" where
  "SetEnabled S st w fEnabled =
     (let W = x_heap st w in
      if fEnabled = m_fEnabled W then (Return (), st)
      else
        case m_pInotify W of
          NULL_ptr \<Rightarrow> (Return (), set_watch w (m_fEnabled_update (\<lambda>_. fEnabled)) st)
        | Wild_ptr \<Rightarrow> (Undefined Null_pointer, st)
        | This_ptr \<Rightarrow>
            if fEnabled then
              (case sys_add S (x_sys st) (m_fd st) (m_path W) (m_uMask W) of (wd, err, k) \<Rightarrow>
                 let st1 = set_watch w (m_wd_update (\<lambda>_. wd)) (st\<lparr>x_sys := k\<rparr>) in
                 if wd = - 1 then (throw ''enabling watch failed'' err (Src_watch w), st1)
                 else (Return (), set_watch w (m_fEnabled_update (\<lambda>_. fEnabled))
                         (st1\<lparr>m_watches := map_insert wd w (m_watches st1)\<rparr>)))
            else
              (case sys_rm S (x_sys st) (m_fd st) (m_wd W) of (r, err, k) \<Rightarrow>
                 let st1 = st\<lparr>x_sys := k\<rparr> in
                 if r \<noteq> 0 then (throw ''disabling watch failed'' err (Src_watch w), st1)
                 else (Return (), set_watch w (\<lambda>W. W\<lparr>m_wd := - 1, m_fEnabled := fEnabled\<rparr>)
                         (st1\<lparr>m_watches := map_erase (m_wd W) (m_watches st1)\<rparr>))))"

text \<open>\<open>InotifyWatch::__Disable\<close>.\<close>

definition Disable :: "'k Inotify \<Rightarrow> nat \<Rightarrow> unit outcome \<times> 'k Inotify" where
  "Disable st w =
     (let W = x_heap st w in
      if \<not> m_fEnabled W then (throw ''event cannot occur on disabled watch'' ERR_INVAL (Src_watch w), st)
      else
        case m_pInotify W of
          NULL_ptr \<Rightarrow> (Return (), set_watch w (m_fEnabled_update (\<lambda>_. False)) st)
        | Wild_ptr \<Rightarrow> (Undefined Null_pointer, st)
        | This_ptr \<Rightarrow>
            (Return (), set_watch w (\<lambda>W. W\<lparr>m_wd := - 1, m_fEnabled := False\<rparr>)
               (st\<lparr>m_watches := map_erase (m_wd W) (m_watches st)\<rparr>)))"

subsection \<open>The Inotify object\<close>

definition new_Inotify :: "'k Sys \<Rightarrow> 'k \<Rightarrow> (nat \<Rightarrow> InotifyWatch) \<Rightarrow> (nat \<Rightarrow> byte) \<Rightarrow> unit outcome \<times> 'k Inotify" where
  "new_Inotify S k heap g =
     (case sys_init S k of (fd, err, k1) \<Rightarrow>
      let st = \<lparr>m_fd = fd, m_watches = [], m_paths = [], m_buf = new_char g INOTIFY_BUFLEN, m_events = [],
                x_heap = heap, x_sys = k1\<rparr>
      in if fd = - 1 then (throw ''inotify init failed'' err Src_NULL, st) else (Return (), st))"

fun remove_each :: "'k Sys \<Rightarrow> (string \<times> nat) list \<Rightarrow> 'k Inotify \<Rightarrow> 'k Inotify" where
  "remove_each S [] st = st"
| "remove_each S ((p, w) # ps) st =
     (let st1 = (if m_wd (x_heap st w) \<noteq> - 1
                 then (case sys_rm S (x_sys st) (m_fd st) (m_wd (x_heap st w)) of (_, _, k) \<Rightarrow>
                        set_watch w (m_wd_update (\<lambda>_. - 1)) (st\<lparr>x_sys := k\<rparr>))
                 else st)
      in remove_each S ps (set_watch w (m_pInotify_update (\<lambda>_. NULL_ptr)) st1))"

definition RemoveAll :: "'k Sys \<Rightarrow> 'k Inotify \<Rightarrow> 'k Inotify" where
  "RemoveAll S st = (remove_each S (m_paths st) st)\<lparr>m_watches := [], m_paths := []\<rparr>"

text \<open>The destructor calls \<open>Close\<close>.\<close>

definition Inotify_Close :: "'k Sys \<Rightarrow> 'k Inotify \<Rightarrow> 'k Inotify" where
  "Inotify_Close S st =
     (if m_fd st \<noteq> - 1 then
        let st1 = RemoveAll S st in st1\<lparr>x_sys := sys_close S (x_sys st1) (m_fd st1), m_fd := - 1\<rparr>
      else st)"

definition Add :: "'k Sys \<Rightarrow> 'k Inotify \<Rightarrow> nat \<Rightarrow> unit outcome \<times> 'k Inotify" where
  "Add S st w =
     (let W = x_heap st w;
          finish = (\<lambda>t. (Return (), set_watch w (m_pInotify_update (\<lambda>_. This_ptr))
                           (t\<lparr>m_paths := map_insert (m_path W) w (m_paths t)\<rparr>)))
      in
      if m_fd st = - 1 then (throw ''invalid file descriptor'' ERR_BUSY Src_inotify, st)
      else if FindWatch_path st (m_path W) \<noteq> None then (throw ''path already watched'' ERR_BUSY Src_inotify, st)
      else if m_fEnabled W then
        (case sys_add S (x_sys st) (m_fd st) (m_path W) (m_uMask W) of (wd, err, k) \<Rightarrow>
           let st1 = st\<lparr>x_sys := k\<rparr> in
           if wd = - 1 then (throw ''adding watch failed'' err Src_inotify, st1)
           else
             case FindWatch st1 wd of
               Some v \<Rightarrow>
                 (case sys_add S k (m_fd st) (m_path (x_heap st v)) (m_uMask (x_heap st v)) of (wd2, err2, k2) \<Rightarrow>
                    let st2 = st1\<lparr>x_sys := k2\<rparr> in
                    if wd2 < 0
                    then (throw ''watch collision detected and recovery failed'' err2 Src_inotify, st2)
                    else (throw ''path already watched (but defined another way)'' ERR_BUSY Src_inotify, st2))
             | None \<Rightarrow>
                 finish (set_watch w (m_wd_update (\<lambda>_. wd)) (st1\<lparr>m_watches := map_insert wd w (m_watches st1)\<rparr>)))
      else finish st)"

definition Remove :: "'k Sys \<Rightarrow> 'k Inotify \<Rightarrow> nat \<Rightarrow> unit outcome \<times> 'k Inotify" where
  "Remove S st w =
     (let W = x_heap st w;
          finish = (\<lambda>t. (Return (), set_watch w (m_pInotify_update (\<lambda>_. NULL_ptr))
                           (t\<lparr>m_paths := map_erase (m_path W) (m_paths t)\<rparr>)))
      in
      if m_fd st = - 1 then (throw ''invalid file descriptor'' ERR_BUSY Src_inotify, st)
      else if m_wd W \<noteq> - 1 then
        (case sys_rm S (x_sys st) (m_fd st) (m_wd W) of (r, err, k) \<Rightarrow>
           let st1 = st\<lparr>x_sys := k\<rparr> in
           if r = - 1 then (throw ''removing watch failed'' err Src_inotify, st1)
           else finish (set_watch w (m_wd_update (\<lambda>_. - 1)) (st1\<lparr>m_watches := map_erase (m_wd W) (m_watches st1)\<rparr>)))
      else finish st)"

subsection \<open>Events\<close>

text \<open>A C string in the buffer.\<close>

definition cstring_at :: "byte list \<Rightarrow> nat \<Rightarrow> string exec" where
  "cstring_at buf k =
     (if 0 \<in> set (drop k buf) then Inr (map (\<lambda>b. char_of (unat b)) (takeWhile (\<lambda>b. b \<noteq> 0) (drop k buf)))
      else Inl Out_of_bounds)"

text \<open>The fields of the \<open>struct inotify_event\<close> at offset \<open>i\<close>.\<close>

definition evt_wd :: "bool \<Rightarrow> byte list \<Rightarrow> nat \<Rightarrow> int" where
  "evt_wd big buf i = sint (host_value32 big (take 4 (drop i buf)))"

definition evt_mask :: "bool \<Rightarrow> byte list \<Rightarrow> nat \<Rightarrow> uint32" where
  "evt_mask big buf i = host_value32 big (take 4 (drop (i + 4) buf))"

definition evt_cookie :: "bool \<Rightarrow> byte list \<Rightarrow> nat \<Rightarrow> uint32" where
  "evt_cookie big buf i = host_value32 big (take 4 (drop (i + 8) buf))"

definition evt_len :: "bool \<Rightarrow> byte list \<Rightarrow> nat \<Rightarrow> nat" where
  "evt_len big buf i = unat (host_value32 big (take 4 (drop (i + 12) buf)))"

definition new_InotifyEvent :: "bool \<Rightarrow> byte list \<Rightarrow> nat \<Rightarrow> nat \<Rightarrow> InotifyEvent exec" where
  "new_InotifyEvent big buf i w =
     andThen (if evt_len big buf i > 0 then cstring_at buf (i + INOTIFY_EVENT_SIZE) else Inr []) (\<lambda>name.
     Inr \<lparr>ev_mask = evt_mask big buf i, ev_cookie = evt_cookie big buf i, ev_name = name, ev_watch = Some w\<rparr>)"

function event_loop :: "bool \<Rightarrow> 'k Inotify \<Rightarrow> nat \<Rightarrow> nat \<Rightarrow> unit outcome \<times> 'k Inotify" where
  "event_loop big st i len =
     (if i < len then
        if i + INOTIFY_EVENT_SIZE \<le> length (m_buf st) then
          let next = i + INOTIFY_EVENT_SIZE + evt_len big (m_buf st) i in
          case FindWatch st (evt_wd big (m_buf st) i) of
            None \<Rightarrow> event_loop big st next len
          | Some w \<Rightarrow>
              case new_InotifyEvent big (m_buf st) i w of
                Inl f \<Rightarrow> (Undefined f, st)
              | Inr evt \<Rightarrow>
                  case (if IsType (m_uMask (x_heap st w)) IN_ONESHOT \<or> IsType (ev_mask evt) IN_IGNORED
                        then Disable st w else (Return (), st)) of
                    (Return _, st1) \<Rightarrow> event_loop big (st1\<lparr>m_events := m_events st1 @ [evt]\<rparr>) next len
                  | (Throw e, st1) \<Rightarrow> (Throw e, st1)
                  | (Undefined f, st1) \<Rightarrow> (Undefined f, st1)
        else (Undefined Out_of_bounds, st)
      else (Return (), st))"
  by pat_completeness auto
termination
  by (relation "measure (\<lambda>(_, _, i, len). len - i)") (auto simp: INOTIFY_EVENT_SIZE_def)

declare event_loop.simps [simp del]

text \<open>\<open>do read() while (fNoIntr && len == -1 && errno == EINTR)\<close> may run forever; the result is then
  \<open>None\<close>.\<close>

partial_function (option) read_loop ::
  "'k Sys \<Rightarrow> 'k \<Rightarrow> int \<Rightarrow> bool \<Rightarrow> (int \<times> int \<times> byte list \<times> 'k) option" where
  "read_loop S k fd fNoIntr =
     (case sys_read S k fd INOTIFY_BUFLEN of (len, err, data, k1) \<Rightarrow>
      if fNoIntr \<and> len = - 1 \<and> err = ERR_INTR then read_loop S k1 fd fNoIntr else Some (len, err, data, k1))"

definition WaitForEvents :: "'k Sys \<Rightarrow> 'k Inotify \<Rightarrow> bool \<Rightarrow> (unit outcome \<times> 'k Inotify) option" where
  "WaitForEvents S st fNoIntr =
     (case read_loop S (x_sys st) (m_fd st) fNoIntr of
        None \<Rightarrow> None
      | Some (len, err, data, k) \<Rightarrow>
          let st1 = st\<lparr>m_buf := blit (m_buf st) 0 data, x_sys := k\<rparr> in
          Some (if len = - 1 \<and> \<not> (err = ERR_WOULDBLOCK \<or> err = ERR_INTR)
                then (throw ''reading events failed'' err Src_inotify, st1)
                else if len = - 1 then (Return (), st1)
                else event_loop (sys_big S) st1 0 (nat len)))"

text \<open>The argument is absent when the pointer is null; the event it points to is otherwise the
  second component.\<close>

definition GetEvent :: "'k Inotify \<Rightarrow> InotifyEvent option \<Rightarrow> (bool \<times> InotifyEvent) outcome \<times> 'k Inotify" where
  "GetEvent st pEvt =
     (case pEvt of
        None \<Rightarrow> (throw ''null pointer to event'' ERR_INVAL Src_inotify, st)
      | Some e \<Rightarrow>
          (case m_events st of
             [] \<Rightarrow> (Return (False, e), st)
           | e1 # es \<Rightarrow> (Return (True, e1), st\<lparr>m_events := es\<rparr>)))"

definition PeekEvent :: "'k Inotify \<Rightarrow> InotifyEvent option \<Rightarrow> (bool \<times> InotifyEvent) outcome" where
  "PeekEvent st pEvt =
     (case pEvt of
        None \<Rightarrow> throw ''null pointer to event'' ERR_INVAL Src_inotify
      | Some e \<Rightarrow> (case m_events st of [] \<Rightarrow> Return (False, e) | e1 # _ \<Rightarrow> Return (True, e1)))"

subsection \<open>Descriptor flags and limits\<close>

definition set_flag :: "'k Sys \<Rightarrow> 'k Inotify \<Rightarrow> FcntlCmd \<Rightarrow> FcntlCmd \<Rightarrow> uint32 \<Rightarrow> bool \<Rightarrow> unit outcome \<times> 'k Inotify" where
  "set_flag S st get_cmd set_cmd flag on =
     (if m_fd st = - 1 then (throw ''invalid file descriptor'' ERR_BUSY Src_inotify, st)
      else
        case sys_fcntl S (x_sys st) (m_fd st) get_cmd 0 of (res, err, k) \<Rightarrow>
        let st1 = st\<lparr>x_sys := k\<rparr> in
        if res = - 1 then (throw ''cannot get inotify flags'' err Src_inotify, st1)
        else
          let res1 = (if on then word_of_int res OR flag else word_of_int res AND NOT flag) in
          case sys_fcntl S k (m_fd st) set_cmd res1 of (res2, err2, k2) \<Rightarrow>
          let st2 = st1\<lparr>x_sys := k2\<rparr> in
          if res2 = - 1 then (throw ''cannot set inotify flags'' err2 Src_inotify, st2) else (Return (), st2))"

definition SetNonBlock :: "'k Sys \<Rightarrow> 'k Inotify \<Rightarrow> bool \<Rightarrow> unit outcome \<times> 'k Inotify" where
  "SetNonBlock S st fNonBlock = set_flag S st F_GETFL F_SETFL O_NONBLOCK fNonBlock"

definition SetCloseOnExec :: "'k Sys \<Rightarrow> 'k Inotify \<Rightarrow> bool \<Rightarrow> unit outcome \<times> 'k Inotify" where
  "SetCloseOnExec S st fClOnEx = set_flag S st F_GETFD F_SETFD FD_CLOEXEC fClOnEx"

datatype InotifyCapability_t = IN_MAX_EVENTS | IN_MAX_INSTANCES | IN_MAX_WATCHES

fun GetCapabilityPath :: "InotifyCapability_t \<Rightarrow> string" where
  "GetCapabilityPath IN_MAX_EVENTS = PROCFS_INOTIFY_BASE @ ''max_queued_events''"
| "GetCapabilityPath IN_MAX_INSTANCES = PROCFS_INOTIFY_BASE @ ''max_user_instances''"
| "GetCapabilityPath IN_MAX_WATCHES = PROCFS_INOTIFY_BASE @ ''max_user_watches''"

definition GetCapability :: "'k Sys \<Rightarrow> 'k \<Rightarrow> InotifyCapability_t \<Rightarrow> uint32 outcome" where
  "GetCapability S k cap =
     (case sys_scan S k (GetCapabilityPath cap) of
        Inl err \<Rightarrow> throw ''cannot get capability'' err Src_NULL
      | Inr None \<Rightarrow> throw ''cannot get capability'' ERR_IO Src_NULL
      | Inr (Some v) \<Rightarrow> Return v)"

definition SetCapability :: "'k Sys \<Rightarrow> 'k \<Rightarrow> InotifyCapability_t \<Rightarrow> uint32 \<Rightarrow> unit outcome \<times> 'k" where
  "SetCapability S k cap val =
     (case sys_print S k (GetCapabilityPath cap) val of
        (Inl err, k1) \<Rightarrow> (throw ''cannot set capability'' err Src_NULL, k1)
      | (Inr False, k1) \<Rightarrow> (throw ''cannot set capability'' ERR_IO Src_NULL, k1)
      | (Inr True, k1) \<Rightarrow> (Return (), k1))"

end
