(* ===== verification/InotifyProps.thy ===== *)
theory InotifyProps
  imports Inotify
begin

text \<open>
  The properties of the directory watcher: the two indexes and the watch objects stay
  consistent, the bytes the kernel delivers are decoded to the events they encode, and the
  names of event types.
\<close>

subsection \<open>Consistency of the indexes\<close>

definition inot_inv :: "'k Inotify \<Rightarrow> bool" where
  "inot_inv st \<longleftrightarrow> map_inv (m_watches st) \<and> map_inv (m_paths st) \<and>
     (\<forall>p w. map_of (m_paths st) p = Some w \<longrightarrow> m_path (x_heap st w) = p \<and> m_pInotify (x_heap st w) = This_ptr \<and>
        (m_fEnabled (x_heap st w) \<longleftrightarrow> m_wd (x_heap st w) \<noteq> - 1)) \<and>
     (\<forall>w. m_pInotify (x_heap st w) = This_ptr \<longrightarrow> map_of (m_paths st) (m_path (x_heap st w)) = Some w) \<and>
     (\<forall>w. m_wd (x_heap st w) \<noteq> - 1 \<longrightarrow> map_of (m_watches st) (m_wd (x_heap st w)) = Some w) \<and>
     (\<forall>d w. map_of (m_watches st) d = Some w \<longrightarrow> d \<noteq> - 1 \<and> m_wd (x_heap st w) = d \<and> m_pInotify (x_heap st w) = This_ptr) \<and>
     (m_fd st = - 1 \<longrightarrow> m_paths st = [])"

lemma inot_invD:
  assumes "inot_inv st"
  shows "map_inv (m_watches st)" and "map_inv (m_paths st)"
    and "map_of (m_paths st) p = Some w \<Longrightarrow> m_path (x_heap st w) = p \<and> m_pInotify (x_heap st w) = This_ptr \<and>
      (m_fEnabled (x_heap st w) \<longleftrightarrow> m_wd (x_heap st w) \<noteq> - 1)"
    and "m_pInotify (x_heap st w) = This_ptr \<Longrightarrow> map_of (m_paths st) (m_path (x_heap st w)) = Some w"
    and "m_wd (x_heap st w) \<noteq> - 1 \<Longrightarrow> map_of (m_watches st) (m_wd (x_heap st w)) = Some w"
    and "map_of (m_watches st) d = Some w \<Longrightarrow> d \<noteq> - 1 \<and> m_wd (x_heap st w) = d \<and> m_pInotify (x_heap st w) = This_ptr"
    and "m_fd st = - 1 \<Longrightarrow> m_paths st = []"
  using assms unfolding inot_inv_def by blast+

lemma set_watch_sel [simp]:
  "m_fd (set_watch w f st) = m_fd st" "m_watches (set_watch w f st) = m_watches st" "m_paths (set_watch w f st) = m_paths st"
  "m_buf (set_watch w f st) = m_buf st" "m_events (set_watch w f st) = m_events st" "x_sys (set_watch w f st) = x_sys st"
  "x_heap (set_watch w f st) = (x_heap st)(w := f (x_heap st w))"
  by (simp_all add: set_watch_def)

lemma inot_inv_same:
  assumes "inot_inv st" and "m_watches st' = m_watches st" and "m_paths st' = m_paths st" and "m_fd st' = m_fd st"
    and "\<And>w. m_path (x_heap st' w) = m_path (x_heap st w) \<and> m_wd (x_heap st' w) = m_wd (x_heap st w) \<and>
      m_pInotify (x_heap st' w) = m_pInotify (x_heap st w) \<and> m_fEnabled (x_heap st' w) = m_fEnabled (x_heap st w)"
  shows "inot_inv st'"
  using assms unfolding inot_inv_def by simp

text \<open>A registered watch leaves the descriptor index and is disabled.\<close>

lemma inot_inv_off:
  assumes "inot_inv st" and "m_pInotify (x_heap st w) = This_ptr" and "m_wd (x_heap st w) \<noteq> - 1"
  shows "inot_inv (set_watch w (\<lambda>W. W\<lparr>m_wd := - 1, m_fEnabled := False\<rparr>)
    (st\<lparr>m_watches := map_erase (m_wd (x_heap st w)) (m_watches st), x_sys := k\<rparr>))" (is "inot_inv ?st'")
proof -
  note I = inot_invD [OF assms(1)]
  have e: "map_of (map_erase (m_wd (x_heap st w)) (m_watches st)) d = (if d = m_wd (x_heap st w) then None else map_of (m_watches st) d)" for d
    by (rule map_of_erase)
  have w: "map_of (m_watches st) (m_wd (x_heap st w)) = Some w" by (rule I(5) [OF assms(3)])
  show ?thesis
    unfolding inot_inv_def
  proof (intro conjI allI impI)
    fix v assume v: "m_wd (x_heap ?st' v) \<noteq> - 1"
    then have "v \<noteq> w" "m_wd (x_heap st v) \<noteq> - 1" by (auto split: if_splits)
    then show "map_of (m_watches ?st') (m_wd (x_heap ?st' v)) = Some v" using I(5) [of v] w by (auto simp: e)
  next
    fix d v assume "map_of (m_watches ?st') d = Some v"
    then have d: "d \<noteq> m_wd (x_heap st w)" "map_of (m_watches st) d = Some v" by (auto simp: e split: if_splits)
    then have "v \<noteq> w" using I(6) by blast
    then show "d \<noteq> - 1" "m_wd (x_heap ?st' v) = d" "m_pInotify (x_heap ?st' v) = This_ptr" using I(6) [OF d(2)] by auto
  next
    fix v assume "m_pInotify (x_heap ?st' v) = This_ptr"
    then have "m_pInotify (x_heap st v) = This_ptr" by (auto split: if_splits)
    from I(4) [OF this] show "map_of (m_paths ?st') (m_path (x_heap ?st' v)) = Some v" by auto
  qed (use I(1,2,7) map_inv_erase I(3) assms in \<open>auto split: if_splits\<close>)
qed

lemma Disable_inv:
  assumes "inot_inv st" and "FindWatch st d = Some w"
  shows "\<exists>st'. Disable st w = (Return (), st') \<and> inot_inv st' \<and> m_buf st' = m_buf st \<and> m_events st' = m_events st"
proof -
  note I = inot_invD [OF assms(1)]
  have w: "d \<noteq> - 1" "m_wd (x_heap st w) = d" "m_pInotify (x_heap st w) = This_ptr"
    using I(6) assms(2) by (auto simp: FindWatch_def)
  have "m_fEnabled (x_heap st w)" using I(3) [OF I(4) [OF w(3)]] w by simp
  then have "Disable st w = (Return (), set_watch w (\<lambda>W. W\<lparr>m_wd := - 1, m_fEnabled := False\<rparr>)
      (st\<lparr>m_watches := map_erase (m_wd (x_heap st w)) (m_watches st)\<rparr>))" (is "_ = (_, ?st')")
    using w by (simp add: Disable_def)
  moreover have "inot_inv ?st'"
    using inot_inv_off [OF assms(1) w(3), of "x_sys st"] w by simp
  ultimately show ?thesis by simp
qed

text \<open>A watch enters the descriptor index.\<close>

lemma inot_inv_on:
  assumes "inot_inv st" and "m_pInotify (x_heap st w) = This_ptr" and "m_wd (x_heap st w) = - 1"
    and "d \<noteq> - 1" and "map_of (m_watches st) d = None"
  shows "inot_inv (set_watch w (\<lambda>W. W\<lparr>m_wd := d, m_fEnabled := True\<rparr>)
    (st\<lparr>m_watches := map_insert d w (m_watches st), x_sys := k\<rparr>))" (is "inot_inv ?st'")
proof -
  note I = inot_invD [OF assms(1)]
  have e: "map_of (map_insert d w (m_watches st)) c = (if c = d then Some w else map_of (m_watches st) c)" for c
    using assms(5) by (simp add: map_of_insert [OF I(1)])
  show ?thesis
    unfolding inot_inv_def
  proof (intro conjI allI impI)
    fix v assume "m_wd (x_heap ?st' v) \<noteq> - 1"
    then show "map_of (m_watches ?st') (m_wd (x_heap ?st' v)) = Some v" using I(5) [of v] assms(5) by (auto simp: e)
  next
    fix c v assume "map_of (m_watches ?st') c = Some v"
    then have "c = d \<and> v = w \<or> c \<noteq> d \<and> map_of (m_watches st) c = Some v" by (auto simp: e split: if_splits)
    moreover have "v \<noteq> w" if "map_of (m_watches st) c = Some v" using I(6) [OF that] assms(3) by auto
    ultimately show "c \<noteq> - 1" "m_wd (x_heap ?st' v) = c" "m_pInotify (x_heap ?st' v) = This_ptr"
      using I(6) [of c v] assms(2,4) by auto
  next
    fix v assume "m_pInotify (x_heap ?st' v) = This_ptr"
    then have "m_pInotify (x_heap st v) = This_ptr" by (auto split: if_splits)
    from I(4) [OF this] show "map_of (m_paths ?st') (m_path (x_heap ?st' v)) = Some v" by auto
  qed (use I(1,2,7) map_inv_insert I(3) assms in \<open>auto split: if_splits\<close>)
qed

text \<open>A watch that is not registered enters or leaves the index of paths.\<close>

lemma inot_inv_register:
  assumes "inot_inv st" and "map_of (m_paths st) (m_path (x_heap st w)) = None" and "\<not> m_fEnabled (x_heap st w)" and "m_fd st \<noteq> - 1"
  shows "inot_inv (set_watch w (m_pInotify_update (\<lambda>_. This_ptr)) (st\<lparr>m_paths := map_insert (m_path (x_heap st w)) w (m_paths st)\<rparr>))"
    (is "inot_inv ?st'")
proof -
  note I = inot_invD [OF assms(1)]
  have n: "m_pInotify (x_heap st w) \<noteq> This_ptr" using I(4) [of w] assms(2) by auto
  then have d: "m_wd (x_heap st w) = - 1" using I(5,6) by blast
  have e: "map_of (map_insert (m_path (x_heap st w)) w (m_paths st)) p = (if p = m_path (x_heap st w) then Some w else map_of (m_paths st) p)" for p
    using assms(2) by (simp add: map_of_insert [OF I(2)])
  show ?thesis
    unfolding inot_inv_def
  proof (intro conjI allI impI)
    fix c v assume "map_of (m_watches ?st') c = Some v"
    then have "map_of (m_watches st) c = Some v" by simp
    from I(6) [OF this] d show "c \<noteq> - 1" "m_wd (x_heap ?st' v) = c" "m_pInotify (x_heap ?st' v) = This_ptr" by auto
  next
    fix v assume "m_pInotify (x_heap ?st' v) = This_ptr"
    then have "v = w \<or> m_pInotify (x_heap st v) = This_ptr" by (auto split: if_splits)
    then show "map_of (m_paths ?st') (m_path (x_heap ?st' v)) = Some v" using I(4) [of v] assms(2) by (auto simp: e)
  next
    fix p v assume "map_of (m_paths ?st') p = Some v"
    then have "p = m_path (x_heap st w) \<and> v = w \<or> v \<noteq> w \<and> map_of (m_paths st) p = Some v"
      using I(3) n by (auto simp: e split: if_splits)
    then show "m_path (x_heap ?st' v) = p" "m_pInotify (x_heap ?st' v) = This_ptr"
      "m_fEnabled (x_heap ?st' v) = (m_wd (x_heap ?st' v) \<noteq> - 1)"
      using I(3) [of p v] d assms(3) by auto
  qed (use I(1,2,5,7) map_inv_insert assms(4) in auto)
qed

lemma inot_inv_unregister:
  assumes "inot_inv st" and "m_wd (x_heap st w) = - 1"
    and "map_of (m_paths st) (m_path (x_heap st w)) = Some w \<or> map_of (m_paths st) (m_path (x_heap st w)) = None"
  shows "inot_inv (set_watch w (m_pInotify_update (\<lambda>_. NULL_ptr)) (st\<lparr>m_paths := map_erase (m_path (x_heap st w)) (m_paths st)\<rparr>))"
    (is "inot_inv ?st'")
proof -
  note I = inot_invD [OF assms(1)]
  have e: "map_of (map_erase (m_path (x_heap st w)) (m_paths st)) p = (if p = m_path (x_heap st w) then None else map_of (m_paths st) p)" for p
    by (rule map_of_erase)
  show ?thesis
    unfolding inot_inv_def
  proof (intro conjI allI impI)
    fix c v assume "map_of (m_watches ?st') c = Some v"
    then have "map_of (m_watches st) c = Some v" by simp
    from I(6) [OF this] assms(2) show "c \<noteq> - 1" "m_wd (x_heap ?st' v) = c" "m_pInotify (x_heap ?st' v) = This_ptr" by auto
  next
    fix v assume "m_pInotify (x_heap ?st' v) = This_ptr"
    then have v: "v \<noteq> w" "m_pInotify (x_heap st v) = This_ptr" by (auto split: if_splits)
    then have "m_path (x_heap st v) \<noteq> m_path (x_heap st w)" using I(4) [OF v(2)] assms(3) by auto
    then show "map_of (m_paths ?st') (m_path (x_heap ?st' v)) = Some v" using I(4) [OF v(2)] v(1) by (simp add: e)
  next
    fix p v assume "map_of (m_paths ?st') p = Some v"
    then have p: "p \<noteq> m_path (x_heap st w)" "map_of (m_paths st) p = Some v" by (auto simp: e split: if_splits)
    then have "v \<noteq> w" using I(3) by blast
    then show "m_path (x_heap ?st' v) = p" "m_pInotify (x_heap ?st' v) = This_ptr"
      "m_fEnabled (x_heap ?st' v) = (m_wd (x_heap ?st' v) \<noteq> - 1)"
      using I(3) [OF p(2)] by auto
  qed (use I(1,2,5,7) map_inv_erase in \<open>auto simp: map_erase_def\<close>)
qed

subsection \<open>The operations keep the indexes consistent\<close>

lemma inot_inv_sys [simp]: "inot_inv (st\<lparr>x_sys := k\<rparr>) = inot_inv st" "inot_inv (st\<lparr>m_buf := b\<rparr>) = inot_inv st"
  "inot_inv (st\<lparr>m_events := e\<rparr>) = inot_inv st"
  by (simp_all add: inot_inv_def)

lemma inot_inv_free:
  assumes "inot_inv st" and "m_pInotify (x_heap st w) \<noteq> This_ptr" and "m_pInotify W \<noteq> This_ptr" and "m_wd W = - 1"
  shows "inot_inv (st\<lparr>x_heap := (x_heap st)(w := W)\<rparr>)" (is "inot_inv ?st'")
proof -
  note I = inot_invD [OF assms(1)]
  have "m_wd (x_heap st w) = - 1" using I(5,6) assms(2) by blast
  show ?thesis
    unfolding inot_inv_def
  proof (intro conjI allI impI)
    fix c v assume "map_of (m_watches ?st') c = Some v"
    then have "map_of (m_watches st) c = Some v" by simp
    from I(6) [OF this] assms(2) show "c \<noteq> - 1" "m_wd (x_heap ?st' v) = c" "m_pInotify (x_heap ?st' v) = This_ptr" by auto
  next
    fix p v assume "map_of (m_paths ?st') p = Some v"
    then have "map_of (m_paths st) p = Some v" by simp
    from I(3) [OF this] assms(2) show "m_path (x_heap ?st' v) = p" "m_pInotify (x_heap ?st' v) = This_ptr"
      "m_fEnabled (x_heap ?st' v) = (m_wd (x_heap ?st' v) \<noteq> - 1)" by auto
  qed (use I(1,2,4,5,7) assms(3,4) in auto)
qed

lemma SetMask_inv:
  assumes "inot_inv st" and "SetMask S st w m = (r, st')"
  shows "inot_inv st'"
proof -
  have "inot_inv (set_watch w (m_uMask_update (\<lambda>_. m)) t)" if "inot_inv t" for t
    by (rule inot_inv_same [OF that]) simp_all
  then show ?thesis using assms by (auto simp: SetMask_def Let_def split: if_splits prod.splits)
qed

text \<open>The kernel gives a descriptor that no other watch has: the file is not yet watched under another
  path.\<close>

definition fresh_wd :: "'k Sys \<Rightarrow> 'k Inotify \<Rightarrow> nat \<Rightarrow> bool" where
  "fresh_wd S st w \<longleftrightarrow>
     map_of (m_watches st) (fst (sys_add S (x_sys st) (m_fd st) (m_path (x_heap st w)) (m_uMask (x_heap st w)))) = None"

lemma SetEnabled_inv:
  assumes "inot_inv st" and "SetEnabled S st w b = (r, st')" and "fresh_wd S st w"
  shows "inot_inv st'"
proof (cases "b = m_fEnabled (x_heap st w)")
  case True
  then show ?thesis using assms(1,2) by (simp add: SetEnabled_def Let_def)
next
  case ne: False
  note I = inot_invD [OF assms(1)]
  let ?W = "x_heap st w"
  show ?thesis
  proof (cases "m_pInotify ?W")
    case NULL_ptr
    have "m_wd ?W = - 1" using I(5,6) NULL_ptr by (metis InotifyPtr.distinct(1))
    then show ?thesis
      using inot_inv_free [OF assms(1), of w "?W\<lparr>m_fEnabled := b\<rparr>"] assms(2) ne NULL_ptr
      by (simp add: SetEnabled_def Let_def set_watch_def)
  next
    case Wild_ptr
    then show ?thesis using assms(1,2) ne by (simp add: SetEnabled_def Let_def)
  next
    case This_ptr
    note en = I(3) [OF I(4) [OF This_ptr]]
    obtain wd err k where a: "sys_add S (x_sys st) (m_fd st) (m_path ?W) (m_uMask ?W) = (wd, err, k)" by (metis prod_cases3)
    obtain q err2 k2 where r: "sys_rm S (x_sys st) (m_fd st) (m_wd ?W) = (q, err2, k2)" by (metis prod_cases3)
    show ?thesis
    proof (cases b)
      case True
      then have off: "m_wd ?W = - 1" "\<not> m_fEnabled ?W" using en ne by auto
      show ?thesis
      proof (cases "wd = - 1")
        case True
        have "inot_inv (set_watch w (m_wd_update (\<lambda>_. - 1)) (st\<lparr>x_sys := k\<rparr>))"
          by (rule inot_inv_same [of "st\<lparr>x_sys := k\<rparr>"]) (use assms(1) off in auto)
        then show ?thesis using assms(2) ne This_ptr \<open>b\<close> a True by (simp add: SetEnabled_def Let_def throw_def)
      next
        case False
        have "map_of (m_watches st) wd = None" using assms(3) a by (simp add: fresh_wd_def)
        from inot_inv_on [OF assms(1) This_ptr off(1) False this, of k]
        show ?thesis
          by (rule inot_inv_same) (use assms(2) ne This_ptr \<open>b\<close> a False in \<open>auto simp: SetEnabled_def Let_def\<close>)
      qed
    next
      case False
      then have on: "m_wd ?W \<noteq> - 1" using en ne by auto
      show ?thesis
      proof (cases "q = 0")
        case True
        from inot_inv_off [OF assms(1) This_ptr on, of k2] show ?thesis
          by (rule inot_inv_same) (use assms(2) ne This_ptr False r True in \<open>auto simp: SetEnabled_def Let_def\<close>)
      next
        case q: False
        then show ?thesis using assms(1,2) ne This_ptr False r by (auto simp: SetEnabled_def Let_def throw_def)
      qed
    qed
  qed
qed

lemma Add_inv:
  assumes "inot_inv st" and "Add S st w = (r, st')"
  shows "inot_inv st'"
proof -
  note I = inot_invD [OF assms(1)]
  let ?W = "x_heap st w"
  obtain wd err k where a: "sys_add S (x_sys st) (m_fd st) (m_path ?W) (m_uMask ?W) = (wd, err, k)" by (metis prod_cases3)
  consider (same) k' where "st' = st\<lparr>x_sys := k'\<rparr>"
    | (off) "m_fd st \<noteq> - 1" "map_of (m_paths st) (m_path ?W) = None" "\<not> m_fEnabled ?W"
        "st' = set_watch w (m_pInotify_update (\<lambda>_. This_ptr)) (st\<lparr>m_paths := map_insert (m_path ?W) w (m_paths st)\<rparr>)"
    | (on) "m_fd st \<noteq> - 1" "map_of (m_paths st) (m_path ?W) = None" "m_fEnabled ?W" "wd \<noteq> - 1" "map_of (m_watches st) wd = None"
        "st' = set_watch w (\<lambda>W. W\<lparr>m_wd := wd, m_pInotify := This_ptr\<rparr>)
          (st\<lparr>m_watches := map_insert wd w (m_watches st), m_paths := map_insert (m_path ?W) w (m_paths st), x_sys := k\<rparr>)"
  proof (cases "m_fd st = - 1 \<or> map_of (m_paths st) (m_path ?W) \<noteq> None")
    case True
    then show ?thesis using that(1) [of "x_sys st"] assms(2) by (auto simp: Add_def FindWatch_path_def Let_def split: if_splits)
  next
    case reg: False
    show ?thesis
    proof (cases "m_fEnabled ?W")
      case False
      then show ?thesis using that(2) reg assms(2) by (auto simp: Add_def FindWatch_path_def Let_def)
    next
      case en: True
      show ?thesis
      proof (cases "wd = - 1 \<or> map_of (m_watches st) wd \<noteq> None")
        case True
        then show ?thesis
          using that(1) reg en a assms(2)
          by (auto simp: Add_def FindWatch_path_def FindWatch_def Let_def split: if_splits prod.splits)
      next
        case False
        then show ?thesis
          using that(3) reg en a assms(2) by (auto simp: Add_def FindWatch_path_def FindWatch_def Let_def set_watch_def)
      qed
    qed
  qed
  then show ?thesis
  proof cases
    case same
    then show ?thesis using assms(1) by simp
  next
    case off
    then show ?thesis using inot_inv_register [OF assms(1)] by simp
  next
    case on
    have n: "m_pInotify ?W \<noteq> This_ptr" using I(4) [of w] on(2) by auto
    then have d: "m_wd ?W = - 1" using I(5,6) by blast
    let ?s1 = "st\<lparr>x_heap := (x_heap st)(w := ?W\<lparr>m_fEnabled := False\<rparr>)\<rparr>"
    have "inot_inv ?s1" by (rule inot_inv_free [OF assms(1) n]) (use n d in auto)
    from inot_inv_register [OF this, of w] on
    have 2: "inot_inv (set_watch w (m_pInotify_update (\<lambda>_. This_ptr)) (?s1\<lparr>m_paths := map_insert (m_path ?W) w (m_paths st)\<rparr>))"
      (is "inot_inv ?s2") by simp
    from inot_inv_on [OF 2, of w wd k] on d
    have "inot_inv (set_watch w (\<lambda>W. W\<lparr>m_wd := wd, m_fEnabled := True\<rparr>)
      (?s2\<lparr>m_watches := map_insert wd w (m_watches ?s2), x_sys := k\<rparr>))" by simp
    then show ?thesis by (rule inot_inv_same) (use on in auto)
  qed
qed

lemma Remove_inv:
  assumes "inot_inv st" and "Remove S st w = (r, st')"
    and "FindWatch_path st (m_path (x_heap st w)) = Some w \<or> FindWatch_path st (m_path (x_heap st w)) = None"
  shows "inot_inv st'"
proof -
  note I = inot_invD [OF assms(1)]
  let ?W = "x_heap st w"
  have P: "map_of (m_paths st) (m_path ?W) = Some w \<or> map_of (m_paths st) (m_path ?W) = None"
    using assms(3) by (simp add: FindWatch_path_def)
  obtain q err k where q: "sys_rm S (x_sys st) (m_fd st) (m_wd ?W) = (q, err, k)" by (metis prod_cases3)
  show ?thesis
  proof (cases "m_fd st = - 1 \<or> m_wd ?W \<noteq> - 1 \<and> q = - 1")
    case True
    then show ?thesis using assms(1,2) q by (auto simp: Remove_def Let_def throw_def split: if_splits)
  next
    case go: False
    show ?thesis
    proof (cases "m_wd ?W = - 1")
      case True
      then show ?thesis using inot_inv_unregister [OF assms(1) True P] assms(2) go by (simp add: Remove_def Let_def)
    next
      case False
      then have t: "m_pInotify ?W = This_ptr" using I(5,6) by blast
      note 1 = inot_inv_off [OF assms(1) t False, of k]
      from inot_inv_unregister [OF 1, of w] P
      have 2: "inot_inv (set_watch w (m_pInotify_update (\<lambda>_. NULL_ptr))
        ((set_watch w (\<lambda>W. W\<lparr>m_wd := - 1, m_fEnabled := False\<rparr>)
           (st\<lparr>m_watches := map_erase (m_wd ?W) (m_watches st), x_sys := k\<rparr>))\<lparr>m_paths := map_erase (m_path ?W) (m_paths st)\<rparr>))"
        (is "inot_inv ?t") by simp
      have "inot_inv (?t\<lparr>x_heap := (x_heap ?t)(w := (x_heap ?t w)\<lparr>m_fEnabled := m_fEnabled ?W\<rparr>)\<rparr>)"
        by (rule inot_inv_free [OF 2]) simp_all
      then show ?thesis by (rule inot_inv_same) (use assms(2) go False q in \<open>auto simp: Remove_def Let_def\<close>)
    qed
  qed
qed

lemma remove_each_heap:
  "x_heap (remove_each S ps st) v =
     (if v \<in> snd ` set ps then (x_heap st v)\<lparr>m_wd := - 1, m_pInotify := NULL_ptr\<rparr> else x_heap st v) \<and>
   m_fd (remove_each S ps st) = m_fd st"
proof (induction S ps st rule: remove_each.induct)
  case (2 S p w ps st)
  then show ?case by (cases "m_wd (x_heap st w) = - 1"; cases "v = w") (auto simp: Let_def split: prod.splits)
qed simp

lemma RemoveAll_inv:
  assumes "inot_inv st"
  shows "inot_inv (RemoveAll S st)" and "m_fd (RemoveAll S st) = m_fd st" and "m_paths (RemoveAll S st) = []"
proof -
  note I = inot_invD [OF assms]
  have reg: "m_pInotify (x_heap st v) = This_ptr \<Longrightarrow> v \<in> snd ` set (m_paths st)" for v
    using I(4) [of v] by (auto dest!: map_of_SomeD intro: rev_image_eqI)
  have "m_wd (x_heap (RemoveAll S st) v) = - 1 \<and> m_pInotify (x_heap (RemoveAll S st) v) \<noteq> This_ptr" for v
    using reg [of v] I(5) [of v] I(6) by (auto simp: RemoveAll_def remove_each_heap)
  then show "inot_inv (RemoveAll S st)" by (auto simp: inot_inv_def RemoveAll_def map_inv_def)
  show "m_fd (RemoveAll S st) = m_fd st" "m_paths (RemoveAll S st) = []" by (simp_all add: RemoveAll_def remove_each_heap)
qed

lemma Close_inv: "inot_inv st \<Longrightarrow> inot_inv (Inotify_Close S st)"
  using RemoveAll_inv [of st S] by (auto simp: Inotify_Close_def Let_def inot_inv_def)

text \<open>Reading events: the only exception inside the loop cannot occur.\<close>

lemma event_loop_inv:
  "inot_inv st \<Longrightarrow> event_loop big st i len = (r, st') \<Longrightarrow> inot_inv st' \<and> (\<forall>e. r \<noteq> Throw e)"
proof (induction big st i len arbitrary: r st' rule: event_loop.induct)
  case (1 big st i len)
  show ?case
  proof (cases "i < len \<and> i + INOTIFY_EVENT_SIZE \<le> length (m_buf st)")
    case False
    then show ?thesis using 1(3,4) by (auto simp: event_loop.simps [of big st i len] split: if_splits)
  next
    case True
    let ?next = "i + INOTIFY_EVENT_SIZE + evt_len big (m_buf st) i"
    show ?thesis
    proof (cases "FindWatch st (evt_wd big (m_buf st) i)")
      case None
      then show ?thesis
        using 1(1) [OF _ _ refl None 1(3)] 1(4) True by (simp add: event_loop.simps [of big st i len])
    next
      case (Some w)
      show ?thesis
      proof (cases "new_InotifyEvent big (m_buf st) i w")
        case (Inl f)
        then show ?thesis using 1(3,4) True Some by (auto simp: event_loop.simps [of big st i len])
      next
        case (Inr evt)
        let ?d = "IsType (m_uMask (x_heap st w)) IN_ONESHOT \<or> IsType (ev_mask evt) IN_IGNORED"
        obtain st1 where st1: "(if ?d then Disable st w else (Return (), st)) = (Return (), st1)" "inot_inv st1"
          using Disable_inv [OF 1(3) Some] 1(3) by (cases ?d) (auto simp: if_P)
        have "event_loop big (st1\<lparr>m_events := m_events st1 @ [evt]\<rparr>) ?next len = (r, st')"
          using 1(4) True Some Inr st1(1) by (simp add: event_loop.simps [of big st i len])
        then show ?thesis
          using 1(2) [OF _ _ refl Some Inr st1(1) [symmetric] refl] True st1(2) by simp
      qed
    qed
  qed
qed

subsection \<open>Sequences of operations\<close>

text \<open>The operations on the object and on watches. A new watch object is created at an address
  where no registered one lives. \<open>Remove\<close> is called with a watch whose path is not registered
  for another watch, and a watch is enabled when its file is not watched under another path.\<close>

inductive inot_step :: "'k Sys \<Rightarrow> 'k Inotify \<Rightarrow> 'k Inotify \<Rightarrow> bool" for S st where
  st_new: "m_pInotify (x_heap st w) \<noteq> This_ptr \<Longrightarrow> junk \<noteq> This_ptr \<Longrightarrow>
    inot_step S st (st\<lparr>x_heap := (x_heap st)(w := new_InotifyWatch junk path msk en)\<rparr>)"
| st_mask: "SetMask S st w m = (r, st') \<Longrightarrow> inot_step S st st'"
| st_enabled: "fresh_wd S st w \<Longrightarrow> SetEnabled S st w b = (r, st') \<Longrightarrow> inot_step S st st'"
| st_add: "Add S st w = (r, st') \<Longrightarrow> inot_step S st st'"
| st_remove: "FindWatch_path st (m_path (x_heap st w)) = Some w \<or> FindWatch_path st (m_path (x_heap st w)) = None \<Longrightarrow>
    Remove S st w = (r, st') \<Longrightarrow> inot_step S st st'"
| st_remove_all: "inot_step S st (RemoveAll S st)"
| st_close: "inot_step S st (Inotify_Close S st)"
| st_wait: "WaitForEvents S st b = Some (r, st') \<Longrightarrow> inot_step S st st'"
| st_get: "GetEvent st e = (r2, st') \<Longrightarrow> inot_step S st st'"
| st_flag: "set_flag S st gc sc f on = (r, st') \<Longrightarrow> inot_step S st st'"

inductive inot_reach :: "'k Sys \<Rightarrow> 'k Inotify \<Rightarrow> bool" for S where
  start: "new_Inotify S k heap g = (Return (), st) \<Longrightarrow> (\<forall>w. m_wd (heap w) = - 1 \<and> m_pInotify (heap w) \<noteq> This_ptr) \<Longrightarrow>
    inot_reach S st"
| step: "inot_reach S st \<Longrightarrow> inot_step S st st' \<Longrightarrow> inot_reach S st'"

lemma inot_step_inv: "inot_step S st st' \<Longrightarrow> inot_inv st \<Longrightarrow> inot_inv st'"
proof (induction rule: inot_step.induct)
  case (st_new w junk path msk en)
  then show ?case by (auto intro: inot_inv_free simp: new_InotifyWatch_def)
next
  case (st_wait b r st')
  then show ?case
    by (auto simp: WaitForEvents_def Let_def throw_def split: option.splits prod.splits if_splits dest: event_loop_inv [rotated])
next
  case (st_get e r2 st')
  then show ?case by (auto simp: GetEvent_def split: option.splits list.splits)
next
  case (st_flag gc sc f on r st')
  then show ?case by (auto simp: set_flag_def Let_def split: if_splits prod.splits)
qed (auto intro: SetMask_inv SetEnabled_inv Add_inv Remove_inv RemoveAll_inv Close_inv)

lemma inot_reach_inv: "inot_reach S st \<Longrightarrow> inot_inv st"
proof (induction rule: inot_reach.induct)
  case (start k heap g st)
  then show ?case by (auto simp: new_Inotify_def throw_def Let_def inot_inv_def map_inv_def split: prod.splits if_splits)
qed (rule inot_step_inv)


text \<open>A kernel that hands out descriptors 1, 2, 3 and so on and delivers no events.\<close>

definition demo_sys :: "nat Sys" where
  "demo_sys = \<lparr>sys_init = \<lambda>k. (5, 0, k), sys_add = \<lambda>k fd p m. (int k, 0, Suc k), sys_rm = \<lambda>k fd wd. (0, 0, k),
     sys_read = \<lambda>k fd n. (0, 0, [], k), sys_close = \<lambda>k fd. k, sys_fcntl = \<lambda>k fd c f. (0, 0, k),
     sys_scan = \<lambda>k p. Inr (Some 128), sys_print = \<lambda>k p v. (Inr True, k), sys_big = False\<rparr>"

definition demo_heap :: "nat \<Rightarrow> InotifyWatch" where
  "demo_heap w = new_InotifyWatch NULL_ptr (replicate w CHR ''d'') IN_ALL_EVENTS True"

definition demo_inotify :: "nat Inotify" where
  "demo_inotify = snd (Add demo_sys (snd (new_Inotify demo_sys 1 demo_heap (\<lambda>_. 0))) 3)"

lemma demo_reach: "inot_reach demo_sys demo_inotify"
proof -
  have "new_Inotify demo_sys 1 demo_heap (\<lambda>_. 0) = (Return (), snd (new_Inotify demo_sys 1 demo_heap (\<lambda>_. 0)))"
    by (simp add: new_Inotify_def demo_sys_def Let_def)
  then have "inot_reach demo_sys (snd (new_Inotify demo_sys 1 demo_heap (\<lambda>_. 0)))"
    by (rule inot_reach.start) (simp add: demo_heap_def new_InotifyWatch_def)
  then show ?thesis unfolding demo_inotify_def
    by (rule inot_reach.step) (rule inot_step.st_add [where r = "fst (Add demo_sys (snd (new_Inotify demo_sys 1 demo_heap (\<lambda>_. 0))) 3)"], simp)
qed

lemma demo_find: "FindWatch demo_inotify 1 = Some 3"
  by (simp add: demo_inotify_def Add_def new_Inotify_def demo_sys_def FindWatch_def FindWatch_path_def demo_heap_def
      new_InotifyWatch_def Let_def)


subsection \<open>Decoding the events of the kernel\<close>

text \<open>What \<open>read\<close> on the descriptor delivers: packed structures, each followed by the name and at
  least one zero byte when it has a name.\<close>

record raw_event =
  rw_wd :: uint32
  rw_mask :: uint32
  rw_cookie :: uint32
  rw_name :: "byte list"
  rw_pad :: nat

definition raw_ok :: "raw_event \<Rightarrow> bool" where
  "raw_ok r \<longleftrightarrow> 0 \<notin> set (rw_name r) \<and> (rw_pad r = 0 \<longrightarrow> rw_name r = []) \<and> length (rw_name r) + rw_pad r < 2 ^ 32"

definition enc_event :: "bool \<Rightarrow> raw_event \<Rightarrow> byte list" where
  "enc_event big r = host_bytes32 big (rw_wd r) @ host_bytes32 big (rw_mask r) @ host_bytes32 big (rw_cookie r) @
     host_bytes32 big (of_nat (length (rw_name r) + rw_pad r)) @ rw_name r @ replicate (rw_pad r) 0"

definition event_of :: "raw_event \<Rightarrow> nat \<Rightarrow> InotifyEvent" where
  "event_of r w = \<lparr>ev_mask = rw_mask r, ev_cookie = rw_cookie r, ev_name = map (\<lambda>b. char_of (unat b)) (rw_name r), ev_watch = Some w\<rparr>"

text \<open>What the object does with the decoded events: an event of a watch it knows is queued, and
  a watch that fires once or that the kernel has dropped is disabled.\<close>

fun dispatch_events :: "'k Inotify \<Rightarrow> raw_event list \<Rightarrow> 'k Inotify" where
  "dispatch_events st [] = st"
| "dispatch_events st (r # rs) =
     (case FindWatch st (sint (rw_wd r)) of
        None \<Rightarrow> dispatch_events st rs
      | Some w \<Rightarrow>
          let st1 = (if IsType (m_uMask (x_heap st w)) IN_ONESHOT \<or> IsType (rw_mask r) IN_IGNORED
                     then snd (Disable st w) else st)
          in dispatch_events (st1\<lparr>m_events := m_events st1 @ [event_of r w]\<rparr>) rs)"

lemma enc_fields:
  assumes "raw_ok r"
  shows "evt_wd big (pre @ enc_event big r @ rest) (length pre) = sint (rw_wd r)"
    and "evt_mask big (pre @ enc_event big r @ rest) (length pre) = rw_mask r"
    and "evt_cookie big (pre @ enc_event big r @ rest) (length pre) = rw_cookie r"
    and "evt_len big (pre @ enc_event big r @ rest) (length pre) = length (rw_name r) + rw_pad r"
    and "new_InotifyEvent big (pre @ enc_event big r @ rest) (length pre) w = Inr (event_of r w)"
proof -
  show f: "evt_wd big (pre @ enc_event big r @ rest) (length pre) = sint (rw_wd r)"
    "evt_mask big (pre @ enc_event big r @ rest) (length pre) = rw_mask r"
    "evt_cookie big (pre @ enc_event big r @ rest) (length pre) = rw_cookie r"
    "evt_len big (pre @ enc_event big r @ rest) (length pre) = length (rw_name r) + rw_pad r"
    using assms by (simp_all add: evt_wd_def evt_mask_def evt_cookie_def evt_len_def enc_event_def raw_ok_def unat_of_nat_lt
        del: of_nat_add)
  have tail: "drop (length pre + INOTIFY_EVENT_SIZE) (pre @ enc_event big r @ rest) = rw_name r @ replicate (rw_pad r) 0 @ rest"
    by (simp add: enc_event_def INOTIFY_EVENT_SIZE_def)
  show "new_InotifyEvent big (pre @ enc_event big r @ rest) (length pre) w = Inr (event_of r w)"
  proof (cases "rw_pad r")
    case 0
    then have "rw_name r = []" using assms by (simp add: raw_ok_def)
    then show ?thesis using 0 by (simp add: new_InotifyEvent_def f event_of_def)
  next
    case (Suc n)
    have z: "takeWhile (\<lambda>b. b \<noteq> 0) (rw_name r @ replicate (rw_pad r) 0 @ rest) = rw_name r"
      using assms Suc by (subst takeWhile_append2) (auto simp: raw_ok_def)
    show ?thesis
      unfolding new_InotifyEvent_def f cstring_at_def tail z using Suc by (simp add: event_of_def)
  qed
qed

lemma length_enc_event: "length (enc_event big r) = INOTIFY_EVENT_SIZE + length (rw_name r) + rw_pad r"
  by (simp add: enc_event_def INOTIFY_EVENT_SIZE_def)

lemma event_loop_decodes:
  fixes st :: "'k Inotify"
  assumes "inot_inv st" and "m_buf st = pre @ concat (map (enc_event big) rs) @ rest" and "\<forall>r \<in> set rs. raw_ok r"
  shows "event_loop big st (length pre) (length pre + length (concat (map (enc_event big) rs))) = (Return (), dispatch_events st rs)"
  using assms
proof (induction rs arbitrary: st pre)
  case Nil
  then show ?case by (simp add: event_loop.simps)
next
  case (Cons r rs)
  let ?tail = "concat (map (enc_event big) rs)" and ?i = "length pre" and ?L = "length pre + length (concat (map (enc_event big) (r # rs)))"
  let ?next = "?i + INOTIFY_EVENT_SIZE + evt_len big (m_buf st) ?i"
  have buf: "m_buf st = pre @ enc_event big r @ (?tail @ rest)" using Cons.prems(2) by simp
  note F = enc_fields [where pre = pre and rest = "?tail @ rest" and big = big, OF bspec [OF Cons.prems(3) list.set_intros(1)], folded buf]
  have g: "?i < ?L" "?i + INOTIFY_EVENT_SIZE \<le> length (m_buf st)"
    using length_enc_event [of big r] by (simp_all add: buf INOTIFY_EVENT_SIZE_def)
  have nx: "?next = length (pre @ enc_event big r)" "?L = length (pre @ enc_event big r) + length ?tail"
    by (simp_all add: F(4) length_enc_event)
  have IH: "event_loop big t ?next ?L = (Return (), dispatch_events t rs)" if "inot_inv t" "m_buf t = m_buf st" for t :: "'k Inotify"
    using Cons.IH [of t "pre @ enc_event big r"] that Cons.prems(3) buf unfolding nx by simp
  show ?case
  proof (cases "FindWatch st (sint (rw_wd r))")
    case None
    then show ?thesis using IH [OF Cons.prems(1) refl] g by (simp add: event_loop.simps [of big st ?i] F(1))
  next
    case (Some w)
    let ?d = "IsType (m_uMask (x_heap st w)) IN_ONESHOT \<or> IsType (rw_mask r) IN_IGNORED"
    obtain st1 where st1: "(if ?d then Disable st w else (Return (), st)) = (Return (), st1)" "inot_inv st1" "m_buf st1 = m_buf st"
      using Disable_inv [OF Cons.prems(1) Some] Cons.prems(1) by (cases ?d) (auto simp: if_P)
    have "snd (if ?d then Disable st w else (Return (), st)) = st1" by (simp add: st1(1))
    then have s1: "(if ?d then snd (Disable st w) else st) = st1" by (cases ?d) simp_all
    let ?t = "st1\<lparr>m_events := m_events st1 @ [event_of r w]\<rparr>"
    have em: "ev_mask (event_of r w) = rw_mask r" by (simp add: event_of_def)
    have "event_loop big st ?i ?L = event_loop big ?t ?next ?L"
      using g Some st1(1) by (subst event_loop.simps) (simp add: F(1,5) em Let_def)
    also have "\<dots> = (Return (), dispatch_events ?t rs)" by (rule IH) (use st1 in simp_all)
    also have "dispatch_events ?t rs = dispatch_events st (r # rs)" using Some s1 by simp
    finally show ?thesis .
  qed
qed

text \<open>Property C29: when the kernel delivers a buffer of whole event structures, \<open>WaitForEvents\<close>
  decodes it completely, on a host of either endianness: it queues, in order, exactly the
  events of the watches it knows with their masks, cookies and names, disables the
  watches that fire once or were dropped, and throws nothing.\<close>

theorem events_decoded:
  assumes "inot_reach S st" and "length (m_buf st) = INOTIFY_BUFLEN" and "\<forall>r \<in> set rs. raw_ok r"
    and "sys_read S (x_sys st) (m_fd st) INOTIFY_BUFLEN = (int (length bytes), err, bytes, k)"
    and "bytes = concat (map (enc_event (sys_big S)) rs)" and "length bytes \<le> INOTIFY_BUFLEN"
  shows "WaitForEvents S st fNoIntr =
    Some (Return (), dispatch_events (st\<lparr>m_buf := bytes @ drop (length bytes) (m_buf st), x_sys := k\<rparr>) rs)"
proof -
  let ?st = "st\<lparr>m_buf := bytes @ drop (length bytes) (m_buf st), x_sys := k\<rparr>"
  have "event_loop (sys_big S) ?st 0 (length bytes) = (Return (), dispatch_events ?st rs)"
    using event_loop_decodes [of ?st "[]" "sys_big S" rs "drop (length bytes) (m_buf st)"] inot_reach_inv [OF assms(1)] assms(3,5) by simp
  moreover have "read_loop S (x_sys st) (m_fd st) fNoIntr = Some (int (length bytes), err, bytes, k)"
    by (subst read_loop.simps) (simp add: assms(4))
  ultimately show ?thesis by (simp add: WaitForEvents_def blit_def)
qed

definition demo_raw :: raw_event where
  "demo_raw = \<lparr>rw_wd = 1, rw_mask = IN_CLOSE_WRITE, rw_cookie = 0, rw_name = [97, 98], rw_pad = 14\<rparr>"

definition demo_read :: "nat Sys" where
  "demo_read = demo_sys\<lparr>sys_read := \<lambda>k fd n. (32, 0, enc_event False demo_raw, k)\<rparr>"

definition demo_reader :: "nat Inotify" where
  "demo_reader = snd (Add demo_read (snd (new_Inotify demo_read 1 demo_heap (\<lambda>_. 0))) 3)"

lemma demo_reader_reach: "inot_reach demo_read demo_reader"
proof -
  have "new_Inotify demo_read 1 demo_heap (\<lambda>_. 0) = (Return (), snd (new_Inotify demo_read 1 demo_heap (\<lambda>_. 0)))"
    by (simp add: new_Inotify_def demo_read_def demo_sys_def Let_def)
  then have "inot_reach demo_read (snd (new_Inotify demo_read 1 demo_heap (\<lambda>_. 0)))"
    by (rule inot_reach.start) (simp add: demo_heap_def new_InotifyWatch_def)
  then show ?thesis unfolding demo_reader_def
    by (rule inot_reach.step) (rule inot_step.st_add [where r = "fst (Add demo_read (snd (new_Inotify demo_read 1 demo_heap (\<lambda>_. 0))) 3)"], simp)
qed

lemma demo_reader_sel:
  "m_watches demo_reader = [(1, 3)]" "m_buf demo_reader = new_char (\<lambda>_. 0) INOTIFY_BUFLEN" "m_events demo_reader = []"
  "x_sys demo_reader = 2" "m_uMask (x_heap demo_reader 3) = IN_ALL_EVENTS"
  by (simp_all add: demo_reader_def Add_def new_Inotify_def demo_read_def demo_sys_def FindWatch_def FindWatch_path_def demo_heap_def
      new_InotifyWatch_def Let_def set_watch_def)

theorem events_decoded_witness:
  "map_option (\<lambda>(r, st). (r, m_events st)) (WaitForEvents demo_read demo_reader True) =
   Some (Return (), [\<lparr>ev_mask = IN_CLOSE_WRITE, ev_cookie = 0, ev_name = ''ab'', ev_watch = Some 3\<rparr>])"
proof -
  have l: "length (enc_event False demo_raw) = 32" by (simp add: length_enc_event demo_raw_def INOTIFY_EVENT_SIZE_def)
  have rd: "sys_read demo_read k fd n = (32, 0, enc_event False demo_raw, k)" "sys_big demo_read = False" for k fd n
    by (simp_all add: demo_read_def demo_sys_def)
  have ok: "\<forall>r \<in> set [demo_raw]. raw_ok r" by (simp add: raw_ok_def demo_raw_def)
  have e: "enc_event False demo_raw = concat (map (enc_event (sys_big demo_read)) [demo_raw])" by (simp add: rd)
  have b: "length (m_buf demo_reader) = INOTIFY_BUFLEN" "length (enc_event False demo_raw) \<le> INOTIFY_BUFLEN"
    by (simp_all add: demo_reader_sel l INOTIFY_BUFLEN_def)
  have "WaitForEvents demo_read demo_reader True = Some (Return (), dispatch_events (demo_reader\<lparr>m_buf :=
      enc_event False demo_raw @ drop 32 (m_buf demo_reader), x_sys := 2\<rparr>) [demo_raw])"
    using events_decoded [OF demo_reader_reach b(1) ok _ e b(2), of 0 2 True] by (simp only: l rd demo_reader_sel of_nat_numeral)
  moreover have "char_of (97 :: nat) = CHR ''a''" "char_of (98 :: nat) = CHR ''b''" by code_simp+
  ultimately show ?thesis
    by (simp add: FindWatch_def demo_reader_sel demo_raw_def event_of_def IsType_def in_masks)
qed

subsection \<open>Names of event types\<close>

text \<open>The names listed in a dump.\<close>

fun split_commas :: "string \<Rightarrow> string list" where
  "split_commas [] = [[]]"
| "split_commas (c # cs) = (if c = CHR '','' then [] # split_commas cs else case split_commas cs of w # ws \<Rightarrow> (c # w) # ws | [] \<Rightarrow> [[c]])"

definition listed :: "uint32 \<Rightarrow> string \<Rightarrow> bool" where
  "listed u str \<longleftrightarrow> str = [] \<or> (\<forall>n \<in> set (split_commas str). IsType u (GetMaskByName n))"

lemma split_commas_ne [simp]: "split_commas xs \<noteq> []"
  by (induction xs) (auto split: list.splits)

lemma split_commas_word: "CHR '','' \<notin> set w \<Longrightarrow> split_commas w = [w]"
  by (induction w) auto

lemma split_commas_append: "CHR '','' \<notin> set w \<Longrightarrow> split_commas (xs @ CHR '','' # w) = split_commas xs @ [w]"
  by (induction xs) (auto simp: split_commas_word split: list.splits)

lemma listed_dump_if:
  assumes "listed u str" and "GetMaskByName name = t" and "CHR '','' \<notin> set name"
  shows "listed u (dump_if u t name str)"
  using assms by (auto simp: listed_def dump_if_def DUMP_SEP_def split_commas_word split_commas_append)

lemma mask_names:
  "GetMaskByName ''IN_ACCESS'' = IN_ACCESS"
  "GetMaskByName ''IN_MODIFY'' = IN_MODIFY"
  "GetMaskByName ''IN_ATTRIB'' = IN_ATTRIB"
  "GetMaskByName ''IN_CLOSE_WRITE'' = IN_CLOSE_WRITE"
  "GetMaskByName ''IN_CLOSE_NOWRITE'' = IN_CLOSE_NOWRITE"
  "GetMaskByName ''IN_OPEN'' = IN_OPEN"
  "GetMaskByName ''IN_MOVED_FROM'' = IN_MOVED_FROM"
  "GetMaskByName ''IN_MOVED_TO'' = IN_MOVED_TO"
  "GetMaskByName ''IN_CREATE'' = IN_CREATE"
  "GetMaskByName ''IN_DELETE'' = IN_DELETE"
  "GetMaskByName ''IN_DELETE_SELF'' = IN_DELETE_SELF"
  "GetMaskByName ''IN_UNMOUNT'' = IN_UNMOUNT"
  "GetMaskByName ''IN_Q_OVERFLOW'' = IN_Q_OVERFLOW"
  "GetMaskByName ''IN_IGNORED'' = IN_IGNORED"
  "GetMaskByName ''IN_CLOSE'' = IN_CLOSE"
  "GetMaskByName ''IN_MOVE'' = IN_MOVE"
  "GetMaskByName ''IN_ISDIR'' = IN_ISDIR"
  "GetMaskByName ''IN_ONESHOT'' = IN_ONESHOT"
  "GetMaskByName ''IN_ALL_EVENTS'' = IN_ALL_EVENTS"
  "GetMaskByName ''IN_DONT_FOLLOW'' = IN_DONT_FOLLOW"
  "GetMaskByName ''IN_ONLYDIR'' = IN_ONLYDIR"
  "GetMaskByName ''IN_MOVE_SELF'' = IN_MOVE_SELF"
  by (simp_all add: GetMaskByName_def)

lemma listed_if: "listed u a \<Longrightarrow> listed u b \<Longrightarrow> listed u (if c then a else b)"
  by simp

lemma listed_dump_events: "listed u (dump_events u)"
  unfolding dump_events_def Let_def
  by (intro listed_if listed_dump_if mask_names) (simp_all add: listed_def)

text \<open>The textual form of an event mask names only types that the mask contains,
  whatever the mask: each name of the list is one that \<open>GetMaskByName\<close> knows, and its type is
  in the mask.\<close>

theorem dumped_names_in_mask: "listed u (DumpTypes u)"
proof -
  have "listed u (if IsType u IN_ALL_EVENTS then ''IN_ALL_EVENTS'' else dump_events u)"
    using listed_dump_events by (auto simp: listed_def mask_names split_commas_word)
  then show ?thesis unfolding DumpTypes_def Let_def
    by (intro listed_dump_if mask_names) simp_all
qed

subsection \<open>Two slips\<close>

text \<open>The branch of the two close types hangs on the test of \<open>IN_MOVE_SELF\<close>, not on that of
  \<open>IN_CLOSE\<close>: a mask with both close types is dumped with its parts as well.\<close>

lemma close_dumped_with_parts: "DumpTypes IN_CLOSE = ''IN_CLOSE,IN_CLOSE_WRITE,IN_CLOSE_NOWRITE''"
  by (simp add: DumpTypes_def dump_events_def dump_if_def DUMP_SEP_def IsType_def in_masks Let_def)

text \<open>Removing a watch that was never added, but has the path of one that was, drops
  that path from the index although the other watch stays active: its events still arrive, but it is no
  longer found by its path.\<close>

theorem remove_drops_other_path:
  assumes "FindWatch_path st (m_path (x_heap st w)) = Some v" and "v \<noteq> w" and "m_fd st \<noteq> - 1" and "m_wd (x_heap st w) = - 1"
    and "FindWatch st d = Some v"
  shows "\<exists>st'. Remove S st w = (Return (), st') \<and> FindWatch st' d = Some v \<and> x_heap st' v = x_heap st v \<and>
    FindWatch_path st' (m_path (x_heap st w)) = None"
  using assms by (auto simp: Remove_def Let_def FindWatch_def FindWatch_path_def map_of_erase)

definition demo_twin :: "nat Inotify" where
  "demo_twin = demo_inotify\<lparr>x_heap := (x_heap demo_inotify)(4 := new_InotifyWatch NULL_ptr ''ddd'' IN_ALL_EVENTS True)\<rparr>"

theorem remove_drops_other_path_witness:
  "\<exists>st'. Remove demo_sys demo_twin 4 = (Return (), st') \<and> FindWatch st' 1 = Some 3 \<and> FindWatch_path st' ''ddd'' = None"
proof -
  have "FindWatch_path demo_twin ''ddd'' = Some 3" "m_fd demo_twin \<noteq> - 1" "FindWatch demo_twin 1 = Some 3"
    "m_path (x_heap demo_twin 4) = ''ddd''" "m_wd (x_heap demo_twin 4) = - 1"
    by (simp_all add: demo_twin_def demo_inotify_def Add_def new_Inotify_def demo_sys_def FindWatch_def FindWatch_path_def demo_heap_def
      new_InotifyWatch_def Let_def set_watch_def numeral_3_eq_3)
  then show ?thesis using remove_drops_other_path [of demo_twin 4 3 1 demo_sys] by auto
qed

end
