(* ===== verification/Synciga.thy ===== *)
theory Synciga
  imports Jid InotifyProps Pump
begin

text \<open>
  The main program: \<open>main/synciga_parserarg.cc\<close> and \<open>main/error.cc\<close> (command line), \<open>main/synciga_thread.cc\<close>
  (waiting for a message) and the decisions of \<open>main/synciga.cc\<close>: what the arguments select, which events of the watched
  directory start a transfer, and what is asked of the peer.

  Leaving the program early is a value. Logging in, the session manager and the mruby call are not
  modelled. \<open>strtol\<close> is that of a 64-bit \<open>long\<close>.
\<close>

subsection \<open>Errors\<close>

text \<open>\<open>Usage\<close>, \<open>Error\<close> and \<open>FatalError\<close> end the program.\<close>

datatype leave = Usage | Error string | FatalError string

subsection \<open>Parsing of arguments\<close>

text \<open>The position of a character, as \<open>strchr\<close> finds it.\<close>

definition before :: "char \<Rightarrow> string \<Rightarrow> string" where
  "before c s = takeWhile (\<lambda>x. x \<noteq> c) s"

definition after :: "char \<Rightarrow> string \<Rightarrow> string" where
  "after c s = tl (dropWhile (\<lambda>x. x \<noteq> c) s)"

definition ParseArg :: "string \<Rightarrow> (string \<times> string) option" where
  "ParseArg arg =
     (if take 2 arg \<noteq> ''--'' then None
      else if CHR ''='' \<in> set (drop 2 arg) then Some (before (CHR ''='') (drop 2 arg), after (CHR ''='') (drop 2 arg))
      else Some (drop 2 arg, []))"

definition is_space :: "char \<Rightarrow> bool" where
  "is_space c \<longleftrightarrow> c = CHR '' '' \<or> 9 \<le> byte_of c \<and> byte_of c \<le> 13"

definition is_digit :: "char \<Rightarrow> bool" where
  "is_digit c \<longleftrightarrow> byte_of (CHR ''0'') \<le> byte_of c \<and> byte_of c \<le> byte_of (CHR ''9'')"

definition digits_value :: "string \<Rightarrow> int" where
  "digits_value ds = foldl (\<lambda>v c. 10 * v + int (byte_of c - byte_of (CHR ''0''))) 0 ds"

definition LONG_MAX :: int where "LONG_MAX = 2 ^ 63 - 1"

text \<open>The value and the rest that \<open>endptr\<close> points to.\<close>

definition strtol :: "string \<Rightarrow> int \<times> string" where
  "strtol s =
     (let t = dropWhile is_space s;
          neg = (t \<noteq> [] \<and> hd t = CHR ''-'');
          u = (if t \<noteq> [] \<and> (hd t = CHR ''-'' \<or> hd t = CHR ''+'') then tl t else t);
          ds = takeWhile is_digit u;
          v = (if neg then - digits_value ds else digits_value ds)
      in if ds = [] then (0, s) else (max (- LONG_MAX - 1) (min LONG_MAX v), dropWhile is_digit u))"

definition ParseIntArg :: "string \<Rightarrow> string \<Rightarrow> leave + int" where
  "ParseIntArg name value =
     (let (val, rest) = strtol value in
      if rest \<noteq> [] then Inl (Error (''value of option '' @ name @ '' must be an integer''))
      else Inr (sint (word_of_int val :: 32 word)))"

definition ParseBoolArg :: "string \<Rightarrow> string \<Rightarrow> leave + bool" where
  "ParseBoolArg name value =
     (if value = ''true'' then Inr True
      else if value = ''false'' then Inr False
      else Inl (Error (''value of option '' @ name @ '' must be true or false'')))"

definition FULL_JID_REQUIRED :: string where
  "FULL_JID_REQUIRED = ''A full JID is required for the source or destination arguments.''"

text \<open>The address is left alone when the argument has no colon.\<close>

definition ParseFileArg :: "string \<Rightarrow> Jid \<Rightarrow> leave + (Jid \<times> string)" where
  "ParseFileArg arg jid =
     (if CHR '':'' \<notin> set arg then Inr (jid, arg)
      else
        let jid_arg = Jid_string (before (CHR '':'') arg) in
        if IsBare jid_arg then Inl (Error FULL_JID_REQUIRED) else Inr (jid_arg, after (CHR '':'') arg))"

subsection \<open>Options and modes\<close>

datatype TlsOptions = TLS_DISABLED | TLS_ENABLED | TLS_REQUIRED

record Options =
  o_syncer :: bool
  o_verbose :: bool
  o_host :: string
  o_port :: int
  o_tls :: TlsOptions
  o_sync_dir :: string
  o_remote_dir :: string

definition default_options :: "string \<Rightarrow> Options" where
  "default_options path = \<lparr>o_syncer = False, o_verbose = False, o_host = ''talk.google.com'', o_port = 5222,
     o_tls = TLS_REQUIRED, o_sync_dir = path, o_remote_dir = []\<rparr>"

definition parse_option :: "Options \<Rightarrow> string \<Rightarrow> string \<Rightarrow> leave + Options" where
  "parse_option opt name value =
     (if name = ''help'' then Inl Usage
      else if name = ''sync'' then Inr (opt\<lparr>o_syncer := True\<rparr>)
      else if name = ''verbose'' then Inr (opt\<lparr>o_verbose := True\<rparr>)
      else if name = ''xmpp-host'' then Inr (opt\<lparr>o_host := value\<rparr>)
      else if name = ''xmpp-port'' then
        (case ParseIntArg name value of Inl e \<Rightarrow> Inl e | Inr v \<Rightarrow> Inr (opt\<lparr>o_port := v\<rparr>))
      else if name = ''sync-dir'' then Inr (opt\<lparr>o_sync_dir := value\<rparr>)
      else if name = ''remote-dir'' then Inr (opt\<lparr>o_remote_dir := value\<rparr>)
      else if name = ''xmpp-use-tls'' then
        (case ParseBoolArg name value of Inl e \<Rightarrow> Inl e | Inr b \<Rightarrow> Inr (opt\<lparr>o_tls := (if b then TLS_REQUIRED else TLS_DISABLED)\<rparr>))
      else Inl (Error (''unknown option: '' @ name)))"

fun parse_options :: "Options \<Rightarrow> string list \<Rightarrow> leave + Options \<times> string list" where
  "parse_options opt [] = Inr (opt, [])"
| "parse_options opt (arg # args) =
     (case ParseArg arg of
        None \<Rightarrow> Inr (opt, arg # args)
      | Some (name, value) \<Rightarrow> (case parse_option opt name value of Inl e \<Rightarrow> Inl e | Inr o1 \<Rightarrow> parse_options o1 args))"

record Setup =
  c_options :: Options
  c_user :: Jid
  c_as_server :: bool
  c_src_jid :: Jid
  c_dst_jid :: Jid
  c_src_file :: string
  c_dst_file :: string

definition ONE_JID :: string where
  "ONE_JID = ''Exactly one of source JID or destination JID must be empty.''"

text \<open>The beginning of \<open>main\<close>, up to the login: \<open>cwd\<close> is the working directory, absent when \<open>getcwd\<close>
  fails, and \<open>args\<close> the arguments after the program name.\<close>

definition main_setup :: "string option \<Rightarrow> string list \<Rightarrow> leave + Setup" where
  "main_setup cwd args =
     (case cwd of
        None \<Rightarrow> Inl (Error ''Unable to get current path'')
      | Some path \<Rightarrow>
        (case parse_options (default_options path) args of
           Inl e \<Rightarrow> Inl e
         | Inr (opt, []) \<Rightarrow> Inl (Error ''bad arguments'')
         | Inr (opt, user_arg # rest) \<Rightarrow>
             let user = Jid_string user_arg;
                 base = \<lparr>c_options = opt, c_user = user, c_as_server = True, c_src_jid = empty_Jid, c_dst_jid = empty_Jid,
                         c_src_file = [], c_dst_file = []\<rparr>
             in if \<not> IsValid user then Inl (Error ''bad arguments'')
                else if o_syncer opt \<and> length rest = 1 then
                  let dst = Jid_string (hd rest) in
                  if IsBare dst then Inl (Error FULL_JID_REQUIRED)
                  else if (Str empty_Jid = []) = (Str dst = []) then Inl (Error ONE_JID)
                  else Inr (base\<lparr>c_dst_jid := dst, c_as_server := False\<rparr>)
                else if length rest = 2 then
                  (case ParseFileArg (rest ! 0) empty_Jid of
                     Inl e \<Rightarrow> Inl e
                   | Inr (src, src_file) \<Rightarrow>
                     (case ParseFileArg (rest ! 1) empty_Jid of
                        Inl e \<Rightarrow> Inl e
                      | Inr (dst, dst_file) \<Rightarrow>
                          if (Str src = []) = (Str dst = []) then Inl (Error ONE_JID)
                          else Inr (base\<lparr>c_src_jid := src, c_src_file := src_file, c_dst_jid := dst, c_dst_file := dst_file,
                                         c_as_server := False\<rparr>)))
                else if rest \<noteq> [] then Inl (Error ''bad arguments'')
                else Inr base))"

text \<open>The arguments of the command that a server prints for its clients; \<open>full\<close> is the address it was
  assigned at login.\<close>

definition client_command :: "Setup \<Rightarrow> Jid \<Rightarrow> string list" where
  "client_command c full = [''--sync'', ''--remote-dir='' @ o_sync_dir (c_options c), Str (c_user c), Str full]"

text \<open>What is done after the login: serve, watch a directory, or copy one file with a request to a peer.\<close>

datatype plan = Serve_tunnels | Watch string | Copy Jid string string bool

definition make_plan :: "Setup \<Rightarrow> plan" where
  "make_plan c =
     (if c_as_server c then Serve_tunnels
      else if o_syncer (c_options c) then Watch (o_sync_dir (c_options c))
      else if Str (c_src_jid c) = [] then Copy (c_dst_jid c) (''recv:'' @ c_dst_file c) (c_src_file c) True
      else Copy (c_src_jid c) (''send:'' @ c_src_file c) (c_dst_file c) False)"

subsection \<open>Waiting for a message\<close>

text \<open>The messages that \<open>Get\<close> delivers, each with whether it has a handler; \<open>Get\<close> fails after the
  last one. The result goes with the messages that were dispatched and those that were not fetched.\<close>

fun Loop :: "uint32 list \<Rightarrow> (bool \<times> uint32) list \<Rightarrow> uint32 \<times> uint32 list \<times> (bool \<times> uint32) list" where
  "Loop ids [] = (0, [], [])"
| "Loop ids ((handled, msg) # msgs) =
     (if \<not> handled then
        if msg \<in> set ids then (msg, [], msgs) else Loop ids msgs
      else (case Loop ids msgs of (r, dispatched, rest) \<Rightarrow> (r, msg # dispatched, rest)))"

subsection \<open>Following a directory\<close>

record SyncState =
  y_remote_dir :: string
  y_prev :: string

text \<open>One event: the request to the peer and the path of the local file, if a transfer is started.\<close>

definition sync_event :: "string \<Rightarrow> SyncState \<Rightarrow> InotifyEvent \<Rightarrow> (string \<times> string) option \<times> SyncState" where
  "sync_event sync_dir y e =
     (let mask_str = DumpTypes (ev_mask e); filename = ev_name e in
      if mask_str = ''IN_CLOSE_WRITE'' \<and> y_prev y \<noteq> ''IN_CLOSE_NOWRITE'' then
        let remote_dir = (if y_remote_dir y = [] then sync_dir else y_remote_dir y) in
        (Some (''recv:'' @ remote_dir @ ''/'' @ filename, sync_dir @ ''/'' @ filename),
         y\<lparr>y_remote_dir := remote_dir, y_prev := mask_str\<rparr>)
      else (None, y\<lparr>y_prev := mask_str\<rparr>))"

text \<open>The loop over the events that \<open>GetEventCount\<close> counted.\<close>

fun sync_loop :: "string \<Rightarrow> nat \<Rightarrow> SyncState \<Rightarrow> 'k Inotify \<Rightarrow> (string \<times> string) list \<times> SyncState \<times> 'k Inotify" where
  "sync_loop sync_dir 0 y st = ([], y, st)"
| "sync_loop sync_dir (Suc count) y st =
     (case GetEvent st (Some plain_InotifyEvent) of
        (Return (True, e), st1) \<Rightarrow>
          (case sync_event sync_dir y e of (t, y1) \<Rightarrow>
           case sync_loop sync_dir count y1 st1 of (ts, y2, st2) \<Rightarrow> ((case t of None \<Rightarrow> ts | Some x \<Rightarrow> x # ts), y2, st2))
      | (_, st1) \<Rightarrow> sync_loop sync_dir count y st1)"

text \<open>What is done between two calls of \<open>WaitForEvents\<close>: \<open>prev_mask_str\<close> starts empty.\<close>

definition sync_batch :: "string \<Rightarrow> string \<Rightarrow> 'k Inotify \<Rightarrow> (string \<times> string) list \<times> string \<times> 'k Inotify" where
  "sync_batch sync_dir remote_dir st =
     (case sync_loop sync_dir (GetEventCount st) \<lparr>y_remote_dir = remote_dir, y_prev = []\<rparr> st of
        (ts, y, st1) \<Rightarrow> (ts, y_remote_dir y, st1))"

end
