(* ===== verification/SyncigaProps.thy ===== *)
theory SyncigaProps
  imports Synciga PumpProps
begin

text \<open>
  Properties of the main program: which changes of a directory are sent to the peer, how the peer
  answers, and what the command line selects.
\<close>

subsection \<open>The text of an event mask as a list of names\<close>

definition join :: "string list \<Rightarrow> string" where
  "join xs = (case xs of [] \<Rightarrow> [] | y # ys \<Rightarrow> y @ concat (map (\<lambda>z. CHR '','' # z) ys))"

definition good_names :: "string list \<Rightarrow> bool" where
  "good_names xs \<longleftrightarrow> (\<forall>x \<in> set xs. x \<noteq> [] \<and> CHR '','' \<notin> set x)"

definition opt_name :: "uint32 \<Rightarrow> uint32 \<Rightarrow> string \<Rightarrow> string list" where
  "opt_name u t n = (if IsType u t then [n] else [])"

lemma good_names_simps [simp]:
  "good_names []" "good_names (x # xs) \<longleftrightarrow> x \<noteq> [] \<and> CHR '','' \<notin> set x \<and> good_names xs"
  "good_names (xs @ ys) \<longleftrightarrow> good_names xs \<and> good_names ys" "good_names (if c then xs else ys) \<longleftrightarrow> (if c then good_names xs else good_names ys)"
  "n \<noteq> [] \<Longrightarrow> CHR '','' \<notin> set n \<Longrightarrow> good_names (opt_name u t n)"
  by (auto simp: good_names_def opt_name_def)

lemma join_snoc: "join (xs @ [n]) = (if xs = [] then n else join xs @ CHR '','' # n)"
  by (cases xs) (simp_all add: join_def)

lemma join_single [simp]: "join [n] = n"
  by (simp add: join_def)

lemma dump_if_join:
  assumes "good_names xs" and "n \<noteq> []"
  shows "dump_if u t n (join xs) = join (xs @ opt_name u t n)"
  using assms by (cases xs) (auto simp: dump_if_def DUMP_SEP_def opt_name_def join_snoc, auto simp: join_def)

lemma dump_if_nil: "n \<noteq> [] \<Longrightarrow> dump_if u t n [] = join (opt_name u t n)"
  using dump_if_join [of "[]" n u t] by (simp add: join_def)

lemma join_if: "(if c then join xs else join ys) = join (if c then xs else ys)"
  by simp

definition event_names :: "uint32 \<Rightarrow> string list" where
  "event_names u =
     opt_name u IN_ACCESS ''IN_ACCESS'' @ opt_name u IN_MODIFY ''IN_MODIFY'' @ opt_name u IN_ATTRIB ''IN_ATTRIB'' @
     opt_name u IN_CREATE ''IN_CREATE'' @ opt_name u IN_DELETE ''IN_DELETE'' @ opt_name u IN_DELETE_SELF ''IN_DELETE_SELF'' @
     opt_name u IN_OPEN ''IN_OPEN'' @ opt_name u IN_CLOSE ''IN_CLOSE'' @
     (if IsType u IN_MOVE_SELF then opt_name u IN_MOVE_SELF ''IN_MOVE_SELF''
      else opt_name u IN_CLOSE_WRITE ''IN_CLOSE_WRITE'' @ opt_name u IN_CLOSE_NOWRITE ''IN_CLOSE_NOWRITE'') @
     (if IsType u IN_MOVE then opt_name u IN_MOVE ''IN_MOVE''
      else opt_name u IN_MOVED_FROM ''IN_MOVED_FROM'' @ opt_name u IN_MOVED_TO ''IN_MOVED_TO'')"

definition flag_names :: "uint32 \<Rightarrow> string list" where
  "flag_names u =
     opt_name u IN_UNMOUNT ''IN_UNMOUNT'' @ opt_name u IN_Q_OVERFLOW ''IN_Q_OVERFLOW'' @ opt_name u IN_IGNORED ''IN_IGNORED'' @
     opt_name u IN_ISDIR ''IN_ISDIR'' @ opt_name u IN_ONESHOT ''IN_ONESHOT'' @ opt_name u IN_DONT_FOLLOW ''IN_DONT_FOLLOW'' @
     opt_name u IN_ONLYDIR ''IN_ONLYDIR''"

lemma dump_events_join: "dump_events u = join (event_names u)"
proof -
  let ?a = "opt_name u IN_ACCESS ''IN_ACCESS'' @ opt_name u IN_MODIFY ''IN_MODIFY'' @ opt_name u IN_ATTRIB ''IN_ATTRIB'' @
     opt_name u IN_CREATE ''IN_CREATE'' @ opt_name u IN_DELETE ''IN_DELETE'' @ opt_name u IN_DELETE_SELF ''IN_DELETE_SELF'' @
     opt_name u IN_OPEN ''IN_OPEN'' @ opt_name u IN_CLOSE ''IN_CLOSE''"
  let ?b = "if IsType u IN_MOVE_SELF then opt_name u IN_MOVE_SELF ''IN_MOVE_SELF''
      else opt_name u IN_CLOSE_WRITE ''IN_CLOSE_WRITE'' @ opt_name u IN_CLOSE_NOWRITE ''IN_CLOSE_NOWRITE''"
  have a: "dump_if u IN_CLOSE ''IN_CLOSE'' (dump_if u IN_OPEN ''IN_OPEN'' (dump_if u IN_DELETE_SELF ''IN_DELETE_SELF''
      (dump_if u IN_DELETE ''IN_DELETE'' (dump_if u IN_CREATE ''IN_CREATE'' (dump_if u IN_ATTRIB ''IN_ATTRIB''
      (dump_if u IN_MODIFY ''IN_MODIFY'' (dump_if u IN_ACCESS ''IN_ACCESS'' []))))))) = join ?a"
    by (simp add: dump_if_nil dump_if_join)
  have ga: "good_names ?a" "good_names ?b" by simp_all
  have b: "(if IsType u IN_MOVE_SELF then dump_if u IN_MOVE_SELF ''IN_MOVE_SELF'' (join ?a)
      else dump_if u IN_CLOSE_NOWRITE ''IN_CLOSE_NOWRITE'' (dump_if u IN_CLOSE_WRITE ''IN_CLOSE_WRITE'' (join ?a))) = join (?a @ ?b)"
    using ga(1) by (simp add: dump_if_join)
  have gab: "good_names (?a @ ?b)" using ga by simp
  have c: "(if IsType u IN_MOVE then dump_if u IN_MOVE ''IN_MOVE'' (join (?a @ ?b))
      else dump_if u IN_MOVED_TO ''IN_MOVED_TO'' (dump_if u IN_MOVED_FROM ''IN_MOVED_FROM'' (join (?a @ ?b)))) = join (event_names u)"
  proof (cases "IsType u IN_MOVE")
    case True
    then show ?thesis using dump_if_join [OF gab, of "''IN_MOVE''" u IN_MOVE] by (simp add: event_names_def)
  next
    case False
    have "good_names ((?a @ ?b) @ opt_name u IN_MOVED_FROM ''IN_MOVED_FROM'')" using gab by simp
    from dump_if_join [OF this, of "''IN_MOVED_TO''" u IN_MOVED_TO] False show ?thesis
      using dump_if_join [OF gab, of "''IN_MOVED_FROM''" u IN_MOVED_FROM] by (simp add: event_names_def)
  qed
  show ?thesis unfolding dump_events_def Let_def a b c ..
qed

definition type_names :: "uint32 \<Rightarrow> string list" where
  "type_names u = (if IsType u IN_ALL_EVENTS then [''IN_ALL_EVENTS''] else event_names u) @ flag_names u"

lemma good_event_names: "good_names (event_names u)"
  by (simp add: event_names_def)

lemma DumpTypes_join: "DumpTypes u = join (type_names u)" "good_names (type_names u)"
proof -
  let ?a = "if IsType u IN_ALL_EVENTS then [''IN_ALL_EVENTS''] else event_names u"
  have g: "good_names ?a" using good_event_names by simp
  have "(if IsType u IN_ALL_EVENTS then ''IN_ALL_EVENTS'' else dump_events u) = join ?a"
    by (simp add: dump_events_join join_def)
  then show "DumpTypes u = join (type_names u)" using g
    by (simp add: DumpTypes_def Let_def dump_if_join type_names_def flag_names_def del: good_names_simps(4))
  show "good_names (type_names u)" using g by (simp add: type_names_def flag_names_def)
qed

lemma split_commas_join: "good_names xs \<Longrightarrow> xs \<noteq> [] \<Longrightarrow> split_commas (join xs) = xs"
proof (induction xs rule: rev_induct)
  case (snoc n xs)
  then show ?case by (cases "xs = []") (simp_all add: join_snoc split_commas_word split_commas_append)
qed simp

lemma DumpTypes_single:
  assumes "n \<noteq> []" and "CHR '','' \<notin> set n"
  shows "DumpTypes u = n \<longleftrightarrow> type_names u = [n]"
proof
  assume "DumpTypes u = n"
  moreover have "type_names u \<noteq> []" using calculation assms(1) DumpTypes_join(1) [of u] by (auto simp: join_def)
  ultimately show "type_names u = [n]" using split_commas_join [OF DumpTypes_join(2) [of u]] DumpTypes_join(1) [of u] assms(2) split_commas_word [of n] by simp
qed (simp add: DumpTypes_join(1) join_def)

lemma IsType_subset:
  assumes "IsType u b" and "a AND b = a" and "a \<noteq> 0"
  shows "IsType u a"
proof -
  have "NOT u AND a = (NOT u AND b) AND a" using assms(2) by (metis and.assoc and.commute)
  then have n: "NOT u AND a = 0" using assms(1) by (simp add: IsType_def)
  then have "u AND a = a" by (metis and.left_neutral and.right_neutral bit.conj_disj_distrib2 bit.disj_cancel_right or.right_neutral)
  then show ?thesis using n assms(3) by (simp add: IsType_def)
qed

text \<open>The types other than a close after writing.\<close>

definition other_types :: "uint32 list" where
  "other_types = [IN_ACCESS, IN_MODIFY, IN_ATTRIB, IN_CLOSE_NOWRITE, IN_OPEN, IN_MOVED_FROM, IN_MOVED_TO, IN_CREATE, IN_DELETE,
     IN_DELETE_SELF, IN_MOVE_SELF, IN_UNMOUNT, IN_Q_OVERFLOW, IN_IGNORED, IN_ONLYDIR, IN_DONT_FOLLOW, IN_ISDIR, IN_ONESHOT]"

lemma all_opt_name: "list_all P (opt_name u t n) \<longleftrightarrow> (IsType u t \<longrightarrow> P n)"
  by (simp add: opt_name_def)

lemma list_all_if: "list_all P (if c then xs else ys) \<longleftrightarrow> (c \<longrightarrow> list_all P xs) \<and> (\<not> c \<longrightarrow> list_all P ys)"
  by simp

lemma close_write_only: "DumpTypes u = ''IN_CLOSE_WRITE'' \<longleftrightarrow> IsType u IN_CLOSE_WRITE \<and> (\<forall>t \<in> set other_types. \<not> IsType u t)"
proof -
  have sub: "IsType u IN_ALL_EVENTS \<Longrightarrow> IsType u IN_MODIFY" "IsType u IN_CLOSE \<Longrightarrow> IsType u IN_CLOSE_NOWRITE"
    "IsType u IN_MOVE \<Longrightarrow> IsType u IN_MOVED_FROM"
    using IsType_subset [of u IN_ALL_EVENTS IN_MODIFY] IsType_subset [of u IN_CLOSE IN_CLOSE_NOWRITE]
      IsType_subset [of u IN_MOVE IN_MOVED_FROM] by (simp_all add: in_masks)
  have e: "DumpTypes u = ''IN_CLOSE_WRITE'' \<longleftrightarrow> type_names u = [''IN_CLOSE_WRITE'']" by (rule DumpTypes_single) simp_all
  show ?thesis
  proof
    assume "DumpTypes u = ''IN_CLOSE_WRITE''"
    then have t: "type_names u = [''IN_CLOSE_WRITE'']" using e by simp
    have "\<not> IsType u IN_ALL_EVENTS" using t by (auto simp: type_names_def)
    then have n: "event_names u @ flag_names u = [''IN_CLOSE_WRITE'']" using t by (simp add: type_names_def)
    have "list_all (\<lambda>x. x = ''IN_CLOSE_WRITE'') (event_names u @ flag_names u)" unfolding n by simp
    then have o: "\<forall>t \<in> set other_types. \<not> IsType u t"
      unfolding event_names_def flag_names_def list_all_append all_opt_name list_all_if by (simp add: other_types_def)
    have "IsType u IN_CLOSE_WRITE"
    proof (rule ccontr)
      assume "\<not> IsType u IN_CLOSE_WRITE"
      then have "event_names u @ flag_names u = []" using o sub
        by (auto simp: event_names_def flag_names_def opt_name_def other_types_def)
      then show False using n by simp
    qed
    with o show "IsType u IN_CLOSE_WRITE \<and> (\<forall>t \<in> set other_types. \<not> IsType u t)" by simp
  next
    assume a: "IsType u IN_CLOSE_WRITE \<and> (\<forall>t \<in> set other_types. \<not> IsType u t)"
    then have "\<not> IsType u IN_ALL_EVENTS" "\<not> IsType u IN_CLOSE" "\<not> IsType u IN_MOVE" using sub by (auto simp: other_types_def)
    then show "DumpTypes u = ''IN_CLOSE_WRITE''" using a
      by (simp add: e type_names_def event_names_def flag_names_def opt_name_def other_types_def)
  qed
qed

subsection \<open>Following a directory\<close>

text \<open>The transfers that a sequence of events should start: of the files whose event is exactly a close after writing, unless the
  event before it is exactly a close without writing.\<close>

definition wanted :: "string \<Rightarrow> InotifyEvent \<Rightarrow> bool" where
  "wanted prev e \<longleftrightarrow> DumpTypes (ev_mask e) = ''IN_CLOSE_WRITE'' \<and> prev \<noteq> ''IN_CLOSE_NOWRITE''"

definition transfer_of :: "string \<Rightarrow> string \<Rightarrow> InotifyEvent \<Rightarrow> string \<times> string" where
  "transfer_of sync_dir remote_dir e =
     (''recv:'' @ (if remote_dir = [] then sync_dir else remote_dir) @ ''/'' @ ev_name e, sync_dir @ ''/'' @ ev_name e)"

fun transfers :: "string \<Rightarrow> string \<Rightarrow> string \<Rightarrow> InotifyEvent list \<Rightarrow> (string \<times> string) list" where
  "transfers sync_dir remote_dir prev [] = []"
| "transfers sync_dir remote_dir prev (e # es) =
     (if wanted prev e then [transfer_of sync_dir remote_dir e] else []) @ transfers sync_dir remote_dir (DumpTypes (ev_mask e)) es"

lemma transfers_default: "transfers sync_dir (if remote_dir = [] then sync_dir else remote_dir) prev es = transfers sync_dir remote_dir prev es"
  by (induction es arbitrary: prev) (simp_all add: transfer_of_def)

lemma sync_loop_transfers:
  "\<exists>y'. sync_loop sync_dir (length (m_events st)) y st = (transfers sync_dir (y_remote_dir y) (y_prev y) (m_events st), y', st\<lparr>m_events := []\<rparr>) \<and>
     (y_remote_dir y' = y_remote_dir y \<or> y_remote_dir y' = (if y_remote_dir y = [] then sync_dir else y_remote_dir y))"
proof (induction "m_events st" arbitrary: st y)
  case Nil
  then show ?case by simp
next
  case (Cons e es)
  let ?st = "st\<lparr>m_events := es\<rparr>" and ?m = "DumpTypes (ev_mask e)"
  let ?rd = "if y_remote_dir y = [] then sync_dir else y_remote_dir y"
  have g: "GetEvent st (Some plain_InotifyEvent) = (Return (True, e), ?st)" using Cons.hyps(2) [symmetric] by (simp add: GetEvent_def)
  obtain t y1 where s: "sync_event sync_dir y e = (t, y1)" by fastforce
  have y1: "y_prev y1 = ?m" "y_remote_dir y1 = (if t = None then y_remote_dir y else ?rd)"
    "t = (if wanted (y_prev y) e then Some (transfer_of sync_dir (y_remote_dir y) e) else None)"
    using s by (auto simp: sync_event_def Let_def wanted_def transfer_of_def split: if_splits)
  obtain y2 where y2: "sync_loop sync_dir (length es) y1 ?st = (transfers sync_dir (y_remote_dir y1) (y_prev y1) es, y2, st\<lparr>m_events := []\<rparr>)"
    "y_remote_dir y2 = y_remote_dir y1 \<or> y_remote_dir y2 = (if y_remote_dir y1 = [] then sync_dir else y_remote_dir y1)"
    using Cons.hyps(1) [of ?st y1] by auto
  have "transfers sync_dir (y_remote_dir y1) (y_prev y1) es = transfers sync_dir (y_remote_dir y) ?m es"
    using y1 transfers_default by auto
  then show ?case using g s y1 y2 Cons.hyps(2) [symmetric] by (auto split: if_splits)
qed


text \<open>Property C18: an event starts a transfer exactly when its mask has the type of a close after writing and no other type,
  and the event before it in the batch was not a plain close without writing: a
  file that is moved into the directory is not sent.\<close>

theorem transfer_iff_close_write:
  "fst (sync_event sync_dir y e) \<noteq> None \<longleftrightarrow>
     IsType (ev_mask e) IN_CLOSE_WRITE \<and> (\<forall>t \<in> set other_types. \<not> IsType (ev_mask e) t) \<and> y_prev y \<noteq> ''IN_CLOSE_NOWRITE''"
  using close_write_only [of "ev_mask e"] by (auto simp: sync_event_def Let_def)

theorem transfer_iff_close_write_witness:
  "fst (sync_event ''d'' \<lparr>y_remote_dir = [], y_prev = []\<rparr> \<lparr>ev_mask = IN_CLOSE_WRITE, ev_cookie = 0, ev_name = ''f'', ev_watch = Some 0\<rparr>) \<noteq> None"
  using transfer_iff_close_write [of "''d''" "\<lparr>y_remote_dir = [], y_prev = []\<rparr>"
      "\<lparr>ev_mask = IN_CLOSE_WRITE, ev_cookie = 0, ev_name = ''f'', ev_watch = Some 0\<rparr>"]
  by (simp add: IsType_def in_masks other_types_def)

text \<open>The comparison with the previous event does not look at the file: when any file is closed
  without writing just before a written one is closed, the written file is not sent.\<close>

theorem write_after_read_skipped:
  assumes "DumpTypes (ev_mask e1) = ''IN_CLOSE_NOWRITE''"
  shows "fst (sync_event sync_dir (snd (sync_event sync_dir y e1)) e2) = None"
  using assms by (simp add: sync_event_def Let_def)

theorem write_after_read_skipped_witness:
  "fst (sync_event ''d'' (snd (sync_event ''d'' \<lparr>y_remote_dir = [], y_prev = []\<rparr>
      \<lparr>ev_mask = IN_CLOSE_NOWRITE, ev_cookie = 0, ev_name = ''a'', ev_watch = Some 0\<rparr>))
      \<lparr>ev_mask = IN_CLOSE_WRITE, ev_cookie = 0, ev_name = ''b'', ev_watch = Some 0\<rparr>) = None"
proof -
  have "DumpTypes IN_CLOSE_NOWRITE = ''IN_CLOSE_NOWRITE''"
    by (simp add: DumpTypes_def dump_events_def dump_if_def DUMP_SEP_def IsType_def in_masks Let_def)
  then show ?thesis by (intro write_after_read_skipped) simp
qed

subsection \<open>The peer's side\<close>

text \<open>What a server does with the stream of an accepted tunnel.\<close>

definition answer :: "(bool \<times> Pump \<times> 's) exec option \<Rightarrow> ('s TunnelReply \<times> Pump) exec option" where
  "answer r = map_option (map_sum id (\<lambda>(ok, p1, s1). (Accepted s1, if ok then p1 else Post 0 MSG_DONE p1))) r"

lemma recv_request:
  assumes "p_server p" and "p_file p = None"
  shows "OnIncomingTunnel T p (''recv:'' @ path) s = answer (ProcessStream T p s path False)"
  using assms by (auto simp: OnIncomingTunnel_def answer_def c_str_def Let_def split: option.splits sum.splits prod.splits)

text \<open>Property C17: a request that the program sends for a changed file is understood by an idle server: it accepts
  the tunnel and receives into the file of the same name in the directory the client was given.\<close>

theorem request_served:
  assumes "(request, local) \<in> set (fst (sync_batch sync_dir remote_dir st))" and "p_server p" and "p_file p = None"
  shows "\<exists>e \<in> set (m_events st). local = sync_dir @ ''/'' @ ev_name e \<and>
    OnIncomingTunnel T p request s =
      answer (ProcessStream T p s ((if remote_dir = [] then sync_dir else remote_dir) @ ''/'' @ ev_name e) False)"
proof -
  have "\<exists>e \<in> set es. (request, local) = transfer_of sync_dir remote_dir e" if "(request, local) \<in> set (transfers sync_dir remote_dir prev es)" for prev es
    using that by (induction es arbitrary: prev) (auto split: if_splits)
  moreover have "fst (sync_batch sync_dir remote_dir st) = transfers sync_dir remote_dir [] (m_events st)"
    using sync_loop_transfers [of sync_dir st "\<lparr>y_remote_dir = remote_dir, y_prev = []\<rparr>"] by (auto simp: sync_batch_def GetEventCount_def)
  ultimately obtain e where "e \<in> set (m_events st)" "(request, local) = transfer_of sync_dir remote_dir e"
    using assms(1) by auto
  then show ?thesis
    by (intro bexI [of _ e]) (auto simp: transfer_of_def recv_request [OF assms(2,3), simplified])
qed

definition demo_queue :: "nat Inotify" where
  "demo_queue = demo_inotify\<lparr>m_events := [\<lparr>ev_mask = IN_CLOSE_WRITE, ev_cookie = 0, ev_name = ''f'', ev_watch = Some 3\<rparr>]\<rparr>"

lemma demo_queue_transfers: "fst (sync_batch ''d'' ''r'' demo_queue) = [(''recv:r/f'', ''d/f'')]"
proof -
  have "DumpTypes IN_CLOSE_WRITE = ''IN_CLOSE_WRITE''"
    by (simp add: DumpTypes_def dump_events_def dump_if_def DUMP_SEP_def IsType_def in_masks Let_def)
  then show ?thesis by (simp add: sync_batch_def GetEventCount_def demo_queue_def GetEvent_def sync_event_def Let_def)
qed

theorem request_served_witness:
  "OnIncomingTunnel fifo_stream (Serve demo_pump) ''recv:r/f'' demo_fifo = answer (ProcessStream fifo_stream (Serve demo_pump) demo_fifo ''r/f'' False)"
  using request_served [of "''recv:r/f''" "''d/f''" "''d''" "''r''" demo_queue "Serve demo_pump" fifo_stream demo_fifo]
  by (simp add: demo_queue_transfers) (simp add: demo_queue_def Serve_def demo_pump_def new_Pump_def)

text \<open>After a transfer that could not be started, because its file could not be opened or
  its tunnel was closed, the next one fails the assertion that no file is open.\<close>

theorem failed_start_blocks_next:
  assumes "ProcessStream T p s name b = Some (Inr (False, p1, s1))"
  shows "ProcessStream T p1 s2 name2 b2 = Some (Inl Assertion_failed)"
proof -
  have "p_file p1 \<noteq> None" using assms by (auto simp: ProcessStream_def Let_def split: if_splits prod.splits option.splits sum.splits)
  then show ?thesis by (simp add: ProcessStream_def)
qed

theorem failed_start_blocks_next_witness:
  "\<exists>p1. ProcessStream fifo_stream demo_server demo_fifo ''gone'' True = Some (Inr (False, p1, demo_fifo)) \<and>
     ProcessStream fifo_stream p1 demo_fifo ''f'' True = Some (Inl Assertion_failed)"
proof -
  obtain p1 where a: "ProcessStream fifo_stream demo_server demo_fifo ''gone'' True = Some (Inr (False, p1, demo_fifo))"
    by (simp add: ProcessStream_def demo_server_def Serve_def new_Pump_def new_FileStream_def c_str_def FileStream_Open_def FileStream_Close_def c_fopen_def)
  show ?thesis using a failed_start_blocks_next [OF a] by blast
qed

subsection \<open>The command line\<close>

lemma ParseArg_plain: "take 2 arg \<noteq> ''--'' \<Longrightarrow> ParseArg arg = None"
  by (simp add: ParseArg_def)

lemma takeWhile_stop: "c \<notin> set xs \<Longrightarrow> takeWhile (\<lambda>x. x \<noteq> c) (xs @ c # ys) = xs"
  by (induction xs) auto

lemma dropWhile_stop: "c \<notin> set xs \<Longrightarrow> dropWhile (\<lambda>x. x \<noteq> c) (xs @ c # ys) = c # ys"
  by (induction xs) auto

lemma ParseArg_value: "CHR ''='' \<notin> set name \<Longrightarrow> ParseArg (''--'' @ name @ CHR ''='' # value) = Some (name, value)"
  by (simp add: ParseArg_def before_def after_def takeWhile_stop dropWhile_stop)

lemma Str_empty [simp]: "Str empty_Jid = []"
  by (simp add: Str_def IsValid_def empty_Jid_def)

text \<open>The command that a server prints makes a client that logs in as the same user, follows its own working
  directory, and sends to the server's full address and into the server's directory: parsing the
  arguments gives back what the server put into them.\<close>

theorem server_command_accepted:
  assumes "made (c_user c)" and "IsValid (c_user c)" and "take 2 (Str (c_user c)) \<noteq> ''--''" and "made full" and "IsFull full"
  shows "\<exists>c2. main_setup (Some cwd) (client_command c full) = Inr c2 \<and> c_user c2 = c_user c \<and> c_dst_jid c2 = full \<and>
    o_remote_dir (c_options c2) = o_sync_dir (c_options c) \<and> make_plan c2 = Watch cwd"
proof -
  have v: "IsValid full" "\<not> IsBare full" "Str full \<noteq> []"
    using assms(5) by (auto simp: IsFull_def IsBare_def IsEmpty_def Str_def)
  have d: "ParseArg (''--remote-dir='' @ dir) = Some (''remote-dir'', dir)" for dir
    using ParseArg_value [of "''remote-dir''" dir] by simp
  have "ParseArg ''--sync'' = Some (''sync'', [])" by (simp add: ParseArg_def)
  then have p: "parse_options (default_options cwd) (client_command c full) =
      Inr ((default_options cwd)\<lparr>o_syncer := True, o_remote_dir := o_sync_dir (c_options c)\<rparr>, [Str (c_user c), Str full])"
    unfolding client_command_def using d ParseArg_plain [OF assms(3)] by (simp add: parse_option_def)
  have "Jid_string (Str (c_user c)) = c_user c" "Jid_string (Str full) = full"
    using jid_canonical assms(1,2,4) v(1) by blast+
  then have "main_setup (Some cwd) (client_command c full) =
      Inr \<lparr>c_options = (default_options cwd)\<lparr>o_syncer := True, o_remote_dir := o_sync_dir (c_options c)\<rparr>, c_user = c_user c,
        c_as_server = False, c_src_jid = empty_Jid, c_dst_jid = full, c_src_file = [], c_dst_file = []\<rparr>"
    using assms(2) v by (simp add: main_setup_def p Let_def)
  then show ?thesis by (simp add: make_plan_def default_options_def)
qed

definition demo_user :: Jid where
  "demo_user = Jid_string ''me@example.com''"

definition demo_full :: Jid where
  "demo_full = Jid_string ''me@example.com/synciga1''"

definition demo_server_setup :: Setup where
  "demo_server_setup = \<lparr>c_options = (default_options ''/srv'')\<lparr>o_sync_dir := ''./s''\<rparr>, c_user = demo_user, c_as_server = True,
     c_src_jid = empty_Jid, c_dst_jid = empty_Jid, c_src_file = [], c_dst_file = []\<rparr>"

theorem server_command_accepted_witness:
  "\<exists>c2. main_setup (Some ''/home'') (client_command demo_server_setup demo_full) = Inr c2 \<and> c_dst_jid c2 = demo_full \<and>
     o_remote_dir (c_options c2) = ''./s'' \<and> make_plan c2 = Watch ''/home''"
proof -
  have "IsValid demo_user" "take 2 (Str demo_user) \<noteq> ''--''" "IsFull demo_full" by code_simp+
  moreover have "made demo_user" "made demo_full" unfolding demo_user_def demo_full_def by (rule made.made_string)+
  moreover have "c_user demo_server_setup = demo_user" "o_sync_dir (c_options demo_server_setup) = ''./s''"
    by (simp_all add: demo_server_setup_def)
  ultimately show ?thesis using server_command_accepted [of demo_server_setup demo_full "''/home''"] by auto
qed

lemma ParseFileArg_jid:
  assumes "ParseFileArg arg empty_Jid = Inr (j, file)"
  shows "j = empty_Jid \<or> \<not> IsBare j"
  using assms by (auto simp: ParseFileArg_def Let_def split: if_splits)

lemma not_bare_full: "\<not> IsBare j \<Longrightarrow> Str j \<noteq> [] \<Longrightarrow> IsFull j"
  by (auto simp: IsBare_def IsFull_def IsEmpty_def Str_def split: if_splits)

text \<open>Whatever the arguments, a single file is copied only to or from a full address, and the
  other end of the copy is a local file.\<close>

theorem copy_has_full_peer:
  assumes "main_setup cwd args = Inr c" and "make_plan c = Copy peer request file to_peer"
  shows "IsFull peer \<and> (if to_peer then peer = c_dst_jid c \<and> Str (c_src_jid c) = [] else peer = c_src_jid c \<and> Str (c_dst_jid c) = [])"
proof -
  have m: "\<not> c_as_server c" "\<not> o_syncer (c_options c)" "peer = (if to_peer then c_dst_jid c else c_src_jid c)" "to_peer = (Str (c_src_jid c) = [])"
    using assms(2) by (auto simp: make_plan_def split: if_splits)
  have "(Str (c_src_jid c) = []) \<noteq> (Str (c_dst_jid c) = []) \<and> (c_src_jid c = empty_Jid \<or> \<not> IsBare (c_src_jid c)) \<and>
      (c_dst_jid c = empty_Jid \<or> \<not> IsBare (c_dst_jid c))"
    using assms(1) m(1,2) unfolding main_setup_def Let_def
    by (auto split: option.splits sum.splits prod.splits list.splits if_splits dest: ParseFileArg_jid)
  then show ?thesis using m not_bare_full [of peer] by (auto split: if_splits)
qed

theorem copy_has_full_peer_witness:
  "\<exists>c. main_setup (Some ''/'') [''me@example.com'', ''a.txt'', ''me@example.com/x:b.txt''] = Inr c \<and> IsFull (c_dst_jid c)"
proof -
  let ?args = "[''me@example.com'', ''a.txt'', ''me@example.com/x:b.txt'']"
  obtain c where c: "main_setup (Some ''/'') ?args = Inr c" "make_plan c = Copy (c_dst_jid c) ''recv:b.txt'' ''a.txt'' True"
  proof -
    let ?c = "case main_setup (Some ''/'') ?args of Inr c \<Rightarrow> c"
    have "main_setup (Some ''/'') ?args = Inr ?c" "make_plan ?c = Copy (c_dst_jid ?c) ''recv:b.txt'' ''a.txt'' True" by code_simp+
    then show ?thesis using that by blast
  qed
  then show ?thesis using copy_has_full_peer [OF c] by auto
qed

text \<open>\<open>Loop\<close> returns the first message without a handler that is one of those waited for and leaves
  the ones after it, having dispatched exactly the messages with a handler before it, in order; it
  returns zero only when there are no more messages.\<close>

theorem loop_waits_for_first:
  "case Loop ids msgs of (r, dispatched, rest) \<Rightarrow>
     \<exists>before. dispatched = map snd (filter fst before) \<and> (\<forall>m \<in> set before. fst m \<or> snd m \<notin> set ids) \<and>
       (msgs = before @ (False, r) # rest \<and> r \<in> set ids \<or> msgs = before \<and> rest = [] \<and> r = 0)"
proof (induction msgs)
  case (Cons m msgs)
  obtain h i where m: "m = (h, i)" by fastforce
  obtain r dispatched rest where l: "Loop ids msgs = (r, dispatched, rest)" by (metis prod_cases3)
  obtain before where b: "dispatched = map snd (filter fst before)" "\<forall>m \<in> set before. fst m \<or> snd m \<notin> set ids"
    "msgs = before @ (False, r) # rest \<and> r \<in> set ids \<or> msgs = before \<and> rest = [] \<and> r = 0" using Cons.IH l by auto
  show ?case
  proof (cases "\<not> h \<and> i \<in> set ids")
    case True
    then show ?thesis by (auto simp: m intro: exI [of _ "[]"])
  next
    case False
    then show ?thesis using l b by (auto simp: m intro!: exI [of _ "m # before"])
  qed
qed simp

theorem loop_waits_for_first_witness:
  "\<exists>before. [7] = map snd (filter fst before) \<and> (\<forall>m \<in> set before. fst m \<or> snd m \<notin> set [3 :: uint32, 2]) \<and>
     [(True, 7), (False, 9), (False, 3), (False, 2)] = before @ (False, 3) # [(False, 2)]"
  using loop_waits_for_first [of "[3, 2]" "[(True, 7), (False, 9), (False, 3), (False, 2)]"] by auto

text \<open>Two slips: an empty port is accepted as port zero, and with the sync option and two file arguments the
  directory is followed although the other end may be the source, leaving no address to send to.\<close>

lemma empty_port_accepted: "ParseIntArg name [] = Inr 0"
  by (simp add: ParseIntArg_def strtol_def)

lemma sync_without_destination:
  "\<exists>c. main_setup (Some ''/'') [''--sync'', ''me@example.com'', ''me@example.com/x:b'', ''a''] = Inr c \<and> make_plan c = Watch ''/'' \<and>
     Str (c_dst_jid c) = []"
proof -
  let ?s = "main_setup (Some ''/'') [''--sync'', ''me@example.com'', ''me@example.com/x:b'', ''a'']"
  have "?s = Inr (case ?s of Inr c \<Rightarrow> c)" "make_plan (case ?s of Inr c \<Rightarrow> c) = Watch ''/''" "Str (c_dst_jid (case ?s of Inr c \<Rightarrow> c)) = []"
    by code_simp+
  then show ?thesis by blast
qed

end
