(* ===== verification/Logger.thy ===== *)
theory Logger
  imports Prelude
begin

text \<open>
  The log of the XMPP stream, \<open>main/logger.cc\<close>: what the client sends and receives is
  collected in two buffers, cut into tags and texts, and logged, leaving out the text after an
  authentication tag.

  \<open>new char[n]\<close> has the unspecified contents \<open>g\<close>. The final \<open>memcpy\<close> of \<open>DebugPrint\<close> may have
  overlapping regions, which the C library leaves undefined; what it then does is the parameter
  \<open>mc\<close>, a function of the buffer, the offset and the length. The date in the first line of each
  entry is left out.
\<close>

definition INT_MAX :: nat where "INT_MAX = 2147483647"

record DebugLog =
  debug_input_buf :: string
  debug_input_len :: nat
  debug_input_alloc :: nat
  debug_output_buf :: string
  debug_output_len :: nat
  debug_output_alloc :: nat
  censor_password :: bool

definition new_DebugLog :: DebugLog where
  "new_DebugLog = \<lparr>debug_input_buf = [], debug_input_len = 0, debug_input_alloc = 0,
     debug_output_buf = [], debug_output_len = 0, debug_output_alloc = 0, censor_password = False\<rparr>"

text \<open>A line of the log: the head of an entry (sent or received), or a piece of the stream
  indented by the nesting.\<close>

datatype log_line = Head bool | Piece int string

definition TEXT_REMOVED :: string where
  "TEXT_REMOVED = ''## TEXT REMOVED ##''"

subsection \<open>Appending to a buffer\<close>

text \<open>The size after \<open>k\<close> doublings of 4096.\<close>

function grow :: "nat \<Rightarrow> nat \<Rightarrow> nat exec" where
  "grow need k =
     (let alloc = 4096 * 2 ^ k in
      if alloc < need then if alloc * 2 > INT_MAX then Inl Signed_overflow else grow need (Suc k)
      else Inr alloc)"
  by pat_completeness auto
termination
  by (relation "measure (\<lambda>(need, k). need - 4096 * 2 ^ k)") (auto intro: diff_less_mono2)

declare grow.simps [simp del]

definition append_data :: "(nat \<Rightarrow> char) \<Rightarrow> string \<Rightarrow> nat \<Rightarrow> nat \<Rightarrow> string \<Rightarrow> (string \<times> nat) exec" where
  "append_data g buf len alloc data =
     (if len + length data > INT_MAX then Inl Signed_overflow
      else
        andThen (if len + length data > alloc
                 then andThen (grow (len + length data) 0) (\<lambda>a. Inr (blit (map g [0..<a]) 0 (take len buf), a))
                 else Inr (buf, alloc)) (\<lambda>(buf1, alloc1).
        Inr (blit buf1 len data, alloc1)))"

subsection \<open>Printing\<close>

definition char_le :: "char \<Rightarrow> char \<Rightarrow> bool" where
  "char_le a b \<longleftrightarrow> sint (word_of_nat (of_char a) :: byte) \<le> sint (word_of_nat (of_char b) :: byte)"

text \<open>\<open>tag.find(pat) != string::npos\<close>.\<close>

fun contains :: "string \<Rightarrow> string \<Rightarrow> bool" where
  "contains pat [] = (pat = [])"
| "contains pat (c # cs) = (take (length pat) (c # cs) = pat \<or> contains pat cs)"

text \<open>The tests of the first six characters stop at the first mismatch; a tag that ends before is out
  of bounds. It cannot be one that ends in \<open>>\<close>, as the caller's do.\<close>

definition IsAuthTag :: "string \<Rightarrow> bool exec" where
  "IsAuthTag str =
     (if length str < 6 \<and> take (length str) ''<auth'' = str then Inl Out_of_bounds
      else Inr (take 5 str = ''<auth'' \<and> char_le (str ! 5) (CHR '' '') \<and> contains ''mechanism'' str))"

text \<open>The loop over the buffer; \<open>start\<close>, \<open>nest\<close>, the flag and the lines logged so far are carried
  along.\<close>

record scan =
  sc_start :: nat
  sc_nest :: int
  sc_censor :: bool
  sc_lines :: "log_line list"

definition piece :: "string \<Rightarrow> nat \<Rightarrow> nat \<Rightarrow> string" where
  "piece buf a b = take (b - a) (drop a buf)"

definition tag_end :: "string \<Rightarrow> nat \<Rightarrow> nat \<Rightarrow> scan \<Rightarrow> scan exec" where
  "tag_end buf len i s =
     (if buf ! i = CHR ''>'' then
        let (indent, nest) =
              (if i > 0 \<and> buf ! (i - 1) = CHR ''/'' then (False, sc_nest s)
               else if sc_start s + 1 < len \<and> buf ! (sc_start s + 1) = CHR ''/'' then (False, sc_nest s - 2)
               else (True, sc_nest s));
            tag = piece buf (sc_start s) (i + 1)
        in andThen (IsAuthTag tag) (\<lambda>auth.
           Inr \<lparr>sc_start = i + 1, sc_nest = (if indent then nest + 2 else nest), sc_censor = (auth \<or> sc_censor s),
                sc_lines = sc_lines s @ [Piece nest tag]\<rparr>)
      else Inr s)"

definition text_end :: "string \<Rightarrow> nat \<Rightarrow> scan \<Rightarrow> scan" where
  "text_end buf i s =
     (if buf ! i = CHR ''<'' \<and> sc_start s < i then
        if sc_censor s
        then s\<lparr>sc_lines := sc_lines s @ [Piece (sc_nest s) TEXT_REMOVED], sc_censor := False, sc_start := i\<rparr>
        else s\<lparr>sc_lines := sc_lines s @ [Piece (sc_nest s) (piece buf (sc_start s) i)], sc_start := i\<rparr>
      else s)"

function scan_loop :: "string \<Rightarrow> nat \<Rightarrow> nat \<Rightarrow> scan \<Rightarrow> scan exec" where
  "scan_loop buf len i s =
     (if i < len then andThen (tag_end buf len i s) (\<lambda>s1. scan_loop buf len (i + 1) (text_end buf i s1)) else Inr s)"
  by pat_completeness auto
termination
  by (relation "measure (\<lambda>(_, len, i, _). len - i)") auto

declare scan_loop.simps [simp del]

definition memcpy_within :: "(string \<Rightarrow> nat \<Rightarrow> nat \<Rightarrow> string) \<Rightarrow> string \<Rightarrow> nat \<Rightarrow> nat \<Rightarrow> string" where
  "memcpy_within mc buf start len = (if len \<le> start then blit buf 0 (take len (drop start buf)) else mc buf start len)"

definition DebugPrint ::
  "(string \<Rightarrow> nat \<Rightarrow> nat \<Rightarrow> string) \<Rightarrow> bool \<Rightarrow> string \<Rightarrow> nat \<Rightarrow> bool \<Rightarrow> (bool \<times> string \<times> nat \<times> log_line list) exec" where
  "DebugPrint mc censor buf len output =
     (if len > 0 then
        andThen (scan_loop buf len 0 \<lparr>sc_start = 0, sc_nest = 3, sc_censor = censor, sc_lines = [Head output]\<rparr>) (\<lambda>s.
        let len1 = len - sc_start s in
        Inr (sc_censor s, memcpy_within mc buf (sc_start s) len1, len1, sc_lines s))
      else Inr (censor, buf, len, []))"

subsection \<open>The two signals\<close>

definition Input ::
  "(nat \<Rightarrow> char) \<Rightarrow> (string \<Rightarrow> nat \<Rightarrow> nat \<Rightarrow> string) \<Rightarrow> DebugLog \<Rightarrow> string \<Rightarrow> (DebugLog \<times> log_line list) exec" where
  "Input g mc d data =
     andThen (append_data g (debug_input_buf d) (debug_input_len d) (debug_input_alloc d) data) (\<lambda>(buf, alloc).
     andThen (DebugPrint mc (censor_password d) buf (debug_input_len d + length data) False) (\<lambda>(c, buf1, len, ls).
     Inr (d\<lparr>debug_input_buf := buf1, debug_input_len := len, debug_input_alloc := alloc, censor_password := c\<rparr>, ls)))"

definition Output ::
  "(nat \<Rightarrow> char) \<Rightarrow> (string \<Rightarrow> nat \<Rightarrow> nat \<Rightarrow> string) \<Rightarrow> DebugLog \<Rightarrow> string \<Rightarrow> (DebugLog \<times> log_line list) exec" where
  "Output g mc d data =
     andThen (append_data g (debug_output_buf d) (debug_output_len d) (debug_output_alloc d) data) (\<lambda>(buf, alloc).
     andThen (DebugPrint mc (censor_password d) buf (debug_output_len d + length data) True) (\<lambda>(c, buf1, len, ls).
     Inr (d\<lparr>debug_output_buf := buf1, debug_output_len := len, debug_output_alloc := alloc, censor_password := c\<rparr>, ls)))"

subsection \<open>What the log shows\<close>

text \<open>The specification reads the stream one character at a time: a tag ends at its closing bracket, a text
  at the next opening one.\<close>

definition auth_tag :: "string \<Rightarrow> bool" where
  "auth_tag t \<longleftrightarrow> take 5 t = ''<auth'' \<and> char_le (t ! 5) (CHR '' '') \<and> contains ''mechanism'' t"

fun tok_char :: "string \<times> bool \<times> string list \<Rightarrow> char \<Rightarrow> string \<times> bool \<times> string list" where
  "tok_char (p, c, out) ch =
     (if ch = CHR ''>'' then ([], auth_tag (p @ [ch]) \<or> c, out @ [p @ [ch]])
      else if ch = CHR ''<'' \<and> p \<noteq> [] then ([ch], False, out @ [if c then TEXT_REMOVED else p])
      else (p @ [ch], c, out))"

definition tokens :: "string \<times> bool \<times> string list \<Rightarrow> string \<Rightarrow> string \<times> bool \<times> string list" where
  "tokens st cs = foldl tok_char st cs"

definition pieces :: "log_line list \<Rightarrow> string list" where
  "pieces ls = concat (map (\<lambda>l. case l of Head _ \<Rightarrow> [] | Piece _ t \<Rightarrow> [t]) ls)"

definition scan_abs :: "string \<Rightarrow> nat \<Rightarrow> scan \<Rightarrow> string \<times> bool \<times> string list" where
  "scan_abs buf i s = (piece buf (sc_start s) i, sc_censor s, pieces (sc_lines s))"

lemma tokens_simps [simp]: "tokens st [] = st" "tokens st (c # cs) = tokens (tok_char st c) cs"
  "tokens st (xs @ ys) = tokens (tokens st xs) ys"
  by (simp_all add: tokens_def)

lemma pieces_simps [simp]: "pieces [] = []" "pieces (xs @ ys) = pieces xs @ pieces ys" "pieces [Head b] = []" "pieces [Piece n t] = [t]"
  by (simp_all add: pieces_def)

lemma piece_Suc: "a \<le> i \<Longrightarrow> i < length buf \<Longrightarrow> piece buf a (Suc i) = piece buf a i @ [buf ! i]"
  by (simp add: piece_def Suc_diff_le take_Suc_conv_app_nth)

lemma piece_self [simp]: "piece buf a a = []"
  by (simp add: piece_def)

lemma piece_empty_iff: "i < length buf \<Longrightarrow> piece buf a i = [] \<longleftrightarrow> i \<le> a"
  by (auto simp: piece_def)

lemma IsAuthTag_closed: "IsAuthTag (p @ [CHR ''>'']) = Inr (auth_tag (p @ [CHR ''>'']))"
proof -
  let ?t = "p @ [CHR ''>'']"
  have "take (length ?t) ''<auth'' \<noteq> ?t"
  proof
    assume a: "take (length ?t) ''<auth'' = ?t"
    have "CHR ''>'' \<in> set (take (length ?t) ''<auth'')" unfolding a by simp
    then have "CHR ''>'' \<in> set ''<auth''" by (rule in_set_takeD)
    then show False by simp
  qed
  then show ?thesis by (simp add: IsAuthTag_def auth_tag_def)
qed

lemma scan_step:
  assumes "sc_start s \<le> i" and "i < len" and "len \<le> length buf"
  shows "\<exists>s1. tag_end buf len i s = Inr s1 \<and> sc_start (text_end buf i s1) \<le> Suc i \<and>
    scan_abs buf (Suc i) (text_end buf i s1) = tok_char (scan_abs buf i s) (buf ! i)"
proof -
  have p: "piece buf (sc_start s) (Suc i) = piece buf (sc_start s) i @ [buf ! i]" using assms by (simp add: piece_Suc)
  show ?thesis
  proof (cases "buf ! i = CHR ''>''")
    case True
    then show ?thesis
      using p by (auto simp: tag_end_def Let_def IsAuthTag_closed text_end_def scan_abs_def)
  next
    case False
    have e: "piece buf i (Suc i) = [buf ! i]" using assms piece_Suc [of i i buf] by simp
    have n: "piece buf (sc_start s) i = [] \<longleftrightarrow> \<not> sc_start s < i" using assms piece_empty_iff [of i buf] by auto
    show ?thesis using False assms(1) by (auto simp: tag_end_def text_end_def scan_abs_def p e n)
  qed
qed

lemma scan_loop_tokens:
  assumes "sc_start s \<le> i" and "i \<le> len" and "len \<le> length buf"
  shows "\<exists>s1. scan_loop buf len i s = Inr s1 \<and> sc_start s1 \<le> len \<and> scan_abs buf len s1 = tokens (scan_abs buf i s) (take (len - i) (drop i buf))"
  using assms
proof (induction "len - i" arbitrary: i s)
  case 0
  then show ?case by (simp add: scan_loop.simps)
next
  case (Suc n)
  then have i: "i < len" by simp
  obtain s1 where s1: "tag_end buf len i s = Inr s1" "sc_start (text_end buf i s1) \<le> Suc i"
    "scan_abs buf (Suc i) (text_end buf i s1) = tok_char (scan_abs buf i s) (buf ! i)"
    using scan_step [OF Suc.prems(1) i Suc.prems(3)] by blast
  have d: "take (len - i) (drop i buf) = buf ! i # take (len - Suc i) (drop (Suc i) buf)"
    using i Suc.prems(3) by (metis Cons_nth_drop_Suc Suc_diff_Suc order_less_le_trans take_Suc_Cons)
  have "n = len - Suc i" "Suc i \<le> len" using Suc.hyps(2) i by simp_all
  from Suc.hyps(1) [OF this(1) s1(2) this(2) Suc.prems(3)] show ?case
    using i s1(1,3) by (simp add: scan_loop.simps [of buf len i] d)
qed

lemma DebugPrint_tokens:
  assumes "len \<le> length buf" and "\<And>a n. mc buf a n = blit buf 0 (take n (drop a buf))"
  shows "\<exists>c1 buf1 len1 ls. DebugPrint mc c buf len dir = Inr (c1, buf1, len1, ls) \<and> len1 \<le> len \<and> length buf1 = length buf \<and>
    (take len1 buf1, c1, pieces ls) = tokens ([], c, []) (take len buf)"
proof (cases "len = 0")
  case True
  then show ?thesis by (simp add: DebugPrint_def)
next
  case False
  let ?s = "\<lparr>sc_start = 0, sc_nest = 3, sc_censor = c, sc_lines = [Head dir]\<rparr>"
  obtain s1 where s1: "scan_loop buf len 0 ?s = Inr s1" "sc_start s1 \<le> len" "scan_abs buf len s1 = tokens (scan_abs buf 0 ?s) (take len buf)"
    using scan_loop_tokens [of ?s 0 len buf] assms(1) by auto
  let ?n = "len - sc_start s1"
  have m: "memcpy_within mc buf (sc_start s1) ?n = blit buf 0 (take ?n (drop (sc_start s1) buf))"
    by (simp add: memcpy_within_def assms(2))
  have l: "length (take ?n (drop (sc_start s1) buf)) = ?n" using assms(1) s1(2) by simp
  have "scan_abs buf 0 ?s = ([], c, [])" by (simp add: scan_abs_def piece_def)
  moreover have "take ?n (blit buf 0 (take ?n (drop (sc_start s1) buf))) = piece buf (sc_start s1) len" using l by (simp add: blit_def piece_def)
  ultimately show ?thesis
    using False s1 l assms(1) by (simp add: DebugPrint_def m Let_def scan_abs_def)
qed

subsection \<open>The text held back\<close>

definition quiet :: "string \<Rightarrow> bool" where
  "quiet p \<longleftrightarrow> CHR ''>'' \<notin> set p \<and> CHR ''<'' \<notin> set (tl p)"

lemma tokens_no_bracket: "CHR ''>'' \<notin> set q \<Longrightarrow> CHR ''<'' \<notin> set q \<Longrightarrow> tokens (p, c, out) q = (p @ q, c, out)"
  by (induction q arbitrary: p) auto

lemma tokens_quiet: "quiet p \<Longrightarrow> tokens ([], c, out) p = (p, c, out)"
  by (cases p) (auto simp: quiet_def tokens_no_bracket)

lemma tok_char_quiet: "quiet p \<Longrightarrow> quiet (fst (tok_char (p, c, out) ch))"
  by (cases p) (auto simp: quiet_def)

lemma tokens_stay_quiet: "quiet p \<Longrightarrow> quiet (fst (tokens (p, c, out) cs))"
proof (induction cs arbitrary: p c out)
  case (Cons ch cs)
  obtain p1 c1 out1 where "tok_char (p, c, out) ch = (p1, c1, out1)" by (metis prod_cases3)
  then show ?case using Cons.IH [of p1 c1 out1] tok_char_quiet [OF Cons.prems, of c out ch] by (metis fst_conv tokens_simps(2))
qed simp

lemma tokens_out: "tokens (p, c, out @ o1) cs = (case tokens (p, c, o1) cs of (p1, c1, o2) \<Rightarrow> (p1, c1, out @ o2))"
  by (induction cs arbitrary: p c o1) simp_all

subsection \<open>Appending\<close>

lemma grow_ok:
  assumes "need \<le> 4096 * 2 ^ 18" and "k \<le> 18"
  shows "\<exists>a. grow need k = Inr a \<and> need \<le> a"
  using assms
proof (induction need k rule: grow.induct)
  case (1 need k)
  show ?case
  proof (cases "4096 * 2 ^ k < need")
    case True
    then have "(2 :: nat) ^ k < 2 ^ 18" using 1(2) by linarith
    then have k: "Suc k \<le> 18" using power_less_imp_less_exp [of "2 :: nat" k 18] by simp
    then have "(2 :: nat) ^ Suc k \<le> 2 ^ 18" by (intro power_increasing) simp_all
    then have "\<not> 4096 * 2 ^ k * 2 > INT_MAX" by (simp add: INT_MAX_def)
    then show ?thesis using 1(1) [OF refl True _ 1(2) k] True by (simp add: grow.simps [of need k])
  next
    case False
    then show ?thesis by (simp add: grow.simps [of need k])
  qed
qed

lemma append_data_ok:
  assumes "length buf = alloc" and "len \<le> alloc" and "len + length data \<le> 4096 * 2 ^ 18"
  shows "\<exists>buf1 alloc1. append_data g buf len alloc data = Inr (buf1, alloc1) \<and> length buf1 = alloc1 \<and>
    len + length data \<le> alloc1 \<and> take (len + length data) buf1 = take len buf @ data"
proof -
  have i: "\<not> len + length data > INT_MAX" using assms(3) by (simp add: INT_MAX_def)
  obtain a where a: "grow (len + length data) 0 = Inr a" "len + length data \<le> a"
    using grow_ok [OF assms(3), of 0] by auto
  have b: "length (blit b len data) = length b" "take (len + length data) (blit b len data) = take len b @ data"
    if "len + length data \<le> length b" for b
    using that by (simp_all add: blit_def)
  have t: "take len (blit (map g [0..<a]) 0 (take len buf)) = take len buf"
    using assms(1,2) a(2) by (simp add: blit_def)
  have l: "length (blit (map g [0..<a]) 0 (take len buf)) = a"
    using assms(1,2) a(2) by (simp add: blit_def)
  show ?thesis
    using i a b [of buf] b [of "blit (map g [0..<a]) 0 (take len buf)"] t l assms(1)
    by (cases "len + length data > alloc") (simp_all add: append_data_def)
qed

subsection \<open>Sequences of calls\<close>

definition log_ok :: "DebugLog \<Rightarrow> bool" where
  "log_ok d \<longleftrightarrow> length (debug_input_buf d) = debug_input_alloc d \<and> debug_input_len d \<le> debug_input_alloc d \<and>
     length (debug_output_buf d) = debug_output_alloc d \<and> debug_output_len d \<le> debug_output_alloc d"

definition held_in :: "DebugLog \<Rightarrow> string" where
  "held_in d = take (debug_input_len d) (debug_input_buf d)"

definition held_out :: "DebugLog \<Rightarrow> string" where
  "held_out d = take (debug_output_len d) (debug_output_buf d)"

text \<open>A call is a direction, \<open>True\<close> for what is sent, and the data.\<close>

definition log_call ::
  "(nat \<Rightarrow> char) \<Rightarrow> (string \<Rightarrow> nat \<Rightarrow> nat \<Rightarrow> string) \<Rightarrow> DebugLog \<Rightarrow> bool \<times> string \<Rightarrow> (DebugLog \<times> log_line list) exec" where
  "log_call g mc d call = (if fst call then Output g mc d (snd call) else Input g mc d (snd call))"

fun log_run ::
  "(nat \<Rightarrow> char) \<Rightarrow> (string \<Rightarrow> nat \<Rightarrow> nat \<Rightarrow> string) \<Rightarrow> DebugLog \<Rightarrow> (bool \<times> string) list \<Rightarrow> (DebugLog \<times> log_line list) exec" where
  "log_run g mc d [] = Inr (d, [])"
| "log_run g mc d (call # calls) =
     andThen (log_call g mc d call) (\<lambda>(d1, ls). andThen (log_run g mc d1 calls) (\<lambda>(d2, ls2). Inr (d2, ls @ ls2)))"

text \<open>The specification keeps the texts held back in the two directions and the flag they share.\<close>

fun spec_run :: "string \<times> string \<times> bool \<Rightarrow> (bool \<times> string) list \<Rightarrow> (string \<times> string \<times> bool) \<times> string list" where
  "spec_run st [] = (st, [])"
| "spec_run (pin, pout, c) ((True, data) # calls) =
     (case tokens (pout, c, []) data of (p, c1, out) \<Rightarrow>
      case spec_run (pin, p, c1) calls of (st, outs) \<Rightarrow> (st, out @ outs))"
| "spec_run (pin, pout, c) ((False, data) # calls) =
     (case tokens (pin, c, []) data of (p, c1, out) \<Rightarrow>
      case spec_run (p, pout, c1) calls of (st, outs) \<Rightarrow> (st, out @ outs))"

definition moves :: "(string \<Rightarrow> nat \<Rightarrow> nat \<Rightarrow> string) \<Rightarrow> bool" where
  "moves mc \<longleftrightarrow> (\<forall>buf a n. mc buf a n = blit buf 0 (take n (drop a buf)))"

lemma call_tokens:
  assumes "length buf = alloc" and "len \<le> alloc" and "quiet (take len buf)" and "len + length data \<le> 4096 * 2 ^ 18" and "moves mc"
  obtains buf1 alloc1 c1 buf2 len2 ls where "append_data g buf len alloc data = Inr (buf1, alloc1)"
    and "DebugPrint mc c buf1 (len + length data) dir = Inr (c1, buf2, len2, ls)" and "len2 \<le> len + length data"
    and "length buf2 = alloc1" and "len2 \<le> alloc1" and "tokens (take len buf, c, []) data = (take len2 buf2, c1, pieces ls)"
    and "quiet (take len2 buf2)"
proof -
  obtain buf1 alloc1 where a: "append_data g buf len alloc data = Inr (buf1, alloc1)" "length buf1 = alloc1"
    "len + length data \<le> alloc1" "take (len + length data) buf1 = take len buf @ data"
    using append_data_ok [OF assms(1,2,4)] by blast
  have "mc buf1 a n = blit buf1 0 (take n (drop a buf1))" for a n using assms(5) by (simp add: moves_def)
  then obtain c1 buf2 len2 ls where p: "DebugPrint mc c buf1 (len + length data) dir = Inr (c1, buf2, len2, ls)"
    "len2 \<le> len + length data" "length buf2 = length buf1"
    "(take len2 buf2, c1, pieces ls) = tokens ([], c, []) (take (len + length data) buf1)"
    using DebugPrint_tokens [where len = "len + length data" and buf = buf1 and mc = mc and c = c and dir = dir] a(2,3) by auto
  have t: "tokens (take len buf, c, []) data = (take len2 buf2, c1, pieces ls)"
    using p(4) by (simp add: a(4) tokens_quiet [OF assms(3)])
  then have "quiet (take len2 buf2)" using tokens_stay_quiet [OF assms(3), of c "[]" data] by simp
  then show ?thesis using that [OF a(1) p(1,2)] p(2,3) a(2,3) t by simp
qed

lemma log_run_refines:
  assumes "log_ok d" and "quiet (held_in d)" and "quiet (held_out d)" and "moves mc"
    and "debug_input_len d + debug_output_len d + sum_list (map (\<lambda>c. length (snd c)) calls) \<le> 4096 * 2 ^ 18"
  shows "\<exists>d1 ls. log_run g mc d calls = Inr (d1, ls) \<and>
    spec_run (held_in d, held_out d, censor_password d) calls = ((held_in d1, held_out d1, censor_password d1), pieces ls)"
  using assms
proof (induction calls arbitrary: d)
  case (Cons call calls)
  obtain dir data where call: "call = (dir, data)" by fastforce
  have "\<exists>d1 ls. log_call g mc d call = Inr (d1, ls) \<and> log_ok d1 \<and> quiet (held_in d1) \<and> quiet (held_out d1) \<and>
    debug_input_len d1 + debug_output_len d1 \<le> debug_input_len d + debug_output_len d + length data \<and>
    (if dir then tokens (held_out d, censor_password d, []) data = (held_out d1, censor_password d1, pieces ls) \<and> held_in d1 = held_in d
     else tokens (held_in d, censor_password d, []) data = (held_in d1, censor_password d1, pieces ls) \<and> held_out d1 = held_out d)"
  proof (cases dir)
    case True
    have "debug_output_len d + length data \<le> 4096 * 2 ^ 18" using Cons.prems(5) call by simp
    then obtain buf1 alloc1 c1 buf2 len2 ls where
      "append_data g (debug_output_buf d) (debug_output_len d) (debug_output_alloc d) data = Inr (buf1, alloc1)"
      "DebugPrint mc (censor_password d) buf1 (debug_output_len d + length data) True = Inr (c1, buf2, len2, ls)"
      "len2 \<le> debug_output_len d + length data" "length buf2 = alloc1" "len2 \<le> alloc1"
      "tokens (held_out d, censor_password d, []) data = (take len2 buf2, c1, pieces ls)" "quiet (take len2 buf2)"
      using call_tokens [of "debug_output_buf d" "debug_output_alloc d" "debug_output_len d" data mc g "censor_password d" True]
        Cons.prems(1,3,4) unfolding log_ok_def held_out_def by metis
    then show ?thesis using True Cons.prems(1,2)
      by (simp add: log_call_def call Output_def log_ok_def held_in_def held_out_def)
  next
    case False
    have "debug_input_len d + length data \<le> 4096 * 2 ^ 18" using Cons.prems(5) call by simp
    then obtain buf1 alloc1 c1 buf2 len2 ls where
      "append_data g (debug_input_buf d) (debug_input_len d) (debug_input_alloc d) data = Inr (buf1, alloc1)"
      "DebugPrint mc (censor_password d) buf1 (debug_input_len d + length data) False = Inr (c1, buf2, len2, ls)"
      "len2 \<le> debug_input_len d + length data" "length buf2 = alloc1" "len2 \<le> alloc1"
      "tokens (held_in d, censor_password d, []) data = (take len2 buf2, c1, pieces ls)" "quiet (take len2 buf2)"
      using call_tokens [of "debug_input_buf d" "debug_input_alloc d" "debug_input_len d" data mc g "censor_password d" False]
        Cons.prems(1,2,4) unfolding log_ok_def held_in_def by metis
    then show ?thesis using False Cons.prems(1,3)
      by (simp add: log_call_def call Input_def log_ok_def held_in_def held_out_def)
  qed
  then obtain d1 ls where c: "log_call g mc d call = Inr (d1, ls)" "log_ok d1" "quiet (held_in d1)" "quiet (held_out d1)"
    "debug_input_len d1 + debug_output_len d1 \<le> debug_input_len d + debug_output_len d + length data"
    "if dir then tokens (held_out d, censor_password d, []) data = (held_out d1, censor_password d1, pieces ls) \<and> held_in d1 = held_in d
     else tokens (held_in d, censor_password d, []) data = (held_in d1, censor_password d1, pieces ls) \<and> held_out d1 = held_out d"
    by blast
  have "debug_input_len d1 + debug_output_len d1 + sum_list (map (\<lambda>c. length (snd c)) calls) \<le> 4096 * 2 ^ 18"
    using c(5) Cons.prems(5) call by simp
  from Cons.IH [OF c(2,3,4) assms(4) this] obtain d2 ls2 where
    "log_run g mc d1 calls = Inr (d2, ls2)"
    "spec_run (held_in d1, held_out d1, censor_password d1) calls = ((held_in d2, held_out d2, censor_password d2), pieces ls2)"
    by blast
  then show ?case using c(1,6) call by (cases dir) simp_all
qed simp

subsection \<open>Properties\<close>

lemma new_DebugLog_run:
  assumes "moves mc" and "sum_list (map (\<lambda>c. length (snd c)) calls) \<le> 2 ^ 30"
  obtains d ls where "log_run g mc new_DebugLog calls = Inr (d, ls)"
    and "spec_run ([], [], False) calls = ((held_in d, held_out d, censor_password d), pieces ls)"
  using log_run_refines [of new_DebugLog mc calls g] assms
  by (auto simp: log_ok_def new_DebugLog_def held_in_def held_out_def quiet_def)


definition memmove_within :: "string \<Rightarrow> nat \<Rightarrow> nat \<Rightarrow> string" where
  "memmove_within buf a n = blit buf 0 (take n (drop a buf))"

lemma moves_memmove: "moves memmove_within"
  by (simp add: moves_def memmove_within_def)


lemma contains_iff: "contains pat xs \<longleftrightarrow> (\<exists>a b. xs = a @ pat @ b)"
proof (induction xs)
  case (Cons c cs)
  have "take (length pat) (c # cs) = pat \<longleftrightarrow> (\<exists>b. c # cs = pat @ b)" by (metis append_eq_conv_conj append_take_drop_id)
  then show ?case using Cons.IH by (auto simp: Cons_eq_append_conv append_eq_Cons_conv)
qed simp

lemma contains_mono: "contains pat ys \<Longrightarrow> contains pat (xs @ ys @ zs)"
  by (auto simp: contains_iff) (metis append.assoc)

lemma tokens_keep:
  assumes "\<not> contains ''mechanism'' (p @ cs)" and "tokens (p, False, out) cs = (p1, c1, out1)"
  shows "\<not> c1 \<and> concat out1 @ p1 = concat out @ p @ cs"
  using assms
proof (induction cs arbitrary: p out)
  case (Cons ch cs)
  have "\<not> auth_tag (p @ [ch])"
    using Cons.prems(1) contains_mono [of "''mechanism''" "p @ [ch]" "[]" cs] by (auto simp: auth_tag_def)
  then have t: "tok_char (p, False, out) ch = (if ch = CHR ''>'' then ([], False, out @ [p @ [ch]])
    else if ch = CHR ''<'' \<and> p \<noteq> [] then ([ch], False, out @ [p]) else (p @ [ch], False, out))" by auto
  have n: "\<not> contains ''mechanism'' cs" "\<not> contains ''mechanism'' (ch # cs)"
    using Cons.prems(1) contains_mono [of "''mechanism''" cs "p @ [ch]" "[]"] contains_mono [of "''mechanism''" "ch # cs" p "[]"] by auto
  show ?case
    using Cons.IH [of "[]" "out @ [p @ [ch]]"] Cons.IH [of "[ch]" "out @ [p]"] Cons.IH [of "p @ [ch]" out] Cons.prems n
    unfolding tokens_simps t by (auto split: if_splits)
qed simp

lemma spec_run_out:
  "spec_run (pin, pout, c) (map (Pair True) cs) =
     (case tokens (pout, c, []) (concat cs) of (p, c1, out) \<Rightarrow> ((pin, p, c1), out))"
proof (induction cs arbitrary: pout c)
  case (Cons x cs)
  obtain p1 c1 o1 where "tokens (pout, c, []) x = (p1, c1, o1)" by (metis prod_cases3)
  then show ?case using Cons.IH [of p1 c1] tokens_out [of p1 c1 o1 "[]" "concat cs"] by (simp split: prod.splits)
qed simp

lemma sum_list_calls: "sum_list (map (\<lambda>c. length (snd c)) (map (Pair True) cs)) = length (concat cs)"
  by (induction cs) simp_all

text \<open>A stream without an authentication tag is logged completely and in order: what
  was logged followed by what is held back is what was sent, however it was cut into calls.\<close>

theorem log_keeps_stream:
  assumes "moves mc" and "length (concat cs) \<le> 2 ^ 30" and "\<not> contains ''mechanism'' (concat cs)"
  shows "\<exists>d ls. log_run g mc new_DebugLog (map (Pair True) cs) = Inr (d, ls) \<and> concat (pieces ls) @ held_out d = concat cs"
proof -
  obtain d ls where r: "log_run g mc new_DebugLog (map (Pair True) cs) = Inr (d, ls)"
    "spec_run ([], [], False) (map (Pair True) cs) = ((held_in d, held_out d, censor_password d), pieces ls)"
    using new_DebugLog_run [OF assms(1), of "map (Pair True) cs"] assms(2) unfolding sum_list_calls by metis
  then have "tokens ([], False, []) (concat cs) = (held_out d, censor_password d, pieces ls)"
    by (simp add: spec_run_out split: prod.splits)
  then show ?thesis using tokens_keep [of "[]" "concat cs" "[]"] assms(3) r(1) by auto
qed

theorem log_keeps_stream_witness:
  "\<exists>d ls. log_run (\<lambda>_. CHR ''x'') memmove_within new_DebugLog (map (Pair True) [''<a'', ''>b'']) = Inr (d, ls) \<and>
     concat (pieces ls) @ held_out d = ''<a>b''"
  using log_keeps_stream [OF moves_memmove, of "[''<a'', ''>b'']"] by simp

subsection \<open>Authentication\<close>

definition plain_text :: "string \<Rightarrow> bool" where
  "plain_text s \<longleftrightarrow> s \<noteq> [] \<and> CHR ''>'' \<notin> set s \<and> CHR ''<'' \<notin> set s"

definition is_tag :: "string \<Rightarrow> bool" where
  "is_tag t \<longleftrightarrow> (\<exists>b. t = CHR ''<'' # b @ ''>'' \<and> CHR ''>'' \<notin> set b \<and> CHR ''<'' \<notin> set b)"

lemma tokens_tag:
  assumes "is_tag t"
  shows "tokens ([], c, out) t = ([], auth_tag t \<or> c, out @ [t])"
  using assms by (auto simp: is_tag_def tokens_no_bracket)

lemma tokens_text:
  assumes "plain_text s"
  shows "tokens ([], c, out) (s @ [CHR ''<'']) = (''<'', False, out @ [if c then TEXT_REMOVED else s])"
  using assms by (simp add: plain_text_def tokens_no_bracket)

lemma tokens_secret:
  assumes "is_tag tag" and "auth_tag tag" and "plain_text s" and "tokens ([], False, []) pre = ([], c, out)"
  shows "tokens ([], False, []) (pre @ tag @ s @ CHR ''<'' # post) = tokens (''<'', False, out @ [tag, TEXT_REMOVED]) post"
proof -
  have "tokens ([], True, out @ [tag]) (s @ CHR ''<'' # post) = tokens (tokens ([], True, out @ [tag]) (s @ [CHR ''<''])) post"
    by simp
  also have "\<dots> = tokens (''<'', False, out @ [tag, TEXT_REMOVED]) post" unfolding tokens_text [OF assms(3)] by simp
  finally show ?thesis using assms(2) unfolding tokens_simps(3) [of _ pre] assms(4) tokens_simps(3) [of _ tag] tokens_tag [OF assms(1)]
    by (simp del: tokens_simps(3))
qed

text \<open>When nothing is received in between, the text that follows an authentication tag does not
  reach the log: two sessions that differ only in that text, and in how the data was cut into calls,
  log the same pieces.\<close>

theorem secret_not_logged:
  assumes "moves mc" and "is_tag tag" and "auth_tag tag" and "plain_text s1" and "plain_text s2"
    and "fst (tokens ([], False, []) pre) = []"
    and "concat cs1 = pre @ tag @ s1 @ CHR ''<'' # post" and "concat cs2 = pre @ tag @ s2 @ CHR ''<'' # post"
    and "length (concat cs1) \<le> 2 ^ 30" and "length (concat cs2) \<le> 2 ^ 30"
  shows "\<exists>d1 ls1 d2 ls2. log_run g mc new_DebugLog (map (Pair True) cs1) = Inr (d1, ls1) \<and>
    log_run g mc new_DebugLog (map (Pair True) cs2) = Inr (d2, ls2) \<and> pieces ls1 = pieces ls2 \<and> TEXT_REMOVED \<in> set (pieces ls1)"
proof -
  obtain c out where p: "tokens ([], False, []) pre = ([], c, out)" using assms(6) by (metis fst_conv prod_cases3)
  obtain d1 ls1 where r1: "log_run g mc new_DebugLog (map (Pair True) cs1) = Inr (d1, ls1)"
    "spec_run ([], [], False) (map (Pair True) cs1) = ((held_in d1, held_out d1, censor_password d1), pieces ls1)"
    using new_DebugLog_run [OF assms(1), of "map (Pair True) cs1"] assms(9) unfolding sum_list_calls by metis
  obtain d2 ls2 where r2: "log_run g mc new_DebugLog (map (Pair True) cs2) = Inr (d2, ls2)"
    "spec_run ([], [], False) (map (Pair True) cs2) = ((held_in d2, held_out d2, censor_password d2), pieces ls2)"
    using new_DebugLog_run [OF assms(1), of "map (Pair True) cs2"] assms(10) unfolding sum_list_calls by metis
  obtain p3 c3 out3 where t: "tokens (''<'', False, []) post = (p3, c3, out3)" by (metis prod_cases3)
  have "pieces ls1 = (out @ [tag, TEXT_REMOVED]) @ out3" "pieces ls2 = (out @ [tag, TEXT_REMOVED]) @ out3"
    using r1(2) r2(2) tokens_secret [OF assms(2,3,4) p, of post] tokens_secret [OF assms(2,3,5) p, of post] t
      tokens_out [of "''<''" False "out @ [tag, TEXT_REMOVED]" "[]" post] assms(7,8)
    by (simp_all add: spec_run_out split: prod.splits)
  then show ?thesis using r1(1) r2(1) by simp
qed

definition demo_tag :: string where
  "demo_tag = ''<auth mechanism='' @ CHR 0x22 # ''PLAIN'' @ CHR 0x22 # ''>''"

lemma demo_tag_ok: "is_tag demo_tag" "auth_tag demo_tag"
proof -
  have "demo_tag = CHR ''<'' # (''auth mechanism='' @ CHR 0x22 # ''PLAIN'' @ [CHR 0x22]) @ ''>''" by (simp add: demo_tag_def)
  then show "is_tag demo_tag" unfolding is_tag_def by (intro exI conjI) (assumption, simp_all)
  have "contains ''mechanism'' demo_tag" unfolding contains_iff
    by (rule exI [of _ "''<auth ''"], rule exI [of _ "CHR ''='' # CHR 0x22 # ''PLAIN'' @ CHR 0x22 # ''>''"]) (simp add: demo_tag_def)
  moreover have "char_le (CHR '' '') (CHR '' '')" by (simp add: char_le_def)
  ultimately show "auth_tag demo_tag" by (simp add: auth_tag_def demo_tag_def)
qed

theorem secret_not_logged_witness:
  "\<exists>d1 ls1 d2 ls2. log_run (\<lambda>_. CHR ''x'') memmove_within new_DebugLog (map (Pair True) [demo_tag, ''abc'', ''<'']) = Inr (d1, ls1) \<and>
    log_run (\<lambda>_. CHR ''x'') memmove_within new_DebugLog (map (Pair True) [demo_tag @ ''xyzz<'']) = Inr (d2, ls2) \<and> pieces ls1 = pieces ls2"
  using secret_not_logged [OF moves_memmove demo_tag_ok, of "''abc''" "''xyzz''" "[]" "[demo_tag, ''abc'', ''<'']" "[]"
      "[demo_tag @ ''xyzz<'']" "\<lambda>_. CHR ''x''"]
  by (auto simp: plain_text_def demo_tag_def)

text \<open>The two directions share the flag that suppresses the next text. When a text is received
  between the authentication tag and the text that follows it, the received text is suppressed and the secret is logged.\<close>

theorem secret_leaks_when_interleaved:
  assumes "moves mc" and "is_tag tag" and "auth_tag tag" and "plain_text s" and "plain_text r"
    and "length tag + length s + length r + 2 \<le> 2 ^ 30"
  shows "\<exists>d ls. log_run g mc new_DebugLog [(True, tag), (False, r @ ''<''), (True, s @ ''<'')] = Inr (d, ls) \<and> s \<in> set (pieces ls)"
proof -
  let ?calls = "[(True, tag), (False, r @ ''<''), (True, s @ ''<'')]"
  have "snd (spec_run ([], [], False) ?calls) = [tag, TEXT_REMOVED, s]"
    using assms(3) tokens_text [OF assms(4)] tokens_text [OF assms(5)]
    by (simp del: tokens_simps(3) add: tokens_tag [OF assms(2)])
  moreover have "sum_list (map (\<lambda>c. length (snd c)) ?calls) \<le> 2 ^ 30" using assms(6) by simp
  ultimately show ?thesis using new_DebugLog_run [OF assms(1), of ?calls] by (metis list.set_intros snd_conv)
qed

theorem secret_leaks_when_interleaved_witness:
  "\<exists>d ls. log_run (\<lambda>_. CHR ''x'') memmove_within new_DebugLog [(True, demo_tag), (False, '' <''), (True, ''secret<'')] = Inr (d, ls) \<and>
     ''secret'' \<in> set (pieces ls)"
  using secret_leaks_when_interleaved [OF moves_memmove demo_tag_ok, of "''secret''" "'' ''" "\<lambda>_. CHR ''x''"]
  by (simp add: plain_text_def demo_tag_def)

end
